(* ===== verification/SrsPrelude.thy ===== *)
theory SrsPrelude imports Main "HOL-Library.While_Combinator" begin

text \<open>
  The ground every component of the library stands on: what a C statement of the source can do
  besides yielding a value, and the loops, arrays and size computations the sources share.

  \<^item> A C computation is a value of type \<open>'a res\<close>: \<open>Inr v\<close> when it runs to its end with the
    result \<open>v\<close>, \<open>Inl f\<close> when it does something C gives no meaning to (or leaves the program).
  \<^item> An array obtained from \<open>malloc\<close> is a list of cells; a cell nobody has written yet is
    \<open>Undef\<close>. Reading or writing outside the list is the fault \<open>Out_Of_Bounds\<close>. A NULL data
    pointer is the list without cells: every access through it faults.
  \<^item> A loop of the source is \<open>c_loop body s\<close>: \<open>body\<close> is one iteration, which continues with a new
    state, leaves the loop with a result, or faults. A loop that never ends is the value
    \<open>Inl Diverges\<close>, so that "the code returns" is a statement one has to prove.
  \<^item> A recursive C function takes the number of nested calls the stack has room for; beyond it the
    value is \<open>Inl Stack_Overflow\<close>. How much room is enough is part of what is proved.
  \<^item> \<open>size_t\<close> values are natural numbers below \<open>2 ^ 64\<close>; the operations \<open>sz_add\<close>, \<open>sz_sub\<close> and
    \<open>sz_mul\<close> wrap around as the C operators do.
\<close>

named_theorems c_simps \<open>equations that evaluate straight-line code of the model\<close>
named_theorems sz_simps \<open>size computations that stay in range\<close>

section \<open>Results of C computations\<close>

datatype fault =
    Null_Deref
  | Dangling
  | Out_Of_Bounds
  | Indeterminate
  | Bad_Arith
  | Stack_Overflow
  | Exits nat
  | Diverges

type_synonym 'a res = "fault + 'a"

definition bind_res :: "'a res \<Rightarrow> ('a \<Rightarrow> 'b res) \<Rightarrow> 'b res" where
  "bind_res m f = (case m of Inl e \<Rightarrow> Inl e | Inr x \<Rightarrow> f x)"

definition check :: "bool \<Rightarrow> fault \<Rightarrow> unit res" where
  "check b e = (if b then Inr () else Inl e)"

definition is_ok :: "'a res \<Rightarrow> bool" where
  "is_ok m = (case m of Inl _ \<Rightarrow> False | Inr _ \<Rightarrow> True)"

lemma bind_res_Inl [simp, c_simps]: "bind_res (Inl e) f = Inl e"
  and bind_res_Inr [simp, c_simps]: "bind_res (Inr x) f = f x"
  by (simp_all add: bind_res_def)

lemma is_ok_simps [simp]: "is_ok (Inr x)" "\<not> is_ok (Inl e)"
  by (simp_all add: is_ok_def)

lemma is_ok_iff: "is_ok m \<longleftrightarrow> (\<exists>x. m = Inr x)"
  by (cases m) auto

lemma check_simps [simp, c_simps]: "check True e = Inr ()" "check False e = Inl e"
  by (simp_all add: check_def)

lemma bind_res_weak_cong [cong]: "m = m' \<Longrightarrow> bind_res m f = bind_res m' f"
  by simp

lemma bind_res_eq_Inr: "bind_res m f = Inr y \<longleftrightarrow> (\<exists>x. m = Inr x \<and> f x = Inr y)"
  by (cases m) auto

lemma bind_res_assoc: "bind_res (bind_res m f) g = bind_res m (\<lambda>x. bind_res (f x) g)"
  by (cases m) auto

section \<open>Loops\<close>

text \<open>One iteration of a loop either goes on with a new state or leaves the loop.\<close>

datatype ('s, 'r) step = Continue 's | Break 'r

definition c_loop :: "('s \<Rightarrow> ('s, 'r) step res) \<Rightarrow> 's \<Rightarrow> 'r res" where
  "c_loop body s =
     (case while_option
             (\<lambda>m. case m of Inr (Continue _) \<Rightarrow> True | _ \<Rightarrow> False)
             (\<lambda>m. case m of Inr (Continue t) \<Rightarrow> body t | _ \<Rightarrow> m)
             (Inr (Continue s)) of
        None \<Rightarrow> Inl Diverges
      | Some (Inl e) \<Rightarrow> Inl e
      | Some (Inr (Break r)) \<Rightarrow> Inr r
      | Some (Inr (Continue _)) \<Rightarrow> Inl Diverges)"

lemma c_loop_unfold:
  "c_loop body s =
     (case body s of
        Inl e \<Rightarrow> Inl e
      | Inr (Continue t) \<Rightarrow> c_loop body t
      | Inr (Break r) \<Rightarrow> Inr r)"
proof -
  let ?b = "\<lambda>m. case m of Inr (Continue _) \<Rightarrow> True | _ \<Rightarrow> False"
  let ?c = "\<lambda>m. case m of Inr (Continue t) \<Rightarrow> body t | _ \<Rightarrow> m"
  have start: "while_option ?b ?c (Inr (Continue s)) = while_option ?b ?c (body s)"
    by (subst while_option_unfold) simp
  show ?thesis
  proof (cases "body s")
    case (Inl e)
    have "while_option ?b ?c (body s) = Some (Inl e)"
      unfolding Inl by (subst while_option_unfold) simp
    with Inl start show ?thesis by (simp add: c_loop_def)
  next
    case (Inr st)
    show ?thesis
    proof (cases st)
      case (Continue t)
      with Inr start show ?thesis by (simp add: c_loop_def)
    next
      case (Break r)
      have "while_option ?b ?c (body s) = Some (Inr (Break r))"
        unfolding Inr Break by (subst while_option_unfold) simp
      with Inr Break start show ?thesis by (simp add: c_loop_def)
    qed
  qed
qed

lemma c_loop_Continue: "body s = Inr (Continue t) \<Longrightarrow> c_loop body s = c_loop body t"
  by (subst c_loop_unfold) simp

lemma c_loop_Break: "body s = Inr (Break r) \<Longrightarrow> c_loop body s = Inr r"
  by (subst c_loop_unfold) simp

lemma c_loop_fault: "body s = Inl e \<Longrightarrow> c_loop body s = Inl e"
  by (subst c_loop_unfold) simp

text \<open>
  Total correctness: an invariant, a measure that every further iteration decreases, and what
  leaving the loop establishes.
\<close>

lemma c_loop_rule:
  fixes m :: "'s \<Rightarrow> nat"
  assumes init: "I s"
    and step: "\<And>s. I s \<Longrightarrow>
      (\<exists>t. body s = Inr (Continue t) \<and> I t \<and> m t < m s) \<or> (\<exists>r. body s = Inr (Break r) \<and> Q r)"
  shows "\<exists>r. c_loop body s = Inr r \<and> Q r"
  using init
proof (induction "m s" arbitrary: s rule: less_induct)
  case less
  from step [OF less.prems] show ?case
  proof (elim disjE exE conjE)
    fix t assume "body s = Inr (Continue t)" "I t" "m t < m s"
    with less.hyps [of t] show ?thesis by (simp add: c_loop_Continue)
  next
    fix r assume "body s = Inr (Break r)" "Q r"
    then show ?thesis by (simp add: c_loop_Break)
  qed
qed

text \<open>What a loop that does return establishes.\<close>

lemma c_loop_partial:
  assumes loop: "c_loop body s = Inr r" and init: "I s"
    and keep: "\<And>s t. I s \<Longrightarrow> body s = Inr (Continue t) \<Longrightarrow> I t" and leave: "\<And>s q. I s \<Longrightarrow> body s = Inr (Break q) \<Longrightarrow> Q q"
  shows "Q r"
proof -
  let ?b = "\<lambda>m. case m of Inr (Continue _) \<Rightarrow> True | _ \<Rightarrow> False"
  let ?c = "\<lambda>m. case m of Inr (Continue t) \<Rightarrow> body t | _ \<Rightarrow> m"
  let ?P = "\<lambda>m. case m of Inr (Continue t) \<Rightarrow> I t | Inr (Break q) \<Rightarrow> Q q | Inl (e :: fault) \<Rightarrow> True"
  have w: "while_option ?b ?c (Inr (Continue s)) = Some (Inr (Break r))"
    using loop by (auto simp: c_loop_def split: option.splits sum.splits step.splits)
  have "?P (Inr (Break r))"
    by (rule while_option_rule [where P = ?P, OF _ w]) (use init keep leave in \<open>auto split: sum.splits step.splits\<close>)
  then show ?thesis by simp
qed

text \<open>A loop whose body maps an invariant into itself and never leaves does not return.\<close>

lemma c_loop_diverges:
  assumes init: "I s" and step: "\<And>s. I s \<Longrightarrow> \<exists>t. body s = Inr (Continue t) \<and> I t"
  shows "c_loop body s = Inl Diverges"
proof -
  let ?b = "\<lambda>m. case m of Inr (Continue _) \<Rightarrow> True | _ \<Rightarrow> False"
  let ?c = "\<lambda>m. case m of Inr (Continue t) \<Rightarrow> body t | _ \<Rightarrow> m"
  let ?J = "\<lambda>m. \<exists>t. m = Inr (Continue t) \<and> I t"
  have "while_option ?b ?c (Inr (Continue s)) = None"
  proof (rule ccontr)
    assume "while_option ?b ?c (Inr (Continue s)) \<noteq> None"
    then obtain r where r: "while_option ?b ?c (Inr (Continue s)) = Some r" by blast
    have "?J r"
      by (rule while_option_rule [where P = ?J, OF _ r]) (use init step in auto)
    moreover have "\<not> ?b r" using r by (rule while_option_stop)
    ultimately show False by auto
  qed
  then show ?thesis by (simp add: c_loop_def)
qed

section \<open>Arrays\<close>

datatype 'a cell = Undef | Val (the_val: 'a)

definition arr_get :: "'a cell list \<Rightarrow> nat \<Rightarrow> 'a res" where
  "arr_get a i =
     (if i < length a then (case a ! i of Undef \<Rightarrow> Inl Indeterminate | Val x \<Rightarrow> Inr x)
      else Inl Out_Of_Bounds)"

definition arr_set :: "'a cell list \<Rightarrow> nat \<Rightarrow> 'a \<Rightarrow> 'a cell list res" where
  "arr_set a i x = (if i < length a then Inr (a[i := Val x]) else Inl Out_Of_Bounds)"

text \<open>
  \<open>arr_copy dst i src j n\<close> is \<open>memcpy (dst + i, src + j, n)\<close> counted in cells: it copies the
  cells as they are, written or not.
\<close>

definition arr_copy ::
  "'a cell list \<Rightarrow> nat \<Rightarrow> 'a cell list \<Rightarrow> nat \<Rightarrow> nat \<Rightarrow> 'a cell list res" where
  "arr_copy dst i src j n =
     (if i + n \<le> length dst \<and> j + n \<le> length src
      then Inr (take i dst @ take n (drop j src) @ drop (i + n) dst)
      else Inl Out_Of_Bounds)"

text \<open>\<open>realloc\<close> keeps what fits and leaves the rest of the new block unwritten.\<close>

definition arr_realloc :: "'a cell list \<Rightarrow> nat \<Rightarrow> 'a cell list" where
  "arr_realloc a n = take n a @ replicate (n - length a) Undef"

lemma length_arr_realloc [simp]: "length (arr_realloc a n) = n"
  by (simp add: arr_realloc_def)

lemma arr_get_Val [simp]: "i < length xs \<Longrightarrow> arr_get (map Val xs @ ys) i = Inr (xs ! i)"
  by (simp add: arr_get_def nth_append)

lemma arr_get_cell: "i < length a \<Longrightarrow> a ! i = Val x \<Longrightarrow> arr_get a i = Inr x"
  by (simp add: arr_get_def)

lemma arr_get_Inr_iff: "arr_get a i = Inr x \<longleftrightarrow> i < length a \<and> a ! i = Val x"
  by (auto simp: arr_get_def split: cell.splits)

lemma arr_set_Val [simp]:
  "i < length xs \<Longrightarrow> arr_set (map Val xs @ ys) i x = Inr (map Val (xs[i := x]) @ ys)"
  by (simp add: arr_set_def list_update_append map_update)

lemma arr_set_end:
  "arr_set (map Val xs @ c # ys) (length xs) x = Inr (map Val (xs @ [x]) @ ys)"
  by (simp add: arr_set_def list_update_append)

lemma arr_set_in: "i < length a \<Longrightarrow> arr_set a i x = Inr (a[i := Val x])"
  by (simp add: arr_set_def)

lemma arr_set_out: "length a \<le> i \<Longrightarrow> arr_set a i x = Inl Out_Of_Bounds"
  by (simp add: arr_set_def)

lemma arr_get_out: "length a \<le> i \<Longrightarrow> arr_get a i = Inl Out_Of_Bounds"
  by (simp add: arr_get_def)

lemma arr_copy_in:
  "i + n \<le> length dst \<Longrightarrow> j + n \<le> length src \<Longrightarrow>
   arr_copy dst i src j n = Inr (take i dst @ take n (drop j src) @ drop (i + n) dst)"
  by (simp add: arr_copy_def)

text \<open>The stretch of an array between two indices, as the values it holds.\<close>

definition cells :: "nat \<Rightarrow> nat \<Rightarrow> 'a cell list \<Rightarrow> 'a cell list" where
  "cells i j a = take (j - i) (drop i a)"

definition all_val :: "'a cell list \<Rightarrow> bool" where
  "all_val a \<longleftrightarrow> (\<forall>c \<in> set a. c \<noteq> Undef)"

definition vals :: "'a cell list \<Rightarrow> 'a list" where
  "vals a = map the_val a"

lemma vals_map_Val [simp]: "vals (map Val xs) = xs"
  by (simp add: vals_def comp_def)

lemma all_val_map_Val [simp]: "all_val (map Val xs)"
  by (simp add: all_val_def)

lemma all_val_simps [simp]:
  "all_val []" "all_val (c # a) \<longleftrightarrow> c \<noteq> Undef \<and> all_val a"
  "all_val (a @ b) \<longleftrightarrow> all_val a \<and> all_val b"
  by (auto simp: all_val_def)

lemma vals_simps [simp]:
  "vals [] = []" "vals (c # a) = the_val c # vals a" "vals (a @ b) = vals a @ vals b"
  "length (vals a) = length a"
  by (auto simp: vals_def)

lemma all_val_iff: "all_val a \<longleftrightarrow> a = map Val (vals a)"
proof
  assume "all_val a"
  then show "a = map Val (vals a)"
    by (induction a) (auto simp: all_val_def vals_def neq_commute intro: cell.exhaust)
next
  assume "a = map Val (vals a)"
  then show "all_val a" by (metis all_val_map_Val)
qed

lemma length_cells [simp]: "j \<le> length a \<Longrightarrow> length (cells i j a) = j - i"
  by (simp add: cells_def)

lemma nth_cells: "i + k < j \<Longrightarrow> j \<le> length a \<Longrightarrow> cells i j a ! k = a ! (i + k)"
  by (simp add: cells_def)

lemma cells_empty [simp]: "j \<le> i \<Longrightarrow> cells i j a = []"
  by (simp add: cells_def)

lemma cells_snoc: "i \<le> j \<Longrightarrow> j < length a \<Longrightarrow> cells i (Suc j) a = cells i j a @ [a ! j]"
  by (simp add: cells_def Suc_diff_le take_Suc_conv_app_nth)

lemma cells_cons: "i < j \<Longrightarrow> j \<le> length a \<Longrightarrow> cells i j a = a ! i # cells (Suc i) j a"
  by (auto simp: cells_def Cons_nth_drop_Suc [symmetric] Suc_diff_Suc [symmetric])

lemma cells_update_out: "k < i \<or> j \<le> k \<Longrightarrow> cells i j (a[k := c]) = cells i j a"
proof (elim disjE)
  assume "j \<le> k"
  then show ?thesis
    by (cases "i \<le> k") (simp_all add: cells_def drop_update_swap drop_update_cancel)
qed (simp add: cells_def)

lemma vals_nth_in: "k < length a \<Longrightarrow> vals a ! k = the_val (a ! k)"
  by (simp add: vals_def)

lemma all_val_nth: "all_val a \<Longrightarrow> k < length a \<Longrightarrow> a ! k = Val (vals a ! k)"
  by (metis all_val_iff nth_map vals_simps(4))

text \<open>\<open>fill dest i xs\<close>: the array with the list written from the index on.\<close>

definition fill :: "'a cell list \<Rightarrow> nat \<Rightarrow> 'a list \<Rightarrow> 'a cell list" where
  "fill dest i xs = take i dest @ map Val xs @ drop (i + length xs) dest"

lemma length_fill: "i + length xs \<le> length dest \<Longrightarrow> length (fill dest i xs) = length dest"
  by (simp add: fill_def)

lemma fill_fill: "i + length xs + length ys \<le> length dest \<Longrightarrow> fill (fill dest i xs) (i + length xs) ys = fill dest i (xs @ ys)"
  by (simp add: fill_def add.commute add.left_commute)

lemma fill_all: "length xs = n \<Longrightarrow> fill (replicate n Undef) 0 xs = map Val xs"
  by (simp add: fill_def)

lemma fill_Nil [simp]: "fill dest i [] = dest"
  by (simp add: fill_def)

lemma arr_set_fill: "i < length a \<Longrightarrow> arr_set a i x = Inr (fill a i [x])"
  by (simp add: arr_set_def fill_def upd_conv_take_nth_drop)

section \<open>Sizes\<close>

definition size_max :: nat where
  "size_max = 2 ^ 64"

definition sz_add :: "nat \<Rightarrow> nat \<Rightarrow> nat" where
  "sz_add a b = (a + b) mod size_max"

definition sz_sub :: "nat \<Rightarrow> nat \<Rightarrow> nat" where
  "sz_sub a b = (a + (size_max - b mod size_max)) mod size_max"

definition sz_mul :: "nat \<Rightarrow> nat \<Rightarrow> nat" where
  "sz_mul a b = (a * b) mod size_max"

lemma sz_add_small [sz_simps]: "a + b < size_max \<Longrightarrow> sz_add a b = a + b"
  by (simp add: sz_add_def)

lemma sz_mul_small [sz_simps]: "a * b < size_max \<Longrightarrow> sz_mul a b = a * b"
  by (simp add: sz_mul_def)

lemma sz_sub_small [sz_simps]: "b \<le> a \<Longrightarrow> a < size_max \<Longrightarrow> sz_sub a b = a - b"
proof -
  assume a: "b \<le> a" "a < size_max"
  then have "a + (size_max - b mod size_max) = (a - b) + size_max" by simp
  then have "sz_sub a b = (a - b) mod size_max" by (simp only: sz_sub_def mod_add_self2)
  with a show ?thesis by simp
qed

lemma sz_bounds: "sz_add a b < size_max" "sz_sub a b < size_max" "sz_mul a b < size_max"
  by (simp_all add: sz_add_def sz_sub_def sz_mul_def size_max_def)

section \<open>Memory\<close>

text \<open>
  Whether a request for a number of bytes succeeds is up to the allocator: the model takes it as
  a predicate \<open>alloc\<close> on the size. The one fact the components rely on is that no object is
  larger than \<open>PTRDIFF_MAX\<close>, which every C library on an LP64 system guarantees.
\<close>

definition ptr_size :: nat where
  "ptr_size = 8"

definition alloc_ok :: "(nat \<Rightarrow> bool) \<Rightarrow> bool" where
  "alloc_ok alloc \<longleftrightarrow> (\<forall>n. alloc n \<longrightarrow> n < 2 ^ 63)"

text \<open>The largest number of pointers an object can hold.\<close>

definition max_cells :: nat where
  "max_cells = 2 ^ 60"

lemma alloc_cells_bound:
  "alloc_ok alloc \<Longrightarrow> n < 2 * max_cells \<Longrightarrow> alloc (sz_mul n ptr_size) \<Longrightarrow> n < max_cells"
proof -
  assume ok: "alloc_ok alloc" and n: "n < 2 * max_cells" and a: "alloc (sz_mul n ptr_size)"
  from n have "sz_mul n ptr_size = n * 8"
    by (simp add: sz_mul_def ptr_size_def max_cells_def size_max_def)
  with ok a have "n * 8 < 2 ^ 63" by (metis alloc_ok_def)
  then show ?thesis by (simp add: max_cells_def)
qed

text \<open>
  \<open>block_cells n\<close> is how many pointers fit in the block that \<open>malloc (n * sizeof (void *))\<close>
  returns: the product wraps, so for huge \<open>n\<close> the block is shorter than \<open>n\<close>.
\<close>

definition block_cells :: "nat \<Rightarrow> nat" where
  "block_cells n = sz_mul n ptr_size div ptr_size"

lemma block_cells_small [sz_simps]: "n < 2 * max_cells \<Longrightarrow> block_cells n = n"
  by (simp add: block_cells_def sz_mul_def ptr_size_def max_cells_def size_max_def)

text \<open>The allocator that serves every request up to a limit.\<close>

definition mem_upto :: "nat \<Rightarrow> nat \<Rightarrow> bool" where
  "mem_upto lim n \<longleftrightarrow> n \<le> lim"

lemma mem_upto_ok: "lim < 2 ^ 63 \<Longrightarrow> alloc_ok (mem_upto lim)"
  by (simp add: alloc_ok_def mem_upto_def)

end
