(* ===== verification/CDouble.thy ===== *)
theory CDouble imports Complex_Main "HOL-Library.Log_Nat" SrsPrelude begin

text \<open>
  The floating-point arithmetic that deque.c and dynarr.c compute sizes with. A finite
  \<open>double\<close> is the rational number it stands for; \<open>rnd\<close> is IEEE 754 rounding to a 53-bit
  significand, to nearest with ties to even, and every operation of the source is the exact
  operation followed by \<open>rnd\<close>. The exponent range is not bounded: the operands are sizes below
  \<open>2 ^ 64\<close> and their ratios, far from overflow and from the subnormal numbers, and a product
  too large for \<open>size_t\<close> is a fault when it is converted back (\<open>to_size\<close>), as it is in C.
\<close>

type_synonym double = rat

section \<open>Rounding\<close>

definition exp_of :: "rat \<Rightarrow> int" where
  "exp_of x =
     (case quotient_of \<bar>x\<bar> of (p, q) \<Rightarrow>
        (let e = bitlen p - bitlen q in if 2 powi e \<le> \<bar>x\<bar> then e else e - 1))"

definition round_even :: "rat \<Rightarrow> int" where
  "round_even y =
     (let f = \<lfloor>y\<rfloor>; r = y - of_int f in
      if r < 1/2 then f else if 1/2 < r then f + 1 else if even f then f else f + 1)"

definition rnd :: "rat \<Rightarrow> double" where
  "rnd x =
     (if x = 0 then 0
      else let u = 2 powi (exp_of x - 52) in of_int (round_even (x / u)) * u)"

definition dbl :: "nat \<Rightarrow> double" where
  "dbl n = rnd (of_nat n)"

definition d_add :: "double \<Rightarrow> double \<Rightarrow> double" where
  "d_add x y = rnd (x + y)"

definition d_sub :: "double \<Rightarrow> double \<Rightarrow> double" where
  "d_sub x y = rnd (x - y)"

definition d_mul :: "double \<Rightarrow> double \<Rightarrow> double" where
  "d_mul x y = rnd (x * y)"

definition d_div :: "double \<Rightarrow> double \<Rightarrow> double res" where
  "d_div x y = (if y = 0 then Inl Bad_Arith else Inr (rnd (x / y)))"

text \<open>Conversion to \<open>size_t\<close> drops the fraction and is undefined out of range.\<close>

definition to_size :: "double \<Rightarrow> nat res" where
  "to_size x =
     (let t = (if 0 \<le> x then \<lfloor>x\<rfloor> else \<lceil>x\<rceil>) in
      if 0 \<le> t \<and> t < int size_max then Inr (nat t) else Inl Bad_Arith)"

section \<open>The rounding error\<close>

lemma exp_of_le:
  assumes "x \<noteq> 0"
  shows "2 powi (exp_of x) \<le> \<bar>x\<bar>"
proof -
  obtain p q where pq: "quotient_of \<bar>x\<bar> = (p, q)" by (cases "quotient_of \<bar>x\<bar>")
  then have q: "0 < q" by (rule quotient_of_denom_pos)
  from pq have x: "\<bar>x\<bar> = of_int p / of_int q" by (rule quotient_of_div)
  with assms q have p: "0 < p"
    by (metis abs_of_nonneg abs_zero divide_le_0_iff less_le_not_le linorder_not_less of_int_0_le_iff
        of_int_pos zero_less_abs_iff linorder_le_less_linear of_int_le_0_iff)
  let ?e = "bitlen p - bitlen q"
  have "2 powi (?e - 1) \<le> \<bar>x\<bar>"
  proof -
    have bp: "(2::rat) ^ nat (bitlen p - 1) \<le> of_int p"
      using bitlen_bounds [OF p] by (metis of_int_le_iff of_int_numeral of_int_power)
    have bq: "of_int q \<le> (2::rat) ^ nat (bitlen q)"
      using bitlen_bounds [OF q] by (metis less_imp_le of_int_le_iff of_int_numeral of_int_power)
    have b0: "0 < bitlen p" "0 < bitlen q"
      using p q by (simp_all add: bitlen_def order_less_le floorlog_eq_zero_iff) 
    have "?e - 1 = int (nat (bitlen p - 1)) - int (nat (bitlen q))" using b0 by simp
    then have "(2::rat) powi (?e - 1) = 2 ^ nat (bitlen p - 1) / 2 ^ nat (bitlen q)"
      by (metis power_int_diff power_int_of_nat zero_neq_numeral)
    also have "\<dots> \<le> of_int p / of_int q"
      by (intro frac_le) (use bp bq p q in auto)
    finally show ?thesis using x by simp
  qed
  then show ?thesis by (simp add: exp_of_def pq Let_def)
qed

lemma round_even_error: "\<bar>of_int (round_even y) - y\<bar> \<le> 1/2"
proof -
  define r where "r = y - of_int \<lfloor>y\<rfloor>"
  have r: "0 \<le> r" "r < 1" unfolding r_def by linarith+
  have y: "y = of_int \<lfloor>y\<rfloor> + r" unfolding r_def by simp
  consider "r < 1/2" | "1/2 < r" | "r = 1/2" by linarith
  then show ?thesis
  proof cases
    case 1
    then have "round_even y = \<lfloor>y\<rfloor>" unfolding round_even_def Let_def r_def [symmetric] by simp
    with 1 y r show ?thesis by linarith
  next
    case 2
    then have "round_even y = \<lfloor>y\<rfloor> + 1" unfolding round_even_def Let_def r_def [symmetric] by simp
    with 2 y r show ?thesis by (simp add: r_def)
  next
    case 3
    then have "round_even y = \<lfloor>y\<rfloor> \<or> round_even y = \<lfloor>y\<rfloor> + 1"
      unfolding round_even_def Let_def r_def [symmetric] by simp
    with 3 y show ?thesis by (elim disjE) (simp_all add: r_def)
  qed
qed

text \<open>The relative error of one rounding, as a bound that later estimates chain.\<close>

definition d_eps :: rat where
  "d_eps = 1 / 2 ^ 53"

lemma rnd_error: "\<bar>rnd x - x\<bar> \<le> \<bar>x\<bar> * d_eps"
proof (cases "x = 0")
  case False
  define u :: rat where "u = 2 powi (exp_of x - 52)"
  have u: "0 < u" by (simp add: u_def)
  have "u = 2 powi (exp_of x) / 2 ^ 52"
    unfolding u_def by (simp add: power_int_diff)
  also have "\<dots> \<le> \<bar>x\<bar> / 2 ^ 52"
    using exp_of_le [OF False] by (simp add: divide_right_mono)
  finally have le: "u / 2 \<le> \<bar>x\<bar> * d_eps" by (simp add: d_eps_def)
  have "rnd x - x = (of_int (round_even (x / u)) - x / u) * u"
    using False u by (simp add: rnd_def u_def [symmetric] left_diff_distrib)
  then have "\<bar>rnd x - x\<bar> = \<bar>of_int (round_even (x / u)) - x / u\<bar> * u"
    using u by (simp add: abs_mult)
  also have "\<dots> \<le> 1/2 * u"
    using u by (intro mult_right_mono round_even_error) simp
  finally show ?thesis using le by simp
qed (simp add: rnd_def)

lemma rnd_0 [simp]: "rnd 0 = 0"
  by (simp add: rnd_def)

lemma rnd_bounds_pos: "0 \<le> x \<Longrightarrow> x * (1 - d_eps) \<le> rnd x \<and> rnd x \<le> x * (1 + d_eps)"
  using rnd_error [of x] by (simp add: abs_le_iff algebra_simps)

lemma d_eps_range: "0 < d_eps" "d_eps < 1/1000000"
  by (simp_all add: d_eps_def)

lemma rnd_nonneg: "0 \<le> x \<Longrightarrow> 0 \<le> rnd x"
proof -
  assume x: "0 \<le> x"
  have "0 \<le> x * (1 - d_eps)" using x d_eps_range by simp
  with rnd_bounds_pos [OF x] show ?thesis by linarith
qed

lemma rnd_abs_le: "\<bar>rnd x\<bar> \<le> \<bar>x\<bar> * (1 + d_eps)"
  using rnd_error [of x] by (simp add: algebra_simps abs_le_iff) linarith

lemma to_size_Inr: "0 \<le> x \<Longrightarrow> x < of_nat size_max \<Longrightarrow> to_size x = Inr (nat \<lfloor>x\<rfloor>)"
  by (simp add: to_size_def Let_def floor_less_iff)

text \<open>The same bounds with decimal constants, which linear arithmetic can chain.\<close>

lemma rnd_upper: "0 \<le> x \<Longrightarrow> rnd x \<le> x * (1000001 / 1000000)"
proof -
  assume x: "0 \<le> x"
  have "x * (1 + d_eps) \<le> x * (1000001 / 1000000)" using x d_eps_range by (intro mult_left_mono) simp_all
  with rnd_bounds_pos [OF x] show ?thesis by linarith
qed

lemma rnd_lower: "0 \<le> x \<Longrightarrow> x * (999999 / 1000000) \<le> rnd x"
proof -
  assume x: "0 \<le> x"
  have "x * (999999 / 1000000) \<le> x * (1 - d_eps)" using x d_eps_range by (intro mult_left_mono) simp_all
  with rnd_bounds_pos [OF x] show ?thesis by linarith
qed

lemma rnd_abs_upper: "\<bar>x\<bar> \<le> y \<Longrightarrow> \<bar>rnd x\<bar> \<le> y * (1000001 / 1000000)"
proof -
  assume xy: "\<bar>x\<bar> \<le> y"
  have "\<bar>x\<bar> * (1 + d_eps) \<le> y * (1000001 / 1000000)"
    using xy d_eps_range by (intro mult_mono) simp_all
  with rnd_abs_le [of x] show ?thesis by linarith
qed

end
