(* ===== verification/Compare.thy ===== *)
theory Compare imports SrsPrelude "HOL-Library.Word" begin

text \<open>
  The comparison functions that clients hand to heap.c and bintree.c. The sources never say what
  a comparison function has to satisfy; \<open>cmp_order\<close> is the contract both components need, on the
  set \<open>S\<close> of the elements the client stores. The comparison functions of the unit tests are
  shown to meet it: \<open>chcmp\<close> on all characters, \<open>icmp\<close> on the integers whose differences do not
  overflow.
\<close>

locale cmp_order =
  fixes S :: "'a set" and cmp :: "'a \<Rightarrow> 'a \<Rightarrow> int"
  assumes cmp_flip: "x \<in> S \<Longrightarrow> y \<in> S \<Longrightarrow> cmp y x < 0 \<longleftrightarrow> 0 < cmp x y"
    and cmp_trans: "x \<in> S \<Longrightarrow> y \<in> S \<Longrightarrow> z \<in> S \<Longrightarrow> cmp x y \<le> 0 \<Longrightarrow> cmp y z \<le> 0 \<Longrightarrow> cmp x z \<le> 0"
begin

lemma cmp_refl: "x \<in> S \<Longrightarrow> cmp x x = 0"
  using cmp_flip [of x x] by linarith

lemma cmp_not_less: "x \<in> S \<Longrightarrow> y \<in> S \<Longrightarrow> \<not> cmp y x < 0 \<Longrightarrow> cmp x y \<le> 0"
  using cmp_flip [of x y] by linarith

lemma cmp_less_imp_le: "cmp x y < 0 \<Longrightarrow> cmp x y \<le> 0"
  by simp

lemma cmp_eq_flip: "x \<in> S \<Longrightarrow> y \<in> S \<Longrightarrow> cmp x y = 0 \<longleftrightarrow> cmp y x = 0"
  using cmp_flip [of x y] cmp_flip [of y x] by linarith

lemma cmp_less_trans:
  "x \<in> S \<Longrightarrow> y \<in> S \<Longrightarrow> z \<in> S \<Longrightarrow> cmp x y < 0 \<Longrightarrow> cmp y z \<le> 0 \<Longrightarrow> cmp x z < 0"
  using cmp_trans [of y z x] cmp_flip [of y x] cmp_flip [of z x] by force

lemma cmp_less_trans2:
  "x \<in> S \<Longrightarrow> y \<in> S \<Longrightarrow> z \<in> S \<Longrightarrow> cmp x y \<le> 0 \<Longrightarrow> cmp y z < 0 \<Longrightarrow> cmp x z < 0"
  using cmp_trans [of z x y] cmp_flip [of z y] cmp_flip [of z x] by force

lemma cmp_eq_trans:
  "x \<in> S \<Longrightarrow> y \<in> S \<Longrightarrow> z \<in> S \<Longrightarrow> cmp x y = 0 \<Longrightarrow> cmp y z = 0 \<Longrightarrow> cmp x z = 0"
  using cmp_trans [of x y z] cmp_trans [of z y x] cmp_eq_flip [of x y] cmp_eq_flip [of y z]
    cmp_flip [of x z] cmp_flip [of z x] by force

end

section \<open>The comparison functions of the unit tests\<close>

text \<open>
  Both subtract two objects of the type behind the pointers. A difference of two \<open>char\<close>s is an
  \<open>int\<close> and cannot overflow. A difference of two \<open>int\<close>s can; the model gives it the
  two's complement result, and the contract is claimed only where it does not overflow.
\<close>

definition chcmp :: "8 word \<Rightarrow> 8 word \<Rightarrow> int" where
  "chcmp x y = sint x - sint y"

definition icmp :: "32 word \<Rightarrow> 32 word \<Rightarrow> int" where
  "icmp x y = sint (x - y)"

definition small_ints :: "(32 word) set" where
  "small_ints = {x. - (2 ^ 30) \<le> sint x \<and> sint x < 2 ^ 30}"

lemma icmp_small: "x \<in> small_ints \<Longrightarrow> y \<in> small_ints \<Longrightarrow> icmp x y = sint x - sint y"
proof -
  assume "x \<in> small_ints" "y \<in> small_ints"
  then have "- (2 ^ 31) \<le> sint x - sint y" "sint x - sint y < 2 ^ 31"
    by (auto simp: small_ints_def)
  then have "signed_take_bit 31 (sint x - sint y) = sint x - sint y"
    by (simp add: signed_take_bit_int_eq_self)
  then show ?thesis by (simp add: icmp_def sint_word_ariths)
qed

interpretation chars: cmp_order UNIV chcmp
  by unfold_locales (auto simp: chcmp_def)

interpretation ints: cmp_order small_ints icmp
  by unfold_locales (auto simp: icmp_small)

end
