(* ===== verification/Heap.thy ===== *)
theory Heap imports Compare "HOL-Library.Multiset" begin

text \<open>
  heap.c: a binary heap of pointers in a growing array, ordered by the client's comparison
  function. First the code, then the order kept by the array (with the two "ordered except at one
  node" variants that the sifting loops maintain), then the operations against the multiset of
  elements stored.
\<close>

section \<open>The code\<close>

record 'a heap =
  h_tree :: "'a cell list"
  h_treesz :: nat
  h_count :: nat
  h_next :: nat
  h_cmpfn :: "'a \<Rightarrow> 'a \<Rightarrow> int"

definition sizeof_heap :: nat where
  "sizeof_heap = 40"

definition PARENT :: "nat \<Rightarrow> nat" where
  "PARENT node = sz_sub node 1 div 2"

definition LEFT :: "nat \<Rightarrow> nat" where
  "LEFT node = sz_add (sz_mul 2 node) 1"

definition RIGHT :: "nat \<Rightarrow> nat" where
  "RIGHT node = sz_add (sz_mul 2 node) 2"

definition heap_clear :: "'a heap \<Rightarrow> 'a heap" where
  "heap_clear h = h\<lparr>h_next := 0, h_count := 0\<rparr>"

text \<open>
  The array's \<open>malloc\<close> is not checked: when it fails the handle is returned all the same, with a
  NULL array and \<open>treesz\<close> 32.
\<close>

definition heap_init :: "(nat \<Rightarrow> bool) \<Rightarrow> ('a \<Rightarrow> 'a \<Rightarrow> int) \<Rightarrow> 'a heap option" where
  "heap_init alloc cmpfn =
     (if \<not> alloc sizeof_heap then None
      else let treesz = 32;
               tree = (if alloc (sz_mul treesz ptr_size)
                       then replicate (block_cells treesz) Undef else [])
           in Some (heap_clear
                \<lparr>h_tree = tree, h_treesz = treesz, h_count = 0, h_next = 0, h_cmpfn = cmpfn\<rparr>))"

definition heap_count :: "'a heap \<Rightarrow> nat" where
  "heap_count h = h_count h"

definition heap_resize :: "(nat \<Rightarrow> bool) \<Rightarrow> 'a heap \<Rightarrow> nat \<Rightarrow> bool \<times> 'a heap" where
  "heap_resize alloc h newsz0 =
     (let newsz = (if newsz0 = 0 then 1 else newsz0) in
      if newsz < heap_count h then (False, h)
      else if \<not> alloc (sz_mul newsz ptr_size) then (False, h)
      else (True, h\<lparr>h_tree := arr_realloc (h_tree h) (block_cells newsz), h_treesz := newsz\<rparr>))"

definition heap_swap :: "'a heap \<Rightarrow> nat \<Rightarrow> nat \<Rightarrow> 'a heap res" where
  "heap_swap h n1 n2 =
     bind_res (arr_get (h_tree h) n1) (\<lambda>tmp.
     bind_res (arr_get (h_tree h) n2) (\<lambda>x.
     bind_res (arr_set (h_tree h) n1 x) (\<lambda>t.
     bind_res (arr_set t n2 tmp) (\<lambda>t'. Inr (h\<lparr>h_tree := t'\<rparr>)))))"

definition upheap_body :: "nat \<times> 'a heap \<Rightarrow> (nat \<times> 'a heap, 'a heap) step res" where
  "upheap_body = (\<lambda>(node, h). let par = PARENT node in
     bind_res (arr_get (h_tree h) node) (\<lambda>a.
     bind_res (arr_get (h_tree h) par) (\<lambda>b.
     if h_cmpfn h a b < 0 then
       bind_res (heap_swap h node par) (\<lambda>h'.
       if par = 0 then Inr (Break h') else Inr (Continue (par, h')))
     else Inr (Break h))))"

definition upheap :: "'a heap \<Rightarrow> nat \<Rightarrow> 'a heap res" where
  "upheap h node = (if node = 0 then Inr h else c_loop upheap_body (node, h))"

definition downheap_body :: "nat \<times> 'a heap \<Rightarrow> (nat \<times> 'a heap, 'a heap) step res" where
  "downheap_body = (\<lambda>(node, h). let r = RIGHT node; l = LEFT node in
     if \<not> l < h_next h then Inr (Break h)
     else
       bind_res (arr_get (h_tree h) l) (\<lambda>xl.
       bind_res (arr_get (h_tree h) node) (\<lambda>x.
       let badleft = h_cmpfn h xl x < 0 in
       bind_res (if r < h_next h
                 then bind_res (arr_get (h_tree h) r) (\<lambda>xr. Inr (h_cmpfn h xr x < 0))
                 else Inr False) (\<lambda>badright.
       if badleft \<and> badright then
         bind_res (arr_get (h_tree h) r) (\<lambda>xr.
         let n = (if h_cmpfn h xl xr < 0 then l else r) in
         bind_res (heap_swap h node n) (\<lambda>h'. Inr (Continue (n, h'))))
       else if badleft \<or> badright then
         let n = (if badleft then l else r) in
         bind_res (heap_swap h node n) (\<lambda>h'. Inr (Continue (n, h')))
       else Inr (Break h)))))"

definition downheap :: "'a heap \<Rightarrow> 'a heap res" where
  "downheap h = c_loop downheap_body (0, h)"

text \<open>The result of \<open>heap_resize\<close> is not looked at.\<close>

definition heap_insert :: "(nat \<Rightarrow> bool) \<Rightarrow> 'a heap \<Rightarrow> 'a option \<Rightarrow> 'a heap res" where
  "heap_insert alloc h elem =
     (case elem of
        None \<Rightarrow> Inr h
      | Some e \<Rightarrow>
          let h1 = (if h_treesz h \<le> h_next h
                    then snd (heap_resize alloc h (sz_mul (h_treesz h) 2)) else h) in
          bind_res (arr_set (h_tree h1) (h_next h1) e) (\<lambda>t.
          let node = h_next h1 in
          upheap (h1\<lparr>h_tree := t, h_count := sz_add (h_count h1) 1, h_next := sz_add node 1\<rparr>) node))"

definition heap_remove :: "'a heap \<Rightarrow> ('a option \<times> 'a heap) res" where
  "heap_remove h =
     (if h_count h = 0 then Inr (None, h)
      else
        bind_res (arr_get (h_tree h) 0) (\<lambda>res.
        let next' = sz_sub (h_next h) 1 in
        bind_res (arr_get (h_tree h) next') (\<lambda>x.
        bind_res (arr_set (h_tree h) 0 x) (\<lambda>t.
        bind_res (downheap
           (h\<lparr>h_tree := t, h_next := next', h_count := sz_sub (h_count h) 1\<rparr>)) (\<lambda>h'.
        Inr (Some res, h'))))))"

section \<open>The order kept in the array\<close>

text \<open>
  \<open>up i\<close> is the parent of node \<open>i\<close>. \<open>heap_order\<close> says that no element precedes its parent's,
  \<open>heap_up\<close> that only node \<open>k\<close> may precede its parent, \<open>heap_down\<close> that only the children of \<open>k\<close>
  may precede \<open>k\<close>; in both of the latter the children of \<open>k\<close> respect the parent of \<open>k\<close>.
\<close>

definition up :: "nat \<Rightarrow> nat" where
  "up i = (i - 1) div 2"

lemma up_less: "0 < i \<Longrightarrow> up i < i"
  unfolding up_def by linarith

definition heap_order :: "('a \<Rightarrow> 'a \<Rightarrow> int) \<Rightarrow> 'a list \<Rightarrow> bool" where
  "heap_order cmp xs \<longleftrightarrow> (\<forall>i < length xs. 0 < i \<longrightarrow> cmp (xs ! up i) (xs ! i) \<le> 0)"

definition heap_up :: "('a \<Rightarrow> 'a \<Rightarrow> int) \<Rightarrow> 'a list \<Rightarrow> nat \<Rightarrow> bool" where
  "heap_up cmp xs k \<longleftrightarrow> (\<forall>i < length xs. 0 < i \<longrightarrow>
     (i \<noteq> k \<longrightarrow> cmp (xs ! up i) (xs ! i) \<le> 0) \<and>
     (up i = k \<longrightarrow> 0 < k \<longrightarrow> cmp (xs ! up k) (xs ! i) \<le> 0))"

definition heap_down :: "('a \<Rightarrow> 'a \<Rightarrow> int) \<Rightarrow> 'a list \<Rightarrow> nat \<Rightarrow> bool" where
  "heap_down cmp xs k \<longleftrightarrow> (\<forall>i < length xs. 0 < i \<longrightarrow>
     (up i \<noteq> k \<longrightarrow> cmp (xs ! up i) (xs ! i) \<le> 0) \<and>
     (up i = k \<longrightarrow> 0 < k \<longrightarrow> cmp (xs ! up k) (xs ! i) \<le> 0))"

abbreviation swapped :: "'a list \<Rightarrow> nat \<Rightarrow> nat \<Rightarrow> 'a list" where
  "swapped xs i j \<equiv> xs[i := xs ! j, j := xs ! i]"

lemma heap_up_top: "heap_up cmp xs 0 \<Longrightarrow> heap_order cmp xs"
  by (auto simp: heap_up_def heap_order_def)

lemma heap_up_stop: "heap_up cmp xs k \<Longrightarrow> cmp (xs ! up k) (xs ! k) \<le> 0 \<Longrightarrow> heap_order cmp xs"
  by (auto simp: heap_up_def heap_order_def)

lemma heap_down_stop:
  "heap_down cmp xs k \<Longrightarrow>
   (\<And>i. i < length xs \<Longrightarrow> 0 < i \<Longrightarrow> up i = k \<Longrightarrow> cmp (xs ! k) (xs ! i) \<le> 0) \<Longrightarrow> heap_order cmp xs"
  by (auto simp: heap_down_def heap_order_def)

lemma heap_order_append:
  assumes "heap_order cmp xs"
  shows "heap_up cmp (xs @ [x]) (length xs)"
  unfolding heap_up_def
proof (intro allI impI conjI)
  fix i assume i: "i < length (xs @ [x])" "0 < i"
  then have ui: "up i < i" by (simp add: up_less)
  show "cmp ((xs @ [x]) ! up i) ((xs @ [x]) ! i) \<le> 0" if "i \<noteq> length xs"
    using assms i that ui by (auto simp: heap_order_def nth_append)
  show "cmp ((xs @ [x]) ! up (length xs)) ((xs @ [x]) ! i) \<le> 0" if "up i = length xs"
    using i that ui by simp
qed

lemma heap_down_replace_top:
  assumes "heap_order cmp xs" and "n \<le> length xs"
  shows "heap_down cmp (take n (xs[0 := y])) 0"
  unfolding heap_down_def
proof (intro allI impI conjI)
  fix i assume i: "i < length (take n (xs[0 := y]))" "0 < i"
  then show "cmp (take n (xs[0 := y]) ! up i) (take n (xs[0 := y]) ! i) \<le> 0" if "up i \<noteq> 0"
    using assms that up_less [of i] by (simp add: heap_order_def)
qed simp

lemma mset_take_replace_top:
  assumes "length xs = k" "k = Suc n"
  shows "mset xs = add_mset (xs ! 0) (mset (take n (xs[0 := xs ! n])))"
proof (cases n)
  case 0
  with assms show ?thesis by (cases xs) auto
next
  case (Suc m)
  with assms obtain x ys where xs: "xs = x # ys" "length ys = Suc m" by (cases xs) auto
  then obtain zs z where ys: "ys = zs @ [z]" by (cases ys rule: rev_cases) auto
  with xs Suc show ?thesis by (simp add: nth_append)
qed

lemma heap_order_take:
  assumes "heap_order cmp xs" shows "heap_order cmp (take n xs)"
  unfolding heap_order_def
proof (intro allI impI)
  fix i assume "i < length (take n xs)" "0 < i"
  with up_less [of i] assms show "cmp (take n xs ! up i) (take n xs ! i) \<le> 0"
    by (simp add: heap_order_def)
qed

lemma child_cases: "0 < i \<Longrightarrow> up i = k \<Longrightarrow> i = 2 * k + 1 \<or> i = 2 * k + 2"
  unfolding up_def by linarith

context cmp_order begin

lemma heap_order_min:
  assumes "heap_order cmp xs" and "set xs \<subseteq> S" and "i < length xs"
  shows "cmp (xs ! 0) (xs ! i) \<le> 0"
  using assms(3)
proof (induction i rule: less_induct)
  case (less i)
  have in_S: "j < length xs \<Longrightarrow> xs ! j \<in> S" for j using assms(2) by auto
  show ?case
  proof (cases "i = 0")
    case True
    with less.prems show ?thesis by (simp add: cmp_refl in_S)
  next
    case False
    then have "up i < i" by (simp add: up_less)
    with less have "cmp (xs ! 0) (xs ! up i) \<le> 0" by simp
    moreover have "cmp (xs ! up i) (xs ! i) \<le> 0"
      using assms(1) False less.prems by (simp add: heap_order_def)
    ultimately show ?thesis
      using cmp_trans less.prems \<open>up i < i\<close> in_S by (metis bot_nat_0.not_eq_extremum less_trans not_less0)
  qed
qed

lemma heap_up_swap:
  assumes h: "heap_up cmp xs k" and S: "set xs \<subseteq> S" and k: "0 < k" "k < length xs"
    and less: "cmp (xs ! k) (xs ! up k) < 0"
  shows "heap_up cmp (swapped xs k (up k)) (up k)"
  unfolding heap_up_def
proof (intro allI impI conjI)
  let ?p = "up k" and ?ys = "swapped xs k (up k)"
  have pk: "?p < k" using k by (simp add: up_less)
  have in_S: "j < length xs \<Longrightarrow> xs ! j \<in> S" for j using S by auto
  have old: "cmp (xs ! up i) (xs ! i) \<le> 0" if "i < length xs" "0 < i" "i \<noteq> k" for i
    using h that by (simp add: heap_up_def)
  have old2: "cmp (xs ! ?p) (xs ! i) \<le> 0" if "i < length xs" "0 < i" "up i = k" for i
    using h that k by (simp add: heap_up_def)
  fix i assume i: "i < length ?ys" "0 < i"
  then have ui: "up i < i" by (simp add: up_less)
  show "cmp (?ys ! up i) (?ys ! i) \<le> 0" if "i \<noteq> ?p"
  proof -
    consider "i = k" | "i \<noteq> k" "up i = k" | "i \<noteq> k" "up i = ?p" | "i \<noteq> k" "up i \<noteq> k" "up i \<noteq> ?p"
      by blast
    then show ?thesis
    proof cases
      case 1
      with less pk k show ?thesis by (simp add: nth_list_update)
    next
      case 2
      with old2 [of i] i that pk k show ?thesis by (simp add: nth_list_update)
    next
      case 3
      then have "cmp (xs ! ?p) (xs ! i) \<le> 0" using old [of i] i by simp
      then have "cmp (xs ! k) (xs ! i) \<le> 0"
        using cmp_trans [of "xs ! k" "xs ! ?p" "xs ! i"] less in_S i k pk by simp
      with 3 i that pk k show ?thesis by (simp add: nth_list_update)
    next
      case 4
      with old [of i] i that pk k ui show ?thesis by (simp add: nth_list_update)
    qed
  qed
  show "cmp (?ys ! up ?p) (?ys ! i) \<le> 0" if "up i = ?p" "0 < ?p"
  proof -
    have upp: "up ?p < ?p" using that by (simp add: up_less)
    have pp: "cmp (xs ! up ?p) (xs ! ?p) \<le> 0" using old [of ?p] that pk k by simp
    show ?thesis
    proof (cases "i = k")
      case True
      with pp upp pk k show ?thesis by (simp add: nth_list_update)
    next
      case False
      then have "cmp (xs ! ?p) (xs ! i) \<le> 0" using old [of i] i that by simp
      then have "cmp (xs ! up ?p) (xs ! i) \<le> 0"
        using cmp_trans [of "xs ! up ?p" "xs ! ?p" "xs ! i"] pp in_S i k pk upp by simp
      moreover have "i \<noteq> ?p" using that ui by simp
      ultimately show ?thesis using False upp pk k that i by (simp add: nth_list_update)
    qed
  qed
qed

lemma heap_down_swap:
  assumes h: "heap_down cmp xs k" and S: "set xs \<subseteq> S"
    and n: "0 < n" "n < length xs" "up n = k"
    and least: "\<And>i. i < length xs \<Longrightarrow> 0 < i \<Longrightarrow> up i = k \<Longrightarrow> cmp (xs ! n) (xs ! i) \<le> 0"
    and less: "cmp (xs ! n) (xs ! k) < 0"
  shows "heap_down cmp (swapped xs k n) n"
  unfolding heap_down_def
proof (intro allI impI conjI)
  let ?ys = "swapped xs k n"
  have kn: "k < n" using n up_less [of n] by simp
  have old: "cmp (xs ! up i) (xs ! i) \<le> 0" if "i < length xs" "0 < i" "up i \<noteq> k" for i
    using h that by (simp add: heap_down_def)
  have old2: "cmp (xs ! up k) (xs ! n) \<le> 0" if "0 < k"
    using h n that by (simp add: heap_down_def)
  fix i assume i: "i < length ?ys" "0 < i"
  then have ui: "up i < i" by (simp add: up_less)
  show "cmp (?ys ! up i) (?ys ! i) \<le> 0" if "up i \<noteq> n"
  proof -
    consider "up i = k" "i = n" | "up i = k" "i \<noteq> n" | "up i \<noteq> k" "i = k" | "up i \<noteq> k" "i \<noteq> k"
      by blast
    then show ?thesis
    proof cases
      case 1
      with less kn n show ?thesis by (simp add: nth_list_update)
    next
      case 2
      with least [of i] kn n i ui show ?thesis by (simp add: nth_list_update)
    next
      case 3
      with old2 kn n i that ui show ?thesis by (simp add: nth_list_update)
    next
      case 4
      then have "i \<noteq> n" using n by blast
      with 4 old [of i] that kn n i ui show ?thesis by (simp add: nth_list_update)
    qed
  qed
  show "cmp (?ys ! up n) (?ys ! i) \<le> 0" if "up i = n" "0 < n"
  proof -
    have "cmp (xs ! n) (xs ! i) \<le> 0" using old [of i] i that kn by auto
    with that ui kn n i show ?thesis by (simp add: nth_list_update)
  qed
qed

end

section \<open>The loops keep the elements and restore the order\<close>

lemma PARENT_up: "0 < node \<Longrightarrow> node < size_max \<Longrightarrow> PARENT node = up node"
  by (simp add: PARENT_def up_def sz_simps)

lemma LEFT_RIGHT: "node < max_cells \<Longrightarrow> LEFT node = 2 * node + 1 \<and> RIGHT node = 2 * node + 2"
  by (simp add: LEFT_def RIGHT_def sz_add_def sz_mul_def size_max_def max_cells_def)

lemma up_children: "up (2 * node + 1) = node" "up (2 * node + 2) = node"
  by (simp_all add: up_def)

lemma heap_swap_eq:
  "h_tree g = map Val xs @ ys \<Longrightarrow> i < length xs \<Longrightarrow> j < length xs \<Longrightarrow>
   heap_swap g i j = Inr (g\<lparr>h_tree := map Val (swapped xs i j) @ ys\<rparr>)"
  by (simp add: heap_swap_def)

lemma set_swapped: "i < length xs \<Longrightarrow> j < length xs \<Longrightarrow> set (swapped xs i j) = set xs"
  by (rule mset_eq_setD) (rule mset_swap)

context cmp_order begin

lemma upheap_body_ok:
  assumes t: "h_tree g = map Val xs @ ys" and c: "h_cmpfn g = cmp"
    and k: "0 < k" "k < length xs" "length xs < size_max"
    and S: "set xs \<subseteq> S" and h: "heap_up cmp xs k"
  shows "(\<exists>xs'. upheap_body (k, g) = Inr (Break (g\<lparr>h_tree := map Val xs' @ ys\<rparr>))
            \<and> mset xs' = mset xs \<and> heap_order cmp xs')
       \<or> (\<exists>xs' j. upheap_body (k, g) = Inr (Continue (j, g\<lparr>h_tree := map Val xs' @ ys\<rparr>))
            \<and> mset xs' = mset xs \<and> 0 < j \<and> j < k \<and> heap_up cmp xs' j)"
proof -
  let ?p = "up k"
  have p: "?p < k" "PARENT k = ?p" using k up_less [of k] by (simp_all add: PARENT_up)
  show ?thesis
  proof (cases "cmp (xs ! k) (xs ! ?p) < 0")
    case True
    have swap: "heap_swap g k ?p = Inr (g\<lparr>h_tree := map Val (swapped xs k ?p) @ ys\<rparr>)"
      using t k p by (intro heap_swap_eq) auto
    have up: "heap_up cmp (swapped xs k ?p) ?p" using h S k True by (intro heap_up_swap) auto
    have ms: "mset (swapped xs k ?p) = mset xs" using k p by (intro mset_swap) auto
    have body: "upheap_body (k, g) = Inr (if ?p = 0 then Break (g\<lparr>h_tree := map Val (swapped xs k ?p) @ ys\<rparr>)
        else Continue (?p, g\<lparr>h_tree := map Val (swapped xs k ?p) @ ys\<rparr>))"
      using t c k p True swap by (simp add: upheap_body_def Let_def)
    show ?thesis
    proof (cases "?p = 0")
      case True
      then have "heap_order cmp (swapped xs k ?p)" using up heap_up_top by force
      with True body ms show ?thesis by auto
    next
      case False
      with body ms up p show ?thesis by auto
    qed
  next
    case False
    then have "cmp (xs ! ?p) (xs ! k) \<le> 0" using S k p by (intro cmp_not_less) auto
    with h have "heap_order cmp xs" by (rule heap_up_stop)
    moreover have "upheap_body (k, g) = Inr (Break (g\<lparr>h_tree := map Val xs @ ys\<rparr>))"
      using t c k p False by (simp add: upheap_body_def Let_def)
    ultimately show ?thesis by blast
  qed
qed

lemma upheap_ok:
  assumes t: "h_tree g = map Val xs @ ys" and c: "h_cmpfn g = cmp"
    and k: "k < length xs" "length xs < size_max"
    and S: "set xs \<subseteq> S" and h: "heap_up cmp xs k"
  shows "\<exists>xs'. upheap g k = Inr (g\<lparr>h_tree := map Val xs' @ ys\<rparr>) \<and> mset xs' = mset xs \<and> heap_order cmp xs'"
proof (cases "k = 0")
  case True
  with h t show ?thesis by (intro exI [of _ xs]) (auto simp: upheap_def heap_up_top)
next
  case False
  let ?I = "\<lambda>(j, f). \<exists>xs'. f = g\<lparr>h_tree := map Val xs' @ ys\<rparr> \<and> mset xs' = mset xs
      \<and> 0 < j \<and> j < length xs \<and> heap_up cmp xs' j"
  have "\<exists>f. c_loop upheap_body (k, g) = Inr f \<and>
      (\<exists>xs'. f = g\<lparr>h_tree := map Val xs' @ ys\<rparr> \<and> mset xs' = mset xs \<and> heap_order cmp xs')"
  proof (rule c_loop_rule [where I = ?I and m = fst])
    show "?I (k, g)" using False t k h by (auto intro!: exI [of _ xs])
  next
    fix s assume "?I s"
    then obtain j xs' where s: "s = (j, g\<lparr>h_tree := map Val xs' @ ys\<rparr>)"
      and I: "mset xs' = mset xs" "0 < j" "j < length xs" "heap_up cmp xs' j"
      by (cases s) auto
    then have len: "length xs' = length xs" and set: "set xs' = set xs"
      by (metis size_mset) (metis I(1) set_mset_mset)
    have "(\<exists>zs. upheap_body s = Inr (Break (g\<lparr>h_tree := map Val zs @ ys\<rparr>))
            \<and> mset zs = mset xs' \<and> heap_order cmp zs)
       \<or> (\<exists>zs i. upheap_body s = Inr (Continue (i, g\<lparr>h_tree := map Val zs @ ys\<rparr>))
            \<and> mset zs = mset xs' \<and> 0 < i \<and> i < j \<and> heap_up cmp zs i)"
      using upheap_body_ok [of "g\<lparr>h_tree := map Val xs' @ ys\<rparr>" xs' ys j] c I len set S k s by simp
    then show "(\<exists>t. upheap_body s = Inr (Continue t) \<and> ?I t \<and> fst t < fst s) \<or>
        (\<exists>f. upheap_body s = Inr (Break f) \<and>
          (\<exists>xs'. f = g\<lparr>h_tree := map Val xs' @ ys\<rparr> \<and> mset xs' = mset xs \<and> heap_order cmp xs'))"
      using I s by auto
  qed
  with False show ?thesis by (auto simp: upheap_def)
qed

lemma downheap_body_ok:
  assumes t: "h_tree g = map Val xs @ ys" and c: "h_cmpfn g = cmp" and n: "h_next g = length xs"
    and k: "k \<le> length xs" "length xs < max_cells"
    and S: "set xs \<subseteq> S" and h: "heap_down cmp xs k"
  shows "(downheap_body (k, g) = Inr (Break g) \<and> heap_order cmp xs)
       \<or> (\<exists>j. downheap_body (k, g) = Inr (Continue (j, g\<lparr>h_tree := map Val (swapped xs k j) @ ys\<rparr>))
            \<and> k < j \<and> j < length xs \<and> heap_down cmp (swapped xs k j) j)"
proof -
  let ?l = "2 * k + 1" and ?r = "2 * k + 2"
  have LR: "LEFT k = ?l" "RIGHT k = ?r" using LEFT_RIGHT [of k] k by auto
  have in_S: "i < length xs \<Longrightarrow> xs ! i \<in> S" for i using S by auto
  have child: "i = ?l \<or> i = ?r" if "0 < i" "up i = k" for i using child_cases [OF that] .
  show ?thesis
  proof (cases "?l < length xs")
    case False
    then have "\<not> (i < length xs \<and> 0 < i \<and> up i = k)" for i using child [of i] by auto
    then have "heap_order cmp xs" using heap_down_stop [OF h] by blast
    with False LR n show ?thesis by (simp add: downheap_body_def)
  next
    case l: True
    define bl where "bl \<longleftrightarrow> cmp (xs ! ?l) (xs ! k) < 0"
    define br where "br \<longleftrightarrow> ?r < length xs \<and> cmp (xs ! ?r) (xs ! k) < 0"
    have nbl: "cmp (xs ! k) (xs ! ?l) \<le> 0" if "\<not> bl"
      using that l in_S by (intro cmp_not_less) (auto simp: bl_def)
    have nbr: "cmp (xs ! k) (xs ! ?r) \<le> 0" if "\<not> br" "?r < length xs"
      using that l in_S by (intro cmp_not_less) (auto simp: br_def)
    have br_res: "(if ?r < h_next g then bind_res (arr_get (h_tree g) ?r) (\<lambda>xr. Inr (h_cmpfn g xr (xs ! k) < 0))
        else Inr False) = Inr br"
      using t c n by (auto simp: br_def)
    have go: "\<exists>j. downheap_body (k, g) = Inr (Continue (j, g\<lparr>h_tree := map Val (swapped xs k j) @ ys\<rparr>))
            \<and> k < j \<and> j < length xs \<and> heap_down cmp (swapped xs k j) j"
      if j: "j = ?l \<or> j = ?r" "j < length xs" and lt: "cmp (xs ! j) (xs ! k) < 0"
        and le: "\<And>i. i < length xs \<Longrightarrow> 0 < i \<Longrightarrow> up i = k \<Longrightarrow> cmp (xs ! j) (xs ! i) \<le> 0"
        and body: "downheap_body (k, g) = bind_res (heap_swap g k j) (\<lambda>h'. Inr (Continue (j, h')))" for j
    proof -
      have kj: "k < j" "up j = k" using j(1) up_children [of k] by auto
      have "heap_swap g k j = Inr (g\<lparr>h_tree := map Val (swapped xs k j) @ ys\<rparr>)"
        using t j kj by (intro heap_swap_eq) auto
      moreover have "heap_down cmp (swapped xs k j) j"
        using h S j kj le lt by (intro heap_down_swap) auto
      ultimately show ?thesis using body j kj by auto
    qed
    consider "bl" "br" "cmp (xs ! ?l) (xs ! ?r) < 0" | "bl" "br" "\<not> cmp (xs ! ?l) (xs ! ?r) < 0"
      | "bl" "\<not> br" | "\<not> bl" "br" | "\<not> bl" "\<not> br" by blast
    then show ?thesis
    proof cases
      case 1
      have "downheap_body (k, g) = bind_res (heap_swap g k ?l) (\<lambda>h'. Inr (Continue (?l, h')))"
        using 1 t c n l LR br_res by (simp add: downheap_body_def Let_def bl_def br_def cong del: bind_res_weak_cong)
      moreover have "cmp (xs ! ?l) (xs ! i) \<le> 0" if "i < length xs" "0 < i" "up i = k" for i
        using child [OF that(2,3)] 1 l in_S cmp_refl by fastforce
      ultimately show ?thesis using go [of ?l] 1 l by (simp add: bl_def)
    next
      case 2
      then have "cmp (xs ! ?r) (xs ! ?l) \<le> 0" using in_S l by (intro cmp_not_less) (auto simp: br_def)
      then have "cmp (xs ! ?r) (xs ! i) \<le> 0" if "i < length xs" "0 < i" "up i = k" for i
        using child [OF that(2,3)] 2 l in_S cmp_refl by (fastforce simp: br_def)
      moreover have "downheap_body (k, g) = bind_res (heap_swap g k ?r) (\<lambda>h'. Inr (Continue (?r, h')))"
        using 2 t c n l LR br_res by (simp add: downheap_body_def Let_def bl_def br_def cong del: bind_res_weak_cong)
      ultimately show ?thesis using go [of ?r] 2 l by (simp add: br_def)
    next
      case 3
      have "cmp (xs ! ?l) (xs ! i) \<le> 0" if i: "i < length xs" "0 < i" "up i = k" for i
      proof (cases "i = ?l")
        case True
        with l in_S cmp_refl show ?thesis by fastforce
      next
        case False
        then have ir: "i = ?r" using child [OF i(2,3)] by blast
        have "cmp (xs ! k) (xs ! ?r) \<le> 0" using nbr 3(2) i(1) unfolding ir by simp
        with ir i 3 l in_S show ?thesis
          using cmp_trans [of "xs ! ?l" "xs ! k" "xs ! ?r"] by (simp add: bl_def)
      qed
      moreover have "downheap_body (k, g) = bind_res (heap_swap g k ?l) (\<lambda>h'. Inr (Continue (?l, h')))"
        using 3 t c n l LR by (auto simp: downheap_body_def Let_def bl_def br_def cong del: bind_res_weak_cong)
      ultimately show ?thesis using go [of ?l] 3 l by (simp add: bl_def)
    next
      case 4
      have "cmp (xs ! ?r) (xs ! i) \<le> 0" if i: "i < length xs" "0 < i" "up i = k" for i
      proof (cases "i = ?r")
        case True
        with i in_S cmp_refl show ?thesis by fastforce
      next
        case False
        then have il: "i = ?l" using child [OF i(2,3)] by blast
        with 4 l in_S nbl show ?thesis
          using cmp_trans [of "xs ! ?r" "xs ! k" "xs ! ?l"] by (simp add: br_def)
      qed
      moreover have "downheap_body (k, g) = bind_res (heap_swap g k ?r) (\<lambda>h'. Inr (Continue (?r, h')))"
        using 4 t c n l LR by (auto simp: downheap_body_def Let_def bl_def br_def cong del: bind_res_weak_cong)
      ultimately show ?thesis using go [of ?r] 4 by (simp add: br_def)
    next
      case 5
      have "downheap_body (k, g) = Inr (Break g)"
        using 5 t c n l LR by (auto simp: downheap_body_def Let_def bl_def br_def cong del: bind_res_weak_cong)
      moreover have "heap_order cmp xs"
      proof (rule heap_down_stop [OF h])
        fix i assume i: "i < length xs" "0 < i" "up i = k"
        from child [OF i(2,3)] show "cmp (xs ! k) (xs ! i) \<le> 0"
          using nbl [OF 5(1)] nbr [OF 5(2)] i(1) by (elim disjE) simp_all
      qed
      ultimately show ?thesis by blast
    qed
  qed
qed

lemma downheap_ok:
  assumes t: "h_tree g = map Val xs @ ys" and c: "h_cmpfn g = cmp" and n: "h_next g = length xs"
    and small: "length xs < max_cells" and S: "set xs \<subseteq> S" and h: "heap_down cmp xs 0"
  shows "\<exists>xs'. downheap g = Inr (g\<lparr>h_tree := map Val xs' @ ys\<rparr>) \<and> mset xs' = mset xs \<and> heap_order cmp xs'"
proof -
  let ?I = "\<lambda>(j, f). \<exists>xs'. f = g\<lparr>h_tree := map Val xs' @ ys\<rparr> \<and> mset xs' = mset xs
      \<and> j \<le> length xs \<and> heap_down cmp xs' j"
  have "\<exists>f. c_loop downheap_body (0, g) = Inr f \<and>
      (\<exists>xs'. f = g\<lparr>h_tree := map Val xs' @ ys\<rparr> \<and> mset xs' = mset xs \<and> heap_order cmp xs')"
  proof (rule c_loop_rule [where I = ?I and m = "\<lambda>(j, f). length xs - j"])
    show "?I (0, g)" using t h by (auto intro!: exI [of _ xs])
  next
    fix s assume "?I s"
    then obtain j xs' where s: "s = (j, g\<lparr>h_tree := map Val xs' @ ys\<rparr>)"
      and I: "mset xs' = mset xs" "j \<le> length xs" "heap_down cmp xs' j"
      by (cases s) auto
    then have len: "length xs' = length xs" and set: "set xs' = set xs"
      by (metis size_mset) (metis I(1) set_mset_mset)
    let ?g = "g\<lparr>h_tree := map Val xs' @ ys\<rparr>"
    have "(downheap_body s = Inr (Break ?g) \<and> heap_order cmp xs')
       \<or> (\<exists>i. downheap_body s = Inr (Continue (i, ?g\<lparr>h_tree := map Val (swapped xs' j i) @ ys\<rparr>))
            \<and> j < i \<and> i < length xs' \<and> heap_down cmp (swapped xs' j i) i)"
      using downheap_body_ok [of ?g xs' ys j] c n I len set S small s by simp
    then show "(\<exists>t. downheap_body s = Inr (Continue t) \<and> ?I t \<and>
          (case t of (j, f) \<Rightarrow> length xs - j) < (case s of (j, f) \<Rightarrow> length xs - j)) \<or>
        (\<exists>f. downheap_body s = Inr (Break f) \<and>
          (\<exists>xs'. f = g\<lparr>h_tree := map Val xs' @ ys\<rparr> \<and> mset xs' = mset xs \<and> heap_order cmp xs'))"
    proof (elim disjE exE conjE)
      assume "downheap_body s = Inr (Break ?g)" "heap_order cmp xs'"
      with I show ?thesis by blast
    next
      fix i assume i: "downheap_body s = Inr (Continue (i, ?g\<lparr>h_tree := map Val (swapped xs' j i) @ ys\<rparr>))"
        "j < i" "i < length xs'" "heap_down cmp (swapped xs' j i) i"
      then have "mset (swapped xs' j i) = mset xs" using I len by (simp add: mset_swap)
      with i s len show ?thesis by auto
    qed
  qed
  then show ?thesis by (auto simp: downheap_def)
qed

end

section \<open>The operations on the stored elements\<close>

text \<open>
  The elements of a heap are the first \<open>next\<close> cells of its array. The invariant ties the fields
  together: the array has \<open>treesz\<close> cells, \<open>count\<close> and \<open>next\<close> agree, the stored cells are written,
  ordered, and hold elements the comparison function orders.
\<close>

definition heap_list :: "'a heap \<Rightarrow> 'a list" where
  "heap_list h = vals (take (h_next h) (h_tree h))"

definition heap_inv :: "'a set \<Rightarrow> ('a \<Rightarrow> 'a \<Rightarrow> int) \<Rightarrow> 'a heap \<Rightarrow> bool" where
  "heap_inv S cmp h \<longleftrightarrow>
     length (h_tree h) = h_treesz h \<and> 0 < h_treesz h \<and> h_treesz h < max_cells \<and>
     h_count h = h_next h \<and> h_next h \<le> h_treesz h \<and> h_cmpfn h = cmp \<and>
     all_val (take (h_next h) (h_tree h)) \<and> heap_order cmp (heap_list h) \<and> set (heap_list h) \<subseteq> S"

lemma heap_inv_rep:
  assumes "heap_inv S cmp h"
  obtains ys where "h_tree h = map Val (heap_list h) @ ys" "length (heap_list h) = h_next h"
    "h_next h + length ys = h_treesz h"
proof -
  have "h_tree h = map Val (heap_list h) @ drop (h_next h) (h_tree h)"
    using assms all_val_iff by (metis append_take_drop_id heap_inv_def heap_list_def)
  moreover have "length (heap_list h) = h_next h"
    using assms by (simp add: heap_list_def heap_inv_def)
  ultimately show ?thesis using that assms by (auto simp: heap_inv_def)
qed

lemma heap_list_length: "heap_inv S cmp h \<Longrightarrow> length (heap_list h) = h_next h"
  by (simp add: heap_list_def heap_inv_def)

lemma heap_inv_intro:
  assumes "h_tree h = map Val xs @ ys" "length xs = h_next h" "h_count h = h_next h"
    "h_next h + length ys = h_treesz h" "0 < h_treesz h" "h_treesz h < max_cells"
    "h_cmpfn h = cmp" "heap_order cmp xs" "set xs \<subseteq> S"
  shows "heap_inv S cmp h \<and> heap_list h = xs"
  using assms by (auto simp: heap_inv_def heap_list_def)

lemma heap_init_inv:
  assumes "alloc sizeof_heap" and "alloc (32 * ptr_size)"
  shows "\<exists>h. heap_init alloc cmp = Some h \<and> heap_inv S cmp h \<and> heap_list h = []"
proof -
  have "sz_mul 32 ptr_size = 32 * ptr_size" "block_cells 32 = 32"
    by (simp_all add: sz_mul_def block_cells_def ptr_size_def size_max_def)
  with assms show ?thesis
    by (auto simp: heap_init_def heap_clear_def heap_inv_def heap_list_def heap_order_def max_cells_def)
qed

lemma heap_clear_inv: "heap_inv S cmp h \<Longrightarrow> heap_inv S cmp (heap_clear h) \<and> heap_list (heap_clear h) = []"
  by (auto simp: heap_inv_def heap_clear_def heap_list_def heap_order_def)

text \<open>Growing: twice the room when the allocator gives it, nothing otherwise.\<close>

lemma heap_resize_double:
  assumes inv: "heap_inv S cmp h" and ok: "alloc_ok alloc"
  shows "heap_resize alloc h (sz_mul (h_treesz h) 2) =
     (if alloc (2 * h_treesz h * ptr_size)
      then (True, h\<lparr>h_tree := h_tree h @ replicate (h_treesz h) Undef, h_treesz := 2 * h_treesz h\<rparr>)
      else (False, h))"
proof -
  let ?n = "h_treesz h"
  have n: "0 < ?n" "?n < max_cells" "length (h_tree h) = ?n" "h_count h \<le> ?n"
    using inv by (auto simp: heap_inv_def)
  then have "sz_mul ?n 2 = 2 * ?n" "sz_mul (2 * ?n) ptr_size = 2 * ?n * ptr_size" "block_cells (2 * ?n) = 2 * ?n"
    by (simp_all add: sz_mul_def block_cells_def ptr_size_def size_max_def max_cells_def)
  with n show ?thesis
    by (simp add: heap_resize_def heap_count_def arr_realloc_def mult_2)
qed

lemma heap_resize_bound:
  assumes "heap_inv S cmp h" "alloc_ok alloc" "alloc (2 * h_treesz h * ptr_size)"
  shows "2 * h_treesz h < max_cells"
proof -
  have "2 * h_treesz h * ptr_size < 2 ^ 63" using assms(2,3) by (auto simp: alloc_ok_def)
  then show ?thesis by (simp add: ptr_size_def max_cells_def)
qed

context cmp_order begin

text \<open>Insertion with room left, for a heap whose fields agree.\<close>

lemma heap_insert_room:
  assumes inv: "heap_inv S cmp h" and room: "h_next h < h_treesz h" and x: "x \<in> S"
  shows "\<exists>h'. heap_insert alloc h (Some x) = Inr h' \<and> heap_inv S cmp h' \<and>
     mset (heap_list h') = add_mset x (mset (heap_list h)) \<and> h_treesz h' = h_treesz h"
proof -
  obtain ys where t: "h_tree h = map Val (heap_list h) @ ys" and len: "length (heap_list h) = h_next h"
    and sz: "h_next h + length ys = h_treesz h" using inv by (rule heap_inv_rep)
  let ?xs = "heap_list h @ [x]"
  obtain y zs where ys: "ys = y # zs" using sz room by (cases ys) auto
  have set: "arr_set (h_tree h) (h_next h) x = Inr (map Val ?xs @ zs)"
    unfolding t ys len [symmetric] by (rule arr_set_end)
  have small: "h_next h < max_cells" using inv room by (simp add: heap_inv_def)
  then have add: "sz_add (h_next h) 1 = Suc (h_next h)"
    by (simp add: sz_add_def size_max_def max_cells_def)
  let ?g = "h\<lparr>h_tree := map Val ?xs @ zs, h_count := Suc (h_next h), h_next := Suc (h_next h)\<rparr>"
  have "\<exists>xs'. upheap ?g (h_next h) = Inr (?g\<lparr>h_tree := map Val xs' @ zs\<rparr>) \<and> mset xs' = mset ?xs
      \<and> heap_order cmp xs'"
  proof (rule upheap_ok)
    show "h_tree ?g = map Val ?xs @ zs" "h_cmpfn ?g = cmp" "h_next h < length ?xs"
      using len inv by (simp_all add: heap_inv_def)
    show "length ?xs < size_max" using small len by (simp add: size_max_def max_cells_def)
    show "set ?xs \<subseteq> S" using inv x by (simp add: heap_inv_def)
    show "heap_up cmp ?xs (h_next h)"
      using heap_order_append [of cmp "heap_list h" x] inv len by (simp add: heap_inv_def)
  qed
  then obtain xs' where up: "upheap ?g (h_next h) = Inr (?g\<lparr>h_tree := map Val xs' @ zs\<rparr>)"
    and ms: "mset xs' = mset ?xs" and ord: "heap_order cmp xs'" by blast
  let ?h' = "?g\<lparr>h_tree := map Val xs' @ zs\<rparr>"
  have "heap_insert alloc h (Some x) = Inr ?h'"
    using room set add up inv by (simp add: heap_insert_def Let_def heap_inv_def)
  moreover have "set xs' = set ?xs" "length xs' = length ?xs"
    using ms by (metis set_mset_mset) (metis ms size_mset)
  then have "heap_inv S cmp ?h' \<and> heap_list ?h' = xs'"
    using inv x sz ys len room ord by (intro heap_inv_intro) (auto simp: heap_inv_def)
  ultimately show ?thesis using ms by auto
qed

lemma heap_insert_grow:
  assumes inv: "heap_inv S cmp h" and full: "h_next h = h_treesz h" and x: "x \<in> S"
    and ok: "alloc_ok alloc" and mem: "alloc (2 * h_treesz h * ptr_size)"
  shows "\<exists>h'. heap_insert alloc h (Some x) = Inr h' \<and> heap_inv S cmp h' \<and>
     mset (heap_list h') = add_mset x (mset (heap_list h)) \<and> h_treesz h' = 2 * h_treesz h"
proof -
  let ?g = "h\<lparr>h_tree := h_tree h @ replicate (h_treesz h) Undef, h_treesz := 2 * h_treesz h\<rparr>"
  have res: "heap_resize alloc h (sz_mul (h_treesz h) 2) = (True, ?g)"
    using heap_resize_double [OF inv ok] mem by simp
  have pos: "0 < h_treesz h" and len: "length (h_tree h) = h_treesz h" using inv by (auto simp: heap_inv_def)
  have inv': "heap_inv S cmp ?g" and list: "heap_list ?g = heap_list h"
    using inv full heap_resize_bound [OF inv ok mem] by (auto simp: heap_inv_def heap_list_def)
  have "heap_insert alloc h (Some x) = heap_insert alloc ?g (Some x)"
    using full res pos by (simp add: heap_insert_def Let_def)
  moreover have "h_next ?g < h_treesz ?g" using full pos by simp
  ultimately show ?thesis using heap_insert_room [OF inv' _ x] list by auto
qed

lemma heap_remove_min:
  assumes inv: "heap_inv S cmp h" and ne: "heap_list h \<noteq> []"
  shows "\<exists>m h'. heap_remove h = Inr (Some m, h') \<and> heap_inv S cmp h' \<and>
     mset (heap_list h) = add_mset m (mset (heap_list h')) \<and>
     (\<forall>x \<in> set (heap_list h). cmp m x \<le> 0) \<and> h_treesz h' = h_treesz h"
proof -
  let ?xs = "heap_list h"
  obtain ys where t: "h_tree h = map Val ?xs @ ys" and len: "length ?xs = h_next h"
    and sz: "h_next h + length ys = h_treesz h" using inv by (rule heap_inv_rep)
  obtain n where n: "h_next h = Suc n" using ne len by (cases "h_next h") auto
  have small: "h_next h < max_cells" and set: "set ?xs \<subseteq> S" and ord: "heap_order cmp ?xs"
    using inv by (auto simp: heap_inv_def)
  have sub: "sz_sub (Suc n) 1 = n"
    using n small by (simp add: sz_simps size_max_def max_cells_def)
  define zs where "zs = take n (?xs[0 := ?xs ! n])"
  let ?ys = "map Val (drop n (?xs[0 := ?xs ! n])) @ ys"
  have split: "map Val (?xs[0 := ?xs ! n]) @ ys = map Val zs @ ?ys"
    unfolding zs_def by (metis append.assoc append_take_drop_id map_append)
  have lenz: "length zs = n" using len n by (simp add: zs_def)
  have ms: "mset ?xs = add_mset (?xs ! 0) (mset zs)"
    using len n unfolding zs_def by (rule mset_take_replace_top)
  then have zS: "set zs \<subseteq> S" using set by (metis insert_subset set_mset_add_mset_insert set_mset_mset)
  let ?g = "h\<lparr>h_tree := map Val zs @ ?ys, h_next := n, h_count := n\<rparr>"
  have "\<exists>xs'. downheap ?g = Inr (?g\<lparr>h_tree := map Val xs' @ ?ys\<rparr>) \<and> mset xs' = mset zs \<and> heap_order cmp xs'"
  proof (rule downheap_ok)
    show "heap_down cmp zs 0"
      unfolding zs_def using ord len n by (intro heap_down_replace_top) simp_all
  qed (use inv zS lenz n small in \<open>simp_all add: heap_inv_def\<close>)
  then obtain xs' where dn: "downheap ?g = Inr (?g\<lparr>h_tree := map Val xs' @ ?ys\<rparr>)"
    and ms': "mset xs' = mset zs" and ord': "heap_order cmp xs'" by blast
  let ?h' = "?g\<lparr>h_tree := map Val xs' @ ?ys\<rparr>"
  have gets: "arr_get (h_tree h) 0 = Inr (?xs ! 0)" "arr_get (h_tree h) n = Inr (?xs ! n)"
    "arr_set (h_tree h) 0 (?xs ! n) = Inr (map Val zs @ ?ys)"
    using t len n split by simp_all
  have rem: "heap_remove h = Inr (Some (?xs ! 0), ?h')"
    using gets sub dn n inv by (simp add: heap_remove_def Let_def heap_inv_def)
  have len': "length xs' = n" and set': "set xs' = set zs"
    using ms' lenz by (metis size_mset) (metis ms' set_mset_mset)
  have "heap_inv S cmp ?h' \<and> heap_list ?h' = xs'"
    using inv sz len n len' set' zS ord' by (intro heap_inv_intro) (auto simp: heap_inv_def)
  moreover have "\<forall>x \<in> set ?xs. cmp (?xs ! 0) x \<le> 0"
    using heap_order_min [OF ord set] by (metis in_set_conv_nth)
  ultimately show ?thesis using rem ms ms' by auto
qed

end

section \<open>Priority queues\<close>

text \<open>
  What a client of heap.h relies on, independent of the array: insertion adds an element,
  removal takes away one that precedes all others. The client modelled here is the one of
  unittests/test_heap.c, which inserts an array and removes until the heap is empty.
\<close>

fun insert_all :: "('q \<Rightarrow> 'a option \<Rightarrow> 'q res) \<Rightarrow> 'q \<Rightarrow> 'a list \<Rightarrow> 'q res" where
  "insert_all ins q [] = Inr q"
| "insert_all ins q (x # xs) = bind_res (ins q (Some x)) (\<lambda>q'. insert_all ins q' xs)"

fun drain :: "('q \<Rightarrow> ('a option \<times> 'q) res) \<Rightarrow> nat \<Rightarrow> 'q \<Rightarrow> ('a list \<times> 'q) res" where
  "drain rem 0 q = Inr ([], q)"
| "drain rem (Suc n) q = bind_res (rem q) (\<lambda>r.
     case r of
       (None, q') \<Rightarrow> Inr ([], q')
     | (Some x, q') \<Rightarrow> bind_res (drain rem n q') (\<lambda>r'. Inr (x # fst r', snd r')))"

locale prio_queue = cmp_order S cmp for S :: "'a set" and cmp :: "'a \<Rightarrow> 'a \<Rightarrow> int" +
  fixes ins :: "'q \<Rightarrow> 'a option \<Rightarrow> 'q res"
    and rem :: "'q \<Rightarrow> ('a option \<times> 'q) res"
    and elems :: "'q \<Rightarrow> 'a multiset"
    and inv :: "'q \<Rightarrow> bool"
  assumes ins_elems: "inv q \<Longrightarrow> x \<in> S \<Longrightarrow> ins q (Some x) = Inr q' \<Longrightarrow>
      inv q' \<and> elems q' = add_mset x (elems q)"
    and rem_empty: "inv q \<Longrightarrow> elems q = {#} \<Longrightarrow> rem q = Inr (None, q)"
    and rem_least: "inv q \<Longrightarrow> elems q \<noteq> {#} \<Longrightarrow>
      \<exists>m q'. rem q = Inr (Some m, q') \<and> inv q' \<and> elems q = add_mset m (elems q') \<and>
        (\<forall>x. x \<in># elems q \<longrightarrow> cmp m x \<le> 0)"
begin

lemma insert_all_elems:
  "inv q \<Longrightarrow> set xs \<subseteq> S \<Longrightarrow> insert_all ins q xs = Inr q' \<Longrightarrow>
   inv q' \<and> elems q' = elems q + mset xs"
proof (induction xs arbitrary: q)
  case (Cons x xs)
  then obtain q1 where q1: "ins q (Some x) = Inr q1" "insert_all ins q1 xs = Inr q'"
    by (auto simp: bind_res_eq_Inr)
  with Cons.prems have "inv q1 \<and> elems q1 = add_mset x (elems q)" by (intro ins_elems) auto
  with Cons.IH [of q1] Cons.prems q1 show ?case by simp
qed simp

lemma drain_sorts:
  "inv q \<Longrightarrow> size (elems q) = n \<Longrightarrow>
   \<exists>ys q'. drain rem n q = Inr (ys, q') \<and> mset ys = elems q \<and>
     sorted_wrt (\<lambda>x y. cmp x y \<le> 0) ys \<and> rem q' = Inr (None, q')"
proof (induction n arbitrary: q)
  case 0
  then show ?case by (simp add: rem_empty)
next
  case (Suc n)
  then have "elems q \<noteq> {#}" by auto
  with Suc.prems obtain m q1 where m: "rem q = Inr (Some m, q1)" "inv q1" "elems q = add_mset m (elems q1)"
    and least: "\<forall>x. x \<in># elems q \<longrightarrow> cmp m x \<le> 0" using rem_least by blast
  then obtain ys q' where ys: "drain rem n q1 = Inr (ys, q')" "mset ys = elems q1"
    "sorted_wrt (\<lambda>x y. cmp x y \<le> 0) ys" "rem q' = Inr (None, q')"
    using Suc.IH [of q1] Suc.prems by auto
  have "\<forall>x \<in> set ys. cmp m x \<le> 0"
    using least ys(2) m(3) by (metis insert_iff set_mset_add_mset_insert set_mset_mset)
  with m ys show ?case by (intro exI [of _ "m # ys"] exI [of _ q']) simp
qed

end

locale heap_client = cmp_order S cmp for S :: "'a set" and cmp :: "'a \<Rightarrow> 'a \<Rightarrow> int" +
  fixes alloc :: "nat \<Rightarrow> bool"
  assumes mem: "alloc_ok alloc"
begin

lemma heap_insert_full_no_mem:
  assumes inv: "heap_inv S cmp h" and full: "h_next h = h_treesz h"
    and none: "\<not> alloc (2 * h_treesz h * ptr_size)"
  shows "heap_insert alloc h (Some x) = Inl Out_Of_Bounds"
proof -
  have "length (h_tree h) = h_next h" using inv full by (simp add: heap_inv_def)
  moreover have "heap_resize alloc h (sz_mul (h_treesz h) 2) = (False, h)"
    using heap_resize_double [OF inv mem] none by simp
  ultimately show ?thesis using full by (simp add: heap_insert_def Let_def arr_set_out)
qed

lemma heap_insert_Inr:
  assumes "heap_inv S cmp h" and "x \<in> S" and "heap_insert alloc h (Some x) = Inr h'"
  shows "heap_inv S cmp h' \<and> mset (heap_list h') = add_mset x (mset (heap_list h))"
proof -
  consider "h_next h < h_treesz h" | "h_next h = h_treesz h" using assms(1) by (force simp: heap_inv_def)
  then show ?thesis
  proof cases
    case 1
    with heap_insert_room [OF assms(1) 1 assms(2), of alloc] assms(3) show ?thesis by auto
  next
    case 2
    show ?thesis
    proof (cases "alloc (2 * h_treesz h * ptr_size)")
      case True
      with heap_insert_grow [OF assms(1) 2 assms(2) mem] assms(3) show ?thesis by auto
    next
      case False
      with heap_insert_full_no_mem [OF assms(1) 2] assms(3) show ?thesis by simp
    qed
  qed
qed

lemma heap_remove_empty:
  "heap_inv S cmp h \<Longrightarrow> heap_list h = [] \<Longrightarrow> heap_remove h = Inr (None, h)"
  using heap_list_length [of S cmp h] by (simp add: heap_remove_def heap_inv_def)

end

sublocale heap_client \<subseteq> pq: prio_queue S cmp "heap_insert alloc" heap_remove
  "\<lambda>h. mset (heap_list h)" "heap_inv S cmp"
proof
  fix h x h' assume "heap_inv S cmp h" "x \<in> S" "heap_insert alloc h (Some x) = Inr h'"
  then show "heap_inv S cmp h' \<and> mset (heap_list h') = add_mset x (mset (heap_list h))"
    by (rule heap_insert_Inr)
next
  fix h assume "heap_inv S cmp h" "mset (heap_list h) = {#}"
  then show "heap_remove h = Inr (None, h)" by (simp add: heap_remove_empty)
next
  fix h assume "heap_inv S cmp h" "mset (heap_list h) \<noteq> {#}"
  then show "\<exists>m h'. heap_remove h = Inr (Some m, h') \<and> heap_inv S cmp h' \<and>
      mset (heap_list h) = add_mset m (mset (heap_list h')) \<and>
      (\<forall>x. x \<in># mset (heap_list h) \<longrightarrow> cmp m x \<le> 0)"
    using heap_remove_min [of h] by auto
qed

context heap_client begin

lemmas heap_insert_all_elems = pq.insert_all_elems
  and heap_drain_sorts = pq.drain_sorts

lemma heap_insert_mem:
  assumes inv: "heap_inv S cmp h" and x: "x \<in> S"
    and room: "h_next h < h_treesz h \<or> alloc (2 * h_treesz h * ptr_size)"
  shows "\<exists>h'. heap_insert alloc h (Some x) = Inr h' \<and> h_next h' = Suc (h_next h) \<and>
    (h_treesz h' = h_treesz h \<or> h_treesz h' = 2 * h_treesz h \<and> h_treesz h = h_next h)"
proof -
  have "\<exists>h'. heap_insert alloc h (Some x) = Inr h' \<and>
    (h_treesz h' = h_treesz h \<or> h_treesz h' = 2 * h_treesz h \<and> h_treesz h = h_next h)"
  proof (cases "h_next h < h_treesz h")
    case True
    with heap_insert_room [OF inv True x] show ?thesis by auto
  next
    case False
    then have "h_next h = h_treesz h" using inv by (simp add: heap_inv_def)
    with heap_insert_grow [OF inv this x mem] room False show ?thesis by auto
  qed
  then obtain h' where h': "heap_insert alloc h (Some x) = Inr h'"
    and sz: "h_treesz h' = h_treesz h \<or> h_treesz h' = 2 * h_treesz h \<and> h_treesz h = h_next h" by blast
  have i: "heap_inv S cmp h'" and m: "mset (heap_list h') = add_mset x (mset (heap_list h))"
    using heap_insert_Inr [OF inv x h'] by auto
  have "length (heap_list h) = h_next h" "length (heap_list h') = h_next h'"
    using inv i by (auto simp: heap_list_def heap_inv_def)
  with m have "h_next h' = Suc (h_next h)" by (metis size_add_mset size_mset)
  with h' sz show ?thesis by blast
qed

lemma heap_insert_all_mem:
  assumes "heap_inv S cmp h" and "set xs \<subseteq> S"
    and "\<And>n. n \<le> 2 * (h_next h + length xs) * ptr_size \<Longrightarrow> alloc n"
  shows "\<exists>h'. insert_all (heap_insert alloc) h xs = Inr h'"
  using assms
proof (induction xs arbitrary: h)
  case (Cons x xs)
  have "h_next h < h_treesz h \<or> alloc (2 * h_treesz h * ptr_size)"
  proof (cases "h_next h < h_treesz h")
    case False
    then have "h_treesz h = h_next h" using Cons.prems(1) by (simp add: heap_inv_def)
    then show ?thesis by (intro disjI2 Cons.prems(3) mult_le_mono) simp_all
  qed simp
  then obtain h1 where h1: "heap_insert alloc h (Some x) = Inr h1" "h_next h1 = Suc (h_next h)"
    using heap_insert_mem [OF Cons.prems(1)] Cons.prems(2) by auto
  then have "heap_inv S cmp h1" using heap_insert_Inr [OF Cons.prems(1)] Cons.prems(2) by auto
  with Cons.IH [of h1] Cons.prems h1 show ?case by auto
qed simp

end

interpretation char_heap: heap_client UNIV chcmp "mem_upto 1000000"
  by unfold_locales (simp add: mem_upto_ok)

interpretation int_heap: heap_client small_ints icmp "mem_upto 1000000"
  by unfold_locales (simp add: mem_upto_ok)

section \<open>Properties\<close>

definition demo_heap :: "8 word heap" where
  "demo_heap = \<lparr>h_tree = [Val 3, Val 5, Val 4, Undef], h_treesz = 4, h_count = 3, h_next = 3,
     h_cmpfn = chcmp\<rparr>"

lemma demo_heap_inv: "heap_inv UNIV chcmp demo_heap"
  by (simp add: heap_inv_def demo_heap_def heap_list_def heap_order_def max_cells_def
      all_val_def up_def numeral_3_eq_3 All_less_Suc chcmp_def)

text \<open>
  C1: on a well-formed heap with room for one more element, or memory to double the array, \<open>heap_insert\<close> returns,
  keeps the heap well-formed, adds exactly the given element and counts it.
\<close>

theorem heap_insert_correct:
  assumes "cmp_order S cmp" and "alloc_ok alloc" and "heap_inv S cmp h" and "x \<in> S"
    and "h_next h < h_treesz h \<or> alloc (2 * h_treesz h * ptr_size)"
  shows "\<exists>h'. heap_insert alloc h (Some x) = Inr h' \<and> heap_inv S cmp h' \<and>
    mset (heap_list h') = add_mset x (mset (heap_list h)) \<and> heap_count h' = Suc (heap_count h)"
proof -
  have client: "heap_client S cmp alloc" using assms(1,2) by (simp add: heap_client_def heap_client_axioms_def)
  obtain h' where h': "heap_insert alloc h (Some x) = Inr h'" "h_next h' = Suc (h_next h)"
    using heap_client.heap_insert_mem [OF client assms(3-5)] by blast
  with heap_client.heap_insert_Inr [OF client assms(3,4) h'(1)] assms(3) show ?thesis
    by (auto simp: heap_count_def heap_inv_def)
qed

theorem heap_insert_correct_witness:
  "\<exists>h'. heap_insert (mem_upto 1000) demo_heap (Some 1) = Inr h' \<and> heap_inv UNIV chcmp h' \<and>
    mset (heap_list h') = add_mset 1 (mset (heap_list demo_heap)) \<and> heap_count h' = Suc (heap_count demo_heap)"
  by (rule heap_insert_correct [OF chars.cmp_order_axioms mem_upto_ok demo_heap_inv])
    (simp_all add: demo_heap_def)

text \<open>
  C2: \<open>heap_remove\<close> on a well-formed heap returns NULL and changes nothing when the heap is empty;
  otherwise it returns an element that no stored element precedes, and leaves a well-formed heap
  of all the others.
\<close>

theorem heap_remove_correct:
  assumes "cmp_order S cmp" and "heap_inv S cmp h"
  shows "if heap_count h = 0 then heap_remove h = Inr (None, h)
    else \<exists>m h'. heap_remove h = Inr (Some m, h') \<and> heap_inv S cmp h' \<and>
      mset (heap_list h) = add_mset m (mset (heap_list h')) \<and> (\<forall>x. x \<in> set (heap_list h) \<longrightarrow> cmp m x \<le> 0)"
proof (cases "heap_count h = 0")
  case False
  then have "heap_list h \<noteq> []" using heap_list_length [OF assms(2)] assms(2) by (auto simp: heap_count_def heap_inv_def)
  from cmp_order.heap_remove_min [OF assms this] False show ?thesis by auto
qed (simp add: heap_count_def heap_remove_def)

theorem heap_remove_correct_witness:
  "\<exists>m h'. heap_remove demo_heap = Inr (Some m, h') \<and> heap_inv UNIV chcmp h' \<and>
    mset (heap_list demo_heap) = add_mset m (mset (heap_list h'))"
  using heap_remove_correct [OF chars.cmp_order_axioms demo_heap_inv]
  by (auto simp: heap_count_def demo_heap_def)

text \<open>
  C3: given memory for the elements, a new heap takes any array of elements of \<open>S\<close>, and removing
  as many elements as were inserted yields the array sorted by the comparison function, after
  which the heap is empty: the property test_heap.c samples.
\<close>

theorem heap_sorts:
  assumes order: "cmp_order S cmp" and mem: "alloc_ok alloc" and xs: "set xs \<subseteq> S"
    and enough: "\<And>n. n \<le> 32 * ptr_size + 2 * length xs * ptr_size \<Longrightarrow> alloc n"
  shows "\<exists>h h' ys h''. heap_init alloc cmp = Some h \<and> insert_all (heap_insert alloc) h xs = Inr h' \<and>
    drain heap_remove (length xs) h' = Inr (ys, h'') \<and> mset ys = mset xs \<and>
    sorted_wrt (\<lambda>x y. cmp x y \<le> 0) ys \<and> heap_remove h'' = Inr (None, h'')"
proof -
  have client: "heap_client S cmp alloc" using order mem by (simp add: heap_client_def heap_client_axioms_def)
  have "alloc sizeof_heap" "alloc (32 * ptr_size)"
    by (rule enough; simp add: sizeof_heap_def ptr_size_def)+
  then obtain h where h: "heap_init alloc cmp = Some h" "heap_inv S cmp h" "heap_list h = []"
    using heap_init_inv by blast
  then have "h_next h = 0" using heap_list_length by force
  then obtain h' where h': "insert_all (heap_insert alloc) h xs = Inr h'"
    using heap_client.heap_insert_all_mem [OF client h(2) xs] enough by auto
  have "heap_inv S cmp h'" "mset (heap_list h') = mset xs"
    using heap_client.heap_insert_all_elems [OF client h(2) xs h'] h(3) by auto
  then show ?thesis
    using heap_client.heap_drain_sorts [OF client, of h' "length xs"] h h' by auto
qed

theorem heap_sorts_witness:
  "\<exists>h h' ys h''. heap_init (mem_upto 1000) chcmp = Some h \<and>
    insert_all (heap_insert (mem_upto 1000)) h [7, 250, 7, 1] = Inr h' \<and>
    drain heap_remove (length [7, 250, 7, 1 :: 8 word]) h' = Inr (ys, h'') \<and> mset ys = mset [7, 250, 7, 1] \<and>
    sorted_wrt (\<lambda>x y. chcmp x y \<le> 0) ys \<and> heap_remove h'' = Inr (None, h'')"
  by (rule heap_sorts [OF chars.cmp_order_axioms mem_upto_ok]) (simp_all add: mem_upto_def ptr_size_def)

text \<open>
  \<open>heap_insert\<close> ignores the result of \<open>heap_resize\<close>: when the array is full and the allocator
  refuses to double it, the new element is written past the end of the array.
\<close>

theorem heap_insert_unchecked_resize:
  assumes "alloc_ok alloc" and "cmp_order S cmp" and "heap_inv S cmp h" and "h_next h = h_treesz h"
    and "\<not> alloc (2 * h_treesz h * ptr_size)"
  shows "heap_insert alloc h (Some x) = Inl Out_Of_Bounds"
  using heap_client.heap_insert_full_no_mem assms
  by (metis heap_client.intro heap_client_axioms.intro)

definition full_heap :: "8 word heap" where
  "full_heap = \<lparr>h_tree = [Val 3], h_treesz = 1, h_count = 1, h_next = 1, h_cmpfn = chcmp\<rparr>"

theorem heap_insert_unchecked_resize_witness:
  "heap_insert (mem_upto 8) full_heap (Some 9) = Inl Out_Of_Bounds"
  by (rule heap_insert_unchecked_resize [OF mem_upto_ok chars.cmp_order_axioms])
    (simp_all add: heap_inv_def full_heap_def heap_list_def heap_order_def max_cells_def all_val_def
      mem_upto_def ptr_size_def)

end
