(* ===== verification/Deque.thy ===== *)
theory Deque imports CDouble begin

text \<open>
  deque.c: a double-ended queue of pointers in a growing array. The elements lie in the cells
  from \<open>back\<close> up to \<open>front\<close>; resizing places them in the new block according to a bias computed
  in floating point from how often either end was pushed to. A handle that the code tests for
  NULL is an optional record; a \<open>void *\<close> argument or result is an optional element.
\<close>

section \<open>The code\<close>

record 'a deque =
  d_nelem :: nat
  d_data :: "'a cell list"
  d_back :: nat
  d_front :: nat
  d_iter :: "nat cell"
  d_pfcnt :: nat
  d_pbcnt :: nat

definition sizeof_deque :: nat where
  "sizeof_deque = 56"

text \<open>\<open>deque_init\<close> writes through the result of \<open>malloc\<close> without looking at it.\<close>

definition deque_init :: "(nat \<Rightarrow> bool) \<Rightarrow> nat \<Rightarrow> 'a deque res" where
  "deque_init alloc initsize0 =
     (let initsize = (if initsize0 = 0 then 1 else initsize0) in
      if \<not> alloc sizeof_deque then Inl Null_Deref
      else
        let data = (if alloc (sz_mul ptr_size initsize)
                    then replicate (block_cells initsize) Undef else []) in
        Inr \<lparr>d_nelem = initsize, d_data = data, d_back = initsize div 2, d_front = initsize div 2,
             d_iter = Undef, d_pfcnt = 0, d_pbcnt = 0\<rparr>)"

definition deque_clear :: "'a deque option \<Rightarrow> 'a deque option" where
  "deque_clear h =
     (case h of None \<Rightarrow> None
      | Some d \<Rightarrow> Some (d\<lparr>d_back := d_nelem d div 2, d_front := d_nelem d div 2\<rparr>))"

definition deque_count :: "'a deque \<Rightarrow> nat" where
  "deque_count d = sz_sub (d_front d) (d_back d)"

definition d_nine :: double where
  "d_nine = rnd (9 / 10)"

definition deque_bias :: "'a deque \<Rightarrow> double res" where
  "deque_bias d =
     bind_res (d_div (d_mul 2 (d_sub (dbl (d_pfcnt d)) (dbl (d_pbcnt d)))) (dbl (d_nelem d))) (\<lambda>bias.
     Inr (if d_nine < bias then d_nine else if bias < - d_nine then - d_nine else bias))"

definition deque_newback :: "double \<Rightarrow> nat \<Rightarrow> nat res" where
  "deque_newback bias newback = to_size (d_add (dbl newback) (d_mul bias (dbl newback)))"

definition deque_resize :: "(nat \<Rightarrow> bool) \<Rightarrow> 'a deque \<Rightarrow> nat \<Rightarrow> (bool \<times> 'a deque) res" where
  "deque_resize alloc d newsz0 =
     (let newsz = (if newsz0 = 0 then 1 else newsz0); count = deque_count d in
      if newsz < count then Inr (False, d)
      else if \<not> alloc (sz_mul newsz ptr_size) then Inr (False, d)
      else
        bind_res (deque_bias d) (\<lambda>bias.
        bind_res (deque_newback bias (sz_sub newsz count div 2)) (\<lambda>newback.
        bind_res (arr_copy (replicate (block_cells newsz) Undef) newback (d_data d) (d_back d) count) (\<lambda>newloc.
        Inr (True, d\<lparr>d_data := newloc, d_back := newback, d_front := sz_add newback count,
                     d_nelem := newsz\<rparr>)))))"

text \<open>The two growing loops differ in the condition under which the end has no room.\<close>

definition grow_body ::
  "(nat \<Rightarrow> bool) \<Rightarrow> ('a deque \<Rightarrow> bool) \<Rightarrow> 'a deque \<Rightarrow> ('a deque, bool \<times> 'a deque) step res" where
  "grow_body alloc full d =
     (if full d then
        bind_res (deque_resize alloc d (sz_mul (d_nelem d) 2)) (\<lambda>r.
        if \<not> fst r then Inr (Break r) else Inr (Continue (snd r)))
      else Inr (Break (True, d)))"

definition full_front :: "'a deque \<Rightarrow> bool" where
  "full_front d \<longleftrightarrow> d_nelem d \<le> d_front d"

definition full_back :: "'a deque \<Rightarrow> bool" where
  "full_back d \<longleftrightarrow> d_back d = 0"

definition deque_pushfront ::
  "(nat \<Rightarrow> bool) \<Rightarrow> 'a deque option \<Rightarrow> 'a option \<Rightarrow> (bool \<times> 'a deque option) res" where
  "deque_pushfront alloc h data =
     (case (h, data) of
        (Some d, Some x) \<Rightarrow>
          bind_res (c_loop (grow_body alloc full_front) d) (\<lambda>r.
          let d1 = snd r in
          if \<not> fst r then Inr (False, Some d1)
          else
            bind_res (arr_set (d_data d1) (d_front d1) x) (\<lambda>a.
            Inr (True, Some (d1\<lparr>d_data := a, d_front := sz_add (d_front d1) 1,
                              d_pfcnt := sz_add (d_pfcnt d1) 1\<rparr>))))
      | _ \<Rightarrow> Inr (False, h))"

definition deque_pushback ::
  "(nat \<Rightarrow> bool) \<Rightarrow> 'a deque option \<Rightarrow> 'a option \<Rightarrow> (bool \<times> 'a deque option) res" where
  "deque_pushback alloc h data =
     (case (h, data) of
        (Some d, Some x) \<Rightarrow>
          bind_res (c_loop (grow_body alloc full_back) d) (\<lambda>r.
          let d1 = snd r in
          if \<not> fst r then Inr (False, Some d1)
          else
            let back = sz_sub (d_back d1) 1 in
            bind_res (arr_set (d_data d1) back x) (\<lambda>a.
            Inr (True, Some (d1\<lparr>d_data := a, d_back := back, d_pbcnt := sz_add (d_pbcnt d1) 1\<rparr>))))
      | _ \<Rightarrow> Inr (False, h))"

definition deque_shrink :: "(nat \<Rightarrow> bool) \<Rightarrow> 'a deque option \<Rightarrow> double \<Rightarrow> (bool \<times> 'a deque option) res" where
  "deque_shrink alloc h countfac =
     (case h of
        None \<Rightarrow> Inr (False, None)
      | Some d \<Rightarrow>
          if countfac < 1 then Inr (False, Some d)
          else
            bind_res (to_size (d_mul countfac (dbl (deque_count d)))) (\<lambda>newsz.
            bind_res (deque_resize alloc d newsz) (\<lambda>r. Inr (fst r, Some (snd r)))))"

definition recenter :: "'a deque \<Rightarrow> 'a deque option" where
  "recenter d = (if d_front d = d_back d then deque_clear (Some d) else Some d)"

definition deque_popfront :: "'a deque option \<Rightarrow> ('a option \<times> 'a deque option) res" where
  "deque_popfront h =
     (case h of
        None \<Rightarrow> Inr (None, None)
      | Some d \<Rightarrow>
          if d_back d = d_front d then Inr (None, Some d)
          else
            let front = sz_sub (d_front d) 1 in
            bind_res (arr_get (d_data d) front) (\<lambda>ret.
            Inr (Some ret, recenter (d\<lparr>d_front := front\<rparr>))))"

definition deque_popback :: "'a deque option \<Rightarrow> ('a option \<times> 'a deque option) res" where
  "deque_popback h =
     (case h of
        None \<Rightarrow> Inr (None, None)
      | Some d \<Rightarrow>
          if d_back d = d_front d then Inr (None, Some d)
          else
            bind_res (arr_get (d_data d) (d_back d)) (\<lambda>ret.
            Inr (Some ret, recenter (d\<lparr>d_back := sz_add (d_back d) 1\<rparr>))))"

definition deque_peekfront :: "'a deque \<Rightarrow> 'a option res" where
  "deque_peekfront d =
     (if d_front d = d_back d then Inr None
      else bind_res (arr_get (d_data d) (sz_sub (d_front d) 1)) (\<lambda>x. Inr (Some x)))"

definition deque_peekback :: "'a deque \<Rightarrow> 'a option res" where
  "deque_peekback d =
     (if d_front d = d_back d then Inr None
      else bind_res (arr_get (d_data d) (d_back d)) (\<lambda>x. Inr (Some x)))"

definition deque_first :: "'a deque option \<Rightarrow> bool \<Rightarrow> ('a option \<times> 'a deque option) res" where
  "deque_first h back =
     (case h of
        None \<Rightarrow> Inr (None, None)
      | Some d \<Rightarrow>
          if d_front d = d_back d then Inr (None, Some d)
          else
            let i = (if back then d_back d else sz_sub (d_front d) 1) in
            bind_res (arr_get (d_data d) i) (\<lambda>x. Inr (Some x, Some (d\<lparr>d_iter := Val i\<rparr>))))"

definition deque_next :: "'a deque option \<Rightarrow> bool \<Rightarrow> ('a option \<times> 'a deque option) res" where
  "deque_next h forwards =
     (case h of
        None \<Rightarrow> Inr (None, None)
      | Some d \<Rightarrow>
          (case d_iter d of
             Undef \<Rightarrow> Inl Indeterminate
           | Val i \<Rightarrow>
               if (\<not> forwards \<and> i \<le> d_back d) \<or> (forwards \<and> d_front d \<le> sz_add i 1)
               then Inr (None, Some d)
               else
                 let i' = (if forwards then sz_add i 1 else sz_sub i 1) in
                 bind_res (arr_get (d_data d) i') (\<lambda>x. Inr (Some x, Some (d\<lparr>d_iter := Val i'\<rparr>)))))"

section \<open>Where resizing puts the elements\<close>

text \<open>
  The floating-point placement never leaves the block: with \<open>nb\<close> cells on either side of a
  centred content, the rounded result lies strictly between a twentieth of \<open>nb\<close> and twice \<open>nb\<close>.
\<close>

lemma newback_bounds:
  fixes n b :: rat
  assumes n: "0 \<le> n" and b: "\<bar>b\<bar> \<le> d_nine"
  defines "t \<equiv> rnd (rnd n + rnd (b * rnd n))"
  shows "n * (1 / 11) \<le> t" and "t \<le> n * (191 / 100)"
proof -
  define x where "x = rnd n"
  have x: "n * (999999 / 1000000) \<le> x" "x \<le> n * (1000001 / 1000000)" "0 \<le> x"
    unfolding x_def using rnd_lower [OF n] rnd_upper [OF n] rnd_nonneg [OF n] .
  have "d_nine \<le> 900001 / 1000000"
    unfolding d_nine_def by (rule order_trans [OF rnd_upper]) simp_all
  then have "\<bar>b\<bar> \<le> 900001 / 1000000" using b by linarith
  then have "\<bar>b\<bar> * x \<le> 900001 / 1000000 * x" using x(3) by (rule mult_right_mono)
  then have "\<bar>b * x\<bar> \<le> x * (900001 / 1000000)" using x(3) by (simp add: abs_mult mult.commute)
  from rnd_abs_upper [OF this] have y: "\<bar>rnd (b * x)\<bar> \<le> x * (900002 / 1000000)"
    using x(3) by simp
  define z where "z = x + rnd (b * x)"
  have z: "x * (99998 / 1000000) \<le> z" "z \<le> x * (1900002 / 1000000)"
    unfolding z_def using y by (simp_all add: abs_le_iff)
  then have "0 \<le> z" using x(3) by simp
  then have t: "z * (999999 / 1000000) \<le> t" "t \<le> z * (1000001 / 1000000)"
    unfolding t_def z_def [symmetric] x_def [symmetric] using rnd_lower rnd_upper by blast+
  show "n * (1 / 11) \<le> t" using t(1) z(1) x(1) n by linarith
  show "t \<le> n * (191 / 100)" using t(2) z(2) x(2) n by linarith
qed

lemma d_nine_pos: "0 \<le> d_nine"
  unfolding d_nine_def by (rule rnd_nonneg) simp

lemma deque_bias_ok:
  assumes "0 < d_nelem d"
  shows "\<exists>b. deque_bias d = Inr b \<and> \<bar>b\<bar> \<le> d_nine"
proof -
  have "0 < (of_nat (d_nelem d) :: rat) * (1 - d_eps)" using assms d_eps_range by simp
  then have "dbl (d_nelem d) \<noteq> 0"
    unfolding dbl_def using rnd_bounds_pos [of "of_nat (d_nelem d)"] by simp
  then show ?thesis using d_nine_pos by (auto simp: deque_bias_def d_div_def abs_le_iff)
qed

lemma deque_newback_ok:
  assumes "\<bar>b\<bar> \<le> d_nine" and "nb < max_cells"
  shows "\<exists>k. deque_newback b nb = Inr k \<and> k \<le> 2 * nb \<and> (0 < nb \<longrightarrow> k < 2 * nb) \<and> (11 \<le> nb \<longrightarrow> 0 < k)"
proof -
  let ?t = "rnd (rnd (of_nat nb) + rnd (b * rnd (of_nat nb)))"
  have lo: "of_nat nb * (1 / 11) \<le> ?t" and hi: "?t \<le> of_nat nb * (191 / 100)"
    using newback_bounds [OF _ assms(1), of "of_nat nb"] by simp_all
  have "0 \<le> (of_nat nb :: rat) * (1 / 11)" by simp
  then have pos: "0 \<le> ?t" using lo by linarith
  have "(of_nat nb :: rat) < of_nat max_cells" using assms(2) by simp
  then have "?t < of_nat size_max" using hi by (simp add: max_cells_def size_max_def)
  then have res: "deque_newback b nb = Inr (nat \<lfloor>?t\<rfloor>)"
    using pos by (simp add: deque_newback_def d_add_def d_mul_def dbl_def to_size_Inr)
  have "of_nat (nat \<lfloor>?t\<rfloor>) \<le> ?t" using pos by (simp add: of_nat_floor)
  then have "(of_nat (nat \<lfloor>?t\<rfloor>) :: rat) \<le> of_nat nb * (191 / 100)" using hi by linarith
  then have le: "(of_nat (100 * nat \<lfloor>?t\<rfloor>) :: rat) \<le> of_nat (191 * nb)" by simp
  then have "100 * nat \<lfloor>?t\<rfloor> \<le> 191 * nb" by (simp only: of_nat_le_iff)
  moreover have "0 < nat \<lfloor>?t\<rfloor>" if "11 \<le> nb"
  proof -
    have "(11 :: rat) \<le> of_nat nb" using that by (metis of_nat_le_iff of_nat_numeral)
    then have "1 \<le> ?t" using lo by linarith
    then show ?thesis by (simp add: zero_less_nat_eq)
  qed
  ultimately show ?thesis using res by auto
qed

section \<open>The stored sequence\<close>

definition deque_inv :: "'a deque \<Rightarrow> bool" where
  "deque_inv d \<longleftrightarrow>
     length (d_data d) = d_nelem d \<and> 0 < d_nelem d \<and> d_nelem d < max_cells \<and>
     d_back d \<le> d_front d \<and> d_front d \<le> d_nelem d \<and> all_val (cells (d_back d) (d_front d) (d_data d))"

text \<open>Back first: \<open>pushfront\<close> and \<open>popfront\<close> work at the end of this list.\<close>

definition deque_list :: "'a deque \<Rightarrow> 'a list" where
  "deque_list d = vals (cells (d_back d) (d_front d) (d_data d))"

lemma deque_inv_sizes:
  assumes "deque_inv d"
  shows "d_front d < size_max" "d_back d < size_max" "d_nelem d < size_max"
    "deque_count d = d_front d - d_back d"
proof -
  show b: "d_front d < size_max" "d_back d < size_max" "d_nelem d < size_max"
    using assms by (auto simp: deque_inv_def max_cells_def size_max_def)
  then show "deque_count d = d_front d - d_back d"
    using assms by (simp add: deque_count_def deque_inv_def sz_simps)
qed

lemma length_deque_list: "deque_inv d \<Longrightarrow> length (deque_list d) = d_front d - d_back d"
  by (simp add: deque_list_def deque_inv_def)

lemma deque_list_nth:
  assumes "deque_inv d" and "i < d_front d - d_back d"
  shows "arr_get (d_data d) (d_back d + i) = Inr (deque_list d ! i)"
proof -
  let ?c = "cells (d_back d) (d_front d) (d_data d)"
  have len: "length ?c = d_front d - d_back d" using assms by (simp add: deque_inv_def)
  have "?c ! i = Val (vals ?c ! i)" using assms len by (intro all_val_nth) (simp_all add: deque_inv_def)
  moreover have "?c ! i = d_data d ! (d_back d + i)" using assms by (intro nth_cells) (auto simp: deque_inv_def)
  ultimately show ?thesis
    using assms by (intro arr_get_cell) (auto simp: deque_list_def deque_inv_def)
qed

lemma deque_empty_iff: "deque_inv d \<Longrightarrow> deque_list d = [] \<longleftrightarrow> d_back d = d_front d"
  using length_deque_list [of d] by (auto simp: deque_inv_def simp flip: length_0_conv)

lemma deque_clear_inv:
  "deque_inv d \<Longrightarrow> \<exists>d'. deque_clear (Some d) = Some d' \<and> deque_inv d' \<and> deque_list d' = []"
  by (auto simp: deque_clear_def deque_inv_def deque_list_def)

lemma deque_resize_ok:
  assumes inv: "deque_inv d" and ok: "alloc_ok alloc"
    and n: "d_front d - d_back d \<le> n" "0 < n" "n < 2 * max_cells"
    and mem: "alloc (sz_mul n ptr_size)"
  shows "\<exists>d'. deque_resize alloc d n = Inr (True, d') \<and> deque_inv d' \<and> deque_list d' = deque_list d \<and>
     d_nelem d' = n \<and> (d_front d - d_back d < n \<longrightarrow> d_front d' < n) \<and>
     (d_front d - d_back d + 22 \<le> n \<longrightarrow> 0 < d_back d')"
proof -
  let ?c = "d_front d - d_back d"
  let ?nb = "(n - ?c) div 2"
  have nmax: "n < max_cells" using alloc_cells_bound [OF ok n(3) mem] .
  then have nsz: "n < size_max" by (simp add: max_cells_def size_max_def)
  obtain b where b: "deque_bias d = Inr b" "\<bar>b\<bar> \<le> d_nine"
    using deque_bias_ok inv by (auto simp: deque_inv_def)
  obtain k where k: "deque_newback b ?nb = Inr k" "k \<le> 2 * ?nb" "0 < ?nb \<longrightarrow> k < 2 * ?nb"
    "11 \<le> ?nb \<longrightarrow> 0 < k"
    using deque_newback_ok [OF b(2), of ?nb] nmax by (meson div_le_dividend diff_le_self le_less_trans)
  have kc: "k + ?c \<le> n" using k(2) n(1) by linarith
  then have kn: "k \<le> n" by simp
  let ?cells = "cells (d_back d) (d_front d) (d_data d)"
  have lenc: "length ?cells = ?c" using inv by (simp add: deque_inv_def)
  let ?new = "replicate k Undef @ ?cells @ replicate (n - (k + ?c)) Undef"
  have copy: "arr_copy (replicate n Undef) k (d_data d) (d_back d) ?c = Inr ?new"
    using kn kc inv by (subst arr_copy_in) (auto simp: deque_inv_def cells_def min_def)
  have res: "deque_resize alloc d n
      = Inr (True, d\<lparr>d_data := ?new, d_back := k, d_front := k + ?c, d_nelem := n\<rparr>)"
    using inv n mem b(1) k(1) copy kc nsz deque_inv_sizes [OF inv]
    by (simp add: deque_resize_def Let_def sz_simps)
  have cells': "cells k (k + ?c) ?new = ?cells" using lenc by (simp add: cells_def)
  have "deque_inv (d\<lparr>d_data := ?new, d_back := k, d_front := k + ?c, d_nelem := n\<rparr>)"
    using inv kc kn n nmax lenc cells' by (auto simp: deque_inv_def)
  moreover have "k + ?c < n" if "?c < n" using that k(2,3) by linarith
  moreover have "0 < k" if "?c + 22 \<le> n" using that k(4) by linarith
  ultimately show ?thesis using res cells' by (simp add: deque_list_def)
qed

lemma deque_resize_refused:
  "deque_inv d \<Longrightarrow> 0 < n \<Longrightarrow> n < d_front d - d_back d \<or> \<not> alloc (sz_mul n ptr_size) \<Longrightarrow>
   deque_resize alloc d n = Inr (False, d)"
  by (auto simp: deque_resize_def Let_def deque_inv_sizes)

section \<open>Making room\<close>

lemma deque_double:
  assumes inv: "deque_inv d" and ok: "alloc_ok alloc"
  shows "sz_mul (d_nelem d) 2 = 2 * d_nelem d"
    and "sz_mul (2 * d_nelem d) ptr_size = 2 * d_nelem d * ptr_size"
    and "d_front d - d_back d \<le> 2 * d_nelem d" and "0 < 2 * d_nelem d" and "2 * d_nelem d < 2 * max_cells"
  using inv by (auto simp: deque_inv_def sz_mul_def ptr_size_def max_cells_def size_max_def)

text \<open>
  Either growing loop ends, whatever the allocator answers: it keeps the content, and reports
  success only when the end it was called for has room.
\<close>

lemma grow_loop_ok:
  assumes inv: "deque_inv d" and ok: "alloc_ok alloc"
  shows "\<exists>r. c_loop (grow_body alloc full) d = Inr r \<and>
     (deque_inv (snd r) \<and> deque_list (snd r) = deque_list d \<and> (fst r \<longrightarrow> \<not> full (snd r)))"
proof (rule c_loop_rule [where I = "\<lambda>d'. deque_inv d' \<and> deque_list d' = deque_list d"
      and m = "\<lambda>d'. if full d' then max_cells - d_nelem d' else 0"])
  show "deque_inv d \<and> deque_list d = deque_list d" using inv by simp
next
  fix e assume e: "deque_inv e \<and> deque_list e = deque_list d"
  then have small: "d_nelem e < max_cells" "0 < d_nelem e" by (auto simp: deque_inv_def)
  note double = deque_double [OF conjunct1 [OF e] ok]
  show "(\<exists>t. grow_body alloc full e = Inr (Continue t) \<and> (deque_inv t \<and> deque_list t = deque_list d) \<and>
      (if full t then max_cells - d_nelem t else 0) < (if full e then max_cells - d_nelem e else 0)) \<or>
    (\<exists>r. grow_body alloc full e = Inr (Break r) \<and>
      (deque_inv (snd r) \<and> deque_list (snd r) = deque_list d \<and> (fst r \<longrightarrow> \<not> full (snd r))))"
  proof (cases "full e")
    case False
    with e show ?thesis by (simp add: grow_body_def)
  next
    case full: True
    show ?thesis
    proof (cases "alloc (sz_mul (2 * d_nelem e) ptr_size)")
      case True
      from deque_resize_ok [OF conjunct1 [OF e] ok double(3-5) True] obtain e' where
        "deque_resize alloc e (2 * d_nelem e) = Inr (True, e')" "deque_inv e'"
        "deque_list e' = deque_list e" "d_nelem e' = 2 * d_nelem e" by blast
      with full e small double(1) show ?thesis by (auto simp: grow_body_def)
    next
      case False
      with deque_resize_refused [of e "2 * d_nelem e" alloc] e double(1,4)
      have "deque_resize alloc e (sz_mul (d_nelem e) 2) = Inr (False, e)" by simp
      with full e show ?thesis by (simp add: grow_body_def)
    qed
  qed
qed

lemma grow_front_mem:
  assumes inv: "deque_inv d" and ok: "alloc_ok alloc"
    and mem: "d_front d < d_nelem d \<or> alloc (2 * d_nelem d * ptr_size)"
  shows "\<exists>d'. c_loop (grow_body alloc full_front) d = Inr (True, d')"
proof (cases "full_front d")
  case False
  then have "c_loop (grow_body alloc full_front) d = Inr (True, d)"
    by (intro c_loop_Break) (simp add: grow_body_def)
  then show ?thesis by blast
next
  case True
  note double = deque_double [OF inv ok]
  from True mem have "alloc (sz_mul (2 * d_nelem d) ptr_size)" using double(2) by (auto simp: full_front_def)
  from deque_resize_ok [OF inv ok double(3-5) this] obtain d' where
    res: "deque_resize alloc d (2 * d_nelem d) = Inr (True, d')"
    and d': "d_nelem d' = 2 * d_nelem d"
    and room: "d_front d - d_back d < 2 * d_nelem d \<longrightarrow> d_front d' < 2 * d_nelem d" by blast
  have "d_front d - d_back d < 2 * d_nelem d" using inv by (auto simp: deque_inv_def)
  with room d' have "\<not> full_front d'" by (simp add: full_front_def)
  then have "c_loop (grow_body alloc full_front) d' = Inr (True, d')"
    by (intro c_loop_Break) (simp add: grow_body_def)
  moreover have "grow_body alloc full_front d = Inr (Continue d')"
    using True res double(1) by (simp add: grow_body_def)
  ultimately show ?thesis by (auto simp: c_loop_Continue)
qed

text \<open>
  At the back one resize need not be enough: the placement may put the content at cell 0 again.
  Five doublings always are.
\<close>

lemma grow_back_mem:
  assumes inv: "deque_inv d" and ok: "alloc_ok alloc"
    and mem: "\<And>n. n \<le> 32 * d_nelem d * ptr_size \<Longrightarrow> alloc n"
  shows "\<exists>d'. c_loop (grow_body alloc full_back) d = Inr (True, d')"
proof -
  let ?I = "\<lambda>e. deque_inv e \<and> deque_list e = deque_list d \<and>
     (\<exists>k. k \<le> 5 \<and> d_nelem e = 2 ^ k * d_nelem d \<and> (k = 5 \<longrightarrow> 0 < d_back e))"
  have "\<exists>r. c_loop (grow_body alloc full_back) d = Inr r \<and> fst r"
  proof (rule c_loop_rule [where I = ?I and m = "\<lambda>e. if full_back e then max_cells - d_nelem e else 0"])
    show "?I d" using inv by (auto intro!: exI [of _ 0])
  next
    fix e assume e: "?I e"
    then have ie: "deque_inv e" and le: "deque_list e = deque_list d" by auto
    from e obtain k where k: "k \<le> 5" "d_nelem e = 2 ^ k * d_nelem d" "k = 5 \<longrightarrow> 0 < d_back e" by blast
    have small: "d_nelem e < max_cells" "0 < d_nelem e" "0 < d_nelem d" using ie inv by (auto simp: deque_inv_def)
    note double = deque_double [OF ie ok]
    show "(\<exists>t. grow_body alloc full_back e = Inr (Continue t) \<and> ?I t \<and>
        (if full_back t then max_cells - d_nelem t else 0) < (if full_back e then max_cells - d_nelem e else 0)) \<or>
      (\<exists>r. grow_body alloc full_back e = Inr (Break r) \<and> fst r)"
    proof (cases "full_back e")
      case False
      then show ?thesis by (simp add: grow_body_def)
    next
      case full: True
      then have k4: "k \<le> 4" using k by (auto simp: full_back_def le_less)
      then have "(2::nat) ^ k \<le> 2 ^ 4" by (intro power_increasing) simp_all
      then have "2 * d_nelem e * ptr_size \<le> 32 * d_nelem d * ptr_size" using k(2) by simp
      then have "alloc (sz_mul (2 * d_nelem e) ptr_size)" using mem double(2) by simp
      from deque_resize_ok [OF ie ok double(3-5) this] obtain e' where
        res: "deque_resize alloc e (2 * d_nelem e) = Inr (True, e')" and e': "deque_inv e'"
        "deque_list e' = deque_list e" "d_nelem e' = 2 * d_nelem e"
        and bk: "d_front e - d_back e + 22 \<le> 2 * d_nelem e \<longrightarrow> 0 < d_back e'" by blast
      have cnt: "d_front e - d_back e \<le> d_nelem d"
        using length_deque_list [OF ie] length_deque_list [OF inv] le inv by (auto simp: deque_inv_def)
      have "0 < d_back e'" if "Suc k = 5"
      proof -
        have "d_nelem e = 16 * d_nelem d" using k(2) that by (simp add: eval_nat_numeral)
        then show ?thesis using bk cnt small(3) by simp
      qed
      moreover have "d_nelem e' = 2 ^ Suc k * d_nelem d" using e'(3) k(2) by simp
      ultimately have "?I e'" using e' le k4 by (intro conjI exI [of _ "Suc k"]) auto
      with full res double(1) e'(3) small show ?thesis by (auto simp: grow_body_def)
    qed
  qed
  then show ?thesis by auto
qed

section \<open>Pushing and popping\<close>

lemma deque_pushfront_ok:
  assumes inv: "deque_inv d" and ok: "alloc_ok alloc"
  shows "\<exists>b d'. deque_pushfront alloc (Some d) (Some x) = Inr (b, Some d') \<and> deque_inv d' \<and>
     deque_list d' = (if b then deque_list d @ [x] else deque_list d) \<and>
     (d_front d < d_nelem d \<or> alloc (2 * d_nelem d * ptr_size) \<longrightarrow> b)"
proof -
  obtain b d1 where loop: "c_loop (grow_body alloc full_front) d = Inr (b, d1)"
    and d1: "deque_inv d1" "deque_list d1 = deque_list d" "b \<longrightarrow> \<not> full_front d1"
    using grow_loop_ok [OF inv ok, of full_front] by auto
  have b: "b" if "d_front d < d_nelem d \<or> alloc (2 * d_nelem d * ptr_size)"
    using grow_front_mem [OF inv ok that] loop by auto
  show ?thesis
  proof (cases b)
    case False
    with loop d1 b show ?thesis by (auto simp: deque_pushfront_def)
  next
    case True
    then have room: "d_front d1 < length (d_data d1)" using d1 by (simp add: full_front_def deque_inv_def)
    have add: "sz_add (d_front d1) 1 = Suc (d_front d1)"
      using d1 by (simp add: deque_inv_def sz_add_def max_cells_def size_max_def)
    let ?d' = "d1\<lparr>d_data := (d_data d1)[d_front d1 := Val x], d_front := Suc (d_front d1),
                d_pfcnt := sz_add (d_pfcnt d1) 1\<rparr>"
    have res: "deque_pushfront alloc (Some d) (Some x) = Inr (True, Some ?d')"
      using loop True room add by (simp add: deque_pushfront_def Let_def arr_set_in)
    have "cells (d_back d1) (Suc (d_front d1)) ((d_data d1)[d_front d1 := Val x])
        = cells (d_back d1) (d_front d1) (d_data d1) @ [Val x]"
      using d1 room by (simp add: cells_snoc cells_update_out deque_inv_def)
    then have "deque_inv ?d' \<and> deque_list ?d' = deque_list d @ [x]"
      using d1 room by (auto simp: deque_inv_def deque_list_def)
    with res True show ?thesis by auto
  qed
qed

lemma deque_pushback_ok:
  assumes inv: "deque_inv d" and ok: "alloc_ok alloc"
  shows "\<exists>b d'. deque_pushback alloc (Some d) (Some x) = Inr (b, Some d') \<and> deque_inv d' \<and>
     deque_list d' = (if b then x # deque_list d else deque_list d) \<and>
     ((\<forall>n. n \<le> 32 * d_nelem d * ptr_size \<longrightarrow> alloc n) \<longrightarrow> b)"
proof -
  obtain b d1 where loop: "c_loop (grow_body alloc full_back) d = Inr (b, d1)"
    and d1: "deque_inv d1" "deque_list d1 = deque_list d" "b \<longrightarrow> \<not> full_back d1"
    using grow_loop_ok [OF inv ok, of full_back] by auto
  have b: "b" if "\<forall>n. n \<le> 32 * d_nelem d * ptr_size \<longrightarrow> alloc n"
    using grow_back_mem [OF inv ok] that loop by auto
  show ?thesis
  proof (cases b)
    case False
    with loop d1 b show ?thesis by (auto simp: deque_pushback_def)
  next
    case True
    then obtain k where k: "d_back d1 = Suc k" using d1 by (cases "d_back d1") (auto simp: full_back_def)
    have room: "k < length (d_data d1)" "Suc k \<le> d_front d1" "d_front d1 \<le> length (d_data d1)"
      using d1 k by (auto simp: deque_inv_def)
    have sub: "sz_sub (Suc k) 1 = k" using deque_inv_sizes(2) [OF d1(1)] k by (simp add: sz_simps)
    let ?d' = "d1\<lparr>d_data := (d_data d1)[k := Val x], d_back := k, d_pbcnt := sz_add (d_pbcnt d1) 1\<rparr>"
    have res: "deque_pushback alloc (Some d) (Some x) = Inr (True, Some ?d')"
      using loop True room k sub by (simp add: deque_pushback_def Let_def arr_set_in)
    have "cells k (d_front d1) ((d_data d1)[k := Val x]) = Val x # cells (d_back d1) (d_front d1) (d_data d1)"
      using k room by (simp add: cells_cons cells_update_out)
    then have "deque_inv ?d' \<and> deque_list ?d' = x # deque_list d"
      using d1 room k by (auto simp: deque_inv_def deque_list_def)
    with res True show ?thesis by auto
  qed
qed

lemma recenter_ok:
  assumes "length (d_data d) = d_nelem d" "0 < d_nelem d" "d_nelem d < max_cells"
    "d_back d \<le> d_front d" "d_front d \<le> d_nelem d" "all_val (cells (d_back d) (d_front d) (d_data d))"
  shows "\<exists>d'. recenter d = Some d' \<and> deque_inv d' \<and> deque_list d' = deque_list d"
proof -
  have "deque_inv d" using assms by (simp add: deque_inv_def)
  with deque_clear_inv [OF this] show ?thesis
    by (auto simp: recenter_def deque_list_def)
qed

lemma deque_popfront_ok:
  assumes inv: "deque_inv d" and ne: "deque_list d \<noteq> []"
  shows "\<exists>d'. deque_popfront (Some d) = Inr (Some (last (deque_list d)), Some d') \<and> deque_inv d' \<and>
     deque_list d' = butlast (deque_list d)"
proof -
  have lt: "d_back d < d_front d" using inv ne by (auto simp: deque_empty_iff deque_inv_def)
  then obtain f where f: "d_front d = Suc f" by (cases "d_front d") auto
  have sub: "sz_sub (Suc f) 1 = f" using deque_inv_sizes(1) [OF inv] f by (simp add: sz_simps)
  have len: "length (deque_list d) = Suc f - d_back d" using length_deque_list [OF inv] f by simp
  have "arr_get (d_data d) (d_back d + (f - d_back d)) = Inr (deque_list d ! (f - d_back d))"
    using lt f by (intro deque_list_nth [OF inv]) simp
  then have get: "arr_get (d_data d) f = Inr (last (deque_list d))"
    using lt f ne len by (simp add: last_conv_nth Suc_diff_le)
  have snoc: "cells (d_back d) (Suc f) (d_data d) = cells (d_back d) f (d_data d) @ [d_data d ! f]"
    using lt f inv by (simp add: cells_snoc deque_inv_def)
  let ?d = "d\<lparr>d_front := f\<rparr>"
  have "deque_list ?d = butlast (deque_list d)" using f snoc by (simp add: deque_list_def)
  moreover have "\<exists>d'. recenter ?d = Some d' \<and> deque_inv d' \<and> deque_list d' = deque_list ?d"
    using inv lt f snoc by (intro recenter_ok) (auto simp: deque_inv_def)
  ultimately show ?thesis using lt f sub get by (auto simp: deque_popfront_def)
qed

lemma deque_popback_ok:
  assumes inv: "deque_inv d" and ne: "deque_list d \<noteq> []"
  shows "\<exists>d'. deque_popback (Some d) = Inr (Some (hd (deque_list d)), Some d') \<and> deque_inv d' \<and>
     deque_list d' = tl (deque_list d)"
proof -
  have lt: "d_back d < d_front d" using inv ne by (auto simp: deque_empty_iff deque_inv_def)
  have add: "sz_add (d_back d) 1 = Suc (d_back d)"
    using inv lt by (simp add: deque_inv_def sz_add_def max_cells_def size_max_def)
  have get: "arr_get (d_data d) (d_back d) = Inr (hd (deque_list d))"
    using deque_list_nth [OF inv, of 0] lt ne by (simp add: hd_conv_nth)
  have cons: "cells (d_back d) (d_front d) (d_data d) = d_data d ! d_back d # cells (Suc (d_back d)) (d_front d) (d_data d)"
    using lt inv by (simp add: cells_cons deque_inv_def)
  let ?d = "d\<lparr>d_back := Suc (d_back d)\<rparr>"
  have "deque_list ?d = tl (deque_list d)" using cons by (simp add: deque_list_def)
  moreover have "\<exists>d'. recenter ?d = Some d' \<and> deque_inv d' \<and> deque_list d' = deque_list ?d"
    using inv lt cons by (intro recenter_ok) (auto simp: deque_inv_def)
  ultimately show ?thesis using lt add get by (auto simp: deque_popback_def)
qed

lemma deque_pop_empty:
  "deque_inv d \<Longrightarrow> deque_list d = [] \<Longrightarrow>
   deque_popfront (Some d) = Inr (None, Some d) \<and> deque_popback (Some d) = Inr (None, Some d)"
  by (simp add: deque_popfront_def deque_popback_def deque_empty_iff)

section \<open>Shrinking, peeking and iterating\<close>

lemma deque_resize_keeps_pos:
  assumes inv: "deque_inv d" and ok: "alloc_ok alloc" and n: "0 < n" "n < 2 * max_cells"
  shows "\<exists>b d'. deque_resize alloc d n = Inr (b, d') \<and> deque_inv d' \<and> deque_list d' = deque_list d"
proof (cases "n < d_front d - d_back d \<or> \<not> alloc (sz_mul n ptr_size)")
  case True
  from deque_resize_refused [where alloc = alloc, OF inv n(1) this] inv show ?thesis by blast
next
  case False
  then have "d_front d - d_back d \<le> n" "alloc (sz_mul n ptr_size)" by auto
  from deque_resize_ok [OF inv ok this(1) n this(2)] show ?thesis by blast
qed

lemma deque_resize_keeps:
  assumes inv: "deque_inv d" and ok: "alloc_ok alloc" and n: "n < 2 * max_cells"
  shows "\<exists>b d'. deque_resize alloc d n = Inr (b, d') \<and> deque_inv d' \<and> deque_list d' = deque_list d"
proof (cases "n = 0")
  case True
  have "deque_resize alloc d 0 = deque_resize alloc d 1" by (simp add: deque_resize_def)
  moreover have "1 < 2 * max_cells" by (simp add: max_cells_def)
  ultimately show ?thesis using deque_resize_keeps_pos [OF inv ok, of 1] True by simp
next
  case False
  with deque_resize_keeps_pos [OF inv ok _ n] show ?thesis by blast
qed

lemma deque_shrink_keeps:
  assumes inv: "deque_inv d" and ok: "alloc_ok alloc"
    and res: "deque_shrink alloc (Some d) fac = Inr (b, Some d')"
    and n: "\<And>n. to_size (d_mul fac (dbl (deque_count d))) = Inr n \<Longrightarrow> n < 2 * max_cells"
  shows "deque_inv d' \<and> deque_list d' = deque_list d"
proof (cases "fac < 1")
  case True
  with res inv show ?thesis by (simp add: deque_shrink_def)
next
  case False
  then obtain k where k: "to_size (d_mul fac (dbl (deque_count d))) = Inr k"
    using res by (cases "to_size (d_mul fac (dbl (deque_count d)))") (auto simp: deque_shrink_def)
  from deque_resize_keeps [OF inv ok n [OF k]] obtain b1 d1 where
    "deque_resize alloc d k = Inr (b1, d1)" "deque_inv d1" "deque_list d1 = deque_list d" by blast
  with False k res show ?thesis by (auto simp: deque_shrink_def)
qed

lemma deque_peek_ok:
  assumes inv: "deque_inv d" and ne: "deque_list d \<noteq> []"
  shows "deque_peekfront d = Inr (Some (last (deque_list d)))" "deque_peekback d = Inr (Some (hd (deque_list d)))"
proof -
  have lt: "d_back d < d_front d" using inv ne by (auto simp: deque_empty_iff deque_inv_def)
  from deque_popfront_ok [OF inv ne] show "deque_peekfront d = Inr (Some (last (deque_list d)))"
    using lt by (auto simp: deque_popfront_def deque_peekfront_def Let_def bind_res_eq_Inr)
  from deque_popback_ok [OF inv ne] show "deque_peekback d = Inr (Some (hd (deque_list d)))"
    using lt by (auto simp: deque_popback_def deque_peekback_def bind_res_eq_Inr)
qed

lemma deque_next_forwards:
  assumes inv: "deque_inv d" and it: "d_iter d = Val (d_back d + i)" and i: "i < length (deque_list d)"
  shows "deque_next (Some d) True =
     (if Suc i < length (deque_list d)
      then Inr (Some (deque_list d ! Suc i), Some (d\<lparr>d_iter := Val (d_back d + Suc i)\<rparr>))
      else Inr (None, Some d))"
proof -
  have len: "length (deque_list d) = d_front d - d_back d" by (rule length_deque_list [OF inv])
  have add: "sz_add (d_back d + i) 1 = d_back d + Suc i"
    using i len inv by (auto simp: deque_inv_def sz_add_def max_cells_def size_max_def)
  have end_iff: "d_front d \<le> d_back d + Suc i \<longleftrightarrow> \<not> Suc i < length (deque_list d)"
    using len by linarith
  show ?thesis
    using deque_list_nth [OF inv, of "Suc i"] len it add end_iff by (auto simp: deque_next_def)
qed

lemma deque_next_backwards:
  assumes inv: "deque_inv d" and it: "d_iter d = Val (d_back d + i)" and i: "i < length (deque_list d)"
  shows "deque_next (Some d) False =
     (if 0 < i then Inr (Some (deque_list d ! (i - 1)), Some (d\<lparr>d_iter := Val (d_back d + (i - 1))\<rparr>))
      else Inr (None, Some d))"
proof -
  have len: "length (deque_list d) = d_front d - d_back d" by (rule length_deque_list [OF inv])
  have "d_back d + i < size_max" using i len deque_inv_sizes(1) [OF inv] by linarith
  then have sub: "sz_sub (d_back d + i) 1 = d_back d + (i - 1)" if "0 < i"
    using that by (subst sz_sub_small) auto
  show ?thesis
    using deque_list_nth [OF inv, of "i - 1"] len it sub i by (auto simp: deque_next_def)
qed

lemma rev_take_Suc: "k < length xs \<Longrightarrow> rev (take (Suc k) xs) = xs ! k # rev (take k xs)"
  by (simp add: take_Suc_conv_app_nth)

text \<open>The results of \<open>n\<close> further calls of \<open>deque_next\<close> in one direction.\<close>

fun deque_walk :: "bool \<Rightarrow> nat \<Rightarrow> 'a deque option \<Rightarrow> 'a option list res" where
  "deque_walk forwards 0 h = Inr []"
| "deque_walk forwards (Suc n) h =
     bind_res (deque_next h forwards) (\<lambda>r.
     bind_res (deque_walk forwards n (snd r)) (\<lambda>xs. Inr (fst r # xs)))"

lemma deque_walk_forwards:
  "deque_inv d \<Longrightarrow> d_iter d = Val (d_back d + i) \<Longrightarrow> i < length (deque_list d) \<Longrightarrow>
   n = length (deque_list d) - i \<Longrightarrow>
   deque_walk True n (Some d) = Inr (map Some (drop (Suc i) (deque_list d)) @ [None])"
proof (induction n arbitrary: d i)
  case (Suc n)
  show ?case
  proof (cases "Suc i < length (deque_list d)")
    case True
    let ?d = "d\<lparr>d_iter := Val (d_back d + Suc i)\<rparr>"
    have same: "deque_inv ?d" "deque_list ?d = deque_list d"
      using Suc.prems by (simp_all add: deque_inv_def deque_list_def)
    have "deque_walk True n (Some ?d) = Inr (map Some (drop (Suc (Suc i)) (deque_list ?d)) @ [None])"
      by (rule Suc.IH) (use Suc.prems True same in simp_all)
    then have "deque_walk True n (Some ?d) = Inr (map Some (drop (Suc (Suc i)) (deque_list d)) @ [None])"
      by (simp only: same)
    then show ?thesis
      using True deque_next_forwards [OF Suc.prems(1-3)] by (simp flip: Cons_nth_drop_Suc)
  next
    case False
    then have "n = 0" using Suc.prems by simp
    with False show ?thesis using deque_next_forwards [OF Suc.prems(1-3)] by simp
  qed
qed simp

lemma deque_walk_backwards:
  "deque_inv d \<Longrightarrow> d_iter d = Val (d_back d + i) \<Longrightarrow> i < length (deque_list d) \<Longrightarrow>
   deque_walk False (Suc i) (Some d) = Inr (map Some (rev (take i (deque_list d))) @ [None])"
proof (induction i arbitrary: d)
  case 0
  then show ?case using deque_next_backwards [OF 0] by simp
next
  case (Suc i)
  let ?d = "d\<lparr>d_iter := Val (d_back d + i)\<rparr>"
  have "deque_inv ?d" "deque_list ?d = deque_list d" using Suc.prems by (simp_all add: deque_inv_def deque_list_def)
  then have "deque_walk False (Suc i) (Some ?d) = Inr (map Some (rev (take i (deque_list d))) @ [None])"
    using Suc.IH [of ?d] Suc.prems by auto
  moreover have "rev (take (Suc i) (deque_list d)) = deque_list d ! i # rev (take i (deque_list d))"
    using Suc.prems(3) by (simp add: take_Suc_conv_app_nth)
  moreover have "deque_next (Some d) False = Inr (Some (deque_list d ! i), Some ?d)"
    using deque_next_backwards [OF Suc.prems] by simp
  ultimately show ?case by (simp del: deque_walk.simps add: deque_walk.simps(2) [of _ "Suc i"])
qed

lemma deque_init_inv:
  assumes "alloc sizeof_deque" and "alloc_ok alloc" and n: "n < 2 * max_cells"
    and "alloc (sz_mul ptr_size (if n = 0 then 1 else n))"
  shows "\<exists>d. deque_init alloc n = Inr d \<and> deque_inv d \<and> deque_list d = [] \<and> d_nelem d = (if n = 0 then 1 else n)"
proof -
  let ?n = "if n = 0 then 1 else n"
  have "?n < 2 * max_cells" using n by (auto simp: max_cells_def)
  moreover have "alloc (sz_mul ?n ptr_size)" using assms(4) by (simp add: sz_mul_def mult.commute)
  ultimately have lt: "?n < max_cells" using assms(2) by (intro alloc_cells_bound)
  then have "block_cells ?n = ?n" by (simp add: sz_simps)
  then have "deque_init alloc n = Inr \<lparr>d_nelem = ?n, d_data = replicate ?n Undef, d_back = ?n div 2,
      d_front = ?n div 2, d_iter = Undef, d_pfcnt = 0, d_pbcnt = 0\<rparr>"
    using assms(1,4) by (simp add: deque_init_def Let_def)
  then show ?thesis using lt by (auto simp: deque_inv_def deque_list_def)
qed

section \<open>Properties\<close>

definition demo_deque :: "nat deque" where
  "demo_deque = \<lparr>d_nelem = 4, d_data = [Undef, Val 7, Val 8, Val 9], d_back = 1, d_front = 4,
     d_iter = Undef, d_pfcnt = 2, d_pbcnt = 1\<rparr>"

lemma demo_deque_inv: "deque_inv demo_deque"
  by (simp add: deque_inv_def demo_deque_def cells_def max_cells_def all_val_def)

text \<open>
  C4: for every allocator, \<open>deque_pushfront\<close> on a well-formed deque returns; it reports success and adds
  the element at the front end, or reports failure and leaves the content as it was, and it
  succeeds whenever there is a free cell or memory for twice the array.
\<close>

theorem deque_pushfront_correct:
  assumes "deque_inv d" and "alloc_ok alloc"
  shows "\<exists>b d'. deque_pushfront alloc (Some d) (Some x) = Inr (b, Some d') \<and> deque_inv d' \<and>
     deque_list d' = (if b then deque_list d @ [x] else deque_list d) \<and>
     (d_front d < d_nelem d \<or> alloc (2 * d_nelem d * ptr_size) \<longrightarrow> b)"
  using assms by (rule deque_pushfront_ok)

theorem deque_pushfront_correct_witness:
  "\<exists>b d'. deque_pushfront (mem_upto 64) (Some demo_deque) (Some 5) = Inr (b, Some d') \<and> b \<and>
     deque_list d' = [7, 8, 9, 5]"
  using deque_pushfront_correct [OF demo_deque_inv mem_upto_ok, of 64 5]
  by (auto simp: demo_deque_def mem_upto_def ptr_size_def deque_list_def cells_def vals_def)

text \<open>
  C5: the same for \<open>deque_pushback\<close>, whose loop may have to grow the array several times, because
  the floating-point placement can leave no cell behind the content: it ends for every
  allocator, and five doublings are enough.
\<close>

theorem deque_pushback_correct:
  assumes "deque_inv d" and "alloc_ok alloc"
  shows "\<exists>b d'. deque_pushback alloc (Some d) (Some x) = Inr (b, Some d') \<and> deque_inv d' \<and>
     deque_list d' = (if b then x # deque_list d else deque_list d) \<and>
     ((\<forall>n. n \<le> 32 * d_nelem d * ptr_size \<longrightarrow> alloc n) \<longrightarrow> b)"
  using assms by (rule deque_pushback_ok)

theorem deque_pushback_correct_witness:
  "\<exists>b d'. deque_pushback (mem_upto 1024) (Some demo_deque) (Some 5) = Inr (b, Some d') \<and> b \<and>
     deque_list d' = [5, 7, 8, 9]"
  using deque_pushback_correct [OF demo_deque_inv mem_upto_ok, of 1024 5]
  by (auto simp: demo_deque_def mem_upto_def ptr_size_def deque_list_def cells_def vals_def)

text \<open>
  C6: popping either end of a well-formed deque returns the element at that end and removes
  exactly it; on an empty deque both return NULL and change nothing.
\<close>

theorem deque_pop_correct:
  assumes "deque_inv d"
  shows "if deque_list d = []
    then deque_popfront (Some d) = Inr (None, Some d) \<and> deque_popback (Some d) = Inr (None, Some d)
    else (\<exists>d1. deque_popfront (Some d) = Inr (Some (last (deque_list d)), Some d1) \<and> deque_inv d1 \<and>
            deque_list d1 = butlast (deque_list d)) \<and>
         (\<exists>d2. deque_popback (Some d) = Inr (Some (hd (deque_list d)), Some d2) \<and> deque_inv d2 \<and>
            deque_list d2 = tl (deque_list d))"
  using deque_popfront_ok [OF assms] deque_popback_ok [OF assms] deque_pop_empty [OF assms] by auto

theorem deque_pop_correct_witness:
  "(\<exists>d1. deque_popfront (Some demo_deque) = Inr (Some 9, Some d1) \<and> deque_list d1 = [7, 8]) \<and>
   (\<exists>d2. deque_popback (Some demo_deque) = Inr (Some 7, Some d2) \<and> deque_list d2 = [8, 9])"
  using deque_pop_correct [OF demo_deque_inv]
  by (auto simp: demo_deque_def deque_list_def cells_def vals_def)

text \<open>
  \<open>deque_first\<close> followed by as many calls of \<open>deque_next\<close> as there are elements visits every
  element once, in order, and then yields NULL: back to front when started at the back and
  moving forwards, front to back when started at the front and moving backwards.
\<close>

theorem deque_iteration_complete:
  assumes inv: "deque_inv d" and ne: "deque_list d \<noteq> []"
  shows "bind_res (deque_first (Some d) True) (\<lambda>r.
           bind_res (deque_walk True (length (deque_list d)) (snd r)) (\<lambda>xs. Inr (fst r # xs)))
         = Inr (map Some (deque_list d) @ [None])
    \<and> bind_res (deque_first (Some d) False) (\<lambda>r.
           bind_res (deque_walk False (length (deque_list d)) (snd r)) (\<lambda>xs. Inr (fst r # xs)))
         = Inr (map Some (rev (deque_list d)) @ [None])"
proof
  let ?n = "length (deque_list d)"
  have lt: "d_back d < d_front d" and n: "?n = d_front d - d_back d"
    using inv ne length_deque_list [OF inv] by (auto simp: deque_empty_iff deque_inv_def)
  have it: "deque_inv (d\<lparr>d_iter := c\<rparr>)" "deque_list (d\<lparr>d_iter := c\<rparr>) = deque_list d" for c
    using inv by (simp_all add: deque_inv_def deque_list_def)
  have "deque_first (Some d) True = Inr (Some (deque_list d ! 0), Some (d\<lparr>d_iter := Val (d_back d + 0)\<rparr>))"
    using lt deque_list_nth [OF inv, of 0] by (simp add: deque_first_def)
  moreover have "deque_walk True ?n (Some (d\<lparr>d_iter := Val (d_back d + 0)\<rparr>))
      = Inr (map Some (drop (Suc 0) (deque_list d)) @ [None])"
    using deque_walk_forwards [OF it(1), where i = 0 and n = ?n] it(2) lt n by simp
  ultimately show "bind_res (deque_first (Some d) True) (\<lambda>r.
           bind_res (deque_walk True ?n (snd r)) (\<lambda>xs. Inr (fst r # xs)))
         = Inr (map Some (deque_list d) @ [None])"
    using ne by (simp add: drop_Suc hd_conv_nth [symmetric] flip: list.map(2))
  obtain k where k: "?n = Suc k" using ne by (cases "deque_list d") auto
  then have front: "sz_sub (d_front d) 1 = d_back d + k"
    using n lt deque_inv_sizes(1) [OF inv] by (simp add: sz_simps)
  have "deque_first (Some d) False = Inr (Some (deque_list d ! k), Some (d\<lparr>d_iter := Val (d_back d + k)\<rparr>))"
    using lt front k n deque_list_nth [OF inv, of k] by (simp add: deque_first_def)
  moreover have "deque_walk False ?n (Some (d\<lparr>d_iter := Val (d_back d + k)\<rparr>))
      = Inr (map Some (rev (take k (deque_list d))) @ [None])"
    unfolding k using deque_walk_backwards [OF it(1), where i = k] it(2) k by simp
  moreover have "rev (deque_list d) = deque_list d ! k # rev (take k (deque_list d))"
    using rev_take_Suc [of k "deque_list d"] k by simp
  ultimately show "bind_res (deque_first (Some d) False) (\<lambda>r.
           bind_res (deque_walk False ?n (snd r)) (\<lambda>xs. Inr (fst r # xs)))
         = Inr (map Some (rev (deque_list d)) @ [None])"
    by (simp del: rev_eq_Cons_iff)
qed

theorem deque_iteration_complete_witness:
  "bind_res (deque_first (Some demo_deque) False) (\<lambda>r.
     bind_res (deque_walk False 3 (snd r)) (\<lambda>xs. Inr (fst r # xs)))
   = Inr [Some 9, Some 8, Some 7, None]"
proof -
  have "deque_list demo_deque = [7, 8, 9]"
    by (simp add: demo_deque_def deque_list_def cells_def vals_def)
  then have len: "length (deque_list demo_deque) = 3" and
    rev: "map Some (rev (deque_list demo_deque)) @ [None] = [Some 9, Some 8, Some 7, None]" and
    ne: "deque_list demo_deque \<noteq> []" by simp_all
  show ?thesis
    using conjunct2 [OF deque_iteration_complete [OF demo_deque_inv ne]] unfolding len rev .
qed

end
