(* ===== verification/Stack.thy ===== *)
theory Stack imports Deque begin

text \<open>
  stack.c: a stack of pointers on top of the deque, whose front end is the top. The locale
  \<open>lifo\<close> is the contract its clients use, stated for any implementation that may refuse a push.
\<close>

section \<open>The code\<close>

record 'a stack =
  s_data :: "'a deque option"

definition sizeof_stack :: nat where
  "sizeof_stack = 8"

text \<open>The result of \<open>malloc\<close> is written through without being looked at.\<close>

definition stack_init :: "(nat \<Rightarrow> bool) \<Rightarrow> nat \<Rightarrow> 'a stack res" where
  "stack_init alloc initsize =
     bind_res (deque_init alloc initsize) (\<lambda>d.
     if \<not> alloc sizeof_stack then Inl Null_Deref else Inr \<lparr>s_data = Some d\<rparr>)"

definition stack_clear :: "'a stack \<Rightarrow> 'a stack" where
  "stack_clear s = s\<lparr>s_data := deque_clear (s_data s)\<rparr>"

definition stack_count :: "'a stack \<Rightarrow> nat res" where
  "stack_count s = (case s_data s of None \<Rightarrow> Inl Null_Deref | Some d \<Rightarrow> Inr (deque_count d))"

text \<open>Whether \<open>deque_pushfront\<close> succeeded is not passed on.\<close>

definition stack_push :: "(nat \<Rightarrow> bool) \<Rightarrow> 'a stack \<Rightarrow> 'a option \<Rightarrow> 'a stack res" where
  "stack_push alloc s data =
     bind_res (deque_pushfront alloc (s_data s) data) (\<lambda>r. Inr (s\<lparr>s_data := snd r\<rparr>))"

definition stack_pop :: "'a stack \<Rightarrow> ('a option \<times> 'a stack) res" where
  "stack_pop s = bind_res (deque_popfront (s_data s)) (\<lambda>r. Inr (fst r, s\<lparr>s_data := snd r\<rparr>))"

definition stack_peek :: "'a stack \<Rightarrow> 'a option res" where
  "stack_peek s = (case s_data s of None \<Rightarrow> Inl Null_Deref | Some d \<Rightarrow> deque_peekfront d)"

definition stack_first :: "'a stack \<Rightarrow> bool \<Rightarrow> ('a option \<times> 'a stack) res" where
  "stack_first s back =
     bind_res (deque_first (s_data s) back) (\<lambda>r. Inr (fst r, s\<lparr>s_data := snd r\<rparr>))"

definition stack_next :: "'a stack \<Rightarrow> bool \<Rightarrow> ('a option \<times> 'a stack) res" where
  "stack_next s forwards =
     bind_res (deque_next (s_data s) forwards) (\<lambda>r. Inr (fst r, s\<lparr>s_data := snd r\<rparr>))"

section \<open>The contract of a stack\<close>

text \<open>Pushing all elements of an array, and popping \<open>n\<close> times.\<close>

fun push_all :: "('s \<Rightarrow> 'a option \<Rightarrow> 's res) \<Rightarrow> 's \<Rightarrow> 'a list \<Rightarrow> 's res" where
  "push_all push s [] = Inr s"
| "push_all push s (x # xs) = bind_res (push s (Some x)) (\<lambda>s'. push_all push s' xs)"

fun pop_times :: "('s \<Rightarrow> ('a option \<times> 's) res) \<Rightarrow> nat \<Rightarrow> 's \<Rightarrow> ('a option list \<times> 's) res" where
  "pop_times pop 0 s = Inr ([], s)"
| "pop_times pop (Suc n) s =
     bind_res (pop s) (\<lambda>r. bind_res (pop_times pop n (snd r)) (\<lambda>q. Inr (fst r # fst q, snd q)))"

locale lifo =
  fixes inv :: "'s \<Rightarrow> bool" and elems :: "'s \<Rightarrow> 'a list"
    and push :: "'s \<Rightarrow> 'a option \<Rightarrow> 's res" and pop :: "'s \<Rightarrow> ('a option \<times> 's) res"
  assumes push_law: "inv s \<Longrightarrow>
      \<exists>s'. push s (Some x) = Inr s' \<and> inv s' \<and> (elems s' = x # elems s \<or> elems s' = elems s)"
    and pop_some: "inv s \<Longrightarrow> elems s = x # xs \<Longrightarrow> \<exists>s'. pop s = Inr (Some x, s') \<and> inv s' \<and> elems s' = xs"
    and pop_none: "inv s \<Longrightarrow> elems s = [] \<Longrightarrow> pop s = Inr (None, s)"
begin

lemma push_all_elems:
  assumes "inv s"
  shows "\<exists>s' ys. push_all push s xs = Inr s' \<and> inv s' \<and> elems s' = rev ys @ elems s \<and> length ys \<le> length xs \<and>
    (length ys = length xs \<longrightarrow> ys = xs)"
  using assms
proof (induction xs arbitrary: s)
  case (Cons x xs)
  from push_law [OF Cons.prems, of x] obtain s1 where
    s1: "push s (Some x) = Inr s1" "inv s1" "elems s1 = x # elems s \<or> elems s1 = elems s" by blast
  from Cons.IH [OF s1(2)] obtain s' ys where s': "push_all push s1 xs = Inr s'" "inv s'"
    "elems s' = rev ys @ elems s1" "length ys \<le> length xs" "length ys = length xs \<longrightarrow> ys = xs" by blast
  show ?case
  proof (cases "elems s1 = x # elems s")
    case True
    with s1 s' show ?thesis by (intro exI [of _ s'] exI [of _ "x # ys"]) simp
  next
    case False
    with s1 s' show ?thesis by (intro exI [of _ s'] exI [of _ ys]) auto
  qed
qed simp

lemma pop_times_elems:
  assumes "inv s" and "n \<le> length (elems s)"
  shows "\<exists>s'. pop_times pop n s = Inr (map Some (take n (elems s)), s') \<and> inv s' \<and> elems s' = drop n (elems s)"
  using assms
proof (induction n arbitrary: s)
  case (Suc n)
  then obtain x xs where xs: "elems s = x # xs" by (cases "elems s") auto
  from pop_some [OF Suc.prems(1) xs] obtain s1 where
    s1: "pop s = Inr (Some x, s1)" "inv s1" "elems s1 = xs" by blast
  from Suc.IH [OF s1(2)] Suc.prems(2) s1 xs show ?case by auto
qed simp

text \<open>If all of the elements were taken, they come back in the reverse order.\<close>

lemma push_then_pop:
  assumes s: "inv s" and all: "push_all push s xs = Inr s'" and len: "length (elems s') = length (elems s) + length xs"
  shows "\<exists>s''. pop_times pop (length xs) s' = Inr (map Some (rev xs), s'') \<and> inv s'' \<and> elems s'' = elems s"
proof -
  from push_all_elems [OF s, of xs] all obtain ys where ys: "inv s'" "elems s' = rev ys @ elems s"
    "length ys = length xs \<longrightarrow> ys = xs" by auto
  with len have "elems s' = rev xs @ elems s" by simp
  with pop_times_elems [OF ys(1), of "length xs"] show ?thesis by auto
qed

end

section \<open>The deque as a stack\<close>

definition stack_inv :: "'a stack \<Rightarrow> bool" where
  "stack_inv s \<longleftrightarrow> (case s_data s of None \<Rightarrow> False | Some d \<Rightarrow> deque_inv d)"

text \<open>Top first.\<close>

definition stack_elems :: "'a stack \<Rightarrow> 'a list" where
  "stack_elems s = (case s_data s of None \<Rightarrow> [] | Some d \<Rightarrow> rev (deque_list d))"

lemma stack_invE:
  assumes "stack_inv s"
  obtains d where "s_data s = Some d" "deque_inv d" "stack_elems s = rev (deque_list d)"
  using assms by (auto simp: stack_inv_def stack_elems_def split: option.splits)

lemma stack_intro:
  "deque_inv d \<Longrightarrow> stack_inv (s\<lparr>s_data := Some d\<rparr>) \<and> stack_elems (s\<lparr>s_data := Some d\<rparr>) = rev (deque_list d)"
  by (simp add: stack_inv_def stack_elems_def)

lemma stack_push_ok:
  assumes "stack_inv s" and "alloc_ok alloc"
  shows "\<exists>s'. stack_push alloc s (Some x) = Inr s' \<and> stack_inv s' \<and>
    (stack_elems s' = x # stack_elems s \<or> stack_elems s' = stack_elems s)"
proof (rule stack_invE [OF assms(1)])
  fix d assume d: "s_data s = Some d" "deque_inv d" "stack_elems s = rev (deque_list d)"
  from deque_pushfront_ok [OF d(2) assms(2), of x] obtain b d' where
    "deque_pushfront alloc (Some d) (Some x) = Inr (b, Some d')" "deque_inv d'"
    "deque_list d' = (if b then deque_list d @ [x] else deque_list d)" by blast
  with d stack_intro [of d' s] show ?thesis by (auto simp: stack_push_def)
qed

lemma stack_pop_ok:
  assumes "stack_inv s" and "stack_elems s = x # xs"
  shows "\<exists>s'. stack_pop s = Inr (Some x, s') \<and> stack_inv s' \<and> stack_elems s' = xs"
proof (rule stack_invE [OF assms(1)])
  fix d assume d: "s_data s = Some d" "deque_inv d" "stack_elems s = rev (deque_list d)"
  with assms(2) have list: "deque_list d = rev xs @ [x]" by (metis rev.simps(2) rev_rev_ident)
  with deque_popfront_ok [OF d(2)] obtain d' where
    "deque_popfront (Some d) = Inr (Some x, Some d')" "deque_inv d'" "deque_list d' = rev xs" by auto
  with d stack_intro [of d' s] show ?thesis by (auto simp: stack_pop_def)
qed

lemma stack_pop_none: "stack_inv s \<Longrightarrow> stack_elems s = [] \<Longrightarrow> stack_pop s = Inr (None, s)"
  by (erule stack_invE) (simp add: stack_pop_def deque_pop_empty)

lemma stack_count_ok: "stack_inv s \<Longrightarrow> stack_count s = Inr (length (stack_elems s))"
  by (erule stack_invE) (simp add: stack_count_def deque_inv_sizes length_deque_list)

lemma stack_peek_ok:
  "stack_inv s \<Longrightarrow> stack_peek s = Inr (case stack_elems s of [] \<Rightarrow> None | x # _ \<Rightarrow> Some x)"
proof (erule stack_invE)
  fix d assume d: "s_data s = Some d" "deque_inv d" "stack_elems s = rev (deque_list d)"
  show ?thesis
  proof (cases "deque_list d" rule: rev_cases)
    case Nil
    with d show ?thesis by (simp add: stack_peek_def deque_peekfront_def deque_empty_iff)
  next
    case (snoc ys y)
    with d show ?thesis by (simp add: stack_peek_def deque_peek_ok)
  qed
qed

lemma stack_clear_ok: "stack_inv s \<Longrightarrow> stack_inv (stack_clear s) \<and> stack_elems (stack_clear s) = []"
  by (erule stack_invE) (use deque_clear_inv in \<open>force simp: stack_clear_def stack_inv_def stack_elems_def\<close>)

lemma stack_init_ok:
  assumes "alloc sizeof_deque" "alloc sizeof_stack" "alloc_ok alloc" "n < 2 * max_cells"
    "alloc (sz_mul ptr_size (if n = 0 then 1 else n))"
  shows "\<exists>s :: 'a stack. stack_init alloc n = Inr s \<and> stack_inv s \<and> stack_elems s = []"
proof -
  obtain d :: "'a deque" where "deque_init alloc n = Inr d" "deque_inv d" "deque_list d = []"
    using deque_init_inv [of alloc n, OF assms(1,3,4,5)] by blast
  with assms(2) show ?thesis by (simp add: stack_init_def stack_inv_def stack_elems_def)
qed

lemma lifo_stack: "alloc_ok alloc \<Longrightarrow> lifo stack_inv stack_elems (stack_push alloc) stack_pop"
  by (rule lifo.intro) (simp_all add: stack_push_ok stack_pop_ok stack_pop_none)

interpretation deque_stack: lifo stack_inv stack_elems "stack_push (mem_upto 1000000)" stack_pop
  by (rule lifo_stack) (simp add: mem_upto_ok)

section \<open>Properties\<close>

text \<open>
  whatever the allocator does, pushing the elements of an array onto a well-formed stack
  returns; the count grows by as many elements as were taken, and if it grew by the length of the
  array, popping as often as was pushed yields the array in reverse and restores the old content.
\<close>

theorem stack_lifo:
  assumes "alloc_ok alloc" and "stack_inv s"
  shows "\<exists>s' k. push_all (stack_push alloc) s xs = Inr s' \<and> stack_inv s' \<and>
    stack_count s = Inr k \<and> (stack_count s' = Inr (k + length xs) \<longrightarrow>
      (\<exists>s''. pop_times stack_pop (length xs) s' = Inr (map Some (rev xs), s'') \<and> stack_inv s'' \<and>
         stack_elems s'' = stack_elems s))"
proof -
  note st = lifo_stack [OF assms(1)]
  obtain s' where s': "push_all (stack_push alloc) s xs = Inr s'" "stack_inv s'"
    using lifo.push_all_elems [OF st assms(2), of xs] by blast
  with lifo.push_then_pop [OF st assms(2) s'(1)] assms(2) show ?thesis
    by (auto simp: stack_count_ok)
qed

definition demo_stack :: "nat stack" where
  "demo_stack = \<lparr>s_data = Some \<lparr>d_nelem = 4, d_data = [Val 7, Undef, Undef, Undef], d_back = 0, d_front = 1,
     d_iter = Undef, d_pfcnt = 1, d_pbcnt = 0\<rparr>\<rparr>"

definition demo_stack3 :: "nat stack" where
  "demo_stack3 = \<lparr>s_data = Some \<lparr>d_nelem = 4, d_data = [Val 7, Val 8, Val 9, Undef], d_back = 0, d_front = 3,
     d_iter = Undef, d_pfcnt = 3, d_pbcnt = 0\<rparr>\<rparr>"

lemma demo_stack_push: "push_all (stack_push (mem_upto 8)) demo_stack [8, 9] = Inr demo_stack3"
  by (simp add: demo_stack_def demo_stack3_def stack_push_def deque_pushfront_def c_loop_Break grow_body_def full_front_def
      arr_set_def sz_add_def size_max_def)

theorem stack_lifo_witness:
  "\<exists>s' s''. push_all (stack_push (mem_upto 8)) demo_stack [8, 9] = Inr s' \<and>
     pop_times stack_pop 2 s' = Inr ([Some 9, Some 8], s'') \<and> stack_elems s'' = [7]"
proof -
  have inv: "stack_inv demo_stack" "stack_elems demo_stack = [7]"
    by (simp_all add: stack_inv_def stack_elems_def demo_stack_def deque_inv_def deque_list_def cells_def
        vals_def max_cells_def)
  have count: "stack_count demo_stack = Inr 1" "stack_count demo_stack3 = Inr (1 + length [8, 9 :: nat])"
    by (simp_all add: stack_count_def demo_stack_def demo_stack3_def deque_count_def sz_sub_def size_max_def)
  have small: "(8 :: nat) < 2 ^ 63" by simp
  obtain s' k where s': "push_all (stack_push (mem_upto 8)) demo_stack [8, 9] = Inr s'"
      "stack_count demo_stack = Inr k"
    and pops: "stack_count s' = Inr (k + length [8, 9 :: nat]) \<longrightarrow>
      (\<exists>s''. pop_times stack_pop (length [8, 9 :: nat]) s' = Inr (map Some (rev [8, 9]), s'') \<and>
        stack_inv s'' \<and> stack_elems s'' = stack_elems demo_stack)"
    using stack_lifo [OF mem_upto_ok [OF small] inv(1), of "[8, 9]"] by blast
  from s' have "s' = demo_stack3" "k = 1" by (simp_all only: demo_stack_push count sum.inject)
  with pops count(2) obtain s'' where
    "pop_times stack_pop (length [8, 9 :: nat]) demo_stack3 = Inr (map Some (rev [8, 9]), s'')"
    "stack_elems s'' = stack_elems demo_stack" by blast
  moreover have "length [8, 9 :: nat] = 2" "map Some (rev [8, 9 :: nat]) = [Some 9, Some 8]" by simp_all
  ultimately show ?thesis using demo_stack_push inv(2) by metis
qed

text \<open>
  \<open>stack_push\<close> drops the result of \<open>deque_pushfront\<close>: on a full stack that cannot grow the
  element is lost, and the caller, who gets no result, is not told.
\<close>

theorem stack_push_lost:
  assumes "s_data s = Some d" and "deque_inv d" and "d_front d = d_nelem d" and "\<not> alloc (2 * d_nelem d * ptr_size)"
  shows "stack_push alloc s (Some x) = Inr s"
proof -
  have size: "sz_mul (d_nelem d) 2 = 2 * d_nelem d" "sz_mul (2 * d_nelem d) ptr_size = 2 * d_nelem d * ptr_size"
    and pos: "0 < 2 * d_nelem d"
    using assms(2) by (auto simp: deque_inv_def sz_mul_def ptr_size_def max_cells_def size_max_def)
  have "deque_resize alloc d (2 * d_nelem d) = Inr (False, d)"
    using deque_resize_refused [where alloc = alloc, OF assms(2) pos] assms(4) size by simp
  then have "c_loop (grow_body alloc full_front) d = Inr (False, d)"
    by (intro c_loop_Break) (simp add: grow_body_def full_front_def assms(3) size)
  with assms(1) show ?thesis by (simp add: stack_push_def deque_pushfront_def)
qed

definition full_stack :: "nat stack" where
  "full_stack = \<lparr>s_data = Some \<lparr>d_nelem = 1, d_data = [Val 7], d_back = 0, d_front = 1,
     d_iter = Undef, d_pfcnt = 1, d_pbcnt = 0\<rparr>\<rparr>"

theorem stack_push_lost_witness: "stack_push (mem_upto 8) full_stack (Some 5) = Inr full_stack"
  by (rule stack_push_lost)
    (auto simp: full_stack_def deque_inv_def cells_def max_cells_def mem_upto_def ptr_size_def)

end
