(* ===== verification/StackRoom.thy ===== *)
theory StackRoom imports Stack begin

text \<open>
  How large the array of a stack grows. The deque places its content according to a floating-point bias,
  so that the end in use may have little room and the array is doubled although it is not nearly full.
  For a deque that is only used at its front the array is still at most linear in the greatest number of
  elements: a stack of at most \<open>K\<close> elements never asks for more than \<open>368 * K\<close> bytes, and if such requests
  are served no push is ever lost.
\<close>

section \<open>Placement\<close>

lemma deque_newback_limit:
  assumes "\<bar>b\<bar> \<le> d_nine" and "deque_newback b nb = Inr k" and "nb < max_cells"
  shows "100 * k \<le> 191 * nb"
proof -
  let ?t = "rnd (rnd (of_nat nb) + rnd (b * rnd (of_nat nb)))"
  have lo: "of_nat nb * (1 / 11) \<le> ?t" and hi: "?t \<le> of_nat nb * (191 / 100)"
    using newback_bounds [OF _ assms(1), of "of_nat nb"] by simp_all
  have "0 \<le> (of_nat nb :: rat) * (1 / 11)" by simp
  then have pos: "0 \<le> ?t" using lo by linarith
  have "(of_nat nb :: rat) < of_nat max_cells" using assms(3) by simp
  then have "?t < of_nat size_max" using hi by (simp add: max_cells_def size_max_def)
  then have "k = nat \<lfloor>?t\<rfloor>"
    using assms(2) pos by (simp add: deque_newback_def d_add_def d_mul_def dbl_def to_size_Inr)
  then have "(of_nat k :: rat) \<le> of_nat nb * (191 / 100)" using hi pos by (simp add: of_nat_floor) linarith
  then have "(of_nat (100 * k) :: rat) \<le> of_nat (191 * nb)" by simp
  then show ?thesis by (simp only: of_nat_le_iff)
qed

text \<open>The cells in front of the back end, which pushes at the front do not move.\<close>

definition roomy :: "'a deque \<Rightarrow> bool" where
  "roomy d \<longleftrightarrow> d_nelem d \<le> 23 * (d_nelem d - d_back d)"

lemma deque_resize_roomy:
  assumes inv: "deque_inv d" and n: "0 < n" "n < max_cells" and res: "deque_resize alloc d n = Inr (True, d')"
  shows "roomy d' \<and> d_nelem d' = n"
proof -
  let ?c = "deque_count d" and ?nb = "sz_sub n (deque_count d) div 2"
  have c: "?c \<le> n" using res n by (auto simp: deque_resize_def Let_def not_less split: if_splits)
  have nb: "?nb = (n - ?c) div 2" using c n(2) by (simp add: sz_simps max_cells_def size_max_def)
  obtain b where b: "deque_bias d = Inr b" "\<bar>b\<bar> \<le> d_nine" using deque_bias_ok inv by (auto simp: deque_inv_def)
  obtain k where k: "deque_newback b ?nb = Inr k" "d_back d' = k" "d_nelem d' = n"
    using res n b(1) c by (auto simp: deque_resize_def Let_def bind_res_eq_Inr split: if_splits)
  have "100 * k \<le> 191 * ((n - ?c) div 2)" using deque_newback_limit [OF b(2) k(1)] n(2) nb by simp
  then have "200 * k \<le> 191 * n" by linarith
  then show ?thesis using k by (simp add: roomy_def)
qed

lemma push_roomy:
  assumes inv: "deque_inv d" and ok: "alloc_ok alloc" and room: "roomy d"
    and mem: "d_front d < d_nelem d \<or> alloc (2 * d_nelem d * ptr_size)"
    and res: "deque_pushfront alloc (Some d) (Some x) = Inr (b, Some d')"
  shows "roomy d' \<and> d_nelem d' \<le> (if d_front d < d_nelem d then d_nelem d else 2 * d_nelem d)"
proof (cases "d_front d < d_nelem d")
  case True
  then have "c_loop (grow_body alloc full_front) d = Inr (True, d)"
    by (intro c_loop_Break) (simp add: grow_body_def full_front_def)
  with res have "d_nelem d' = d_nelem d" "d_back d' = d_back d"
    by (auto simp: deque_pushfront_def Let_def bind_res_eq_Inr)
  with True room show ?thesis by (simp add: roomy_def)
next
  case False
  note double = deque_double [OF inv ok]
  have a: "alloc (sz_mul (2 * d_nelem d) ptr_size)" using mem False double(2) by simp
  from deque_resize_ok [OF inv ok double(3-5) a] obtain d1 where
    d1: "deque_resize alloc d (2 * d_nelem d) = Inr (True, d1)" "d_front d - d_back d < 2 * d_nelem d \<longrightarrow> d_front d1 < 2 * d_nelem d"
    by blast
  have "2 * d_nelem d < max_cells" using alloc_cells_bound [OF ok double(5) a] .
  from deque_resize_roomy [OF inv double(4) this d1(1)] have r: "roomy d1" "d_nelem d1 = 2 * d_nelem d" by blast+
  have "d_front d - d_back d < 2 * d_nelem d" using inv by (auto simp: deque_inv_def)
  with d1(2) r(2) have "c_loop (grow_body alloc full_front) d1 = Inr (True, d1)"
    by (intro c_loop_Break) (simp add: grow_body_def full_front_def)
  moreover have "grow_body alloc full_front d = Inr (Continue d1)"
    using False d1(1) double(1) by (simp add: grow_body_def full_front_def)
  ultimately have "c_loop (grow_body alloc full_front) d = Inr (True, d1)" by (simp add: c_loop_Continue)
  with res have "d_nelem d' = d_nelem d1" "d_back d' = d_back d1"
    by (auto simp: deque_pushfront_def Let_def bind_res_eq_Inr)
  with r False show ?thesis by (simp add: roomy_def)
qed

lemma pop_roomy:
  assumes "roomy d" and "deque_popfront (Some d) = Inr (x, Some d')"
  shows "roomy d' \<and> d_nelem d' = d_nelem d"
proof (cases "d_back d = d_front d")
  case False
  then obtain f where "recenter (d\<lparr>d_front := f\<rparr>) = Some d'"
    using assms(2) by (auto simp: deque_popfront_def Let_def bind_res_eq_Inr)
  with assms(1) show ?thesis by (auto simp: recenter_def deque_clear_def roomy_def split: if_splits)
qed (use assms in \<open>simp add: deque_popfront_def\<close>)

section \<open>Stacks of bounded size\<close>

definition stack_bounded :: "nat \<Rightarrow> 'a stack \<Rightarrow> bool" where
  "stack_bounded K s \<longleftrightarrow> (\<exists>d. s_data s = Some d \<and> deque_inv d \<and> roomy d \<and> d_nelem d \<le> 46 * K + 16)"

definition mem_for :: "(nat \<Rightarrow> bool) \<Rightarrow> nat \<Rightarrow> bool" where
  "mem_for alloc K \<longleftrightarrow> alloc_ok alloc \<and> (\<forall>n. n \<le> 368 * K + 128 \<longrightarrow> alloc n)"

text \<open>Scripts of pushes and pops, on a stack and on a list, and whether the list stays within a size.\<close>

datatype 'a stack_op = Push 'a | Pop

fun stack_run ::
  "('s \<Rightarrow> 'a option \<Rightarrow> 's res) \<Rightarrow> ('s \<Rightarrow> ('a option \<times> 's) res) \<Rightarrow> 's \<Rightarrow> 'a stack_op list \<Rightarrow> ('a option list \<times> 's) res" where
  "stack_run push pop s [] = Inr ([], s)"
| "stack_run push pop s (Push x # ops) = bind_res (push s (Some x)) (\<lambda>s1. stack_run push pop s1 ops)"
| "stack_run push pop s (Pop # ops) =
     bind_res (pop s) (\<lambda>r. bind_res (stack_run push pop (snd r) ops) (\<lambda>q. Inr (fst r # fst q, snd q)))"

fun list_run :: "'a list \<Rightarrow> 'a stack_op list \<Rightarrow> 'a option list \<times> 'a list" where
  "list_run xs [] = ([], xs)"
| "list_run xs (Push x # ops) = list_run (x # xs) ops"
| "list_run xs (Pop # ops) = (let q = list_run (tl xs) ops in ((case xs of [] \<Rightarrow> None | x # _ \<Rightarrow> Some x) # fst q, snd q))"

fun stays_within :: "nat \<Rightarrow> 'a list \<Rightarrow> 'a stack_op list \<Rightarrow> bool" where
  "stays_within K xs [] \<longleftrightarrow> True"
| "stays_within K xs (Push x # ops) \<longleftrightarrow> length xs < K \<and> stays_within K (x # xs) ops"
| "stays_within K xs (Pop # ops) \<longleftrightarrow> stays_within K (tl xs) ops"

text \<open>The contract of a stack that loses nothing as long as it holds at most \<open>K\<close> elements.\<close>

locale bounded_lifo =
  fixes inv :: "'s \<Rightarrow> bool" and elems :: "'s \<Rightarrow> 'a list"
    and push :: "'s \<Rightarrow> 'a option \<Rightarrow> 's res" and pop :: "'s \<Rightarrow> ('a option \<times> 's) res" and K :: nat
  assumes push_law: "inv s \<Longrightarrow> length (elems s) < K \<Longrightarrow> \<exists>s'. push s (Some x) = Inr s' \<and> inv s' \<and> elems s' = x # elems s"
    and pop_law: "inv s \<Longrightarrow> \<exists>s'. pop s = Inr (case elems s of [] \<Rightarrow> None | x # _ \<Rightarrow> Some x, s') \<and> inv s' \<and> elems s' = tl (elems s)"
begin

lemma run_refines:
  "inv s \<Longrightarrow> stays_within K (elems s) ops \<Longrightarrow>
   \<exists>s'. stack_run push pop s ops = Inr (fst (list_run (elems s) ops), s') \<and> inv s' \<and> elems s' = snd (list_run (elems s) ops)"
proof (induction ops arbitrary: s)
  case (Cons op ops)
  show ?case
  proof (cases op)
    case (Push x)
    then obtain s1 where "push s (Some x) = Inr s1" "inv s1" "elems s1 = x # elems s"
      using push_law [OF Cons.prems(1), of x] Cons.prems(2) by auto
    with Cons.IH [of s1] Cons.prems(2) Push show ?thesis by auto
  next
    case Pop
    obtain s1 where "pop s = Inr (case elems s of [] \<Rightarrow> None | x # _ \<Rightarrow> Some x, s1)" "inv s1" "elems s1 = tl (elems s)"
      using pop_law [OF Cons.prems(1)] by auto
    with Cons.IH [of s1] Cons.prems(2) Pop show ?thesis by (auto simp: Let_def)
  qed
qed simp

end

lemma stack_bounded_inv: "stack_bounded K s \<Longrightarrow> stack_inv s"
  by (auto simp: stack_bounded_def stack_inv_def)

lemma push_bounded:
  assumes s: "stack_bounded K s" and len: "length (stack_elems s) < K" and mem: "mem_for alloc K"
  shows "\<exists>s'. stack_push alloc s (Some x) = Inr s' \<and> stack_bounded K s' \<and> stack_elems s' = x # stack_elems s"
proof -
  obtain d where d: "s_data s = Some d" "deque_inv d" "roomy d" "d_nelem d \<le> 46 * K + 16" using s by (auto simp: stack_bounded_def)
  have ok: "alloc_ok alloc" using mem by (simp add: mem_for_def)
  have el: "stack_elems s = rev (deque_list d)" "length (deque_list d) = d_front d - d_back d"
    using d(1) length_deque_list [OF d(2)] by (simp_all add: stack_elems_def)
  have small: "d_nelem d \<le> 23 * K" if "\<not> d_front d < d_nelem d"
  proof -
    have "d_nelem d - d_back d < K" using that len el d(2) by (simp add: deque_inv_def)
    then show ?thesis using d(3) by (simp add: roomy_def)
  qed
  have room: "d_front d < d_nelem d \<or> alloc (2 * d_nelem d * ptr_size)"
  proof (cases "d_front d < d_nelem d")
    case False
    from small [OF this] have "2 * d_nelem d * ptr_size \<le> 368 * K + 128" by (simp add: ptr_size_def)
    with mem show ?thesis by (simp add: mem_for_def)
  qed simp
  obtain d' where d': "deque_pushfront alloc (Some d) (Some x) = Inr (True, Some d')" "deque_inv d'" "deque_list d' = deque_list d @ [x]"
    using deque_pushfront_ok [OF d(2) ok, of x] room by auto
  from push_roomy [OF d(2) ok d(3) room d'(1)] have "roomy d'" "d_nelem d' \<le> 46 * K + 16"
    using small d(4) by (auto split: if_splits)
  with d' d(1) el show ?thesis by (auto simp: stack_push_def stack_bounded_def stack_elems_def)
qed

lemma pop_bounded:
  assumes s: "stack_bounded K s"
  shows "\<exists>s'. stack_pop s = Inr (case stack_elems s of [] \<Rightarrow> None | x # _ \<Rightarrow> Some x, s') \<and> stack_bounded K s' \<and> stack_elems s' = tl (stack_elems s)"
proof (cases "stack_elems s")
  case Nil
  with stack_pop_none [OF stack_bounded_inv [OF s]] s show ?thesis by auto
next
  case (Cons x xs)
  obtain d where d: "s_data s = Some d" "deque_inv d" "roomy d" "d_nelem d \<le> 46 * K + 16" using s by (auto simp: stack_bounded_def)
  have list: "deque_list d = rev xs @ [x]" using Cons d(1) by (simp add: stack_elems_def rev_swap)
  then obtain d' where d': "deque_popfront (Some d) = Inr (Some x, Some d')" "deque_inv d'" "deque_list d' = rev xs"
    using deque_popfront_ok [OF d(2)] by auto
  with pop_roomy [OF d(3) d'(1)] d(1,4) Cons show ?thesis
    by (auto simp: stack_pop_def stack_bounded_def stack_elems_def)
qed

lemma bounded_stack: "mem_for alloc K \<Longrightarrow> bounded_lifo (stack_bounded K) stack_elems (stack_push alloc) stack_pop K"
  by (rule bounded_lifo.intro) (simp_all add: push_bounded pop_bounded)

lemma init_bounded:
  assumes mem: "mem_for alloc K" and n: "0 < n" "n \<le> 16"
  shows "\<exists>s :: 'a stack. stack_init alloc n = Inr s \<and> stack_bounded K s \<and> stack_elems s = []"
proof -
  have ok: "alloc_ok alloc" and a: "alloc sizeof_deque" "alloc sizeof_stack" "alloc (sz_mul ptr_size n)"
    using mem n by (auto simp: mem_for_def sizeof_deque_def sizeof_stack_def sz_mul_def ptr_size_def size_max_def)
  have nn: "n < 2 * max_cells" using n(2) by (simp add: max_cells_def)
  have "(if n = 0 then 1 else n) = n" using n(1) by simp
  then obtain d :: "'a deque" where d: "deque_init alloc n = Inr d" "deque_inv d" "deque_list d = []" "d_nelem d = n"
    using deque_init_inv [where alloc = alloc and n = n, OF a(1) ok nn] a(3) by auto
  moreover have "roomy d" using d(1) n by (auto simp: deque_init_def Let_def roomy_def split: if_splits)
  ultimately show ?thesis using a(2) n by (auto simp: stack_init_def stack_bounded_def stack_elems_def)
qed

interpretation stack_million: bounded_lifo "stack_bounded 1000000" stack_elems "stack_push (mem_upto 1000000000)" stack_pop 1000000
  by (rule bounded_stack) (simp add: mem_for_def mem_upto_ok, simp add: mem_upto_def)

section \<open>Properties\<close>

text \<open>
  C8: with memory for requests of \<open>368 * K + 128\<close> bytes, a new stack behaves as a list under every script of
  pushes and pops that never has more than \<open>K\<close> elements, of any length: no push is lost, and the array does
  not grow further, however the floating-point placement moves the content.
\<close>

theorem stack_refines_list:
  fixes ops :: "'a stack_op list"
  assumes "mem_for alloc K" and "0 < n" and "n \<le> 16" and "stays_within K [] ops"
  shows "\<exists>(s :: 'a stack) s'. stack_init alloc n = Inr s \<and>
    stack_run (stack_push alloc) stack_pop s ops = Inr (fst (list_run [] ops), s') \<and>
    stack_count s' = Inr (length (snd (list_run [] ops)))"
proof -
  obtain s :: "'a stack" where s: "stack_init alloc n = Inr s" "stack_bounded K s" "stack_elems s = []"
    using init_bounded [OF assms(1-3)] by blast
  have "stays_within K (stack_elems s) ops" using assms(4) s(3) by simp
  from bounded_lifo.run_refines [OF bounded_stack [OF assms(1)] s(2) this]
  obtain s' where "stack_run (stack_push alloc) stack_pop s ops = Inr (fst (list_run [] ops), s')"
    "stack_bounded K s'" "stack_elems s' = snd (list_run [] ops)" unfolding s(3) by blast
  with s(1) stack_count_ok [OF stack_bounded_inv] show ?thesis by fastforce
qed

theorem stack_refines_list_witness:
  "\<exists>s s'. stack_init (mem_upto 900) 1 = Inr s \<and>
     stack_run (stack_push (mem_upto 900)) stack_pop s [Push 1, Push (2 :: nat), Pop, Push 3, Pop, Pop, Pop] =
       Inr ([Some 2, Some 3, Some 1, None], s') \<and> stack_count s' = Inr 0"
proof -
  have "mem_for (mem_upto 900) 2" by (simp add: mem_for_def mem_upto_ok) (simp add: mem_upto_def)
  from stack_refines_list [OF this, of 1 "[Push 1, Push (2 :: nat), Pop, Push 3, Pop, Pop, Pop]"] show ?thesis by simp
qed

end
