(* ===== verification/RingBuf.thy ===== *)
theory RingBuf imports SrsPrelude "HOL-Library.Word" begin

text \<open>
  ringbuf.c: a byte queue in a circular buffer that doubles when it is full. The pointers \<open>head\<close>
  and \<open>tail\<close> into the buffer are offsets from its start; both may be one past its end. The locale
  \<open>byte_fifo\<close> is the contract the buffered reader uses.
\<close>

type_synonym byte = "8 word"

section \<open>The code\<close>

record ringbuf =
  r_buf :: "byte cell list"
  r_head :: nat
  r_tail :: nat
  r_num :: nat
  r_bufsz :: nat

definition sizeof_ringbuf :: nat where
  "sizeof_ringbuf = 40"

definition ringbuf_init :: "(nat \<Rightarrow> bool) \<Rightarrow> nat \<Rightarrow> ringbuf option" where
  "ringbuf_init alloc initsize =
     (if \<not> alloc sizeof_ringbuf then None
      else Some \<lparr>r_buf = (if alloc initsize then replicate initsize Undef else []),
                 r_head = 0, r_tail = 0, r_num = 0, r_bufsz = initsize\<rparr>)"

definition ringbuf_empty :: "ringbuf \<Rightarrow> bool" where
  "ringbuf_empty b \<longleftrightarrow> r_num b = 0"

definition ringbuf_clear :: "ringbuf \<Rightarrow> ringbuf" where
  "ringbuf_clear b = b\<lparr>r_head := 0, r_tail := 0, r_num := 0\<rparr>"

definition ringbuf_count :: "ringbuf \<Rightarrow> nat" where
  "ringbuf_count b = r_num b"

definition ring_wrapped :: "ringbuf \<Rightarrow> bool" where
  "ring_wrapped b \<longleftrightarrow> 0 < r_num b \<and> r_head b \<le> r_tail b"

text \<open>\<open>do_get\<close> yields the number of bytes, the caller's array and the buffer afterwards.\<close>

definition do_get :: "ringbuf \<Rightarrow> byte cell list \<Rightarrow> nat \<Rightarrow> bool \<Rightarrow> (nat \<times> byte cell list \<times> ringbuf) res" where
  "do_get b data num0 peek =
     (if r_num b = 0 then Inr (0, data, b)
      else
        let num = (if r_num b < num0 then r_num b else num0);
            avail1 = (if \<not> ring_wrapped b then r_head b - r_tail b else sz_sub (r_bufsz b) (r_tail b)) in
        bind_res
          (if num \<le> avail1 then
             bind_res (arr_copy data 0 (r_buf b) (r_tail b) num) (\<lambda>data1.
             Inr (data1, if peek then b else b\<lparr>r_tail := r_tail b + num\<rparr>))
           else
             bind_res (arr_copy data 0 (r_buf b) (r_tail b) avail1) (\<lambda>data1.
             bind_res (arr_copy data1 avail1 (r_buf b) 0 (num - avail1)) (\<lambda>data2.
             Inr (data2, if peek then b else b\<lparr>r_tail := num - avail1\<rparr>)))) (\<lambda>r.
        let b1 = snd r in
        Inr (num, fst r, if peek then b1 else b1\<lparr>r_num := sz_sub (r_num b1) num\<rparr>)))"

definition ringbuf_get :: "ringbuf \<Rightarrow> byte cell list \<Rightarrow> nat \<Rightarrow> (nat \<times> byte cell list \<times> ringbuf) res" where
  "ringbuf_get b data num = do_get b data num False"

definition ringbuf_peek :: "ringbuf \<Rightarrow> byte cell list \<Rightarrow> nat \<Rightarrow> (nat \<times> byte cell list \<times> ringbuf) res" where
  "ringbuf_peek b data num = do_get b data num True"

definition double_body :: "nat \<Rightarrow> nat \<Rightarrow> nat \<Rightarrow> (nat, nat) step res" where
  "double_body used num nbufsz =
     (if sz_sub nbufsz used < num then Inr (Continue (sz_mul nbufsz 2)) else Inr (Break nbufsz))"

text \<open>Moving the content to the start of a larger buffer; \<open>malloc\<close> is not checked.\<close>

definition ring_grow :: "(nat \<Rightarrow> bool) \<Rightarrow> ringbuf \<Rightarrow> nat \<Rightarrow> ringbuf res" where
  "ring_grow alloc b num =
     bind_res (c_loop (double_body (r_num b) num) (r_bufsz b)) (\<lambda>nbufsz.
     let nbuf = (if alloc nbufsz then replicate nbufsz Undef else []);
         avail = sz_sub (r_bufsz b) (r_num b) in
     bind_res
       (if \<not> ring_wrapped b then arr_copy nbuf 0 (r_buf b) (r_tail b) (sz_sub (r_head b) (r_tail b))
        else
          let firstlen = sz_sub (r_bufsz b) (r_tail b) in
          bind_res (arr_copy nbuf 0 (r_buf b) (r_tail b) firstlen) (\<lambda>nbuf1.
          arr_copy nbuf1 firstlen (r_buf b) 0 (r_head b))) (\<lambda>nbuf2.
     Inr (b\<lparr>r_head := sz_sub (r_bufsz b) avail, r_tail := 0, r_buf := nbuf2, r_bufsz := nbufsz\<rparr>)))"

text \<open>Writing the bytes, once there is room for them; and the whole operation.\<close>

definition ring_store :: "bool \<Rightarrow> ringbuf \<Rightarrow> byte cell list \<Rightarrow> nat \<Rightarrow> ringbuf res" where
  "ring_store wrapped b data num =
     (let avail1 = (if wrapped then r_tail b - r_head b else sz_sub (r_bufsz b) (r_head b)) in
      bind_res
        (if num \<le> avail1 then
           bind_res (arr_copy (r_buf b) (r_head b) data 0 num) (\<lambda>buf.
           Inr (b\<lparr>r_buf := buf, r_head := r_head b + num\<rparr>))
         else
           bind_res (arr_copy (r_buf b) (r_head b) data 0 avail1) (\<lambda>buf.
           bind_res (arr_copy buf 0 data avail1 (num - avail1)) (\<lambda>buf2.
           Inr (b\<lparr>r_buf := buf2, r_head := num - avail1\<rparr>)))) (\<lambda>b2.
      Inr (b2\<lparr>r_num := sz_add (r_num b2) num\<rparr>)))"

definition ringbuf_put :: "(nat \<Rightarrow> bool) \<Rightarrow> ringbuf \<Rightarrow> byte cell list \<Rightarrow> nat \<Rightarrow> ringbuf res" where
  "ringbuf_put alloc b data num =
     (let wrapped = ring_wrapped b; avail = sz_sub (r_bufsz b) (r_num b) in
      if avail < num then bind_res (ring_grow alloc b num) (\<lambda>b1. ring_store False b1 data num)
      else ring_store wrapped b data num)"

section \<open>The stored bytes\<close>

text \<open>The cells in use, oldest first.\<close>

definition ring_cells :: "ringbuf \<Rightarrow> byte cell list" where
  "ring_cells b =
     (if ring_wrapped b then cells (r_tail b) (r_bufsz b) (r_buf b) @ cells 0 (r_head b) (r_buf b)
      else cells (r_tail b) (r_head b) (r_buf b))"

definition ring_bytes :: "ringbuf \<Rightarrow> byte list" where
  "ring_bytes b = vals (ring_cells b)"

definition ring_inv :: "ringbuf \<Rightarrow> bool" where
  "ring_inv b \<longleftrightarrow>
     length (r_buf b) = r_bufsz b \<and> 0 < r_bufsz b \<and> r_bufsz b < 2 ^ 63 \<and>
     r_head b \<le> r_bufsz b \<and> r_tail b \<le> r_bufsz b \<and> r_num b \<le> r_bufsz b \<and>
     (if r_num b = 0 then r_head b = r_tail b
      else if r_tail b < r_head b then r_num b = r_head b - r_tail b
      else 0 < r_head b \<and> r_num b = r_bufsz b - r_tail b + r_head b) \<and>
     all_val (ring_cells b)"

lemma ring_cells_length: "ring_inv b \<Longrightarrow> length (ring_cells b) = r_num b"
  by (auto simp: ring_inv_def ring_cells_def ring_wrapped_def split: if_splits)

lemma ring_bytes_length: "ring_inv b \<Longrightarrow> length (ring_bytes b) = r_num b"
  by (simp add: ring_bytes_def ring_cells_length)

lemma ring_cells_Val: "ring_inv b \<Longrightarrow> ring_cells b = map Val (ring_bytes b)"
  by (simp add: ring_inv_def ring_bytes_def flip: all_val_iff)

lemma cells_take: "i + n \<le> j \<Longrightarrow> take n (cells i j a) = cells i (i + n) a"
  by (simp add: cells_def min_def)

lemma cells_drop: "i + n \<le> j \<Longrightarrow> drop n (cells i j a) = cells (i + n) j a"
  by (simp add: cells_def drop_take add.commute)

lemma all_val_take_drop [intro]: "all_val a \<Longrightarrow> all_val (take n a)" "all_val a \<Longrightarrow> all_val (drop n a)"
  by (auto simp: all_val_def dest: in_set_takeD in_set_dropD)

lemma vals_take_drop: "vals (take n a) = take n (vals a)" "vals (drop n a) = drop n (vals a)"
  by (simp_all add: vals_def take_map drop_map)

section \<open>Taking bytes out\<close>

lemma arr_copy_front:
  "m \<le> length data \<Longrightarrow> i + m \<le> length buf \<Longrightarrow> arr_copy data 0 buf i m = Inr (cells i (i + m) buf @ drop m data)"
  by (simp add: arr_copy_in cells_def)

lemma arr_copy_next:
  "length xs = m \<Longrightarrow> m + p \<le> length data \<Longrightarrow> p \<le> length buf \<Longrightarrow>
   arr_copy (xs @ drop m data) m buf 0 p = Inr (xs @ cells 0 p buf @ drop (m + p) data)"
  by (simp add: arr_copy_in cells_def add.commute)

text \<open>The two ways the bytes taken and the bytes left are laid out.\<close>

lemma ring_inv_sizes:
  assumes "ring_inv b"
  shows "r_bufsz b < size_max" "r_num b < size_max" "r_tail b < size_max" "r_head b < size_max"
  using assms by (auto simp: ring_inv_def size_max_def)

lemma do_get_straight:
  assumes inv: "ring_inv b" and lt: "r_tail b < r_head b" and num: "r_num b \<noteq> 0"
    and k: "k = min n (r_num b)" "k \<le> length data"
  shows "\<exists>b'. do_get b data n peek = Inr (k, take k (ring_cells b) @ drop k data, b') \<and> ring_inv b' \<and>
     (if peek then b' = b else ring_cells b' = drop k (ring_cells b))"
proof -
  have nw: "\<not> ring_wrapped b" using lt by (simp add: ring_wrapped_def)
  have n: "r_num b = r_head b - r_tail b" using inv lt num by (simp add: ring_inv_def)
  have c: "ring_cells b = cells (r_tail b) (r_head b) (r_buf b)" using nw by (simp add: ring_cells_def)
  have cp: "arr_copy data 0 (r_buf b) (r_tail b) k = Inr (take k (ring_cells b) @ drop k data)"
    unfolding c using inv n k lt by (subst arr_copy_front) (auto simp: cells_take ring_inv_def)
  have kk: "(if r_num b < n then r_num b else n) = k" using k(1) by auto
  have sub: "sz_sub (r_num b) k = r_num b - k" using k(1) ring_inv_sizes [OF inv] by (simp add: sz_simps)
  let ?b = "b\<lparr>r_tail := r_tail b + k, r_num := r_num b - k\<rparr>"
  have nw': "\<not> ring_wrapped ?b" using n k(1) lt by (auto simp: ring_wrapped_def)
  have c': "ring_cells ?b = drop k (ring_cells b)"
    unfolding c using nw' n k(1) lt by (simp add: ring_cells_def cells_drop)
  moreover have "ring_inv ?b"
    using inv n k(1) lt c' num by (auto simp: ring_inv_def)
  moreover have "do_get b data n peek = Inr (k, take k (ring_cells b) @ drop k data, if peek then b else ?b)"
    unfolding do_get_def kk using cp nw num n k(1) sub by (simp add: Let_def)
  ultimately show ?thesis using inv by (intro exI [of _ "if peek then b else ?b"]) simp
qed

lemma do_get_wrapped:
  assumes inv: "ring_inv b" and le: "r_head b \<le> r_tail b" and num: "r_num b \<noteq> 0"
    and k: "k = min n (r_num b)" "k \<le> length data"
  shows "\<exists>b'. do_get b data n peek = Inr (k, take k (ring_cells b) @ drop k data, b') \<and> ring_inv b' \<and>
     (if peek then b' = b else ring_cells b' = drop k (ring_cells b))"
proof -
  have w: "ring_wrapped b" using le num by (simp add: ring_wrapped_def)
  have n: "r_num b = r_bufsz b - r_tail b + r_head b" "0 < r_head b" "r_tail b \<le> r_bufsz b" "length (r_buf b) = r_bufsz b"
    using inv le num by (auto simp: ring_inv_def)
  have c: "ring_cells b = cells (r_tail b) (r_bufsz b) (r_buf b) @ cells 0 (r_head b) (r_buf b)"
    using w by (simp add: ring_cells_def)
  have kk: "(if r_num b < n then r_num b else n) = k" using k(1) by auto
  have sub: "sz_sub (r_num b) k = r_num b - k" "sz_sub (r_bufsz b) (r_tail b) = r_bufsz b - r_tail b"
    using k(1) n ring_inv_sizes [OF inv] by (simp_all add: sz_simps)
  let ?a = "r_bufsz b - r_tail b"
  show ?thesis
  proof (cases "k \<le> ?a")
    case True
    have cp: "arr_copy data 0 (r_buf b) (r_tail b) k = Inr (take k (ring_cells b) @ drop k data)"
      unfolding c using n k True by (subst arr_copy_front) (auto simp: cells_take)
    let ?b = "b\<lparr>r_tail := r_tail b + k, r_num := r_num b - k\<rparr>"
    have w': "ring_wrapped ?b" using n k(1) True le by (auto simp: ring_wrapped_def)
    have c': "ring_cells ?b = drop k (ring_cells b)"
      unfolding c using w' n True by (simp add: ring_cells_def cells_drop)
    moreover have "ring_inv ?b" using inv n k(1) True le c' num by (auto simp: ring_inv_def)
    moreover have "do_get b data n peek = Inr (k, take k (ring_cells b) @ drop k data, if peek then b else ?b)"
      unfolding do_get_def kk using cp w num True sub by (simp add: Let_def)
    ultimately show ?thesis using inv by (intro exI [of _ "if peek then b else ?b"]) simp
  next
    case False
    let ?p = "k - ?a"
    have p: "?p \<le> r_head b" "?a + ?p = k" "?p \<le> r_bufsz b" using n False k(1) le by auto
    have len: "length (cells (r_tail b) (r_bufsz b) (r_buf b)) = ?a" using n by simp
    have t: "take k (ring_cells b) = cells (r_tail b) (r_bufsz b) (r_buf b) @ cells 0 ?p (r_buf b)"
      using len p False by (simp add: c cells_take)
    have cp: "arr_copy data 0 (r_buf b) (r_tail b) ?a = Inr (cells (r_tail b) (r_bufsz b) (r_buf b) @ drop ?a data)"
      using n k False by (subst arr_copy_front) auto
    have cp2: "arr_copy (cells (r_tail b) (r_bufsz b) (r_buf b) @ drop ?a data) ?a (r_buf b) 0 ?p
        = Inr (take k (ring_cells b) @ drop k data)"
    proof -
      have "?a + ?p \<le> length data" unfolding p(2) by (rule k(2))
      moreover have "?p \<le> length (r_buf b)" using p(3) n(4) by simp
      ultimately show ?thesis using arr_copy_next [OF len] by (simp only: t p(2) append_assoc)
    qed
    let ?b = "b\<lparr>r_tail := ?p, r_num := r_num b - k\<rparr>"
    have w': "\<not> ring_wrapped ?b" using n k(1) False by (auto simp: ring_wrapped_def)
    have c': "ring_cells ?b = drop k (ring_cells b)"
      unfolding c using w' len p False by (simp add: ring_cells_def cells_drop)
    moreover have "ring_inv ?b"
    proof -
      have kr: "k \<le> r_num b" using k(1) by simp
      have kn: "k \<le> r_num b" "?p \<noteq> 0" "r_num b - k = r_head b - ?p" using kr False n p(1) by arith+
      have "all_val (ring_cells ?b)" unfolding c' using inv by (auto simp: ring_inv_def)
      then show ?thesis using kn inv p(1) n(2) unfolding ring_inv_def by auto
    qed
    moreover have "do_get b data n peek = Inr (k, take k (ring_cells b) @ drop k data, if peek then b else ?b)"
      unfolding do_get_def kk using cp cp2 w num False sub by (simp add: Let_def)
    ultimately show ?thesis using inv by (intro exI [of _ "if peek then b else ?b"]) simp
  qed
qed

lemma do_get_ok:
  assumes inv: "ring_inv b" and len: "min n (r_num b) \<le> length data"
  shows "\<exists>b'. do_get b data n peek =
       Inr (min n (r_num b), map Val (take n (ring_bytes b)) @ drop (min n (r_num b)) data, b') \<and>
     ring_inv b' \<and> (if peek then b' = b else ring_bytes b' = drop n (ring_bytes b))"
proof (cases "r_num b = 0")
  case True
  then have "ring_bytes b = []" using ring_bytes_length [OF inv] by simp
  with True inv show ?thesis by (auto simp: do_get_def)
next
  case False
  have c: "take (min n (r_num b)) (ring_cells b) = map Val (take n (ring_bytes b))"
    using ring_cells_Val [OF inv] ring_bytes_length [OF inv] by (simp add: take_map min_def)
  have d: "vals (drop (min n (r_num b)) (ring_cells b)) = drop n (ring_bytes b)"
    using ring_bytes_length [OF inv] by (simp add: ring_bytes_def [symmetric] vals_take_drop min_def)
  from do_get_straight [OF inv _ False refl len, of peek] do_get_wrapped [OF inv _ False refl len, of peek]
  show ?thesis using c d by (cases "r_tail b < r_head b") (force simp: ring_bytes_def)+
qed

section \<open>Putting bytes in\<close>

lemma cells_write:
  assumes "i + length xs \<le> length a"
  shows cells_write_before: "h \<le> i \<Longrightarrow> cells t h (take i a @ xs @ drop (i + length xs) a) = cells t h a"
    and cells_write_through: "t \<le> i \<Longrightarrow>
      cells t (i + length xs) (take i a @ xs @ drop (i + length xs) a) = cells t i a @ xs"
    and cells_write_after: "i + length xs \<le> t \<Longrightarrow>
      cells t j (take i a @ xs @ drop (i + length xs) a) = cells t j a"
proof -
  show "h \<le> i \<Longrightarrow> cells t h (take i a @ xs @ drop (i + length xs) a) = cells t h a"
    using assms by (cases "t \<le> i") (simp_all add: cells_def drop_take min_def)
  show "t \<le> i \<Longrightarrow> cells t (i + length xs) (take i a @ xs @ drop (i + length xs) a) = cells t i a @ xs"
  proof -
    assume "t \<le> i"
    then obtain d where "i = t + d" by (auto dest: le_Suc_ex)
    moreover from this assms have "min (length a) (t + d) = t + d" "min (length a - t) d = d" by simp_all
    ultimately show ?thesis using assms by (simp add: cells_def drop_take)
  qed
  show "i + length xs \<le> t \<Longrightarrow> cells t j (take i a @ xs @ drop (i + length xs) a) = cells t j a"
    using assms by (simp add: cells_def)
qed

lemma all_val_vals: "all_val xs \<Longrightarrow> map Val (vals xs) = xs"
  by (metis all_val_iff)

text \<open>With room for them, the bytes are appended.\<close>

lemma ring_store_ok:
  assumes inv: "ring_inv b" and room: "n \<le> r_bufsz b - r_num b" and len: "n \<le> length data"
    and val: "all_val (take n data)"
  shows "\<exists>b'. ring_store (ring_wrapped b) b data n = Inr b' \<and> ring_inv b' \<and>
     ring_cells b' = ring_cells b @ take n data"
proof -
  have i: "length (r_buf b) = r_bufsz b" "r_head b \<le> r_bufsz b" "r_tail b \<le> r_bufsz b" "r_num b \<le> r_bufsz b"
    using inv by (auto simp: ring_inv_def)
  have num: "sz_add (r_num b) n = r_num b + n" using inv room by (auto simp: ring_inv_def sz_add_def size_max_def)
  have sub: "sz_sub (r_bufsz b) (r_head b) = r_bufsz b - r_head b"
    using i ring_inv_sizes [OF inv] by (simp add: sz_simps)
  have allv: "all_val (ring_cells b @ take n data)" using inv val by (simp add: ring_inv_def)
  let ?buf = "take (r_head b) (r_buf b) @ take n data @ drop (r_head b + n) (r_buf b)"
  let ?b = "b\<lparr>r_buf := ?buf, r_head := r_head b + n, r_num := r_num b + n\<rparr>"
  have ln: "length (take n data) = n" using len by simp
  show ?thesis
  proof (cases "ring_wrapped b")
    case True
    then have w: "0 < r_num b" "r_head b \<le> r_tail b" "r_num b = r_bufsz b - r_tail b + r_head b" "0 < r_head b"
      using inv by (auto simp: ring_inv_def ring_wrapped_def)
    then have fit: "r_head b + n \<le> r_tail b" using room i by arith
    have w': "ring_wrapped ?b" using w fit by (simp add: ring_wrapped_def)
    have c: "ring_cells ?b = ring_cells b @ take n data"
      using True w' fit i cells_write [of "r_head b" "take n data" "r_buf b"] ln
      by (simp add: ring_cells_def)
    have "ring_inv ?b" unfolding ring_inv_def c using allv inv w fit ln i room by (auto simp: ring_inv_def)
    moreover have "ring_store (ring_wrapped b) b data n = Inr ?b"
      using True fit i len num by (simp add: ring_store_def arr_copy_in Let_def)
    ultimately show ?thesis using c by blast
  next
    case nw: False
    then have h: "r_tail b \<le> r_head b" "r_num b = r_head b - r_tail b"
      using inv by (auto simp: ring_inv_def ring_wrapped_def split: if_splits)
    show ?thesis
    proof (cases "n \<le> r_bufsz b - r_head b")
      case True
      have nw': "\<not> ring_wrapped ?b" using h by (auto simp: ring_wrapped_def)
      have c: "ring_cells ?b = ring_cells b @ take n data"
        using nw nw' True h i cells_write_through [of "r_head b" "take n data" "r_buf b" "r_tail b"] ln
        by (simp add: ring_cells_def)
      have "ring_inv ?b" unfolding ring_inv_def c using allv inv h True ln i room by (auto simp: ring_inv_def)
      moreover have "ring_store (ring_wrapped b) b data n = Inr ?b"
        using True nw i len num sub by (simp add: ring_store_def arr_copy_in Let_def)
      ultimately show ?thesis using c by blast
    next
      case False
      define a where "a = r_bufsz b - r_head b"
      define xs where "xs = take a data"
      define ys where "ys = take (n - a) (drop a data)"
      define buf1 where "buf1 = take (r_head b) (r_buf b) @ xs @ drop (r_head b + length xs) (r_buf b)"
      define buf2 where "buf2 = take 0 buf1 @ ys @ drop (0 + length ys) buf1"
      have a: "a < n" "n - a \<le> r_tail b" "r_head b + a = r_bufsz b" using False room h i by (auto simp: a_def)
      have ls: "length xs = a" "length ys = n - a" "length buf1 = r_bufsz b"
        using a len i by (auto simp: xs_def ys_def buf1_def)
      have xy: "take n data = xs @ ys"
        using a(1) take_add [of a "n - a" data] by (simp add: xs_def ys_def)
      let ?c = "b\<lparr>r_buf := buf2, r_head := n - a, r_num := r_num b + n\<rparr>"
      have w': "ring_wrapped ?c" using a by (simp add: ring_wrapped_def)
      have "cells (r_tail b) (r_bufsz b) buf1 = cells (r_tail b) (r_head b) (r_buf b) @ xs"
        using cells_write_through [of "r_head b" xs "r_buf b" "r_tail b"] a i h ls by (simp add: buf1_def)
      moreover have "cells (r_tail b) (r_bufsz b) buf2 = cells (r_tail b) (r_bufsz b) buf1"
        unfolding buf2_def by (rule cells_write_after) (use a i ls in auto)
      moreover have "cells 0 (n - a) buf2 = ys"
        using cells_write_through [of 0 ys buf1 0] ls a i by (simp add: buf2_def)
      ultimately have c: "ring_cells ?c = ring_cells b @ take n data"
        using w' nw xy by (simp add: ring_cells_def)
      have "ring_inv ?c" unfolding ring_inv_def c using allv inv h a ls i room by (auto simp: ring_inv_def buf2_def)
      moreover have "ring_store (ring_wrapped b) b data n = Inr ?c"
      proof -
        have c1: "arr_copy (r_buf b) (r_head b) data 0 a = Inr buf1"
          using a i len ls by (simp add: arr_copy_in buf1_def xs_def)
        have c2: "arr_copy buf1 0 data a (n - a) = Inr buf2"
          using a i len ls by (simp add: arr_copy_in buf2_def ys_def)
        show ?thesis using nw False num sub c1 c2 unfolding ring_store_def by (simp add: Let_def a_def [symmetric])
      qed
      ultimately show ?thesis using c by blast
    qed
  qed
qed

text \<open>The doubling loop ends at the first size that fits.\<close>

lemma double_loop_ok:
  assumes "0 < sz" "sz < used + num" "used \<le> sz" "used + num \<le> 2 ^ 62"
  shows "\<exists>r. c_loop (double_body used num) sz = Inr r \<and> used + num \<le> r \<and> r < 2 * (used + num)"
proof -
  have "\<exists>r. c_loop (double_body used num) sz = Inr r \<and> (used + num \<le> r \<and> r < 2 * (used + num))"
  proof (rule c_loop_rule [where I = "\<lambda>nb. 0 < nb \<and> used \<le> nb \<and> nb < 2 * (used + num)" and m = "\<lambda>nb. used + num - nb"])
    fix nb assume nb: "0 < nb \<and> used \<le> nb \<and> nb < 2 * (used + num)"
    then have "nb < size_max" using assms(4) by (simp add: size_max_def)
    then have sub: "sz_sub nb used = nb - used" using nb by (simp add: sz_simps)
    show "(\<exists>t. double_body used num nb = Inr (Continue t) \<and> (0 < t \<and> used \<le> t \<and> t < 2 * (used + num)) \<and>
          used + num - t < used + num - nb) \<or>
        (\<exists>r. double_body used num nb = Inr (Break r) \<and> (used + num \<le> r \<and> r < 2 * (used + num)))"
    proof (cases "nb - used < num")
      case True
      then have "sz_mul nb 2 = 2 * nb" using nb assms(4) by (simp add: sz_mul_def size_max_def)
      with True nb sub show ?thesis by (auto simp: double_body_def)
    next
      case False
      with nb sub show ?thesis by (auto simp: double_body_def)
    qed
  qed (use assms in auto)
  then show ?thesis by blast
qed

lemma cells_pre: "cells 0 (length xs) (xs @ ys) = xs"
  by (simp add: cells_def)

lemma ring_grow_ok:
  assumes inv: "ring_inv b" and more: "r_bufsz b - r_num b < n" and lim: "r_num b + n \<le> 2 ^ 62"
    and mem: "\<And>m. m < 2 * (r_num b + n) \<Longrightarrow> alloc m"
  shows "\<exists>b'. ring_grow alloc b n = Inr b' \<and> ring_inv b' \<and> ring_cells b' = ring_cells b \<and>
     n \<le> r_bufsz b' - r_num b' \<and> \<not> ring_wrapped b'"
proof -
  have i: "length (r_buf b) = r_bufsz b" "0 < r_bufsz b" "r_head b \<le> r_bufsz b" "r_tail b \<le> r_bufsz b" "r_num b \<le> r_bufsz b"
    using inv by (auto simp: ring_inv_def)
  obtain N where loop: "c_loop (double_body (r_num b) n) (r_bufsz b) = Inr N"
    and N: "r_num b + n \<le> N" "N < 2 * (r_num b + n)"
  proof -
    have "r_bufsz b < r_num b + n" using more by arith
    from double_loop_ok [OF i(2) this i(5) lim] that show ?thesis by blast
  qed
  have al: "alloc N" by (rule mem) (rule N)
  have sub: "sz_sub (r_bufsz b) (sz_sub (r_bufsz b) (r_num b)) = r_num b" "sz_sub (r_bufsz b) (r_tail b) = r_bufsz b - r_tail b"
    using i ring_inv_sizes [OF inv] by (simp_all add: sz_simps)
  have len: "length (ring_cells b) = r_num b" by (rule ring_cells_length [OF inv])
  let ?fresh = "replicate N Undef"
  let ?nbuf = "ring_cells b @ drop (r_num b) ?fresh"
  let ?b = "b\<lparr>r_head := r_num b, r_tail := 0, r_buf := ?nbuf, r_bufsz := N\<rparr>"
  have nw: "\<not> ring_wrapped ?b" by (auto simp: ring_wrapped_def)
  have "cells 0 (r_num b) ?nbuf = ring_cells b"
    using cells_pre [of "ring_cells b"] len by simp
  then have c: "ring_cells ?b = ring_cells b" using nw by (simp add: ring_cells_def)
  have "ring_inv ?b" unfolding ring_inv_def c using inv N lim more len by (auto simp: ring_inv_def)
  moreover have "ring_grow alloc b n = Inr ?b"
  proof (cases "ring_wrapped b")
    case False
    then have h: "r_tail b \<le> r_head b" "r_num b = r_head b - r_tail b"
      using inv by (auto simp: ring_inv_def ring_wrapped_def split: if_splits)
    have "arr_copy ?fresh 0 (r_buf b) (r_tail b) (r_head b - r_tail b) = Inr ?nbuf"
      using h i N False by (subst arr_copy_front) (auto simp: ring_cells_def)
    moreover have "sz_sub (r_head b) (r_tail b) = r_head b - r_tail b"
      using h(1) inv by (intro sz_sub_small) (auto simp: ring_inv_def size_max_def)
    ultimately show ?thesis using loop al sub False by (simp add: ring_grow_def)
  next
    case True
    then have w: "r_num b = r_bufsz b - r_tail b + r_head b" "r_head b \<le> r_tail b"
      using inv by (auto simp: ring_inv_def ring_wrapped_def)
    let ?xs = "cells (r_tail b) (r_bufsz b) (r_buf b)" and ?f = "r_bufsz b - r_tail b"
    have lx: "length ?xs = ?f" using i by simp
    have c1: "arr_copy ?fresh 0 (r_buf b) (r_tail b) ?f = Inr (?xs @ drop ?f ?fresh)"
      using i N w by (subst arr_copy_front) auto
    have f1: "?f + r_head b \<le> length ?fresh" using N w by simp
    have f2: "r_head b \<le> length (r_buf b)" using i by simp
    have c2: "arr_copy (?xs @ drop ?f ?fresh) ?f (r_buf b) 0 (r_head b) = Inr ?nbuf"
      using arr_copy_next [OF lx f1 f2] True w(1) by (simp only: ring_cells_def if_True append_assoc)
    show ?thesis using loop al sub True c1 c2 by (simp add: ring_grow_def)
  qed
  ultimately show ?thesis using c nw N by (intro exI [of _ ?b]) auto
qed

lemma ringbuf_put_ok:
  assumes inv: "ring_inv b" and len: "n \<le> length data" and val: "all_val (take n data)"
    and lim: "r_num b + n \<le> 2 ^ 62"
    and mem: "n \<le> r_bufsz b - r_num b \<or> (\<forall>m. m < 2 * (r_num b + n) \<longrightarrow> alloc m)"
  shows "\<exists>b'. ringbuf_put alloc b data n = Inr b' \<and> ring_inv b' \<and>
     ring_bytes b' = ring_bytes b @ vals (take n data)"
proof -
  have sub: "sz_sub (r_bufsz b) (r_num b) = r_bufsz b - r_num b"
    using inv ring_inv_sizes [OF inv] by (simp add: sz_simps ring_inv_def)
  show ?thesis
  proof (cases "n \<le> r_bufsz b - r_num b")
    case True
    with ring_store_ok [OF inv True len val] sub show ?thesis by (auto simp: ringbuf_put_def ring_bytes_def)
  next
    case False
    then have more: "r_bufsz b - r_num b < n" and alloc: "\<And>m. m < 2 * (r_num b + n) \<Longrightarrow> alloc m" using mem by auto
    obtain b1 where b1: "ring_grow alloc b n = Inr b1" "ring_inv b1" "ring_cells b1 = ring_cells b"
        "n \<le> r_bufsz b1 - r_num b1" "\<not> ring_wrapped b1"
      using ring_grow_ok [where alloc = alloc, OF inv more lim alloc] by blast
    with ring_store_ok [OF b1(2,4) len val] sub more show ?thesis by (auto simp: ringbuf_put_def ring_bytes_def)
  qed
qed

section \<open>The contract of a byte queue\<close>

datatype fifo_op = Put "byte list" | Get nat

text \<open>Running a script of operations; the result collects the bytes that came out.\<close>

fun fifo_run ::
  "('b \<Rightarrow> byte cell list \<Rightarrow> nat \<Rightarrow> 'b res) \<Rightarrow> ('b \<Rightarrow> byte cell list \<Rightarrow> nat \<Rightarrow> (nat \<times> byte cell list \<times> 'b) res) \<Rightarrow>
   'b \<Rightarrow> fifo_op list \<Rightarrow> (byte list \<times> 'b) res" where
  "fifo_run put get b [] = Inr ([], b)"
| "fifo_run put get b (Put xs # ops) =
     bind_res (put b (map Val xs) (length xs)) (\<lambda>b'. fifo_run put get b' ops)"
| "fifo_run put get b (Get n # ops) =
     bind_res (get b (replicate n Undef) n) (\<lambda>(k, data, b').
     bind_res (fifo_run put get b' ops) (\<lambda>(out, b''). Inr (vals (take k data) @ out, b'')))"

fun bytes_in :: "fifo_op list \<Rightarrow> byte list" where
  "bytes_in [] = []"
| "bytes_in (Put xs # ops) = xs @ bytes_in ops"
| "bytes_in (Get n # ops) = bytes_in ops"

locale byte_fifo =
  fixes inv :: "'b \<Rightarrow> bool" and bytes :: "'b \<Rightarrow> byte list"
    and put :: "'b \<Rightarrow> byte cell list \<Rightarrow> nat \<Rightarrow> 'b res"
    and get :: "'b \<Rightarrow> byte cell list \<Rightarrow> nat \<Rightarrow> (nat \<times> byte cell list \<times> 'b) res"
    and is_empty :: "'b \<Rightarrow> bool" and limit :: nat
  assumes put_law: "inv b \<Longrightarrow> n \<le> length data \<Longrightarrow> all_val (take n data) \<Longrightarrow> length (bytes b) + n \<le> limit \<Longrightarrow>
      \<exists>b'. put b data n = Inr b' \<and> inv b' \<and> bytes b' = bytes b @ vals (take n data)"
    and get_law: "inv b \<Longrightarrow> min n (length (bytes b)) \<le> length data \<Longrightarrow>
      \<exists>b'. get b data n = Inr (min n (length (bytes b)),
          map Val (take n (bytes b)) @ drop (min n (length (bytes b))) data, b') \<and>
        inv b' \<and> bytes b' = drop n (bytes b)"
    and empty_law: "inv b \<Longrightarrow> is_empty b \<longleftrightarrow> bytes b = []"
begin

lemma fifo_run_stream:
  assumes "inv b" and "length (bytes b) + length (bytes_in ops) \<le> limit"
  shows "\<exists>out b'. fifo_run put get b ops = Inr (out, b') \<and> inv b' \<and> bytes b @ bytes_in ops = out @ bytes b'"
  using assms
proof (induction ops arbitrary: b)
  case (Cons op ops)
  show ?case
  proof (cases op)
    case (Put xs)
    with put_law [OF Cons.prems(1), of "length xs" "map Val xs"] Cons.prems(2) obtain b1 where
      b1: "put b (map Val xs) (length xs) = Inr b1" "inv b1" "bytes b1 = bytes b @ xs" by auto
    with Cons.IH [OF b1(2)] Cons.prems(2) Put show ?thesis by auto
  next
    case (Get n)
    from get_law [OF Cons.prems(1), of n "replicate n Undef"] obtain b1 where
      b1: "get b (replicate n Undef) n = Inr (min n (length (bytes b)),
          map Val (take n (bytes b)) @ drop (min n (length (bytes b))) (replicate n Undef), b1)"
        "inv b1" "bytes b1 = drop n (bytes b)" by auto
    have "length (bytes b1) + length (bytes_in ops) \<le> limit" using Cons.prems(2) Get b1(3) by simp
    from Cons.IH [OF b1(2) this] obtain out b' where
      out: "fifo_run put get b1 ops = Inr (out, b')" "inv b'" "bytes b1 @ bytes_in ops = out @ bytes b'"
      by blast
    have "vals (take (min n (length (bytes b))) (map Val (take n (bytes b)) @
        drop (min n (length (bytes b))) (replicate n Undef))) = take n (bytes b)"
      by (simp add: min.commute)
    then have "fifo_run put get b (op # ops) = Inr (take n (bytes b) @ out, b')"
      using b1(1) out(1) Get by simp
    moreover have "bytes b @ bytes_in ops = take n (bytes b) @ out @ bytes b'"
      using out(3) b1(3) by (metis append_assoc append_take_drop_id)
    ultimately show ?thesis using out(2) Get by auto
  qed
qed simp

end

lemma ring_fifo:
  assumes "lim \<le> 2 ^ 62" and "\<And>m. m < 2 * lim \<Longrightarrow> alloc m"
  shows "byte_fifo ring_inv ring_bytes (ringbuf_put alloc) ringbuf_get ringbuf_empty lim"
proof
  fix b n and data :: "byte cell list"
  assume b: "ring_inv b" "n \<le> length data" "all_val (take n data)" "length (ring_bytes b) + n \<le> lim"
  have "\<forall>m. m < 2 * (r_num b + n) \<longrightarrow> alloc m" using assms(2) b(4) ring_bytes_length [OF b(1)] by auto
  then show "\<exists>b'. ringbuf_put alloc b data n = Inr b' \<and> ring_inv b' \<and> ring_bytes b' = ring_bytes b @ vals (take n data)"
    using ringbuf_put_ok [OF b(1-3)] b(4) assms(1) ring_bytes_length [OF b(1)] by auto
next
  fix b n and data :: "byte cell list"
  assume b: "ring_inv b" "min n (length (ring_bytes b)) \<le> length data"
  then show "\<exists>b'. ringbuf_get b data n = Inr (min n (length (ring_bytes b)),
        map Val (take n (ring_bytes b)) @ drop (min n (length (ring_bytes b))) data, b') \<and>
      ring_inv b' \<and> ring_bytes b' = drop n (ring_bytes b)"
    using do_get_ok [OF b(1), of n data False] by (simp add: ringbuf_get_def ring_bytes_length)
next
  fix b assume "ring_inv b"
  then show "ringbuf_empty b \<longleftrightarrow> ring_bytes b = []"
    using ring_bytes_length [of b] by (auto simp: ringbuf_empty_def)
qed

interpretation ring: byte_fifo ring_inv ring_bytes "ringbuf_put (mem_upto 2000000)" ringbuf_get ringbuf_empty 1000000
  by (rule ring_fifo) (simp_all add: mem_upto_def)

lemma ringbuf_init_ok:
  assumes "alloc sizeof_ringbuf" "alloc n" "0 < n" "n < 2 ^ 63"
  shows "\<exists>b. ringbuf_init alloc n = Some b \<and> ring_inv b \<and> ring_bytes b = []"
  using assms by (auto simp: ringbuf_init_def ring_inv_def ring_bytes_def ring_cells_def ring_wrapped_def)

lemma ringbuf_clear_ok: "ring_inv b \<Longrightarrow> ring_inv (ringbuf_clear b) \<and> ring_bytes (ringbuf_clear b) = []"
  by (auto simp: ringbuf_clear_def ring_inv_def ring_bytes_def ring_cells_def ring_wrapped_def)

section \<open>Properties\<close>

text \<open>
  C7: a ring buffer with room for at least one byte is a byte queue: for every sequence of puts
  and gets of any sizes that fits in memory, no operation faults, and the bytes that came out
  followed by those still stored are the bytes that were put in, in order.
\<close>

theorem ringbuf_stream:
  assumes "0 < n" and "n + 2 * length (bytes_in ops) + sizeof_ringbuf < lim" and "lim \<le> 2 ^ 63"
    and "\<And>m. m < lim \<Longrightarrow> alloc m"
  shows "\<exists>b out b'. ringbuf_init alloc n = Some b \<and>
    fifo_run (ringbuf_put alloc) ringbuf_get b ops = Inr (out, b') \<and> ring_inv b' \<and>
    bytes_in ops = out @ ring_bytes b' \<and> ringbuf_count b' = length (bytes_in ops) - length out"
proof -
  let ?k = "length (bytes_in ops)"
  have fifo: "byte_fifo ring_inv ring_bytes (ringbuf_put alloc) ringbuf_get ringbuf_empty ?k"
    by (rule ring_fifo) (use assms in auto)
  obtain b where b: "ringbuf_init alloc n = Some b" "ring_inv b" "ring_bytes b = []"
    using ringbuf_init_ok [of alloc n] assms by auto
  with byte_fifo.fifo_run_stream [OF fifo b(2), of ops] obtain out b' where
    out: "fifo_run (ringbuf_put alloc) ringbuf_get b ops = Inr (out, b')" "ring_inv b'"
      "bytes_in ops = out @ ring_bytes b'" by auto
  with b(1) ring_bytes_length [OF out(2)] show ?thesis by (auto simp: ringbuf_count_def)
qed

theorem ringbuf_stream_witness:
  "\<exists>b out b'. ringbuf_init (mem_upto 100) 4 = Some b \<and>
    fifo_run (ringbuf_put (mem_upto 100)) ringbuf_get b [Put [1, 2, 3], Get 2, Put [4, 5, 6, 7, 8], Get 3, Get 9]
      = Inr (out, b') \<and> ring_inv b' \<and> [1, 2, 3, 4, 5, 6, 7, 8] = out @ ring_bytes b' \<and>
    ringbuf_count b' = 8 - length out"
proof -
  have ins: "bytes_in [Put [1, 2, 3], Get 2, Put [4, 5, 6, 7, 8], Get 3, Get 9] = [1, 2, 3, 4, 5, 6, 7, 8]"
    by simp
  have len: "length [1 :: byte, 2, 3, 4, 5, 6, 7, 8] = 8" by simp
  show ?thesis
    using ringbuf_stream [of 4 "[Put [1, 2, 3], Get 2, Put [4, 5, 6, 7, 8], Get 3, Get 9]" 101 "mem_upto 100",
        unfolded ins len] mem_upto_def sizeof_ringbuf_def by fastforce
qed

text \<open>
  \<open>ringbuf_peek\<close> yields what \<open>ringbuf_get\<close> would, byte for byte, and leaves the buffer as it was.
\<close>

theorem ringbuf_peek_get:
  assumes "ring_inv b" and "min n (ringbuf_count b) \<le> length data"
  shows "\<exists>data' b'. ringbuf_peek b data n = Inr (min n (ringbuf_count b), data', b) \<and>
    ringbuf_get b data n = Inr (min n (ringbuf_count b), data', b') \<and>
    vals (take (min n (ringbuf_count b)) data') = take n (ring_bytes b) \<and> ring_bytes b' = drop n (ring_bytes b)"
proof -
  have v: "vals (take (min n (r_num b)) (map Val (take n (ring_bytes b)) @ drop (min n (r_num b)) data)) = take n (ring_bytes b)"
    using ring_bytes_length [OF assms(1)] by (simp add: min.commute)
  with do_get_ok [OF assms(1), of n data True] do_get_ok [OF assms(1), of n data False] assms(2)
  show ?thesis by (auto simp: ringbuf_peek_def ringbuf_get_def ringbuf_count_def)
qed

definition demo_ring :: ringbuf where
  "demo_ring = \<lparr>r_buf = [Val 5, Undef, Val 3, Val 4], r_head = 1, r_tail = 2, r_num = 3, r_bufsz = 4\<rparr>"

theorem ringbuf_peek_get_witness:
  "\<exists>data' b'. ringbuf_peek demo_ring [Undef, Undef, Undef] 9 = Inr (3, data', demo_ring) \<and>
    ringbuf_get demo_ring [Undef, Undef, Undef] 9 = Inr (3, data', b') \<and> vals (take 3 data') = [3, 4, 5] \<and>
    ring_bytes b' = []"
proof -
  have inv: "ring_inv demo_ring"
    by (simp add: ring_inv_def demo_ring_def ring_cells_def ring_wrapped_def cells_def)
  have bytes: "ring_bytes demo_ring = [3, 4, 5]" "ringbuf_count demo_ring = 3"
    by (simp_all add: demo_ring_def ring_bytes_def ring_cells_def ring_wrapped_def cells_def ringbuf_count_def)
  show ?thesis using ringbuf_peek_get [OF inv, of 9 "[Undef, Undef, Undef]"] unfolding bytes by simp
qed

text \<open>
  a ring buffer created with size 0 has nothing to double: the first put of at least one byte
  never returns.
\<close>

theorem ringbuf_put_zero_size:
  assumes "ringbuf_init alloc 0 = Some b" and "0 < n"
  shows "ringbuf_put alloc b data n = Inl Diverges"
proof -
  have b: "r_bufsz b = 0" "r_num b = 0" using assms(1) by (auto simp: ringbuf_init_def split: if_splits)
  have "c_loop (double_body 0 n) 0 = Inl Diverges"
    by (rule c_loop_diverges [where I = "\<lambda>nb. nb = 0"])
      (use assms(2) in \<open>simp_all add: double_body_def sz_sub_def sz_mul_def\<close>)
  with b assms(2) show ?thesis by (simp add: ringbuf_put_def ring_grow_def sz_sub_def)
qed

theorem ringbuf_put_zero_size_witness:
  "ringbuf_put (mem_upto 100) \<lparr>r_buf = [], r_head = 0, r_tail = 0, r_num = 0, r_bufsz = 0\<rparr> [Val 1] 1 = Inl Diverges"
  by (rule ringbuf_put_zero_size) (simp_all add: ringbuf_init_def mem_upto_def sizeof_ringbuf_def)

end
