(* ===== verification/PtrList.thy ===== *)
theory PtrList imports SrsPrelude begin

text \<open>
  ptrlist.c: a singly linked list of pointers with an iterator, modelled with its nodes in a
  store. The nodes of one list are never reached from another, so every list carries a store of
  its own: \<open>pl_nodes\<close> maps the addresses of the nodes that are allocated and not freed. Reading
  through NULL is the fault \<open>Null_Deref\<close>, reading a node that was freed is \<open>Dangling\<close>.

  \<open>malloc\<close> of a node is the parameter \<open>new\<close>: given the addresses in use it yields an address, or
  \<open>None\<close> when it fails. A handle tested for NULL is an optional list, a \<open>void *\<close> an optional
  element.
\<close>

section \<open>The code\<close>

type_synonym ref = "nat option"

record 'a pl_node =
  pn_data :: 'a
  pn_next :: ref

type_synonym 'a pl_store = "nat \<Rightarrow> 'a pl_node option"

record 'a ptrlist =
  pl_nodes :: "'a pl_store"
  pl_head :: ref
  pl_iter :: ref

definition deref :: "'a pl_store \<Rightarrow> ref \<Rightarrow> 'a pl_node res" where
  "deref h p =
     (case p of
        None \<Rightarrow> Inl Null_Deref
      | Some a \<Rightarrow> (case h a of None \<Rightarrow> Inl Dangling | Some n \<Rightarrow> Inr n))"

definition set_next :: "'a pl_store \<Rightarrow> ref \<Rightarrow> ref \<Rightarrow> 'a pl_store res" where
  "set_next h p q =
     bind_res (deref h p) (\<lambda>n. Inr (h(the p := Some (n\<lparr>pn_next := q\<rparr>))))"

definition sizeof_ptrlist :: nat where
  "sizeof_ptrlist = 16"

definition ptrlist_init :: "(nat \<Rightarrow> bool) \<Rightarrow> 'a ptrlist res" where
  "ptrlist_init alloc =
     (if \<not> alloc sizeof_ptrlist then Inl Null_Deref
      else Inr \<lparr>pl_nodes = Map.empty, pl_head = None, pl_iter = None\<rparr>)"

definition count_body :: "'a pl_store \<Rightarrow> ref \<times> nat \<Rightarrow> (ref \<times> nat, nat) step res" where
  "count_body h = (\<lambda>(n, c).
     bind_res (deref h n) (\<lambda>nd.
     case pn_next nd of None \<Rightarrow> Inr (Break c) | Some a \<Rightarrow> Inr (Continue (Some a, sz_add c 1))))"

definition ptrlist_count :: "'a ptrlist option \<Rightarrow> nat res" where
  "ptrlist_count hl =
     (case hl of
        None \<Rightarrow> Inr 0
      | Some l \<Rightarrow>
          if pl_head l = None then Inr 0 else c_loop (count_body (pl_nodes l)) (pl_head l, 1))"

definition clear_body :: "'a pl_store \<times> ref \<Rightarrow> ('a pl_store \<times> ref, 'a pl_store) step res" where
  "clear_body = (\<lambda>(h, n).
     case n of
       None \<Rightarrow> Inr (Break h)
     | Some a \<Rightarrow> bind_res (deref h n) (\<lambda>nd. Inr (Continue (h(a := None), pn_next nd))))"

text \<open>\<open>ptrlist_clear\<close> resets the head, but not the iterator.\<close>

definition ptrlist_clear :: "'a ptrlist option \<Rightarrow> 'a ptrlist option res" where
  "ptrlist_clear hl =
     (case hl of
        None \<Rightarrow> Inr None
      | Some l \<Rightarrow>
          bind_res (c_loop clear_body (pl_nodes l, pl_head l)) (\<lambda>h.
          Inr (Some (l\<lparr>pl_nodes := h, pl_head := None\<rparr>))))"

definition ptrlist_dispose :: "'a ptrlist option \<Rightarrow> unit res" where
  "ptrlist_dispose hl = bind_res (ptrlist_clear hl) (\<lambda>_. Inr ())"

text \<open>
  The loop shared by insert, replace, remove and get: it stops at the last node at the latest.
  The index of \<open>ptrlist_insert\<close> is signed, and counting it down from its minimum overflows.
\<close>

definition walk_body ::
  "'a pl_store \<Rightarrow> ref \<times> ref \<times> int \<Rightarrow> (ref \<times> ref \<times> int, ref \<times> ref \<times> int) step res" where
  "walk_body h = (\<lambda>(n, prev, i).
     bind_res (deref h n) (\<lambda>nd.
     if pn_next nd \<noteq> None \<and> i \<noteq> 0
     then if i = - (2 ^ 63) then Inl Bad_Arith else Inr (Continue (pn_next nd, n, i - 1))
     else Inr (Break (n, prev, i))))"

definition walk :: "'a ptrlist \<Rightarrow> int \<Rightarrow> (ref \<times> ref \<times> int) res" where
  "walk l i = c_loop (walk_body (pl_nodes l)) (pl_head l, None, i)"

definition ptrlist_insert ::
  "(nat set \<Rightarrow> nat option) \<Rightarrow> 'a ptrlist option \<Rightarrow> int \<Rightarrow> 'a option \<Rightarrow> (bool \<times> 'a ptrlist option) res" where
  "ptrlist_insert new hl i data =
     (case (hl, data) of
        (Some l, Some x) \<Rightarrow>
          (case new (dom (pl_nodes l)) of
             None \<Rightarrow> Inr (False, hl)
           | Some a \<Rightarrow>
               if pl_head l = None then
                 Inr (True, Some (l\<lparr>pl_nodes := (pl_nodes l)(a := Some \<lparr>pn_data = x, pn_next = None\<rparr>),
                                   pl_head := Some a\<rparr>))
               else
                 bind_res (walk l i) (\<lambda>(n, prev, i').
                 if i' \<noteq> 0 then
                   bind_res (set_next (pl_nodes l) n (Some a)) (\<lambda>h.
                   Inr (True, Some (l\<lparr>pl_nodes := h(a := Some \<lparr>pn_data = x, pn_next = None\<rparr>)\<rparr>)))
                 else
                   let h = (pl_nodes l)(a := Some \<lparr>pn_data = x, pn_next = n\<rparr>) in
                   if prev \<noteq> None then
                     bind_res (set_next h prev (Some a)) (\<lambda>h'. Inr (True, Some (l\<lparr>pl_nodes := h'\<rparr>)))
                   else Inr (True, Some (l\<lparr>pl_nodes := h, pl_head := Some a\<rparr>))))
      | _ \<Rightarrow> Inr (False, hl))"

definition ptrlist_replace ::
  "'a ptrlist option \<Rightarrow> nat \<Rightarrow> 'a option \<Rightarrow> (bool \<times> 'a ptrlist option) res" where
  "ptrlist_replace hl i data =
     (case (hl, data) of
        (Some l, Some x) \<Rightarrow>
          if pl_head l = None then Inr (False, hl)
          else
            bind_res (walk l (int i)) (\<lambda>(n, prev, i').
            if i' > 0 then Inr (False, hl)
            else
              bind_res (deref (pl_nodes l) n) (\<lambda>nd.
              Inr (True, Some (l\<lparr>pl_nodes := (pl_nodes l)(the n := Some (nd\<lparr>pn_data := x\<rparr>))\<rparr>))))
      | _ \<Rightarrow> Inr (False, hl))"

definition ptrlist_remove :: "'a ptrlist option \<Rightarrow> nat \<Rightarrow> (bool \<times> 'a ptrlist option) res" where
  "ptrlist_remove hl i =
     (case hl of
        None \<Rightarrow> Inr (False, hl)
      | Some l \<Rightarrow>
          if pl_head l = None then Inr (False, hl)
          else
            bind_res (walk l (int i)) (\<lambda>(n, prev, i').
            if i' > 0 then Inr (False, hl)
            else
              bind_res (deref (pl_nodes l) n) (\<lambda>nd.
              bind_res
                (if prev = None then Inr (l\<lparr>pl_head := pn_next nd\<rparr>)
                 else bind_res (set_next (pl_nodes l) prev (pn_next nd)) (\<lambda>h. Inr (l\<lparr>pl_nodes := h\<rparr>))) (\<lambda>l1.
              Inr (True, Some (l1\<lparr>pl_nodes := (pl_nodes l1)(the n := None)\<rparr>)))))) "

definition ptrlist_get :: "'a ptrlist option \<Rightarrow> nat \<Rightarrow> 'a option res" where
  "ptrlist_get hl i =
     (case hl of
        None \<Rightarrow> Inr None
      | Some l \<Rightarrow>
          if pl_head l = None then Inr None
          else
            bind_res (walk l (int i)) (\<lambda>(n, prev, i').
            if i' > 0 then Inr None
            else bind_res (deref (pl_nodes l) n) (\<lambda>nd. Inr (Some (pn_data nd)))))"

text \<open>The three searches differ in the test they make on an element.\<close>

definition find_body :: "'a pl_store \<Rightarrow> ('a \<Rightarrow> bool) \<Rightarrow> ref \<times> int \<Rightarrow> (ref \<times> int, int) step res" where
  "find_body h P = (\<lambda>(n, c).
     if n = None then Inr (Break (- 1))
     else
       bind_res (deref h n) (\<lambda>nd.
       if P (pn_data nd) then Inr (Break c) else Inr (Continue (pn_next nd, c + 1))))"

definition ptrlist_findfn :: "'a ptrlist option \<Rightarrow> ('a \<Rightarrow> bool) \<Rightarrow> int res" where
  "ptrlist_findfn hl fndfn =
     (case hl of
        None \<Rightarrow> Inr (- 1)
      | Some l \<Rightarrow>
          if pl_head l = None then Inr (- 1) else c_loop (find_body (pl_nodes l) fndfn) (pl_head l, 0))"

definition ptrlist_findraw :: "'a ptrlist option \<Rightarrow> 'a \<Rightarrow> int res" where
  "ptrlist_findraw hl data = ptrlist_findfn hl (\<lambda>d. d = data)"

definition ptrlist_findeqfn :: "'a ptrlist option \<Rightarrow> ('a \<Rightarrow> 'b \<Rightarrow> bool) \<Rightarrow> 'b \<Rightarrow> int res" where
  "ptrlist_findeqfn hl eqfn needle = ptrlist_findfn hl (\<lambda>d. eqfn d needle)"

definition ptrlist_first :: "'a ptrlist option \<Rightarrow> ('a option \<times> 'a ptrlist option) res" where
  "ptrlist_first hl =
     (case hl of
        None \<Rightarrow> Inr (None, hl)
      | Some l \<Rightarrow>
          if pl_head l = None then Inr (None, hl)
          else
            bind_res (deref (pl_nodes l) (pl_head l)) (\<lambda>nd.
            Inr (Some (pn_data nd), Some (l\<lparr>pl_iter := pl_head l\<rparr>))))"

definition ptrlist_next :: "'a ptrlist option \<Rightarrow> ('a option \<times> 'a ptrlist option) res" where
  "ptrlist_next hl =
     (case hl of
        None \<Rightarrow> Inr (None, hl)
      | Some l \<Rightarrow>
          if pl_iter l = None then Inr (None, hl)
          else
            bind_res (deref (pl_nodes l) (pl_iter l)) (\<lambda>nd.
            if pn_next nd = None then Inr (None, hl)
            else
              bind_res (deref (pl_nodes l) (pn_next nd)) (\<lambda>nd'.
              Inr (Some (pn_data nd'), Some (l\<lparr>pl_iter := pn_next nd\<rparr>)))))"

section \<open>The list a store holds\<close>

text \<open>
  \<open>lseg h p ns q\<close>: following the pointers from \<open>p\<close> passes the nodes \<open>ns\<close>, given with their
  addresses and data, and arrives at \<open>q\<close>. \<open>pl_rep l ns\<close>: the nodes of the list are \<open>ns\<close>, each of
  them once, and no node has leaked.
\<close>

fun lseg :: "'a pl_store \<Rightarrow> ref \<Rightarrow> (nat \<times> 'a) list \<Rightarrow> ref \<Rightarrow> bool" where
  "lseg h p [] q \<longleftrightarrow> p = q"
| "lseg h p ((a, x) # ns) q \<longleftrightarrow>
     p = Some a \<and> (\<exists>r. h a = Some \<lparr>pn_data = x, pn_next = r\<rparr> \<and> lseg h r ns q)"

definition pl_rep :: "'a ptrlist \<Rightarrow> (nat \<times> 'a) list \<Rightarrow> bool" where
  "pl_rep l ns \<longleftrightarrow>
     lseg (pl_nodes l) (pl_head l) ns None \<and> distinct (map fst ns) \<and> dom (pl_nodes l) = fst ` set ns"

text \<open>A well-formed list with the given elements.\<close>

definition pl_list :: "'a ptrlist \<Rightarrow> 'a list \<Rightarrow> bool" where
  "pl_list l xs \<longleftrightarrow> (\<exists>ns. pl_rep l ns \<and> xs = map snd ns)"

definition new_ok :: "(nat set \<Rightarrow> nat option) \<Rightarrow> bool" where
  "new_ok new \<longleftrightarrow> (\<forall>A a. finite A \<longrightarrow> new A = Some a \<longrightarrow> a \<notin> A)"

text \<open>There is memory for \<open>n\<close> objects: a request succeeds as long as fewer are allocated.\<close>

definition room_for :: "(nat set \<Rightarrow> nat option) \<Rightarrow> nat \<Rightarrow> bool" where
  "room_for new n \<longleftrightarrow> new_ok new \<and> (\<forall>A. finite A \<longrightarrow> card A < n \<longrightarrow> new A \<noteq> None)"

lemma lseg_append: "lseg h p (ms @ ns) q \<longleftrightarrow> (\<exists>r. lseg h p ms r \<and> lseg h r ns q)"
  by (induction h p ms q rule: lseg.induct) auto

lemma lseg_upd: "a \<notin> fst ` set ns \<Longrightarrow> lseg (h(a := v)) p ns q = lseg h p ns q"
  by (induction ns arbitrary: p) auto

lemma lseg_snoc: "lseg h p (ms @ [(a, x)]) q \<longleftrightarrow> lseg h p ms (Some a) \<and> h a = Some \<lparr>pn_data = x, pn_next = q\<rparr>"
  by (auto simp: lseg_append)

lemma deref_Some [simp]: "h a = Some n \<Longrightarrow> deref h (Some a) = Inr n"
  by (simp add: deref_def)

lemma deref_None [simp]: "deref h None = Inl Null_Deref"
  by (simp add: deref_def)

text \<open>
  Where the shared loop stops: at the node of the given index, or at the last node with the
  index not used up.
\<close>

lemma walk_loop:
  assumes "lseg h n ((a, x) # rest) None" and "- (2 ^ 63) + int (length rest) \<le> i"
  shows "\<exists>ms b y rest' i'. (a, x) # rest = ms @ (b, y) # rest' \<and>
     c_loop (walk_body h) (n, prev, i) = Inr (Some b, if ms = [] then prev else Some (fst (last ms)), i') \<and>
     i' = i - int (length ms) \<and> (i' = 0 \<or> rest' = []) \<and> (0 \<le> i \<longrightarrow> 0 \<le> i') \<and>
     (i' = 0 \<longrightarrow> 0 \<le> i)"
  using assms
proof (induction rest arbitrary: n a x prev i)
  case Nil
  then have "c_loop (walk_body h) (n, prev, i) = Inr (Some a, prev, i)"
    by (intro c_loop_Break) (auto simp: walk_body_def)
  then show ?case by (intro exI [of _ "[]"]) auto
next
  case (Cons y rest)
  obtain b z where y: "y = (b, z)" by fastforce
  with Cons.prems(1) have n: "n = Some a" "h a = Some \<lparr>pn_data = x, pn_next = Some b\<rparr>"
    and tail: "lseg h (Some b) ((b, z) # rest) None" by auto
  show ?case
  proof (cases "i = 0")
    case True
    with n have "c_loop (walk_body h) (n, prev, i) = Inr (Some a, prev, i)"
      by (intro c_loop_Break) (auto simp: walk_body_def)
    then show ?thesis using True by (intro exI [of _ "[]"]) auto
  next
    case False
    have "c_loop (walk_body h) (n, prev, i) = c_loop (walk_body h) (Some b, n, i - 1)"
      using n False Cons.prems(2) by (intro c_loop_Continue) (auto simp: walk_body_def)
    moreover obtain ms c w rest' i' where
      ih: "(b, z) # rest = ms @ (c, w) # rest'"
        "c_loop (walk_body h) (Some b, n, i - 1) = Inr (Some c, if ms = [] then n else Some (fst (last ms)), i')"
        "i' = i - 1 - int (length ms)" "i' = 0 \<or> rest' = []" "0 \<le> i - 1 \<longrightarrow> 0 \<le> i'" "i' = 0 \<longrightarrow> 0 \<le> i - 1"
      using Cons.IH [OF tail, of "i - 1" n] Cons.prems(2) by auto
    ultimately show ?thesis using n y False
      by (intro exI [of _ "(a, x) # ms"] exI [of _ c] exI [of _ w] exI [of _ rest'] exI [of _ i']) auto
  qed
qed

text \<open>An index that is not negative is never counted down past zero.\<close>

lemma walk_nat:
  assumes "lseg h n ((a, x) # rest) None"
  shows "\<exists>ms b y rest' i'. (a, x) # rest = ms @ (b, y) # rest' \<and>
     c_loop (walk_body h) (n, prev, int i) = Inr (Some b, if ms = [] then prev else Some (fst (last ms)), i') \<and>
     i' = int i - int (length ms) \<and> (i' = 0 \<or> rest' = []) \<and> 0 \<le> i'"
  using assms
proof (induction rest arbitrary: n a x prev i)
  case Nil
  then have "c_loop (walk_body h) (n, prev, int i) = Inr (Some a, prev, int i)"
    by (intro c_loop_Break) (auto simp: walk_body_def)
  then show ?case by (intro exI [of _ "[]"]) auto
next
  case (Cons y rest)
  obtain b z where y: "y = (b, z)" by fastforce
  with Cons.prems(1) have n: "n = Some a" "h a = Some \<lparr>pn_data = x, pn_next = Some b\<rparr>"
    and tail: "lseg h (Some b) ((b, z) # rest) None" by auto
  show ?case
  proof (cases i)
    case 0
    with n have "c_loop (walk_body h) (n, prev, int i) = Inr (Some a, prev, int i)"
      by (intro c_loop_Break) (auto simp: walk_body_def)
    then show ?thesis using 0 by (intro exI [of _ "[]"]) auto
  next
    case (Suc j)
    have "c_loop (walk_body h) (n, prev, int i) = c_loop (walk_body h) (Some b, n, int j)"
      using n Suc by (intro c_loop_Continue) (auto simp: walk_body_def)
    moreover obtain ms c w rest' i' where
      ih: "(b, z) # rest = ms @ (c, w) # rest'"
        "c_loop (walk_body h) (Some b, n, int j) = Inr (Some c, if ms = [] then n else Some (fst (last ms)), i')"
        "i' = int j - int (length ms)" "i' = 0 \<or> rest' = []" "0 \<le> i'"
      using Cons.IH [OF tail, of n j] by auto
    ultimately show ?thesis using n y Suc
      by (intro exI [of _ "(a, x) # ms"] exI [of _ c] exI [of _ w] exI [of _ rest'] exI [of _ i']) auto
  qed
qed

section \<open>The operations on lists\<close>

lemma lseg_split:
  "lseg h s (ms @ (b, y) # rs) q \<longleftrightarrow>
     lseg h s ms (Some b) \<and> (\<exists>r. h b = Some \<lparr>pn_data = y, pn_next = r\<rparr> \<and> lseg h r rs q)"
  by (auto simp: lseg_append)

lemma lseg_update:
  assumes "lseg h s (ms @ (b, y) # rs) q" and "distinct (map fst (ms @ (b, y) # rs))"
  shows "\<exists>r. h b = Some \<lparr>pn_data = y, pn_next = r\<rparr> \<and>
    lseg (h(b := Some \<lparr>pn_data = x, pn_next = r\<rparr>)) s (ms @ (b, x) # rs) q"
  using assms by (auto simp: lseg_split lseg_upd)

lemma lseg_insert:
  assumes "lseg h s (ms @ (b, y) # rs) q" and "distinct (map fst (ms @ (b, y) # rs))"
    and "a \<notin> fst ` set (ms @ (b, y) # rs)"
  shows "\<exists>r. h b = Some \<lparr>pn_data = y, pn_next = r\<rparr> \<and>
    (rs = [] \<longrightarrow> r = q) \<and> (rs \<noteq> [] \<longrightarrow> r = Some (fst (hd rs))) \<and>
    lseg (h(a := Some \<lparr>pn_data = x, pn_next = r\<rparr>, b := Some \<lparr>pn_data = y, pn_next = Some a\<rparr>)) s
      (ms @ (b, y) # (a, x) # rs) q"
proof -
  from assms(1) obtain r where r: "lseg h s ms (Some b)" "h b = Some \<lparr>pn_data = y, pn_next = r\<rparr>" "lseg h r rs q"
    by (auto simp: lseg_split)
  have "(rs = [] \<longrightarrow> r = q) \<and> (rs \<noteq> [] \<longrightarrow> r = Some (fst (hd rs)))" using r(3) by (cases rs) auto
  moreover have "a \<notin> fst ` set ms" "a \<notin> fst ` set rs" "b \<notin> fst ` set ms" "b \<notin> fst ` set rs" "a \<noteq> b"
    using assms(2,3) by auto
  ultimately show ?thesis using r by (simp add: lseg_split lseg_upd)
qed

lemma lseg_delete:
  assumes "lseg h s (ms @ (p, w) # (b, y) # rs) q" and "distinct (map fst (ms @ (p, w) # (b, y) # rs))"
  shows "\<exists>r. h b = Some \<lparr>pn_data = y, pn_next = r\<rparr> \<and> h p = Some \<lparr>pn_data = w, pn_next = Some b\<rparr> \<and>
    lseg (h(p := Some \<lparr>pn_data = w, pn_next = r\<rparr>, b := None)) s (ms @ (p, w) # rs) q"
  using assms by (auto simp: lseg_split lseg_upd)

lemma pl_rep_head: "pl_rep l ns \<Longrightarrow> pl_head l = None \<longleftrightarrow> ns = []"
  by (cases ns) (auto simp: pl_rep_def)

lemma pl_list_head: "pl_list l xs \<Longrightarrow> pl_head l = None \<longleftrightarrow> xs = []"
  by (auto simp: pl_list_def pl_rep_head)

lemma pl_list_empty: "pl_list l [] \<longleftrightarrow> pl_nodes l = Map.empty \<and> pl_head l = None"
  by (auto simp: pl_list_def pl_rep_def)

lemma walk_ok:
  assumes rep: "pl_rep l ns" and ne: "ns \<noteq> []" and i: "- (2 ^ 63) + int (length ns) \<le> i"
  obtains ms b y rest i' where "ns = ms @ (b, y) # rest"
    "walk l i = Inr (Some b, if ms = [] then None else Some (fst (last ms)), i')"
    "i' = i - int (length ms)" "i' = 0 \<or> rest = []" "i' = 0 \<longrightarrow> 0 \<le> i" "0 \<le> i \<longrightarrow> 0 \<le> i'"
    "i' = 0 \<longleftrightarrow> 0 \<le> i \<and> i < int (length ns)"
proof -
  obtain a x r where ns: "ns = (a, x) # r" using ne by (cases ns) auto
  have "lseg (pl_nodes l) (pl_head l) ((a, x) # r) None" using rep by (simp add: pl_rep_def ns)
  moreover have "- (2 ^ 63) + int (length r) \<le> i" using i by (simp add: ns)
  ultimately obtain ms b y rest i' where w: "(a, x) # r = ms @ (b, y) # rest"
    "c_loop (walk_body (pl_nodes l)) (pl_head l, None, i) =
       Inr (Some b, if ms = [] then None else Some (fst (last ms)), i')"
    "i' = i - int (length ms)" "i' = 0 \<or> rest = []" "0 \<le> i \<longrightarrow> 0 \<le> i'" "i' = 0 \<longrightarrow> 0 \<le> i"
    using walk_loop [of "pl_nodes l" "pl_head l" a x r i None] by blast
  have len: "length ns = Suc (length ms + length rest)" using w(1) ns by simp
  have "i' = 0 \<longleftrightarrow> 0 \<le> i \<and> i < int (length ns)" using w(3-6) len by auto
  with w that ns show ?thesis unfolding walk_def by metis
qed

definition list_insert :: "'a list \<Rightarrow> int \<Rightarrow> 'a \<Rightarrow> 'a list" where
  "list_insert xs i x =
     (if 0 \<le> i \<and> i < int (length xs) then take (nat i) xs @ x # drop (nat i) xs else xs @ [x])"

lemma ptrlist_insert_ok:
  assumes "pl_list l xs" and new: "new_ok new" and i: "- (2 ^ 63) + int (length xs) \<le> i"
  shows "\<exists>l'. ptrlist_insert new (Some l) i (Some x) = Inr (new (dom (pl_nodes l)) \<noteq> None, Some l') \<and>
    pl_list l' (if new (dom (pl_nodes l)) = None then xs else list_insert xs i x)"
proof (cases "new (dom (pl_nodes l))")
  case None
  with assms(1) show ?thesis by (auto simp: ptrlist_insert_def)
next
  case (Some a)
  from assms(1) obtain ns where rep: "pl_rep l ns" and xs: "xs = map snd ns" by (auto simp: pl_list_def)
  have dom: "dom (pl_nodes l) = fst ` set ns" and dist: "distinct (map fst ns)"
    and seg: "lseg (pl_nodes l) (pl_head l) ns None" using rep by (auto simp: pl_rep_def)
  have fresh: "a \<notin> fst ` set ns" using new Some dom unfolding new_ok_def by (metis finite_imageI finite_set)
  show ?thesis
  proof (cases "ns = []")
    case True
    then have "pl_head l = None" "dom (pl_nodes l) = {}" using rep dom by (auto simp: pl_rep_head)
    then show ?thesis using Some xs True
      by (auto simp: ptrlist_insert_def pl_list_def pl_rep_def list_insert_def intro!: exI [of _ "[(a, x)]"])
  next
    case False
    have len: "length ns = length xs" by (simp add: xs)
    have h: "pl_head l \<noteq> None" using False rep by (simp add: pl_rep_head)
    obtain ms b y rest i' where w: "ns = ms @ (b, y) # rest"
      "walk l i = Inr (Some b, if ms = [] then None else Some (fst (last ms)), i')"
      "i' = i - int (length ms)" "i' = 0 \<or> rest = []" "i' = 0 \<longleftrightarrow> 0 \<le> i \<and> i < int (length ns)"
      using walk_ok [OF rep False] i len by metis
    show ?thesis
    proof (cases "i' = 0")
      case zero: True
      have ins: "list_insert xs i x = map snd (ms @ (a, x) # (b, y) # rest)"
        using w zero by (auto simp: list_insert_def xs)
      show ?thesis
      proof (cases ms rule: rev_cases)
        case Nil
        let ?l = "l\<lparr>pl_nodes := (pl_nodes l)(a := Some \<lparr>pn_data = x, pn_next = Some b\<rparr>), pl_head := Some a\<rparr>"
        have "pl_rep ?l ((a, x) # (b, y) # rest)"
          using seg dist dom fresh w(1) Nil by (auto simp: pl_rep_def lseg_upd)
        then show ?thesis using Some h w(2) zero Nil ins by (auto simp: ptrlist_insert_def pl_list_def)
      next
        case (snoc ms0 pw)
        obtain p v where pw: "pw = (p, v)" by fastforce
        from lseg_insert [of "pl_nodes l" "pl_head l" ms0 p v "(b, y) # rest" None a x] seg dist fresh
        have n: "pl_nodes l p = Some \<lparr>pn_data = v, pn_next = Some b\<rparr>"
          "lseg ((pl_nodes l)(a := Some \<lparr>pn_data = x, pn_next = Some b\<rparr>, p := Some \<lparr>pn_data = v, pn_next = Some a\<rparr>))
             (pl_head l) (ms0 @ (p, v) # (a, x) # (b, y) # rest) None"
          using w(1) snoc pw by auto
        let ?l = "l\<lparr>pl_nodes := (pl_nodes l)(a := Some \<lparr>pn_data = x, pn_next = Some b\<rparr>,
           p := Some \<lparr>pn_data = v, pn_next = Some a\<rparr>)\<rparr>"
        have "pl_rep ?l (ms @ (a, x) # (b, y) # rest)"
          using n(2) dist dom fresh w(1) snoc pw by (auto simp: pl_rep_def)
        moreover have "ptrlist_insert new (Some l) i (Some x) = Inr (True, Some ?l)"
          using Some h w(1,2) zero snoc pw n(1) fresh by (auto simp: ptrlist_insert_def set_next_def)
        ultimately show ?thesis using Some ins by (auto simp: pl_list_def)
      qed
    next
      case False
      with w have ns: "ns = ms @ [(b, y)]" by simp
      have ins: "list_insert xs i x = map snd (ms @ [(b, y), (a, x)])"
        using w(5) False ns by (auto simp: list_insert_def xs)
      from lseg_insert [of "pl_nodes l" "pl_head l" ms b y "[]" None a x] seg dist fresh
      have n: "pl_nodes l b = Some \<lparr>pn_data = y, pn_next = None\<rparr>"
        "lseg ((pl_nodes l)(a := Some \<lparr>pn_data = x, pn_next = None\<rparr>, b := Some \<lparr>pn_data = y, pn_next = Some a\<rparr>))
             (pl_head l) (ms @ [(b, y), (a, x)]) None"
        using ns by auto
      have ab: "a \<noteq> b" using fresh ns by auto
      let ?l = "l\<lparr>pl_nodes := (pl_nodes l)(b := Some \<lparr>pn_data = y, pn_next = Some a\<rparr>,
           a := Some \<lparr>pn_data = x, pn_next = None\<rparr>)\<rparr>"
      have "pl_rep ?l (ms @ [(b, y), (a, x)])"
        using n(2) dist dom fresh ns ab by (auto simp: pl_rep_def fun_upd_twist)
      moreover have "ptrlist_insert new (Some l) i (Some x) = Inr (True, Some ?l)"
        using Some h w(2) False n(1) by (auto simp: ptrlist_insert_def set_next_def)
      ultimately show ?thesis using Some ins by (auto simp: pl_list_def)
    qed
  qed
qed

lemma walk_index:
  assumes rep: "pl_rep l ns" and ne: "ns \<noteq> []"
  shows "if i < length ns
    then \<exists>b y. ns ! i = (b, y) \<and> ns = take i ns @ (b, y) # drop (Suc i) ns \<and>
      walk l (int i) = Inr (Some b, if i = 0 then None else Some (fst (ns ! (i - 1))), 0)
    else \<exists>n prev i'. walk l (int i) = Inr (n, prev, i') \<and> 0 < i'"
proof -
  obtain a x r where ns: "ns = (a, x) # r" using ne by (cases ns) auto
  have seg: "lseg (pl_nodes l) (pl_head l) ((a, x) # r) None" using rep by (simp add: pl_rep_def ns)
  have small: "(a, x) # r = ns" by (simp add: ns)
  have loop: "\<exists>ms b y rest i'. ns = ms @ (b, y) # rest \<and>
     walk l (int i) = Inr (Some b, if ms = [] then None else Some (fst (last ms)), i') \<and>
     i' = int i - int (length ms) \<and> (i' = 0 \<or> rest = []) \<and> 0 \<le> i'"
    using walk_nat [OF seg, of None i] unfolding walk_def small by simp
  then obtain ms b y rest i' where w: "ns = ms @ (b, y) # rest"
    "walk l (int i) = Inr (Some b, if ms = [] then None else Some (fst (last ms)), i')"
    "i' = int i - int (length ms)" "i' = 0 \<or> rest = []" "0 \<le> i'" by blast
  show ?thesis
  proof (cases "i < length ns")
    case True
    then have i: "i = length ms" using w by auto
    have "ms \<noteq> [] \<longrightarrow> last ms = ns ! (i - 1)" using w(1) i by (auto simp: last_conv_nth nth_append)
    then show ?thesis using w i True by (auto simp: nth_append)
  next
    case False
    with w show ?thesis by auto
  qed
qed

lemma ptrlist_get_ok:
  assumes "pl_list l xs"
  shows "ptrlist_get (Some l) i = Inr (if i < length xs then Some (xs ! i) else None)"
proof -
  from assms obtain ns where rep: "pl_rep l ns" and xs: "xs = map snd ns" by (auto simp: pl_list_def)
  show ?thesis
  proof (cases "ns = []")
    case True
    with rep xs show ?thesis by (simp add: ptrlist_get_def pl_rep_head)
  next
    case False
    have h: "pl_head l \<noteq> None" using False rep by (simp add: pl_rep_head)
    show ?thesis
    proof (cases "i < length ns")
      case True
      with walk_index [OF rep False, of i] obtain b y where w: "ns ! i = (b, y)" "ns = take i ns @ (b, y) # drop (Suc i) ns"
        "walk l (int i) = Inr (Some b, if i = 0 then None else Some (fst (ns ! (i - 1))), 0)" by auto
      have "lseg (pl_nodes l) (pl_head l) (take i ns @ (b, y) # drop (Suc i) ns) None"
        using rep w(2) by (simp add: pl_rep_def)
      then obtain r where "pl_nodes l b = Some \<lparr>pn_data = y, pn_next = r\<rparr>" by (auto simp: lseg_split)
      with h w(1,3) True xs show ?thesis by (auto simp: ptrlist_get_def)
    next
      case False
      with walk_index [OF rep \<open>ns \<noteq> []\<close>, of i] h xs show ?thesis by (auto simp: ptrlist_get_def)
    qed
  qed
qed

lemma ptrlist_replace_ok:
  assumes "pl_list l xs"
  shows "\<exists>l'. ptrlist_replace (Some l) i (Some x) = Inr (i < length xs, Some l') \<and>
    pl_list l' (if i < length xs then xs[i := x] else xs)"
proof -
  from assms obtain ns where rep: "pl_rep l ns" and xs: "xs = map snd ns" by (auto simp: pl_list_def)
  show ?thesis
  proof (cases "ns = []")
    case True
    with rep xs assms show ?thesis by (simp add: ptrlist_replace_def pl_rep_head)
  next
    case ne: False
    have h: "pl_head l \<noteq> None" using ne rep by (simp add: pl_rep_head)
    show ?thesis
    proof (cases "i < length ns")
      case True
      with walk_index [OF rep ne, of i] obtain b y where w: "ns = take i ns @ (b, y) # drop (Suc i) ns"
        "walk l (int i) = Inr (Some b, if i = 0 then None else Some (fst (ns ! (i - 1))), 0)" by auto
      have seg: "lseg (pl_nodes l) (pl_head l) (take i ns @ (b, y) # drop (Suc i) ns) None"
        and dist: "distinct (map fst (take i ns @ (b, y) # drop (Suc i) ns))"
        using rep w(1) by (simp_all add: pl_rep_def)
      from lseg_update [OF seg dist, of x] obtain r where r: "pl_nodes l b = Some \<lparr>pn_data = y, pn_next = r\<rparr>"
        "lseg ((pl_nodes l)(b := Some \<lparr>pn_data = x, pn_next = r\<rparr>)) (pl_head l) (take i ns @ (b, x) # drop (Suc i) ns) None"
        by blast
      let ?l = "l\<lparr>pl_nodes := (pl_nodes l)(b := Some \<lparr>pn_data = x, pn_next = r\<rparr>)\<rparr>"
      have "dom (pl_nodes l) = fst ` set (take i ns @ (b, y) # drop (Suc i) ns)" using rep w(1) by (simp add: pl_rep_def)
      then have "pl_rep ?l (take i ns @ (b, x) # drop (Suc i) ns)" using r(2) dist by (auto simp: pl_rep_def)
      moreover have "map snd (take i ns @ (b, x) # drop (Suc i) ns) = xs[i := x]"
        using True xs by (simp add: upd_conv_take_nth_drop take_map drop_map)
      ultimately have "pl_list ?l (xs[i := x])" unfolding pl_list_def by metis
      then show ?thesis using h w(2) r(1) True xs by (auto simp: ptrlist_replace_def)
    next
      case False
      with walk_index [OF rep ne, of i] h xs assms show ?thesis by (auto simp: ptrlist_replace_def)
    qed
  qed
qed

lemma ptrlist_remove_ok:
  assumes "pl_list l xs"
  shows "\<exists>l'. ptrlist_remove (Some l) i = Inr (i < length xs, Some l') \<and>
    pl_list l' (take i xs @ drop (Suc i) xs)"
proof -
  from assms obtain ns where rep: "pl_rep l ns" and xs: "xs = map snd ns" by (auto simp: pl_list_def)
  show ?thesis
  proof (cases "ns = []")
    case True
    with rep xs assms show ?thesis by (simp add: ptrlist_remove_def pl_rep_head)
  next
    case ne: False
    have h: "pl_head l \<noteq> None" using ne rep by (simp add: pl_rep_head)
    show ?thesis
    proof (cases "i < length ns")
      case True
      with walk_index [OF rep ne, of i] obtain b y where w: "ns = take i ns @ (b, y) # drop (Suc i) ns"
        "walk l (int i) = Inr (Some b, if i = 0 then None else Some (fst (ns ! (i - 1))), 0)" by auto
      have dom: "dom (pl_nodes l) = fst ` set (take i ns @ (b, y) # drop (Suc i) ns)"
        and seg: "lseg (pl_nodes l) (pl_head l) (take i ns @ (b, y) # drop (Suc i) ns) None"
        and dist: "distinct (map fst (take i ns @ (b, y) # drop (Suc i) ns))"
        using rep w(1) by (simp_all add: pl_rep_def)
      have out: "map snd (take i ns @ drop (Suc i) ns) = take i xs @ drop (Suc i) xs"
        by (simp add: xs take_map drop_map)
      show ?thesis
      proof (cases i)
        case 0
        from seg 0 obtain r where r: "pl_head l = Some b" "pl_nodes l b = Some \<lparr>pn_data = y, pn_next = r\<rparr>"
          "lseg (pl_nodes l) r (drop (Suc i) ns) None" by auto
        let ?l = "l\<lparr>pl_head := r, pl_nodes := (pl_nodes l)(b := None)\<rparr>"
        have "pl_rep ?l (take i ns @ drop (Suc i) ns)"
          using r dom dist 0 by (auto simp: pl_rep_def lseg_upd)
        then have "pl_list ?l (take i xs @ drop (Suc i) xs)" using out unfolding pl_list_def by metis
        then show ?thesis using w(2) r(1,2) 0 True xs by (auto simp: ptrlist_remove_def)
      next
        case (Suc j)
        obtain p v where p: "ns ! j = (p, v)" by fastforce
        have t: "take i ns = take j ns @ [(p, v)]" using Suc p True by (simp add: take_Suc_conv_app_nth)
        from lseg_delete [of "pl_nodes l" "pl_head l" "take j ns" p v b y "drop (Suc i) ns" None] seg dist
        obtain r where r: "pl_nodes l b = Some \<lparr>pn_data = y, pn_next = r\<rparr>"
          "pl_nodes l p = Some \<lparr>pn_data = v, pn_next = Some b\<rparr>"
          "lseg ((pl_nodes l)(p := Some \<lparr>pn_data = v, pn_next = r\<rparr>, b := None)) (pl_head l)
             (take i ns @ drop (Suc i) ns) None" unfolding t by auto
        let ?l = "l\<lparr>pl_nodes := (pl_nodes l)(p := Some \<lparr>pn_data = v, pn_next = r\<rparr>, b := None)\<rparr>"
        have "pl_rep ?l (take i ns @ drop (Suc i) ns)"
          using r(3) dom dist t by (auto simp: pl_rep_def)
        then have "pl_list ?l (take i xs @ drop (Suc i) xs)" using out unfolding pl_list_def by metis
        then show ?thesis using w(2) r(1,2) h Suc p True xs by (auto simp: ptrlist_remove_def set_next_def)
      qed
    next
      case False
      with walk_index [OF rep ne, of i] h xs assms show ?thesis by (auto simp: ptrlist_remove_def)
    qed
  qed
qed

text \<open>Inserting at the front needs no bound on the length.\<close>

lemma ptrlist_insert0_ok:
  assumes "pl_list l xs" and room: "room_for new n" "length xs < n"
  shows "\<exists>l'. ptrlist_insert new (Some l) 0 (Some x) = Inr (True, Some l') \<and> pl_list l' (x # xs)"
proof -
  from assms(1) obtain ns where rep: "pl_rep l ns" and xs: "xs = map snd ns" by (auto simp: pl_list_def)
  have dom: "dom (pl_nodes l) = fst ` set ns" and dist: "distinct (map fst ns)"
    and seg: "lseg (pl_nodes l) (pl_head l) ns None" using rep by (auto simp: pl_rep_def)
  have "card (dom (pl_nodes l)) = length xs"
    using dom dist xs by (metis distinct_card length_map set_map)
  then obtain a where a: "new (dom (pl_nodes l)) = Some a"
    using room dom unfolding room_for_def by (metis finite_imageI finite_set not_None_eq)
  have new: "new_ok new" using room by (simp add: room_for_def)
  have fresh: "a \<notin> fst ` set ns" using new a dom unfolding new_ok_def by (metis finite_imageI finite_set)
  let ?l = "l\<lparr>pl_nodes := (pl_nodes l)(a := Some \<lparr>pn_data = x, pn_next = pl_head l\<rparr>), pl_head := Some a\<rparr>"
  have "pl_rep ?l ((a, x) # ns)" using seg dist dom fresh by (auto simp: pl_rep_def lseg_upd)
  then have "pl_list ?l (x # xs)" unfolding pl_list_def xs by (intro exI [of _ "(a, x) # ns"]) simp
  moreover have "ptrlist_insert new (Some l) 0 (Some x) = Inr (True, Some ?l)"
  proof (cases ns)
    case Nil
    then have "pl_head l = None" using rep by (simp add: pl_rep_head)
    then show ?thesis using a by (simp add: ptrlist_insert_def)
  next
    case (Cons n r)
    obtain b y where n: "n = (b, y)" by fastforce
    with Cons seg obtain q where q: "pl_head l = Some b" "pl_nodes l b = Some \<lparr>pn_data = y, pn_next = q\<rparr>" by auto
    then have "walk l 0 = Inr (Some b, None, 0)"
      unfolding walk_def by (intro c_loop_Break) (simp add: walk_body_def)
    then show ?thesis using a q by (simp add: ptrlist_insert_def)
  qed
  ultimately show ?thesis by blast
qed

section \<open>Counting, searching, clearing and iterating\<close>

lemma count_loop:
  "lseg h (Some a) ((a, x) # rest) None \<Longrightarrow> c + length rest < size_max \<Longrightarrow>
   c_loop (count_body h) (Some a, c) = Inr (c + length rest)"
proof (induction rest arbitrary: a x c)
  case Nil
  then show ?case by (intro trans [OF c_loop_Break]) (auto simp: count_body_def)
next
  case (Cons y rest)
  obtain b z where y: "y = (b, z)" by fastforce
  then have "c_loop (count_body h) (Some a, c) = c_loop (count_body h) (Some b, Suc c)"
    using Cons.prems by (intro c_loop_Continue) (auto simp: count_body_def sz_add_def)
  moreover have "lseg h (Some b) ((b, z) # rest) None" using Cons.prems(1) y by auto
  ultimately show ?case using Cons.IH [of b z "Suc c"] Cons.prems(2) by simp
qed

lemma ptrlist_count_ok:
  assumes "pl_list l xs" and "length xs < size_max"
  shows "ptrlist_count (Some l) = Inr (length xs)"
proof -
  from assms obtain ns where rep: "pl_rep l ns" and xs: "xs = map snd ns" by (auto simp: pl_list_def)
  show ?thesis
  proof (cases ns)
    case Nil
    with rep xs show ?thesis by (simp add: ptrlist_count_def pl_rep_head)
  next
    case (Cons n r)
    obtain a x where n: "n = (a, x)" by fastforce
    have "pl_head l = Some a" using rep Cons n by (simp add: pl_rep_def)
    with count_loop [of "pl_nodes l" a x r 1] rep Cons n xs assms(2) show ?thesis
      by (simp add: ptrlist_count_def pl_rep_def)
  qed
qed

text \<open>The index of the first element that passes the test, or \<open>-1\<close>.\<close>

definition list_find :: "('a \<Rightarrow> bool) \<Rightarrow> 'a list \<Rightarrow> int" where
  "list_find P xs = (if \<exists>x\<in>set xs. P x then int (length (takeWhile (\<lambda>x. \<not> P x) xs)) else - 1)"

lemma list_find_simps [simp]:
  "list_find P [] = - 1"
  "list_find P (x # xs) = (if P x then 0 else if list_find P xs = - 1 then - 1 else list_find P xs + 1)"
  by (auto simp: list_find_def)

lemma find_loop:
  "lseg h p ns None \<Longrightarrow> c_loop (find_body h P) (p, c) =
     Inr (if list_find P (map snd ns) = - 1 then - 1 else c + list_find P (map snd ns))"
proof (induction ns arbitrary: p c)
  case Nil
  then show ?case by (intro trans [OF c_loop_Break]) (auto simp: find_body_def)
next
  case (Cons y ns)
  obtain a x where y: "y = (a, x)" by fastforce
  with Cons.prems obtain r where r: "p = Some a" "h a = Some \<lparr>pn_data = x, pn_next = r\<rparr>" "lseg h r ns None" by auto
  show ?case
  proof (cases "P x")
    case True
    then show ?thesis using r y by (intro trans [OF c_loop_Break]) (auto simp: find_body_def)
  next
    case False
    then have "c_loop (find_body h P) (p, c) = c_loop (find_body h P) (r, c + 1)"
      using r by (intro c_loop_Continue) (auto simp: find_body_def)
    with Cons.IH [OF r(3), of "c + 1"] False y show ?thesis by (auto simp: list_find_def)
  qed
qed

lemma ptrlist_findfn_ok: "pl_list l xs \<Longrightarrow> ptrlist_findfn (Some l) P = Inr (list_find P xs)"
proof -
  assume "pl_list l xs"
  then obtain ns where rep: "pl_rep l ns" and xs: "xs = map snd ns" by (auto simp: pl_list_def)
  have "lseg (pl_nodes l) (pl_head l) ns None" using rep by (simp add: pl_rep_def)
  from find_loop [OF this, of P 0] show ?thesis
    using rep xs pl_rep_head [OF rep] by (auto simp: ptrlist_findfn_def)
qed

lemma ptrlist_findeqfn_ok:
  "pl_list l xs \<Longrightarrow> ptrlist_findeqfn (Some l) eqfn k = Inr (list_find (\<lambda>d. eqfn d k) xs)"
  by (simp add: ptrlist_findeqfn_def ptrlist_findfn_ok)

lemma list_find_hit:
  assumes "list_find P xs \<noteq> - 1"
  obtains j where "list_find P xs = int j" "j < length xs" "P (xs ! j)" "\<forall>i<j. \<not> P (xs ! i)"
proof -
  let ?j = "length (takeWhile (\<lambda>x. \<not> P x) xs)"
  have ex: "\<exists>x\<in>set xs. P x" using assms by (auto simp: list_find_def split: if_splits)
  then have j: "?j < length xs" by (metis (full_types) length_takeWhile_le linorder_not_less order_antisym_conv takeWhile_eq_all_conv
      takeWhile_eq_take take_all)
  moreover from nth_length_takeWhile [OF j] have "P (xs ! ?j)" by simp
  moreover have "\<forall>i<?j. \<not> P (xs ! i)" by (metis nth_mem set_takeWhileD takeWhile_nth)
  ultimately show ?thesis using that [of ?j] ex by (auto simp: list_find_def)
qed

lemma list_find_miss: "list_find P xs = - 1 \<longleftrightarrow> (\<forall>x\<in>set xs. \<not> P x)"
  by (auto simp: list_find_def)

lemma clear_loop:
  "lseg h p ns None \<Longrightarrow> distinct (map fst ns) \<Longrightarrow>
   c_loop clear_body (h, p) = Inr (\<lambda>a. if a \<in> fst ` set ns then None else h a)"
proof (induction ns arbitrary: h p)
  case Nil
  then show ?case by (intro trans [OF c_loop_Break]) (auto simp: clear_body_def)
next
  case (Cons y ns)
  obtain a x where y: "y = (a, x)" by fastforce
  with Cons.prems obtain r where r: "p = Some a" "h a = Some \<lparr>pn_data = x, pn_next = r\<rparr>" "lseg h r ns None" by auto
  have fresh: "a \<notin> fst ` set ns" using Cons.prems(2) y by auto
  have step: "c_loop clear_body (h, p) = c_loop clear_body (h(a := None), r)"
    using r by (intro c_loop_Continue) (auto simp: clear_body_def)
  have seg: "lseg (h(a := None)) r ns None" using r(3) fresh by (simp add: lseg_upd)
  have dist: "distinct (map fst ns)" using Cons.prems(2) by simp
  have left: "(\<lambda>b. if b \<in> fst ` set ns then None else (h(a := None)) b) =
      (\<lambda>b. if b \<in> fst ` set (y # ns) then None else h b)"
    using y by (auto simp: fun_eq_iff)
  show ?case using step Cons.IH [OF seg dist] unfolding left by (rule trans)
qed

lemma ptrlist_clear_ok:
  assumes "pl_list l xs"
  shows "ptrlist_clear (Some l) = Inr (Some (l\<lparr>pl_nodes := Map.empty, pl_head := None\<rparr>))"
proof -
  from assms obtain ns where rep: "pl_rep l ns" by (auto simp: pl_list_def)
  then have "c_loop clear_body (pl_nodes l, pl_head l) = Inr (\<lambda>a. if a \<in> fst ` set ns then None else pl_nodes l a)"
    by (intro clear_loop) (simp_all add: pl_rep_def)
  moreover have "(\<lambda>a. if a \<in> fst ` set ns then None else pl_nodes l a) = Map.empty"
    using rep by (auto simp: pl_rep_def fun_eq_iff domIff)
  ultimately show ?thesis by (simp add: ptrlist_clear_def)
qed

lemma ptrlist_dispose_ok: "pl_list l xs \<Longrightarrow> ptrlist_dispose (Some l) = Inr ()"
  by (simp add: ptrlist_dispose_def ptrlist_clear_ok)

lemma ptrlist_init_ok: "alloc sizeof_ptrlist \<Longrightarrow> \<exists>l. ptrlist_init alloc = Inr l \<and> pl_list l [] \<and> pl_iter l = None"
  by (simp add: ptrlist_init_def pl_list_empty)

text \<open>The results of \<open>n\<close> further calls of \<open>ptrlist_next\<close>.\<close>

fun next_times :: "nat \<Rightarrow> 'a ptrlist option \<Rightarrow> 'a option list res" where
  "next_times 0 h = Inr []"
| "next_times (Suc n) h =
     bind_res (ptrlist_next h) (\<lambda>r. bind_res (next_times n (snd r)) (\<lambda>xs. Inr (fst r # xs)))"

lemma next_times_ok:
  "pl_rep l (ms @ (a, x) # rest) \<Longrightarrow> pl_iter l = Some a \<Longrightarrow>
   next_times (Suc (length rest)) (Some l) = Inr (map Some (map snd rest) @ [None])"
proof (induction rest arbitrary: l ms a x)
  case Nil
  then have "pl_nodes l a = Some \<lparr>pn_data = x, pn_next = None\<rparr>" by (auto simp: pl_rep_def lseg_split)
  with Nil show ?case by (simp add: ptrlist_next_def)
next
  case (Cons y rest)
  obtain b z where y: "y = (b, z)" by fastforce
  with Cons.prems(1) obtain r where n: "pl_nodes l a = Some \<lparr>pn_data = x, pn_next = Some b\<rparr>"
    "pl_nodes l b = Some \<lparr>pn_data = z, pn_next = r\<rparr>" by (auto simp: pl_rep_def lseg_split)
  let ?l = "l\<lparr>pl_iter := Some b\<rparr>"
  have "ptrlist_next (Some l) = Inr (Some z, Some ?l)" using n Cons.prems(2) by (simp add: ptrlist_next_def)
  moreover have "pl_rep ?l ((ms @ [(a, x)]) @ (b, z) # rest)" using Cons.prems(1) y by (simp add: pl_rep_def)
  ultimately show ?case using Cons.IH [of ?l "ms @ [(a, x)]" b z] y by simp
qed

section \<open>Properties\<close>

text \<open>The allocator that hands out the address above all those in use, and a list of three nodes.\<close>

definition new_above :: "nat set \<Rightarrow> nat option" where
  "new_above A = Some (Suc (Max (insert 0 A)))"

lemma new_above_ok: "new_ok new_above"
proof -
  have "Suc (Max (insert 0 A)) \<notin> A" if "finite A" for A
  proof
    assume "Suc (Max (insert 0 A)) \<in> A"
    with that have "Suc (Max (insert 0 A)) \<le> Max (insert 0 A)" by (intro Max_ge) auto
    then show False by simp
  qed
  then show ?thesis by (simp add: new_ok_def new_above_def)
qed

definition demo_list :: "nat ptrlist" where
  "demo_list = \<lparr>pl_nodes = [4 \<mapsto> \<lparr>pn_data = 10, pn_next = Some 2\<rparr>, 2 \<mapsto> \<lparr>pn_data = 20, pn_next = Some 7\<rparr>,
     7 \<mapsto> \<lparr>pn_data = 30, pn_next = None\<rparr>], pl_head = Some 4, pl_iter = Some 2\<rparr>"

lemma demo_list_rep: "pl_rep demo_list [(4, 10), (2, 20), (7, 30)]"
  by (auto simp: pl_rep_def demo_list_def)

lemma demo_list_list: "pl_list demo_list [10, 20, 30]"
  using demo_list_rep by (auto simp: pl_list_def intro!: exI [of _ "[(4, 10), (2, 20), (7, 30)]"])

text \<open>
  C9: \<open>ptrlist_insert\<close> on a well-formed list returns; unless memory is exhausted it inserts before
  the element of the given index, and appends for every index outside the list, the negative
  ones included; the pointers it leaves form a well-formed list again, without a lost node.
\<close>

theorem ptrlist_insert_correct:
  assumes "pl_list l xs" and "new_ok new" and "- (2 ^ 63) + int (length xs) \<le> i"
  shows "\<exists>l'. ptrlist_insert new (Some l) i (Some x) = Inr (new (dom (pl_nodes l)) \<noteq> None, Some l') \<and>
    pl_list l' (if new (dom (pl_nodes l)) = None then xs else list_insert xs i x)"
  using assms by (rule ptrlist_insert_ok)

theorem ptrlist_insert_correct_witness:
  "\<exists>l'. ptrlist_insert new_above (Some demo_list) 1 (Some 15) = Inr (True, Some l') \<and>
     pl_list l' [10, 15, 20, 30]"
  using ptrlist_insert_correct [OF demo_list_list new_above_ok, of 1 15]
  by (simp add: new_above_def list_insert_def)

text \<open>
  C10: \<open>ptrlist_remove\<close>, \<open>ptrlist_replace\<close> and \<open>ptrlist_get\<close> on a well-formed list work on the element of
  the given index and leave all others in place; outside the list they report failure and change
  nothing. Removing frees exactly the node taken out.
\<close>

theorem ptrlist_access_correct:
  assumes "pl_list l xs"
  shows "ptrlist_get (Some l) i = Inr (if i < length xs then Some (xs ! i) else None) \<and>
    (\<exists>l'. ptrlist_replace (Some l) i (Some x) = Inr (i < length xs, Some l') \<and>
       pl_list l' (if i < length xs then xs[i := x] else xs)) \<and>
    (\<exists>l'. ptrlist_remove (Some l) i = Inr (i < length xs, Some l') \<and> pl_list l' (take i xs @ drop (Suc i) xs))"
  by (intro conjI ptrlist_get_ok ptrlist_replace_ok ptrlist_remove_ok assms)

theorem ptrlist_access_correct_witness:
  "ptrlist_get (Some demo_list) 1 = Inr (Some 20) \<and>
   (\<exists>l'. ptrlist_replace (Some demo_list) 1 (Some 5) = Inr (True, Some l') \<and> pl_list l' [10, 5, 30]) \<and>
   (\<exists>l'. ptrlist_remove (Some demo_list) 1 = Inr (True, Some l') \<and> pl_list l' [10, 30])"
  using ptrlist_access_correct [OF demo_list_list, of 1 5] by (simp add: eval_nat_numeral)

text \<open>
  \<open>ptrlist_first\<close> followed by calls of \<open>ptrlist_next\<close> visits every element of a non-empty list once, in
  order, and then yields NULL; \<open>ptrlist_count\<close> is the number of elements visited.
\<close>

theorem ptrlist_iteration_complete:
  assumes "pl_list l xs" and "xs \<noteq> []" and "length xs < size_max"
  shows "bind_res (ptrlist_first (Some l)) (\<lambda>r.
      bind_res (ptrlist_count (snd r)) (\<lambda>n.
      bind_res (next_times n (snd r)) (\<lambda>ys. Inr (fst r # ys)))) = Inr (map Some xs @ [None])"
proof -
  from assms(1) obtain ns where ns: "pl_rep l ns" "xs = map snd ns" by (auto simp: pl_list_def)
  with assms(2) obtain n rest where "ns = n # rest" by (cases ns) auto
  then obtain a x where "ns = (a, x) # rest" by (cases n) auto
  with ns have rep: "pl_rep l ((a, x) # rest)" and xs: "xs = map snd ((a, x) # rest)" by simp_all
  then obtain r where n: "pl_head l = Some a" "pl_nodes l a = Some \<lparr>pn_data = x, pn_next = r\<rparr>"
    by (auto simp: pl_rep_def)
  let ?l = "l\<lparr>pl_iter := Some a\<rparr>"
  have rep': "pl_rep ?l ([] @ (a, x) # rest)" using rep by (simp add: pl_rep_def)
  then have "pl_list ?l xs" using xs by (auto simp: pl_list_def)
  from ptrlist_count_ok [OF this assms(3)] have "ptrlist_count (Some ?l) = Inr (Suc (length rest))" by (simp add: xs)
  moreover have "ptrlist_first (Some l) = Inr (Some x, Some ?l)" using n by (simp add: ptrlist_first_def)
  ultimately show ?thesis using next_times_ok [OF rep'] xs by simp
qed

theorem ptrlist_iteration_complete_witness:
  "bind_res (ptrlist_first (Some demo_list)) (\<lambda>r.
      bind_res (ptrlist_count (snd r)) (\<lambda>n.
      bind_res (next_times n (snd r)) (\<lambda>ys. Inr (fst r # ys)))) = Inr [Some 10, Some 20, Some 30, None]"
  using ptrlist_iteration_complete [OF demo_list_list] by (simp add: size_max_def)

text \<open>
  \<open>ptrlist_clear\<close> frees the nodes and leaves the iterator alone: on a list whose iterator had been
  used, the next call of \<open>ptrlist_next\<close> reads a freed node.
\<close>

theorem ptrlist_clear_dangling:
  assumes "pl_list l xs" and "pl_iter l = Some a" and "ptrlist_clear (Some l) = Inr l'"
  shows "ptrlist_count l' = Inr 0 \<and> ptrlist_next l' = Inl Dangling"
  using ptrlist_clear_ok [OF assms(1)] assms(2,3)
  by (auto simp: ptrlist_next_def ptrlist_count_def deref_def)

theorem ptrlist_clear_dangling_witness:
  "\<exists>l'. ptrlist_clear (Some demo_list) = Inr l' \<and> ptrlist_count l' = Inr 0 \<and> ptrlist_next l' = Inl Dangling"
proof -
  obtain l' where l': "ptrlist_clear (Some demo_list) = Inr l'" using ptrlist_clear_ok [OF demo_list_list] by blast
  with ptrlist_clear_dangling [OF demo_list_list _ l', of 2] show ?thesis by (simp add: demo_list_def)
qed

end
