(* ===== verification/StrList.thy ===== *)
theory StrList imports PtrList begin

text \<open>
  strlist.c: a list of strings, each a copy the list owns, on top of ptrlist. The elements of the
  pointer list are addresses of strings; \<open>sl_strs\<close> maps the addresses of the copies that are
  allocated and not freed to their text. \<open>news\<close> is \<open>malloc\<close> for the copies, \<open>new\<close> for the nodes.
\<close>

section \<open>The code\<close>

record slist =
  sl_list :: "nat ptrlist option"
  sl_strs :: "nat \<Rightarrow> string option"

text \<open>\<open>str_dup\<close> of common.c; \<open>free\<close> of NULL does nothing, of a string not allocated is a fault.\<close>

definition str_dup ::
  "(nat set \<Rightarrow> nat option) \<Rightarrow> (nat \<Rightarrow> string option) \<Rightarrow> string \<Rightarrow> nat option \<times> (nat \<Rightarrow> string option)" where
  "str_dup news st s =
     (case news (dom st) of
        None \<Rightarrow> (None, st)
      | Some a \<Rightarrow> (Some a, st(a := Some s)))"

definition str_free :: "(nat \<Rightarrow> string option) \<Rightarrow> nat option \<Rightarrow> (nat \<Rightarrow> string option) res" where
  "str_free st d =
     (case d of
        None \<Rightarrow> Inr st
      | Some a \<Rightarrow> if st a = None then Inl Dangling else Inr (st(a := None)))"

text \<open>A \<open>size_t\<close> passed where \<open>ssize_t\<close> is expected.\<close>

definition to_ssize :: "nat \<Rightarrow> int" where
  "to_ssize i = (if i < 2 ^ 63 then int i else int i - 2 ^ 64)"

definition slist_init :: "(nat \<Rightarrow> bool) \<Rightarrow> slist res" where
  "slist_init alloc = bind_res (ptrlist_init alloc) (\<lambda>l. Inr \<lparr>sl_list = Some l, sl_strs = Map.empty\<rparr>)"

definition slist_count :: "slist \<Rightarrow> nat res" where
  "slist_count s = ptrlist_count (sl_list s)"

definition slist_first :: "slist \<Rightarrow> (nat option \<times> slist) res" where
  "slist_first s = bind_res (ptrlist_first (sl_list s)) (\<lambda>r. Inr (fst r, s\<lparr>sl_list := snd r\<rparr>))"

definition slist_next :: "slist \<Rightarrow> (nat option \<times> slist) res" where
  "slist_next s = bind_res (ptrlist_next (sl_list s)) (\<lambda>r. Inr (fst r, s\<lparr>sl_list := snd r\<rparr>))"

definition sclear_body :: "nat option \<times> slist \<Rightarrow> (nat option \<times> slist, slist) step res" where
  "sclear_body = (\<lambda>(d, s).
     bind_res (str_free (sl_strs s) d) (\<lambda>st.
     bind_res (slist_next (s\<lparr>sl_strs := st\<rparr>)) (\<lambda>r.
     case fst r of None \<Rightarrow> Inr (Break (snd r)) | Some a \<Rightarrow> Inr (Continue r))))"

definition slist_clear :: "slist \<Rightarrow> slist res" where
  "slist_clear s =
     bind_res (slist_first s) (\<lambda>r.
     bind_res (c_loop sclear_body r) (\<lambda>s'.
     bind_res (ptrlist_clear (sl_list s')) (\<lambda>l. Inr (s'\<lparr>sl_list := l\<rparr>))))"

text \<open>\<open>slist_dispose\<close> frees the list, not the strings in it.\<close>

definition slist_dispose :: "slist \<Rightarrow> (nat \<Rightarrow> string option) res" where
  "slist_dispose s = bind_res (ptrlist_dispose (sl_list s)) (\<lambda>_. Inr (sl_strs s))"

definition slist_insert ::
  "(nat set \<Rightarrow> nat option) \<Rightarrow> (nat set \<Rightarrow> nat option) \<Rightarrow> slist \<Rightarrow> nat \<Rightarrow> string option \<Rightarrow> (bool \<times> slist) res" where
  "slist_insert new news s i data =
     (case data of
        None \<Rightarrow> Inr (False, s)
      | Some t \<Rightarrow>
          let (d, st) = str_dup news (sl_strs s) t in
          bind_res (ptrlist_insert new (sl_list s) (to_ssize i) d) (\<lambda>r.
          Inr (fst r, s\<lparr>sl_list := snd r, sl_strs := st\<rparr>)))"

definition slist_replace ::
  "(nat set \<Rightarrow> nat option) \<Rightarrow> slist \<Rightarrow> nat \<Rightarrow> string option \<Rightarrow> (bool \<times> slist) res" where
  "slist_replace news s i data =
     (case data of
        None \<Rightarrow> Inr (False, s)
      | Some t \<Rightarrow>
          bind_res (ptrlist_get (sl_list s) i) (\<lambda>d.
          bind_res (str_free (sl_strs s) d) (\<lambda>st.
          let (d', st') = str_dup news st t in
          bind_res (ptrlist_replace (sl_list s) i d') (\<lambda>r.
          Inr (fst r, s\<lparr>sl_list := snd r, sl_strs := st'\<rparr>)))))"

definition slist_remove :: "slist \<Rightarrow> nat \<Rightarrow> (bool \<times> slist) res" where
  "slist_remove s i =
     bind_res (ptrlist_get (sl_list s) i) (\<lambda>d.
     bind_res (str_free (sl_strs s) d) (\<lambda>st.
     bind_res (ptrlist_remove (sl_list s) i) (\<lambda>r.
     Inr (fst r, s\<lparr>sl_list := snd r, sl_strs := st\<rparr>))))"

definition slist_get :: "slist \<Rightarrow> nat \<Rightarrow> nat option res" where
  "slist_get s i = ptrlist_get (sl_list s) i"

text \<open>\<open>strcmp\<close> reads the text of both; a NULL or freed element cannot be read.\<close>

definition str_text :: "(nat \<Rightarrow> string option) \<Rightarrow> nat option \<Rightarrow> string res" where
  "str_text st d =
     (case d of
        None \<Rightarrow> Inl Null_Deref
      | Some a \<Rightarrow> (case st a of None \<Rightarrow> Inl Dangling | Some t \<Rightarrow> Inr t))"

definition findeq_body :: "slist \<Rightarrow> string \<Rightarrow> nat \<Rightarrow> nat \<Rightarrow> (nat, int) step res" where
  "findeq_body s needle cnt i =
     (if \<not> i < cnt then Inr (Break (- 1))
      else
        bind_res (slist_get s i) (\<lambda>c.
        bind_res (str_text (sl_strs s) c) (\<lambda>t.
        if t = needle then Inr (Break (to_ssize i)) else Inr (Continue (Suc i)))))"

definition slist_findeq :: "slist \<Rightarrow> string \<Rightarrow> int res" where
  "slist_findeq s needle =
     bind_res (slist_count s) (\<lambda>cnt. c_loop (findeq_body s needle cnt) 0)"

section \<open>The strings of a list\<close>

text \<open>
  Every element is the address of an allocated string, no two elements share one, and no copy is
  without an element.
\<close>

definition slist_rep :: "slist \<Rightarrow> nat list \<Rightarrow> bool" where
  "slist_rep s as \<longleftrightarrow>
     (\<exists>l. sl_list s = Some l \<and> pl_list l as) \<and> distinct as \<and> dom (sl_strs s) = set as \<and>
     length as < 2 ^ 63"

definition texts :: "slist \<Rightarrow> nat list \<Rightarrow> string list" where
  "texts s as = map (the \<circ> sl_strs s) as"

lemma slist_rep_text: "slist_rep s as \<Longrightarrow> i < length as \<Longrightarrow> str_text (sl_strs s) (Some (as ! i)) = Inr (texts s as ! i)"
proof -
  assume s: "slist_rep s as" "i < length as"
  then have "as ! i \<in> dom (sl_strs s)" by (simp add: slist_rep_def)
  with s(2) show ?thesis by (auto simp: str_text_def texts_def)
qed

lemma slist_count_ok: "slist_rep s as \<Longrightarrow> slist_count s = Inr (length as)"
  by (auto simp: slist_rep_def slist_count_def size_max_def intro!: ptrlist_count_ok)

lemma slist_get_ok: "slist_rep s as \<Longrightarrow> slist_get s i = Inr (if i < length as then Some (as ! i) else None)"
  by (auto simp: slist_rep_def slist_get_def ptrlist_get_ok)

lemma findeq_loop:
  assumes "slist_rep s as" and "i \<le> length as"
  shows "c_loop (findeq_body s t (length as)) i =
     Inr (if list_find (\<lambda>x. x = t) (drop i (texts s as)) = - 1 then - 1
          else int i + list_find (\<lambda>x. x = t) (drop i (texts s as)))"
  using assms(2)
proof (induction "length as - i" arbitrary: i)
  case 0
  then show ?case
    by (intro trans [OF c_loop_Break]) (auto simp: findeq_body_def texts_def)
next
  case (Suc k)
  then have i: "i < length as" by simp
  then have d: "drop i (texts s as) = texts s as ! i # drop (Suc i) (texts s as)"
    using Cons_nth_drop_Suc [of i "texts s as"] by (simp add: texts_def)
  have small: "to_ssize i = int i" using i assms(1) by (simp add: to_ssize_def slist_rep_def)
  show ?case
  proof (cases "texts s as ! i = t")
    case True
    then show ?thesis using i small slist_rep_text [OF assms(1) i]
      by (intro trans [OF c_loop_Break]) (auto simp: findeq_body_def slist_get_ok [OF assms(1)] d)
  next
    case False
    then have "c_loop (findeq_body s t (length as)) i = c_loop (findeq_body s t (length as)) (Suc i)"
      using i slist_rep_text [OF assms(1) i]
      by (intro c_loop_Continue) (auto simp: findeq_body_def slist_get_ok [OF assms(1)])
    with Suc.hyps(1) [of "Suc i"] Suc.hyps(2) i False d show ?thesis by (auto simp: list_find_def)
  qed
qed

lemma slist_findeq_ok: "slist_rep s as \<Longrightarrow> slist_findeq s t = Inr (list_find (\<lambda>x. x = t) (texts s as))"
  using findeq_loop [of s as 0 t] by (auto simp: slist_findeq_def slist_count_ok)

section \<open>Inserting, removing and clearing\<close>

lemma set_list_insert: "set (list_insert xs i x) = insert x (set xs)"
proof -
  have "set (take n xs) \<union> set (drop n xs) = set xs" for n
    by (metis append_take_drop_id set_append)
  then show ?thesis by (auto simp: list_insert_def)
qed

lemma distinct_list_insert: "distinct xs \<Longrightarrow> x \<notin> set xs \<Longrightarrow> distinct (list_insert xs i x)"
proof -
  assume d: "distinct xs" and x: "x \<notin> set xs"
  have "x \<notin> set (take n xs)" "x \<notin> set (drop n xs)" for n
    using x by (auto dest: in_set_takeD in_set_dropD)
  with d x show ?thesis by (auto simp: list_insert_def set_take_disj_set_drop_if_distinct)
qed

lemma length_list_insert [simp]: "length (list_insert xs i x) = Suc (length xs)"
  by (auto simp: list_insert_def)

lemma map_list_insert: "map f (list_insert xs i x) = list_insert (map f xs) i (f x)"
  by (simp add: list_insert_def take_map drop_map)

lemma texts_fresh: "a \<notin> set as \<Longrightarrow> map (the \<circ> st(a := v)) as = map (the \<circ> st) as"
  by auto

lemma slist_insert_ok:
  assumes rep: "slist_rep s as" and new: "new_ok new" and news: "new_ok news"
    and i: "i < 2 ^ 63" and len: "Suc (length as) < 2 ^ 63"
  shows "\<exists>b s'. slist_insert new news s i (Some t) = Inr (b, s') \<and>
     (b \<longrightarrow> (\<exists>as'. slist_rep s' as' \<and> texts s' as' = list_insert (texts s as) (int i) t)) \<and>
     (\<not> b \<longrightarrow> sl_list s' = sl_list s) \<and>
     ((\<forall>A. new A \<noteq> None \<and> news A \<noteq> None) \<longrightarrow> b)"
proof -
  from rep obtain l where l: "sl_list s = Some l" "pl_list l as" and dist: "distinct as"
    and dom: "dom (sl_strs s) = set as" by (auto simp: slist_rep_def)
  have idx: "to_ssize i = int i" using i by (simp add: to_ssize_def)
  show ?thesis
  proof (cases "news (dom (sl_strs s))")
    case None
    let ?s = "s\<lparr>sl_list := Some l, sl_strs := sl_strs s\<rparr>"
    have "slist_insert new news s i (Some t) = Inr (False, ?s)"
      using None l(1) by (simp add: slist_insert_def str_dup_def ptrlist_insert_def)
    moreover have "sl_list ?s = sl_list s" using l(1) by simp
    ultimately show ?thesis using None by blast
  next
    case (Some a)
    have fresh: "a \<notin> set as" using news Some dom unfolding new_ok_def by (metis finite_set)
    have "- (2 ^ 63) + int (length as) \<le> int i" using len by simp
    from ptrlist_insert_ok [OF l(2) new this, of a] obtain l' where
      l': "ptrlist_insert new (Some l) (int i) (Some a) = Inr (new (dom (pl_nodes l)) \<noteq> None, Some l')"
        "pl_list l' (if new (dom (pl_nodes l)) = None then as else list_insert as (int i) a)" by blast
    let ?s = "s\<lparr>sl_list := Some l', sl_strs := (sl_strs s)(a := Some t)\<rparr>"
    have res: "slist_insert new news s i (Some t) = Inr (new (dom (pl_nodes l)) \<noteq> None, ?s)"
      using Some l(1) l'(1) idx by (simp add: slist_insert_def str_dup_def)
    show ?thesis
    proof (cases "new (dom (pl_nodes l)) = None")
      case True
      then have "ptrlist_insert new (Some l) (int i) (Some a) = Inr (False, Some l)"
        by (simp add: ptrlist_insert_def)
      with l'(1) True have "l' = l" by simp
      then have "sl_list ?s = sl_list s" using l(1) by simp
      with res True show ?thesis by blast
    next
      case False
      have "slist_rep ?s (list_insert as (int i) a)"
        using l'(2) False dist dom fresh len
        by (simp add: slist_rep_def set_list_insert distinct_list_insert)
      moreover have "texts ?s (list_insert as (int i) a) = list_insert (texts s as) (int i) t"
        using fresh by (simp add: texts_def map_list_insert texts_fresh)
      ultimately show ?thesis using res False by blast
    qed
  qed
qed

lemma slist_remove_ok:
  assumes rep: "slist_rep s as"
  shows "\<exists>s'. slist_remove s i = Inr (i < length as, s') \<and> slist_rep s' (take i as @ drop (Suc i) as) \<and>
     texts s' (take i as @ drop (Suc i) as) = take i (texts s as) @ drop (Suc i) (texts s as)"
proof -
  from rep obtain l where l: "sl_list s = Some l" "pl_list l as" and dist: "distinct as"
    and dom: "dom (sl_strs s) = set as" and len: "length as < 2 ^ 63" by (auto simp: slist_rep_def)
  from ptrlist_remove_ok [OF l(2), of i] obtain l' where
    l': "ptrlist_remove (Some l) i = Inr (i < length as, Some l')" "pl_list l' (take i as @ drop (Suc i) as)" by blast
  have get: "ptrlist_get (Some l) i = Inr (if i < length as then Some (as ! i) else None)"
    by (rule ptrlist_get_ok [OF l(2)])
  show ?thesis
  proof (cases "i < length as")
    case True
    let ?rest = "take i as @ drop (Suc i) as"
    have as: "as = take i as @ as ! i # drop (Suc i) as" by (rule id_take_nth_drop [OF True])
    then have set: "set as = insert (as ! i) (set ?rest)" by (metis set_append list.simps(15) Un_insert_right)
    have d: "distinct ?rest" "as ! i \<notin> set ?rest"
    proof -
      from dist have "distinct (take i as @ as ! i # drop (Suc i) as)" using as by simp
      then show "distinct ?rest" "as ! i \<notin> set ?rest" by auto
    qed
    have "sl_strs s (as ! i) \<noteq> None" using dom True by (metis domIff nth_mem)
    then have "slist_remove s i = Inr (True, s\<lparr>sl_list := Some l', sl_strs := (sl_strs s)(as ! i := None)\<rparr>)"
      using get l l' True by (auto simp: slist_remove_def str_free_def)
    moreover have "slist_rep (s\<lparr>sl_list := Some l', sl_strs := (sl_strs s)(as ! i := None)\<rparr>) ?rest"
      using l'(2) d dom set len by (auto simp: slist_rep_def)
    moreover have "texts (s\<lparr>sl_list := Some l', sl_strs := (sl_strs s)(as ! i := None)\<rparr>) ?rest =
        take i (texts s as) @ drop (Suc i) (texts s as)"
    proof -
      have "as ! i \<notin> set (take i as)" "as ! i \<notin> set (drop (Suc i) as)" using d(2) by simp_all
      then show ?thesis by (auto simp: texts_def take_map drop_map)
    qed
    ultimately show ?thesis using True by auto
  next
    case False
    then have "slist_remove s i = Inr (False, s\<lparr>sl_list := Some l'\<rparr>)"
      using get l l' by (simp add: slist_remove_def str_free_def)
    moreover have "slist_rep (s\<lparr>sl_list := Some l'\<rparr>) as" using rep l'(2) False by (simp add: slist_rep_def)
    ultimately show ?thesis using False by (auto simp: texts_def)
  qed
qed

lemma sclear_loop:
  assumes "pl_rep l (ms @ (b, a) # rest)" and "pl_iter l = Some b" and "distinct (a # map snd rest)"
    and "\<forall>x\<in>set (a # map snd rest). st x \<noteq> None"
  shows "\<exists>l' st'. c_loop sclear_body (Some a, \<lparr>sl_list = Some l, sl_strs = st\<rparr>) =
       Inr \<lparr>sl_list = Some l', sl_strs = st'\<rparr> \<and>
     dom st' = dom st - set (a # map snd rest) \<and> pl_list l' (map snd (ms @ (b, a) # rest)) \<and> pl_iter l' \<noteq> None"
  using assms
proof (induction rest arbitrary: l ms b a st)
  case Nil
  then have n: "pl_nodes l b = Some \<lparr>pn_data = a, pn_next = None\<rparr>" by (auto simp: pl_rep_def lseg_split)
  have "pl_list l (map snd (ms @ [(b, a)]))" using Nil.prems(1) unfolding pl_list_def by blast
  then show ?case using Nil.prems n
    by (subst c_loop_Break) (auto simp: sclear_body_def str_free_def slist_next_def ptrlist_next_def)
next
  case (Cons y rest)
  obtain c d where y: "y = (c, d)" by fastforce
  with Cons.prems(1) obtain r where n: "pl_nodes l b = Some \<lparr>pn_data = a, pn_next = Some c\<rparr>"
    "pl_nodes l c = Some \<lparr>pn_data = d, pn_next = r\<rparr>" by (auto simp: pl_rep_def lseg_split)
  let ?l = "l\<lparr>pl_iter := Some c\<rparr>" and ?st = "st(a := None)"
  have step: "c_loop sclear_body (Some a, \<lparr>sl_list = Some l, sl_strs = st\<rparr>)
      = c_loop sclear_body (Some d, \<lparr>sl_list = Some ?l, sl_strs = ?st\<rparr>)"
    using n Cons.prems(2,4)
    by (intro c_loop_Continue) (auto simp: sclear_body_def str_free_def slist_next_def ptrlist_next_def)
  have "pl_rep ?l ((ms @ [(b, a)]) @ (c, d) # rest)" using Cons.prems(1) y by (simp add: pl_rep_def)
  moreover have "pl_iter ?l = Some c" by simp
  moreover have "distinct (d # map snd rest)" using Cons.prems(3) y by simp
  moreover have "\<forall>x\<in>set (d # map snd rest). ?st x \<noteq> None"
    using Cons.prems(3,4) y by (metis distinct.simps(2) fun_upd_apply list.set_intros(2) list.simps(9) snd_conv)
  ultimately obtain l' st' where ih:
    "c_loop sclear_body (Some d, \<lparr>sl_list = Some ?l, sl_strs = ?st\<rparr>) = Inr \<lparr>sl_list = Some l', sl_strs = st'\<rparr>"
    "dom st' = dom ?st - set (d # map snd rest)" "pl_list l' (map snd ((ms @ [(b, a)]) @ (c, d) # rest))"
    "pl_iter l' \<noteq> None" using Cons.IH [of ?l "ms @ [(b, a)]" c d ?st] by blast
  have "dom st' = dom st - set (a # map snd (y # rest))" using ih(2) y by auto
  moreover have "pl_list l' (map snd (ms @ (b, a) # y # rest))" using ih(3) y by simp
  ultimately show ?case using trans [OF step ih(1)] ih(4) by blast
qed

lemma slist_clear_ok:
  assumes rep: "slist_rep s as" and ne: "as \<noteq> []"
  shows "\<exists>s' l'. slist_clear s = Inr s' \<and> slist_rep s' [] \<and> sl_list s' = Some l' \<and> pl_iter l' \<noteq> None"
proof -
  from rep obtain l where l: "sl_list s = Some l" "pl_list l as" and dist: "distinct as"
    and dom: "dom (sl_strs s) = set as" by (auto simp: slist_rep_def)
  from l(2) obtain ns where ns: "pl_rep l ns" "as = map snd ns" by (auto simp: pl_list_def)
  with ne obtain n rest where "ns = n # rest" by (cases ns) auto
  then obtain b a where nb: "ns = (b, a) # rest" by (cases n) auto
  with ns(1) obtain r where n: "pl_head l = Some b" "pl_nodes l b = Some \<lparr>pn_data = a, pn_next = r\<rparr>"
    by (auto simp: pl_rep_def)
  let ?l = "l\<lparr>pl_iter := Some b\<rparr>"
  have first: "slist_first s = Inr (Some a, \<lparr>sl_list = Some ?l, sl_strs = sl_strs s\<rparr>)"
    using n l(1) by (cases s) (simp add: slist_first_def ptrlist_first_def)
  have "pl_rep ?l ([] @ (b, a) # rest)" using ns(1) nb by (simp add: pl_rep_def)
  moreover have "distinct (a # map snd rest)" using dist ns(2) nb by simp
  moreover have "\<forall>x\<in>set (a # map snd rest). sl_strs s x \<noteq> None" using dom ns(2) nb by (auto simp: domIff [symmetric])
  ultimately obtain l' st' where
    loop: "c_loop sclear_body (Some a, \<lparr>sl_list = Some ?l, sl_strs = sl_strs s\<rparr>) = Inr \<lparr>sl_list = Some l', sl_strs = st'\<rparr>"
      "dom st' = dom (sl_strs s) - set (a # map snd rest)" "pl_list l' (map snd ([] @ (b, a) # rest))" "pl_iter l' \<noteq> None"
    using sclear_loop [of ?l "[]" b a rest "sl_strs s"] by auto
  have "st' = Map.empty" using loop(2) dom ns(2) nb by auto
  then show ?thesis using first loop(1,4) ptrlist_clear_ok [OF loop(3)]
    by (simp add: slist_clear_def slist_rep_def pl_list_empty)
qed

section \<open>Properties\<close>

definition demo_slist :: slist where
  "demo_slist = \<lparr>sl_list = Some \<lparr>pl_nodes = [1 \<mapsto> \<lparr>pn_data = 11, pn_next = Some 2\<rparr>, 2 \<mapsto> \<lparr>pn_data = 12, pn_next = None\<rparr>],
     pl_head = Some 1, pl_iter = None\<rparr>, sl_strs = [11 \<mapsto> ''foo'', 12 \<mapsto> ''bar'']\<rparr>"

lemma demo_slist_rep: "slist_rep demo_slist [11, 12]"
  unfolding slist_rep_def
  by (auto simp: demo_slist_def pl_list_def pl_rep_def intro!: exI [of _ "[(1, 11), (2, 12)]"])



text \<open>
  \<open>slist_clear\<close> frees all strings and nodes of a non-empty list, but clearing the list a second
  time reads a freed node through the iterator the first one left behind.
\<close>

theorem slist_clear_twice:
  assumes "slist_rep s as" and "as \<noteq> []"
  shows "\<exists>s'. slist_clear s = Inr s' \<and> sl_strs s' = Map.empty \<and> slist_count s' = Inr 0 \<and>
    slist_clear s' = Inl Dangling"
proof -
  from slist_clear_ok [OF assms] obtain s' l' where s': "slist_clear s = Inr s'" "slist_rep s' []"
    "sl_list s' = Some l'" "pl_iter l' \<noteq> None" by blast
  then have e: "sl_strs s' = Map.empty" "pl_nodes l' = Map.empty" "pl_head l' = None"
    by (auto simp: slist_rep_def pl_list_empty)
  then have "slist_first s' = Inr (None, s')" using s'(3) by (cases s') (simp add: slist_first_def ptrlist_first_def)
  moreover have "sclear_body (None, s') = Inl Dangling"
    using e s'(3,4) by (auto simp: sclear_body_def str_free_def slist_next_def ptrlist_next_def deref_def)
  ultimately have "slist_clear s' = Inl Dangling" by (simp add: slist_clear_def c_loop_fault)
  then show ?thesis using s'(1) e slist_count_ok [OF s'(2)] by simp
qed

theorem slist_clear_twice_witness:
  "\<exists>s'. slist_clear demo_slist = Inr s' \<and> sl_strs s' = Map.empty \<and> slist_count s' = Inr 0 \<and>
    slist_clear s' = Inl Dangling"
  by (rule slist_clear_twice [OF demo_slist_rep]) simp

end
