(* ===== verification/HashMap.thy ===== *)
theory HashMap imports PtrList begin

text \<open>
  hashmap.c: a hash map with chaining. Every bucket is a pair of pointer lists, the keys and the
  values, which are kept in step by position. Hash, equality and key-copying functions are fields
  of the map, given by the caller: the locale \<open>hash_fns\<close> says what they have to satisfy, the locale
  \<open>heap_keys\<close> what a key-copying function has to do besides for \<open>hmap_del\<close>, which frees the copies,
  and the locale \<open>finite_map\<close> what the map then promises its clients.

  A key is a pointer; the model's keys \<open>'k\<close> are pointers together with what they point to. The
  blocks of the heap that key copies occupy are part of the state: \<open>h_copies\<close> is the set of the
  copies that were allocated for the map and not freed. It is no member of \<open>struct hmap\<close>. The
  key-copying function gets this set and yields the copy, or \<open>None\<close> for NULL, and the set
  afterwards; \<open>free\<close> of a pointer that is not in the set is a fault.
\<close>

section \<open>The code\<close>

record ('k, 'v) hmap =
  h_keyb :: "'k ptrlist option list"
  h_valb :: "'v ptrlist option list"
  h_bucketsz :: nat
  h_entries :: nat
  h_iterating :: bool
  h_buckiter :: "nat cell"
  h_listiter :: "nat cell"
  h_hfn :: "'k \<Rightarrow> nat"
  h_efn :: "'k \<Rightarrow> 'k \<Rightarrow> bool"
  h_keydupfn :: "'k set \<Rightarrow> 'k \<Rightarrow> 'k option \<times> 'k set"
  h_copies :: "'k set"

definition sizeof_hmap :: nat where
  "sizeof_hmap = 80"

definition bkt_get :: "'a list \<Rightarrow> nat \<Rightarrow> 'a res" where
  "bkt_get xs i = (if i < length xs then Inr (xs ! i) else Inl Out_Of_Bounds)"

definition hmap_init ::
  "(nat \<Rightarrow> bool) \<Rightarrow> nat \<Rightarrow> ('k \<Rightarrow> nat) \<Rightarrow> ('k \<Rightarrow> 'k \<Rightarrow> bool) \<Rightarrow>
   ('k set \<Rightarrow> 'k \<Rightarrow> 'k option \<times> 'k set) \<Rightarrow>
   ('k, 'v) hmap option res" where
  "hmap_init alloc bucketsz hfn efn keydupfn =
     (if \<not> alloc sizeof_hmap then Inr None
      else if \<not> alloc (sz_mul bucketsz ptr_size) then Inr None
      else if block_cells bucketsz < bucketsz then Inl Out_Of_Bounds
      else Inr (Some \<lparr>h_keyb = replicate bucketsz None, h_valb = replicate bucketsz None,
             h_bucketsz = bucketsz, h_entries = 0, h_iterating = False, h_buckiter = Undef, h_listiter = Undef,
             h_hfn = hfn, h_efn = efn, h_keydupfn = keydupfn, h_copies = {}\<rparr>))"

definition bkt_dispose :: "'a ptrlist option list \<Rightarrow> nat \<Rightarrow> 'a ptrlist option list res" where
  "bkt_dispose b i =
     bind_res (bkt_get b i) (\<lambda>l.
     case l of None \<Rightarrow> Inr b
     | Some _ \<Rightarrow> bind_res (ptrlist_dispose l) (\<lambda>_. Inr (b[i := None])))"

definition hclear_body :: "nat \<times> ('k, 'v) hmap \<Rightarrow> (nat \<times> ('k, 'v) hmap, ('k, 'v) hmap) step res" where
  "hclear_body = (\<lambda>(i, m).
     if \<not> i < h_bucketsz m then Inr (Break m)
     else
       bind_res (bkt_dispose (h_keyb m) i) (\<lambda>kb.
       bind_res (bkt_dispose (h_valb m) i) (\<lambda>vb.
       Inr (Continue (Suc i, m\<lparr>h_keyb := kb, h_valb := vb\<rparr>)))))"

definition hmap_clear :: "('k, 'v) hmap option \<Rightarrow> ('k, 'v) hmap option res" where
  "hmap_clear h =
     (case h of
        None \<Rightarrow> Inr None
      | Some m \<Rightarrow> bind_res (c_loop hclear_body (0, m)) (\<lambda>m'. Inr (Some (m'\<lparr>h_entries := 0\<rparr>))))"

text \<open>The result is the set of the key copies that are still allocated afterwards.\<close>

definition hmap_dispose :: "('k, 'v) hmap option \<Rightarrow> 'k set res" where
  "hmap_dispose h =
     bind_res (hmap_clear h) (\<lambda>h'. Inr (case h' of None \<Rightarrow> {} | Some m \<Rightarrow> h_copies m))"

text \<open>The bucket of a key; with no buckets at all the remainder is undefined.\<close>

definition hmap_index :: "('k, 'v) hmap \<Rightarrow> 'k \<Rightarrow> nat res" where
  "hmap_index m key = (if h_bucketsz m = 0 then Inl Bad_Arith else Inr (h_hfn m key mod h_bucketsz m))"

definition hmap_bucket ::
  "(nat \<Rightarrow> bool) \<Rightarrow> ('k, 'v) hmap \<Rightarrow> nat \<Rightarrow> ('k ptrlist option \<times> 'v ptrlist option \<times> ('k, 'v) hmap) res" where
  "hmap_bucket alloc m ind =
     bind_res (bkt_get (h_keyb m) ind) (\<lambda>kl.
     bind_res (bkt_get (h_valb m) ind) (\<lambda>vl.
     if kl = None then
       bind_res (ptrlist_init alloc) (\<lambda>k.
       bind_res (ptrlist_init alloc) (\<lambda>v.
       Inr (Some k, Some v, m\<lparr>h_keyb := (h_keyb m)[ind := Some k], h_valb := (h_valb m)[ind := Some v]\<rparr>)))
     else Inr (kl, vl, m)))"

definition hmap_put ::
  "(nat \<Rightarrow> bool) \<Rightarrow> (nat set \<Rightarrow> nat option) \<Rightarrow> ('k, 'v) hmap option \<Rightarrow> 'k option \<Rightarrow> 'v option \<Rightarrow>
   ('k, 'v) hmap option res" where
  "hmap_put alloc new h key elem =
     (case (h, key, elem) of
        (Some m, Some k, Some v) \<Rightarrow>
          bind_res (hmap_index m k) (\<lambda>ind.
          bind_res (hmap_bucket alloc m ind) (\<lambda>(kl, vl, m1).
          bind_res (ptrlist_findeqfn kl (h_efn m) k) (\<lambda>i.
          if i = - 1 then
            let (d, cs) = h_keydupfn m1 (h_copies m1) k in
            bind_res (ptrlist_insert new kl 0 d) (\<lambda>rk.
            bind_res (ptrlist_insert new vl 0 (Some v)) (\<lambda>rv.
            Inr (Some (m1\<lparr>h_keyb := (h_keyb m1)[ind := snd rk], h_valb := (h_valb m1)[ind := snd rv],
                         h_entries := sz_add (h_entries m1) 1, h_copies := cs\<rparr>))))
          else
            bind_res (ptrlist_replace vl (nat i) (Some v)) (\<lambda>rv.
            Inr (Some (m1\<lparr>h_valb := (h_valb m1)[ind := snd rv]\<rparr>))))))
      | _ \<Rightarrow> Inr h)"

definition hmap_get :: "('k, 'v) hmap option \<Rightarrow> 'k \<Rightarrow> 'v option res" where
  "hmap_get h key =
     (case h of
        None \<Rightarrow> Inr None
      | Some m \<Rightarrow>
          bind_res (hmap_index m key) (\<lambda>ind.
          bind_res (bkt_get (h_keyb m) ind) (\<lambda>kl.
          if kl = None then Inr None
          else
            bind_res (bkt_get (h_valb m) ind) (\<lambda>vl.
            bind_res (ptrlist_findeqfn kl (h_efn m) key) (\<lambda>i.
            if i = - 1 then Inr None else ptrlist_get vl (nat i))))))"

text \<open>\<open>free\<close> of NULL does nothing, of a pointer that is no allocated copy it is a fault.\<close>

definition key_free :: "'k set \<Rightarrow> 'k option \<Rightarrow> 'k set res" where
  "key_free cs d =
     (case d of
        None \<Rightarrow> Inr cs
      | Some p \<Rightarrow> if p \<in> cs then Inr (cs - {p}) else Inl Dangling)"

definition hmap_del :: "('k, 'v) hmap option \<Rightarrow> 'k \<Rightarrow> (bool \<times> ('k, 'v) hmap option) res" where
  "hmap_del h key =
     (case h of
        None \<Rightarrow> Inr (False, h)
      | Some m \<Rightarrow>
          bind_res (hmap_index m key) (\<lambda>ind.
          bind_res (bkt_get (h_keyb m) ind) (\<lambda>kl.
          if kl = None then Inr (False, h)
          else
            bind_res (bkt_get (h_valb m) ind) (\<lambda>vl.
            bind_res (ptrlist_findeqfn kl (h_efn m) key) (\<lambda>i.
            if i = - 1 then Inr (False, h)
            else
              bind_res (ptrlist_get kl (nat i)) (\<lambda>d.
              bind_res (key_free (h_copies m) d) (\<lambda>cs.
              bind_res (ptrlist_remove kl (nat i)) (\<lambda>rk.
              bind_res (ptrlist_remove vl (nat i)) (\<lambda>rv.
              Inr (True, Some (m\<lparr>h_keyb := (h_keyb m)[ind := snd rk], h_valb := (h_valb m)[ind := snd rv],
                                h_entries := sz_sub (h_entries m) 1, h_copies := cs\<rparr>)))))))))))"

definition hmap_count :: "('k, 'v) hmap option \<Rightarrow> nat" where
  "hmap_count h = (case h of None \<Rightarrow> 0 | Some m \<Rightarrow> h_entries m)"

text \<open>The loop that looks for a bucket that is not empty.\<close>

definition skip_body :: "('k, 'v) hmap \<Rightarrow> nat \<Rightarrow> (nat, nat) step res" where
  "skip_body m i =
     (if \<not> i < h_bucketsz m then Inr (Break i)
      else
        bind_res (bkt_get (h_keyb m) i) (\<lambda>kl.
        if kl = None then Inr (Continue (Suc i))
        else bind_res (ptrlist_count kl) (\<lambda>c. if c = 0 then Inr (Continue (Suc i)) else Inr (Break i))))"

text \<open>
  The result of an iteration step: what is written to \<open>*key\<close> and \<open>*val\<close> (\<open>None\<close> if nothing is), and
  the map with its iterator.
\<close>

type_synonym ('k, 'v) hmap_visit = "bool \<times> ('k option \<times> 'v option) option \<times> ('k, 'v) hmap option"

definition hmap_first :: "('k, 'v) hmap option \<Rightarrow> ('k, 'v) hmap_visit res" where
  "hmap_first h =
     (case h of
        None \<Rightarrow> Inr (False, None, h)
      | Some m \<Rightarrow>
          bind_res (c_loop (skip_body m) 0) (\<lambda>b.
          if b = h_bucketsz m
          then Inr (False, Some (None, None), Some (m\<lparr>h_buckiter := Val b, h_iterating := False\<rparr>))
          else
            bind_res (bkt_get (h_keyb m) b) (\<lambda>kl.
            bind_res (bkt_get (h_valb m) b) (\<lambda>vl.
            bind_res (ptrlist_get kl 0) (\<lambda>k.
            bind_res (ptrlist_get vl 0) (\<lambda>v.
            Inr (True, Some (k, v),
                 Some (m\<lparr>h_buckiter := Val b, h_listiter := Val 1, h_iterating := True\<rparr>))))))))"

text \<open>The end of \<open>hmap_next\<close>, once bucket and position are known.\<close>

definition hmap_yield :: "('k, 'v) hmap \<Rightarrow> nat \<Rightarrow> nat \<Rightarrow> 'k option \<Rightarrow> ('k, 'v) hmap_visit res" where
  "hmap_yield m b l k =
     bind_res (bkt_get (h_valb m) b) (\<lambda>vl.
     bind_res (ptrlist_get vl l) (\<lambda>v.
     Inr (True, Some (k, v), Some (m\<lparr>h_buckiter := Val b, h_listiter := Val (sz_add l 1)\<rparr>))))"

definition hmap_next :: "('k, 'v) hmap option \<Rightarrow> ('k, 'v) hmap_visit res" where
  "hmap_next h =
     (case h of
        None \<Rightarrow> Inr (False, None, h)
      | Some m \<Rightarrow>
          if \<not> h_iterating m then Inr (False, None, h)
          else
            (case (h_buckiter m, h_listiter m) of
               (Val b, Val l) \<Rightarrow>
                 bind_res (bkt_get (h_keyb m) b) (\<lambda>kl.
                 bind_res (ptrlist_get kl l) (\<lambda>k.
                 if k \<noteq> None then hmap_yield m b l k
                 else
                   bind_res (c_loop (skip_body m) (Suc b)) (\<lambda>b'.
                   if b' = h_bucketsz m
                   then Inr (False, Some (None, None),
                             Some (m\<lparr>h_buckiter := Val b', h_listiter := Val 0, h_iterating := False\<rparr>))
                   else
                     bind_res (bkt_get (h_keyb m) b') (\<lambda>kl'.
                     bind_res (ptrlist_get kl' 0) (\<lambda>k'. hmap_yield m b' 0 k')))))
             | _ \<Rightarrow> Inl Indeterminate))"

section \<open>Association lists\<close>

text \<open>What the two lists of a bucket hold, as pairs; keys are compared with the caller's function.\<close>

fun al_get :: "('k \<Rightarrow> 'k \<Rightarrow> bool) \<Rightarrow> ('k \<times> 'v) list \<Rightarrow> 'k \<Rightarrow> 'v option" where
  "al_get eq [] k = None"
| "al_get eq ((k', v) # al) k = (if eq k' k then Some v else al_get eq al k)"

fun al_set :: "('k \<Rightarrow> 'k \<Rightarrow> bool) \<Rightarrow> ('k \<times> 'v) list \<Rightarrow> 'k \<Rightarrow> 'v \<Rightarrow> ('k \<times> 'v) list" where
  "al_set eq [] k v = []"
| "al_set eq ((k', w) # al) k v = (if eq k' k then (k', v) # al else (k', w) # al_set eq al k v)"

fun al_del :: "('k \<Rightarrow> 'k \<Rightarrow> bool) \<Rightarrow> ('k \<times> 'v) list \<Rightarrow> 'k \<Rightarrow> ('k \<times> 'v) list" where
  "al_del eq [] k = []"
| "al_del eq ((k', w) # al) k = (if eq k' k then al else (k', w) # al_del eq al k)"

abbreviation al_find :: "('k \<Rightarrow> 'k \<Rightarrow> bool) \<Rightarrow> ('k \<times> 'v) list \<Rightarrow> 'k \<Rightarrow> int" where
  "al_find eq al k \<equiv> list_find (\<lambda>d. eq d k) (map fst al)"

lemma list_find_nonneg: "list_find P xs \<noteq> - 1 \<Longrightarrow> 0 \<le> list_find P xs"
  unfolding list_find_def by (simp split: if_splits)

lemma al_get_none: "al_find eq al k = - 1 \<longleftrightarrow> al_get eq al k = None"
  by (induction eq al k rule: al_get.induct) (use list_find_nonneg in force)+

lemma al_find_ops:
  assumes "al_find eq al k \<noteq> - 1"
  defines "j \<equiv> nat (al_find eq al k)"
  shows "j < length al" "al_get eq al k = Some (snd (al ! j))"
    "map fst (al_set eq al k v) = map fst al" "map snd (al_set eq al k v) = (map snd al)[j := v]"
    "al_del eq al k = take j al @ drop (Suc j) al"
proof -
  have "j < length al \<and> al_get eq al k = Some (snd (al ! j)) \<and> map fst (al_set eq al k v) = map fst al \<and>
    map snd (al_set eq al k v) = (map snd al)[j := v] \<and> al_del eq al k = take j al @ drop (Suc j) al"
    using assms(1) unfolding j_def
  proof (induction eq al k rule: al_get.induct)
    case (2 eq k' w al k)
    show ?case
    proof (cases "eq k' k")
      case False
      then have ne: "al_find eq al k \<noteq> - 1" using 2(2) by auto
      then have "nat (al_find eq al k + 1) = Suc (nat (al_find eq al k))"
        using list_find_nonneg [OF ne] by simp
      with 2(1) [OF False ne] False ne show ?thesis by simp
    qed simp
  qed simp
  then show "j < length al" "al_get eq al k = Some (snd (al ! j))"
    "map fst (al_set eq al k v) = map fst al" "map snd (al_set eq al k v) = (map snd al)[j := v]"
    "al_del eq al k = take j al @ drop (Suc j) al" by simp_all
qed

section \<open>What the caller's functions have to satisfy\<close>

locale hash_fns =
  fixes hfn :: "'k \<Rightarrow> nat" and efn :: "'k \<Rightarrow> 'k \<Rightarrow> bool" and keydup :: "'k set \<Rightarrow> 'k \<Rightarrow> 'k option \<times> 'k set"
  assumes efn_refl: "efn k k" and efn_sym: "efn k l \<Longrightarrow> efn l k" and efn_trans: "efn k l \<Longrightarrow> efn l m \<Longrightarrow> efn k m"
    and efn_hash: "efn k l \<Longrightarrow> hfn k = hfn l" and keydup_eq: "keydup H k = (Some k', H') \<Longrightarrow> efn k' k"
begin

lemma efn_cong: "efn k l \<Longrightarrow> efn x k \<longleftrightarrow> efn x l" "efn k l \<Longrightarrow> efn k x \<longleftrightarrow> efn l x"
  using efn_sym efn_trans by blast+

lemma al_get_cong: "efn k l \<Longrightarrow> al_get efn al k = al_get efn al l"
  by (induction al) (auto simp: efn_cong(1))

lemma al_get_set:
  "al_get efn al k \<noteq> None \<Longrightarrow> al_get efn (al_set efn al k v) l = (if efn k l then Some v else al_get efn al l)"
proof (induction al)
  case (Cons kv al)
  obtain k' w where kv: "kv = (k', w)" by fastforce
  show ?case
  proof (cases "efn k' k")
    case True
    then show ?thesis using kv efn_cong(2) [OF True] by simp
  next
    case False
    then have "efn k' l \<longrightarrow> \<not> efn k l" using efn_sym efn_trans by blast
    then show ?thesis using Cons kv False by auto
  qed
qed simp

lemma al_get_cons: "efn k' k \<Longrightarrow> al_get efn ((k', v) # al) l = (if efn k l then Some v else al_get efn al l)"
  by (simp add: efn_cong(2))

lemma al_get_miss: "\<forall>x\<in>fst ` set al. \<not> efn x k \<Longrightarrow> al_get efn al k = None"
  by (induction al) auto

lemma al_get_del:
  "sorted_wrt (\<lambda>a b. \<not> efn a b) (map fst al) \<Longrightarrow>
   al_get efn (al_del efn al k) l = (if efn k l then None else al_get efn al l)"
proof (induction al)
  case (Cons kv al)
  obtain k' v where kv: "kv = (k', v)" by fastforce
  show ?case
  proof (cases "efn k' k")
    case True
    have "al_get efn al l = None" if "efn k l"
    proof (rule al_get_miss, rule ballI, rule notI)
      fix x assume "x \<in> fst ` set al" "efn x l"
      moreover have "efn k' l" using True that by (rule efn_trans)
      ultimately have "efn k' x" using efn_sym efn_trans by blast
      with Cons.prems kv \<open>x \<in> fst ` set al\<close> show False by auto
    qed
    then show ?thesis using True kv by (auto simp: efn_cong(2))
  next
    case False
    then show ?thesis using Cons kv by (auto dest: efn_sym efn_trans)
  qed
qed simp

lemma al_del_subset: "set (al_del efn al k) \<subseteq> set al"
  by (induction al) (auto split: if_splits)

lemma al_del_sorted:
  "sorted_wrt (\<lambda>a b. \<not> efn a b) (map fst al) \<Longrightarrow> sorted_wrt (\<lambda>a b. \<not> efn a b) (map fst (al_del efn al k))"
proof (induction al)
  case (Cons kv al)
  then show ?case using al_del_subset [of al k] by (cases kv) auto
qed simp

lemma length_al_del: "al_get efn al k \<noteq> None \<Longrightarrow> Suc (length (al_del efn al k)) = length al"
  by (induction al) (auto split: if_splits)

end

section \<open>The map a store of buckets holds\<close>

definition bucket_rep :: "'k ptrlist option \<Rightarrow> 'v ptrlist option \<Rightarrow> ('k \<times> 'v) list \<Rightarrow> bool" where
  "bucket_rep kl vl al \<longleftrightarrow>
     (case (kl, vl) of
        (None, None) \<Rightarrow> al = []
      | (Some k, Some v) \<Rightarrow> pl_list k (map fst al) \<and> pl_list v (map snd al)
      | _ \<Rightarrow> False)"

text \<open>No two keys of a bucket are equal, and every key is in the bucket of its hash.\<close>

definition bucket_keys :: "('k \<Rightarrow> nat) \<Rightarrow> ('k \<Rightarrow> 'k \<Rightarrow> bool) \<Rightarrow> nat \<Rightarrow> nat \<Rightarrow> ('k \<times> 'v) list \<Rightarrow> bool" where
  "bucket_keys hfn efn n i al \<longleftrightarrow>
     (\<forall>k\<in>fst ` set al. hfn k mod n = i) \<and> sorted_wrt (\<lambda>a b. \<not> efn a b) (map fst al)"

definition hmap_rep ::
  "('k \<Rightarrow> nat) \<Rightarrow> ('k \<Rightarrow> 'k \<Rightarrow> bool) \<Rightarrow> ('k set \<Rightarrow> 'k \<Rightarrow> 'k option \<times> 'k set) \<Rightarrow>
   ('k, 'v) hmap \<Rightarrow> ('k \<times> 'v) list list \<Rightarrow> bool" where
  "hmap_rep hfn efn keydup m als \<longleftrightarrow>
     h_hfn m = hfn \<and> h_efn m = efn \<and> h_keydupfn m = keydup \<and> 0 < h_bucketsz m \<and>
     length (h_keyb m) = h_bucketsz m \<and> length (h_valb m) = h_bucketsz m \<and> length als = h_bucketsz m \<and>
     (\<forall>i < h_bucketsz m. bucket_rep (h_keyb m ! i) (h_valb m ! i) (als ! i) \<and>
        bucket_keys hfn efn (h_bucketsz m) i (als ! i)) \<and>
     h_entries m = length (concat als) \<and> length (concat als) < size_max"

definition hmap_lookup :: "('k \<Rightarrow> nat) \<Rightarrow> ('k \<Rightarrow> 'k \<Rightarrow> bool) \<Rightarrow> ('k \<times> 'v) list list \<Rightarrow> 'k \<Rightarrow> 'v option" where
  "hmap_lookup hfn efn als k = al_get efn (als ! (hfn k mod length als)) k"

lemma length_bucket_le: "i < length als \<Longrightarrow> length (als ! i) \<le> length (concat als)"
  by (induction als arbitrary: i) (auto simp: nth_Cons trans_le_add2 split: nat.split)

lemma length_concat_update:
  "i < length als \<Longrightarrow> length (concat (als[i := al])) + length (als ! i) = length (concat als) + length al"
proof (induction als arbitrary: i)
  case (Cons a als)
  then show ?case by (cases i) (auto simp: add.assoc)
qed simp

lemma hmap_repD:
  assumes "hmap_rep hfn efn keydup m als"
  shows "h_hfn m = hfn" "h_efn m = efn" "h_keydupfn m = keydup" "0 < h_bucketsz m"
    "length (h_keyb m) = h_bucketsz m" "length (h_valb m) = h_bucketsz m" "length als = h_bucketsz m"
    "h_entries m = length (concat als)" "length (concat als) < size_max"
    and "i < h_bucketsz m \<Longrightarrow> bucket_rep (h_keyb m ! i) (h_valb m ! i) (als ! i)"
    and "i < h_bucketsz m \<Longrightarrow> bucket_keys hfn efn (h_bucketsz m) i (als ! i)"
  using assms by (simp_all add: hmap_rep_def)

lemma hmap_rep_update:
  assumes rep: "hmap_rep hfn efn keydup m als" and i: "i < h_bucketsz m"
    and lists: "pl_list kl (map fst al)" "pl_list vl (map snd al)"
    and keys: "bucket_keys hfn efn (h_bucketsz m) i al"
    and size: "n = length (concat (als[i := al]))" "n < size_max"
  shows "hmap_rep hfn efn keydup
    (m\<lparr>h_keyb := (h_keyb m)[i := Some kl], h_valb := (h_valb m)[i := Some vl], h_entries := n\<rparr>) (als[i := al])"
  using assms by (simp add: hmap_rep_def nth_list_update bucket_rep_def)

lemma hmap_rep_copies [simp]:
  "hmap_rep hfn efn keydup (m\<lparr>h_copies := cs\<rparr>) als = hmap_rep hfn efn keydup m als"
  by (simp add: hmap_rep_def)

text \<open>The keys in the map, as pointers, and the map that owns them: every key is an allocated copy.\<close>

abbreviation keys_of :: "('k \<times> 'v) list list \<Rightarrow> 'k set" where
  "keys_of als \<equiv> fst ` set (concat als)"

definition hmap_owns :: "('k, 'v) hmap \<Rightarrow> ('k \<times> 'v) list list \<Rightarrow> bool" where
  "hmap_owns m als \<longleftrightarrow> h_copies m = keys_of als"

lemma concat_update:
  "i < length als \<Longrightarrow> concat (als[i := al]) = concat (take i als) @ al @ concat (drop (Suc i) als)"
  by (simp add: upd_conv_take_nth_drop)

lemma keys_of_update:
  assumes "i < length als" and "fst ` set al' = F (fst ` set (als ! i))"
  shows "keys_of (als[i := al']) =
    fst ` set (concat (take i als)) \<union> F (fst ` set (als ! i)) \<union> fst ` set (concat (drop (Suc i) als))"
  unfolding concat_update [OF assms(1)] using assms(2) by (simp add: image_Un Un_assoc)

lemma keys_of_split:
  "i < length als \<Longrightarrow> keys_of als =
    fst ` set (concat (take i als)) \<union> fst ` set (als ! i) \<union> fst ` set (concat (drop (Suc i) als))"
  using keys_of_update [of i als "als ! i" id] by simp

lemma key_in_keys_of: "i < length als \<Longrightarrow> j < length (als ! i) \<Longrightarrow> fst (als ! i ! j) \<in> keys_of als"
  unfolding keys_of_split by simp

lemma keys_of_insert: "i < length als \<Longrightarrow> keys_of (als[i := (k, v) # als ! i]) = insert k (keys_of als)"
  using keys_of_update [of i als "(k, v) # als ! i" "insert k"] keys_of_split [of i als] by simp

lemma keys_of_same: "i < length als \<Longrightarrow> map fst al = map fst (als ! i) \<Longrightarrow> keys_of (als[i := al]) = keys_of als"
  using keys_of_update [of i als al id] keys_of_split [of i als] by (metis id_apply set_map)

lemma hmap_bucket_ok:
  assumes rep: "hmap_rep hfn efn keydup m als" and i: "i < h_bucketsz m" and mem: "alloc sizeof_ptrlist"
  shows "\<exists>kl vl. hmap_bucket alloc m i =
      Inr (Some kl, Some vl, m\<lparr>h_keyb := (h_keyb m)[i := Some kl], h_valb := (h_valb m)[i := Some vl]\<rparr>) \<and>
    pl_list kl (map fst (als ! i)) \<and> pl_list vl (map snd (als ! i))"
proof (cases "h_keyb m ! i")
  case None
  then have al: "als ! i = []"
    using hmap_repD(10) [OF rep i] by (auto simp: bucket_rep_def split: option.splits)
  obtain k :: "'a ptrlist" where k: "ptrlist_init alloc = Inr k" "pl_list k []" using ptrlist_init_ok [of alloc] mem by blast
  obtain v :: "'b ptrlist" where v: "ptrlist_init alloc = Inr v" "pl_list v []" using ptrlist_init_ok [of alloc] mem by blast
  show ?thesis using None al k v i hmap_repD(5,6) [OF rep] by (simp add: hmap_bucket_def bkt_get_def)
next
  case (Some kl)
  then obtain vl where vl: "h_valb m ! i = Some vl" "pl_list kl (map fst (als ! i))" "pl_list vl (map snd (als ! i))"
    using hmap_repD(10) [OF rep i] by (auto simp: bucket_rep_def split: option.splits)
  have "(h_keyb m)[i := Some kl] = h_keyb m" "(h_valb m)[i := Some vl] = h_valb m"
    using Some vl(1) by (metis list_update_id)+
  then show ?thesis using Some vl i hmap_repD(5,6) [OF rep] by (simp add: hmap_bucket_def bkt_get_def)
qed

context hash_fns begin

lemma hmap_index_ok: "hmap_rep hfn efn keydup m als \<Longrightarrow> hmap_index m k = Inr (hfn k mod h_bucketsz m)"
  by (simp add: hmap_index_def hmap_rep_def)

lemma hmap_entries_distinct:
  assumes rep: "hmap_rep hfn efn keydup m als"
  shows "sorted_wrt (\<lambda>a b. \<not> efn a b) (map fst (concat als))"
proof -
  note d = hmap_repD [OF rep]
  have "sorted_wrt (\<lambda>a b. \<not> efn a b) (map fst (concat (take j als)))" if "j \<le> length als" for j
    using that
  proof (induction j)
    case (Suc j)
    then have j: "j < length als" by simp
    then have keys: "bucket_keys hfn efn (length als) j (als ! j)" using d(7,11) by simp
    have "\<not> efn a b" if "a \<in> set (map fst (concat (take j als)))" "b \<in> set (map fst (als ! j))" for a b
    proof
      assume ab: "efn a b"
      from that(1) obtain al where al: "al \<in> set (take j als)" "a \<in> fst ` set al" by auto
      then obtain i where i: "i < j" "a \<in> fst ` set (als ! i)" using j by (metis in_set_conv_nth length_take min_less_iff_conj nth_take)
      then have "bucket_keys hfn efn (length als) i (als ! i)" using d(7,11) j by simp
      then have "hfn a mod length als = i" using i(2) by (auto simp: bucket_keys_def)
      moreover have "hfn b mod length als = j" using keys that(2) by (auto simp: bucket_keys_def)
      ultimately show False using i(1) efn_hash [OF ab] by simp
    qed
    then show ?case using Suc keys j
      by (auto simp: take_Suc_conv_app_nth sorted_wrt_append bucket_keys_def)
  qed simp
  from this [of "length als"] show ?thesis by simp
qed

text \<open>As the keys differ by the caller's equality, they differ as pointers.\<close>

lemma hmap_keys_distinct:
  assumes "hmap_rep hfn efn keydup m als"
  shows "distinct (map fst (concat als))"
  unfolding distinct_conv_nth using hmap_entries_distinct [OF assms] efn_refl
  by (metis linorder_neqE_nat sorted_wrt_iff_nth_less)

lemma card_keys_of: "hmap_rep hfn efn keydup m als \<Longrightarrow> card (keys_of als) = length (concat als)"
  using hmap_keys_distinct distinct_card by (metis length_map set_map)

lemma keys_of_del:
  assumes rep: "hmap_rep hfn efn keydup m als" and i: "i < length als" and j: "j < length (als ! i)"
  shows "keys_of (als[i := take j (als ! i) @ drop (Suc j) (als ! i)]) = keys_of als - {fst (als ! i ! j)}"
proof -
  let ?al = "als ! i" and ?p = "concat (take i als)" and ?s = "concat (drop (Suc i) als)"
  have al: "?al = take j ?al @ ?al ! j # drop (Suc j) ?al" using j by (simp add: id_take_nth_drop)
  have all: "concat als = ?p @ (take j ?al @ ?al ! j # drop (Suc j) ?al) @ ?s"
    using concat_update [OF i, of ?al] al by simp
  have "distinct (map fst (?p @ (take j ?al @ ?al ! j # drop (Suc j) ?al) @ ?s))"
    using hmap_keys_distinct [OF rep] unfolding all .
  then show ?thesis unfolding concat_update [OF i] all by (auto simp: image_Un)
qed

lemma hmap_get_ok:
  assumes rep: "hmap_rep hfn efn keydup m als"
  shows "hmap_get (Some m) k = Inr (hmap_lookup hfn efn als k)"
proof -
  note d = hmap_repD [OF rep]
  let ?i = "hfn k mod h_bucketsz m"
  let ?al = "als ! ?i"
  have i: "?i < h_bucketsz m" using d(4) by simp
  have look: "hmap_lookup hfn efn als k = al_get efn ?al k" by (simp add: hmap_lookup_def d(7))
  show ?thesis
  proof (cases "h_keyb m ! ?i")
    case None
    then have "?al = []" using d(10) [OF i] by (auto simp: bucket_rep_def split: option.splits)
    then show ?thesis using None i d(5) look
      by (simp add: hmap_get_def hmap_index_ok [OF rep] bkt_get_def)
  next
    case (Some kl)
    then obtain vl where vl: "h_valb m ! ?i = Some vl" "pl_list kl (map fst ?al)" "pl_list vl (map snd ?al)"
      using d(10) [OF i] by (auto simp: bucket_rep_def split: option.splits)
    have get: "hmap_get (Some m) k =
        (if al_find efn ?al k = - 1 then Inr None else ptrlist_get (Some vl) (nat (al_find efn ?al k)))"
      using Some vl(1) i d(2,5,6)
      by (simp add: hmap_get_def hmap_index_ok [OF rep] bkt_get_def ptrlist_findeqfn_ok [OF vl(2)])
    show ?thesis
    proof (cases "al_find efn ?al k = - 1")
      case True
      then show ?thesis using get look al_get_none [of efn k ?al] by simp
    next
      case False
      from al_find_ops(1,2) [where eq = efn and al = ?al and k = k, OF False] show ?thesis using get look False by (simp add: ptrlist_get_ok [OF vl(3)])
    qed
  qed
qed

lemma hmap_put_ok:
  assumes rep: "hmap_rep hfn efn keydup m als" and room: "room_for new n" "length (concat als) < n"
    and mem: "alloc sizeof_ptrlist" and size: "Suc (length (concat als)) < size_max"
    and copy: "fst (keydup (h_copies m) k) \<noteq> None"
  shows "\<exists>m' als'. hmap_put alloc new (Some m) (Some k) (Some v) = Inr (Some m') \<and>
     hmap_rep hfn efn keydup m' als' \<and>
     (\<forall>l. hmap_lookup hfn efn als' l = (if efn k l then Some v else hmap_lookup hfn efn als l)) \<and>
     length (concat als') = length (concat als) + (if hmap_lookup hfn efn als k = None then 1 else 0) \<and>
     (if hmap_lookup hfn efn als k = None
      then h_copies m' = snd (keydup (h_copies m) k) \<and>
        keys_of als' = insert (the (fst (keydup (h_copies m) k))) (keys_of als)
      else h_copies m' = h_copies m \<and> keys_of als' = keys_of als)"
proof -
  note d = hmap_repD [OF rep]
  let ?i = "hfn k mod h_bucketsz m"
  let ?al = "als ! ?i"
  have i: "?i < h_bucketsz m" using d(4) by simp
  have look: "hmap_lookup hfn efn als k = al_get efn ?al k" by (simp add: hmap_lookup_def d(7))
  from hmap_bucket_ok [where alloc = alloc, OF rep i mem] obtain kl vl where
    b: "hmap_bucket alloc m ?i =
      Inr (Some kl, Some vl, m\<lparr>h_keyb := (h_keyb m)[?i := Some kl], h_valb := (h_valb m)[?i := Some vl]\<rparr>)"
    "pl_list kl (map fst ?al)" "pl_list vl (map snd ?al)" by blast
  have put: "hmap_put alloc new (Some m) (Some k) (Some v) =
      (if al_find efn ?al k = - 1 then
         bind_res (ptrlist_insert new (Some kl) 0 (fst (keydup (h_copies m) k))) (\<lambda>rk.
         bind_res (ptrlist_insert new (Some vl) 0 (Some v)) (\<lambda>rv.
         Inr (Some (m\<lparr>h_keyb := (h_keyb m)[?i := snd rk], h_valb := (h_valb m)[?i := snd rv],
                      h_entries := sz_add (h_entries m) 1, h_copies := snd (keydup (h_copies m) k)\<rparr>))))
       else
         bind_res (ptrlist_replace (Some vl) (nat (al_find efn ?al k)) (Some v)) (\<lambda>rv.
         Inr (Some (m\<lparr>h_keyb := (h_keyb m)[?i := Some kl], h_valb := (h_valb m)[?i := snd rv]\<rparr>))))"
    by (simp add: hmap_put_def hmap_index_ok [OF rep] b(1) ptrlist_findeqfn_ok [OF b(2)] d(2,3) case_prod_unfold Let_def
        cong del: bind_res_weak_cong)
  have update: "hmap_lookup hfn efn (als[?i := al']) l = (if efn k l then Some v else hmap_lookup hfn efn als l)"
    if al': "\<And>l. al_get efn al' l = (if efn k l then Some v else al_get efn ?al l)" for al' l
    using i d(7) al' efn_hash by (auto simp: hmap_lookup_def nth_list_update)
  show ?thesis
  proof (cases "al_find efn ?al k = - 1")
    case True
    then have none: "al_get efn ?al k = None" by (simp add: al_get_none)
    obtain k' cs where kc: "keydup (h_copies m) k = (Some k', cs)" using copy by (cases "keydup (h_copies m) k") auto
    then have k': "fst (keydup (h_copies m) k) = Some k'" "efn k' k" using keydup_eq by auto
    have "length ?al < n" using room(2) length_bucket_le [of ?i als] i d(7) by simp
    then have short: "length (map fst ?al) < n" "length (map snd ?al) < n" by simp_all
    obtain kl' where kl': "ptrlist_insert new (Some kl) 0 (Some k') = Inr (True, Some kl')" "pl_list kl' (k' # map fst ?al)"
      using ptrlist_insert0_ok [OF b(2) room(1) short(1)] by blast
    obtain vl' where vl': "ptrlist_insert new (Some vl) 0 (Some v) = Inr (True, Some vl')" "pl_list vl' (v # map snd ?al)"
      using ptrlist_insert0_ok [OF b(3) room(1) short(2)] by blast
    let ?al' = "(k', v) # ?al"
    have len: "length (concat (als[?i := ?al'])) = Suc (length (concat als))"
      using length_concat_update [of ?i als ?al'] i d(7) by simp
    have "\<forall>x\<in>set ?al. \<not> efn k' (fst x)"
    proof
      fix x assume "x \<in> set ?al"
      then have "\<not> efn (fst x) k" using True by (auto simp: list_find_miss)
      then show "\<not> efn k' (fst x)" using k'(2) efn_sym efn_trans by blast
    qed
    then have "bucket_keys hfn efn (h_bucketsz m) ?i ?al'"
      using d(11) [OF i] efn_hash [OF k'(2)] by (auto simp: bucket_keys_def)
    then have "hmap_rep hfn efn keydup
        (m\<lparr>h_keyb := (h_keyb m)[?i := Some kl'], h_valb := (h_valb m)[?i := Some vl'],
           h_entries := Suc (length (concat als))\<rparr>) (als[?i := ?al'])"
      using hmap_rep_update [OF rep i, of kl' ?al' vl' "Suc (length (concat als))"] kl'(2) vl'(2) len size by simp
    then have "hmap_rep hfn efn keydup
        (m\<lparr>h_keyb := (h_keyb m)[?i := Some kl'], h_valb := (h_valb m)[?i := Some vl'],
           h_entries := Suc (length (concat als)), h_copies := cs\<rparr>) (als[?i := ?al'])"
      unfolding hmap_rep_copies .
    moreover have "keys_of (als[?i := ?al']) = insert k' (keys_of als)" using i d(7) by (intro keys_of_insert) simp
    moreover have "sz_add (h_entries m) 1 = Suc (length (concat als))"
      using size d(8) by (simp add: sz_add_def)
    ultimately show ?thesis
      using put True k' kc kl'(1) vl'(1) len look none update [OF al_get_cons [OF k'(2)]] by auto
  next
    case False
    note f = al_find_ops [where eq = efn and al = ?al and k = k, OF False]
    let ?al' = "al_set efn ?al k v"
    have some: "al_get efn ?al k \<noteq> None" using f(2) by simp
    obtain vl' where vl': "ptrlist_replace (Some vl) (nat (al_find efn ?al k)) (Some v) = Inr (True, Some vl')"
      "pl_list vl' (map snd ?al')"
      using ptrlist_replace_ok [OF b(3), of "nat (al_find efn ?al k)" v] f(1,4) by auto
    have len: "length (concat (als[?i := ?al'])) = length (concat als)"
    proof -
      have "length ?al' = length ?al" using f(3) by (metis length_map)
      then show ?thesis using length_concat_update [of ?i als ?al'] i d(7) by simp
    qed
    have "fst ` set ?al' = fst ` set ?al" using f(3) [of v] by (metis set_map)
    then have "bucket_keys hfn efn (h_bucketsz m) ?i ?al'"
      using d(11) [OF i] f(3) [of v] by (simp add: bucket_keys_def)
    moreover have "pl_list kl (map fst ?al')" using b(2) f(3) by simp
    ultimately have "hmap_rep hfn efn keydup
        (m\<lparr>h_keyb := (h_keyb m)[?i := Some kl], h_valb := (h_valb m)[?i := Some vl'],
           h_entries := length (concat als)\<rparr>) (als[?i := ?al'])"
      using hmap_rep_update [OF rep i _ vl'(2)] len d(9) by simp
    moreover have "m\<lparr>h_keyb := (h_keyb m)[?i := Some kl], h_valb := (h_valb m)[?i := Some vl'],
           h_entries := length (concat als)\<rparr> =
        m\<lparr>h_keyb := (h_keyb m)[?i := Some kl], h_valb := (h_valb m)[?i := Some vl']\<rparr>" using d(8) by simp
    moreover have "keys_of (als[?i := ?al']) = keys_of als" using i d(7) f(3) by (intro keys_of_same) simp_all
    ultimately show ?thesis
      using put False vl'(1) len look some update [OF al_get_set [OF some]] by auto
  qed
qed

lemma hmap_del_ok:
  assumes rep: "hmap_rep hfn efn keydup m als" and own: "hmap_owns m als"
  shows "\<exists>m' als'. hmap_del (Some m) k = Inr (hmap_lookup hfn efn als k \<noteq> None, Some m') \<and>
     hmap_rep hfn efn keydup m' als' \<and> hmap_owns m' als' \<and>
     (\<forall>l. hmap_lookup hfn efn als' l = (if efn k l then None else hmap_lookup hfn efn als l)) \<and>
     length (concat als') = length (concat als) - (if hmap_lookup hfn efn als k = None then 0 else 1)"
proof -
  note d = hmap_repD [OF rep]
  let ?i = "hfn k mod h_bucketsz m"
  let ?al = "als ! ?i"
  have i: "?i < h_bucketsz m" using d(4) by simp
  have look: "hmap_lookup hfn efn als k = al_get efn ?al k" by (simp add: hmap_lookup_def d(7))
  have same: "hmap_lookup hfn efn als l = (if efn k l then None else hmap_lookup hfn efn als l)"
    if "hmap_lookup hfn efn als k = None" for l
    using that unfolding hmap_lookup_def by (metis al_get_cong efn_hash)
  show ?thesis
  proof (cases "h_keyb m ! ?i")
    case None
    then have "?al = []" using d(10) [OF i] by (auto simp: bucket_rep_def split: option.splits)
    then have none: "hmap_lookup hfn efn als k = None" using look by simp
    have "hmap_del (Some m) k = Inr (False, Some m)"
      using None i d(5) by (simp add: hmap_del_def hmap_index_ok [OF rep] bkt_get_def)
    then show ?thesis using none rep own same [OF none]
      by (intro exI [of _ m] exI [of _ als]) simp
  next
    case (Some kl)
    then obtain vl where vl: "h_valb m ! ?i = Some vl" "pl_list kl (map fst ?al)" "pl_list vl (map snd ?al)"
      using d(10) [OF i] by (auto simp: bucket_rep_def split: option.splits)
    have del: "hmap_del (Some m) k =
        (if al_find efn ?al k = - 1 then Inr (False, Some m)
         else
           bind_res (ptrlist_get (Some kl) (nat (al_find efn ?al k))) (\<lambda>d.
           bind_res (key_free (h_copies m) d) (\<lambda>cs.
           bind_res (ptrlist_remove (Some kl) (nat (al_find efn ?al k))) (\<lambda>rk.
           bind_res (ptrlist_remove (Some vl) (nat (al_find efn ?al k))) (\<lambda>rv.
           Inr (True, Some (m\<lparr>h_keyb := (h_keyb m)[?i := snd rk], h_valb := (h_valb m)[?i := snd rv],
                             h_entries := sz_sub (h_entries m) 1, h_copies := cs\<rparr>)))))))"
      using Some vl(1) i d(2,5,6)
      by (simp add: hmap_del_def hmap_index_ok [OF rep] bkt_get_def ptrlist_findeqfn_ok [OF vl(2)])
    show ?thesis
    proof (cases "al_find efn ?al k = - 1")
      case True
      then have none: "hmap_lookup hfn efn als k = None" using look al_get_none [of efn k ?al] by simp
      then show ?thesis using True del rep own same [OF none]
        by (intro exI [of _ m] exI [of _ als]) simp
    next
      case False
      note f = al_find_ops [where eq = efn and al = ?al and k = k, OF False]
      let ?j = "nat (al_find efn ?al k)" and ?al' = "al_del efn ?al k"
      have some: "al_get efn ?al k \<noteq> None" using f(2) by simp
      have maps: "take ?j (map fst ?al) @ drop (Suc ?j) (map fst ?al) = map fst ?al'"
        "take ?j (map snd ?al) @ drop (Suc ?j) (map snd ?al) = map snd ?al'"
        using f(5) by (simp_all add: take_map drop_map)
      let ?p = "fst (?al ! ?j)" and ?cs = "h_copies m - {fst (?al ! ?j)}"
      have get: "ptrlist_get (Some kl) ?j = Inr (Some ?p)" using ptrlist_get_ok [OF vl(2), of ?j] f(1) by simp
      have "?p \<in> keys_of als" using f(1) i d(7) by (intro key_in_keys_of) simp_all
      then have free: "key_free (h_copies m) (Some ?p) = Inr ?cs" using own by (simp add: key_free_def hmap_owns_def)
      have keys': "keys_of (als[?i := ?al']) = ?cs"
        using keys_of_del [OF rep, of ?i ?j] i d(7) f(1,5) own by (simp add: hmap_owns_def)
      obtain kl' where kl': "ptrlist_remove (Some kl) ?j = Inr (True, Some kl')" "pl_list kl' (map fst ?al')"
        using ptrlist_remove_ok [OF vl(2), of ?j] f(1) maps(1) by auto
      obtain vl' where vl': "ptrlist_remove (Some vl) ?j = Inr (True, Some vl')" "pl_list vl' (map snd ?al')"
        using ptrlist_remove_ok [OF vl(3), of ?j] f(1) maps(2) by auto
      have len: "Suc (length (concat (als[?i := ?al']))) = length (concat als)"
        using length_concat_update [of ?i als ?al'] i d(7) length_al_del [OF some] by simp
      have keys: "bucket_keys hfn efn (h_bucketsz m) ?i ?al'"
        using d(11) [OF i] al_del_subset [of ?al k] al_del_sorted [of ?al k] unfolding bucket_keys_def by auto
      have sub: "sz_sub (h_entries m) 1 = length (concat (als[?i := ?al']))"
        using len d(8,9) by (simp add: sz_simps)
      have "hmap_rep hfn efn keydup
          (m\<lparr>h_keyb := (h_keyb m)[?i := Some kl'], h_valb := (h_valb m)[?i := Some vl'],
             h_entries := length (concat (als[?i := ?al']))\<rparr>) (als[?i := ?al'])"
        by (rule hmap_rep_update [OF rep i kl'(2) vl'(2) keys refl]) (use len d(9) in simp)
      then have "hmap_rep hfn efn keydup
          (m\<lparr>h_keyb := (h_keyb m)[?i := Some kl'], h_valb := (h_valb m)[?i := Some vl'],
             h_entries := length (concat (als[?i := ?al'])), h_copies := ?cs\<rparr>) (als[?i := ?al'])"
        unfolding hmap_rep_copies .
      moreover have "hmap_del (Some m) k = Inr (True, Some
          (m\<lparr>h_keyb := (h_keyb m)[?i := Some kl'], h_valb := (h_valb m)[?i := Some vl'],
             h_entries := length (concat (als[?i := ?al'])), h_copies := ?cs\<rparr>))"
        using del get free False kl'(1) vl'(1) sub by simp
      moreover have "hmap_lookup hfn efn (als[?i := ?al']) l = (if efn k l then None else hmap_lookup hfn efn als l)" for l
        using i d(7) d(11) [OF i] al_get_del [of ?al k] efn_hash
        by (auto simp: hmap_lookup_def nth_list_update bucket_keys_def)
      moreover have "hmap_lookup hfn efn als k \<noteq> None" using some look by simp
      moreover have "length (concat (als[?i := ?al'])) = length (concat als) - 1" using len by simp
      ultimately show ?thesis using keys'
        by (intro exI [of _ "m\<lparr>h_keyb := (h_keyb m)[?i := Some kl'], h_valb := (h_valb m)[?i := Some vl'],
             h_entries := length (concat (als[?i := ?al'])), h_copies := ?cs\<rparr>"] exI [of _ "als[?i := ?al']"])
          (auto simp: hmap_owns_def)
    qed
  qed
qed

text \<open>If the key found is no allocated copy, as with a key-copying function that returns its argument,
  \<open>hmap_del\<close> frees what is not the map's.\<close>

lemma hmap_del_foreign:
  assumes rep: "hmap_rep hfn efn keydup m als" and found: "hmap_lookup hfn efn als k \<noteq> None"
    and foreign: "h_copies m \<inter> keys_of als = {}"
  shows "hmap_del (Some m) k = Inl Dangling"
proof -
  note d = hmap_repD [OF rep]
  let ?i = "hfn k mod h_bucketsz m"
  let ?al = "als ! ?i"
  have i: "?i < h_bucketsz m" using d(4) by simp
  have some: "al_get efn ?al k \<noteq> None" using found by (simp add: hmap_lookup_def d(7))
  then have ne: "?al \<noteq> []" and False: "al_find efn ?al k \<noteq> - 1" using al_get_none [of efn k ?al] by auto
  then obtain kl vl where vl: "h_keyb m ! ?i = Some kl" "h_valb m ! ?i = Some vl" "pl_list kl (map fst ?al)"
    using d(10) [OF i] by (auto simp: bucket_rep_def split: option.splits)
  let ?j = "nat (al_find efn ?al k)"
  have j: "?j < length ?al" by (rule al_find_ops(1) [where eq = efn and al = ?al and k = k, OF False])
  have "fst (?al ! ?j) \<in> keys_of als" using j i d(7) by (intro key_in_keys_of) simp_all
  then have "key_free (h_copies m) (Some (fst (?al ! ?j))) = Inl Dangling" using foreign by (auto simp: key_free_def)
  moreover have "ptrlist_get (Some kl) ?j = Inr (Some (fst (?al ! ?j)))" using ptrlist_get_ok [OF vl(3), of ?j] j by simp
  ultimately show ?thesis using vl(1,2) i d(2,5,6) False
    by (simp add: hmap_del_def hmap_index_ok [OF rep] bkt_get_def ptrlist_findeqfn_ok [OF vl(3)])
qed

end

section \<open>Creating, clearing and iterating\<close>

lemma hmap_init_ok:
  assumes "alloc sizeof_hmap" and "alloc (n * ptr_size)" and n: "0 < n" "n < max_cells"
  shows "\<exists>m. hmap_init alloc n hfn efn keydup = Inr (Some m) \<and>
    hmap_rep hfn efn keydup m (replicate n ([] :: ('k \<times> 'v) list)) \<and> h_copies m = {}"
proof -
  have "sz_mul n ptr_size = n * ptr_size" "block_cells n = n"
    using n by (simp_all add: sz_simps max_cells_def size_max_def ptr_size_def)
  then show ?thesis using assms
    by (simp add: hmap_init_def hmap_rep_def bucket_rep_def bucket_keys_def size_max_def)
qed

lemma bkt_dispose_ok:
  assumes "i < length b" and "\<And>l. b ! i = Some l \<Longrightarrow> \<exists>xs. pl_list l xs"
  shows "bkt_dispose b i = Inr (b[i := None])"
proof (cases "b ! i")
  case None
  then have "b[i := None] = b" by (metis list_update_id)
  with None assms(1) show ?thesis by (simp add: bkt_dispose_def bkt_get_def)
next
  case (Some l)
  with assms ptrlist_dispose_ok [of l] show ?thesis by (auto simp: bkt_dispose_def bkt_get_def)
qed

lemma hmap_clear_ok:
  assumes rep: "hmap_rep hfn efn keydup m als"
  shows "\<exists>m'. hmap_clear (Some m) = Inr (Some m') \<and>
    hmap_rep hfn efn keydup m' (replicate (h_bucketsz m) []) \<and> hmap_count (Some m') = 0 \<and> h_copies m' = h_copies m"
proof -
  note d = hmap_repD [OF rep]
  let ?n = "h_bucketsz m"
  define I where "I = (\<lambda>(i, m'). i \<le> ?n \<and> (\<exists>kb vb. m' = m\<lparr>h_keyb := kb, h_valb := vb\<rparr> \<and>
     length kb = ?n \<and> length vb = ?n \<and> (\<forall>j<?n. if j < i then kb ! j = None \<and> vb ! j = None
        else kb ! j = h_keyb m ! j \<and> vb ! j = h_valb m ! j)))"
  define Q where "Q = (\<lambda>m'. \<exists>kb vb. m' = m\<lparr>h_keyb := kb, h_valb := vb\<rparr> \<and>
     length kb = ?n \<and> length vb = ?n \<and> (\<forall>j<?n. kb ! j = None \<and> vb ! j = None))"
  have "\<exists>m'. c_loop hclear_body (0, m) = Inr m' \<and> Q m'"
  proof (rule c_loop_rule [where I = I and m = "\<lambda>(i, m'). ?n - i"])
    have "m = m\<lparr>h_keyb := h_keyb m, h_valb := h_valb m\<rparr>" by simp
    then show "I (0, m)" unfolding I_def prod.case using d(5,6)
      by (intro conjI exI [of _ "h_keyb m"] exI [of _ "h_valb m"]) auto
  next
    fix s assume I: "I s"
    obtain i m' where s: "s = (i, m')" by fastforce
    with I obtain kb vb where m': "m' = m\<lparr>h_keyb := kb, h_valb := vb\<rparr>" "i \<le> ?n" "length kb = ?n" "length vb = ?n"
      and all: "\<forall>j<?n. if j < i then kb ! j = None \<and> vb ! j = None
        else kb ! j = h_keyb m ! j \<and> vb ! j = h_valb m ! j"
      unfolding I_def by blast
    have low: "kb ! j = None \<and> vb ! j = None" if "j < i" for j using all that m'(2) by auto
    have high: "kb ! j = h_keyb m ! j \<and> vb ! j = h_valb m ! j" if "i \<le> j" "j < ?n" for j using all that by auto
    show "(\<exists>t. hclear_body s = Inr (Continue t) \<and> I t \<and> (case t of (i, m') \<Rightarrow> ?n - i) < (case s of (i, m') \<Rightarrow> ?n - i)) \<or>
          (\<exists>r. hclear_body s = Inr (Break r) \<and> Q r)"
    proof (cases "i < ?n")
      case True
      have b: "bucket_rep (kb ! i) (vb ! i) (als ! i)" using d(10) [OF True] high [of i] True by simp
      have "bkt_dispose kb i = Inr (kb[i := None])" "bkt_dispose vb i = Inr (vb[i := None])"
        using b True m'(3,4) by (auto intro!: bkt_dispose_ok simp: bucket_rep_def split: option.splits)
      then have "hclear_body s = Inr (Continue (Suc i, m\<lparr>h_keyb := kb[i := None], h_valb := vb[i := None]\<rparr>))"
        using s m'(1) True by (simp add: hclear_body_def)
      moreover have "I (Suc i, m\<lparr>h_keyb := kb[i := None], h_valb := vb[i := None]\<rparr>)"
        unfolding I_def prod.case
      proof (intro conjI exI allI impI)
        fix j assume j: "j < ?n"
        show "if j < Suc i then kb[i := None] ! j = None \<and> vb[i := None] ! j = None
            else kb[i := None] ! j = h_keyb m ! j \<and> vb[i := None] ! j = h_valb m ! j"
          using j low [of j] high [of j] True m'(3,4) by (auto simp: nth_list_update)
      qed (use True m'(3,4) in auto)
      ultimately show ?thesis using s True by auto
    next
      case False
      then have "hclear_body s = Inr (Break m')" using s m'(1) by (simp add: hclear_body_def)
      moreover have "Q m'" unfolding Q_def using m' low False by auto
      ultimately show ?thesis by blast
    qed
  qed
  then obtain m' where m': "c_loop hclear_body (0, m) = Inr m'" "Q m'" by blast
  then have "hmap_rep hfn efn keydup (m'\<lparr>h_entries := 0\<rparr>) (replicate ?n [])" "h_copies m' = h_copies m"
    using d(1-4) unfolding Q_def by (auto simp: hmap_rep_def bucket_rep_def bucket_keys_def size_max_def)
  then show ?thesis using m'(1) by (simp add: hmap_clear_def hmap_count_def)
qed

text \<open>The number of the first bucket from \<open>i\<close> on that is not empty.\<close>

definition next_bucket :: "('k \<times> 'v) list list \<Rightarrow> nat \<Rightarrow> nat" where
  "next_bucket als i = i + length (takeWhile (\<lambda>al. al = []) (drop i als))"

lemma skip_loop:
  assumes rep: "hmap_rep hfn efn keydup m als" and i: "i \<le> h_bucketsz m"
  shows "c_loop (skip_body m) i = Inr (next_bucket als i)"
  using i
proof (induction "h_bucketsz m - i" arbitrary: i)
  case 0
  then show ?case using hmap_repD(7) [OF rep]
    by (intro trans [OF c_loop_Break]) (auto simp: skip_body_def next_bucket_def)
next
  case (Suc k)
  note d = hmap_repD [OF rep]
  from Suc.hyps(2) have i: "i < h_bucketsz m" by simp
  have drop: "drop i als = als ! i # drop (Suc i) als" using i d(7) by (simp add: Cons_nth_drop_Suc)
  have "skip_body m i = Inr (if als ! i = [] then Continue (Suc i) else Break i)"
  proof (cases "h_keyb m ! i")
    case None
    then have "als ! i = []" using d(10) [OF i] by (auto simp: bucket_rep_def split: option.splits)
    with None i d(5) show ?thesis by (simp add: skip_body_def bkt_get_def)
  next
    case (Some kl)
    then have "pl_list kl (map fst (als ! i))" using d(10) [OF i] by (auto simp: bucket_rep_def split: option.splits)
    moreover have "length (als ! i) < size_max" using length_bucket_le [of i als] i d(7,9) by simp
    ultimately have "ptrlist_count (Some kl) = Inr (length (als ! i))" using ptrlist_count_ok by fastforce
    with Some i d(5) show ?thesis by (simp add: skip_body_def bkt_get_def)
  qed
  then show ?case
    using Suc.hyps(1) [of "Suc i"] Suc.hyps(2) i drop
    by (cases "als ! i = []") (auto simp: c_loop_Continue c_loop_Break next_bucket_def)
qed

lemma next_bucket_cases:
  assumes "i \<le> length als"
  shows "(next_bucket als i = length als \<and> concat (drop i als) = []) \<or>
    (next_bucket als i < length als \<and> als ! next_bucket als i \<noteq> [] \<and>
     concat (drop i als) = als ! next_bucket als i @ concat (drop (Suc (next_bucket als i)) als))"
  using assms
proof (induction "length als - i" arbitrary: i)
  case 0
  then show ?case by (simp add: next_bucket_def)
next
  case (Suc k)
  then have i: "i < length als" by simp
  then have drop: "drop i als = als ! i # drop (Suc i) als" by (simp add: Cons_nth_drop_Suc)
  show ?case
  proof (cases "als ! i = []")
    case True
    then have "next_bucket als i = next_bucket als (Suc i)" by (simp add: next_bucket_def drop)
    with Suc.hyps(1) [of "Suc i"] Suc.hyps(2) i drop True show ?thesis by auto
  next
    case False
    then have "next_bucket als i = i" by (simp add: next_bucket_def drop)
    with False i drop show ?thesis by auto
  qed
qed

text \<open>The entries the iterator has still to visit.\<close>

definition hmap_ahead :: "('k, 'v) hmap \<Rightarrow> ('k \<times> 'v) list list \<Rightarrow> ('k \<times> 'v) list \<Rightarrow> bool" where
  "hmap_ahead m als es \<longleftrightarrow> h_iterating m \<and>
     (\<exists>b l. h_buckiter m = Val b \<and> h_listiter m = Val l \<and> b < length als \<and> 0 < l \<and> l \<le> length (als ! b) \<and>
        es = drop l (als ! b) @ concat (drop (Suc b) als))"

lemma bucket_get_ok:
  assumes rep: "hmap_rep hfn efn keydup m als" and i: "i < h_bucketsz m" and ne: "als ! i \<noteq> []"
  shows "\<exists>kl vl. h_keyb m ! i = Some kl \<and> h_valb m ! i = Some vl \<and>
    ptrlist_get (Some kl) l = Inr (if l < length (als ! i) then Some (fst (als ! i ! l)) else None) \<and>
    ptrlist_get (Some vl) l = Inr (if l < length (als ! i) then Some (snd (als ! i ! l)) else None)"
proof -
  obtain kl vl where b: "h_keyb m ! i = Some kl" "h_valb m ! i = Some vl"
    "pl_list kl (map fst (als ! i))" "pl_list vl (map snd (als ! i))"
    using hmap_repD(10) [OF rep i] ne by (auto simp: bucket_rep_def split: option.splits)
  then show ?thesis using ptrlist_get_ok [OF b(3), of l] ptrlist_get_ok [OF b(4), of l] by simp
qed

lemma hmap_rep_iter:
  "hmap_rep hfn efn keydup (m\<lparr>h_buckiter := x, h_listiter := y\<rparr>) als = hmap_rep hfn efn keydup m als"
  "hmap_rep hfn efn keydup (m\<lparr>h_buckiter := x, h_listiter := y, h_iterating := z\<rparr>) als = hmap_rep hfn efn keydup m als"
  by (simp_all add: hmap_rep_def)

lemma hmap_yield_ok:
  assumes rep: "hmap_rep hfn efn keydup m als" and i: "b < h_bucketsz m" and l: "l < length (als ! b)"
    and it: "h_iterating m"
  shows "\<exists>m'. hmap_yield m b l (Some (fst (als ! b ! l))) =
      Inr (True, Some (Some (fst (als ! b ! l)), Some (snd (als ! b ! l))), Some m') \<and>
    hmap_rep hfn efn keydup m' als \<and> hmap_ahead m' als (drop (Suc l) (als ! b) @ concat (drop (Suc b) als))"
proof -
  note d = hmap_repD [OF rep]
  have "als ! b \<noteq> []" using l by auto
  from bucket_get_ok [OF rep i this, of l] l obtain kl vl where
    g: "h_valb m ! b = Some vl" "ptrlist_get (Some vl) l = Inr (Some (snd (als ! b ! l)))" by auto
  have add: "sz_add l 1 = Suc l" using l length_bucket_le [of b als] i d(7,9) by (simp add: sz_add_def)
  show ?thesis using g i l d(6,7) rep it add
    by (auto simp: hmap_yield_def bkt_get_def hmap_rep_iter hmap_ahead_def)
qed

lemma hmap_first_ok:
  assumes rep: "hmap_rep hfn efn keydup m als"
  shows "case concat als of
     [] \<Rightarrow> \<exists>m'. hmap_first (Some m) = Inr (False, Some (None, None), Some m')
   | (k, v) # es \<Rightarrow> \<exists>m'. hmap_first (Some m) = Inr (True, Some (Some k, Some v), Some m') \<and>
       hmap_rep hfn efn keydup m' als \<and> hmap_ahead m' als es"
proof -
  note d = hmap_repD [OF rep]
  let ?b = "next_bucket als 0"
  have loop: "c_loop (skip_body m) 0 = Inr ?b" by (rule skip_loop [OF rep]) simp
  from next_bucket_cases [OF le0, of als] show ?thesis
  proof (elim disjE conjE)
    assume b: "?b = length als" and c: "concat (drop 0 als) = []"
    then have e: "concat als = []" by simp
    show ?thesis unfolding e using b loop d(7) by (simp add: hmap_first_def)
  next
    assume b: "?b < length als" "als ! ?b \<noteq> []" and c: "concat (drop 0 als) = als ! ?b @ concat (drop (Suc ?b) als)"
    then obtain k v es where al: "als ! ?b = (k, v) # es" by (cases "als ! ?b") auto
    from bucket_get_ok [OF rep _ b(2), of 0] b d(7) al obtain kl vl where
      g: "h_keyb m ! ?b = Some kl" "h_valb m ! ?b = Some vl"
        "ptrlist_get (Some kl) 0 = Inr (Some k)" "ptrlist_get (Some vl) 0 = Inr (Some v)" by auto
    let ?m = "m\<lparr>h_buckiter := Val ?b, h_listiter := Val 1, h_iterating := True\<rparr>"
    have "hmap_first (Some m) = Inr (True, Some (Some k, Some v), Some ?m)"
      using loop g b(1) d(5-7) by (simp add: hmap_first_def bkt_get_def)
    moreover have "hmap_ahead ?m als (es @ concat (drop (Suc ?b) als))"
      using b(1) al by (auto simp: hmap_ahead_def)
    ultimately show ?thesis using c al rep by (auto simp: hmap_rep_iter)
  qed
qed

lemma hmap_next_ok:
  assumes rep: "hmap_rep hfn efn keydup m als" and ahead: "hmap_ahead m als es0"
  shows "case es0 of
     [] \<Rightarrow> \<exists>m'. hmap_next (Some m) = Inr (False, Some (None, None), Some m')
   | (k, v) # es \<Rightarrow> \<exists>m'. hmap_next (Some m) = Inr (True, Some (Some k, Some v), Some m') \<and>
       hmap_rep hfn efn keydup m' als \<and> hmap_ahead m' als es"
proof -
  note d = hmap_repD [OF rep]
  from ahead obtain b l where it: "h_iterating m" "h_buckiter m = Val b" "h_listiter m = Val l"
    and b: "b < length als" "0 < l" "l \<le> length (als ! b)" and es0: "es0 = drop l (als ! b) @ concat (drop (Suc b) als)"
    by (auto simp: hmap_ahead_def)
  have bm: "b < h_bucketsz m" using b(1) d(7) by simp
  have "als ! b \<noteq> []" using b(2,3) by auto
  from bucket_get_ok [OF rep bm this, of l] obtain kl where
    k: "h_keyb m ! b = Some kl"
      "ptrlist_get (Some kl) l = Inr (if l < length (als ! b) then Some (fst (als ! b ! l)) else None)" by blast
  show ?thesis
  proof (cases "l < length (als ! b)")
    case True
    then have dr: "drop l (als ! b) = als ! b ! l # drop (Suc l) (als ! b)" by (simp add: Cons_nth_drop_Suc)
    have "hmap_next (Some m) = hmap_yield m b l (Some (fst (als ! b ! l)))"
      using it k bm True d(5) by (simp add: hmap_next_def bkt_get_def)
    with hmap_yield_ok [OF rep bm True it(1)] es0 dr show ?thesis by (cases "als ! b ! l") auto
  next
    case False
    let ?b = "next_bucket als (Suc b)"
    have loop: "c_loop (skip_body m) (Suc b) = Inr ?b" using bm by (intro skip_loop [OF rep]) simp
    have es: "es0 = concat (drop (Suc b) als)" using False es0 b(3) by simp
    have sb: "Suc b \<le> length als" using b(1) by simp
    from next_bucket_cases [OF sb] show ?thesis
    proof (elim disjE conjE)
      assume n: "?b = length als" and e: "concat (drop (Suc b) als) = []"
      show ?thesis unfolding es e
        using n loop d(5,7) it k bm False by (simp add: hmap_next_def bkt_get_def)
    next
      assume n: "?b < length als" "als ! ?b \<noteq> []"
        and c: "concat (drop (Suc b) als) = als ! ?b @ concat (drop (Suc ?b) als)"
      have nm: "?b < h_bucketsz m" "0 < length (als ! ?b)" using n d(7) by auto
      then obtain e al where al: "als ! ?b = e # al" by (cases "als ! ?b") auto
      from bucket_get_ok [OF rep nm(1) n(2), of 0] nm(2) obtain kl' where
        k': "h_keyb m ! ?b = Some kl'" "ptrlist_get (Some kl') 0 = Inr (Some (fst (als ! ?b ! 0)))" by auto
      have "hmap_next (Some m) = hmap_yield m ?b 0 (Some (fst (als ! ?b ! 0)))"
        using it k k' bm nm(1) loop False d(5,7) by (simp add: hmap_next_def bkt_get_def)
      with hmap_yield_ok [OF rep nm it(1)] es c al show ?thesis by (cases e) auto
    qed
  qed
qed

section \<open>The contract of a map\<close>

datatype ('k, 'v) map_op = MPut 'k 'v | MGet 'k | MDel 'k

datatype 'v map_out = Got "'v option" | Deleted bool

text \<open>
  A script of operations run on the code, and the same script run on a function from keys to
  optional values.
\<close>

fun map_run ::
  "('m \<Rightarrow> 'k \<Rightarrow> 'v \<Rightarrow> 'm res) \<Rightarrow> ('m \<Rightarrow> 'k \<Rightarrow> 'v option res) \<Rightarrow> ('m \<Rightarrow> 'k \<Rightarrow> (bool \<times> 'm) res) \<Rightarrow>
   'm \<Rightarrow> ('k, 'v) map_op list \<Rightarrow> ('v map_out list \<times> 'm) res" where
  "map_run put get del m [] = Inr ([], m)"
| "map_run put get del m (MPut k v # ops) = bind_res (put m k v) (\<lambda>m'. map_run put get del m' ops)"
| "map_run put get del m (MGet k # ops) =
     bind_res (get m k) (\<lambda>r. bind_res (map_run put get del m ops) (\<lambda>q. Inr (Got r # fst q, snd q)))"
| "map_run put get del m (MDel k # ops) =
     bind_res (del m k) (\<lambda>r. bind_res (map_run put get del (snd r) ops) (\<lambda>q. Inr (Deleted (fst r) # fst q, snd q)))"

fun fun_run ::
  "('k \<Rightarrow> 'k \<Rightarrow> bool) \<Rightarrow> ('k \<Rightarrow> 'v option) \<Rightarrow> ('k, 'v) map_op list \<Rightarrow> 'v map_out list \<times> ('k \<Rightarrow> 'v option)" where
  "fun_run eq f [] = ([], f)"
| "fun_run eq f (MPut k v # ops) = fun_run eq (\<lambda>l. if eq k l then Some v else f l) ops"
| "fun_run eq f (MGet k # ops) = (let q = fun_run eq f ops in (Got (f k) # fst q, snd q))"
| "fun_run eq f (MDel k # ops) =
     (let q = fun_run eq (\<lambda>l. if eq k l then None else f l) ops in (Deleted (f k \<noteq> None) # fst q, snd q))"

locale finite_map =
  fixes rep :: "'m \<Rightarrow> 'a \<Rightarrow> bool" and lookup :: "'a \<Rightarrow> 'k \<Rightarrow> 'v option" and size :: "'a \<Rightarrow> nat"
    and eq :: "'k \<Rightarrow> 'k \<Rightarrow> bool"
    and put :: "'m \<Rightarrow> 'k \<Rightarrow> 'v \<Rightarrow> 'm res" and get :: "'m \<Rightarrow> 'k \<Rightarrow> 'v option res"
    and del :: "'m \<Rightarrow> 'k \<Rightarrow> (bool \<times> 'm) res" and limit :: nat and fits :: "'k \<Rightarrow> bool"
  assumes put_law: "rep m a \<Longrightarrow> size a < limit \<Longrightarrow> fits k \<Longrightarrow>
      \<exists>m' a'. put m k v = Inr m' \<and> rep m' a' \<and> (\<forall>l. lookup a' l = (if eq k l then Some v else lookup a l)) \<and>
        size a' \<le> Suc (size a)"
    and get_law: "rep m a \<Longrightarrow> get m k = Inr (lookup a k)"
    and del_law: "rep m a \<Longrightarrow>
      \<exists>m' a'. del m k = Inr (lookup a k \<noteq> None, m') \<and> rep m' a' \<and>
        (\<forall>l. lookup a' l = (if eq k l then None else lookup a l)) \<and> size a' \<le> size a"
begin

lemma run_refines:
  assumes "rep m a" and "size a + length ops \<le> limit" and "\<forall>k v. MPut k v \<in> set ops \<longrightarrow> fits k"
  shows "\<exists>m' a'. map_run put get del m ops = Inr (fst (fun_run eq (lookup a) ops), m') \<and> rep m' a' \<and>
    lookup a' = snd (fun_run eq (lookup a) ops)"
  using assms
proof (induction ops arbitrary: m a)
  case (Cons op ops)
  have more: "\<forall>k v. MPut k v \<in> set ops \<longrightarrow> fits k" using Cons.prems(3) by simp
  show ?case
  proof (cases op)
    case (MPut k v)
    then have "fits k" using Cons.prems(3) by simp
    with put_law [OF Cons.prems(1), of k v] Cons.prems(2) obtain m1 a1 where
      1: "put m k v = Inr m1" "rep m1 a1" "size a1 \<le> Suc (size a)"
        "lookup a1 = (\<lambda>l. if eq k l then Some v else lookup a l)" by auto
    have "size a1 + length ops \<le> limit" using 1(3) Cons.prems(2) by simp
    from Cons.IH [OF 1(2) this more] 1 MPut show ?thesis by auto
  next
    case (MGet k)
    have "size a + length ops \<le> limit" using Cons.prems(2) by simp
    from Cons.IH [OF Cons.prems(1) this more] MGet get_law [OF Cons.prems(1), of k] show ?thesis
      by (auto simp: Let_def)
  next
    case (MDel k)
    from del_law [OF Cons.prems(1), of k] obtain m1 a1 where
      1: "del m k = Inr (lookup a k \<noteq> None, m1)" "rep m1 a1" "size a1 \<le> size a"
        "lookup a1 = (\<lambda>l. if eq k l then None else lookup a l)" by auto
    have "size a1 + length ops \<le> limit" using 1(3) Cons.prems(2) by simp
    from Cons.IH [OF 1(2) this more] 1 MDel show ?thesis by (auto simp: Let_def)
  qed
qed auto

end

text \<open>
  The operations on a handle that is not NULL, as the contract wants them. For \<open>hmap_del\<close> the map has to
  own its keys, so that the key-copying function has to allocate: it does for every key that fits, as
  long as fewer than \<open>room\<close> copies are allocated.
\<close>

locale heap_keys = hash_fns +
  fixes fits :: "'a \<Rightarrow> bool" and room :: nat
  assumes keydup_new: "finite H \<Longrightarrow> card H < room \<Longrightarrow> fits k \<Longrightarrow> \<exists>k'. keydup H k = (Some k', insert k' H) \<and> k' \<notin> H"

definition hm_rep where
  "hm_rep hfn efn keydup h als \<longleftrightarrow> (\<exists>m. h = Some m \<and> hmap_rep hfn efn keydup m als \<and> hmap_owns m als)"

definition hm_put where
  "hm_put alloc new h k v = hmap_put alloc new h (Some k) (Some v)"

context heap_keys begin

lemma hm_put_ok:
  assumes rep: "hm_rep hfn efn keydup h als" and new: "room_for new lim" and mem: "alloc sizeof_ptrlist"
    and size: "length (concat als) < lim" "lim < size_max" "lim \<le> room" and k: "fits k"
  shows "\<exists>h' als'. hm_put alloc new h k v = Inr h' \<and> hm_rep hfn efn keydup h' als' \<and>
     (\<forall>l. hmap_lookup hfn efn als' l = (if efn k l then Some v else hmap_lookup hfn efn als l)) \<and>
     length (concat als') \<le> Suc (length (concat als))"
proof -
  from rep obtain m where m: "h = Some m" "hmap_rep hfn efn keydup m als" "hmap_owns m als" by (auto simp: hm_rep_def)
  have own: "h_copies m = keys_of als" using m(3) by (simp add: hmap_owns_def)
  have "finite (h_copies m)" "card (h_copies m) < room" using own card_keys_of [OF m(2)] size by simp_all
  then obtain k' where k': "keydup (h_copies m) k = (Some k', insert k' (h_copies m))" using keydup_new k by blast
  have sz: "Suc (length (concat als)) < size_max" using size by simp
  have copy: "fst (keydup (h_copies m) k) \<noteq> None" using k' by simp
  from hmap_put_ok [where alloc = alloc, OF m(2) new size(1) mem sz copy, of v] obtain m' als' where
    m': "hmap_put alloc new (Some m) (Some k) (Some v) = Inr (Some m')" "hmap_rep hfn efn keydup m' als'"
      "\<forall>l. hmap_lookup hfn efn als' l = (if efn k l then Some v else hmap_lookup hfn efn als l)"
      "length (concat als') = length (concat als) + (if hmap_lookup hfn efn als k = None then 1 else 0)"
      "if hmap_lookup hfn efn als k = None
       then h_copies m' = snd (keydup (h_copies m) k) \<and> keys_of als' = insert (the (fst (keydup (h_copies m) k))) (keys_of als)
       else h_copies m' = h_copies m \<and> keys_of als' = keys_of als" by blast
  have "hmap_owns m' als'" using m'(5) own k' by (simp add: hmap_owns_def split: if_splits)
  then have "hm_rep hfn efn keydup (Some m') als'" using m'(2) by (simp add: hm_rep_def)
  moreover have "hm_put alloc new h k v = Inr (Some m')" using m(1) m'(1) by (simp add: hm_put_def)
  ultimately show ?thesis using m'(3,4) by (intro exI [of _ "Some m'"] exI [of _ als']) simp
qed

lemma finite_hmap:
  assumes "room_for new lim" and "alloc sizeof_ptrlist" and "lim < size_max" and "lim \<le> room"
  shows "finite_map (hm_rep hfn efn keydup) (hmap_lookup hfn efn) (\<lambda>als. length (concat als)) efn
    (hm_put alloc new) hmap_get hmap_del lim fits"
proof
  fix h and a :: "('a \<times> 'b) list list" and k :: 'a and v :: 'b
  assume "hm_rep hfn efn keydup h a" and "length (concat a) < lim" and "fits k"
  then show "\<exists>m' a'. hm_put alloc new h k v = Inr m' \<and> hm_rep hfn efn keydup m' a' \<and>
      (\<forall>l. hmap_lookup hfn efn a' l = (if efn k l then Some v else hmap_lookup hfn efn a l)) \<and>
      length (concat a') \<le> Suc (length (concat a))"
    by (rule hm_put_ok [where alloc = alloc, OF _ assms(1,2) _ assms(3,4)])
next
  fix h and a :: "('a \<times> 'b) list list" and k :: 'a
  assume "hm_rep hfn efn keydup h a"
  then show "hmap_get h k = Inr (hmap_lookup hfn efn a k)"
    using hmap_get_ok by (auto simp: hm_rep_def)
next
  fix h and a :: "('a \<times> 'b) list list" and k :: 'a
  assume "hm_rep hfn efn keydup h a"
  then obtain m where m: "h = Some m" "hmap_rep hfn efn keydup m a" "hmap_owns m a" by (auto simp: hm_rep_def)
  obtain m' a' where "hmap_del (Some m) k = Inr (hmap_lookup hfn efn a k \<noteq> None, Some m')" "hmap_rep hfn efn keydup m' a'"
    "hmap_owns m' a'" "\<forall>l. hmap_lookup hfn efn a' l = (if efn k l then None else hmap_lookup hfn efn a l)"
    "length (concat a') = length (concat a) - (if hmap_lookup hfn efn a k = None then 0 else 1)"
    using hmap_del_ok [OF m(2,3)] by blast
  then show "\<exists>m' a'. hmap_del h k = Inr (hmap_lookup hfn efn a k \<noteq> None, m') \<and> hm_rep hfn efn keydup m' a' \<and>
      (\<forall>l. hmap_lookup hfn efn a' l = (if efn k l then None else hmap_lookup hfn efn a l)) \<and>
      length (concat a') \<le> length (concat a)"
    using m(1) unfolding hm_rep_def by auto
qed

text \<open>A map that owns its keys has as many key copies as entries.\<close>

lemma hm_copies:
  "hm_rep hfn efn keydup (Some m) als \<Longrightarrow> finite (h_copies m) \<and> card (h_copies m) = hmap_count (Some m)"
  using card_keys_of [of m als] by (auto simp: hm_rep_def hmap_owns_def hmap_count_def dest: hmap_repD(8))

end

text \<open>The functions of the unit test: keys are addresses, hashed and compared as such, and not copied.\<close>

definition test_hfn :: "nat \<Rightarrow> nat" where
  "test_hfn x = x"

definition test_efn :: "nat \<Rightarrow> nat \<Rightarrow> bool" where
  "test_efn x y \<longleftrightarrow> x = y"

definition test_dfn :: "nat set \<Rightarrow> nat \<Rightarrow> nat option \<times> nat set" where
  "test_dfn H x = (Some x, H)"

interpretation test_fns: hash_fns test_hfn test_efn test_dfn
  by unfold_locales (simp_all add: test_hfn_def test_efn_def test_dfn_def)

text \<open>
  Key functions that allocate, as \<open>hmap_del\<close> needs them: a key is a pointer to a number, the number is
  hashed and compared, and a copy is a new block with the same number. At most a hundred fit.
\<close>

definition box_hfn :: "nat \<times> nat \<Rightarrow> nat" where
  "box_hfn p = snd p"

definition box_efn :: "nat \<times> nat \<Rightarrow> nat \<times> nat \<Rightarrow> bool" where
  "box_efn p q \<longleftrightarrow> snd p = snd q"

definition box_dup :: "(nat \<times> nat) set \<Rightarrow> nat \<times> nat \<Rightarrow> (nat \<times> nat) option \<times> (nat \<times> nat) set" where
  "box_dup H p =
     (if card H < 100 then let q = (Suc (Max (insert 0 (fst ` H))), snd p) in (Some q, insert q H) else (None, H))"

interpretation box_keys: heap_keys box_hfn box_efn box_dup "\<lambda>_. True" 100
proof
  fix H :: "(nat \<times> nat) set" and p :: "nat \<times> nat"
  assume "finite H" "card H < 100"
  moreover have "(Suc (Max (insert 0 (fst ` H))), snd p) \<notin> H"
  proof
    assume "(Suc (Max (insert 0 (fst ` H))), snd p) \<in> H"
    then have "Suc (Max (insert 0 (fst ` H))) \<in> insert 0 (fst ` H)" by force
    then have "Suc (Max (insert 0 (fst ` H))) \<le> Max (insert 0 (fst ` H))" using \<open>finite H\<close> by (intro Max_ge) auto
    then show False by simp
  qed
  ultimately show "\<exists>k'. box_dup H p = (Some k', insert k' H) \<and> k' \<notin> H" by (simp add: box_dup_def Let_def)
qed (auto simp: box_hfn_def box_efn_def box_dup_def Let_def split: if_splits)

lemma new_above_room: "room_for new_above n"
  by (simp add: room_for_def new_above_ok) (simp add: new_above_def)

interpretation box_map: finite_map "hm_rep box_hfn box_efn box_dup" "hmap_lookup box_hfn box_efn"
  "\<lambda>als. length (concat als)" box_efn "hm_put (mem_upto 3000) new_above" hmap_get hmap_del 100 "\<lambda>_. True"
  by (rule box_keys.finite_hmap [OF new_above_room]) (simp_all add: mem_upto_def sizeof_ptrlist_def size_max_def)

section \<open>Properties\<close>

text \<open>All entries in the order the iterator visits them, given enough fuel.\<close>

fun hmap_rest :: "nat \<Rightarrow> ('k, 'v) hmap_visit res \<Rightarrow> ('k \<times> 'v) list res" where
  "hmap_rest 0 r = Inl Diverges"
| "hmap_rest (Suc n) r = bind_res r (\<lambda>(found, out, h).
     if \<not> found then Inr []
     else case out of
       Some (Some k, Some v) \<Rightarrow> bind_res (hmap_rest n (hmap_next h)) (\<lambda>es. Inr ((k, v) # es))
     | _ \<Rightarrow> Inl Null_Deref)"

lemma hmap_rest_next:
  "hmap_rep hfn efn keydup m als \<Longrightarrow> hmap_ahead m als es \<Longrightarrow>
   hmap_rest (Suc (length es)) (hmap_next (Some m)) = Inr es"
proof (induction es arbitrary: m)
  case Nil
  from hmap_next_ok [OF Nil] show ?case by auto
next
  case (Cons e es)
  obtain k v where e: "e = (k, v)" by fastforce
  from hmap_next_ok [OF Cons.prems] e obtain m' where
    "hmap_next (Some m) = Inr (True, Some (Some k, Some v), Some m')"
    "hmap_rep hfn efn keydup m' als" "hmap_ahead m' als es" by auto
  with Cons.IH [of m'] e show ?case by simp
qed

lemma hmap_rest_first:
  assumes "hmap_rep hfn efn keydup m als"
  shows "hmap_rest (Suc (length (concat als))) (hmap_first (Some m)) = Inr (concat als)"
proof (cases "concat als")
  case Nil
  then show ?thesis using hmap_first_ok [OF assms] unfolding Nil by auto
next
  case (Cons e es)
  obtain k v where e: "e = (k, v)" by fastforce
  from hmap_first_ok [OF assms] Cons e obtain m' where
    "hmap_first (Some m) = Inr (True, Some (Some k, Some v), Some m')"
    "hmap_rep hfn efn keydup m' als" "hmap_ahead m' als es" by auto
  with hmap_rest_next [of hfn efn keydup m' als es] Cons e show ?thesis by simp
qed

context hash_fns begin

lemma hmap_entries_lookup:
  assumes rep: "hmap_rep hfn efn keydup m als"
  shows "hmap_lookup hfn efn als k = Some v \<longleftrightarrow> (\<exists>k'. efn k' k \<and> (k', v) \<in> set (concat als))"
proof -
  note d = hmap_repD [OF rep]
  have get: "al_get efn al k = Some v \<longleftrightarrow> (\<exists>k'. efn k' k \<and> (k', v) \<in> set al)"
    if "sorted_wrt (\<lambda>a b. \<not> efn a b) (map fst al)" for al
    using that
  proof (induction al)
    case (Cons kv al)
    obtain k1 w where kv: "kv = (k1, w)" by fastforce
    have "efn k1 k \<Longrightarrow> (k', v) \<in> set al \<Longrightarrow> efn k' k \<Longrightarrow> False" for k'
    proof -
      assume 1: "efn k1 k" "(k', v) \<in> set al" "efn k' k"
      then have "efn k1 k'" using efn_sym efn_trans by blast
      moreover have "k' \<in> set (map fst al)" using 1(2) by force
      ultimately show False using Cons.prems kv by auto
    qed
    then show ?case using Cons kv by auto
  qed simp
  have i: "hfn k mod length als < length als" using d(4,7) by simp
  then have keys: "bucket_keys hfn efn (length als) (hfn k mod length als) (als ! (hfn k mod length als))"
    using d(7,11) by simp
  have "(\<exists>k'. efn k' k \<and> (k', v) \<in> set (als ! (hfn k mod length als))) \<longleftrightarrow> (\<exists>k'. efn k' k \<and> (k', v) \<in> set (concat als))"
  proof
    assume "\<exists>k'. efn k' k \<and> (k', v) \<in> set (concat als)"
    then obtain k' al where k': "efn k' k" "(k', v) \<in> set al" "al \<in> set als" by auto
    then obtain j where j: "j < length als" "al = als ! j" by (auto simp: in_set_conv_nth)
    then have "bucket_keys hfn efn (length als) j (als ! j)" using d(7,11) by simp
    then have "hfn k' mod length als = j" using k'(2) j(2) by (auto simp: bucket_keys_def)
    then show "\<exists>k'. efn k' k \<and> (k', v) \<in> set (als ! (hfn k mod length als))"
      using k' j efn_hash [OF k'(1)] by auto
  next
    assume "\<exists>k'. efn k' k \<and> (k', v) \<in> set (als ! (hfn k mod length als))"
    then show "\<exists>k'. efn k' k \<and> (k', v) \<in> set (concat als)" using nth_mem [OF i] by auto
  qed
  then show ?thesis using get keys by (simp add: hmap_lookup_def bucket_keys_def)
qed

end

text \<open>
  C12: a new hash map behaves like a function from keys to values: every script of put, get and del
  runs without fault and yields exactly the answers of the same script run on a function, for any
  hash function, any equality that is an equivalence respected by the hash, and any key-copying
  function that allocates its copies (\<open>hmap_del\<close> frees them). In the end exactly one copy is allocated
  for each entry: none is lost and none is freed twice. Memory is needed for the map, its \<open>n\<close>
  buckets, and as many nodes and key copies as the script has operations.
\<close>

theorem hmap_refines_function:
  fixes ops :: "('k, 'v) map_op list"
  assumes "heap_keys hfn efn keydup fits room" and "room_for new (length ops)" and "length ops \<le> room"
    and "alloc sizeof_ptrlist" and "alloc sizeof_hmap" and "alloc (n * ptr_size)"
    and "0 < n" and "n < max_cells" and "length ops < size_max" and "\<forall>k v. MPut k v \<in> set ops \<longrightarrow> fits k"
  shows "\<exists>m m'. hmap_init alloc n hfn efn keydup = Inr (Some m) \<and>
    map_run (hm_put alloc new) hmap_get hmap_del (Some m) ops =
      Inr (fst (fun_run efn (\<lambda>_. None) ops), Some m') \<and>
    finite (h_copies m') \<and> card (h_copies m') = hmap_count (Some m')"
proof -
  from hmap_init_ok [where alloc = alloc and hfn = hfn and efn = efn and keydup = keydup and ?'v = 'v, OF assms(5-8)]
  obtain m :: "('k, 'v) hmap" where
    m: "hmap_init alloc n hfn efn keydup = Inr (Some m)" "hmap_rep hfn efn keydup m (replicate n [])" "h_copies m = {}" by blast
  then have rep: "hm_rep hfn efn keydup (Some m) (replicate n [])" by (simp add: hm_rep_def hmap_owns_def)
  have none: "hmap_lookup hfn efn (replicate n ([] :: ('k \<times> 'v) list)) = (\<lambda>_. None)"
    using assms(7) by (simp add: hmap_lookup_def fun_eq_iff)
  have len: "length (concat (replicate n ([] :: ('k \<times> 'v) list))) + length ops \<le> length ops" by simp
  from finite_map.run_refines [OF heap_keys.finite_hmap [where alloc = alloc, OF assms(1,2,4,9,3)] rep len assms(10)]
  obtain m' a' where run: "map_run (hm_put alloc new) hmap_get hmap_del (Some m) ops =
      Inr (fst (fun_run efn (\<lambda>_. None) ops), m')" "hm_rep hfn efn keydup m' a'"
    unfolding none by blast
  then obtain m1 where "m' = Some m1" by (auto simp: hm_rep_def)
  with run heap_keys.hm_copies [OF assms(1), of m1 a'] have "finite (h_copies m1) \<and> card (h_copies m1) = hmap_count (Some m1)"
    by simp
  with m(1) run(1) \<open>m' = Some m1\<close> show ?thesis by (intro exI [of _ m] exI [of _ m1]) simp
qed

theorem hmap_refines_function_witness:
  "\<exists>m m'. hmap_init (mem_upto 3000) 300 box_hfn box_efn box_dup = Inr (Some m) \<and>
    map_run (hm_put (mem_upto 3000) new_above) hmap_get hmap_del (Some m)
      [MPut (0, 7) ''a'', MPut (0, 307) ''b'', MGet (1, 7), MPut (2, 7) ''c'', MGet (0, 7),
       MDel (3, 307), MDel (0, 307), MGet (0, 307)] =
      Inr ([Got (Some ''a''), Got (Some ''c''), Deleted True, Deleted False, Got None], Some m') \<and>
    finite (h_copies m') \<and> card (h_copies m') = hmap_count (Some m')"
proof -
  let ?ops = "[MPut (0, 7) ''a'', MPut (0, 307) ''b'', MGet (1, 7), MPut (2, 7) ''c'', MGet (0, 7),
       MDel (3, 307), MDel (0, 307), MGet (0, 307)]"
  have out: "fst (fun_run box_efn (\<lambda>_. None) ?ops) =
      [Got (Some ''a''), Got (Some ''c''), Deleted True, Deleted False, Got None]"
    by (simp add: box_efn_def)
  have "length ?ops \<le> 100" "length ?ops < size_max" "0 < (300 :: nat)" "300 < max_cells" "mem_upto 3000 (300 * ptr_size)"
    "mem_upto 3000 sizeof_hmap" "mem_upto 3000 sizeof_ptrlist"
    by (simp_all add: mem_upto_def sizeof_ptrlist_def sizeof_hmap_def ptr_size_def max_cells_def size_max_def)
  from hmap_refines_function [OF box_keys.heap_keys_axioms new_above_room this(1,7,6,5,3,4,2)] show ?thesis
    unfolding out by simp
qed

text \<open>
  C13: the iterator visits every entry exactly once: \<open>hmap_first\<close> and then \<open>hmap_next\<close> until it reports
  the end yields \<open>hmap_count\<close> entries with pairwise different keys, and \<open>hmap_get\<close> finds a value under a
  key exactly if an entry of an equal key with this value was visited.
\<close>

theorem hmap_iteration_complete:
  assumes "hash_fns hfn efn keydup" and "hmap_rep hfn efn keydup m als"
  shows "\<exists>es. hmap_rest (Suc (hmap_count (Some m))) (hmap_first (Some m)) = Inr es \<and>
    length es = hmap_count (Some m) \<and> sorted_wrt (\<lambda>a b. \<not> efn a b) (map fst es) \<and>
    (\<forall>k v. hmap_get (Some m) k = Inr (Some v) \<longleftrightarrow> (\<exists>k'. efn k' k \<and> (k', v) \<in> set es))"
proof -
  have "hmap_count (Some m) = length (concat als)" using hmap_repD(8) [OF assms(2)] by (simp add: hmap_count_def)
  then show ?thesis
    using hmap_rest_first [OF assms(2)] hash_fns.hmap_entries_distinct [OF assms]
      hash_fns.hmap_get_ok [OF assms] hash_fns.hmap_entries_lookup [OF assms]
    by (intro exI [of _ "concat als"]) simp
qed

definition demo_hmap :: "(nat, string) hmap" where
  "demo_hmap = \<lparr>h_keyb = [Some \<lparr>pl_nodes = [1 \<mapsto> \<lparr>pn_data = 4, pn_next = None\<rparr>], pl_head = Some 1, pl_iter = None\<rparr>, None],
     h_valb = [Some \<lparr>pl_nodes = [1 \<mapsto> \<lparr>pn_data = ''x'', pn_next = None\<rparr>], pl_head = Some 1, pl_iter = None\<rparr>, None],
     h_bucketsz = 2, h_entries = 1, h_iterating = False, h_buckiter = Undef, h_listiter = Undef,
     h_hfn = test_hfn, h_efn = test_efn, h_keydupfn = test_dfn, h_copies = {}\<rparr>"

lemma pl_list_single: "pl_list \<lparr>pl_nodes = [a \<mapsto> \<lparr>pn_data = x, pn_next = None\<rparr>], pl_head = Some a, pl_iter = i\<rparr> [x]"
  by (auto simp: pl_list_def pl_rep_def intro!: exI [of _ "[(a, x)]"])

lemma demo_hmap_rep: "hmap_rep test_hfn test_efn test_dfn demo_hmap [[(4, ''x'')], []]"
  by (auto simp: hmap_rep_def demo_hmap_def bucket_rep_def bucket_keys_def size_max_def less_2_cases_iff
      test_hfn_def pl_list_single simp del: One_nat_def)

theorem hmap_iteration_complete_witness:
  "\<exists>es. hmap_rest 2 (hmap_first (Some demo_hmap)) = Inr es \<and> length es = 1 \<and>
    (\<forall>k v. hmap_get (Some demo_hmap) k = Inr (Some v) \<longleftrightarrow> (\<exists>k'. test_efn k' k \<and> (k', v) \<in> set es))"
proof -
  have c: "hmap_count (Some demo_hmap) = 1" by (simp add: hmap_count_def demo_hmap_def)
  show ?thesis
    using hmap_iteration_complete [OF test_fns.hash_fns_axioms demo_hmap_rep] unfolding c
    by (metis Suc_1)
qed

lemma hmap_dispose_ok: "hmap_rep hfn efn keydup m als \<Longrightarrow> hmap_dispose (Some m) = Inr (h_copies m)"
  using hmap_clear_ok [of hfn efn keydup m als] by (auto simp: hmap_dispose_def)

text \<open>
  \<open>hmap_clear\<close> frees every list and leaves a well-formed empty map with the same buckets and
  functions, in which no key is found; the key copies stay allocated.
\<close>

theorem hmap_clear_empty:
  fixes m :: "('k, 'v) hmap"
  assumes "hash_fns hfn efn keydup" and "hmap_rep hfn efn keydup m als"
  shows "\<exists>m'. hmap_clear (Some m) = Inr (Some m') \<and> hmap_count (Some m') = 0 \<and>
    hmap_rep hfn efn keydup m' (replicate (h_bucketsz m) []) \<and> (\<forall>k. hmap_get (Some m') k = Inr None) \<and>
    h_copies m' = h_copies m"
proof -
  from hmap_clear_ok [OF assms(2)] obtain m' where m': "hmap_clear (Some m) = Inr (Some m')"
    "hmap_rep hfn efn keydup m' (replicate (h_bucketsz m) [])" "hmap_count (Some m') = 0" "h_copies m' = h_copies m" by blast
  have "hmap_lookup hfn efn (replicate (h_bucketsz m) ([] :: ('k \<times> 'v) list)) k = None" for k
    using hmap_repD(4) [OF assms(2)] by (simp add: hmap_lookup_def)
  then show ?thesis using m' hash_fns.hmap_get_ok [OF assms(1) m'(2)] by simp
qed

theorem hmap_clear_empty_witness:
  "\<exists>m'. hmap_clear (Some demo_hmap) = Inr (Some m') \<and> hmap_count (Some m') = 0 \<and>
    (\<forall>k. hmap_get (Some m') k = Inr None)"
  using hmap_clear_empty [OF test_fns.hash_fns_axioms demo_hmap_rep] by blast

text \<open>
  In a map with the key-copying function of the unit test, which returns its argument, deleting a
  key that is there is a fault: \<open>hmap_del\<close> frees memory that is not the map's.
\<close>

theorem hmap_del_of_foreign_key:
  "hmap_rep test_hfn test_efn test_dfn m als \<Longrightarrow> h_copies m = {} \<Longrightarrow> hmap_get (Some m) k \<noteq> Inr None \<Longrightarrow>
   hmap_del (Some m) k = Inl Dangling"
  using test_fns.hmap_get_ok [of m als k] by (intro test_fns.hmap_del_foreign [of m als]) auto

theorem hmap_del_of_foreign_key_witness: "hmap_del (Some demo_hmap) 4 = Inl Dangling"
proof -
  have "hmap_get (Some demo_hmap) (4 :: nat) \<noteq> Inr None"
    using test_fns.hmap_get_ok [OF demo_hmap_rep, of 4] by (simp add: hmap_lookup_def test_hfn_def test_efn_def flip: numeral_2_eq_2)
  then show ?thesis using hmap_del_of_foreign_key [OF demo_hmap_rep] by (simp add: demo_hmap_def)
qed

end
