(* ===== verification/StrMap.thy ===== *)
theory StrMap imports HashMap "HOL-Library.Word" begin

text \<open>
  strmap.c: a hash map with strings for keys. The three hash functions work on 8, 16 and 32 bit
  words; \<open>smap_init\<close> chooses by the number of buckets. A C string is the list of its characters
  without the terminating NUL.
\<close>

unbundle bit_operations_syntax

section \<open>The code\<close>

text \<open>
  A key of the map is a pointer to a string: either one the caller lends, or a block that \<open>str_dup\<close> got
  from \<open>malloc\<close>, with its address. Two blocks with one text are different keys, and only blocks can be
  freed. \<open>strcmp\<close> and the hash functions read the text.
\<close>

datatype str_key = Lent (key_text: string) | Block nat (key_text: string)

definition streq :: "str_key \<Rightarrow> str_key \<Rightarrow> bool" where
  "streq s1 s2 \<longleftrightarrow> key_text s1 = key_text s2"

text \<open>\<open>str_dup\<close> asks for the characters and the NUL; \<open>new\<close> chooses an address that is not in use.\<close>

fun key_block :: "str_key \<Rightarrow> nat" where
  "key_block (Lent t) = 0"
| "key_block (Block a t) = a"

definition strkeydup ::
  "(nat \<Rightarrow> bool) \<Rightarrow> (nat set \<Rightarrow> nat option) \<Rightarrow> str_key set \<Rightarrow> str_key \<Rightarrow> str_key option \<times> str_key set" where
  "strkeydup alloc new H s =
     (if \<not> alloc (length (key_text s) + 1) then (None, H)
      else case new (key_block ` H) of
        None \<Rightarrow> (None, H)
      | Some a \<Rightarrow> let p = Block a (key_text s) in (Some p, insert p H))"

fun small_loop :: "bool \<Rightarrow> 8 word \<Rightarrow> string \<Rightarrow> 8 word" where
  "small_loop shift res [] = res"
| "small_loop shift res (c # s) =
     (let cur = of_char c; shift' = (\<not> shift); cur' = (if shift' then push_bit 3 cur else cur) in
      small_loop shift' (res XOR cur') s)"

definition strhash_small :: "string \<Rightarrow> nat" where
  "strhash_small s = unat (small_loop False 0xaa s)"

fun mid_loop :: "nat \<Rightarrow> 16 word \<Rightarrow> 16 word \<Rightarrow> string \<Rightarrow> 16 word" where
  "mid_loop step cur res [] = (if step \<noteq> 0 then res XOR cur else res)"
| "mid_loop step cur res (b # s) =
     (let cur' = cur OR push_bit (step * 8) (of_char b); step' = step + 1 in
      if step' = 2 then mid_loop 0 0 (res XOR cur') s else mid_loop step' cur' res s)"

definition strhash_mid :: "string \<Rightarrow> nat" where
  "strhash_mid s = unat (mid_loop 0 0 0xaaaa s)"

fun large_loop :: "nat \<Rightarrow> 32 word \<Rightarrow> 32 word \<Rightarrow> string \<Rightarrow> 32 word" where
  "large_loop step cur res [] = (if step \<noteq> 0 then res XOR cur else res)"
| "large_loop step cur res (b # s) =
     (let cur' = cur OR push_bit (step * 8) (of_char b); step' = step + 1 in
      if step' = 4 then large_loop 0 0 (res XOR cur') s else large_loop step' cur' res s)"

definition strhash_large :: "string \<Rightarrow> nat" where
  "strhash_large s = unat (large_loop 0 0 0xaaaaaaaa s)"

definition smap_hash :: "nat \<Rightarrow> str_key \<Rightarrow> nat" where
  "smap_hash bucketsz k =
     (if bucketsz \<le> 256 then strhash_small (key_text k)
      else if bucketsz \<le> 65536 then strhash_mid (key_text k) else strhash_large (key_text k))"

type_synonym 'v smap = "(str_key, 'v) hmap option"

definition smap_init :: "(nat \<Rightarrow> bool) \<Rightarrow> (nat set \<Rightarrow> nat option) \<Rightarrow> nat \<Rightarrow> 'v smap res" where
  "smap_init alloc new bucketsz = hmap_init alloc bucketsz (smap_hash bucketsz) streq (strkeydup alloc new)"

definition smap_clear :: "'v smap \<Rightarrow> 'v smap res" where
  "smap_clear h = hmap_clear h"

definition smap_dispose :: "'v smap \<Rightarrow> str_key set res" where
  "smap_dispose h = hmap_dispose h"

text \<open>The strings a caller passes are not blocks of the map.\<close>

definition smap_put ::
  "(nat \<Rightarrow> bool) \<Rightarrow> (nat set \<Rightarrow> nat option) \<Rightarrow> 'v smap \<Rightarrow> string option \<Rightarrow> 'v option \<Rightarrow> 'v smap res" where
  "smap_put alloc new h key elem = hmap_put alloc new h (map_option Lent key) elem"

definition smap_get :: "'v smap \<Rightarrow> string \<Rightarrow> 'v option res" where
  "smap_get h key = hmap_get h (Lent key)"

definition smap_del :: "'v smap \<Rightarrow> string \<Rightarrow> (bool \<times> 'v smap) res" where
  "smap_del h key = hmap_del h (Lent key)"

definition smap_count :: "'v smap \<Rightarrow> nat" where
  "smap_count h = hmap_count h"

text \<open>
  The iteration of a string map writes the value wherever \<open>hmap_first\<close> and \<open>hmap_next\<close> do, but the key
  only when there is one.
\<close>

type_synonym 'v smap_visit = "bool \<times> str_key option option \<times> 'v option option \<times> 'v smap"

definition smap_visited :: "(str_key, 'v) hmap_visit \<Rightarrow> 'v smap_visit" where
  "smap_visited = (\<lambda>(b, out, h). (b, if b then map_option fst out else None, map_option snd out, h))"

definition smap_first :: "'v smap \<Rightarrow> 'v smap_visit res" where
  "smap_first h = bind_res (hmap_first h) (\<lambda>r. Inr (smap_visited r))"

definition smap_next :: "'v smap \<Rightarrow> 'v smap_visit res" where
  "smap_next h = bind_res (hmap_next h) (\<lambda>r. Inr (smap_visited r))"

section \<open>The hash functions\<close>

text \<open>
  The reference: cut the string into pieces of the word's size in bytes, read each piece as a
  little-endian number, and combine the numbers by exclusive or.
\<close>

fun le_word :: "string \<Rightarrow> 'w::len word" where
  "le_word [] = 0"
| "le_word (c # s) = of_char c OR push_bit 8 (le_word s)"

function pieces :: "nat \<Rightarrow> 'a list \<Rightarrow> 'a list list" where
  "pieces n xs = (if xs = [] \<or> n = 0 then [] else take n xs # pieces n (drop n xs))"
  by auto
termination by (relation "measure (\<lambda>(n, xs). length xs)") auto

declare pieces.simps [simp del]

definition xor_fold :: "nat \<Rightarrow> 'w::len word \<Rightarrow> string \<Rightarrow> 'w word" where
  "xor_fold n init s = foldl (XOR) init (map le_word (pieces n s))"

lemma pieces_nil [simp]: "pieces n [] = []"
  by (simp add: pieces.simps)

lemma pieces_2 [simp]:
  "pieces 2 [a] = [[a]]" "pieces 2 (a # b # s) = [a, b] # pieces 2 s"
  by (simp_all add: pieces.simps [of 2 "a # t" for t])

lemma pieces_4 [simp]:
  "pieces 4 [a] = [[a]]" "pieces 4 [a, b] = [[a, b]]" "pieces 4 [a, b, c] = [[a, b, c]]"
  "pieces 4 (a # b # c # d # s) = [a, b, c, d] # pieces 4 s"
  by (simp_all add: pieces.simps [of 4 "a # t" for t])

lemma list_cases4:
  obtains "s = []" | a where "s = [a]" | a b where "s = [a, b]" | a b c where "s = [a, b, c]"
    | a b c d t where "s = a # b # c # d # t"
  by (cases s rule: list.exhaust) (metis list.exhaust)+

lemma mid_loop_fold: "mid_loop 0 0 r s = xor_fold 2 r s"
proof (induction s arbitrary: r rule: length_induct)
  case (1 s)
  show ?case
  proof (cases s)
    case Nil
    then show ?thesis by (simp add: xor_fold_def)
  next
    case (Cons a t)
    then show ?thesis using 1
      by (cases t) (simp_all add: xor_fold_def push_bit_or)
  qed
qed

lemma large_loop_fold: "large_loop 0 0 r s = xor_fold 4 r s"
proof (induction s arbitrary: r rule: length_induct)
  case (1 s)
  show ?case
    by (cases s rule: list_cases4) (use 1 in \<open>simp_all add: xor_fold_def push_bit_or ac_simps\<close>)
qed

text \<open>In the 8 bit hash the characters at even positions are shifted by three bits first.\<close>

definition small_byte :: "nat \<times> char \<Rightarrow> 8 word" where
  "small_byte = (\<lambda>(i, c). if even i then push_bit 3 (of_char c) else of_char c)"

lemma small_loop_fold: "small_loop (odd n) r s = foldl (XOR) r (map small_byte (enumerate n s))"
proof (induction s arbitrary: n r)
  case (Cons c s)
  show ?case using Cons [of "Suc n"] by (simp add: small_byte_def Let_def)
qed simp

section \<open>String maps\<close>

text \<open>
  Memory for a map: every request of at most \<open>lim\<close> bytes succeeds as long as fewer than \<open>room\<close> nodes or
  key copies are allocated. A key fits if its copy is such a request.
\<close>

definition smap_mem :: "(nat \<Rightarrow> bool) \<Rightarrow> (nat set \<Rightarrow> nat option) \<Rightarrow> nat \<Rightarrow> nat \<Rightarrow> bool" where
  "smap_mem alloc new lim room \<longleftrightarrow> (\<forall>k\<le>lim. alloc k) \<and> room_for new room"

lemma smap_keys:
  assumes "smap_mem alloc new lim room"
  shows "heap_keys (smap_hash n) streq (strkeydup alloc new) (\<lambda>k. length (key_text k) < lim) room"
proof
  fix H :: "str_key set" and k :: str_key
  assume H: "finite H" "card H < room" and k: "length (key_text k) < lim"
  have "card (key_block ` H) < room" using card_image_le [OF H(1), of key_block] H(2) by simp
  with assms H(1) obtain a where a: "new (key_block ` H) = Some a" by (auto simp: smap_mem_def room_for_def)
  have "a \<notin> key_block ` H" using assms a H(1) by (auto simp: smap_mem_def room_for_def new_ok_def)
  then have "Block a (key_text k) \<notin> H" by force
  moreover have "alloc (length (key_text k) + 1)" using assms k by (simp add: smap_mem_def)
  ultimately show "\<exists>k'. strkeydup alloc new H k = (Some k', insert k' H) \<and> k' \<notin> H"
    using a by (simp add: strkeydup_def Let_def)
qed (auto simp: streq_def smap_hash_def strkeydup_def Let_def split: if_splits option.splits)

lemma smap_mem_demo: "smap_mem (mem_upto lim) new_above lim room"
  by (simp add: smap_mem_def mem_upto_def new_above_room)

interpretation str_keys: heap_keys "smap_hash 256" streq "strkeydup (mem_upto 3000) new_above"
    "\<lambda>k. length (key_text k) < 3000" 1000000
  by (rule smap_keys [OF smap_mem_demo])

text \<open>The operations on a handle that is not NULL, with the map of keys read as a map of strings.\<close>

definition sm_put where
  "sm_put alloc new h k v = smap_put alloc new h (Some k) (Some v)"

definition smap_lookup :: "nat \<Rightarrow> (str_key \<times> 'v) list list \<Rightarrow> string \<Rightarrow> 'v option" where
  "smap_lookup n als s = hmap_lookup (smap_hash n) streq als (Lent s)"

abbreviation sm_rep where
  "sm_rep alloc new n \<equiv> hm_rep (smap_hash n) streq (strkeydup alloc new)"

lemma finite_smap:
  assumes mem: "smap_mem alloc new lim room" and lim: "sizeof_ptrlist \<le> lim" and room: "room < size_max"
  shows "finite_map (sm_rep alloc new n) (smap_lookup n) (\<lambda>als. length (concat als)) (=)
    (sm_put alloc new) smap_get smap_del room (\<lambda>s. length s < lim)"
proof -
  have "room_for new room" "alloc sizeof_ptrlist" using mem lim by (simp_all add: smap_mem_def)
  note m = heap_keys.finite_hmap [where alloc = alloc, OF smap_keys [OF mem, of n] this room order_refl]
  have eq: "streq (Lent k) (Lent l) \<longleftrightarrow> k = l" for k l by (simp add: streq_def)
  have put: "sm_put alloc new h k v = hm_put alloc new h (Lent k) v" for h :: "'v smap" and k v
    by (simp add: sm_put_def smap_put_def hm_put_def)
  show ?thesis
  proof
    fix h :: "'v smap" and a :: "(str_key \<times> 'v) list list" and k :: string and v :: 'v
    assume "sm_rep alloc new n h a" "length (concat a) < room" "length k < lim"
    with finite_map.put_law [OF m, of h a "Lent k" v] obtain m' a' where
      "hm_put alloc new h (Lent k) v = Inr m'" "sm_rep alloc new n m' a'" "length (concat a') \<le> Suc (length (concat a))"
      and l: "\<forall>l. hmap_lookup (smap_hash n) streq a' l = (if streq (Lent k) l then Some v else hmap_lookup (smap_hash n) streq a l)"
      by auto
    moreover have "\<forall>l. smap_lookup n a' l = (if k = l then Some v else smap_lookup n a l)"
      using l eq by (simp add: smap_lookup_def)
    ultimately show "\<exists>m' a'. sm_put alloc new h k v = Inr m' \<and> sm_rep alloc new n m' a' \<and>
        (\<forall>l. smap_lookup n a' l = (if k = l then Some v else smap_lookup n a l)) \<and> length (concat a') \<le> Suc (length (concat a))"
      unfolding put by blast
  next
    fix h :: "'v smap" and a :: "(str_key \<times> 'v) list list" and k :: string
    assume "sm_rep alloc new n h a"
    then show "smap_get h k = Inr (smap_lookup n a k)"
      using finite_map.get_law [OF m] by (simp add: smap_get_def smap_lookup_def)
  next
    fix h :: "'v smap" and a :: "(str_key \<times> 'v) list list" and k :: string
    assume "sm_rep alloc new n h a"
    with finite_map.del_law [OF m, of h a "Lent k"] obtain m' a' where
      "hmap_del h (Lent k) = Inr (hmap_lookup (smap_hash n) streq a (Lent k) \<noteq> None, m')" "sm_rep alloc new n m' a'"
      "length (concat a') \<le> length (concat a)"
      and l: "\<forall>l. hmap_lookup (smap_hash n) streq a' l = (if streq (Lent k) l then None else hmap_lookup (smap_hash n) streq a l)"
      by auto
    moreover have "\<forall>l. smap_lookup n a' l = (if k = l then None else smap_lookup n a l)"
      using l eq by (simp add: smap_lookup_def)
    ultimately show "\<exists>m' a'. smap_del h k = Inr (smap_lookup n a k \<noteq> None, m') \<and> sm_rep alloc new n m' a' \<and>
        (\<forall>l. smap_lookup n a' l = (if k = l then None else smap_lookup n a l)) \<and> length (concat a') \<le> length (concat a)"
      unfolding smap_del_def smap_lookup_def by blast
  qed
qed

interpretation str_map: finite_map "sm_rep (mem_upto 3000) new_above 256" "smap_lookup 256"
  "\<lambda>als. length (concat als)" "(=)" "sm_put (mem_upto 3000) new_above" smap_get smap_del 1000000 "\<lambda>s. length s < 3000"
  by (rule finite_smap [OF smap_mem_demo]) (simp_all add: sizeof_ptrlist_def size_max_def)

lemma smap_init_ok:
  assumes mem: "smap_mem alloc new lim room" and lim: "sizeof_hmap \<le> lim" "n * ptr_size \<le> lim" and n: "0 < n" "n < max_cells"
  shows "\<exists>m. smap_init alloc new n = Inr (Some m) \<and> sm_rep alloc new n (Some m) (replicate n ([] :: (str_key \<times> 'v) list)) \<and>
    smap_lookup n (replicate n ([] :: (str_key \<times> 'v) list)) = Map.empty"
proof -
  have "alloc sizeof_hmap" "alloc (n * ptr_size)" using mem lim by (simp_all add: smap_mem_def)
  from hmap_init_ok [where alloc = alloc and hfn = "smap_hash n" and efn = streq and keydup = "strkeydup alloc new" and ?'v = 'v, OF this n]
  show ?thesis using n(1) by (auto simp: smap_init_def hm_rep_def hmap_owns_def smap_lookup_def hmap_lookup_def fun_eq_iff)
qed

text \<open>With equality of strings, the number of entries is the number of keys.\<close>

lemma hmap_count_card:
  assumes fns: "hash_fns hfn streq keydup" and rep: "hmap_rep hfn streq keydup m als"
  shows "hmap_count (Some m) = card (dom (\<lambda>s. hmap_lookup hfn streq als (Lent s)))"
proof -
  have "distinct (map key_text (map fst (concat als)))"
    using hash_fns.hmap_entries_distinct [OF fns rep] unfolding distinct_conv_nth sorted_wrt_iff_nth_less
    by (simp add: streq_def) (metis linorder_neqE_nat)
  then have "card (key_text ` fst ` set (concat als)) = length (concat als)" by (metis distinct_card length_map set_map)
  moreover have "dom (\<lambda>s. hmap_lookup hfn streq als (Lent s)) = key_text ` fst ` set (concat als)"
    using hash_fns.hmap_entries_lookup [OF fns rep] by (force simp: dom_def streq_def)
  ultimately show ?thesis using hmap_repD(8) [OF rep] by (simp add: hmap_count_def)
qed

section \<open>Properties\<close>

text \<open>
  C14: the hash loops compute what they mean to: the 16 and 32 bit hashes are the exclusive or, with a
  constant, of the little-endian words the string is cut into, the last one padded with zeros; the
  8 bit hash is that of its bytes, every other one shifted; so every hash is below the number of
  buckets up to which \<open>smap_init\<close> uses it.
\<close>

theorem strhash_fold:
  "strhash_small s = unat (foldl (XOR) 0xaa (map small_byte (enumerate 0 s))) \<and> strhash_small s < 256 \<and>
   strhash_mid s = unat (xor_fold 2 (0xaaaa :: 16 word) s) \<and> strhash_mid s < 65536 \<and>
   strhash_large s = unat (xor_fold 4 (0xaaaaaaaa :: 32 word) s) \<and> strhash_large s < 2 ^ 32"
  using small_loop_fold [of 0 "0xaa" s] unsigned_less [of "small_loop False 0xaa s"]
    unsigned_less [of "mid_loop 0 0 0xaaaa s"] unsigned_less [of "large_loop 0 0 0xaaaaaaaa s"]
  by (simp add: strhash_small_def strhash_mid_def strhash_large_def mid_loop_fold large_loop_fold)

text \<open>
  C15: a string map of any number of buckets is a finite map from strings: every script of put, get
  and del yields the answers of the same script on a partial function, and \<open>smap_count\<close> is then the
  number of keys that have a value and the number of key copies that are allocated. This needs
  memory: requests of up to \<open>lim\<close> bytes succeed, where the map, its \<open>n\<close> buckets, a list header and the
  copy of each key put (its characters and the NUL) are such requests, and there is room for as
  many nodes and key copies as the script has operations.
\<close>

theorem smap_refines_map:
  fixes ops :: "(string, 'v) map_op list"
  assumes "smap_mem alloc new lim (length ops)" and "sizeof_hmap \<le> lim" and "sizeof_ptrlist \<le> lim"
    and "n * ptr_size \<le> lim" and "0 < n" and "n < max_cells" and "length ops < size_max"
    and "\<forall>k v. MPut k v \<in> set ops \<longrightarrow> length k < lim"
  shows "\<exists>m m'. smap_init alloc new n = Inr (Some m) \<and>
    map_run (sm_put alloc new) smap_get smap_del (Some m) ops = Inr (fst (fun_run (=) (\<lambda>_. None) ops), Some m') \<and>
    smap_count (Some m') = card (dom (snd (fun_run (=) (\<lambda>_. None) ops))) \<and>
    card (h_copies m') = smap_count (Some m')"
proof -
  let ?e = "replicate n ([] :: (str_key \<times> 'v) list)"
  note keys = smap_keys [OF assms(1), of n]
  from smap_init_ok [where ?'v = 'v, OF assms(1,2,4,5,6)] obtain m where
    m: "smap_init alloc new n = Inr (Some m)" "sm_rep alloc new n (Some m) ?e" "smap_lookup n ?e = Map.empty" by blast
  have len: "length (concat ?e) + length ops \<le> length ops" by simp
  from finite_map.run_refines [OF finite_smap [OF assms(1,3,7)] m(2) len assms(8)] obtain h a' where
    run: "map_run (sm_put alloc new) smap_get smap_del (Some m) ops = Inr (fst (fun_run (=) Map.empty ops), h)"
      "sm_rep alloc new n h a'" "smap_lookup n a' = snd (fun_run (=) Map.empty ops)" unfolding m(3) by blast
  then obtain m' where m': "h = Some m'" "hmap_rep (smap_hash n) streq (strkeydup alloc new) m' a'" by (auto simp: hm_rep_def)
  have "hash_fns (smap_hash n) streq (strkeydup alloc new)" using keys by (simp add: heap_keys_def)
  from hmap_count_card [OF this m'(2)] run(3) have "smap_count (Some m') = card (dom (snd (fun_run (=) Map.empty ops)))"
    by (simp add: smap_count_def smap_lookup_def [symmetric])
  moreover have "card (h_copies m') = smap_count (Some m')"
    using heap_keys.hm_copies [OF keys, of m' a'] run(2) m'(1) by (simp add: smap_count_def)
  ultimately show ?thesis using m(1) run(1) m'(1) by blast
qed

theorem smap_refines_map_witness:
  "\<exists>m m'. smap_init (mem_upto 100) new_above 8 = Inr (Some m) \<and>
    map_run (sm_put (mem_upto 100) new_above) smap_get smap_del (Some m)
      [MPut ''ab'' (1 :: nat), MPut ''cd'' 2, MPut ''ab'' 3, MGet ''ab'', MDel ''cd'', MGet ''cd''] =
      Inr ([Got (Some 3), Deleted True, Got None], Some m') \<and> smap_count (Some m') = 1 \<and> card (h_copies m') = 1"
proof -
  let ?ops = "[MPut ''ab'' (1 :: nat), MPut ''cd'' 2, MPut ''ab'' 3, MGet ''ab'', MDel ''cd'', MGet ''cd'']"
  have out: "fst (fun_run (=) (\<lambda>_. None) ?ops) = [Got (Some 3), Deleted True, Got None]" by simp
  have "snd (fun_run (=) (\<lambda>_. None) ?ops) = [''ab'' \<mapsto> 3]" by (auto simp: fun_eq_iff)
  then have card: "card (dom (snd (fun_run (=) (\<lambda>_. None) ?ops))) = 1" by simp
  have "sizeof_hmap \<le> 100" "sizeof_ptrlist \<le> 100" "8 * ptr_size \<le> 100" "0 < (8 :: nat)" "8 < max_cells" "length ?ops < size_max"
    by (simp_all add: max_cells_def size_max_def sizeof_hmap_def sizeof_ptrlist_def ptr_size_def)
  moreover have "\<forall>k v. MPut k v \<in> set ?ops \<longrightarrow> length k < 100" by simp
  ultimately show ?thesis
    using smap_refines_map [OF smap_mem_demo [of 100 "length ?ops"], of 8] unfolding out card by metis
qed

end
