(* ===== verification/DynArr.thy ===== *)
theory DynArr imports CDouble begin

text \<open>
  dynarr.c: an array of pointers that grows to any index it is accessed at. Elements are optional
  (NULL is an element); a cell that was never written is \<open>Undef\<close>, unless the array is a "nulling"
  one, which fills every new cell with NULL. The locale \<open>sparse_array\<close> is the contract of a nulling
  array: a function from indices, NULL almost everywhere.
\<close>

section \<open>The code\<close>

record 'a dynarr =
  dy_nelem :: nat
  dy_nused :: nat
  dy_iter :: "nat cell"
  dy_data :: "'a option cell list"
  dy_nulling :: bool

definition sizeof_dynarr :: nat where
  "sizeof_dynarr = 40"

text \<open>\<open>nullrange data off num\<close>, from the index \<open>i\<close> of its loop on.\<close>

definition null_body ::
  "nat \<Rightarrow> nat \<Rightarrow> nat \<times> 'a option cell list \<Rightarrow> (nat \<times> 'a option cell list, 'a option cell list) step res" where
  "null_body off num = (\<lambda>(i, data).
     if i < num then bind_res (arr_set data (sz_add i off) None) (\<lambda>a. Inr (Continue (i + 1, a)))
     else Inr (Break data))"

definition nullrange :: "'a option cell list \<Rightarrow> nat \<Rightarrow> nat \<Rightarrow> 'a option cell list res" where
  "nullrange data off num = c_loop (null_body off num) (0, data)"

text \<open>Neither allocation is looked at; the used size is the initial size, not 0.\<close>

definition dynarr_init :: "(nat \<Rightarrow> bool) \<Rightarrow> nat \<Rightarrow> bool \<Rightarrow> 'a dynarr res" where
  "dynarr_init alloc initsize nulling =
     (if \<not> alloc sizeof_dynarr then Inl Null_Deref
      else
        let data = (if alloc (sz_mul ptr_size initsize)
                    then replicate (block_cells initsize) Undef else []) in
        bind_res (if nulling then nullrange data 0 initsize else Inr data) (\<lambda>a.
        Inr \<lparr>dy_nelem = initsize, dy_nused = initsize, dy_iter = Undef, dy_data = a, dy_nulling = nulling\<rparr>))"

definition dynarr_clear :: "'a dynarr option \<Rightarrow> 'a dynarr option" where
  "dynarr_clear h = map_option (\<lambda>d. d\<lparr>dy_nused := 0\<rparr>) h"

definition dynarr_truncate :: "'a dynarr option \<Rightarrow> nat \<Rightarrow> 'a dynarr option res" where
  "dynarr_truncate h fromindex =
     (case h of
        None \<Rightarrow> Inr None
      | Some d \<Rightarrow>
          let d1 = d\<lparr>dy_nused := fromindex\<rparr> in
          if dy_nulling d1
          then bind_res (nullrange (dy_data d1) fromindex (sz_sub (dy_nelem d1) fromindex)) (\<lambda>a.
               Inr (Some (d1\<lparr>dy_data := a\<rparr>)))
          else Inr (Some d1))"

definition dynarr_count :: "'a dynarr \<Rightarrow> nat" where
  "dynarr_count d = dy_nused d"

definition dynarr_resize :: "(nat \<Rightarrow> bool) \<Rightarrow> 'a dynarr \<Rightarrow> nat \<Rightarrow> (bool \<times> 'a dynarr) res" where
  "dynarr_resize alloc d newsz =
     (if \<not> alloc (sz_mul newsz ptr_size) then Inr (False, d)
      else
        let least = (if newsz < dy_nused d then newsz else dy_nused d) in
        bind_res (arr_copy (replicate (block_cells newsz) Undef) 0 (dy_data d) 0 least) (\<lambda>newloc.
        bind_res (if dy_nulling d then nullrange newloc least (sz_sub newsz least) else Inr newloc) (\<lambda>a.
        Inr (True, d\<lparr>dy_data := a, dy_nelem := newsz, dy_nused := least\<rparr>))))"

text \<open>
  The new size is a power of two above the index, computed with the floating-point \<open>log2\<close>. The
  constant \<open>1\<close> is an \<open>int\<close>, so shifting it by 31 or more is undefined; below that the truncated
  logarithm is exact.
\<close>

fun ilog2 :: "nat \<Rightarrow> nat" where
  "ilog2 n = (if n \<le> 1 then 0 else Suc (ilog2 (n div 2)))"

declare ilog2.simps [simp del]

definition grown_size :: "nat \<Rightarrow> nat res" where
  "grown_size index =
     (let k = (if index = 0 then 0 else ilog2 index + 1) in
      if 31 \<le> k then Inl Bad_Arith else Inr (2 ^ k))"

definition provide_index :: "(nat \<Rightarrow> bool) \<Rightarrow> 'a dynarr \<Rightarrow> nat \<Rightarrow> 'a dynarr res" where
  "provide_index alloc d index =
     (if dy_nelem d \<le> index then
        bind_res (grown_size index) (\<lambda>nsz.
        bind_res (dynarr_resize alloc d nsz) (\<lambda>r. if \<not> fst r then Inl (Exits 1) else Inr (snd r)))
      else Inr d)"

definition dynarr_push :: "(nat \<Rightarrow> bool) \<Rightarrow> 'a dynarr \<Rightarrow> 'a option \<Rightarrow> (bool \<times> 'a dynarr) res" where
  "dynarr_push alloc d x =
     bind_res (provide_index alloc d (dy_nused d)) (\<lambda>d1.
     bind_res (arr_set (dy_data d1) (dy_nused d1) x) (\<lambda>a.
     Inr (True, d1\<lparr>dy_data := a, dy_nused := sz_add (dy_nused d1) 1\<rparr>)))"

definition dynarr_get :: "(nat \<Rightarrow> bool) \<Rightarrow> 'a dynarr \<Rightarrow> nat \<Rightarrow> ('a option \<times> 'a dynarr) res" where
  "dynarr_get alloc d index =
     bind_res (provide_index alloc d index) (\<lambda>d1.
     bind_res (arr_get (dy_data d1) index) (\<lambda>x. Inr (x, d1)))"

definition dynarr_put :: "(nat \<Rightarrow> bool) \<Rightarrow> 'a dynarr \<Rightarrow> nat \<Rightarrow> 'a option \<Rightarrow> 'a dynarr res" where
  "dynarr_put alloc d index elem =
     bind_res (provide_index alloc d index) (\<lambda>d1.
     bind_res (arr_set (dy_data d1) index elem) (\<lambda>a.
     let d2 = d1\<lparr>dy_data := a\<rparr> in
     Inr (if dy_nused d2 \<le> index then d2\<lparr>dy_nused := sz_add index 1\<rparr> else d2)))"

definition dynarr_shrink :: "(nat \<Rightarrow> bool) \<Rightarrow> 'a dynarr option \<Rightarrow> double \<Rightarrow> (bool \<times> 'a dynarr option) res" where
  "dynarr_shrink alloc h countfac =
     (case h of
        None \<Rightarrow> Inr (False, None)
      | Some d \<Rightarrow>
          if countfac < 1 then Inr (False, Some d)
          else
            bind_res (to_size (d_mul countfac (dbl (dy_nused d)))) (\<lambda>newsz.
            bind_res (dynarr_resize alloc d newsz) (\<lambda>r. Inr (fst r, Some (snd r)))))"

text \<open>The result of an iteration step is \<open>None\<close> where the code returns false.\<close>

definition dynarr_next :: "'a dynarr \<Rightarrow> ('a option option \<times> 'a dynarr) res" where
  "dynarr_next d =
     (case dy_iter d of
        Undef \<Rightarrow> Inl Indeterminate
      | Val i \<Rightarrow>
          if dy_nused d \<le> i then Inr (None, d)
          else bind_res (arr_get (dy_data d) i) (\<lambda>x. Inr (Some x, d\<lparr>dy_iter := Val (sz_add i 1)\<rparr>)))"

definition dynarr_first :: "'a dynarr \<Rightarrow> ('a option option \<times> 'a dynarr) res" where
  "dynarr_first d = dynarr_next (d\<lparr>dy_iter := Val 0\<rparr>)"

definition dyfind_body :: "'a dynarr \<Rightarrow> ('a option \<Rightarrow> bool) \<Rightarrow> nat \<Rightarrow> (nat, int) step res" where
  "dyfind_body d P i =
     (if i < dy_nused d then
        bind_res (arr_get (dy_data d) i) (\<lambda>x. if P x then Inr (Break (int i)) else Inr (Continue (i + 1)))
      else Inr (Break (- 1)))"

definition dynarr_findfn :: "'a dynarr \<Rightarrow> ('a option \<Rightarrow> bool) \<Rightarrow> int res" where
  "dynarr_findfn d ffn = c_loop (dyfind_body d ffn) 0"

definition dynarr_findraw :: "'a dynarr \<Rightarrow> 'a option \<Rightarrow> int res" where
  "dynarr_findraw d data = dynarr_findfn d (\<lambda>x. x = data)"

definition dynarr_findeqfn :: "'a dynarr \<Rightarrow> ('a option \<Rightarrow> 'b \<Rightarrow> bool) \<Rightarrow> 'b \<Rightarrow> int res" where
  "dynarr_findeqfn d efn needle = dynarr_findfn d (\<lambda>x. efn x needle)"

section \<open>Growing\<close>

lemma ilog2_bounds: "0 < n \<Longrightarrow> 2 ^ ilog2 n \<le> n \<and> n < 2 ^ Suc (ilog2 n)"
proof (induction n rule: ilog2.induct)
  case (1 n)
  show ?case
  proof (cases "n \<le> 1")
    case True
    with 1(2) show ?thesis by (simp add: ilog2.simps)
  next
    case False
    have "0 < n div 2" using False by simp
    from 1(1) [OF False this] show ?thesis
      using False by (simp add: ilog2.simps [of n]) linarith
  qed
qed

lemma ilog2_less: "0 < n \<Longrightarrow> n < 2 ^ k \<Longrightarrow> ilog2 n < k"
proof (rule ccontr)
  assume n: "0 < n" "n < 2 ^ k" and "\<not> ilog2 n < k"
  then have "(2 :: nat) ^ k \<le> 2 ^ ilog2 n" by (intro power_increasing) auto
  also have "\<dots> \<le> n" using ilog2_bounds [OF n(1)] by simp
  finally show False using n(2) by simp
qed

lemma grown_size_ok:
  assumes "i < 2 ^ 30"
  shows "\<exists>n. grown_size i = Inr n \<and> i < n \<and> n \<le> 2 * i + 1 \<and> n \<le> 2 ^ 30"
proof (cases "i = 0")
  case True
  then show ?thesis by (simp add: grown_size_def)
next
  case False
  then have k: "ilog2 i < 30" using ilog2_less [of i 30] assms by simp
  have b: "2 ^ ilog2 i \<le> i" "i < 2 ^ Suc (ilog2 i)" using ilog2_bounds [of i] False by auto
  have "(2 :: nat) ^ Suc (ilog2 i) \<le> 2 ^ 30" using k by (intro power_increasing) auto
  then show ?thesis using k b False by (auto simp: grown_size_def)
qed

lemma grown_size_overflow: "2 ^ 30 \<le> i \<Longrightarrow> grown_size i = Inl Bad_Arith"
proof -
  assume i: "2 ^ 30 \<le> i"
  then have "0 < i" by (cases i) auto
  then have "i < 2 ^ Suc (ilog2 i)" using ilog2_bounds by blast
  with i have "(2 :: nat) ^ 30 < 2 ^ Suc (ilog2 i)" by linarith
  then have "30 < Suc (ilog2 i)" by (rule power_less_imp_less_exp [rotated]) simp
  with \<open>0 < i\<close> show ?thesis by (simp add: grown_size_def)
qed

lemma nullrange_loop:
  "off + num \<le> length data \<Longrightarrow> off + num < size_max \<Longrightarrow> i \<le> num \<Longrightarrow>
   c_loop (null_body off num) (i, data) =
     Inr (take (off + i) data @ replicate (num - i) (Val None) @ drop (off + num) data)"
proof (induction "num - i" arbitrary: i data)
  case 0
  then show ?case by (intro trans [OF c_loop_Break]) (auto simp: null_body_def)
next
  case (Suc k)
  then have i: "i < num" by simp
  let ?data = "data[off + i := Val None]"
  have "sz_add i off = off + i" using Suc.prems i by (simp add: sz_add_def)
  then have step: "c_loop (null_body off num) (i, data) = c_loop (null_body off num) (Suc i, ?data)"
    using Suc.prems i by (intro c_loop_Continue) (simp add: null_body_def arr_set_in)
  have t: "take (off + Suc i) ?data = take (off + i) data @ [Val None]"
    using Suc.prems i by (simp add: take_Suc_conv_app_nth)
  have r: "replicate (num - i) (Val None) = Val None # replicate (num - Suc i) (Val None :: 'a option cell)"
    using i by (simp add: Suc_diff_Suc flip: replicate_Suc)
  have "c_loop (null_body off num) (Suc i, ?data) =
      Inr (take (off + Suc i) ?data @ replicate (num - Suc i) (Val None) @ drop (off + num) ?data)"
    by (rule Suc.hyps(1)) (use Suc.hyps(2) Suc.prems i in auto)
  then show ?case unfolding step t r using i by simp
qed

lemma nullrange_ok:
  "off + num \<le> length data \<Longrightarrow> length data < size_max \<Longrightarrow>
   nullrange data off num = Inr (take off data @ replicate num (Val None) @ drop (off + num) data)"
  using nullrange_loop [of off num data 0] by (simp add: nullrange_def)

section \<open>Arrays that fill with NULL\<close>

definition dyn_inv :: "'a dynarr \<Rightarrow> bool" where
  "dyn_inv d \<longleftrightarrow>
     dy_nulling d \<and> length (dy_data d) = dy_nelem d \<and> dy_nused d \<le> dy_nelem d \<and> dy_nelem d < max_cells \<and>
     all_val (dy_data d) \<and> (\<forall>i < dy_nelem d. dy_nused d \<le> i \<longrightarrow> dy_data d ! i = Val None)"

text \<open>The array as a function of the index, NULL outside.\<close>

definition dyn_at :: "'a dynarr \<Rightarrow> nat \<Rightarrow> 'a option" where
  "dyn_at d i = (if i < dy_nelem d then the_val (dy_data d ! i) else None)"

lemma dyn_cell: "dyn_inv d \<Longrightarrow> i < dy_nelem d \<Longrightarrow> dy_data d ! i = Val (dyn_at d i)"
  by (cases "dy_data d ! i") (auto simp: dyn_inv_def dyn_at_def all_val_def all_set_conv_all_nth)

lemma dyn_at_unused: "dyn_inv d \<Longrightarrow> dy_nused d \<le> i \<Longrightarrow> dyn_at d i = None"
  by (auto simp: dyn_inv_def dyn_at_def)

lemma dynarr_init_ok:
  assumes "alloc sizeof_dynarr" and "alloc (n * ptr_size)" and n: "n < max_cells"
  shows "\<exists>d. dynarr_init alloc n True = Inr d \<and> dyn_inv d \<and> dyn_at d = (\<lambda>_. None) \<and> dynarr_count d = n"
proof -
  have "sz_mul ptr_size n = n * ptr_size" "block_cells n = n" "n < size_max"
    using n by (simp_all add: sz_simps max_cells_def size_max_def ptr_size_def sz_mul_def)
  then have "dynarr_init alloc n True = Inr \<lparr>dy_nelem = n, dy_nused = n, dy_iter = Undef,
      dy_data = replicate n (Val None), dy_nulling = True\<rparr>" (is "_ = Inr ?d")
    using assms by (simp add: dynarr_init_def nullrange_ok)
  moreover have "dyn_inv ?d \<and> dyn_at ?d = (\<lambda>_. None) \<and> dynarr_count ?d = n"
    using n by (simp add: dyn_inv_def dyn_at_def dynarr_count_def all_val_def fun_eq_iff)
  ultimately show ?thesis by blast
qed

lemma dynarr_resize_ok:
  assumes inv: "dyn_inv d" and n: "dy_nused d \<le> n" "n < max_cells" and mem: "alloc (n * ptr_size)"
  shows "\<exists>d'. dynarr_resize alloc d n = Inr (True, d') \<and> dyn_inv d' \<and> dyn_at d' = dyn_at d \<and>
     dy_nelem d' = n \<and> dy_nused d' = dy_nused d \<and> dy_iter d' = dy_iter d"
proof -
  let ?u = "dy_nused d"
  have d: "dy_nulling d" "length (dy_data d) = dy_nelem d" "?u \<le> dy_nelem d" "all_val (dy_data d)"
    using inv by (auto simp: dyn_inv_def)
  have sizes: "sz_mul n ptr_size = n * ptr_size" "block_cells n = n" "n < size_max" "sz_sub n ?u = n - ?u"
    using n by (simp_all add: sz_simps max_cells_def size_max_def ptr_size_def)
  let ?a = "take ?u (dy_data d) @ replicate (n - ?u) (Val None)"
  let ?d = "d\<lparr>dy_data := ?a, dy_nelem := n, dy_nused := ?u\<rparr>"
  have "arr_copy (replicate n Undef) 0 (dy_data d) 0 ?u = Inr (take ?u (dy_data d) @ replicate (n - ?u) Undef)"
    using d n by (simp add: arr_copy_in)
  moreover have "nullrange (take ?u (dy_data d) @ replicate (n - ?u) Undef) ?u (n - ?u) = Inr ?a"
    using d n sizes by (subst nullrange_ok) auto
  ultimately have "dynarr_resize alloc d n = Inr (True, ?d)"
    using mem d(1) n(1) sizes by (simp add: dynarr_resize_def Let_def)
  moreover have "dyn_inv ?d"
    using d n by (auto simp: dyn_inv_def nth_append all_val_def dest: in_set_takeD)
  moreover have "dyn_at ?d i = dyn_at d i" for i
    using dyn_at_unused [OF inv, of i] d n by (auto simp: dyn_at_def nth_append)
  ultimately show ?thesis by (intro exI [of _ ?d]) auto
qed

lemma provide_index_ok:
  assumes inv: "dyn_inv d" and i: "i < 2 ^ 30" and mem: "\<And>n. n \<le> (2 * i + 1) * ptr_size \<Longrightarrow> alloc n"
  shows "\<exists>d'. provide_index alloc d i = Inr d' \<and> dyn_inv d' \<and> dyn_at d' = dyn_at d \<and> i < dy_nelem d' \<and>
     dy_nused d' = dy_nused d \<and> dy_iter d' = dy_iter d"
proof (cases "dy_nelem d \<le> i")
  case True
  obtain n where n: "grown_size i = Inr n" "i < n" "n \<le> 2 * i + 1" "n \<le> 2 ^ 30" using grown_size_ok [OF i] by blast
  have "dy_nused d \<le> n" "n < max_cells" using inv True n by (auto simp: dyn_inv_def max_cells_def)
  moreover have "alloc (n * ptr_size)" by (rule mem) (rule mult_le_mono1 [OF n(3)])
  ultimately obtain d' where "dynarr_resize alloc d n = Inr (True, d')" "dyn_inv d'" "dyn_at d' = dyn_at d"
    "dy_nelem d' = n" "dy_nused d' = dy_nused d" "dy_iter d' = dy_iter d"
    using dynarr_resize_ok [where alloc = alloc, OF inv] by blast
  with True n show ?thesis by (simp add: provide_index_def)
qed (use inv in \<open>auto simp: provide_index_def\<close>)

lemma dyn_set:
  assumes inv: "dyn_inv d" and i: "i < dy_nelem d" and u: "u = max (dy_nused d) (Suc i)"
  shows "dyn_inv (d\<lparr>dy_data := (dy_data d)[i := Val x], dy_nused := u\<rparr>) \<and>
    dyn_at (d\<lparr>dy_data := (dy_data d)[i := Val x], dy_nused := u\<rparr>) = (dyn_at d)(i := x)"
  using assms
  by (auto simp: dyn_inv_def dyn_at_def nth_list_update fun_eq_iff all_val_def dest: set_update_subset_insert [THEN subsetD])

lemma dynarr_put_ok:
  assumes inv: "dyn_inv d" and i: "i < 2 ^ 30" and mem: "\<And>n. n \<le> (2 * i + 1) * ptr_size \<Longrightarrow> alloc n"
  shows "\<exists>d'. dynarr_put alloc d i x = Inr d' \<and> dyn_inv d' \<and> dyn_at d' = (dyn_at d)(i := x) \<and>
    dynarr_count d' = max (dynarr_count d) (Suc i)"
proof -
  from provide_index_ok [where alloc = alloc, OF inv i mem] obtain d1 where
    d1: "provide_index alloc d i = Inr d1" "dyn_inv d1" "dyn_at d1 = dyn_at d" "i < dy_nelem d1"
      "dy_nused d1 = dy_nused d" by blast
  have len: "length (dy_data d1) = dy_nelem d1" using d1(2) by (simp add: dyn_inv_def)
  let ?a = "(dy_data d1)[i := Val x]"
  have "dynarr_put alloc d i x = Inr (d1\<lparr>dy_data := ?a, dy_nused := max (dy_nused d1) (Suc i)\<rparr>)"
    using d1(1,4) len i by (auto simp: dynarr_put_def arr_set_in Let_def sz_add_def size_max_def max_def)
  then show ?thesis using dyn_set [OF d1(2,4) refl, of x] d1(3,5) by (simp add: dynarr_count_def)
qed

lemma dynarr_get_ok:
  assumes inv: "dyn_inv d" and i: "i < 2 ^ 30" and mem: "\<And>n. n \<le> (2 * i + 1) * ptr_size \<Longrightarrow> alloc n"
  shows "\<exists>d'. dynarr_get alloc d i = Inr (dyn_at d i, d') \<and> dyn_inv d' \<and> dyn_at d' = dyn_at d \<and>
    dynarr_count d' = dynarr_count d"
proof -
  from provide_index_ok [where alloc = alloc, OF inv i mem] obtain d1 where
    d1: "provide_index alloc d i = Inr d1" "dyn_inv d1" "dyn_at d1 = dyn_at d" "i < dy_nelem d1"
      "dy_nused d1 = dy_nused d" by blast
  then have "arr_get (dy_data d1) i = Inr (dyn_at d i)"
    using dyn_cell [OF d1(2,4)] by (simp add: arr_get_def dyn_inv_def)
  with d1 show ?thesis by (simp add: dynarr_get_def dynarr_count_def)
qed

lemma dynarr_push_ok:
  assumes inv: "dyn_inv d" and i: "dynarr_count d < 2 ^ 30"
    and mem: "\<And>n. n \<le> (2 * dynarr_count d + 1) * ptr_size \<Longrightarrow> alloc n"
  shows "\<exists>d'. dynarr_push alloc d x = Inr (True, d') \<and> dyn_inv d' \<and> dyn_at d' = (dyn_at d)(dynarr_count d := x) \<and>
    dynarr_count d' = Suc (dynarr_count d)"
proof -
  from provide_index_ok [where alloc = alloc, OF inv i mem] obtain d1 where
    d1: "provide_index alloc d (dynarr_count d) = Inr d1" "dyn_inv d1" "dyn_at d1 = dyn_at d" "dynarr_count d < dy_nelem d1"
      "dy_nused d1 = dy_nused d" by blast
  have len: "length (dy_data d1) = dy_nelem d1" using d1(2) by (simp add: dyn_inv_def)
  have "dynarr_push alloc d x =
      Inr (True, d1\<lparr>dy_data := (dy_data d1)[dynarr_count d := Val x], dy_nused := Suc (dynarr_count d)\<rparr>)"
    using d1(1,4,5) len i by (simp add: dynarr_push_def arr_set_in sz_add_def size_max_def dynarr_count_def)
  then show ?thesis using dyn_set [OF d1(2,4), of "Suc (dynarr_count d)" x] d1(3,5) by (simp add: dynarr_count_def)
qed

lemma dynarr_truncate_ok:
  assumes inv: "dyn_inv d" and n: "n \<le> dy_nelem d"
  shows "\<exists>d'. dynarr_truncate (Some d) n = Inr (Some d') \<and> dyn_inv d' \<and> dynarr_count d' = n \<and>
    dyn_at d' = (\<lambda>i. if i < n then dyn_at d i else None)"
proof -
  have d: "dy_nulling d" "length (dy_data d) = dy_nelem d" "all_val (dy_data d)" "dy_nelem d < size_max"
    using inv by (auto simp: dyn_inv_def max_cells_def size_max_def)
  let ?a = "take n (dy_data d) @ replicate (dy_nelem d - n) (Val None)"
  let ?d = "d\<lparr>dy_nused := n, dy_data := ?a\<rparr>"
  have "sz_sub (dy_nelem d) n = dy_nelem d - n" using n d(4) by (simp add: sz_simps)
  then have "dynarr_truncate (Some d) n = Inr (Some ?d)"
    using d n by (simp add: dynarr_truncate_def nullrange_ok)
  moreover have "dyn_inv ?d" using inv n by (auto simp: dyn_inv_def nth_append all_val_def dest: in_set_takeD)
  moreover have "dyn_at ?d = (\<lambda>i. if i < n then dyn_at d i else None)"
    using d(2) n by (auto simp: dyn_at_def nth_append fun_eq_iff)
  ultimately show ?thesis by (simp add: dynarr_count_def)
qed

section \<open>Searching and iterating\<close>

lemma dyn_arr_get: "dyn_inv d \<Longrightarrow> i < dy_nused d \<Longrightarrow> arr_get (dy_data d) i = Inr (dyn_at d i)"
  using dyn_cell [of d i] by (auto simp: arr_get_def dyn_inv_def)

lemma dynarr_find_ok:
  assumes inv: "dyn_inv d"
  shows "\<exists>r. dynarr_findfn d P = Inr r \<and>
    (if \<exists>i < dynarr_count d. P (dyn_at d i) then r = int (LEAST i. i < dynarr_count d \<and> P (dyn_at d i)) else r = - 1)"
  unfolding dynarr_findfn_def
proof (rule c_loop_rule [where I = "\<lambda>i. i \<le> dy_nused d \<and> (\<forall>j<i. \<not> P (dyn_at d j))" and m = "\<lambda>i. dy_nused d - i"])
  fix i assume I: "i \<le> dy_nused d \<and> (\<forall>j<i. \<not> P (dyn_at d j))"
  show "(\<exists>t. dyfind_body d P i = Inr (Continue t) \<and> (t \<le> dy_nused d \<and> (\<forall>j<t. \<not> P (dyn_at d j))) \<and> dy_nused d - t < dy_nused d - i) \<or>
    (\<exists>r. dyfind_body d P i = Inr (Break r) \<and>
       (if \<exists>i < dynarr_count d. P (dyn_at d i) then r = int (LEAST i. i < dynarr_count d \<and> P (dyn_at d i)) else r = - 1))"
  proof (cases "i < dy_nused d")
    case True
    note get = dyn_arr_get [OF inv True]
    show ?thesis
    proof (cases "P (dyn_at d i)")
      case hit: True
      have "(LEAST i. i < dynarr_count d \<and> P (dyn_at d i)) = i"
        by (rule Least_equality) (use True hit I not_less in \<open>auto simp: dynarr_count_def\<close>)
      then show ?thesis using True hit get by (auto simp: dyfind_body_def dynarr_count_def)
    next
      case False
      then show ?thesis using True get I by (auto simp: dyfind_body_def less_Suc_eq)
    qed
  next
    case False
    then show ?thesis using I by (auto simp: dyfind_body_def dynarr_count_def)
  qed
qed simp

text \<open>The elements \<open>n\<close> further calls of \<open>dynarr_next\<close> yield.\<close>

fun dynext_times :: "nat \<Rightarrow> 'a dynarr \<Rightarrow> 'a option option list res" where
  "dynext_times 0 d = Inr []"
| "dynext_times (Suc n) d =
     bind_res (dynarr_next d) (\<lambda>r. bind_res (dynext_times n (snd r)) (\<lambda>xs. Inr (fst r # xs)))"

lemma dyn_iter_simps [simp]:
  "dyn_inv (d\<lparr>dy_iter := x\<rparr>) = dyn_inv d" "dyn_at (d\<lparr>dy_iter := x\<rparr>) = dyn_at d"
  by (simp_all add: dyn_inv_def dyn_at_def fun_eq_iff)

lemma dynext_times_ok:
  "dyn_inv d \<Longrightarrow> dy_iter d = Val i \<Longrightarrow> i \<le> dy_nused d \<Longrightarrow>
   dynext_times (Suc (dy_nused d - i)) d = Inr (map (\<lambda>i. Some (dyn_at d i)) [i..<dy_nused d] @ [None])"
proof (induction "dy_nused d - i" arbitrary: d i)
  case 0
  then show ?case by (simp add: dynarr_next_def)
next
  case (Suc k)
  then have i: "i < dy_nused d" by simp
  have "sz_add i 1 = Suc i" using i Suc.prems(1) by (simp add: sz_add_def dyn_inv_def max_cells_def size_max_def)
  then have next1: "dynarr_next d = Inr (Some (dyn_at d i), d\<lparr>dy_iter := Val (Suc i)\<rparr>)"
    using i Suc.prems(2) dyn_arr_get [OF Suc.prems(1) i] by (simp add: dynarr_next_def)
  have "dynext_times (Suc (dy_nused d - Suc i)) (d\<lparr>dy_iter := Val (Suc i)\<rparr>) =
      Inr (map (\<lambda>i. Some (dyn_at d i)) [Suc i..<dy_nused d] @ [None])"
    using Suc.hyps(1) [of "d\<lparr>dy_iter := Val (Suc i)\<rparr>" "Suc i"] Suc.hyps(2) Suc.prems i by simp
  moreover have "dy_nused d - i = Suc (dy_nused d - Suc i)" using i by simp
  ultimately show ?case using next1 i by (simp add: upt_conv_Cons del: dynext_times.simps(2))
    (simp add: upt_conv_Cons)
qed

section \<open>The contract of a sparse array\<close>

fun puts_all :: "('d \<Rightarrow> nat \<Rightarrow> 'a option \<Rightarrow> 'd res) \<Rightarrow> 'd \<Rightarrow> (nat \<times> 'a option) list \<Rightarrow> 'd res" where
  "puts_all put d [] = Inr d"
| "puts_all put d ((i, x) # ps) = bind_res (put d i x) (\<lambda>d'. puts_all put d' ps)"

locale sparse_array =
  fixes inv :: "'d \<Rightarrow> bool" and elem_at :: "'d \<Rightarrow> nat \<Rightarrow> 'a option" and used :: "'d \<Rightarrow> nat"
    and put :: "'d \<Rightarrow> nat \<Rightarrow> 'a option \<Rightarrow> 'd res" and get :: "'d \<Rightarrow> nat \<Rightarrow> ('a option \<times> 'd) res"
    and limit :: nat
  assumes put_law: "inv d \<Longrightarrow> i < limit \<Longrightarrow>
      \<exists>d'. put d i x = Inr d' \<and> inv d' \<and> elem_at d' = (elem_at d)(i := x) \<and> used d' = max (used d) (Suc i)"
    and get_law: "inv d \<Longrightarrow> i < limit \<Longrightarrow>
      \<exists>d'. get d i = Inr (elem_at d i, d') \<and> inv d' \<and> elem_at d' = elem_at d \<and> used d' = used d"
begin

lemma puts_all_ok:
  assumes "inv d" and "\<forall>p\<in>set ps. fst p < limit"
  shows "\<exists>d'. puts_all put d ps = Inr d' \<and> inv d' \<and> elem_at d' = fold (\<lambda>(i, x) f. f(i := x)) ps (elem_at d) \<and>
    used d' = fold (\<lambda>(i, x) n. max n (Suc i)) ps (used d)"
  using assms
proof (induction ps arbitrary: d)
  case (Cons p ps)
  obtain i x where p: "p = (i, x)" by fastforce
  with Cons.prems put_law [of d i x] obtain d1 where
    "put d i x = Inr d1" "inv d1" "elem_at d1 = (elem_at d)(i := x)" "used d1 = max (used d) (Suc i)" by auto
  with Cons.IH [of d1] Cons.prems(2) p show ?case by auto
qed simp

end

lemma sparse_dynarr:
  assumes "cap \<le> 2 ^ 30" and "\<And>n. n < 2 * cap * ptr_size \<Longrightarrow> alloc n"
  shows "sparse_array dyn_inv dyn_at dynarr_count (dynarr_put alloc) (dynarr_get alloc) cap"
proof
  fix d :: "'a dynarr" and i and x :: "'a option"
  assume d: "dyn_inv d" and i: "i < cap"
  have i30: "i < 2 ^ 30" using i assms(1) by simp
  have "alloc n" if "n \<le> (2 * i + 1) * ptr_size" for n
    using i that by (intro assms(2)) (simp add: ptr_size_def)
  from dynarr_put_ok [where alloc = alloc, OF d i30 this] dynarr_get_ok [where alloc = alloc, OF d i30 this]
  show "\<exists>d'. dynarr_put alloc d i x = Inr d' \<and> dyn_inv d' \<and> dyn_at d' = (dyn_at d)(i := x) \<and>
      dynarr_count d' = max (dynarr_count d) (Suc i)"
    and "\<exists>d'. dynarr_get alloc d i = Inr (dyn_at d i, d') \<and> dyn_inv d' \<and> dyn_at d' = dyn_at d \<and>
      dynarr_count d' = dynarr_count d" by blast+
qed

interpretation dyn: sparse_array dyn_inv dyn_at dynarr_count "dynarr_put (mem_upto 1000000)"
  "dynarr_get (mem_upto 1000000)" 1000
  by (rule sparse_dynarr) (simp_all add: mem_upto_def ptr_size_def)

section \<open>Properties\<close>

text \<open>
  C16: a nulling array is a function from indices: after any assignments at indices below \<open>2 ^ 30\<close>, in
  any order and however far apart, reading an index yields what was last put there and NULL
  everywhere else, also beyond the end; the count is the highest index used plus one, but never
  less than the initial size, and reading does not change it.
\<close>

theorem dynarr_sparse:
  fixes ps :: "(nat \<times> 'a option) list"
  assumes "\<forall>p\<in>set ps. fst p < cap" and "i < cap" and "cap \<le> 2 ^ 30" and "n < cap"
    and "\<And>k. k < 2 * cap * ptr_size + sizeof_dynarr \<Longrightarrow> alloc k"
  shows "\<exists>d d' d''. dynarr_init alloc n True = Inr d \<and> puts_all (dynarr_put alloc) d ps = Inr d' \<and>
    dynarr_get alloc d' i = Inr (fold (\<lambda>(i, x) f. f(i := x)) ps (\<lambda>_. None) i, d'') \<and>
    dynarr_count d'' = fold (\<lambda>(i, x) n. max n (Suc i)) ps n"
proof -
  have arr: "sparse_array dyn_inv (dyn_at :: 'a dynarr \<Rightarrow> _) dynarr_count (dynarr_put alloc) (dynarr_get alloc) cap"
    by (rule sparse_dynarr) (use assms in auto)
  have mem: "alloc sizeof_dynarr" "alloc (n * ptr_size)"
    by (rule assms(5); use assms(2,4) in \<open>simp add: ptr_size_def sizeof_dynarr_def\<close>)+
  have n: "n < max_cells" using assms(3,4) by (simp add: max_cells_def)
  obtain d :: "'a dynarr" where d: "dynarr_init alloc n True = Inr d" "dyn_inv d" "dyn_at d = (\<lambda>_. None)" "dynarr_count d = n"
    using dynarr_init_ok [OF mem n] by blast
  obtain d' where d': "puts_all (dynarr_put alloc) d ps = Inr d'" "dyn_inv d'"
    "dyn_at d' = fold (\<lambda>(i, x) f. f(i := x)) ps (dyn_at d)"
    "dynarr_count d' = fold (\<lambda>(i, x) n. max n (Suc i)) ps (dynarr_count d)"
    using sparse_array.puts_all_ok [OF arr d(2) assms(1)] by blast
  with sparse_array.get_law [OF arr d'(2) assms(2)] d show ?thesis by auto
qed

theorem dynarr_sparse_witness:
  "\<exists>d d' d''. dynarr_init (mem_upto 30000) 1 True = Inr d \<and>
    puts_all (dynarr_put (mem_upto 30000)) d [(0, Some ''a''), (125, Some ''b''), (0, Some ''c'')] = Inr d' \<and>
    dynarr_get (mem_upto 30000) d' 1337 = Inr (None, d'') \<and> dynarr_count d'' = 126"
  using dynarr_sparse [of "[(0, Some ''a''), (125, Some ''b''), (0, Some ''c'')]" 1500 1337 1 "mem_upto 30000"]
  by (simp add: mem_upto_def ptr_size_def sizeof_dynarr_def cong del: bind_res_weak_cong)

text \<open>
  the size for a new index is computed by shifting the \<open>int\<close> constant 1: from index \<open>2 ^ 30\<close> on the
  shift overflows, in reading as in writing, whatever memory there is.
\<close>

theorem dynarr_index_overflow:
  assumes "dy_nelem d \<le> i" and "2 ^ 30 \<le> i"
  shows "dynarr_put alloc d i x = Inl Bad_Arith \<and> dynarr_get alloc d i = Inl Bad_Arith"
  using assms by (simp add: dynarr_put_def dynarr_get_def provide_index_def grown_size_overflow)

definition demo_dynarr :: "nat dynarr" where
  "demo_dynarr = \<lparr>dy_nelem = 4, dy_nused = 2, dy_iter = Undef, dy_data = [Val (Some 7), Val (Some 8), Val None, Val None],
     dy_nulling = True\<rparr>"

lemma demo_dynarr_inv: "dyn_inv demo_dynarr"
proof -
  have *: "i = 2 \<or> i = 3" if "2 \<le> i" "i < 4" for i :: nat using that by linarith
  show ?thesis by (auto simp: dyn_inv_def demo_dynarr_def max_cells_def all_val_def dest: *)
qed

lemma demo_dynarr_simps: "dynarr_count demo_dynarr = 2" "dyn_at demo_dynarr 0 = Some 7" "dyn_at demo_dynarr 1 = Some 8" "dyn_at demo_dynarr (Suc 0) = Some 8"
  "4 \<le> n \<Longrightarrow> dyn_at demo_dynarr n = None" "dy_nelem demo_dynarr = 4"
  by (simp_all add: demo_dynarr_def dynarr_count_def dyn_at_def)

theorem dynarr_index_overflow_witness:
  "dynarr_put (\<lambda>_. True) demo_dynarr (2 ^ 30) (Some 1) = Inl Bad_Arith \<and>
   dynarr_get (\<lambda>_. True) demo_dynarr (2 ^ 30) = Inl Bad_Arith"
  by (rule dynarr_index_overflow) (simp_all add: demo_dynarr_def)

text \<open>
  \<open>dynarr_truncate\<close> to an index inside the array forgets exactly the elements from there on, but
  \<open>dynarr_clear\<close> only sets the count to 0: every element can still be read.
\<close>

theorem dynarr_clear_stale:
  assumes "dyn_inv d" and "n \<le> dy_nelem d"
  shows "(\<exists>d'. dynarr_truncate (Some d) n = Inr (Some d') \<and> dyn_inv d' \<and> dynarr_count d' = n \<and>
      dyn_at d' = (\<lambda>i. if i < n then dyn_at d i else None)) \<and>
    (\<exists>d'. dynarr_clear (Some d) = Some d' \<and> dynarr_count d' = 0 \<and>
      (\<forall>i < dynarr_count d. dynarr_get alloc d' i = Inr (dyn_at d i, d')))"
proof
  show "\<exists>d'. dynarr_truncate (Some d) n = Inr (Some d') \<and> dyn_inv d' \<and> dynarr_count d' = n \<and>
      dyn_at d' = (\<lambda>i. if i < n then dyn_at d i else None)"
    using assms by (rule dynarr_truncate_ok)
  show "\<exists>d'. dynarr_clear (Some d) = Some d' \<and> dynarr_count d' = 0 \<and>
      (\<forall>i < dynarr_count d. dynarr_get alloc d' i = Inr (dyn_at d i, d'))"
    using dyn_arr_get [OF assms(1)] assms(1)
    by (auto simp: dynarr_clear_def dynarr_count_def dynarr_get_def provide_index_def dyn_inv_def)
qed

theorem dynarr_clear_stale_witness:
  "(\<exists>d'. dynarr_truncate (Some demo_dynarr) 1 = Inr (Some d') \<and> dynarr_count d' = 1 \<and> dyn_at d' 1 = None) \<and>
   (\<exists>d'. dynarr_clear (Some demo_dynarr) = Some d' \<and> dynarr_count d' = 0 \<and>
      dynarr_get (\<lambda>_. False) d' 1 = Inr (Some 8, d'))"
  using dynarr_clear_stale [OF demo_dynarr_inv, of 1 "\<lambda>_. False"]
  by (fastforce simp: demo_dynarr_simps simp del: One_nat_def)

text \<open>
  iteration yields the elements at the indices below the count in order, NULL elements included,
  and then ends; \<open>dynarr_findraw\<close> yields the least index below the count that holds the element, or
  -1.
\<close>

theorem dynarr_scan:
  assumes "dyn_inv d"
  shows "dynext_times (Suc (dynarr_count d)) (d\<lparr>dy_iter := Val 0\<rparr>) =
      Inr (map (\<lambda>i. Some (dyn_at d i)) [0..<dynarr_count d] @ [None]) \<and>
    dynarr_first d = dynarr_next (d\<lparr>dy_iter := Val 0\<rparr>) \<and>
    (\<exists>r. dynarr_findraw d x = Inr r \<and>
      (if \<exists>i < dynarr_count d. dyn_at d i = x then r = int (LEAST i. i < dynarr_count d \<and> dyn_at d i = x) else r = - 1))"
  using dynext_times_ok [of "d\<lparr>dy_iter := Val 0\<rparr>" 0] dynarr_find_ok [OF assms, of "\<lambda>y. y = x"] assms
  by (simp add: dynarr_count_def dynarr_first_def dynarr_findraw_def)

lemma demo_dynarr_none: "\<not> (\<exists>i < 2. dyn_at demo_dynarr i = Some 9)"
  by (auto simp: demo_dynarr_simps dest!: less_2_cases)

theorem dynarr_scan_witness:
  "dynext_times 3 (demo_dynarr\<lparr>dy_iter := Val 0\<rparr>) = Inr [Some (Some 7), Some (Some 8), None] \<and>
   dynarr_findraw demo_dynarr (Some 9) = Inr (- 1)"
proof -
  have "[0..<2] = [0, 1::nat]" "Suc 2 = 3" by (simp_all add: upt_rec)
  then show ?thesis
    using dynarr_scan [OF demo_dynarr_inv, of "Some 9"] demo_dynarr_none
    by (auto simp: demo_dynarr_simps(1) demo_dynarr_simps simp del: One_nat_def dynext_times.simps)
qed

end
