(* ===== verification/Graph.thy ===== *)
theory Graph imports DynArr PtrList begin

text \<open>
  graph.c: directed graphs of nodes and edges that know each other through growing arrays of pointers.
  Nodes and edges live in stores; \<open>new\<close> is \<open>malloc\<close>, whose result the code does not check. An edge that is
  dropped is not freed by the code. Traversal is in \<open>GraphTrav\<close>.
\<close>

section \<open>The code\<close>

record gedge =
  ge_from :: nat
  ge_to :: nat
  ge_weight :: double
  ge_attr :: "nat dynarr option"
  ge_travtag :: int

record 'a gnode =
  gn_in :: "nat dynarr option"
  gn_out :: "nat dynarr option"
  gn_elem :: "'a option"
  gn_attr :: "nat dynarr option"
  gn_travtag :: int

record 'a graph =
  g_nodes :: "nat \<Rightarrow> 'a gnode option"
  g_edges :: "nat \<Rightarrow> gedge option"

definition get_node :: "'a graph \<Rightarrow> nat \<Rightarrow> 'a gnode res" where
  "get_node g n = (case g_nodes g n of None \<Rightarrow> Inl Dangling | Some x \<Rightarrow> Inr x)"

definition get_edge :: "'a graph \<Rightarrow> nat option \<Rightarrow> gedge res" where
  "get_edge g e =
     (case e of None \<Rightarrow> Inl Null_Deref | Some a \<Rightarrow> (case g_edges g a of None \<Rightarrow> Inl Dangling | Some x \<Rightarrow> Inr x))"

definition set_node :: "'a graph \<Rightarrow> nat \<Rightarrow> 'a gnode \<Rightarrow> 'a graph" where
  "set_node g n x = g\<lparr>g_nodes := (g_nodes g)(n \<mapsto> x)\<rparr>"

definition set_edge :: "'a graph \<Rightarrow> nat \<Rightarrow> gedge \<Rightarrow> 'a graph" where
  "set_edge g e x = g\<lparr>g_edges := (g_edges g)(e \<mapsto> x)\<rparr>"

definition used :: "'a graph \<Rightarrow> nat set" where
  "used g = dom (g_nodes g) \<union> dom (g_edges g)"

definition alloc_node :: "(nat set \<Rightarrow> nat option) \<Rightarrow> 'a graph \<Rightarrow> 'a option \<Rightarrow> (nat \<times> 'a graph) res" where
  "alloc_node new g elem =
     (case new (used g) of
        None \<Rightarrow> Inl Null_Deref
      | Some n \<Rightarrow> Inr (n, set_node g n \<lparr>gn_in = None, gn_out = None, gn_elem = elem, gn_attr = None, gn_travtag = 0\<rparr>))"

definition get_elem :: "'a graph \<Rightarrow> nat \<Rightarrow> 'a option res" where
  "get_elem g n = bind_res (get_node g n) (\<lambda>x. Inr (gn_elem x))"

definition set_elem :: "'a graph \<Rightarrow> nat \<Rightarrow> 'a option \<Rightarrow> 'a graph res" where
  "set_elem g n elem = bind_res (get_node g n) (\<lambda>x. Inr (set_node g n (x\<lparr>gn_elem := elem\<rparr>)))"

definition arr_count :: "nat dynarr option \<Rightarrow> nat" where
  "arr_count a = (case a of None \<Rightarrow> 0 | Some d \<Rightarrow> dynarr_count d)"

definition fan_out :: "'a graph \<Rightarrow> nat \<Rightarrow> nat res" where
  "fan_out g n = bind_res (get_node g n) (\<lambda>x. Inr (arr_count (gn_out x)))"

definition fan_in :: "'a graph \<Rightarrow> nat \<Rightarrow> nat res" where
  "fan_in g n = bind_res (get_node g n) (\<lambda>x. Inr (arr_count (gn_in x)))"

definition num_nattr :: "'a graph \<Rightarrow> nat \<Rightarrow> nat res" where
  "num_nattr g n = bind_res (get_node g n) (\<lambda>x. Inr (arr_count (gn_attr x)))"

definition num_eattr :: "'a graph \<Rightarrow> nat option \<Rightarrow> nat res" where
  "num_eattr g e = bind_res (get_edge g e) (\<lambda>x. Inr (arr_count (ge_attr x)))"

definition add_edge :: "(nat \<Rightarrow> bool) \<Rightarrow> nat dynarr option \<Rightarrow> nat \<Rightarrow> nat dynarr option res" where
  "add_edge alloc a e =
     (case a of
        None \<Rightarrow>
          bind_res (dynarr_init alloc 1 True) (\<lambda>d. bind_res (dynarr_put alloc d 0 (Some e)) (\<lambda>d1. Inr (Some d1)))
      | Some d \<Rightarrow> bind_res (dynarr_push alloc d (Some e)) (\<lambda>r. Inr (Some (snd r))))"

definition del_edge :: "(nat \<Rightarrow> bool) \<Rightarrow> nat dynarr option \<Rightarrow> nat \<Rightarrow> nat dynarr option res" where
  "del_edge alloc a e =
     (case a of
        None \<Rightarrow> Inl Null_Deref
      | Some d \<Rightarrow>
          bind_res (dynarr_findraw d (Some e)) (\<lambda>r.
          if r < 0 then Inr (Some d)
          else
            let i = nat r; last_i = sz_sub (dynarr_count d) 1 in
            bind_res (dynarr_get alloc d last_i) (\<lambda>(x, d1).
            bind_res (dynarr_put alloc d1 i x) (\<lambda>d2. dynarr_truncate (Some d2) last_i))))"

definition mkedge :: "(nat set \<Rightarrow> nat option) \<Rightarrow> 'a graph \<Rightarrow> nat \<Rightarrow> nat \<Rightarrow> double \<Rightarrow> (nat \<times> 'a graph) res" where
  "mkedge new g from_n to_n w =
     (case new (used g) of
        None \<Rightarrow> Inl Null_Deref
      | Some e \<Rightarrow> Inr (e, set_edge g e \<lparr>ge_from = from_n, ge_to = to_n, ge_weight = w, ge_attr = None, ge_travtag = 0\<rparr>))"

definition link_node ::
  "(nat \<Rightarrow> bool) \<Rightarrow> (nat set \<Rightarrow> nat option) \<Rightarrow> 'a graph \<Rightarrow> nat \<Rightarrow> nat \<Rightarrow> double \<Rightarrow> (nat \<times> 'a graph) res" where
  "link_node alloc new g from_n to_n w =
     bind_res (mkedge new g from_n to_n w) (\<lambda>(e, g1).
     bind_res (get_node g1 from_n) (\<lambda>x.
     bind_res (add_edge alloc (gn_out x) e) (\<lambda>a.
     let g2 = set_node g1 from_n (x\<lparr>gn_out := a\<rparr>) in
     bind_res (get_node g2 to_n) (\<lambda>y.
     bind_res (add_edge alloc (gn_in y) e) (\<lambda>b.
     Inr (e, set_node g2 to_n (y\<lparr>gn_in := b\<rparr>)))))))"

definition drop_edge :: "(nat \<Rightarrow> bool) \<Rightarrow> 'a graph \<Rightarrow> nat option \<Rightarrow> 'a graph res" where
  "drop_edge alloc g e =
     bind_res (get_edge g e) (\<lambda>ed.
     bind_res (get_node g (ge_from ed)) (\<lambda>x.
     bind_res (del_edge alloc (gn_out x) (the e)) (\<lambda>a.
     let g1 = set_node g (ge_from ed) (x\<lparr>gn_out := a\<rparr>) in
     bind_res (get_node g1 (ge_to ed)) (\<lambda>y.
     bind_res (del_edge alloc (gn_in y) (the e)) (\<lambda>b.
     Inr (set_node g1 (ge_to ed) (y\<lparr>gn_in := b\<rparr>)))))))"

text \<open>The state of the loop of \<open>find_edge\<close> is the element found last and the array with its iterator.\<close>

definition findedge_body ::
  "'a graph \<Rightarrow> nat \<Rightarrow> nat option \<times> nat dynarr \<Rightarrow> (nat option \<times> nat dynarr, nat option \<times> nat dynarr) step res" where
  "findedge_body g to_n = (\<lambda>(x, d).
     bind_res (get_edge g x) (\<lambda>ed.
     if ge_to ed = to_n then Inr (Break (x, d))
     else bind_res (dynarr_next d) (\<lambda>(r, d1). Inr (case r of None \<Rightarrow> Break (None, d1) | Some y \<Rightarrow> Continue (y, d1)))))"

definition find_edge :: "'a graph \<Rightarrow> nat \<Rightarrow> nat \<Rightarrow> (nat option \<times> 'a graph) res" where
  "find_edge g from_n to_n =
     bind_res (get_node g from_n) (\<lambda>x.
     case gn_out x of
       None \<Rightarrow> Inl Null_Deref
     | Some d \<Rightarrow>
         bind_res (dynarr_first d) (\<lambda>(r, d1).
         bind_res (case r of None \<Rightarrow> Inr (None, d1) | Some y \<Rightarrow> c_loop (findedge_body g to_n) (y, d1)) (\<lambda>(e, d2).
         Inr (e, set_node g from_n (x\<lparr>gn_out := Some d2\<rparr>)))))"

definition unlink_node :: "(nat \<Rightarrow> bool) \<Rightarrow> 'a graph \<Rightarrow> nat \<Rightarrow> nat \<Rightarrow> 'a graph res" where
  "unlink_node alloc g from_n to_n = bind_res (find_edge g from_n to_n) (\<lambda>(e, g1). drop_edge alloc g1 e)"

section \<open>Lists of edges\<close>

definition arr_elems :: "nat dynarr option \<Rightarrow> nat list" where
  "arr_elems a = (case a of None \<Rightarrow> [] | Some d \<Rightarrow> map (\<lambda>i. the (dyn_at d i)) [0..<dynarr_count d])"

definition arr_ok :: "nat dynarr option \<Rightarrow> bool" where
  "arr_ok a \<longleftrightarrow> (case a of None \<Rightarrow> True | Some d \<Rightarrow> dyn_inv d \<and> (\<forall>i < dynarr_count d. dyn_at d i \<noteq> None))"

lemma arr_simps [simp]: "arr_ok None" "arr_elems None = []" "arr_count a = length (arr_elems a)"
  by (simp_all add: arr_ok_def arr_elems_def arr_count_def split: option.split)

lemma arr_intro:
  assumes "dyn_inv d" and "dynarr_count d = length xs" and "\<And>i. i < length xs \<Longrightarrow> dyn_at d i = Some (xs ! i)"
  shows "arr_ok (Some d) \<and> arr_elems (Some d) = xs"
  using assms by (auto simp: arr_ok_def arr_elems_def intro!: nth_equalityI)

lemma arr_at: "arr_ok (Some d) \<Longrightarrow> i < dynarr_count d \<Longrightarrow> dyn_at d i = Some (arr_elems (Some d) ! i)"
  by (auto simp: arr_ok_def arr_elems_def)

lemma arr_SomeD: "arr_ok (Some d) \<Longrightarrow> dyn_inv d \<and> dynarr_count d = length (arr_elems (Some d))"
  by (simp add: arr_ok_def arr_elems_def)

text \<open>Accesses below the count need no memory.\<close>

lemma dynarr_in:
  assumes inv: "dyn_inv d" and i: "i < dynarr_count d"
  shows "dynarr_get alloc d i = Inr (dyn_at d i, d)"
    and "\<exists>d'. dynarr_put alloc d i x = Inr d' \<and> dyn_inv d' \<and> dyn_at d' = (dyn_at d)(i := x) \<and>
      dynarr_count d' = dynarr_count d \<and> dy_nelem d' = dy_nelem d"
proof -
  have n: "i < dy_nelem d" "length (dy_data d) = dy_nelem d" using assms by (auto simp: dyn_inv_def dynarr_count_def)
  show "dynarr_get alloc d i = Inr (dyn_at d i, d)"
    using n dyn_arr_get [OF inv] i by (simp add: dynarr_get_def provide_index_def dynarr_count_def)
  have u: "dy_nused d = max (dy_nused d) (Suc i)" using i by (simp add: dynarr_count_def)
  have "dynarr_put alloc d i x = Inr (d\<lparr>dy_data := (dy_data d)[i := Val x], dy_nused := dy_nused d\<rparr>)"
    using n i by (simp add: dynarr_put_def provide_index_def arr_set_in dynarr_count_def Let_def)
  with dyn_set [OF inv n(1) u, of x]
  show "\<exists>d'. dynarr_put alloc d i x = Inr d' \<and> dyn_inv d' \<and> dyn_at d' = (dyn_at d)(i := x) \<and>
      dynarr_count d' = dynarr_count d \<and> dy_nelem d' = dy_nelem d"
    by (simp add: dynarr_count_def)
qed

lemma add_edge_ok:
  assumes a: "arr_ok a" and len: "length (arr_elems a) < 2 ^ 30"
    and mem: "\<And>n. n \<le> 16 * length (arr_elems a) + 40 \<Longrightarrow> alloc n"
  shows "\<exists>b. add_edge alloc a e = Inr b \<and> arr_ok b \<and> arr_elems b = arr_elems a @ [e]"
proof (cases a)
  case None
  have m: "alloc sizeof_dynarr" "alloc (1 * ptr_size)" "(1 :: nat) < max_cells"
    by (rule mem, simp add: sizeof_dynarr_def ptr_size_def)+ (simp add: max_cells_def)
  from dynarr_init_ok [OF m] obtain d :: "nat dynarr"
    where d: "dynarr_init alloc 1 True = Inr d" "dyn_inv d" "dynarr_count d = 1" by blast
  from dynarr_in(2) [OF d(2), of 0 alloc "Some e"] d(3) obtain d1 where
    d1: "dynarr_put alloc d 0 (Some e) = Inr d1" "dyn_inv d1" "dyn_at d1 = (dyn_at d)(0 := Some e)" "dynarr_count d1 = 1"
    by auto
  with arr_intro [of d1 "[e]"] show ?thesis using None d(1) by (auto simp: add_edge_def)
next
  case (Some d)
  have d: "dyn_inv d" "dynarr_count d = length (arr_elems a)" using arr_SomeD a Some by blast+
  have len': "dynarr_count d < 2 ^ 30" using len d(2) by simp
  have "alloc n" if "n \<le> (2 * dynarr_count d + 1) * ptr_size" for n
    using that by (intro mem) (simp add: d(2) ptr_size_def)
  from dynarr_push_ok [where alloc = alloc, OF d(1) len' this] obtain d' where
    d': "dynarr_push alloc d (Some e) = Inr (True, d')" "dyn_inv d'" "dyn_at d' = (dyn_at d)(dynarr_count d := Some e)"
      "dynarr_count d' = Suc (dynarr_count d)" by blast
  have "arr_ok (Some d') \<and> arr_elems (Some d') = arr_elems a @ [e]"
    using arr_at [of d] a d Some d' by (intro arr_intro) (auto simp: nth_append)
  then show ?thesis using d'(1) Some by (simp add: add_edge_def)
qed

text \<open>An edge is taken out by moving the last one into its place.\<close>

definition swap_remove :: "nat \<Rightarrow> nat list \<Rightarrow> nat list" where
  "swap_remove e xs = (if e \<in> set xs then butlast (xs[(LEAST i. i < length xs \<and> xs ! i = e) := last xs]) else xs)"

lemma swap_remove_set:
  assumes "distinct xs"
  shows "distinct (swap_remove e xs) \<and> set (swap_remove e xs) = set xs - {e}"
proof (cases "e \<in> set xs")
  case True
  then obtain ys z where xs: "xs = ys @ [z]" by (metis empty_iff empty_set rev_exhaust)
  define i where "i = (LEAST i. i < length xs \<and> xs ! i = e)"
  have "\<exists>i. i < length xs \<and> xs ! i = e" using True by (auto simp: in_set_conv_nth)
  then have i: "i < length xs" "xs ! i = e" unfolding i_def by (metis (mono_tags, lifting) LeastI_ex)+
  have "swap_remove e xs = (if i < length ys then ys[i := z] else ys)"
  proof -
    have "swap_remove e xs = butlast (xs[i := last xs])" using True by (simp add: swap_remove_def i_def)
    moreover have "i = length ys" if "\<not> i < length ys" using that i(1) xs by simp
    ultimately show ?thesis unfolding xs by (auto simp: list_update_append)
  qed
  moreover have "distinct ys" "z \<notin> set ys" using assms xs by auto
  moreover have "e = ys ! i" if "i < length ys" using that i(2) xs by (simp add: nth_append)
  moreover have "e = z" if "\<not> i < length ys" using that i xs by (simp add: nth_append split: if_splits)
  ultimately show ?thesis using xs by (auto simp: set_update_distinct distinct_list_update)
qed (simp add: swap_remove_def assms)

lemma del_edge_ok:
  assumes a: "arr_ok (Some d)"
  shows "\<exists>b. del_edge alloc (Some d) e = Inr b \<and> arr_ok b \<and> arr_elems b = swap_remove e (arr_elems (Some d))"
proof -
  let ?xs = "arr_elems (Some d)"
  have d: "dyn_inv d" "dynarr_count d = length ?xs" using arr_SomeD [OF a] by auto
  have at_iff: "i < length ?xs \<and> dyn_at d i = Some e \<longleftrightarrow> i < length ?xs \<and> ?xs ! i = e" for i
    using arr_at [OF a] d(2) by auto
  obtain r where r: "dynarr_findraw d (Some e) = Inr r"
    "if \<exists>i < length ?xs. dyn_at d i = Some e then r = int (LEAST i. i < length ?xs \<and> dyn_at d i = Some e) else r = - 1"
    using dynarr_find_ok [OF d(1), of "\<lambda>x. x = Some e"] d(2) by (auto simp: dynarr_findraw_def)
  show ?thesis
  proof (cases "e \<in> set ?xs")
    case False
    then have "\<not> (\<exists>i < length ?xs. dyn_at d i = Some e)" using at_iff by (auto simp: in_set_conv_nth)
    then show ?thesis using r a False by (auto simp: del_edge_def swap_remove_def)
  next
    case True
    define i where "i = (LEAST i. i < length ?xs \<and> ?xs ! i = e)"
    let ?l = "length ?xs - 1"
    have "\<exists>i. i < length ?xs \<and> ?xs ! i = e" using True by (auto simp: in_set_conv_nth)
    then have i: "i < length ?xs" "?xs ! i = e" unfolding i_def by (metis (mono_tags, lifting) LeastI_ex)+
    have "\<exists>i < length ?xs. dyn_at d i = Some e" using True at_iff by (auto simp: in_set_conv_nth)
    then have r1: "r = int i" using r(2) by (simp add: at_iff i_def)
    have "dynarr_count d < size_max" using d(1) by (simp add: dyn_inv_def dynarr_count_def max_cells_def size_max_def)
    then have l: "sz_sub (dynarr_count d) 1 = ?l" using d(2) i(1) by (simp add: sz_simps)
    have get: "dynarr_get alloc d ?l = Inr (Some (?xs ! ?l), d)"
      using dynarr_in(1) [OF d(1), of ?l] arr_at [OF a, of ?l] d(2) i(1) by simp
    obtain d1 where d1: "dynarr_put alloc d i (Some (?xs ! ?l)) = Inr d1" "dyn_inv d1"
      "dyn_at d1 = (dyn_at d)(i := Some (?xs ! ?l))" "dynarr_count d1 = dynarr_count d" "dy_nelem d1 = dy_nelem d"
      using dynarr_in(2) [OF d(1), of i alloc "Some (?xs ! ?l)"] i(1) d(2) by auto
    have "?l \<le> dy_nelem d1" using d1(2,4) d(2) by (intro order_trans [OF diff_le_self]) (simp add: dyn_inv_def dynarr_count_def)
    from dynarr_truncate_ok [OF d1(2) this] obtain d2 where
      d2: "dynarr_truncate (Some d1) ?l = Inr (Some d2)" "dyn_inv d2" "dynarr_count d2 = ?l"
        "dyn_at d2 = (\<lambda>j. if j < ?l then dyn_at d1 j else None)" by blast
    have ne: "?xs \<noteq> []" using i(1) by auto
    have "arr_ok (Some d2) \<and> arr_elems (Some d2) = butlast (?xs[i := last ?xs])"
      by (rule arr_intro)
        (use d2 d1(3) arr_at [OF a] d(2) ne in \<open>auto simp: nth_butlast nth_list_update last_conv_nth\<close>)
    moreover have "del_edge alloc (Some d) e = Inr (Some d2)"
      using r(1) r1 l get d1(1) d2(1) by (simp add: del_edge_def Let_def)
    ultimately show ?thesis using True by (simp add: swap_remove_def flip: i_def)
  qed
qed

section \<open>Well-formed graphs\<close>

definition outs :: "'a graph \<Rightarrow> nat \<Rightarrow> nat list" where
  "outs g n = (case g_nodes g n of None \<Rightarrow> [] | Some x \<Rightarrow> arr_elems (gn_out x))"

definition ins :: "'a graph \<Rightarrow> nat \<Rightarrow> nat list" where
  "ins g n = (case g_nodes g n of None \<Rightarrow> [] | Some x \<Rightarrow> arr_elems (gn_in x))"

text \<open>
  Every edge of an outgoing list starts at the node and is in the incoming list of its target, which is
  a node of the graph, and the other way round. There may be several edges between two nodes, and loops.
\<close>

definition graph_ok :: "'a graph \<Rightarrow> bool" where
  "graph_ok g \<longleftrightarrow>
     (\<forall>n x. g_nodes g n = Some x \<longrightarrow> arr_ok (gn_out x) \<and> arr_ok (gn_in x)) \<and>
     (\<forall>n. distinct (outs g n) \<and> distinct (ins g n)) \<and>
     (\<forall>n. \<forall>e\<in>set (outs g n). \<exists>ed. g_edges g e = Some ed \<and> ge_from ed = n \<and> e \<in> set (ins g (ge_to ed))) \<and>
     (\<forall>n. \<forall>e\<in>set (ins g n). \<exists>ed. g_edges g e = Some ed \<and> ge_to ed = n \<and> e \<in> set (outs g (ge_from ed)))"

lemma graph_okI:
  assumes "\<And>n x. g_nodes g n = Some x \<Longrightarrow> arr_ok (gn_out x) \<and> arr_ok (gn_in x)"
    and "\<And>n. distinct (outs g n) \<and> distinct (ins g n)"
    and "\<And>n e. e \<in> set (outs g n) \<Longrightarrow> \<exists>ed. g_edges g e = Some ed \<and> ge_from ed = n \<and> e \<in> set (ins g (ge_to ed))"
    and "\<And>n e. e \<in> set (ins g n) \<Longrightarrow> \<exists>ed. g_edges g e = Some ed \<and> ge_to ed = n \<and> e \<in> set (outs g (ge_from ed))"
  shows "graph_ok g"
  using assms by (simp add: graph_ok_def)

lemma graph_arrD: "graph_ok g \<Longrightarrow> g_nodes g n = Some x \<Longrightarrow> arr_ok (gn_out x) \<and> arr_ok (gn_in x)"
  by (simp add: graph_ok_def)

lemma graph_distinctD: "graph_ok g \<Longrightarrow> distinct (outs g n) \<and> distinct (ins g n)"
  by (simp add: graph_ok_def)

lemma graph_outE:
  assumes "graph_ok g" and "e \<in> set (outs g n)"
  obtains ed where "g_edges g e = Some ed" "ge_from ed = n" "e \<in> set (ins g (ge_to ed))"
  using assms unfolding graph_ok_def by blast

lemma graph_inE:
  assumes "graph_ok g" and "e \<in> set (ins g n)"
  obtains ed where "g_edges g e = Some ed" "ge_to ed = n" "e \<in> set (outs g (ge_from ed))"
  using assms unfolding graph_ok_def by blast

lemma node_of_list: "e \<in> set (outs g n) \<Longrightarrow> \<exists>x. g_nodes g n = Some x" "e \<in> set (ins g n) \<Longrightarrow> \<exists>x. g_nodes g n = Some x"
  by (cases "g_nodes g n"; simp add: outs_def ins_def)+

lemma get_simps [simp]:
  "get_node g n = Inr x \<longleftrightarrow> g_nodes g n = Some x" "get_edge g (Some e) = Inr ed \<longleftrightarrow> g_edges g e = Some ed"
  "get_edge g None = Inl Null_Deref"
  by (auto simp: get_node_def get_edge_def split: option.splits)

lemma get_SomeI [simp]:
  "g_nodes g n = Some x \<Longrightarrow> get_node g n = Inr x" "g_edges g e = Some ed \<Longrightarrow> get_edge g (Some e) = Inr ed"
  by simp_all

lemma set_node_simps [simp]:
  "g_nodes (set_node g n x) = (g_nodes g)(n \<mapsto> x)" "g_edges (set_node g n x) = g_edges g"
  "g_nodes (set_edge g e ed) = g_nodes g" "g_edges (set_edge g e ed) = (g_edges g)(e \<mapsto> ed)"
  by (simp_all add: set_node_def set_edge_def)

lemma list_simps [simp]:
  "outs (set_node g n x) = (outs g)(n := arr_elems (gn_out x))" "ins (set_node g n x) = (ins g)(n := arr_elems (gn_in x))"
  "outs (set_edge g e ed) = outs g" "ins (set_edge g e ed) = ins g"
  by (auto simp: outs_def ins_def fun_eq_iff)

lemma list_node: "g_nodes g n = Some x \<Longrightarrow> arr_elems (gn_out x) = outs g n" "g_nodes g n = Some x \<Longrightarrow> arr_elems (gn_in x) = ins g n"
  by (simp_all add: outs_def ins_def)

text \<open>The graph without its lists of edges, which linking and unlinking leave alone.\<close>

definition same_nodes :: "'a graph \<Rightarrow> 'a graph \<Rightarrow> bool" where
  "same_nodes g g' \<longleftrightarrow> (\<forall>n. map_option (\<lambda>x. x\<lparr>gn_in := None, gn_out := None\<rparr>) (g_nodes g' n) =
     map_option (\<lambda>x. x\<lparr>gn_in := None, gn_out := None\<rparr>) (g_nodes g n))"

section \<open>Adding and dropping edges\<close>

lemma link_node_ok:
  assumes ok: "graph_ok g" and from_n: "g_nodes g n = Some x" and to_n: "g_nodes g m = Some y"
    and new: "new (used g) = Some e" "e \<notin> used g"
    and len: "length (outs g n) < 2 ^ 30" "length (ins g m) < 2 ^ 30"
    and mem: "\<And>k. k \<le> 16 * max (length (outs g n)) (length (ins g m)) + 40 \<Longrightarrow> alloc k"
  shows "\<exists>g'. link_node alloc new g n m w = Inr (e, g') \<and> graph_ok g' \<and> same_nodes g g' \<and>
    g_edges g' = (g_edges g)(e \<mapsto> \<lparr>ge_from = n, ge_to = m, ge_weight = w, ge_attr = None, ge_travtag = 0\<rparr>) \<and>
    outs g' = (outs g)(n := outs g n @ [e]) \<and> ins g' = (ins g)(m := ins g m @ [e])"
proof -
  let ?ed = "\<lparr>ge_from = n, ge_to = m, ge_weight = w, ge_attr = None, ge_travtag = 0\<rparr>"
  let ?g1 = "set_edge g e ?ed"
  note arrs = graph_arrD [OF ok from_n] graph_arrD [OF ok to_n]
  have mem1: "\<And>k. k \<le> 16 * length (arr_elems (gn_out x)) + 40 \<Longrightarrow> alloc k"
    and mem2: "\<And>k. k \<le> 16 * length (arr_elems (gn_in y)) + 40 \<Longrightarrow> alloc k"
    using list_node(1) [OF from_n] list_node(2) [OF to_n] by (auto intro!: mem)
  obtain a where a: "add_edge alloc (gn_out x) e = Inr a" "arr_ok a" "arr_elems a = outs g n @ [e]"
    using add_edge_ok [where alloc = alloc and e = e and a = "gn_out x", OF _ _ mem1] arrs len(1) list_node(1) [OF from_n] by auto
  obtain b where b: "add_edge alloc (gn_in y) e = Inr b" "arr_ok b" "arr_elems b = ins g m @ [e]"
    using add_edge_ok [where alloc = alloc and e = e and a = "gn_in y", OF _ _ mem2] arrs len(2) list_node(2) [OF to_n] by auto
  let ?g2 = "set_node ?g1 n (x\<lparr>gn_out := a\<rparr>)"
  define y2 where "y2 = (if n = m then x\<lparr>gn_out := a\<rparr> else y)"
  have y2: "g_nodes ?g2 m = Some y2" "gn_in y2 = gn_in y" "arr_ok (gn_out y2)" using to_n from_n a arrs by (auto simp: y2_def)
  let ?g' = "set_node ?g2 m (y2\<lparr>gn_in := b\<rparr>)"
  have "link_node alloc new g n m w = Inr (e, ?g')"
    using from_n y2 new(1) a(1) b(1) by (simp add: link_node_def mkedge_def Let_def del: set_node_simps(1))
  moreover have os: "outs ?g' = (outs g)(n := outs g n @ [e])"
    using a b list_node [OF to_n] list_node [OF from_n] by (auto simp: y2_def fun_eq_iff)
  moreover have il: "ins ?g' = (ins g)(m := ins g m @ [e])"
    using a b list_node [OF to_n] list_node [OF from_n] by (auto simp: y2_def fun_eq_iff)
  moreover have "graph_ok ?g'"
  proof (rule graph_okI)
    show "arr_ok (gn_out z) \<and> arr_ok (gn_in z)" if "g_nodes ?g' k = Some z" for k z
      using that graph_arrD [OF ok] a b arrs y2 by (auto split: if_splits)
    have fresh: "e \<notin> set (outs g k)" "e \<notin> set (ins g k)" for k
      using new(2) by (auto simp: used_def elim: graph_outE [OF ok] graph_inE [OF ok])
    show "distinct (outs ?g' k) \<and> distinct (ins ?g' k)" for k
      unfolding os il using graph_distinctD [OF ok] fresh by auto
    show "\<exists>ed. g_edges ?g' f = Some ed \<and> ge_from ed = k \<and> f \<in> set (ins ?g' (ge_to ed))" if "f \<in> set (outs ?g' k)" for k f
      using that unfolding os il by (auto split: if_splits elim: graph_outE [OF ok] simp: fresh)
    show "\<exists>ed. g_edges ?g' f = Some ed \<and> ge_to ed = k \<and> f \<in> set (outs ?g' (ge_from ed))" if "f \<in> set (ins ?g' k)" for k f
      using that unfolding os il by (auto split: if_splits elim: graph_inE [OF ok] simp: fresh)
  qed
  moreover have "same_nodes g ?g'" using from_n to_n by (auto simp: same_nodes_def y2_def)
  ultimately show ?thesis by auto
qed

lemma swap_remove_simps [simp]:
  "graph_ok g \<Longrightarrow> set (swap_remove e (outs g n)) = set (outs g n) - {e}"
  "graph_ok g \<Longrightarrow> set (swap_remove e (ins g n)) = set (ins g n) - {e}"
  "graph_ok g \<Longrightarrow> distinct (swap_remove e (outs g n))" "graph_ok g \<Longrightarrow> distinct (swap_remove e (ins g n))"
  using swap_remove_set graph_distinctD by blast+

lemma drop_edge_ok:
  assumes ok: "graph_ok g" and e: "e \<in> set (outs g n)" and ed: "g_edges g e = Some ed"
  shows "\<exists>g'. drop_edge alloc g (Some e) = Inr g' \<and> graph_ok g' \<and> same_nodes g g' \<and> g_edges g' = g_edges g \<and>
    outs g' = (outs g)(n := swap_remove e (outs g n)) \<and>
    ins g' = (ins g)(ge_to ed := swap_remove e (ins g (ge_to ed)))"
proof -
  let ?m = "ge_to ed"
  have from_to: "ge_from ed = n" "e \<in> set (ins g ?m)" using graph_outE [OF ok e] ed by auto
  obtain x y where x: "g_nodes g n = Some x" and y: "g_nodes g ?m = Some y"
    using node_of_list e from_to(2) by blast
  note arrs = graph_arrD [OF ok x] graph_arrD [OF ok y]
  have ne: "gn_out x \<noteq> None" "gn_in y \<noteq> None"
    using e from_to(2) list_node(1) [OF x] list_node(2) [OF y] by (metis arr_simps(2) empty_iff empty_set)+
  obtain a where a: "del_edge alloc (gn_out x) e = Inr a" "arr_ok a" "arr_elems a = swap_remove e (outs g n)"
    using del_edge_ok [of "the (gn_out x)" alloc e] arrs ne(1) list_node(1) [OF x] by auto
  obtain b where b: "del_edge alloc (gn_in y) e = Inr b" "arr_ok b" "arr_elems b = swap_remove e (ins g ?m)"
    using del_edge_ok [of "the (gn_in y)" alloc e] arrs ne(2) list_node(2) [OF y] by auto
  let ?g1 = "set_node g n (x\<lparr>gn_out := a\<rparr>)"
  define y2 where "y2 = (if n = ?m then x\<lparr>gn_out := a\<rparr> else y)"
  have y2: "g_nodes ?g1 ?m = Some y2" "gn_in y2 = gn_in y" "arr_ok (gn_out y2)" using x y a arrs by (auto simp: y2_def)
  let ?g' = "set_node ?g1 ?m (y2\<lparr>gn_in := b\<rparr>)"
  have "drop_edge alloc g (Some e) = Inr ?g'"
    using x y2 ed from_to(1) a(1) b(1) by (simp add: drop_edge_def Let_def del: set_node_simps(1))
  moreover have os: "outs ?g' = (outs g)(n := swap_remove e (outs g n))"
    using a b list_node [OF x] list_node [OF y] by (auto simp: y2_def fun_eq_iff)
  moreover have il: "ins ?g' = (ins g)(?m := swap_remove e (ins g ?m))"
    using a b list_node [OF x] list_node [OF y] by (auto simp: y2_def fun_eq_iff)
  moreover have "graph_ok ?g'"
  proof (rule graph_okI)
    show "arr_ok (gn_out z) \<and> arr_ok (gn_in z)" if "g_nodes ?g' k = Some z" for k z
      using that graph_arrD [OF ok] a b arrs y2 by (auto split: if_splits)
    show "distinct (outs ?g' k) \<and> distinct (ins ?g' k)" for k
      unfolding os il using graph_distinctD [OF ok] ok by auto
    show "\<exists>ed. g_edges ?g' f = Some ed \<and> ge_from ed = k \<and> f \<in> set (ins ?g' (ge_to ed))" if "f \<in> set (outs ?g' k)" for k f
      using that ok ed from_to(1) unfolding os il by (auto split: if_splits elim!: graph_outE [OF ok])
    show "\<exists>ed. g_edges ?g' f = Some ed \<and> ge_to ed = k \<and> f \<in> set (outs ?g' (ge_from ed))" if "f \<in> set (ins ?g' k)" for k f
      using that ok ed from_to(1) unfolding os il by (auto split: if_splits elim!: graph_inE [OF ok])
  qed
  moreover have "same_nodes g ?g'" using x y by (auto simp: same_nodes_def y2_def)
  ultimately show ?thesis by auto
qed

lemma alloc_node_ok:
  assumes ok: "graph_ok g" and fin: "finite (used g)" and new: "new_ok new" "new (used g) = Some n"
  shows "\<exists>g'. alloc_node new g x = Inr (n, g') \<and> graph_ok g' \<and> g_edges g' = g_edges g \<and>
    n \<notin> dom (g_nodes g) \<and> dom (g_nodes g') = insert n (dom (g_nodes g)) \<and> get_elem g' n = Inr x \<and>
    outs g' = outs g \<and> ins g' = ins g"
proof -
  let ?x = "\<lparr>gn_in = None, gn_out = None, gn_elem = x, gn_attr = None, gn_travtag = 0\<rparr>"
  have n: "n \<notin> dom (g_nodes g)" using new fin by (auto simp: new_ok_def used_def)
  then have lists: "outs (set_node g n ?x) = outs g" "ins (set_node g n ?x) = ins g"
    by (auto simp: outs_def ins_def fun_eq_iff dom_def)
  have "graph_ok (set_node g n ?x)"
    using ok unfolding graph_ok_def lists by (auto split: if_splits)
  with n lists new(2) show ?thesis by (simp add: alloc_node_def get_elem_def)
qed

lemma fan_ok: "g_nodes g n = Some x \<Longrightarrow> fan_out g n = Inr (length (outs g n)) \<and> fan_in g n = Inr (length (ins g n))"
  by (simp add: fan_out_def fan_in_def list_node)

lemma set_elem_ok:
  assumes "graph_ok g" and "g_nodes g n = Some y"
  shows "\<exists>g'. set_elem g n x = Inr g' \<and> graph_ok g' \<and> get_elem g' n = Inr x \<and> outs g' = outs g \<and> ins g' = ins g"
proof -
  have lists: "outs (set_node g n (y\<lparr>gn_elem := x\<rparr>)) = outs g" "ins (set_node g n (y\<lparr>gn_elem := x\<rparr>)) = ins g"
    using list_node [OF assms(2)] by (auto simp: fun_eq_iff)
  have "graph_ok (set_node g n (y\<lparr>gn_elem := x\<rparr>))"
    using assms unfolding graph_ok_def lists by (auto split: if_splits)
  with lists assms(2) show ?thesis by (simp add: set_elem_def get_elem_def)
qed

section \<open>Finding edges\<close>

definition target :: "'a graph \<Rightarrow> nat \<Rightarrow> nat" where
  "target g e = ge_to (the (g_edges g e))"

lemma arr_iter_simps [simp]:
  "arr_ok (Some (d\<lparr>dy_iter := i\<rparr>)) = arr_ok (Some d)" "arr_elems (Some (d\<lparr>dy_iter := i\<rparr>)) = arr_elems (Some d)"
  by (simp_all add: arr_ok_def arr_elems_def dynarr_count_def)

lemma dynarr_next_list:
  assumes a: "arr_ok (Some d)" and i: "i \<le> length (arr_elems (Some d))"
  shows "dynarr_next (d\<lparr>dy_iter := Val i\<rparr>) =
    Inr (if i < length (arr_elems (Some d)) then (Some (Some (arr_elems (Some d) ! i)), d\<lparr>dy_iter := Val (Suc i)\<rparr>)
         else (None, d\<lparr>dy_iter := Val i\<rparr>))"
proof -
  have d: "dyn_inv d" "dy_nused d = length (arr_elems (Some d))" using arr_SomeD [OF a] by (auto simp: dynarr_count_def)
  then have "Suc i < size_max" using i by (auto simp: dyn_inv_def max_cells_def size_max_def)
  then show ?thesis using dyn_arr_get [OF d(1), of i] arr_at [OF a, of i] d(2)
    by (simp add: dynarr_next_def dynarr_count_def sz_add_def)
qed

lemma find_edge_ok:
  assumes ok: "graph_ok g" and x: "g_nodes g n = Some x" and d: "gn_out x = Some d"
  shows "\<exists>g'. find_edge g n m = Inr (find (\<lambda>e. target g e = m) (outs g n), g') \<and> graph_ok g' \<and> same_nodes g g' \<and>
    g_edges g' = g_edges g \<and> outs g' = outs g \<and> ins g' = ins g"
proof -
  let ?xs = "arr_elems (Some d)" and ?r = "find (\<lambda>e. target g e = m) (outs g n)"
  have a: "arr_ok (Some d)" and xs: "outs g n = ?xs" using graph_arrD [OF ok x] list_node(1) [OF x] d by auto
  note step = dynarr_next_list [OF a]
  let ?first = "dynarr_next (d\<lparr>dy_iter := Val 0\<rparr>)"
  have loop: "\<exists>s. c_loop (findedge_body g m) (Some (?xs ! 0), d\<lparr>dy_iter := Val (Suc 0)\<rparr>) = Inr s \<and>
      (fst s = ?r \<and> (\<exists>i. snd s = d\<lparr>dy_iter := i\<rparr>))" if "?xs \<noteq> []"
  proof (rule c_loop_rule [where I = "\<lambda>s. \<exists>j<length ?xs. s = (Some (?xs ! j), d\<lparr>dy_iter := Val (Suc j)\<rparr>) \<and> (\<forall>i<j. target g (?xs ! i) \<noteq> m)"
        and m = "\<lambda>s. Suc (length ?xs) - the_val (dy_iter (snd s))"])
    fix s assume "\<exists>j<length ?xs. s = (Some (?xs ! j), d\<lparr>dy_iter := Val (Suc j)\<rparr>) \<and> (\<forall>i<j. target g (?xs ! i) \<noteq> m)"
    then obtain j where j: "j < length ?xs" "s = (Some (?xs ! j), d\<lparr>dy_iter := Val (Suc j)\<rparr>)" "\<forall>i<j. target g (?xs ! i) \<noteq> m" by blast
    have "?xs ! j \<in> set (outs g n)" using j(1) xs by simp
    then obtain ed where ed: "g_edges g (?xs ! j) = Some ed" by (rule graph_outE [OF ok])
    then have t: "target g (?xs ! j) = ge_to ed" by (simp add: target_def)
    show "(\<exists>t. findedge_body g m s = Inr (Continue t) \<and>
          (\<exists>j<length ?xs. t = (Some (?xs ! j), d\<lparr>dy_iter := Val (Suc j)\<rparr>) \<and> (\<forall>i<j. target g (?xs ! i) \<noteq> m)) \<and>
          Suc (length ?xs) - the_val (dy_iter (snd t)) < Suc (length ?xs) - the_val (dy_iter (snd s))) \<or>
        (\<exists>t. findedge_body g m s = Inr (Break t) \<and> (fst t = ?r \<and> (\<exists>i. snd t = d\<lparr>dy_iter := i\<rparr>)))"
    proof (cases "ge_to ed = m")
      case True
      then have "?r = Some (?xs ! j)" using j(1,3) t xs unfolding find_Some_iff by auto
      then show ?thesis using True ed j(2) by (auto simp: findedge_body_def)
    next
      case False
      then have none: "\<forall>i<Suc j. target g (?xs ! i) \<noteq> m" using j(3) t by (auto simp: less_Suc_eq)
      show ?thesis
      proof (cases "Suc j < length ?xs")
        case True
        then show ?thesis using False ed j(2) step [of "Suc j"] none by (auto simp: findedge_body_def)
      next
        case end_of: False
        then have "\<forall>i<length ?xs. target g (?xs ! i) \<noteq> m" using none by simp
        then have "?r = None" using xs by (auto simp: find_None_iff in_set_conv_nth)
        then show ?thesis using False end_of ed j step [of "Suc j"] by (auto simp: findedge_body_def)
      qed
    qed
  qed (use that in auto)
  have "\<exists>i. find_edge g n m = Inr (?r, set_node g n (x\<lparr>gn_out := Some (d\<lparr>dy_iter := i\<rparr>)\<rparr>))"
    using loop step [of 0] x d xs by (cases "?xs = []") (auto simp: find_edge_def dynarr_first_def)
  then obtain i where "find_edge g n m = Inr (?r, set_node g n (x\<lparr>gn_out := Some (d\<lparr>dy_iter := i\<rparr>)\<rparr>))" (is "_ = Inr (_, ?g')") by blast
  moreover have os: "outs ?g' = outs g" "ins ?g' = ins g" using xs list_node(2) [OF x] by (auto simp: fun_eq_iff)
  moreover have "graph_ok ?g'" using ok a x unfolding graph_ok_def os by (auto split: if_splits)
  moreover have "same_nodes g ?g'" using x by (auto simp: same_nodes_def)
  ultimately show ?thesis by auto
qed

section \<open>Properties\<close>

text \<open>
  C35: linking two nodes of a well-formed graph returns a new edge with the given ends and weight, appends it to the
  outgoing list of the one and the incoming list of the other (which may be the same node), changes no
  other list, node or edge, and keeps the graph well-formed.
\<close>

theorem link_node_correct:
  assumes "graph_ok g" and "n \<in> dom (g_nodes g)" and "m \<in> dom (g_nodes g)" and "finite (used g)"
    and "new_ok new" and "new (used g) = Some e"
    and "length (outs g n) < 2 ^ 30" and "length (ins g m) < 2 ^ 30"
    and "\<And>k. k \<le> 16 * max (length (outs g n)) (length (ins g m)) + 40 \<Longrightarrow> alloc k"
  shows "\<exists>g'. link_node alloc new g n m w = Inr (e, g') \<and> graph_ok g' \<and> same_nodes g g' \<and>
    g_edges g e = None \<and>
    g_edges g' = (g_edges g)(e \<mapsto> \<lparr>ge_from = n, ge_to = m, ge_weight = w, ge_attr = None, ge_travtag = 0\<rparr>) \<and>
    outs g' = (outs g)(n := outs g n @ [e]) \<and> ins g' = (ins g)(m := ins g m @ [e])"
proof -
  obtain x y where xy: "g_nodes g n = Some x" "g_nodes g m = Some y" using assms(2,3) by blast
  have fresh: "e \<notin> used g" using assms(4-6) by (auto simp: new_ok_def)
  then have "g_edges g e = None" by (auto simp: used_def)
  with link_node_ok [where alloc = alloc and new = new and g = g, OF assms(1) xy assms(6) fresh assms(7-9)] show ?thesis by blast
qed

definition lone :: "'a option \<Rightarrow> 'a gnode" where
  "lone x = \<lparr>gn_in = None, gn_out = None, gn_elem = x, gn_attr = None, gn_travtag = 0\<rparr>"

definition two_nodes :: "nat graph" where
  "two_nodes = \<lparr>g_nodes = [1 \<mapsto> lone (Some 10), 2 \<mapsto> lone (Some 20)], g_edges = Map.empty\<rparr>"

lemma two_nodes_ok: "graph_ok two_nodes" "outs two_nodes n = []" "ins two_nodes n = []" "used two_nodes = {1, 2}"
  "dom (g_nodes two_nodes) = {1, 2}"
  by (auto simp: graph_ok_def outs_def ins_def two_nodes_def lone_def used_def split: if_splits)

theorem link_node_correct_witness:
  "\<exists>g'. link_node (mem_upto 40) new_above two_nodes 1 2 5 = Inr (3, g') \<and> graph_ok g' \<and>
     outs g' 1 = [3] \<and> outs g' 2 = [] \<and> ins g' 1 = [] \<and> ins g' 2 = [3]"
proof -
  have "new_above (used two_nodes) = Some 3" by (simp add: new_above_def two_nodes_ok)
  from link_node_correct [where n = 1 and m = 2 and alloc = "mem_upto 40" and w = 5, OF two_nodes_ok(1) _ _ _ new_above_ok this]
  show ?thesis by (auto simp: two_nodes_ok mem_upto_def)
qed

text \<open>
  C36: unlinking removes the first edge in the outgoing list that leads to the given node, and only that one, from the
  lists of both its ends, by moving the last edge of each list into its place. When there is none, or the
  node has never had an edge, a NULL pointer is dereferenced.
\<close>

theorem unlink_node_correct:
  assumes "graph_ok g" and "n \<in> dom (g_nodes g)"
  shows "case find (\<lambda>e. target g e = m) (outs g n) of
      None \<Rightarrow> unlink_node alloc g n m = Inl Null_Deref
    | Some e \<Rightarrow> \<exists>g'. unlink_node alloc g n m = Inr g' \<and> graph_ok g' \<and> same_nodes g g' \<and> g_edges g' = g_edges g \<and>
        outs g' = (outs g)(n := swap_remove e (outs g n)) \<and> ins g' = (ins g)(m := swap_remove e (ins g m))"
proof -
  obtain x where x: "g_nodes g n = Some x" using assms(2) by blast
  show ?thesis
  proof (cases "gn_out x")
    case None
    then have "outs g n = []" using list_node(1) [OF x] by simp
    then show ?thesis using x None by (simp add: unlink_node_def find_edge_def)
  next
    case (Some d)
    obtain g1 where g1: "find_edge g n m = Inr (find (\<lambda>e. target g e = m) (outs g n), g1)" "graph_ok g1"
      "same_nodes g g1" "g_edges g1 = g_edges g" "outs g1 = outs g" "ins g1 = ins g"
      using find_edge_ok [OF assms(1) x Some] by blast
    show ?thesis
    proof (cases "find (\<lambda>e. target g e = m) (outs g n)")
      case None
      then show ?thesis using g1(1) by (simp add: unlink_node_def drop_edge_def)
    next
      case hit: (Some e)
      then have e: "e \<in> set (outs g n)" "target g e = m" by (auto simp: find_Some_iff)
      obtain ed where ed: "g_edges g e = Some ed" using graph_outE [OF assms(1) e(1)] by blast
      then have m: "ge_to ed = m" using e(2) by (simp add: target_def)
      obtain g' where "drop_edge alloc g1 (Some e) = Inr g'" "graph_ok g'" "same_nodes g1 g'" "g_edges g' = g_edges g"
        "outs g' = (outs g)(n := swap_remove e (outs g n))" "ins g' = (ins g)(m := swap_remove e (ins g m))"
        using drop_edge_ok [OF g1(2), of e n ed alloc] e ed m g1(4-6) by auto
      with hit g1(1,3) show ?thesis by (simp add: unlink_node_def same_nodes_def)
    qed
  qed
qed

text \<open>A graph with two edges from the first node to the second and a loop at the first.\<close>

definition arr_of :: "nat list \<Rightarrow> nat dynarr option" where
  "arr_of es = Some \<lparr>dy_nelem = length es, dy_nused = length es, dy_iter = Undef, dy_data = map (Val \<circ> Some) es, dy_nulling = True\<rparr>"

lemma arr_of_ok: "length es < max_cells \<Longrightarrow> arr_ok (arr_of es)" "arr_elems (arr_of es) = es"
  by (auto simp: arr_of_def arr_ok_def arr_elems_def dyn_inv_def dyn_at_def dynarr_count_def all_val_def intro!: nth_equalityI)

definition demo_graph :: "nat graph" where
  "demo_graph =
     \<lparr>g_nodes = [1 \<mapsto> (lone (Some 10))\<lparr>gn_out := arr_of [6, 7, 8], gn_in := arr_of [6]\<rparr>,
                 2 \<mapsto> (lone (Some 20))\<lparr>gn_in := arr_of [7, 8]\<rparr>, 3 \<mapsto> lone None],
      g_edges = [6 \<mapsto> \<lparr>ge_from = 1, ge_to = 1, ge_weight = 2, ge_attr = None, ge_travtag = 0\<rparr>,
                 7 \<mapsto> \<lparr>ge_from = 1, ge_to = 2, ge_weight = 3, ge_attr = None, ge_travtag = 0\<rparr>,
                 8 \<mapsto> \<lparr>ge_from = 1, ge_to = 2, ge_weight = 4, ge_attr = None, ge_travtag = 0\<rparr>]\<rparr>"

lemma demo_graph_lists:
  "outs demo_graph = (\<lambda>_. [])(1 := [6, 7, 8])" "ins demo_graph = (\<lambda>_. [])(1 := [6], 2 := [7, 8])"
  "target demo_graph 6 = 1" "target demo_graph 7 = 2" "target demo_graph 8 = 2" "dom (g_nodes demo_graph) = {1, 2, 3}"
  by (auto simp: demo_graph_def outs_def ins_def target_def lone_def arr_of_ok(2) fun_eq_iff)

lemma demo_graph_ok: "graph_ok demo_graph"
proof (rule graph_okI)
  show "arr_ok (gn_out x) \<and> arr_ok (gn_in x)" if "g_nodes demo_graph n = Some x" for n x
    using that by (auto simp: demo_graph_def lone_def arr_of_ok(1) max_cells_def split: if_splits)
  show "\<exists>ed. g_edges demo_graph e = Some ed \<and> ge_from ed = n \<and> e \<in> set (ins demo_graph (ge_to ed))"
    if "e \<in> set (outs demo_graph n)" for n e
    using that unfolding demo_graph_lists by (auto simp: demo_graph_def split: if_splits)
  show "\<exists>ed. g_edges demo_graph e = Some ed \<and> ge_to ed = n \<and> e \<in> set (outs demo_graph (ge_from ed))"
    if "e \<in> set (ins demo_graph n)" for n e
    using that unfolding demo_graph_lists by (auto simp: demo_graph_def split: if_splits)
qed (simp add: demo_graph_lists)

theorem unlink_node_correct_witness:
  "(\<exists>g'. unlink_node (mem_upto 0) demo_graph 1 1 = Inr g' \<and> outs g' 1 = [8, 7] \<and> ins g' 1 = [] \<and> ins g' 2 = [7, 8]) \<and>
   unlink_node (mem_upto 0) demo_graph 1 3 = Inl Null_Deref"
proof -
  have "swap_remove 6 [6, 7, 8] = [8, 7]" "swap_remove 6 [6] = []"
    by (simp_all add: swap_remove_def Least_eq_0)
  then show ?thesis
    using unlink_node_correct [where n = 1 and m = 1 and alloc = "mem_upto 0", OF demo_graph_ok]
      unlink_node_correct [where n = 1 and m = 3 and alloc = "mem_upto 0", OF demo_graph_ok]
    by (auto simp: demo_graph_lists)
qed

end
