(* ===== verification/GraphTrav.thy ===== *)
theory GraphTrav imports Graph StackRoom "HOL-Library.Multiset" begin

text \<open>
  The traversals of graph.c. Nodes and edges are marked with a random tag, so that the marks of an earlier
  traversal need not be removed. The callbacks are functions on a state of the caller and do not change
  the graph. Both traversals are shown equal to reference walks over the abstract graph, and the walks are
  shown to visit what is reachable exactly once.
\<close>

section \<open>The code: traversal\<close>

text \<open>A tag is drawn that is not 0 and not that of the start node; \<open>rand_fn\<close> is \<open>rand\<close>.\<close>

definition tag_body :: "('r \<Rightarrow> int \<times> 'r) \<Rightarrow> int \<Rightarrow> 'r \<Rightarrow> ('r, int \<times> 'r) step res" where
  "tag_body rand_fn old r = (let (t, r1) = rand_fn r in Inr (if t = old \<or> t = 0 then Continue r1 else Break (t, r1)))"

definition call_opt :: "(nat \<Rightarrow> 'u \<Rightarrow> 'u) option \<Rightarrow> nat \<Rightarrow> 'u \<Rightarrow> 'u" where
  "call_opt f x u = (case f of None \<Rightarrow> u | Some h \<Rightarrow> h x u)"

text \<open>Element \<open>i\<close> of the outgoing array of a node.\<close>

definition out_get :: "(nat \<Rightarrow> bool) \<Rightarrow> 'a graph \<Rightarrow> nat \<Rightarrow> nat \<Rightarrow> (nat option \<times> 'a graph) res" where
  "out_get alloc g n i =
     bind_res (get_node g n) (\<lambda>x.
     case gn_out x of
       None \<Rightarrow> Inl Null_Deref
     | Some d \<Rightarrow> bind_res (dynarr_get alloc d i) (\<lambda>(e, d1). Inr (e, set_node g n (x\<lparr>gn_out := Some d1\<rparr>))))"

text \<open>
  \<open>trav_dfs_r\<close> with room for a number of nested calls; \<open>rec\<close> is the recursive call.
\<close>

type_synonym ('a, 'u) trav = "nat \<Rightarrow> 'a graph \<Rightarrow> 'u \<Rightarrow> ('a graph \<times> 'u) res"

definition dfs_body ::
  "(nat \<Rightarrow> bool) \<Rightarrow> int \<Rightarrow> (nat \<Rightarrow> 'u \<Rightarrow> 'u) option \<Rightarrow> (nat \<Rightarrow> 'u \<Rightarrow> 'u) option \<Rightarrow> ('a, 'u) trav \<Rightarrow> nat \<Rightarrow> nat \<Rightarrow>
   nat \<times> 'a graph \<times> 'u \<Rightarrow> (nat \<times> 'a graph \<times> 'u, 'a graph \<times> 'u) step res" where
  "dfs_body alloc tag nf ef rec n ec = (\<lambda>(i, g, u).
     if i < ec then
       bind_res (out_get alloc g n i) (\<lambda>(e, g1).
       bind_res (get_edge g1 e) (\<lambda>ed.
       let (g2, u1) = (if ge_travtag ed \<noteq> tag then (set_edge g1 (the e) (ed\<lparr>ge_travtag := tag\<rparr>), call_opt ef (the e) u)
                       else (g1, u));
           u2 = call_opt nf n u1 in
       bind_res (rec (ge_to ed) g2 u2) (\<lambda>(g3, u3). Inr (Continue (i + 1, g3, u3)))))
     else Inr (Break (g, u)))"

definition dfs_node ::
  "(nat \<Rightarrow> bool) \<Rightarrow> int \<Rightarrow> (nat \<Rightarrow> 'u \<Rightarrow> 'u) option \<Rightarrow> (nat \<Rightarrow> 'u \<Rightarrow> 'u) option \<Rightarrow> ('a, 'u) trav \<Rightarrow> ('a, 'u) trav" where
  "dfs_node alloc tag nf ef rec n g u =
     bind_res (get_node g n) (\<lambda>x.
     if gn_travtag x = tag then Inr (g, u)
     else c_loop (dfs_body alloc tag nf ef rec n (arr_count (gn_out x))) (0, set_node g n (x\<lparr>gn_travtag := tag\<rparr>), u))"

primrec trav_dfs_r ::
  "(nat \<Rightarrow> bool) \<Rightarrow> int \<Rightarrow> (nat \<Rightarrow> 'u \<Rightarrow> 'u) option \<Rightarrow> (nat \<Rightarrow> 'u \<Rightarrow> 'u) option \<Rightarrow> nat \<Rightarrow> ('a, 'u) trav" where
  "trav_dfs_r alloc tag nf ef 0 = (\<lambda>n g u. Inl Stack_Overflow)"
| "trav_dfs_r alloc tag nf ef (Suc room) = dfs_node alloc tag nf ef (trav_dfs_r alloc tag nf ef room)"

definition trav_dfs where
  "trav_dfs alloc rand_fn room r g start nf ef u =
     bind_res (get_node g start) (\<lambda>x.
     bind_res (c_loop (tag_body rand_fn (gn_travtag x)) r) (\<lambda>(tag, r1).
     bind_res (trav_dfs_r alloc tag nf ef room start g u) (\<lambda>(g1, u1). Inr (g1, u1, r1))))"

definition bfs_edge ::
  "(nat \<Rightarrow> bool) \<Rightarrow> int \<Rightarrow> (nat \<Rightarrow> 'u \<Rightarrow> 'u) option \<Rightarrow> nat \<Rightarrow> nat \<Rightarrow>
   nat \<times> 'a graph \<times> nat stack \<times> 'u \<Rightarrow> (nat \<times> 'a graph \<times> nat stack \<times> 'u, 'a graph \<times> nat stack \<times> 'u) step res" where
  "bfs_edge alloc tag ef n ec = (\<lambda>(i, g, st, u).
     if i < ec then
       bind_res (out_get alloc g n i) (\<lambda>(e, g1).
       bind_res (get_edge g1 e) (\<lambda>ed.
       if ge_travtag ed \<noteq> tag then
         let g2 = set_edge g1 (the e) (ed\<lparr>ge_travtag := tag\<rparr>); u1 = call_opt ef (the e) u in
         bind_res (get_node g2 (ge_to ed)) (\<lambda>y.
         bind_res (if gn_travtag y \<noteq> tag then stack_push alloc st (Some (ge_to ed)) else Inr st) (\<lambda>st1.
         Inr (Continue (i + 1, g2, st1, u1))))
       else Inr (Continue (i + 1, g1, st, u))))
     else Inr (Break (g, st, u)))"

definition bfs_body ::
  "(nat \<Rightarrow> bool) \<Rightarrow> int \<Rightarrow> (nat \<Rightarrow> 'u \<Rightarrow> 'u) option \<Rightarrow> (nat \<Rightarrow> 'u \<Rightarrow> 'u) option \<Rightarrow>
   'a graph \<times> nat stack \<times> 'u \<Rightarrow> ('a graph \<times> nat stack \<times> 'u, 'a graph \<times> 'u) step res" where
  "bfs_body alloc tag nf ef = (\<lambda>(g, st, u).
     bind_res (stack_pop st) (\<lambda>(top, st1).
     case top of
       None \<Rightarrow> Inr (Break (g, u))
     | Some n \<Rightarrow>
         bind_res (get_node g n) (\<lambda>x.
         if gn_travtag x = tag then Inr (Continue (g, st1, u))
         else
           bind_res (c_loop (bfs_edge alloc tag ef n (arr_count (gn_out x)))
               (0, set_node g n (x\<lparr>gn_travtag := tag\<rparr>), st1, call_opt nf n u)) (\<lambda>(g1, st2, u1).
           Inr (Continue (g1, st2, u1))))))"

definition trav_bfs where
  "trav_bfs alloc rand_fn r g start nf ef u =
     bind_res (get_node g start) (\<lambda>x.
     bind_res (c_loop (tag_body rand_fn (gn_travtag x)) r) (\<lambda>(tag, r1).
     bind_res (stack_init alloc 16) (\<lambda>st.
     bind_res (stack_push alloc st (Some start)) (\<lambda>st1.
     bind_res (c_loop (bfs_body alloc tag nf ef) (g, st1, u)) (\<lambda>(g1, u1). Inr (g1, u1, r1))))))"

text \<open>Any other type of traversal only prints a message.\<close>

definition traverse where
  "traverse alloc rand_fn room r g n travtype nf ef u =
     (if travtype = (1 :: int) then trav_dfs alloc rand_fn room r g n nf ef u
      else if travtype = 0 then trav_bfs alloc rand_fn r g n nf ef u
      else Inr (g, u, r))"

section \<open>Graphs that differ in their tags\<close>

definition erase_tags :: "'a graph \<Rightarrow> 'a graph" where
  "erase_tags g = \<lparr>g_nodes = (\<lambda>n. map_option (\<lambda>x. x\<lparr>gn_travtag := 0\<rparr>) (g_nodes g n)),
     g_edges = (\<lambda>e. map_option (\<lambda>x. x\<lparr>ge_travtag := 0\<rparr>) (g_edges g e))\<rparr>"

definition node_tag :: "'a graph \<Rightarrow> nat \<Rightarrow> int" where
  "node_tag g n = gn_travtag (the (g_nodes g n))"

definition edge_tag :: "'a graph \<Rightarrow> nat \<Rightarrow> int" where
  "edge_tag g e = ge_travtag (the (g_edges g e))"

text \<open>
  \<open>retagged t g0 g\<close>: \<open>g\<close> is \<open>g0\<close> but for some tags that have become \<open>t\<close>. \<open>seen t g0 g V F\<close>: moreover the nodes \<open>V\<close> and the
  edges \<open>F\<close> are those that carry \<open>t\<close>.
\<close>

definition retagged :: "int \<Rightarrow> 'a graph \<Rightarrow> 'a graph \<Rightarrow> bool" where
  "retagged t g0 g \<longleftrightarrow> erase_tags g = erase_tags g0 \<and>
     (\<forall>n. node_tag g n \<in> {t, node_tag g0 n}) \<and> (\<forall>e. edge_tag g e \<in> {t, edge_tag g0 e})"

definition seen :: "int \<Rightarrow> 'a graph \<Rightarrow> 'a graph \<Rightarrow> nat set \<Rightarrow> nat set \<Rightarrow> bool" where
  "seen t g0 g V F \<longleftrightarrow> retagged t g0 g \<and>
     V = {n \<in> dom (g_nodes g0). node_tag g n = t} \<and> F = {e \<in> dom (g_edges g0). edge_tag g e = t}"

lemma erase_nodeD:
  assumes "erase_tags g = erase_tags g0" and "g_nodes g0 n = Some x0"
  shows "\<exists>x. g_nodes g n = Some x \<and> x\<lparr>gn_travtag := 0\<rparr> = x0\<lparr>gn_travtag := 0\<rparr>"
proof -
  have "map_option (\<lambda>x. x\<lparr>gn_travtag := 0\<rparr>) (g_nodes g n) = map_option (\<lambda>x. x\<lparr>gn_travtag := 0\<rparr>) (g_nodes g0 n)"
    using assms(1) unfolding erase_tags_def by (simp add: fun_eq_iff)
  with assms(2) show ?thesis by (cases "g_nodes g n") auto
qed

lemma erase_edgeD:
  assumes "erase_tags g = erase_tags g0" and "g_edges g0 e = Some x0"
  shows "\<exists>x. g_edges g e = Some x \<and> x\<lparr>ge_travtag := 0\<rparr> = x0\<lparr>ge_travtag := 0\<rparr>"
proof -
  have "map_option (\<lambda>x. x\<lparr>ge_travtag := 0\<rparr>) (g_edges g e) = map_option (\<lambda>x. x\<lparr>ge_travtag := 0\<rparr>) (g_edges g0 e)"
    using assms(1) unfolding erase_tags_def by (simp add: fun_eq_iff)
  with assms(2) show ?thesis by (cases "g_edges g e") auto
qed

lemma seen_node:
  assumes ok: "graph_ok g0" and s: "seen t g0 g V F" and n: "n \<in> dom (g_nodes g0)"
  obtains x where "g_nodes g n = Some x" "gn_travtag x = t \<longleftrightarrow> n \<in> V" "arr_elems (gn_out x) = outs g0 n" "arr_ok (gn_out x)"
    "seen t g0 (set_node g n (x\<lparr>gn_travtag := t\<rparr>)) (insert n V) F"
proof -
  obtain x0 where x0: "g_nodes g0 n = Some x0" using n by blast
  have e: "erase_tags g = erase_tags g0" using s by (simp add: seen_def retagged_def)
  obtain x where x: "g_nodes g n = Some x" "x\<lparr>gn_travtag := 0\<rparr> = x0\<lparr>gn_travtag := 0\<rparr>" using erase_nodeD [OF e x0] by blast
  have out: "gn_out x = gn_out x0" using arg_cong [OF x(2), of gn_out] by simp
  have tag: "gn_travtag x = t \<longleftrightarrow> n \<in> V" using s n x(1) by (auto simp: seen_def node_tag_def)
  have "erase_tags (set_node g n (x\<lparr>gn_travtag := t\<rparr>)) = erase_tags g" using x(1) by (simp add: erase_tags_def fun_eq_iff)
  then have "seen t g0 (set_node g n (x\<lparr>gn_travtag := t\<rparr>)) (insert n V) F"
    using s n by (auto simp: seen_def retagged_def node_tag_def edge_tag_def split: if_splits)
  with x(1) tag out list_node(1) [OF x0] graph_arrD [OF ok x0] show ?thesis by (intro that) auto
qed

lemma seen_edge:
  assumes ok: "graph_ok g0" and s: "seen t g0 g V F" and e: "e \<in> set (outs g0 n)"
  obtains ed where "g_edges g e = Some ed" "ge_travtag ed = t \<longleftrightarrow> e \<in> F" "ge_to ed = target g0 e"
    "seen t g0 (set_edge g e (ed\<lparr>ge_travtag := t\<rparr>)) V (insert e F)"
proof -
  obtain x0 where x0: "g_edges g0 e = Some x0" using graph_outE [OF ok e] by blast
  have er: "erase_tags g = erase_tags g0" using s by (simp add: seen_def retagged_def)
  obtain x where x: "g_edges g e = Some x" "x\<lparr>ge_travtag := 0\<rparr> = x0\<lparr>ge_travtag := 0\<rparr>" using erase_edgeD [OF er x0] by blast
  have to: "ge_to x = target g0 e" using arg_cong [OF x(2), of ge_to] x0 by (simp add: target_def)
  have tag: "ge_travtag x = t \<longleftrightarrow> e \<in> F" using s x0 x(1) by (auto simp: seen_def edge_tag_def)
  have "erase_tags (set_edge g e (x\<lparr>ge_travtag := t\<rparr>)) = erase_tags g" using x(1) by (simp add: erase_tags_def fun_eq_iff)
  then have "seen t g0 (set_edge g e (x\<lparr>ge_travtag := t\<rparr>)) V (insert e F)"
    using s x0 by (auto simp: seen_def retagged_def node_tag_def edge_tag_def split: if_splits)
  with x(1) tag to show ?thesis by (intro that) auto
qed

lemma target_node: "graph_ok g \<Longrightarrow> e \<in> set (outs g n) \<Longrightarrow> target g e \<in> dom (g_nodes g)"
  by (erule graph_outE, assumption) (use node_of_list(2) in \<open>fastforce simp: target_def\<close>)

lemma set_node_same: "g_nodes g n = Some x \<Longrightarrow> set_node g n x = g"
  by (simp add: set_node_def fun_upd_idem)

lemma out_get_ok:
  assumes ok: "graph_ok g0" and s: "seen t g0 g V F" and i: "i < length (outs g0 n)"
  shows "out_get alloc g n i = Inr (Some (outs g0 n ! i), g)"
proof -
  have "n \<in> dom (g_nodes g0)" using i by (auto simp: outs_def split: option.splits)
  from seen_node [OF ok s this] obtain x where x: "g_nodes g n = Some x" "arr_elems (gn_out x) = outs g0 n" "arr_ok (gn_out x)" by blast
  obtain d where d: "gn_out x = Some d" using x(2) i by (cases "gn_out x") auto
  have a: "arr_ok (Some d)" "arr_elems (Some d) = outs g0 n" using x d by auto
  note dd = arr_SomeD [OF a(1)]
  have "dynarr_get alloc d i = Inr (Some (outs g0 n ! i), d)"
    using dynarr_in(1) [of d i] arr_at [OF a(1), of i] dd i a(2) by simp
  moreover have "set_node g n (x\<lparr>gn_out := Some d\<rparr>) = g" using set_node_same [OF x(1)] by (simp flip: d)
  ultimately show ?thesis using x(1) d by (simp add: out_get_def)
qed

section \<open>The walk with a stack\<close>

text \<open>
  What \<open>trav_bfs\<close> computes: the nodes in the order they are visited, from the nodes visited so far and the stack.
  The number bounds the steps.
\<close>

fun stack_walk :: "'a graph \<Rightarrow> nat \<Rightarrow> nat list \<Rightarrow> nat list \<Rightarrow> nat list" where
  "stack_walk g 0 ns st = ns"
| "stack_walk g (Suc k) ns [] = ns"
| "stack_walk g (Suc k) ns (n # st) =
     (if n \<in> set ns then stack_walk g k ns st
      else stack_walk g k (ns @ [n]) (rev (filter (\<lambda>m. m \<notin> insert n (set ns)) (map (target g) (outs g n))) @ st))"

datatype event = At_Node nat | At_Edge nat

fun tell :: "(nat \<Rightarrow> 'u \<Rightarrow> 'u) option \<Rightarrow> (nat \<Rightarrow> 'u \<Rightarrow> 'u) option \<Rightarrow> event \<Rightarrow> 'u \<Rightarrow> 'u" where
  "tell nf ef (At_Node n) u = call_opt nf n u"
| "tell nf ef (At_Edge e) u = call_opt ef e u"

definition visit_events :: "'a graph \<Rightarrow> nat \<Rightarrow> event list" where
  "visit_events g n = At_Node n # map At_Edge (outs g n)"

lemma fold_edges: "fold (tell nf ef) (map At_Edge es) u = fold (call_opt ef) es u"
  by (induction es arbitrary: u) simp_all

lemma bfs_edge_loop:
  assumes ok: "graph_ok g0" and s: "seen t g0 g V F" and new: "set (outs g0 n) \<inter> F = {}" and mem: "mem_for alloc K"
    and st: "stack_bounded K st" "length (stack_elems st) + length (outs g0 n) \<le> K"
  shows "\<exists>g' st'. c_loop (bfs_edge alloc t ef n (length (outs g0 n))) (0, g, st, u) = Inr (g', st', fold (call_opt ef) (outs g0 n) u) \<and>
    seen t g0 g' V (F \<union> set (outs g0 n)) \<and> stack_bounded K st' \<and>
    stack_elems st' = rev (filter (\<lambda>m. m \<notin> V) (map (target g0) (outs g0 n))) @ stack_elems st"
proof -
  let ?os = "outs g0 n"
  let ?at = "\<lambda>i es. rev (filter (\<lambda>m. m \<notin> V) (map (target g0) (take i ?os))) @ es"
  define I where "I = (\<lambda>(i, g', st', u'). i \<le> length ?os \<and> seen t g0 g' V (F \<union> set (take i ?os)) \<and> stack_bounded K st' \<and>
    stack_elems st' = ?at i (stack_elems st) \<and> u' = fold (call_opt ef) (take i ?os) u)"
  have "\<exists>r. c_loop (bfs_edge alloc t ef n (length ?os)) (0, g, st, u) = Inr r \<and> I (length ?os, r)"
  proof (rule c_loop_rule [where I = I and m = "\<lambda>s. length ?os - fst s"])
    show "I (0, g, st, u)" using s st by (simp add: I_def)
    fix s assume "I s"
    obtain i g1 st1 u1 where s: "s = (i, g1, st1, u1)" by (cases s) auto
    with \<open>I s\<close> have I: "i \<le> length ?os" "seen t g0 g1 V (F \<union> set (take i ?os))" "stack_bounded K st1"
      "stack_elems st1 = ?at i (stack_elems st)" "u1 = fold (call_opt ef) (take i ?os) u" by (simp_all add: I_def)
    show "(\<exists>t'. bfs_edge alloc t ef n (length ?os) s = Inr (Continue t') \<and> I t' \<and> length ?os - fst t' < length ?os - fst s) \<or>
      (\<exists>r. bfs_edge alloc t ef n (length ?os) s = Inr (Break r) \<and> I (length ?os, r))"
    proof (cases "i < length ?os")
      case False
      then show ?thesis using I s \<open>I s\<close> by (simp add: bfs_edge_def)
    next
      case True
      let ?e = "?os ! i"
      have e: "?e \<in> set ?os" using True by simp
      have take: "take (Suc i) ?os = take i ?os @ [?e]" using True by (simp add: take_Suc_conv_app_nth)
      have "distinct (take (Suc i) ?os)" using graph_distinctD [OF ok] by (simp add: distinct_take)
      then have fresh: "?e \<notin> F \<union> set (take i ?os)" using new e take by auto
      obtain ed where ed: "g_edges g1 ?e = Some ed" "ge_travtag ed \<noteq> t" "ge_to ed = target g0 ?e"
        "seen t g0 (set_edge g1 ?e (ed\<lparr>ge_travtag := t\<rparr>)) V (insert ?e (F \<union> set (take i ?os)))"
        using seen_edge [OF ok I(2) e] fresh by metis
      let ?g2 = "set_edge g1 ?e (ed\<lparr>ge_travtag := t\<rparr>)"
      obtain y where y: "g_nodes ?g2 (target g0 ?e) = Some y" "gn_travtag y = t \<longleftrightarrow> target g0 ?e \<in> V"
        using seen_node [OF ok ed(4) target_node [OF ok e]] by metis
      have "length (filter (\<lambda>m. m \<notin> V) (map (target g0) (take i ?os))) \<le> i"
        by (rule order_trans [OF length_filter_le]) simp
      then have "length (stack_elems st1) < K" using I(4) st(2) True by simp
      from push_bounded [OF I(3) this mem, of "target g0 ?e"]
      obtain st2 where st2: "(if gn_travtag y \<noteq> t then stack_push alloc st1 (Some (target g0 ?e)) else Inr st1) = Inr st2"
        "stack_bounded K st2" "stack_elems st2 = ?at (Suc i) (stack_elems st)"
        using I(3,4) y(2) unfolding take by (cases "target g0 ?e \<in> V") auto
      have "bfs_edge alloc t ef n (length ?os) s = Inr (Continue (Suc i, ?g2, st2, call_opt ef ?e u1))"
        using True out_get_ok [OF ok I(2) True] ed(1-3) y(1) st2(1) s by (auto simp: bfs_edge_def Let_def split: if_splits)
      moreover have "I (Suc i, ?g2, st2, call_opt ef ?e u1)"
        using True ed(4) st2(2,3) I(5) take by (simp add: I_def)
      ultimately show ?thesis using True s by auto
    qed
  qed
  then show ?thesis by (auto simp: I_def)
qed

text \<open>A set of nodes no edge leaves.\<close>

definition closed_set :: "'a graph \<Rightarrow> nat set \<Rightarrow> bool" where
  "closed_set g R \<longleftrightarrow> finite R \<and> R \<subseteq> dom (g_nodes g) \<and> (\<forall>n\<in>R. \<forall>e\<in>set (outs g n). target g e \<in> R)"

definition edges_left :: "'a graph \<Rightarrow> nat set \<Rightarrow> nat set \<Rightarrow> nat" where
  "edges_left g R V = (\<Sum>n\<in>R - V. length (outs g n))"

lemma edges_left_insert:
  assumes "closed_set g R" and "n \<in> R" and "n \<notin> V"
  shows "edges_left g R V = length (outs g n) + edges_left g R (insert n V)"
proof -
  have eq: "R - V = insert n (R - insert n V)" using assms(2,3) by auto
  have "finite (R - insert n V)" using assms(1) by (simp add: closed_set_def)
  then have "(\<Sum>m\<in>insert n (R - insert n V). length (outs g m)) = length (outs g n) + edges_left g R (insert n V)"
    by (subst sum.insert) (simp_all add: edges_left_def)
  then show ?thesis by (subst edges_left_def, subst eq)
qed

lemma outs_disjoint: "graph_ok g \<Longrightarrow> n \<noteq> m \<Longrightarrow> set (outs g n) \<inter> set (outs g m) = {}"
  unfolding disjoint_iff by (metis graph_outE option.inject)

lemma bfs_walk:
  assumes ok: "graph_ok g0" and R: "closed_set g0 R" and mem: "mem_for alloc K"
  shows "seen t g0 g V F \<Longrightarrow> V \<inter> R = set ns \<Longrightarrow> \<forall>m\<in>R - set ns. set (outs g0 m) \<inter> F = {} \<Longrightarrow>
    stack_bounded K st \<Longrightarrow> set (stack_elems st) \<subseteq> R \<Longrightarrow>
    edges_left g0 R (set ns) + length (stack_elems st) \<le> K \<Longrightarrow> edges_left g0 R (set ns) + length (stack_elems st) < k \<Longrightarrow>
    \<exists>g'. c_loop (bfs_body alloc t nf ef) (g, st, fold (tell nf ef) (concat (map (visit_events g0) ns)) u) =
      Inr (g', fold (tell nf ef) (concat (map (visit_events g0) (stack_walk g0 k ns (stack_elems st)))) u) \<and>
      retagged t g0 g'"
proof (induction k arbitrary: g V F ns st)
  case (Suc k)
  note s = Suc.prems(1) and V = Suc.prems(2) and F = Suc.prems(3) and st = Suc.prems(4) and stR = Suc.prems(5)
  let ?u = "fold (tell nf ef) (concat (map (visit_events g0) ns)) u"
  show ?case
  proof (cases "stack_elems st")
    case Nil
    then obtain st1 where "stack_pop st = Inr (None, st1)" using pop_bounded [OF st] by auto
    then have "c_loop (bfs_body alloc t nf ef) (g, st, ?u) = Inr (g, ?u)" by (intro c_loop_Break) (simp add: bfs_body_def)
    with Nil s show ?thesis by (simp add: seen_def)
  next
    case (Cons n es)
    obtain st1 where st1: "stack_pop st = Inr (Some n, st1)" "stack_bounded K st1" "stack_elems st1 = es"
      using pop_bounded [OF st] Cons by auto
    have n: "n \<in> R" "n \<in> dom (g_nodes g0)" using stR Cons R by (auto simp: closed_set_def)
    obtain x where x: "g_nodes g n = Some x" "gn_travtag x = t \<longleftrightarrow> n \<in> V" "arr_elems (gn_out x) = outs g0 n"
      "seen t g0 (set_node g n (x\<lparr>gn_travtag := t\<rparr>)) (insert n V) F"
      using seen_node [OF ok s n(2)] by metis
    have tag: "gn_travtag x = t \<longleftrightarrow> n \<in> set ns" using x(2) V n(1) by auto
    show ?thesis
    proof (cases "n \<in> set ns")
      case True
      then have "bfs_body alloc t nf ef (g, st, ?u) = Inr (Continue (g, st1, ?u))"
        using st1(1) x(1) tag by (simp add: bfs_body_def)
      then have "c_loop (bfs_body alloc t nf ef) (g, st, ?u) = c_loop (bfs_body alloc t nf ef) (g, st1, ?u)" by (rule c_loop_Continue)
      with Suc.IH [OF s V F st1(2)] st1(3) stR Suc.prems(6,7) Cons True show ?thesis by simp
    next
      case False
      let ?g1 = "set_node g n (x\<lparr>gn_travtag := t\<rparr>)" and ?os = "outs g0 n"
      note left = edges_left_insert [OF R n(1) False]
      have new: "set ?os \<inter> F = {}" using F n(1) False by blast
      have len: "length (stack_elems st1) + length ?os \<le> K" using left st1(3) Suc.prems(6) Cons by simp
      obtain g2 st2 where step: "c_loop (bfs_edge alloc t ef n (length ?os)) (0, ?g1, st1, call_opt nf n ?u) =
          Inr (g2, st2, fold (call_opt ef) ?os (call_opt nf n ?u))"
        and s2: "seen t g0 g2 (insert n V) (F \<union> set ?os)" and st2: "stack_bounded K st2"
        and el: "stack_elems st2 = rev (filter (\<lambda>m. m \<notin> insert n V) (map (target g0) ?os)) @ es"
        using bfs_edge_loop [OF ok x(4) new mem st1(2) len] st1(3) by metis
      have "filter (\<lambda>m. m \<notin> insert n V) (map (target g0) ?os) = filter (\<lambda>m. m \<notin> insert n (set ns)) (map (target g0) ?os)"
        by (rule filter_cong [OF refl]) (use R n(1) V in \<open>auto simp: closed_set_def\<close>)
      with el have el2: "stack_elems st2 = rev (filter (\<lambda>m. m \<notin> insert n (set ns)) (map (target g0) ?os)) @ es" by simp
      let ?u2 = "fold (tell nf ef) (concat (map (visit_events g0) (ns @ [n]))) u"
      have "bfs_body alloc t nf ef (g, st, ?u) = Inr (Continue (g2, st2, ?u2))"
        using st1(1) x(1,3) tag False step by (simp add: bfs_body_def visit_events_def fold_edges)
      then have "c_loop (bfs_body alloc t nf ef) (g, st, ?u) = c_loop (bfs_body alloc t nf ef) (g2, st2, ?u2)" by (rule c_loop_Continue)
      moreover have "\<exists>g'. c_loop (bfs_body alloc t nf ef) (g2, st2, ?u2) =
          Inr (g', fold (tell nf ef) (concat (map (visit_events g0) (stack_walk g0 k (ns @ [n]) (stack_elems st2)))) u) \<and>
          retagged t g0 g'"
      proof (rule Suc.IH [OF s2 _ _ st2])
        show "insert n V \<inter> R = set (ns @ [n])" using V n(1) by auto
        show "\<forall>m\<in>R - set (ns @ [n]). set (outs g0 m) \<inter> (F \<union> set ?os) = {}"
          using F outs_disjoint [OF ok] by (auto simp: Int_Un_distrib)
        show "set (stack_elems st2) \<subseteq> R" using el2 stR Cons R n(1) by (auto simp: closed_set_def)
        have "length (filter (\<lambda>m. m \<notin> insert n (set ns)) (map (target g0) ?os)) \<le> length ?os"
          by (rule order_trans [OF length_filter_le]) simp
        then have "length (stack_elems st2) \<le> length ?os + length es" using el2 by simp
        then show "edges_left g0 R (set (ns @ [n])) + length (stack_elems st2) \<le> K"
          "edges_left g0 R (set (ns @ [n])) + length (stack_elems st2) < k"
          using left Suc.prems(6,7) Cons by simp_all
      qed
      ultimately show ?thesis using Cons False el2 by simp
    qed
  qed
qed simp

lemma stack_walk_ok:
  assumes R: "closed_set g R"
  shows "distinct ns \<Longrightarrow> set ns \<union> set st \<subseteq> R \<Longrightarrow>
    \<forall>n\<in>set ns. \<forall>e\<in>set (outs g n). target g e \<in> set ns \<union> set st \<Longrightarrow> edges_left g R (set ns) + length st < k \<Longrightarrow>
    distinct (stack_walk g k ns st) \<and> set ns \<union> set st \<subseteq> set (stack_walk g k ns st) \<and> set (stack_walk g k ns st) \<subseteq> R \<and>
    (\<forall>n\<in>set (stack_walk g k ns st). \<forall>e\<in>set (outs g n). target g e \<in> set (stack_walk g k ns st))"
proof (induction k arbitrary: ns st)
  case (Suc k)
  show ?case
  proof (cases st)
    case Nil
    with Suc.prems show ?thesis by simp
  next
    case (Cons n es)
    show ?thesis
    proof (cases "n \<in> set ns")
      case True
      have eq: "set ns \<union> set st = set ns \<union> set es" and w: "stack_walk g (Suc k) ns st = stack_walk g k ns es"
        using Cons True by auto
      have "edges_left g R (set ns) + length es < k" using Suc.prems(4) Cons by simp
      from Suc.IH [OF Suc.prems(1) Suc.prems(2,3) [unfolded eq] this] show ?thesis unfolding w eq .
    next
      case False
      define new where "new = rev (filter (\<lambda>m. m \<notin> insert n (set ns)) (map (target g) (outs g n)))"
      have n: "n \<in> R" using Suc.prems(2) Cons by simp
      have set_new: "set new = target g ` set (outs g n) - insert n (set ns)" by (auto simp: new_def)
      have "length new \<le> length (outs g n)"
        unfolding new_def length_rev by (rule order_trans [OF length_filter_le]) simp
      then have small: "edges_left g R (set (ns @ [n])) + length (new @ es) < k"
        using Suc.prems(4) Cons edges_left_insert [OF R n False] by simp
      have sub: "set (ns @ [n]) \<union> set (new @ es) \<subseteq> R" using Suc.prems(2) Cons R n set_new by (auto simp: closed_set_def)
      have clos: "\<forall>m\<in>set (ns @ [n]). \<forall>e\<in>set (outs g m). target g e \<in> set (ns @ [n]) \<union> set (new @ es)"
        using Suc.prems(3) Cons set_new by auto
      have "distinct (ns @ [n])" using Suc.prems(1) False by simp
      note IH = Suc.IH [OF this sub clos small]
      have w: "stack_walk g (Suc k) ns st = stack_walk g k (ns @ [n]) (new @ es)" using Cons False by (simp add: new_def)
      show ?thesis unfolding w using IH Cons by auto
    qed
  qed
qed simp

section \<open>What is reachable\<close>

definition steps :: "'a graph \<Rightarrow> (nat \<times> nat) set" where
  "steps g = {(a, b). \<exists>e\<in>set (outs g a). target g e = b}"

definition reach :: "'a graph \<Rightarrow> nat \<Rightarrow> nat set" where
  "reach g n = (steps g)\<^sup>* `` {n}"

lemma reach_closed:
  assumes ok: "graph_ok g" and fin: "finite (dom (g_nodes g))" and n: "n \<in> dom (g_nodes g)"
  shows "closed_set g (reach g n)"
proof -
  have "m \<in> dom (g_nodes g)" if "(n, m) \<in> (steps g)\<^sup>*" for m
    using that by induction (use n target_node [OF ok] in \<open>auto simp: steps_def\<close>)
  then have "reach g n \<subseteq> dom (g_nodes g)" by (auto simp: reach_def)
  moreover have "target g e \<in> reach g n" if "m \<in> reach g n" "e \<in> set (outs g m)" for m e
    using that by (auto simp: reach_def steps_def intro: rtrancl_into_rtrancl)
  ultimately show ?thesis using fin by (auto simp: closed_set_def intro: finite_subset)
qed

lemma reach_start: "n \<in> reach g n"
  by (simp add: reach_def)

lemma reach_least:
  assumes "n \<in> A" and "\<forall>m\<in>A. \<forall>e\<in>set (outs g m). target g e \<in> A"
  shows "reach g n \<subseteq> A"
proof
  fix m assume "m \<in> reach g n"
  then have "(n, m) \<in> (steps g)\<^sup>*" by (simp add: reach_def)
  then show "m \<in> A" by induction (use assms in \<open>auto simp: steps_def\<close>)
qed

lemma fresh_seen:
  assumes ok: "graph_ok g" and R: "closed_set g R"
    and fresh: "\<forall>m\<in>R. node_tag g m \<noteq> t \<and> (\<forall>e\<in>set (outs g m). edge_tag g e \<noteq> t)"
  shows "\<exists>V F. seen t g g V F \<and> V \<inter> R = {} \<and> (\<forall>m\<in>R. set (outs g m) \<inter> F = {})"
  using fresh by (auto simp: seen_def retagged_def)

section \<open>The recursive walk\<close>

text \<open>What \<open>trav_dfs_r\<close> computes: the nodes visited and what has been reported, with a bound on the depth.\<close>

primrec dfs_walk :: "'a graph \<Rightarrow> nat \<Rightarrow> nat \<Rightarrow> nat set \<times> event list \<Rightarrow> nat set \<times> event list" where
  "dfs_walk g 0 = (\<lambda>n s. s)"
| "dfs_walk g (Suc k) = (\<lambda>n s. if n \<in> fst s then s
     else fold (\<lambda>e s. dfs_walk g k (target g e) (fst s, snd s @ [At_Edge e, At_Node n])) (outs g n) (insert n (fst s), snd s))"

definition edge_events :: "nat \<Rightarrow> nat list \<Rightarrow> event list" where
  "edge_events n es = concat (map (\<lambda>e. [At_Edge e, At_Node n]) es)"

definition dfs_post :: "'a graph \<Rightarrow> nat set \<Rightarrow> nat \<Rightarrow> nat set \<times> event list \<Rightarrow> nat set \<times> event list \<Rightarrow> bool" where
  "dfs_post g R n s s' \<longleftrightarrow> insert n (fst s) \<subseteq> fst s' \<and> fst s' \<subseteq> fst s \<union> R \<and>
     (\<forall>m\<in>fst s' - fst s. \<forall>e\<in>set (outs g m). target g e \<in> fst s') \<and>
     mset (snd s') = mset (snd s) + (\<Sum>m\<in>fst s' - fst s. mset (edge_events m (outs g m)))"

lemma sum_diff_split:
  fixes f :: "nat \<Rightarrow> event multiset"
  assumes "A \<subseteq> B" and "B \<subseteq> C" and "finite (C - A)"
  shows "sum f (C - A) = sum f (B - A) + sum f (C - B)"
proof -
  have "C - A = (B - A) \<union> (C - B)" "(B - A) \<inter> (C - B) = {}" using assms by auto
  moreover have "finite (B - A)" "finite (C - B)" by (rule finite_subset [OF _ assms(3)], use assms(1,2) in blast)+
  ultimately show ?thesis by (simp add: sum.union_disjoint)
qed

lemma dfs_walk_ok:
  assumes R: "closed_set g R"
  shows "n \<in> R \<Longrightarrow> card (R - fst s) < k \<Longrightarrow> dfs_post g R n s (dfs_walk g k n s)"
proof (induction k arbitrary: n s)
  case (Suc k)
  have fin: "finite R" using R by (simp add: closed_set_def)
  show ?case
  proof (cases "n \<in> fst s")
    case True
    then show ?thesis by (auto simp: dfs_post_def)
  next
    case False
    let ?f = "\<lambda>e s. dfs_walk g k (target g e) (fst s, snd s @ [At_Edge e, At_Node n])"
    let ?s0 = "(insert n (fst s), snd s)"
    have "card (R - fst s) = Suc (card (R - insert n (fst s)))"
      using card_Diff_insert [of n R "fst s"] Suc.prems(1) False fin by (metis DiffI card_Suc_Diff1 Diff_insert finite_Diff)
    then have card: "card (R - insert n (fst s)) < k" using Suc.prems(2) by simp
    have loop: "insert n (fst s) \<subseteq> fst (fold ?f es ?s0) \<and> fst (fold ?f es ?s0) \<subseteq> fst s \<union> R \<and>
        (\<forall>m\<in>fst (fold ?f es ?s0) - insert n (fst s). \<forall>e\<in>set (outs g m). target g e \<in> fst (fold ?f es ?s0)) \<and>
        (\<forall>e\<in>set es. target g e \<in> fst (fold ?f es ?s0)) \<and>
        mset (snd (fold ?f es ?s0)) = mset (snd s) + mset (edge_events n es) +
          (\<Sum>m\<in>fst (fold ?f es ?s0) - insert n (fst s). mset (edge_events m (outs g m)))"
      if "set es \<subseteq> set (outs g n)" for es
      using that
    proof (induction es rule: rev_induct)
      case Nil
      show ?case using Suc.prems(1) by (simp add: edge_events_def)
    next
      case (snoc e es)
      define s1 where "s1 = fold ?f es ?s0"
      define s2 where "s2 = ?f e s1"
      have s2: "fold ?f (es @ [e]) ?s0 = s2" by (simp add: s1_def s2_def)
      note IH = snoc.IH [folded s1_def]
      have e: "target g e \<in> R" using snoc.prems Suc.prems(1) R by (auto simp: closed_set_def)
      have sub: "insert n (fst s) \<subseteq> fst s1" using IH snoc.prems by simp
      then have "card (R - fst s1) \<le> card (R - insert n (fst s))" by (intro card_mono) (use fin in auto)
      then have "card (R - fst (fst s1, snd s1 @ [At_Edge e, At_Node n])) < k" using card by simp
      from Suc.IH [OF e this] have post: "dfs_post g R (target g e) (fst s1, snd s1 @ [At_Edge e, At_Node n]) s2" by (simp add: s2_def)
      have "fst s2 - insert n (fst s) \<subseteq> R" using post IH snoc.prems by (auto simp: dfs_post_def)
      then have fin2: "finite (fst s2 - insert n (fst s))" using fin finite_subset by blast
      have "fst s1 \<subseteq> fst s2" using post by (simp add: dfs_post_def)
      note split = sum_diff_split [OF sub this fin2, of "\<lambda>m. mset (edge_events m (outs g m))"]
      have clos: "\<forall>m\<in>fst s2 - insert n (fst s). \<forall>e\<in>set (outs g m). target g e \<in> fst s2"
      proof
        fix m assume m: "m \<in> fst s2 - insert n (fst s)"
        show "\<forall>e\<in>set (outs g m). target g e \<in> fst s2"
        proof (cases "m \<in> fst s1")
          case True
          with m IH snoc.prems \<open>fst s1 \<subseteq> fst s2\<close> show ?thesis by auto
        next
          case False
          with m have "m \<in> fst s2 - fst s1" by simp
          with post show ?thesis unfolding dfs_post_def by simp
        qed
      qed
      have "fst s2 \<subseteq> fst s \<union> R" using post IH snoc.prems by (auto simp: dfs_post_def)
      moreover have "\<forall>e'\<in>set (es @ [e]). target g e' \<in> fst s2" using post IH snoc.prems by (auto simp: dfs_post_def)
      moreover have "mset (snd s2) = mset (snd s) + mset (edge_events n (es @ [e])) +
          ((\<Sum>m\<in>fst s1 - insert n (fst s). mset (edge_events m (outs g m))) + (\<Sum>m\<in>fst s2 - fst s1. mset (edge_events m (outs g m))))"
        using post IH snoc.prems by (simp add: dfs_post_def edge_events_def)
      ultimately show ?case unfolding s2 split using clos sub \<open>fst s1 \<subseteq> fst s2\<close> by blast
    qed
    define s' where "s' = fold ?f (outs g n) ?s0"
    have s': "dfs_walk g (Suc k) n s = s'" using False by (simp add: s'_def)
    note loop = loop [OF subset_refl, folded s'_def]
    have eq: "fst s' - fst s = insert n (fst s' - insert n (fst s))" using loop False by auto
    have "fst s' - insert n (fst s) \<subseteq> R" using loop by auto
    then have "finite (fst s' - insert n (fst s))" using fin finite_subset by blast
    then have "(\<Sum>m\<in>fst s' - fst s. mset (edge_events m (outs g m))) =
        mset (edge_events n (outs g n)) + (\<Sum>m\<in>fst s' - insert n (fst s). mset (edge_events m (outs g m)))"
      by (subst eq, subst sum.insert) simp_all
    with loop show ?thesis unfolding s' dfs_post_def by auto
  qed
qed simp

lemma dfs_sim:
  assumes ok: "graph_ok g0" and R: "closed_set g0 R"
  shows "seen t g0 g V F \<Longrightarrow> n \<in> R \<Longrightarrow> card (R - V) < k \<Longrightarrow> \<forall>m\<in>R - V. set (outs g0 m) \<inter> F = {} \<Longrightarrow>
    \<exists>g'. trav_dfs_r alloc t nf ef k n g (fold (tell nf ef) evs u) =
        Inr (g', fold (tell nf ef) (snd (dfs_walk g0 k n (V, evs))) u) \<and>
      seen t g0 g' (fst (dfs_walk g0 k n (V, evs))) (F \<union> (\<Union>m\<in>fst (dfs_walk g0 k n (V, evs)) - V. set (outs g0 m)))"
proof (induction k arbitrary: n g V F evs)
  case (Suc k)
  note s = Suc.prems(1) and n = Suc.prems(2) and F = Suc.prems(4)
  have fin: "finite R" using R by (simp add: closed_set_def)
  have "n \<in> dom (g_nodes g0)" using R n by (auto simp: closed_set_def)
  from seen_node [OF ok s this] obtain x where x: "g_nodes g n = Some x" "gn_travtag x = t \<longleftrightarrow> n \<in> V" "arr_elems (gn_out x) = outs g0 n"
    "seen t g0 (set_node g n (x\<lparr>gn_travtag := t\<rparr>)) (insert n V) F" by metis
  show ?case
  proof (cases "n \<in> V")
    case True
    then show ?thesis using s x(1,2) by (simp add: dfs_node_def)
  next
    case False
    let ?os = "outs g0 n" and ?Vn = "insert n V"
    define step where "step = (\<lambda>e s. dfs_walk g0 k (target g0 e) (fst s, snd s @ [At_Edge e, At_Node n]))"
    define walk where "walk i = fold step (take i ?os) (?Vn, evs)" for i
    have walk0: "walk 0 = (?Vn, evs)" by (simp add: walk_def)
    have walk_Suc: "walk (Suc i) = step (?os ! i) (walk i)" if "i < length ?os" for i
      using that by (simp add: walk_def take_Suc_conv_app_nth)
    have walk: "dfs_walk g0 (Suc k) n (V, evs) = walk (length ?os)" using False by (simp add: walk_def step_def)
    have "card (R - V) = Suc (card (R - ?Vn))"
      using n False fin by (metis DiffI card_Suc_Diff1 Diff_insert finite_Diff)
    then have card: "card (R - ?Vn) < k" using Suc.prems(3) by simp
    let ?F = "\<lambda>i. F \<union> set (take i ?os) \<union> (\<Union>m\<in>fst (walk i) - ?Vn. set (outs g0 m))"
    define I where "I = (\<lambda>(i, g', u'). i \<le> length ?os \<and> ?Vn \<subseteq> fst (walk i) \<and>
      seen t g0 g' (fst (walk i)) (?F i) \<and> u' = fold (tell nf ef) (snd (walk i)) u)"
    let ?body = "dfs_body alloc t nf ef (trav_dfs_r alloc t nf ef k) n (length ?os)"
    have "\<exists>r. c_loop ?body (0, set_node g n (x\<lparr>gn_travtag := t\<rparr>), fold (tell nf ef) evs u) = Inr r \<and> I (length ?os, r)"
    proof (rule c_loop_rule [where I = I and m = "\<lambda>s. length ?os - fst s"])
      show "I (0, set_node g n (x\<lparr>gn_travtag := t\<rparr>), fold (tell nf ef) evs u)" using x(4) by (auto simp: I_def walk0)
      fix st assume "I st"
      obtain i g1 u1 where st: "st = (i, g1, u1)" by (cases st) auto
      with \<open>I st\<close> have I: "i \<le> length ?os" "?Vn \<subseteq> fst (walk i)" "seen t g0 g1 (fst (walk i)) (?F i)"
        "u1 = fold (tell nf ef) (snd (walk i)) u" by (simp_all add: I_def)
      show "(\<exists>t'. ?body st = Inr (Continue t') \<and> I t' \<and> length ?os - fst t' < length ?os - fst st) \<or>
        (\<exists>r. ?body st = Inr (Break r) \<and> I (length ?os, r))"
      proof (cases "i < length ?os")
        case False
        then show ?thesis using I(1) st \<open>I st\<close> by (simp add: dfs_body_def)
      next
        case True
        let ?e = "?os ! i" and ?V = "fst (walk i)" and ?evs = "snd (walk i) @ [At_Edge (?os ! i), At_Node n]"
        have e: "?e \<in> set ?os" using True by simp
        have take: "take (Suc i) ?os = take i ?os @ [?e]" using True by (simp add: take_Suc_conv_app_nth)
        have "distinct (take (Suc i) ?os)" using graph_distinctD [OF ok] by (simp add: distinct_take)
        moreover have "?e \<notin> F" using F n \<open>n \<notin> V\<close> e by blast
        moreover have "?e \<notin> set (outs g0 m)" if "m \<noteq> n" for m using outs_disjoint [OF ok that] e by blast
        ultimately have fresh: "?e \<notin> ?F i" using take by auto
        obtain ed where ed: "g_edges g1 ?e = Some ed" "ge_travtag ed \<noteq> t" "ge_to ed = target g0 ?e"
          "seen t g0 (set_edge g1 ?e (ed\<lparr>ge_travtag := t\<rparr>)) ?V (insert ?e (?F i))"
          using seen_edge [OF ok I(3) e] fresh by metis
        have to: "target g0 ?e \<in> R" using R n e by (auto simp: closed_set_def)
        have "card (R - ?V) \<le> card (R - ?Vn)" by (rule card_mono) (use fin I(2) in auto)
        from this card have c: "card (R - ?V) < k" by (rule le_less_trans)
        have new: "\<forall>m\<in>R - ?V. set (outs g0 m) \<inter> insert ?e (?F i) = {}"
        proof
          fix m assume m: "m \<in> R - ?V"
          then have "m \<noteq> n" "m \<notin> V" using I(2) by auto
          then have "set (outs g0 m) \<inter> F = {}" "set (outs g0 m) \<inter> set ?os = {}" using F m outs_disjoint [OF ok] by blast+
          moreover have "set (outs g0 m) \<inter> set (outs g0 m') = {}" if "m' \<in> ?V" for m'
            using that m by (intro outs_disjoint [OF ok]) auto
          moreover have "set (take i ?os) \<subseteq> set ?os" by (rule set_take_subset)
          ultimately show "set (outs g0 m) \<inter> insert ?e (?F i) = {}" using e by fastforce
        qed
        have ws: "walk (Suc i) = dfs_walk g0 k (target g0 ?e) (?V, ?evs)" using walk_Suc [OF True] by (simp add: step_def)
        obtain g2 where g2: "trav_dfs_r alloc t nf ef k (target g0 ?e) (set_edge g1 ?e (ed\<lparr>ge_travtag := t\<rparr>)) (fold (tell nf ef) ?evs u) =
            Inr (g2, fold (tell nf ef) (snd (walk (Suc i))) u)"
          "seen t g0 g2 (fst (walk (Suc i))) (insert ?e (?F i) \<union> (\<Union>m\<in>fst (walk (Suc i)) - ?V. set (outs g0 m)))"
          using Suc.IH [OF ed(4) to c new, of ?evs] ws by auto
        have "dfs_post g0 R (target g0 ?e) (?V, ?evs) (walk (Suc i))" unfolding ws by (rule dfs_walk_ok [OF R to]) (simp add: c)
        then have mono: "?V \<subseteq> fst (walk (Suc i))" by (simp add: dfs_post_def)
        have "insert ?e (?F i) \<union> (\<Union>m\<in>fst (walk (Suc i)) - ?V. set (outs g0 m)) = ?F (Suc i)"
          unfolding take using mono I(2) by auto
        then have "I (Suc i, g2, fold (tell nf ef) (snd (walk (Suc i))) u)" using g2(2) True subset_trans [OF I(2) mono] by (simp add: I_def)
        moreover have "?body st = Inr (Continue (Suc i, g2, fold (tell nf ef) (snd (walk (Suc i))) u))"
          using True out_get_ok [OF ok I(3) True] ed(1-3) g2(1) I(4) st by (simp add: dfs_body_def)
        ultimately show ?thesis using True st by auto
      qed
    qed
    then obtain g' where g': "c_loop ?body (0, set_node g n (x\<lparr>gn_travtag := t\<rparr>), fold (tell nf ef) evs u) =
        Inr (g', fold (tell nf ef) (snd (walk (length ?os))) u)"
      "?Vn \<subseteq> fst (walk (length ?os))" "seen t g0 g' (fst (walk (length ?os))) (?F (length ?os))"
      by (auto simp: I_def)
    have "fst (walk (length ?os)) - V = insert n (fst (walk (length ?os)) - ?Vn)" using g'(2) False by auto
    then have "?F (length ?os) = F \<union> (\<Union>m\<in>fst (walk (length ?os)) - V. set (outs g0 m))" by auto
    with g' x(1-3) False show ?thesis unfolding walk by (simp add: dfs_node_def)
  qed
qed simp

text \<open>Only the marks inside a set no edge leaves matter.\<close>

lemma dfs_walk_cong:
  assumes R: "closed_set g R"
  shows "n \<in> R \<Longrightarrow> V \<inter> R = W \<inter> R \<Longrightarrow>
    fst (dfs_walk g k n (V, evs)) \<inter> R = fst (dfs_walk g k n (W, evs)) \<inter> R \<and> snd (dfs_walk g k n (V, evs)) = snd (dfs_walk g k n (W, evs))"
proof (induction k arbitrary: n V W evs)
  case (Suc k)
  let ?f = "\<lambda>e s. dfs_walk g k (target g e) (fst s, snd s @ [At_Edge e, At_Node n])"
  have loop: "fst (fold ?f es (insert n V, evs)) \<inter> R = fst (fold ?f es (insert n W, evs)) \<inter> R \<and>
      snd (fold ?f es (insert n V, evs)) = snd (fold ?f es (insert n W, evs))" if "set es \<subseteq> set (outs g n)" for es
    using that
  proof (induction es rule: rev_induct)
    case (snoc e es)
    define a where "a = fold ?f es (insert n V, evs)"
    define b where "b = fold ?f es (insert n W, evs)"
    have e: "target g e \<in> R" using snoc.prems R Suc.prems(1) by (auto simp: closed_set_def)
    have ab: "fst a \<inter> R = fst b \<inter> R" "snd b = snd a" using snoc.IH snoc.prems by (auto simp: a_def b_def)
    have "fold ?f (es @ [e]) (insert n V, evs) = ?f e a" "fold ?f (es @ [e]) (insert n W, evs) = ?f e b" by (simp_all add: a_def b_def)
    then show ?case using Suc.IH [OF e ab(1)] ab(2) by simp
  qed (use Suc.prems in auto)
  have "n \<in> V \<longleftrightarrow> n \<in> W" using Suc.prems by blast
  then have "dfs_walk g (Suc k) n (V, evs) = (if n \<in> V then (V, evs) else fold ?f (outs g n) (insert n V, evs))"
    "dfs_walk g (Suc k) n (W, evs) = (if n \<in> V then (W, evs) else fold ?f (outs g n) (insert n W, evs))" by simp_all
  then show ?case using loop [OF subset_refl] Suc.prems(2) by (cases "n \<in> V") simp_all
qed simp

section \<open>Properties\<close>

lemma traverse_bfs_ok:
  assumes "graph_ok g" and "finite (dom (g_nodes g))" and "start \<in> dom (g_nodes g)"
    and "c_loop (tag_body rand_fn (node_tag g start)) r = Inr (tag, r1)"
    and "\<forall>n\<in>reach g start. node_tag g n \<noteq> tag \<and> (\<forall>e\<in>set (outs g n). edge_tag g e \<noteq> tag)"
    and "mem_for alloc K" and "(\<Sum>n\<in>dom (g_nodes g). length (outs g n)) < K"
  shows "\<exists>g'. traverse alloc rand_fn room r g start 0 nf ef u =
      Inr (g', fold (tell nf ef) (concat (map (visit_events g) (stack_walk g (Suc K) [] [start]))) u, r1) \<and>
    retagged tag g g' \<and>
    distinct (stack_walk g (Suc K) [] [start]) \<and> set (stack_walk g (Suc K) [] [start]) = reach g start"
proof -
  let ?R = "reach g start" and ?w = "stack_walk g (Suc K) [] [start]"
  have R: "closed_set g ?R" using assms(1-3) by (rule reach_closed)
  obtain x where x: "g_nodes g start = Some x" "gn_travtag x = node_tag g start" using assms(3) by (auto simp: node_tag_def)
  obtain V F where VF: "seen tag g g V F" "V \<inter> ?R = {}" "\<forall>m\<in>?R. set (outs g m) \<inter> F = {}"
    using fresh_seen [OF assms(1) R assms(5)] by blast
  have "edges_left g ?R {} \<le> (\<Sum>n\<in>dom (g_nodes g). length (outs g n))"
    unfolding edges_left_def by (rule sum_mono2) (use assms(2) R in \<open>auto simp: closed_set_def\<close>)
  then have left: "edges_left g ?R {} < K" using assms(7) by simp
  obtain st :: "nat stack" where st: "stack_init alloc 16 = Inr st" "stack_bounded K st" "stack_elems st = []"
    using init_bounded [OF assms(6), of 16] by auto
  have "length (stack_elems st) < K" using st(3) left by simp
  from push_bounded [OF st(2) this assms(6), of start] obtain st1 where
    st1: "stack_push alloc st (Some start) = Inr st1" "stack_bounded K st1" "stack_elems st1 = [start]" using st(3) by auto
  have "\<exists>g'. c_loop (bfs_body alloc tag nf ef) (g, st1, fold (tell nf ef) (concat (map (visit_events g) [])) u) =
      Inr (g', fold (tell nf ef) (concat (map (visit_events g) (stack_walk g (Suc K) [] (stack_elems st1)))) u) \<and>
      retagged tag g g'"
    by (rule bfs_walk [OF assms(1) R assms(6) VF(1) _ _ st1(2)]) (use VF(2,3) st1(3) left reach_start in auto)
  then obtain g' where g': "c_loop (bfs_body alloc tag nf ef) (g, st1, u) = Inr (g', fold (tell nf ef) (concat (map (visit_events g) ?w)) u)"
    "retagged tag g g'" unfolding st1(3) by auto
  have "distinct ?w \<and> set [] \<union> set [start] \<subseteq> set ?w \<and> set ?w \<subseteq> ?R \<and> (\<forall>n\<in>set ?w. \<forall>e\<in>set (outs g n). target g e \<in> set ?w)"
    by (rule stack_walk_ok [OF R]) (use left reach_start in auto)
  then have w: "distinct ?w" "start \<in> set ?w" "set ?w \<subseteq> ?R" "\<forall>n\<in>set ?w. \<forall>e\<in>set (outs g n). target g e \<in> set ?w" by auto
  have "set ?w = ?R" using reach_least [OF w(2,4)] w(3) by blast
  with g' w(1) x st(1) st1(1) assms(4) show ?thesis by (auto simp: traverse_def trav_bfs_def)
qed

text \<open>
  C37: \<open>traverse\<close> with \<open>TRAV_BFS\<close> visits every reachable node once and reports every edge out of it once, right after
  the node, changes nothing but tags, and ends, when no reachable node or edge carries the random tag and memory
  is linear in the number of edges. The order is that of the walk with a stack: what was found last is visited first.
\<close>

theorem traverse_bfs_correct:
  assumes "graph_ok g" and "finite (dom (g_nodes g))" and "start \<in> dom (g_nodes g)"
    and "c_loop (tag_body rand_fn (node_tag g start)) r = Inr (tag, r1)"
    and "\<forall>n\<in>reach g start. node_tag g n \<noteq> tag \<and> (\<forall>e\<in>set (outs g n). edge_tag g e \<noteq> tag)"
    and "mem_for alloc K" and "(\<Sum>n\<in>dom (g_nodes g). length (outs g n)) < K"
  shows "\<exists>g'. traverse alloc rand_fn room r g start 0 nf ef u =
      Inr (g', fold (tell nf ef) (concat (map (visit_events g) (stack_walk g (Suc K) [] [start]))) u, r1) \<and>
    retagged tag g g' \<and>
    distinct (stack_walk g (Suc K) [] [start]) \<and> set (stack_walk g (Suc K) [] [start]) = reach g start"
  using assms by (rule traverse_bfs_ok)

text \<open>The edges 11 and 12 lead from 1 to 2 and 3, 13 from 3 to 4 and 14 back from 4 to 1.\<close>

definition trav_graph :: "nat graph" where
  "trav_graph =
     \<lparr>g_nodes = [1 \<mapsto> (lone (Some 10))\<lparr>gn_out := arr_of [11, 12], gn_in := arr_of [14]\<rparr>, 2 \<mapsto> (lone (Some 20))\<lparr>gn_in := arr_of [11]\<rparr>,
        3 \<mapsto> (lone (Some 30))\<lparr>gn_out := arr_of [13], gn_in := arr_of [12]\<rparr>,
        4 \<mapsto> (lone (Some 40))\<lparr>gn_out := arr_of [14], gn_in := arr_of [13]\<rparr>],
      g_edges = [11 \<mapsto> \<lparr>ge_from = 1, ge_to = 2, ge_weight = 1, ge_attr = None, ge_travtag = 0\<rparr>,
        12 \<mapsto> \<lparr>ge_from = 1, ge_to = 3, ge_weight = 1, ge_attr = None, ge_travtag = 0\<rparr>,
        13 \<mapsto> \<lparr>ge_from = 3, ge_to = 4, ge_weight = 1, ge_attr = None, ge_travtag = 0\<rparr>,
        14 \<mapsto> \<lparr>ge_from = 4, ge_to = 1, ge_weight = 1, ge_attr = None, ge_travtag = 0\<rparr>]\<rparr>"

lemma trav_graph_lists:
  "outs trav_graph = (\<lambda>_. [])(1 := [11, 12], 3 := [13], 4 := [14])" "ins trav_graph = (\<lambda>_. [])(1 := [14], 2 := [11], 3 := [12], 4 := [13])"
  "target trav_graph 11 = 2" "target trav_graph 12 = 3" "target trav_graph 13 = 4" "target trav_graph 14 = 1"
  "dom (g_nodes trav_graph) = {1, 2, 3, 4}"
  by (auto simp: trav_graph_def outs_def ins_def target_def lone_def arr_of_ok(2) fun_eq_iff)

lemma trav_graph_ok: "graph_ok trav_graph"
proof (rule graph_okI)
  show "arr_ok (gn_out x) \<and> arr_ok (gn_in x)" if "g_nodes trav_graph n = Some x" for n x
    using that by (auto simp: trav_graph_def lone_def arr_of_ok(1) max_cells_def split: if_splits)
  show "\<exists>ed. g_edges trav_graph e = Some ed \<and> ge_from ed = n \<and> e \<in> set (ins trav_graph (ge_to ed))"
    if "e \<in> set (outs trav_graph n)" for n e
    using that unfolding trav_graph_lists by (auto simp: trav_graph_def split: if_splits)
  show "\<exists>ed. g_edges trav_graph e = Some ed \<and> ge_to ed = n \<and> e \<in> set (outs trav_graph (ge_from ed))"
    if "e \<in> set (ins trav_graph n)" for n e
    using that unfolding trav_graph_lists by (auto simp: trav_graph_def split: if_splits)
qed (simp add: trav_graph_lists)

lemma trav_graph_fresh:
  "\<forall>n\<in>reach trav_graph 1. node_tag trav_graph n \<noteq> 1 \<and> (\<forall>e\<in>set (outs trav_graph n). edge_tag trav_graph e \<noteq> 1)"
proof -
  have "reach trav_graph 1 \<subseteq> {1, 2, 3, 4}" by (rule reach_least) (auto simp: trav_graph_lists)
  moreover have "node_tag trav_graph n \<noteq> 1 \<and> (\<forall>e\<in>set (outs trav_graph n). edge_tag trav_graph e \<noteq> 1)" if "n \<in> {1, 2, 3, 4}" for n
    using that unfolding trav_graph_lists by (auto simp: trav_graph_def node_tag_def edge_tag_def lone_def)
  ultimately show ?thesis by blast
qed

text \<open>A source of random numbers that counts; 0 is not a tag.\<close>

lemma trav_graph_draw: "c_loop (tag_body (\<lambda>r. (r, r + 1)) (node_tag trav_graph 1)) 0 = Inr (1, 2)"
proof -
  have "node_tag trav_graph 1 = 0" by (simp add: node_tag_def trav_graph_def lone_def)
  then show ?thesis
    by (subst c_loop_Continue [where t = 1]) (simp add: tag_body_def, rule c_loop_Break, simp add: tag_body_def)
qed

theorem traverse_bfs_correct_witness:
  "\<exists>g'. traverse (mem_upto 1968) (\<lambda>r. (r, r + 1)) 0 0 trav_graph 1 0 (Some (\<lambda>n u. u @ [n])) (Some (\<lambda>e u. u @ [e])) [] =
      Inr (g', [1, 11, 12, 3, 13, 4, 14, 2], 2) \<and> set [1, 3, 4, 2] = reach trav_graph 1"
proof -
  have mem: "mem_for (mem_upto 1968) 5" by (simp add: mem_for_def mem_upto_ok) (simp add: mem_upto_def)
  have "Suc 5 = Suc (Suc (Suc (Suc (Suc (Suc 0)))))" by simp
  then have walk: "stack_walk trav_graph (Suc 5) [] [1] = [1, 3, 4, 2]" by (simp only: stack_walk.simps) (simp add: trav_graph_lists)
  show ?thesis
    using traverse_bfs_correct [where room = 0 and nf = "Some (\<lambda>n u. u @ [n])" and ef = "Some (\<lambda>e u. u @ [e])" and u = "[]",
      OF trav_graph_ok _ _ trav_graph_draw trav_graph_fresh mem] walk
    by (auto simp: trav_graph_lists visit_events_def call_opt_def)
qed

lemma traverse_dfs_ok:
  assumes "graph_ok g" and "finite (dom (g_nodes g))" and "start \<in> dom (g_nodes g)"
    and "c_loop (tag_body rand_fn (node_tag g start)) r = Inr (tag, r1)"
    and "\<forall>n\<in>reach g start. node_tag g n \<noteq> tag \<and> (\<forall>e\<in>set (outs g n). edge_tag g e \<noteq> tag)"
    and "card (dom (g_nodes g)) < room"
  shows "\<exists>g' evs. traverse alloc rand_fn room r g start 1 nf ef u = Inr (g', fold (tell nf ef) evs u, r1) \<and>
    retagged tag g g' \<and> evs = snd (dfs_walk g room start ({}, [])) \<and>
    mset evs = (\<Sum>n\<in>reach g start. mset (edge_events n (outs g n)))"
proof -
  let ?R = "reach g start"
  have R: "closed_set g ?R" using assms(1-3) by (rule reach_closed)
  obtain x where x: "g_nodes g start = Some x" "gn_travtag x = node_tag g start" using assms(3) by (auto simp: node_tag_def)
  obtain V F where VF: "seen tag g g V F" "V \<inter> ?R = {}" "\<forall>m\<in>?R. set (outs g m) \<inter> F = {}"
    using fresh_seen [OF assms(1) R assms(5)] by blast
  have "card ?R \<le> card (dom (g_nodes g))" by (rule card_mono) (use assms(2) R in \<open>auto simp: closed_set_def\<close>)
  then have c: "card (?R - W) < room" for W using assms(6) card_mono [of ?R "?R - W"] R by (auto simp: closed_set_def)
  obtain g' where g': "trav_dfs_r alloc tag nf ef room start g u = Inr (g', fold (tell nf ef) (snd (dfs_walk g room start (V, []))) u)"
    "retagged tag g g'"
    using dfs_sim [OF assms(1) R VF(1) reach_start c, of alloc nf ef "[]" u] VF(3) by (auto simp: seen_def)
  let ?s = "dfs_walk g room start ({}, [])"
  have evs: "snd (dfs_walk g room start (V, [])) = snd ?s" using dfs_walk_cong [OF R reach_start, of V "{}"] VF(2) by simp
  have post: "dfs_post g ?R start ({}, []) ?s" by (rule dfs_walk_ok [OF R reach_start]) (use c [of "{}"] in simp)
  then have "?R \<subseteq> fst ?s" by (intro reach_least) (auto simp: dfs_post_def)
  then have "fst ?s = ?R" using post by (auto simp: dfs_post_def)
  then have "mset (snd ?s) = (\<Sum>n\<in>?R. mset (edge_events n (outs g n)))" using post by (simp add: dfs_post_def)
  with g' evs x assms(4) show ?thesis by (auto simp: traverse_def trav_dfs_def)
qed

text \<open>
  C38: \<open>traverse\<close> with \<open>TRAV_DFS\<close> reports every edge that can be reached once, and calls the node function once for every
  edge out of a reachable node: several times for a node with several edges, and never for a node without.
  It needs at most one nested call for each reachable node and one more.
\<close>

theorem traverse_dfs_correct:
  assumes "graph_ok g" and "finite (dom (g_nodes g))" and "start \<in> dom (g_nodes g)"
    and "c_loop (tag_body rand_fn (node_tag g start)) r = Inr (tag, r1)"
    and "\<forall>n\<in>reach g start. node_tag g n \<noteq> tag \<and> (\<forall>e\<in>set (outs g n). edge_tag g e \<noteq> tag)"
    and "card (dom (g_nodes g)) < room"
  shows "\<exists>g' evs. traverse alloc rand_fn room r g start 1 nf ef u = Inr (g', fold (tell nf ef) evs u, r1) \<and>
    retagged tag g g' \<and> evs = snd (dfs_walk g room start ({}, [])) \<and>
    mset evs = (\<Sum>n\<in>reach g start. mset (edge_events n (outs g n)))"
  using assms by (rule traverse_dfs_ok)

theorem traverse_dfs_correct_witness:
  "\<exists>g'. traverse (mem_upto 0) (\<lambda>r. (r, r + 1)) 5 0 trav_graph 1 1 (Some (\<lambda>n u. u @ [n])) (Some (\<lambda>e u. u @ [e])) [] =
      Inr (g', [11, 1, 12, 1, 13, 3, 14, 4], 2)"
proof -
  have "dfs_walk trav_graph (Suc (Suc (Suc (Suc (Suc 0))))) 1 ({}, []) = ({1, 2, 3, 4}, [At_Edge 11, At_Node 1, At_Edge 12, At_Node 1,
      At_Edge 13, At_Node 3, At_Edge 14, At_Node 4])" by (auto simp: trav_graph_lists)
  then have "snd (dfs_walk trav_graph 5 1 ({}, [])) = [At_Edge 11, At_Node 1, At_Edge 12, At_Node 1, At_Edge 13, At_Node 3, At_Edge 14, At_Node 4]"
    by (simp add: eval_nat_numeral)
  then show ?thesis
    using traverse_dfs_correct [where room = 5 and alloc = "mem_upto 0" and nf = "Some (\<lambda>n u. u @ [n])" and ef = "Some (\<lambda>e u. u @ [e])" and u = "[]",
      OF trav_graph_ok _ _ trav_graph_draw trav_graph_fresh]
    by (auto simp: trav_graph_lists call_opt_def)
qed

end
