(* ===== verification/GraphStates.thy ===== *)
theory GraphStates imports GraphTrav begin

text \<open>
  The graphs a program can build with graph.c: from no nodes at all, by any sequence of operations, among them
  traversals whose tag has been drawn before. Every graph that can be reached is well-formed, and the tags in it
  are those of the traversals so far, so that a traversal with a tag that has not been drawn before visits
  everything that is reachable. One with a repeated tag may leave nodes out (\<open>repeated_tag_stops\<close>).
\<close>

section \<open>Histories\<close>

definition no_nodes :: "'a graph" where
  "no_nodes = \<lparr>g_nodes = Map.empty, g_edges = Map.empty\<rparr>"

text \<open>
  \<open>graph_reach g ts\<close>: the graph \<open>g\<close> can be reached, and the traversals drew the tags \<open>ts\<close>, some of them possibly more
  than once. A call takes part when it returns; \<open>link_node\<close> moreover when its two lists are below \<open>2 ^ 30\<close>, from where on
  arrays cannot grow, and memory for the longer of them can be had, as it does not report a list that could not
  grow. The edge that is dropped is one of a list: edges are dropped once. A traversal of another type draws
  no tag and changes nothing, so that it needs no rule.
\<close>

inductive graph_reach for alloc new rand_fn nf ef where
  start: "graph_reach alloc new rand_fn nf ef no_nodes {}"
| alloc: "graph_reach alloc new rand_fn nf ef g ts \<Longrightarrow> alloc_node new g x = Inr (n, g') \<Longrightarrow> graph_reach alloc new rand_fn nf ef g' ts"
| set: "graph_reach alloc new rand_fn nf ef g ts \<Longrightarrow> set_elem g n x = Inr g' \<Longrightarrow> graph_reach alloc new rand_fn nf ef g' ts"
| link: "graph_reach alloc new rand_fn nf ef g ts \<Longrightarrow> length (outs g n) < 2 ^ 30 \<Longrightarrow> length (ins g m) < 2 ^ 30 \<Longrightarrow>
    \<forall>k \<le> 16 * max (length (outs g n)) (length (ins g m)) + 40. alloc k \<Longrightarrow> link_node alloc new g n m w = Inr (e, g') \<Longrightarrow>
    graph_reach alloc new rand_fn nf ef g' ts"
| find: "graph_reach alloc new rand_fn nf ef g ts \<Longrightarrow> find_edge g n m = Inr (r, g') \<Longrightarrow> graph_reach alloc new rand_fn nf ef g' ts"
| unlink: "graph_reach alloc new rand_fn nf ef g ts \<Longrightarrow> unlink_node alloc g n m = Inr g' \<Longrightarrow> graph_reach alloc new rand_fn nf ef g' ts"
| drop: "graph_reach alloc new rand_fn nf ef g ts \<Longrightarrow> e \<in> set (outs g n) \<Longrightarrow> drop_edge alloc g (Some e) = Inr g' \<Longrightarrow>
    graph_reach alloc new rand_fn nf ef g' ts"
| walk: "graph_reach alloc new rand_fn nf ef g ts \<Longrightarrow> c_loop (tag_body rand_fn (node_tag g n)) r = Inr (tag, r1) \<Longrightarrow>
    traverse alloc rand_fn room r g n travtype nf ef u = Inr (g', u', r2) \<Longrightarrow> graph_reach alloc new rand_fn nf ef g' (insert tag ts)"

definition tags_in :: "int set \<Rightarrow> 'a graph \<Rightarrow> bool" where
  "tags_in ts g \<longleftrightarrow> (\<forall>n\<in>dom (g_nodes g). node_tag g n \<in> insert 0 ts) \<and> (\<forall>e\<in>dom (g_edges g). edge_tag g e \<in> insert 0 ts)"

definition graph_inv :: "'a graph \<Rightarrow> int set \<Rightarrow> bool" where
  "graph_inv g ts \<longleftrightarrow> graph_ok g \<and> finite (used g) \<and> tags_in ts g"

section \<open>Each operation\<close>

lemma draw_tag:
  assumes "c_loop (tag_body rand_fn old) r = Inr (tag, r1)"
  shows "tag \<noteq> 0 \<and> tag \<noteq> old"
proof -
  have "fst (tag, r1) \<noteq> 0 \<and> fst (tag, r1) \<noteq> old"
    by (rule c_loop_partial [OF assms, where I = "\<lambda>_. True"]) (auto simp: tag_body_def split: prod.splits if_splits)
  then show ?thesis by simp
qed

lemma same_nodesD:
  assumes "same_nodes g g'"
  shows "dom (g_nodes g') = dom (g_nodes g)" and "n \<in> dom (g_nodes g) \<Longrightarrow> node_tag g' n = node_tag g n"
proof -
  have eq: "map_option (\<lambda>x. x\<lparr>gn_in := None, gn_out := None\<rparr>) (g_nodes g' n) =
      map_option (\<lambda>x. x\<lparr>gn_in := None, gn_out := None\<rparr>) (g_nodes g n)" for n using assms by (simp add: same_nodes_def)
  have none: "g_nodes g' n = None \<longleftrightarrow> g_nodes g n = None" for n using eq [of n] by (metis option.map_disc_iff)
  then show "dom (g_nodes g') = dom (g_nodes g)" by (auto simp: dom_def)
  show "node_tag g' n = node_tag g n" if n: "n \<in> dom (g_nodes g)"
  proof -
    obtain x x' where x: "g_nodes g n = Some x" "g_nodes g' n = Some x'" using n none [of n] by (cases "g_nodes g' n") auto
    then have "x'\<lparr>gn_in := None, gn_out := None\<rparr> = x\<lparr>gn_in := None, gn_out := None\<rparr>" using eq [of n] by simp
    from arg_cong [OF this, of gn_travtag] x show ?thesis by (simp add: node_tag_def)
  qed
qed

lemma inv_same:
  assumes "graph_inv g ts" and "graph_ok g'" and "same_nodes g g'" and "g_edges g' = g_edges g"
  shows "graph_inv g' ts"
  using assms same_nodesD [OF assms(3)] by (auto simp: graph_inv_def tags_in_def used_def edge_tag_def)

lemma retagged_domD:
  assumes "retagged t g g'"
  shows "dom (g_nodes g') = dom (g_nodes g)" "dom (g_edges g') = dom (g_edges g)"
proof -
  have e: "erase_tags g' = erase_tags g" using assms by (simp add: retagged_def)
  have "g_nodes (erase_tags g') n = g_nodes (erase_tags g) n" "g_edges (erase_tags g') n = g_edges (erase_tags g) n" for n by (simp_all add: e)
  then have "g_nodes g' n = None \<longleftrightarrow> g_nodes g n = None" "g_edges g' n = None \<longleftrightarrow> g_edges g n = None" for n
    by (simp_all add: erase_tags_def) (metis option.map_disc_iff)+
  then show "dom (g_nodes g') = dom (g_nodes g)" "dom (g_edges g') = dom (g_edges g)" by (auto simp: dom_def)
qed

lemma erase_lists: "outs (erase_tags g) = outs g" "ins (erase_tags g) = ins g"
  by (auto simp: outs_def ins_def erase_tags_def fun_eq_iff split: option.splits)

lemma graph_ok_erase: "graph_ok (erase_tags g) = graph_ok g"
proof -
  have n: "(\<forall>n x. g_nodes (erase_tags g) n = Some x \<longrightarrow> arr_ok (gn_out x) \<and> arr_ok (gn_in x)) \<longleftrightarrow>
      (\<forall>n x. g_nodes g n = Some x \<longrightarrow> arr_ok (gn_out x) \<and> arr_ok (gn_in x))" (is "?l \<longleftrightarrow> ?r")
  proof
    assume l: ?l
    show ?r
    proof (intro allI impI)
      fix n x assume "g_nodes g n = Some x"
      then have "g_nodes (erase_tags g) n = Some (x\<lparr>gn_travtag := 0\<rparr>)" by (simp add: erase_tags_def)
      with l show "arr_ok (gn_out x) \<and> arr_ok (gn_in x)" by fastforce
    qed
  qed (auto simp: erase_tags_def)
  have e1: "(\<exists>ed. g_edges (erase_tags g) e = Some ed \<and> ge_from ed = n \<and> e \<in> set (ins g (ge_to ed))) \<longleftrightarrow>
      (\<exists>ed. g_edges g e = Some ed \<and> ge_from ed = n \<and> e \<in> set (ins g (ge_to ed)))" for e n by (auto simp: erase_tags_def)
  have e2: "(\<exists>ed. g_edges (erase_tags g) e = Some ed \<and> ge_to ed = n \<and> e \<in> set (outs g (ge_from ed))) \<longleftrightarrow>
      (\<exists>ed. g_edges g e = Some ed \<and> ge_to ed = n \<and> e \<in> set (outs g (ge_from ed)))" for e n by (auto simp: erase_tags_def)
  show ?thesis unfolding graph_ok_def erase_lists n e1 e2 ..
qed

lemma inv_retagged:
  assumes inv: "graph_inv g ts" and r: "retagged t g g'"
  shows "graph_inv g' (insert t ts)"
proof -
  have "graph_ok g'" using graph_ok_erase [of g'] graph_ok_erase [of g] inv r by (simp add: graph_inv_def retagged_def)
  moreover have "tags_in (insert t ts) g'"
  proof -
    have "node_tag g' n = t \<or> node_tag g' n = node_tag g n" "edge_tag g' n = t \<or> edge_tag g' n = edge_tag g n" for n
      using r by (simp_all add: retagged_def)
    then show ?thesis using inv retagged_domD [OF r] unfolding graph_inv_def tags_in_def by (metis insert_iff)
  qed
  moreover have "finite (used g')" using inv retagged_domD [OF r] by (simp add: graph_inv_def used_def)
  ultimately show ?thesis by (simp add: graph_inv_def)
qed

lemma fresh_tag:
  assumes inv: "graph_inv g ts" and n: "n \<in> dom (g_nodes g)" and t: "t \<notin> ts" "t \<noteq> 0"
  shows "\<forall>m\<in>reach g n. node_tag g m \<noteq> t \<and> (\<forall>e\<in>set (outs g m). edge_tag g e \<noteq> t)"
proof -
  have ok: "graph_ok g" "finite (dom (g_nodes g))" using inv by (auto simp: graph_inv_def used_def)
  then have "reach g n \<subseteq> dom (g_nodes g)" using reach_closed [OF ok n] by (simp add: closed_set_def)
  moreover have "e \<in> dom (g_edges g)" if "e \<in> set (outs g m)" for e m using graph_outE [OF ok(1) that] by blast
  ultimately show ?thesis using inv t by (fastforce simp: graph_inv_def tags_in_def)
qed

section \<open>A traversal with any tag\<close>

text \<open>Whatever the tag, the memory and the stack: a traversal that returns has changed nothing but tags, into the one it drew.\<close>

lemma retagged_refl: "retagged t g g"
  by (simp add: retagged_def)

lemma retagged_node:
  assumes ok: "graph_ok g0" and r: "retagged t g0 g" and x: "get_node g n = Inr x"
  shows "retagged t g0 (set_node g n (x\<lparr>gn_travtag := t\<rparr>))" and "length (arr_elems (gn_out x)) = length (outs g0 n)"
proof -
  obtain V F where s: "seen t g0 g V F" using r by (auto simp: seen_def)
  have "n \<in> dom (g_nodes g0)" using x retagged_domD(1) [OF r] by (auto simp: get_node_def split: option.splits)
  then obtain y where y: "g_nodes g n = Some y" "arr_elems (gn_out y) = outs g0 n"
    "seen t g0 (set_node g n (y\<lparr>gn_travtag := t\<rparr>)) (insert n V) F" by (rule seen_node [OF ok s])
  have "y = x" using x y(1) by (simp add: get_node_def)
  with y(2,3) show "retagged t g0 (set_node g n (x\<lparr>gn_travtag := t\<rparr>))" "length (arr_elems (gn_out x)) = length (outs g0 n)"
    by (simp_all add: seen_def)
qed

lemma retagged_edge:
  assumes ok: "graph_ok g0" and r: "retagged t g0 g" and i: "i < length (outs g0 n)"
    and e: "out_get alloc g n i = Inr (e, g1)" and ed: "get_edge g1 e = Inr ed"
  shows "g1 = g" and "retagged t g0 (set_edge g (the e) (ed\<lparr>ge_travtag := t\<rparr>))"
proof -
  obtain V F where s: "seen t g0 g V F" using r by (auto simp: seen_def)
  have e1: "e = Some (outs g0 n ! i)" "g1 = g" using out_get_ok [OF ok s i, of alloc] e by auto
  then show "g1 = g" by simp
  have "outs g0 n ! i \<in> set (outs g0 n)" using i by simp
  then obtain y where y: "g_edges g (outs g0 n ! i) = Some y"
    "seen t g0 (set_edge g (outs g0 n ! i) (y\<lparr>ge_travtag := t\<rparr>)) V (insert (outs g0 n ! i) F)" by (rule seen_edge [OF ok s])
  have "y = ed" using ed y(1) by (simp add: e1 get_edge_def)
  with y(2) show "retagged t g0 (set_edge g (the e) (ed\<lparr>ge_travtag := t\<rparr>))" by (simp add: e1 seen_def)
qed

lemma bfs_edge_retags:
  assumes ok: "graph_ok g0" and loop: "c_loop (bfs_edge alloc t ef n (length (outs g0 n))) (0, g, st, u) = Inr (g', st', u')"
    and r: "retagged t g0 g"
  shows "retagged t g0 g'"
proof -
  have "retagged t g0 (fst (g', st', u'))"
  proof (rule c_loop_partial [OF loop, where I = "\<lambda>(i, g, st, u). retagged t g0 g"])
    fix s s' assume I: "case s of (i, g, st, u) \<Rightarrow> retagged t g0 g"
      and step: "bfs_edge alloc t ef n (length (outs g0 n)) s = Inr (Continue s')"
    obtain i g st u where s: "s = (i, g, st, u)" by (cases s)
    have g: "retagged t g0 g" and i: "i < length (outs g0 n)" using I step by (auto simp: s bfs_edge_def split: if_splits)
    obtain e g1 ed where e: "out_get alloc g n i = Inr (e, g1)" "get_edge g1 e = Inr ed"
      using step i by (auto simp: s bfs_edge_def bind_res_eq_Inr)
    note E = retagged_edge [OF ok g i e]
    have "fst (snd s') \<in> {g, set_edge g (the e) (ed\<lparr>ge_travtag := t\<rparr>)}"
      using step i e E(1) by (cases "ge_travtag ed = t") (auto simp: s bfs_edge_def bind_res_eq_Inr Let_def)
    then show "case s' of (i, g, st, u) \<Rightarrow> retagged t g0 g" using g E(2) by (cases s') auto
  next
    fix s q assume "case s of (i, g, st, u) \<Rightarrow> retagged t g0 g" "bfs_edge alloc t ef n (length (outs g0 n)) s = Inr (Break q)"
    then show "retagged t g0 (fst q)"
      by (cases s) (auto simp: bfs_edge_def bind_res_eq_Inr Let_def split: if_splits)
  qed (use r in simp)
  then show ?thesis by simp
qed

lemma bfs_retags:
  assumes ok: "graph_ok g0" and loop: "c_loop (bfs_body alloc t nf ef) (g0, st, u) = Inr (g', u')"
  shows "retagged t g0 g'"
proof -
  have "retagged t g0 (fst (g', u'))"
  proof (rule c_loop_partial [OF loop, where I = "\<lambda>(g, st, u). retagged t g0 g"])
    fix s s' assume I: "case s of (g, st, u) \<Rightarrow> retagged t g0 g" and step: "bfs_body alloc t nf ef s = Inr (Continue s')"
    obtain g st u where s: "s = (g, st, u)" by (cases s)
    have g: "retagged t g0 g" using I by (simp add: s)
    obtain n st1 where n: "stack_pop st = Inr (Some n, st1)"
      using step by (auto simp: s bfs_body_def bind_res_eq_Inr split: option.splits)
    obtain x where x: "get_node g n = Inr x" using step n by (auto simp: s bfs_body_def bind_res_eq_Inr)
    note N = retagged_node [OF ok g x]
    show "case s' of (g, st, u) \<Rightarrow> retagged t g0 g"
    proof (cases "gn_travtag x = t")
      case True
      then show ?thesis using step n x g by (auto simp: s bfs_body_def)
    next
      case False
      then obtain g1 st2 u1 where loop: "c_loop (bfs_edge alloc t ef n (length (outs g0 n)))
          (0, set_node g n (x\<lparr>gn_travtag := t\<rparr>), st1, call_opt nf n u) = Inr (g1, st2, u1)" and s': "s' = (g1, st2, u1)"
        using step n x N(2) by (auto simp: s bfs_body_def bind_res_eq_Inr)
      from bfs_edge_retags [OF ok loop N(1)] show ?thesis by (simp add: s')
    qed
  next
    fix s q assume "case s of (g, st, u) \<Rightarrow> retagged t g0 g" "bfs_body alloc t nf ef s = Inr (Break q)"
    then show "retagged t g0 (fst q)"
      by (cases s) (auto simp: bfs_body_def bind_res_eq_Inr split: option.splits if_splits)
  qed (simp add: retagged_refl)
  then show ?thesis by simp
qed

lemma dfs_retags:
  assumes ok: "graph_ok g0"
  shows "retagged t g0 g \<Longrightarrow> trav_dfs_r alloc t nf ef room n g u = Inr (g', u') \<Longrightarrow> retagged t g0 g'"
proof (induction room arbitrary: n g u g' u')
  case (Suc room)
  let ?rec = "trav_dfs_r alloc t nf ef room"
  obtain x where x: "get_node g n = Inr x" using Suc.prems(2) by (auto simp: dfs_node_def bind_res_eq_Inr)
  note N = retagged_node [OF ok Suc.prems(1) x]
  show ?case
  proof (cases "gn_travtag x = t")
    case True
    then show ?thesis using Suc.prems x by (simp add: dfs_node_def)
  next
    case False
    then have loop: "c_loop (dfs_body alloc t nf ef ?rec n (length (outs g0 n))) (0, set_node g n (x\<lparr>gn_travtag := t\<rparr>), u) = Inr (g', u')"
      using Suc.prems(2) x N(2) by (simp add: dfs_node_def)
    have "retagged t g0 (fst (g', u'))"
    proof (rule c_loop_partial [OF loop, where I = "\<lambda>(i, g, u). retagged t g0 g"])
      fix s s' assume I: "case s of (i, g, u) \<Rightarrow> retagged t g0 g"
        and step: "dfs_body alloc t nf ef ?rec n (length (outs g0 n)) s = Inr (Continue s')"
      obtain i g u where s: "s = (i, g, u)" by (cases s)
      have g: "retagged t g0 g" and i: "i < length (outs g0 n)" using I step by (auto simp: s dfs_body_def split: if_splits)
      obtain e g1 ed where e: "out_get alloc g n i = Inr (e, g1)" "get_edge g1 e = Inr ed"
        using step i by (auto simp: s dfs_body_def bind_res_eq_Inr)
      note E = retagged_edge [OF ok g i e]
      have "\<exists>g2 u2 g3 u3. retagged t g0 g2 \<and> ?rec (ge_to ed) g2 u2 = Inr (g3, u3) \<and> s' = (i + 1, g3, u3)"
        using step i e E g by (cases "ge_travtag ed = t") (auto simp: s dfs_body_def bind_res_eq_Inr Let_def)
      then show "case s' of (i, g, u) \<Rightarrow> retagged t g0 g" using Suc.IH by auto
    next
      fix s q assume "case s of (i, g, u) \<Rightarrow> retagged t g0 g" "dfs_body alloc t nf ef ?rec n (length (outs g0 n)) s = Inr (Break q)"
      then show "retagged t g0 (fst q)"
        by (cases s) (auto simp: dfs_body_def bind_res_eq_Inr Let_def split: if_splits prod.splits)
    qed (use N(1) in simp)
    then show ?thesis by simp
  qed
qed simp

lemma traverse_retags:
  assumes ok: "graph_ok g" and draw: "c_loop (tag_body rand_fn (node_tag g n)) r = Inr (tag, r1)"
    and op: "traverse alloc rand_fn room r g n travtype nf ef u = Inr (g', u', r2)"
  shows "retagged tag g g'"
proof -
  have tag: "gn_travtag x = node_tag g n" if "get_node g n = Inr x" for x
    using that by (auto simp: get_node_def node_tag_def split: option.splits)
  consider "travtype = 1" | "travtype = 0" | "travtype \<noteq> 1" "travtype \<noteq> 0" by blast
  then show ?thesis
  proof cases
    case 1
    then obtain u1 where "trav_dfs_r alloc tag nf ef room n g u = Inr (g', u1)" using op draw tag
      by (fastforce simp: traverse_def trav_dfs_def bind_res_eq_Inr)
    from dfs_retags [OF ok retagged_refl this] show ?thesis .
  next
    case 2
    then obtain st u1 where "c_loop (bfs_body alloc tag nf ef) (g, st, u) = Inr (g', u1)" using op draw tag
      by (fastforce simp: traverse_def trav_bfs_def bind_res_eq_Inr)
    from bfs_retags [OF ok this] show ?thesis .
  next
    case 3
    then show ?thesis using op by (simp add: traverse_def retagged_refl)
  qed
qed

section \<open>Every reachable graph\<close>

lemma inv_alloc:
  assumes inv: "graph_inv g ts" and new: "new_ok new" and op: "alloc_node new g x = Inr (n, g')"
  shows "graph_inv g' ts"
proof -
  let ?x = "\<lparr>gn_in = None, gn_out = None, gn_elem = x, gn_attr = None, gn_travtag = 0\<rparr>"
  have n: "new (used g) = Some n" "g' = set_node g n ?x" using op by (auto simp: alloc_node_def split: option.splits)
  have "graph_ok g'" using alloc_node_ok [OF _ _ new n(1), of x] inv op by (auto simp: graph_inv_def)
  moreover have "tags_in ts g'" using inv by (auto simp: n(2) graph_inv_def tags_in_def node_tag_def edge_tag_def split: if_splits)
  ultimately show ?thesis using inv by (auto simp: graph_inv_def used_def n(2))
qed

lemma inv_set:
  assumes inv: "graph_inv g ts" and op: "set_elem g n x = Inr g'"
  shows "graph_inv g' ts"
proof -
  obtain y where y: "g_nodes g n = Some y" "g' = set_node g n (y\<lparr>gn_elem := x\<rparr>)" using op by (auto simp: set_elem_def bind_res_eq_Inr)
  have "graph_ok g'" using set_elem_ok [OF _ y(1), of x] inv op by (auto simp: graph_inv_def)
  moreover have "node_tag g n \<in> insert 0 ts" using inv y(1) unfolding graph_inv_def tags_in_def by blast
  then have "tags_in ts g'" using inv y by (auto simp: graph_inv_def tags_in_def node_tag_def edge_tag_def split: if_splits)
  ultimately show ?thesis using inv by (auto simp: graph_inv_def used_def y(2))
qed

lemma inv_link:
  assumes inv: "graph_inv g ts" and new: "new_ok new"
    and len: "length (outs g n) < 2 ^ 30" "length (ins g m) < 2 ^ 30"
    and mem: "\<forall>k \<le> 16 * max (length (outs g n)) (length (ins g m)) + 40. alloc k"
    and op: "link_node alloc new g n m w = Inr (e, g')"
  shows "graph_inv g' ts"
proof -
  have "g_nodes g n \<noteq> None" "g_nodes g m \<noteq> None" using op
    by (auto simp: link_node_def mkedge_def get_node_def set_node_def set_edge_def bind_res_eq_Inr Let_def split: option.splits if_splits)
  then obtain x y where xy: "g_nodes g n = Some x" "g_nodes g m = Some y" by blast
  have e: "new (used g) = Some e" using op
    by (auto simp: link_node_def mkedge_def bind_res_eq_Inr Let_def split: option.splits)
  have fin: "finite (used g)" and ok: "graph_ok g" using inv by (auto simp: graph_inv_def)
  have fresh: "e \<notin> used g" using new e fin by (auto simp: new_ok_def)
  have m: "alloc k" if "k \<le> 16 * max (length (outs g n)) (length (ins g m)) + 40" for k using mem that by blast
  obtain g1 where g1: "link_node alloc new g n m w = Inr (e, g1)" "graph_ok g1" "same_nodes g g1"
    "g_edges g1 = (g_edges g)(e \<mapsto> \<lparr>ge_from = n, ge_to = m, ge_weight = w, ge_attr = None, ge_travtag = 0\<rparr>)"
    using link_node_ok [where alloc = alloc and new = new and w = w, OF ok xy e fresh len m] by blast
  then have "g' = g1" using op by simp
  with g1 same_nodesD [OF g1(3)] inv show ?thesis
    by (auto simp: graph_inv_def tags_in_def used_def edge_tag_def split: if_splits)
qed

lemma inv_find:
  assumes inv: "graph_inv g ts" and op: "find_edge g n m = Inr (r, g')"
  shows "graph_inv g' ts \<and> r = find (\<lambda>e. target g e = m) (outs g n) \<and> outs g' = outs g \<and> g_edges g' = g_edges g"
proof -
  obtain x d where x: "g_nodes g n = Some x" "gn_out x = Some d" using op by (auto simp: find_edge_def bind_res_eq_Inr split: option.splits)
  have ok: "graph_ok g" using inv by (simp add: graph_inv_def)
  from find_edge_ok [OF ok x, of m] op inv_same [OF inv] show ?thesis by auto
qed

lemma inv_drop:
  assumes inv: "graph_inv g ts" and e: "e \<in> set (outs g n)" and op: "drop_edge alloc g (Some e) = Inr g'"
  shows "graph_inv g' ts"
proof -
  have ok: "graph_ok g" using inv by (simp add: graph_inv_def)
  obtain ed where "g_edges g e = Some ed" using graph_outE [OF ok e] by blast
  from drop_edge_ok [OF ok e this, of alloc] op inv_same [OF inv] show ?thesis by auto
qed

lemma inv_unlink:
  assumes inv: "graph_inv g ts" and op: "unlink_node alloc g n m = Inr g'"
  shows "graph_inv g' ts"
proof -
  obtain r g1 where g1: "find_edge g n m = Inr (r, g1)" "drop_edge alloc g1 r = Inr g'" using op by (auto simp: unlink_node_def bind_res_eq_Inr)
  note F = inv_find [OF inv g1(1)]
  obtain e where r: "r = Some e" using g1(2) by (cases r) (auto simp: drop_edge_def)
  then have e: "e \<in> set (outs g1 n)" using F by (auto simp: find_Some_iff)
  have "graph_inv g1 ts" "drop_edge alloc g1 (Some e) = Inr g'" using F g1(2) r by auto
  from inv_drop [OF this(1) e this(2)] show ?thesis .
qed

lemma inv_walk:
  assumes inv: "graph_inv g ts" and draw: "c_loop (tag_body rand_fn (node_tag g n)) r = Inr (tag, r1)"
    and op: "traverse alloc rand_fn room r g n travtype nf ef u = Inr (g', u', r2)"
  shows "graph_inv g' (insert tag ts)"
proof -
  have ok: "graph_ok g" using inv by (simp add: graph_inv_def)
  show ?thesis by (rule inv_retagged [OF inv traverse_retags [OF ok draw op]])
qed

lemma graph_reach_inv:
  assumes "graph_reach alloc new rand_fn nf ef g ts" and "new_ok new"
  shows "graph_inv g ts"
  using assms(1)
proof induction
  case start
  show ?case by (simp add: graph_inv_def graph_ok_def no_nodes_def outs_def ins_def used_def tags_in_def)
next
  case (alloc g ts x n g')
  show ?case using inv_alloc [OF alloc.IH assms(2) alloc.hyps(2)] .
next
  case (set g ts n x g')
  show ?case using inv_set [OF set.IH set.hyps(2)] .
next
  case (link g ts n m w e g')
  show ?case using inv_link [OF link.IH assms(2) link.hyps(2-5)] .
next
  case (find g ts n m r g')
  show ?case using inv_find [OF find.IH find.hyps(2)] by simp
next
  case (unlink g ts n m g')
  show ?case using inv_unlink [OF unlink.IH unlink.hyps(2)] .
next
  case (drop g ts e n g')
  show ?case using inv_drop [OF drop.IH drop.hyps(2,3)] .
next
  case (walk g ts n r tag r1 room travtype u g' u' r2)
  show ?case using inv_walk [OF walk.IH walk.hyps(2,3)] .
qed

section \<open>Properties\<close>

text \<open>
  C34: every graph that a program can build, with traversals of any kind between the other operations, also with
  tags drawn before, and memory for every edge it links (lists below \<open>2 ^ 30\<close>, an edge dropped once), is well-formed: the
  lists of its nodes contain only edges that exist, each edge of an outgoing list once and also in the incoming
  list of its target, and the other way round. A breadth-first traversal of it from any node, with a tag not
  drawn before and memory linear in the number of edges, visits exactly the nodes that can be reached, each once.
\<close>

theorem graph_states_ok:
  assumes "graph_reach alloc new rand_fn nf ef g ts" and "new_ok new"
  shows "graph_ok g \<and> finite (dom (g_nodes g)) \<and>
    (\<forall>n\<in>dom (g_nodes g). \<forall>r tag r1 K room u. c_loop (tag_body rand_fn (node_tag g n)) r = Inr (tag, r1) \<longrightarrow> tag \<notin> ts \<longrightarrow>
       mem_for alloc K \<longrightarrow> (\<Sum>n\<in>dom (g_nodes g). length (outs g n)) < K \<longrightarrow>
       (\<exists>g' ns. traverse alloc rand_fn room r g n 0 nf ef u = Inr (g', fold (tell nf ef) (concat (map (visit_events g) ns)) u, r1) \<and>
          distinct ns \<and> set ns = reach g n))"
proof -
  have inv: "graph_inv g ts" using assms by (rule graph_reach_inv)
  then have ok: "graph_ok g" "finite (dom (g_nodes g))" by (auto simp: graph_inv_def used_def)
  show ?thesis
  proof (intro conjI ok ballI allI impI)
    fix n r tag r1 K room u
    assume n: "n \<in> dom (g_nodes g)" and draw: "c_loop (tag_body rand_fn (node_tag g n)) r = Inr (tag, r1)" and tag: "tag \<notin> ts"
      and mem: "mem_for alloc K" "(\<Sum>n\<in>dom (g_nodes g). length (outs g n)) < K"
    have fresh: "\<forall>m\<in>reach g n. node_tag g m \<noteq> tag \<and> (\<forall>e\<in>set (outs g m). edge_tag g e \<noteq> tag)"
      using fresh_tag [OF inv n tag] draw_tag [OF draw] by blast
    from traverse_bfs_ok [where room = room and nf = nf and ef = ef and u = u, OF ok n draw fresh mem]
    show "\<exists>g' ns. traverse alloc rand_fn room r g n 0 nf ef u = Inr (g', fold (tell nf ef) (concat (map (visit_events g) ns)) u, r1) \<and>
        distinct ns \<and> set ns = reach g n" by blast
  qed
qed

text \<open>
  A traversal that draws a tag the successors of its start still carry does not get further than them, whatever
  can be reached: the tag is compared with that of the start only.
\<close>

lemma walk_over_marked:
  assumes "\<forall>e\<in>set es. target g e \<in> V"
  shows "fold (\<lambda>e s. dfs_walk g k (target g e) (fst s, snd s @ [At_Edge e, At_Node n])) es (insert n V, evs) =
    (insert n V, evs @ edge_events n es)"
  using assms by (induction es arbitrary: evs) (cases k; simp add: edge_events_def)+

theorem repeated_tag_stops:
  assumes "graph_ok g" and "finite (dom (g_nodes g))" and "n \<in> dom (g_nodes g)"
    and "c_loop (tag_body rand_fn (node_tag g n)) r = Inr (tag, r1)"
    and "\<forall>e\<in>set (outs g n). node_tag g (target g e) = tag"
    and "\<forall>m\<in>dom (g_nodes g). node_tag g m = tag \<or> (\<forall>e\<in>set (outs g m). edge_tag g e \<noteq> tag)"
    and "card (dom (g_nodes g)) < room"
  shows "\<exists>g'. traverse alloc rand_fn room r g n 1 nf ef u = Inr (g', fold (tell nf ef) (edge_events n (outs g n)) u, r1)"
proof -
  let ?D = "dom (g_nodes g)"
  define V where "V = {n \<in> ?D. node_tag g n = tag}"
  define F where "F = {e \<in> dom (g_edges g). edge_tag g e = tag}"
  obtain k where k: "room = Suc k" using assms(7) by (cases room) auto
  have R: "closed_set g ?D" using assms(2) target_node [OF assms(1)] by (auto simp: closed_set_def)
  have s: "seen tag g g V F" by (simp add: seen_def retagged_refl V_def F_def)
  have V: "n \<notin> V" "\<forall>e\<in>set (outs g n). target g e \<in> V"
    using draw_tag [OF assms(4)] assms(5) target_node [OF assms(1)] by (auto simp: V_def)
  have F: "\<forall>m\<in>?D - V. set (outs g m) \<inter> F = {}" using assms(6) by (auto simp: V_def F_def)
  have c: "card (?D - V) < room" using card_mono [OF assms(2), of "?D - V"] assms(7) by auto
  have walk: "snd (dfs_walk g room n (V, [])) = edge_events n (outs g n)" using V walk_over_marked [OF V(2), of k n "[]"] by (simp add: k)
  obtain g' where "trav_dfs_r alloc tag nf ef room n g u = Inr (g', fold (tell nf ef) (edge_events n (outs g n)) u)"
    using dfs_sim [OF assms(1) R s assms(3) c F, of alloc nf ef "[]" u] walk by auto
  moreover obtain x where "get_node g n = Inr x" "gn_travtag x = node_tag g n" using assms(3) by (auto simp: get_node_def node_tag_def)
  ultimately show ?thesis using assms(4) by (auto simp: traverse_def trav_dfs_def)
qed

text \<open>The nodes 2 and 3 of the example carry the tag 1 that is drawn at node 1: node 4 is not reached.\<close>

theorem repeated_tag_stops_witness:
  "\<exists>g g' :: nat graph. graph_ok g \<and> outs g = outs trav_graph \<and>
     traverse (mem_upto 0) (\<lambda>r. (r, r + 1)) 5 1 g 1 1 (Some (\<lambda>n u. u @ [n])) (Some (\<lambda>e u. u @ [e])) [] = Inr (g', [11, 1, 12, 1], 2)"
proof -
  define g where "g = trav_graph\<lparr>g_nodes := \<lambda>n. map_option (\<lambda>x. x\<lparr>gn_travtag := if n \<in> {2, 3} then 1 else 0\<rparr>) (g_nodes trav_graph n)\<rparr>"
  have e: "erase_tags g = erase_tags trav_graph" by (simp add: g_def erase_tags_def option.map_comp o_def)
  have lists: "outs g = outs trav_graph" using e erase_lists(1) by metis
  have ok: "graph_ok g" using graph_ok_erase [of g] graph_ok_erase [of trav_graph] trav_graph_ok by (simp add: e)
  have D: "dom (g_nodes g) = {1, 2, 3, 4}" using trav_graph_lists(7) by (simp add: g_def dom_def)
  have tg: "target g = target trav_graph" by (simp add: g_def target_def fun_eq_iff)
  have nt: "node_tag g n = (if n \<in> {2, 3} then 1 else 0)" if "n \<in> {1, 2, 3, 4}" for n
    using that by (auto simp: g_def node_tag_def trav_graph_def)
  have et: "edge_tag g e = 0" if "e \<in> {11, 12, 13, 14}" for e using that by (auto simp: g_def edge_tag_def trav_graph_def)
  have draw: "c_loop (tag_body (\<lambda>r. (r, r + 1)) (node_tag g 1)) 1 = Inr (1, 2)"
    by (rule c_loop_Break) (simp add: tag_body_def nt)
  show ?thesis
    using repeated_tag_stops [where alloc = "mem_upto 0" and room = 5 and nf = "Some (\<lambda>n u. u @ [n])" and ef = "Some (\<lambda>e u. u @ [e])" and u = "[]",
      OF ok _ _ draw] ok lists
    by (auto intro!: exI [where P = "\<lambda>g. \<exists>g'. _ g g'" and x = g] simp: D lists tg nt et trav_graph_lists edge_events_def call_opt_def)
qed

text \<open>A history of two nodes and an edge between them.\<close>

lemma edge_history:
  "\<exists>g :: nat graph. graph_reach (mem_upto 1000) new_above (\<lambda>r :: int. (r, r + 1)) (None :: (nat \<Rightarrow> unit \<Rightarrow> unit) option) None g {} \<and>
     dom (g_nodes g) = {2, 1} \<and> outs g = (\<lambda>_. [])(1 := [3])"
proof -
  let ?R = "graph_reach (mem_upto 1000) new_above (\<lambda>r :: int. (r, r + 1)) (None :: (nat \<Rightarrow> unit \<Rightarrow> unit) option) None"
  let ?g0 = "no_nodes :: nat graph"
  have g0: "graph_ok ?g0" "used ?g0 = {}" "g_edges ?g0 = Map.empty" "outs ?g0 = (\<lambda>_. [])" "ins ?g0 = (\<lambda>_. [])"
    by (auto simp: graph_ok_def no_nodes_def outs_def ins_def used_def)
  have new: "new_above (used ?g0) = Some 1" by (simp add: g0 new_above_def)
  obtain g1 where g1: "alloc_node new_above ?g0 (Some 10) = Inr (1, g1)" "graph_ok g1" "g_edges g1 = Map.empty"
    "dom (g_nodes g1) = {1}" "outs g1 = (\<lambda>_. [])" "ins g1 = (\<lambda>_. [])"
    using alloc_node_ok [OF g0(1) _ new_above_ok new, of "Some 10"] g0 by (auto simp: no_nodes_def)
  have u1: "used g1 = {1}" using g1 by (simp add: used_def)
  then have new1: "new_above (used g1) = Some 2" by (simp add: new_above_def)
  obtain g2 where g2: "alloc_node new_above g1 (Some 20) = Inr (2, g2)" "graph_ok g2" "g_edges g2 = Map.empty"
    "dom (g_nodes g2) = {2, 1}" "outs g2 = (\<lambda>_. [])" "ins g2 = (\<lambda>_. [])"
    using alloc_node_ok [OF g1(2) _ new_above_ok new1, of "Some 20"] g1 u1 by auto
  have u2: "used g2 = {2, 1}" using g2 by (simp add: used_def)
  then have new2: "new_above (used g2) = Some 3" "3 \<notin> used g2" by (simp_all add: new_above_def)
  obtain x y where xy: "g_nodes g2 1 = Some x" "g_nodes g2 2 = Some y" using g2(4) by blast
  obtain g3 where g3: "link_node (mem_upto 1000) new_above g2 1 2 5 = Inr (3, g3)" "same_nodes g2 g3" "outs g3 = (outs g2)(1 := outs g2 1 @ [3])"
    using link_node_ok [where alloc = "mem_upto 1000" and w = 5 and new = new_above and g = g2, OF g2(2) xy new2] g2(5,6) by (auto simp: mem_upto_def)
  have "?R ?g0 {}" by (rule graph_reach.start)
  then have "?R g1 {}" using g1(1) by (rule graph_reach.alloc)
  then have r2: "?R g2 {}" using g2(1) by (rule graph_reach.alloc)
  have "?R g3 {}" by (rule graph_reach.link [OF r2 _ _ _ g3(1)]) (use g2 in \<open>auto simp: mem_upto_def\<close>)
  moreover have "dom (g_nodes g3) = {2, 1}" using same_nodesD(1) [OF g3(2)] g2(4) by simp
  ultimately show ?thesis using g3(3) g2(5) by auto
qed

theorem graph_states_ok_witness:
  "\<exists>g :: nat graph. outs g 1 = [3] \<and> graph_ok g \<and>
     (\<exists>g' ns. traverse (mem_upto 1000) (\<lambda>r :: int. (r, r + 1)) 0 7 g 1 0 (None :: (nat \<Rightarrow> unit \<Rightarrow> unit) option) None () = Inr (g', (), 8) \<and>
        set ns = reach g 1)"
proof -
  obtain g :: "nat graph" where g: "graph_reach (mem_upto 1000) new_above (\<lambda>r :: int. (r, r + 1)) (None :: (nat \<Rightarrow> unit \<Rightarrow> unit) option) None g {}"
    "dom (g_nodes g) = {2, 1}" "outs g = (\<lambda>_. [])(1 := [3])" using edge_history by blast
  note S = graph_states_ok [OF g(1) new_above_ok]
  have "tags_in {} g" using graph_reach_inv [OF g(1) new_above_ok] by (simp add: graph_inv_def)
  then have "node_tag g 1 = 0" using g(2) by (simp add: tags_in_def)
  then have draw: "c_loop (tag_body (\<lambda>r :: int. (r, r + 1)) (node_tag g 1)) 7 = Inr (7, 8)"
    by (intro c_loop_Break) (simp add: tag_body_def)
  have m: "mem_for (mem_upto 1000) 2" by (simp add: mem_for_def mem_upto_ok) (simp add: mem_upto_def)
  have "1 \<in> dom (g_nodes g)" "(\<Sum>n\<in>dom (g_nodes g). length (outs g n)) < 2" using g(2,3) by simp_all
  with S draw m obtain g' ns where "traverse (mem_upto 1000) (\<lambda>r :: int. (r, r + 1)) 0 7 g 1 0 (None :: (nat \<Rightarrow> unit \<Rightarrow> unit) option) None () =
      Inr (g', fold (tell None None) (concat (map (visit_events g) ns)) (), 8)" "set ns = reach g 1" by blast
  moreover have "graph_ok g" using S by blast
  ultimately show ?thesis using g(3) by (intro exI [of _ g]) auto
qed

end
