(* ===== verification/BinTree.thy ===== *)
theory BinTree imports PtrList Compare "HOL-Library.Tree" begin

text \<open>
  bintree.c: an unbalanced search tree with parent pointers, modelled with its nodes in a store.
  As in ptrlist.c every tree carries the store of its own nodes: \<open>bt_nodes\<close> maps the addresses of
  the nodes that are allocated and not freed, and \<open>new\<close> is \<open>malloc\<close> of a node. Elements inserted
  are never NULL. The number of elements is only set by the first insertion and by
  \<open>bintree_clear\<close>, so it starts as \<open>Undef\<close>.

  The shape of a store is described by a tree of the library theory Tree whose nodes carry the
  address and the data, and a position in it by the path that leads there. The iterator is in
  the theory \<open>BinTreeIter\<close>.
\<close>

section \<open>The code\<close>

record 'a bt_node =
  bn_data :: 'a
  bn_left :: ref
  bn_right :: ref
  bn_parent :: ref

type_synonym 'a bt_store = "nat \<Rightarrow> 'a bt_node option"

record 'a bintree =
  bt_count :: "nat cell"
  bt_cmpfn :: "'a \<Rightarrow> 'a \<Rightarrow> int"
  bt_root :: ref
  bt_iter :: ref
  bt_travtype :: "int cell"
  bt_nodes :: "'a bt_store"

definition bt_deref :: "'a bt_store \<Rightarrow> ref \<Rightarrow> 'a bt_node res" where
  "bt_deref h p =
     (case p of
        None \<Rightarrow> Inl Null_Deref
      | Some a \<Rightarrow> (case h a of None \<Rightarrow> Inl Dangling | Some n \<Rightarrow> Inr n))"

definition bt_modify :: "'a bt_store \<Rightarrow> ref \<Rightarrow> ('a bt_node \<Rightarrow> 'a bt_node) \<Rightarrow> 'a bt_store res" where
  "bt_modify h p f = bind_res (bt_deref h p) (\<lambda>n. Inr (h(the p := Some (f n))))"

definition read_cell :: "'a cell \<Rightarrow> 'a res" where
  "read_cell c = (case c of Undef \<Rightarrow> Inl Indeterminate | Val x \<Rightarrow> Inr x)"

definition sizeof_bintree :: nat where
  "sizeof_bintree = 40"

definition bintree_init :: "(nat \<Rightarrow> bool) \<Rightarrow> ('a \<Rightarrow> 'a \<Rightarrow> int) \<Rightarrow> 'a bintree res" where
  "bintree_init alloc cmpfn =
     (if \<not> alloc sizeof_bintree then Inl Null_Deref
      else Inr \<lparr>bt_count = Undef, bt_cmpfn = cmpfn, bt_root = None, bt_iter = None, bt_travtype = Undef,
                bt_nodes = Map.empty\<rparr>)"

fun discoverheight :: "nat \<Rightarrow> 'a bt_store \<Rightarrow> ref \<Rightarrow> nat \<Rightarrow> nat \<Rightarrow> nat res" where
  "discoverheight 0 h n depth maxdepth = Inl Stack_Overflow"
| "discoverheight (Suc room) h n depth maxdepth =
     (let m = (if maxdepth < depth then depth else maxdepth) in
      bind_res (bt_deref h n) (\<lambda>nd.
      bind_res (if bn_left nd \<noteq> None then discoverheight room h (bn_left nd) (sz_add depth 1) m else Inr m) (\<lambda>m1.
      if bn_right nd \<noteq> None then discoverheight room h (bn_right nd) (sz_add depth 1) m1 else Inr m1)))"

definition bintree_height :: "nat \<Rightarrow> 'a bintree option \<Rightarrow> nat res" where
  "bintree_height room ht =
     (case ht of
        None \<Rightarrow> Inr 0
      | Some t \<Rightarrow> if bt_root t = None then Inr 0 else discoverheight room (bt_nodes t) (bt_root t) 1 1)"

definition bintree_count :: "'a bintree option \<Rightarrow> nat res" where
  "bintree_count ht =
     (case ht of
        None \<Rightarrow> Inr 0
      | Some t \<Rightarrow> if bt_root t = None then Inr 0 else read_cell (bt_count t))"

fun bintree_rclear :: "nat \<Rightarrow> 'a bt_store \<Rightarrow> ref \<Rightarrow> 'a bt_store res" where
  "bintree_rclear 0 h n = Inl Stack_Overflow"
| "bintree_rclear (Suc room) h n =
     (if n = None then Inr h
      else
        bind_res (bt_deref h n) (\<lambda>nd.
        bind_res (bintree_rclear room h (bn_left nd)) (\<lambda>h1.
        bind_res (bt_deref h1 n) (\<lambda>nd1.
        bind_res (bintree_rclear room h1 (bn_right nd1)) (\<lambda>h2.
        bind_res (bt_deref h2 n) (\<lambda>_. Inr (h2(the n := None))))))))"

definition bintree_clear :: "nat \<Rightarrow> 'a bintree option \<Rightarrow> 'a bintree option res" where
  "bintree_clear room ht =
     (case ht of
        None \<Rightarrow> Inr None
      | Some t \<Rightarrow>
          bind_res (bintree_rclear room (bt_nodes t) (bt_root t)) (\<lambda>h.
          Inr (Some (t\<lparr>bt_nodes := h, bt_count := Val 0, bt_root := None\<rparr>))))"

definition bintree_dispose :: "nat \<Rightarrow> 'a bintree option \<Rightarrow> unit res" where
  "bintree_dispose room ht = bind_res (bintree_clear room ht) (\<lambda>_. Inr ())"

text \<open>
  One iteration of the loop of \<open>bintree_insert\<close>. It is left with the node to write the data to: a
  new leaf, or a node with an equal element. A new node is complete once the data is written, so
  \<open>add_leaf\<close> puts it in the store with the data.
\<close>

definition add_leaf :: "(nat set \<Rightarrow> nat option) \<Rightarrow> 'a bintree \<Rightarrow> ref \<Rightarrow> bool \<Rightarrow> 'a \<Rightarrow> (ref \<times> 'a bintree) res" where
  "add_leaf new t n lft data =
     (case new (dom (bt_nodes t)) of
        None \<Rightarrow> Inl Null_Deref
      | Some a \<Rightarrow>
          bind_res (bt_modify (bt_nodes t) n (\<lambda>nd. if lft then nd\<lparr>bn_left := Some a\<rparr> else nd\<lparr>bn_right := Some a\<rparr>)) (\<lambda>h.
          bind_res (read_cell (bt_count t)) (\<lambda>c.
          Inr (Some a, t\<lparr>bt_nodes := h(a \<mapsto> \<lparr>bn_data = data, bn_left = None, bn_right = None, bn_parent = n\<rparr>),
                        bt_count := Val (sz_add c 1)\<rparr>))))"

definition binsert_body ::
  "(nat set \<Rightarrow> nat option) \<Rightarrow> 'a bintree \<Rightarrow> 'a \<Rightarrow> ref \<Rightarrow> (ref, ref \<times> 'a bintree) step res" where
  "binsert_body new t data n =
     (if n = None then Inr (Break (n, t))
      else
        bind_res (bt_deref (bt_nodes t) n) (\<lambda>nd.
        let r = bt_cmpfn t data (bn_data nd) in
        if r < 0 then
          if bn_left nd \<noteq> None then Inr (Continue (bn_left nd))
          else bind_res (add_leaf new t n True data) (\<lambda>x. Inr (Break x))
        else if 0 < r then
          if bn_right nd \<noteq> None then Inr (Continue (bn_right nd))
          else bind_res (add_leaf new t n False data) (\<lambda>x. Inr (Break x))
        else Inr (Break (n, t))))"

definition bintree_insert ::
  "(nat set \<Rightarrow> nat option) \<Rightarrow> 'a bintree option \<Rightarrow> 'a option \<Rightarrow> (bool \<times> 'a bintree option) res" where
  "bintree_insert new ht hdata =
     (case (ht, hdata) of
        (Some t, Some data) \<Rightarrow>
          if bt_root t = None then
            (case new (dom (bt_nodes t)) of
               None \<Rightarrow> Inl Null_Deref
             | Some a \<Rightarrow>
                 Inr (True, Some (t\<lparr>bt_root := Some a,
                   bt_nodes := (bt_nodes t)(a \<mapsto> \<lparr>bn_data = data, bn_left = None, bn_right = None, bn_parent = None\<rparr>),
                   bt_count := Val 1\<rparr>)))
          else
            bind_res (c_loop (binsert_body new t data) (bt_root t)) (\<lambda>(n, t1).
            if n = None then Inr (False, Some t1)
            else
              bind_res (bt_modify (bt_nodes t1) n (\<lambda>nd. nd\<lparr>bn_data := data\<rparr>)) (\<lambda>h.
              Inr (True, Some (t1\<lparr>bt_nodes := h\<rparr>))))
      | _ \<Rightarrow> Inr (False, ht))"

definition nodefind_body :: "'a bintree \<Rightarrow> 'a \<Rightarrow> ref \<Rightarrow> (ref, ref) step res" where
  "nodefind_body t data n =
     (if n = None then Inr (Break None)
      else
        bind_res (bt_deref (bt_nodes t) n) (\<lambda>nd.
        if bt_cmpfn t data (bn_data nd) < 0 then Inr (Continue (bn_left nd))
        else if 0 < bt_cmpfn t data (bn_data nd) then Inr (Continue (bn_right nd))
        else Inr (Break n)))"

definition bintree_nodefind :: "'a bintree option \<Rightarrow> 'a \<Rightarrow> ref res" where
  "bintree_nodefind ht data =
     (case ht of None \<Rightarrow> Inr None | Some t \<Rightarrow> c_loop (nodefind_body t data) (bt_root t))"

definition bintree_find :: "'a bintree option \<Rightarrow> 'a \<Rightarrow> 'a option res" where
  "bintree_find ht data =
     (case ht of
        None \<Rightarrow> Inr None
      | Some t \<Rightarrow>
          bind_res (bintree_nodefind ht data) (\<lambda>n.
          if n \<noteq> None then bind_res (bt_deref (bt_nodes t) n) (\<lambda>nd. Inr (Some (bn_data nd))) else Inr None))"

text \<open>\<open>set_link t p lft q\<close> is \<open>p->left = q\<close> or \<open>p->right = q\<close>; for the root node it is \<open>t->root = q\<close>.\<close>

definition set_link :: "'a bintree \<Rightarrow> ref \<Rightarrow> bool \<Rightarrow> ref \<Rightarrow> 'a bintree res" where
  "set_link t p lft q =
     (if p = None then Inr (t\<lparr>bt_root := q\<rparr>)
      else
        bind_res (bt_modify (bt_nodes t) p (\<lambda>nd. if lft then nd\<lparr>bn_left := q\<rparr> else nd\<lparr>bn_right := q\<rparr>)) (\<lambda>h.
        Inr (t\<lparr>bt_nodes := h\<rparr>)))"

definition max_body :: "'a bt_store \<Rightarrow> ref \<Rightarrow> (ref, ref) step res" where
  "max_body h m =
     bind_res (bt_deref h m) (\<lambda>nd. Inr (if bn_right nd \<noteq> None then Continue (bn_right nd) else Break m))"

text \<open>The node with two children: its data goes to the rightmost node below its left child, which is unlinked.\<close>

definition remove_inner :: "'a bintree \<Rightarrow> ref \<Rightarrow> (ref \<times> 'a bintree) res" where
  "remove_inner t n =
     bind_res (bt_deref (bt_nodes t) n) (\<lambda>nd.
     bind_res (c_loop (max_body (bt_nodes t)) (bn_left nd)) (\<lambda>maxnode.
     bind_res (bt_deref (bt_nodes t) maxnode) (\<lambda>mn.
     bind_res (bt_modify (bt_nodes t) maxnode (\<lambda>x. x\<lparr>bn_data := bn_data nd\<rparr>)) (\<lambda>h1.
     bind_res (bt_modify h1 n (\<lambda>x. x\<lparr>bn_data := bn_data mn\<rparr>)) (\<lambda>h2.
     bind_res (bt_deref h2 (bn_parent mn)) (\<lambda>pn.
     let t2 = t\<lparr>bt_nodes := h2\<rparr> in
     bind_res
       (if bn_left pn = maxnode then set_link t2 (bn_parent mn) True None
        else if bn_right pn = maxnode then set_link t2 (bn_parent mn) False None
        else Inl (Exits 2)) (\<lambda>t3.
     Inr (maxnode, t3))))))))"

definition bintree_remove :: "'a bintree option \<Rightarrow> 'a \<Rightarrow> (bool \<times> 'a bintree option) res" where
  "bintree_remove ht data =
     (case ht of
        None \<Rightarrow> Inr (False, ht)
      | Some t \<Rightarrow>
          bind_res (bintree_nodefind ht data) (\<lambda>n.
          if n = None then Inr (False, ht)
          else
            bind_res (bt_deref (bt_nodes t) n) (\<lambda>nd.
            bind_res
              (if bn_parent nd = None then Inr False
               else bind_res (bt_deref (bt_nodes t) (bn_parent nd)) (\<lambda>pn. Inr (bn_left pn = n))) (\<lambda>lft.
            bind_res
              (if bn_right nd = None \<and> bn_left nd = None then
                 bind_res (set_link t (bn_parent nd) lft None) (\<lambda>t1. Inr (n, t1))
               else if bn_left nd = None \<or> bn_right nd = None then
                 let child = (if bn_left nd = None then bn_right nd else bn_left nd) in
                 bind_res (set_link t (bn_parent nd) lft child) (\<lambda>t1.
                 bind_res (bt_modify (bt_nodes t1) child (\<lambda>c. c\<lparr>bn_parent := bn_parent nd\<rparr>)) (\<lambda>h.
                 Inr (n, t1\<lparr>bt_nodes := h\<rparr>)))
               else remove_inner t n) (\<lambda>(gone, t1).
            bind_res (bt_deref (bt_nodes t1) gone) (\<lambda>_.
            bind_res (read_cell (bt_count t1)) (\<lambda>c.
            Inr (True, Some (t1\<lparr>bt_nodes := (bt_nodes t1)(the gone := None), bt_count := Val (sz_sub c 1)\<rparr>)))))))))"

section \<open>The shape of a store\<close>

type_synonym 'a shape = "(nat \<times> 'a) tree"

fun root_ref :: "'a shape \<Rightarrow> ref" where
  "root_ref Leaf = None"
| "root_ref (Node l n r) = Some (fst n)"

fun tree_in :: "'a bt_store \<Rightarrow> ref \<Rightarrow> 'a shape \<Rightarrow> bool" where
  "tree_in h p Leaf \<longleftrightarrow> True"
| "tree_in h p (Node l (a, x) r) \<longleftrightarrow>
     h a = Some \<lparr>bn_data = x, bn_left = root_ref l, bn_right = root_ref r, bn_parent = p\<rparr> \<and>
     tree_in h (Some a) l \<and> tree_in h (Some a) r"

text \<open>
  A path to a position, the innermost step first: \<open>InL n r\<close> leads into the left child of \<open>n\<close>, whose
  right subtree is \<open>r\<close>. \<open>plug\<close> puts a subtree there; \<open>before\<close> and \<open>after\<close> are what precedes and
  follows the position in order, \<open>up\<close> is the parent and \<open>in_left\<close> says whether we are its left child.
\<close>

datatype 'a frame = InL "nat \<times> 'a" "'a shape" | InR "'a shape" "nat \<times> 'a"

fun plug :: "'a frame list \<Rightarrow> 'a shape \<Rightarrow> 'a shape" where
  "plug [] t = t"
| "plug (InL n r # C) t = plug C (Node t n r)"
| "plug (InR l n # C) t = plug C (Node l n t)"

fun before :: "'a frame list \<Rightarrow> (nat \<times> 'a) list" where
  "before [] = []"
| "before (InL n r # C) = before C"
| "before (InR l n # C) = before C @ inorder l @ [n]"

fun after :: "'a frame list \<Rightarrow> (nat \<times> 'a) list" where
  "after [] = []"
| "after (InL n r # C) = n # inorder r @ after C"
| "after (InR l n # C) = after C"

fun up :: "'a frame list \<Rightarrow> ref" where
  "up [] = None"
| "up (InL n r # C) = Some (fst n)"
| "up (InR l n # C) = Some (fst n)"

fun in_left :: "'a frame list \<Rightarrow> bool" where
  "in_left (InL n r # C) = True"
| "in_left C = False"

fun ctx_in :: "'a bt_store \<Rightarrow> 'a frame list \<Rightarrow> ref \<Rightarrow> bool" where
  "ctx_in h [] q \<longleftrightarrow> True"
| "ctx_in h (InL (a, x) r # C) q \<longleftrightarrow>
     h a = Some \<lparr>bn_data = x, bn_left = q, bn_right = root_ref r, bn_parent = up C\<rparr> \<and>
     tree_in h (Some a) r \<and> ctx_in h C (Some a)"
| "ctx_in h (InR l (a, x) # C) q \<longleftrightarrow>
     h a = Some \<lparr>bn_data = x, bn_left = root_ref l, bn_right = q, bn_parent = up C\<rparr> \<and>
     tree_in h (Some a) l \<and> ctx_in h C (Some a)"

definition addrs :: "'a shape \<Rightarrow> nat set" where
  "addrs T = fst ` set_tree T"

definition around :: "'a frame list \<Rightarrow> nat set" where
  "around C = fst ` (set (before C) \<union> set (after C))"

definition distinct_addrs :: "'a shape \<Rightarrow> bool" where
  "distinct_addrs T \<longleftrightarrow> distinct (map fst (inorder T))"

definition elems :: "'a shape \<Rightarrow> 'a list" where
  "elems T = map snd (inorder T)"

named_theorems shape_simps \<open>addresses and elements of shapes and paths\<close>

lemma addrs_simps [simp]: "addrs Leaf = {}" "addrs (Node l n r) = insert (fst n) (addrs l \<union> addrs r)"
  by (auto simp: addrs_def)

lemma around_simps [simp]:
  "around [] = {}" "around (InL n r # C) = insert (fst n) (addrs r \<union> around C)"
  "around (InR l n # C) = insert (fst n) (addrs l \<union> around C)"
  by (auto simp: around_def addrs_def)

lemma distinct_addrs_simps [simp]:
  "distinct_addrs Leaf"
  "distinct_addrs (Node l n r) \<longleftrightarrow>
     distinct_addrs l \<and> distinct_addrs r \<and> fst n \<notin> addrs l \<and> fst n \<notin> addrs r \<and> addrs l \<inter> addrs r = {}"
  by (auto simp: distinct_addrs_def addrs_def)

lemma elems_simps [simp]: "elems Leaf = []" "elems (Node l n r) = elems l @ snd n # elems r"
  by (simp_all add: elems_def)

lemma length_elems [simp]: "length (elems T) = size T"
  by (simp add: elems_def)

lemma root_ref_None [simp]: "root_ref T = None \<longleftrightarrow> T = Leaf" "None = root_ref T \<longleftrightarrow> T = Leaf"
  by (cases T; simp)+

lemma root_ref_addrs: "root_ref T = Some a \<Longrightarrow> a \<in> addrs T"
  by (cases T) auto

lemma up_None [simp]: "up C = None \<longleftrightarrow> C = []"
  by (cases C rule: up.cases) auto

lemma up_around: "up C = Some a \<Longrightarrow> a \<in> around C"
  by (cases C rule: up.cases) auto

lemma inorder_plug: "inorder (plug C T) = before C @ inorder T @ after C"
  by (induction C T rule: plug.induct) auto

lemma size_plug: "size (plug C T) = length (before C) + size T + length (after C)"
  by (induction C T rule: plug.induct) auto

lemma elems_plug [shape_simps]: "elems (plug C T) = map snd (before C) @ elems T @ map snd (after C)"
  by (simp add: elems_def inorder_plug)

lemma addrs_plug [shape_simps]: "addrs (plug C T) = around C \<union> addrs T"
  by (induction C T rule: plug.induct) auto

definition distinct_path :: "'a frame list \<Rightarrow> bool" where
  "distinct_path C \<longleftrightarrow> distinct (map fst (before C @ after C))"

lemma distinct_path_simps [simp]:
  "distinct_path []"
  "distinct_path (InL n r # C) \<longleftrightarrow>
     distinct_addrs r \<and> distinct_path C \<and> fst n \<notin> addrs r \<and> fst n \<notin> around C \<and> addrs r \<inter> around C = {}"
  "distinct_path (InR l n # C) \<longleftrightarrow>
     distinct_addrs l \<and> distinct_path C \<and> fst n \<notin> addrs l \<and> fst n \<notin> around C \<and> addrs l \<inter> around C = {}"
  by (auto simp: distinct_path_def distinct_addrs_def around_def addrs_def)

lemma distinct_plug [shape_simps]:
  "distinct_addrs (plug C T) \<longleftrightarrow> distinct_path C \<and> distinct_addrs T \<and> around C \<inter> addrs T = {}"
  by (induction C T rule: plug.induct) auto

lemma root_ref_plug: "C \<noteq> [] \<Longrightarrow> root_ref (plug C T) = root_ref (plug C T')"
proof (induction C arbitrary: T T')
  case (Cons f C)
  then show ?case by (cases f; cases "C = []") auto
qed simp

lemma plug_Leaf_iff [simp]: "plug C T = Leaf \<longleftrightarrow> C = [] \<and> T = Leaf"
  by (induction C T rule: plug.induct) auto

section \<open>Stores that agree\<close>

lemma tree_in_cong: "(\<And>a. a \<in> addrs T \<Longrightarrow> h a = h' a) \<Longrightarrow> tree_in h p T = tree_in h' p T"
  by (induction h p T rule: tree_in.induct) auto

lemma ctx_in_cong: "(\<And>a. a \<in> around C \<Longrightarrow> h a = h' a) \<Longrightarrow> ctx_in h C q = ctx_in h' C q"
proof (induction h C q rule: ctx_in.induct)
  case (2 h a x r C q)
  then show ?case using tree_in_cong [of r h h'] by auto
next
  case (3 h l a x C q)
  then show ?case using tree_in_cong [of l h h'] by auto
qed simp

lemma tree_in_upd [simp]: "a \<notin> addrs T \<Longrightarrow> tree_in (h(a := v)) p T = tree_in h p T"
  by (rule tree_in_cong) auto

lemma ctx_in_upd [simp]: "a \<notin> around C \<Longrightarrow> ctx_in (h(a := v)) C q = ctx_in h C q"
  by (rule ctx_in_cong) auto

lemma tree_in_plug: "tree_in h None (plug C T) \<longleftrightarrow> ctx_in h C (root_ref T) \<and> tree_in h (up C) T"
proof (induction C T rule: plug.induct)
  case (2 n r C t)
  then show ?case by (cases n) (simp add: conj_ac)
next
  case (3 l n C t)
  then show ?case by (cases n) (simp add: conj_ac)
qed simp

text \<open>Moving a subtree below another parent only changes its root.\<close>

lemma tree_in_reparent:
  "tree_in h p (Node l (b, z) r) \<Longrightarrow> distinct_addrs (Node l (b, z) r) \<Longrightarrow>
   tree_in (h(b \<mapsto> \<lparr>bn_data = z, bn_left = root_ref l, bn_right = root_ref r, bn_parent = q\<rparr>)) q (Node l (b, z) r)"
  by simp

section \<open>Well-formed trees\<close>

text \<open>
  \<open>bt_shape t T\<close>: the root and the nodes of \<open>t\<close> form the shape \<open>T\<close>. \<open>bt_rep t T\<close>: moreover no other
  node is allocated, and the count is the number of nodes (of an empty tree it is never looked at).
\<close>

definition bt_shape :: "'a bintree \<Rightarrow> 'a shape \<Rightarrow> bool" where
  "bt_shape t T \<longleftrightarrow> bt_root t = root_ref T \<and> tree_in (bt_nodes t) None T \<and> distinct_addrs T"

definition bt_rep :: "'a bintree \<Rightarrow> 'a shape \<Rightarrow> bool" where
  "bt_rep t T \<longleftrightarrow> bt_shape t T \<and> dom (bt_nodes t) = addrs T \<and> (T \<noteq> Leaf \<longrightarrow> bt_count t = Val (size T))"

text \<open>A search tree over \<open>S\<close>: elements of \<open>S\<close>, strictly increasing in order.\<close>

definition search_tree :: "'a set \<Rightarrow> ('a \<Rightarrow> 'a \<Rightarrow> int) \<Rightarrow> 'a shape \<Rightarrow> bool" where
  "search_tree S cmp T \<longleftrightarrow> set (elems T) \<subseteq> S \<and> sorted_wrt (\<lambda>x y. cmp x y < 0) (elems T)"

lemma bt_deref_simps [simp]: "bt_deref h None = Inl Null_Deref" "h a = Some n \<Longrightarrow> bt_deref h (Some a) = Inr n"
  by (simp_all add: bt_deref_def)

lemma bt_modify_simps [simp]: "h a = Some n \<Longrightarrow> bt_modify h (Some a) f = Inr (h(a \<mapsto> f n))"
  by (simp add: bt_modify_def)

lemma read_cell_Val [simp]: "read_cell (Val x) = Inr x"
  by (simp add: read_cell_def)

lemma finite_addrs [simp]: "finite (addrs T)"
  by (simp add: addrs_def)

lemma bt_rep_root: "bt_rep t T \<Longrightarrow> bt_root t = root_ref T"
  by (simp add: bt_rep_def bt_shape_def)

section \<open>Searching and inserting\<close>

text \<open>Where the search for \<open>x\<close> ends: at an equal element, or at the empty place it belongs to.\<close>

fun locate :: "('a \<Rightarrow> 'a \<Rightarrow> int) \<Rightarrow> 'a \<Rightarrow> 'a frame list \<Rightarrow> 'a shape \<Rightarrow> 'a frame list \<times> 'a shape" where
  "locate cmp x C Leaf = (C, Leaf)"
| "locate cmp x C (Node l n r) =
     (if cmp x (snd n) < 0 then locate cmp x (InL n r # C) l
      else if 0 < cmp x (snd n) then locate cmp x (InR l n # C) r
      else (C, Node l n r))"

lemma locate_plug: "locate cmp x C T = (C', T') \<Longrightarrow> plug C' T' = plug C T"
  by (induction cmp x C T rule: locate.induct) (auto split: if_splits)

lemma locate_equal: "locate cmp x C T = (C', Node l n r) \<Longrightarrow> cmp x (snd n) = 0"
  by (induction cmp x C T rule: locate.induct) (auto split: if_splits)

lemma nodefind_body_node:
  "bt_nodes t a = Some nd \<Longrightarrow>
   nodefind_body t x (Some a) =
     Inr (if bt_cmpfn t x (bn_data nd) < 0 then Continue (bn_left nd)
          else if 0 < bt_cmpfn t x (bn_data nd) then Continue (bn_right nd) else Break (Some a))"
  by (simp add: nodefind_body_def)

lemma nodefind_loop:
  "tree_in (bt_nodes t) p T \<Longrightarrow>
   c_loop (nodefind_body t x) (root_ref T) = Inr (root_ref (snd (locate (bt_cmpfn t) x C T)))"
proof (induction T arbitrary: p C)
  case Leaf
  then show ?case by (simp add: c_loop_Break nodefind_body_def)
next
  case (Node l n r)
  obtain a y where n: "n = (a, y)" by fastforce
  from Node.prems n have "tree_in (bt_nodes t) (Some a) l" "tree_in (bt_nodes t) (Some a) r" by auto
  note IH = Node.IH(1) [OF this(1)] Node.IH(2) [OF this(2)]
  show ?case using Node.prems n IH by (subst c_loop_unfold) (auto simp: nodefind_body_node)
qed

text \<open>The child pointer of the parent, replaced.\<close>

fun relink :: "'a frame list \<Rightarrow> ref \<Rightarrow> 'a bt_store \<Rightarrow> 'a bt_store" where
  "relink [] q h = h"
| "relink (InL (a, x) r # C) q h =
     h(a \<mapsto> \<lparr>bn_data = x, bn_left = q, bn_right = root_ref r, bn_parent = up C\<rparr>)"
| "relink (InR l (a, x) # C) q h =
     h(a \<mapsto> \<lparr>bn_data = x, bn_left = root_ref l, bn_right = q, bn_parent = up C\<rparr>)"

lemma ctx_in_relink: "ctx_in h C p \<Longrightarrow> distinct_path C \<Longrightarrow> ctx_in (relink C q h) C q"
  by (cases "(C, q, h)" rule: relink.cases) auto

lemma relink_other: "b \<notin> around C \<Longrightarrow> relink C q h b = h b"
  by (cases "(C, q, h)" rule: relink.cases) auto

lemma dom_relink: "ctx_in h C p \<Longrightarrow> dom (relink C q h) = dom h"
  by (cases "(C, q, h)" rule: relink.cases) auto

lemma modify_up:
  "ctx_in h C p \<Longrightarrow> C \<noteq> [] \<Longrightarrow>
   bt_modify h (up C) (\<lambda>nd. if in_left C then nd\<lparr>bn_left := q\<rparr> else nd\<lparr>bn_right := q\<rparr>) = Inr (relink C q h)"
  by (cases "(C, q, h)" rule: relink.cases) auto

lemma set_link_ok:
  assumes "ctx_in (bt_nodes t) C p"
  shows "set_link t (up C) (in_left C) q =
    Inr (t\<lparr>bt_root := (if C = [] then q else bt_root t), bt_nodes := relink C q (bt_nodes t)\<rparr>)"
  using modify_up [OF assms, of q] by (cases "C = []") (simp_all add: set_link_def)

lemma add_leaf_ok:
  assumes "ctx_in (bt_nodes t) C p" and "C \<noteq> []" and "new (dom (bt_nodes t)) = Some a" and "bt_count t = Val c"
  shows "add_leaf new t (up C) (in_left C) x =
    Inr (Some a, t\<lparr>bt_nodes := (relink C (Some a) (bt_nodes t))
      (a \<mapsto> \<lparr>bn_data = x, bn_left = None, bn_right = None, bn_parent = up C\<rparr>), bt_count := Val (sz_add c 1)\<rparr>)"
  using modify_up [OF assms(1,2), of "Some a"] assms(3,4) by (simp add: add_leaf_def)

lemma binsert_body_node:
  "bt_nodes t a = Some nd \<Longrightarrow>
   binsert_body new t x (Some a) =
     (if bt_cmpfn t x (bn_data nd) < 0 then
        if bn_left nd \<noteq> None then Inr (Continue (bn_left nd))
        else bind_res (add_leaf new t (Some a) True x) (\<lambda>r. Inr (Break r))
      else if 0 < bt_cmpfn t x (bn_data nd) then
        if bn_right nd \<noteq> None then Inr (Continue (bn_right nd))
        else bind_res (add_leaf new t (Some a) False x) (\<lambda>r. Inr (Break r))
      else Inr (Break (Some a, t)))"
  by (simp add: binsert_body_def Let_def)

lemma leave_loop:
  "(case bind_res m (\<lambda>x. Inr (Break x)) of Inl e \<Rightarrow> Inl e | Inr (Continue s) \<Rightarrow> f s | Inr (Break r) \<Rightarrow> Inr r) = m"
  by (cases m) auto

lemma binsert_loop:
  "tree_in (bt_nodes t) (up C) T \<Longrightarrow> T \<noteq> Leaf \<Longrightarrow> locate (bt_cmpfn t) x C T = (C', T') \<Longrightarrow>
   c_loop (binsert_body new t x) (root_ref T) =
     (if T' = Leaf then add_leaf new t (up C') (in_left C') x else Inr (root_ref T', t))"
proof (induction T arbitrary: C)
  case (Node l n r)
  obtain a y where n: "n = (a, y)" by fastforce
  from Node.prems(1) n have sub: "tree_in (bt_nodes t) (up (InL n r # C)) l" "tree_in (bt_nodes t) (up (InR l n # C)) r"
    and h: "bt_nodes t a = Some \<lparr>bn_data = y, bn_left = root_ref l, bn_right = root_ref r, bn_parent = up C\<rparr>"
    by auto
  consider "bt_cmpfn t x y < 0" | "0 < bt_cmpfn t x y" | "bt_cmpfn t x y = 0" by linarith
  then show ?case
  proof cases
    case 1
    show ?thesis
    proof (cases "l = Leaf")
      case True
      with 1 Node.prems(3) n have "C' = InL n r # C" "T' = Leaf" by auto
      with 1 True n h show ?thesis
        by (subst c_loop_unfold) (simp add: binsert_body_node leave_loop cong del: bind_res_weak_cong)
    next
      case False
      with Node.IH(1) [OF sub(1)] Node.prems(3) 1 n h show ?thesis
        by (subst c_loop_unfold) (simp add: binsert_body_node)
    qed
  next
    case 2
    show ?thesis
    proof (cases "r = Leaf")
      case True
      with 2 Node.prems(3) n have "C' = InR l n # C" "T' = Leaf" by auto
      with 2 True n h show ?thesis
        by (subst c_loop_unfold) (simp add: binsert_body_node leave_loop cong del: bind_res_weak_cong)
    next
      case False
      with Node.IH(2) [OF sub(2)] Node.prems(3) 2 n h show ?thesis
        by (subst c_loop_unfold) (simp add: binsert_body_node)
    qed
  next
    case 3
    with Node.prems(3) n h show ?thesis by (subst c_loop_unfold) (auto simp: binsert_body_node)
  qed
qed simp

text \<open>Insertion on shapes.\<close>

definition tree_insert :: "('a \<Rightarrow> 'a \<Rightarrow> int) \<Rightarrow> nat \<Rightarrow> 'a \<Rightarrow> 'a shape \<Rightarrow> 'a shape" where
  "tree_insert cmp a x T =
     (case locate cmp x [] T of
        (C, Leaf) \<Rightarrow> plug C (Node Leaf (a, x) Leaf)
      | (C, Node l n r) \<Rightarrow> plug C (Node l (fst n, x) r))"

lemma bintree_insert_ok:
  assumes rep: "bt_rep t T" and a: "new (addrs T) = Some a" "a \<notin> addrs T" and sz: "Suc (size T) < size_max"
  shows "\<exists>t'. bintree_insert new (Some t) (Some x) = Inr (True, Some t') \<and> bt_cmpfn t' = bt_cmpfn t \<and>
    bt_rep t' (tree_insert (bt_cmpfn t) a x T)"
proof (cases "T = Leaf")
  case True
  with rep a show ?thesis
    by (auto simp: bintree_insert_def bt_rep_def bt_shape_def tree_insert_def)
next
  case False
  obtain C T' where loc: "locate (bt_cmpfn t) x [] T = (C, T')" by fastforce
  have T: "T = plug C T'" using locate_plug [OF loc] by simp
  have root: "bt_root t = root_ref T" "bt_root t \<noteq> None" and tree: "tree_in (bt_nodes t) (up []) T"
    and dom: "dom (bt_nodes t) = addrs T" and c: "bt_count t = Val (size T)" and d: "distinct_addrs T"
    using rep False by (auto simp: bt_rep_def bt_shape_def)
  note loop = binsert_loop [OF tree False loc, of new]
  have ctx: "ctx_in (bt_nodes t) C (root_ref T')" "tree_in (bt_nodes t) (up C) T'"
    using tree T by (simp_all add: tree_in_plug)
  show ?thesis
  proof (cases T')
    case Leaf
    with T False have C: "C \<noteq> []" by auto
    have dp: "distinct_path C" and ac: "a \<notin> around C"
      using d a(2) T Leaf by (simp_all add: distinct_plug addrs_plug)
    let ?h = "(relink C (Some a) (bt_nodes t))
      (a \<mapsto> \<lparr>bn_data = x, bn_left = None, bn_right = None, bn_parent = up C\<rparr>)"
    let ?t = "t\<lparr>bt_nodes := ?h, bt_count := Val (sz_add (size T) 1)\<rparr>"
    have "c_loop (binsert_body new t x) (bt_root t) = Inr (Some a, ?t)"
      using loop add_leaf_ok [OF ctx(1) C, of new a "size T" x] Leaf a(1) dom root(1) c by simp
    then have "bintree_insert new (Some t) (Some x) = Inr (True, Some ?t)"
      using root(2) by (auto simp: bintree_insert_def)
    moreover have "bt_shape ?t (plug C (Node Leaf (a, x) Leaf))"
      using root(1) T Leaf ctx_in_relink [OF ctx(1) dp, of "Some a"] ac dp root_ref_plug [OF C]
      by (simp add: bt_shape_def tree_in_plug distinct_plug)
    moreover have "dom ?h = insert a (addrs T)" using dom_relink [OF ctx(1)] dom by simp
    ultimately show ?thesis
      using loc Leaf T sz by (auto simp: bt_rep_def tree_insert_def addrs_plug size_plug sz_simps)
  next
    case (Node l n r)
    obtain b y where n: "n = (b, y)" by fastforce
    have h: "bt_nodes t b = Some \<lparr>bn_data = y, bn_left = root_ref l, bn_right = root_ref r, bn_parent = up C\<rparr>"
      using ctx(2) Node n by simp
    let ?h = "(bt_nodes t)(b \<mapsto> \<lparr>bn_data = x, bn_left = root_ref l, bn_right = root_ref r, bn_parent = up C\<rparr>)"
    have "bintree_insert new (Some t) (Some x) = Inr (True, Some (t\<lparr>bt_nodes := ?h\<rparr>))"
      using loop Node n h root by (simp add: bintree_insert_def)
    moreover have "bt_shape (t\<lparr>bt_nodes := ?h\<rparr>) (plug C (Node l (b, x) r))"
    proof -
      have "root_ref (plug C (Node l (b, x) r)) = root_ref T"
        using root_ref_plug [of C "Node l (b, x) r" T'] T Node n by (cases "C = []") auto
      with root(1) ctx d T Node n show ?thesis
        by (auto simp: bt_shape_def tree_in_plug distinct_plug)
    qed
    moreover have "dom ?h = addrs T" using dom h by auto
    ultimately show ?thesis
      using loc Node n T c by (auto simp: bt_rep_def tree_insert_def addrs_plug size_plug)
  qed
qed

section \<open>Removing\<close>

lemma plug_append: "plug (C @ D) T = plug D (plug C T)"
  by (induction C T rule: plug.induct) auto

text \<open>Which link of the parent leads to a position.\<close>

lemma parent_side:
  assumes "ctx_in h C (Some b)" and "b \<notin> around C" and "up C = Some p"
  shows "\<exists>pn. h p = Some pn \<and> (bn_left pn = Some b \<longleftrightarrow> in_left C) \<and> (\<not> in_left C \<longrightarrow> bn_right pn = Some b)"
  using assms root_ref_addrs by (cases "(h, C, Some b)" rule: ctx_in.cases) fastforce+

lemma set_data_shape:
  assumes "bt_shape t (plug C (Node l (a, y) r))"
  shows "\<exists>nd. bt_nodes t a = Some nd \<and> bn_data nd = y \<and>
    bt_shape (t\<lparr>bt_nodes := (bt_nodes t)(a \<mapsto> nd\<lparr>bn_data := z\<rparr>)\<rparr>) (plug C (Node l (a, z) r))"
proof -
  have "root_ref (plug C (Node l (a, z) r)) = root_ref (plug C (Node l (a, y) r))"
    using root_ref_plug [of C "Node l (a, z) r" "Node l (a, y) r"] by (cases "C = []") auto
  with assms show ?thesis by (auto simp: bt_shape_def tree_in_plug distinct_plug)
qed

text \<open>A position whose subtree is replaced by one of its children, the other being empty.\<close>

lemma unlink_node:
  assumes shape: "bt_shape t (plug C (Node l (a, y) r))" and only: "l = Leaf \<or> r = Leaf"
  defines "S \<equiv> if l = Leaf then r else l"
  shows "\<exists>t1. bind_res (set_link t (up C) (in_left C) (root_ref S)) (\<lambda>t1.
      if S = Leaf then Inr t1
      else bind_res (bt_modify (bt_nodes t1) (root_ref S) (\<lambda>c. c\<lparr>bn_parent := up C\<rparr>)) (\<lambda>h.
        Inr (t1\<lparr>bt_nodes := h\<rparr>))) = Inr t1 \<and>
    bt_shape t1 (plug C S) \<and> dom (bt_nodes t1) = dom (bt_nodes t) \<and> bt_count t1 = bt_count t \<and>
    bt_cmpfn t1 = bt_cmpfn t"
proof -
  have ctx: "ctx_in (bt_nodes t) C (Some a)" and sub: "tree_in (bt_nodes t) (Some a) S" and dp: "distinct_path C"
    and dS: "distinct_addrs S" "around C \<inter> addrs S = {}"
    and root: "bt_root t = root_ref (plug C (Node l (a, y) r))"
    using shape by (auto simp: bt_shape_def tree_in_plug distinct_plug S_def)
  let ?h = "relink C (root_ref S) (bt_nodes t)"
  let ?t = "t\<lparr>bt_root := (if C = [] then root_ref S else bt_root t), bt_nodes := ?h\<rparr>"
  have link: "set_link t (up C) (in_left C) (root_ref S) = Inr ?t" by (rule set_link_ok [OF ctx])
  have root': "bt_root ?t = root_ref (plug C S)"
    using root root_ref_plug [of C S "Node l (a, y) r"] by auto
  have ctx': "ctx_in ?h C (root_ref S)" by (rule ctx_in_relink [OF ctx dp])
  have sub': "tree_in ?h (Some a) S"
    using sub dS(2) by (subst tree_in_cong [of S ?h "bt_nodes t"]) (auto intro!: relink_other)
  show ?thesis
  proof (cases S)
    case Leaf
    with link root' ctx' dp dom_relink [OF ctx] show ?thesis
      by (auto simp: bt_shape_def tree_in_plug distinct_plug)
  next
    case (Node l2 n2 r2)
    obtain b w where n2: "n2 = (b, w)" by fastforce
    let ?nd = "\<lparr>bn_data = w, bn_left = root_ref l2, bn_right = root_ref r2, bn_parent = up C\<rparr>"
    have b: "?h b = Some (?nd\<lparr>bn_parent := Some a\<rparr>)" using sub' Node n2 by simp
    then have "b \<in> dom (bt_nodes t)" using dom_relink [OF ctx] by blast
    moreover have "tree_in (?h(b \<mapsto> ?nd)) (up C) S"
      unfolding Node n2 by (rule tree_in_reparent [of _ "Some a"]) (use sub' dS Node n2 in auto)
    moreover have "ctx_in (?h(b \<mapsto> ?nd)) C (root_ref S)" using ctx' dS Node n2 by auto
    ultimately show ?thesis
      using link root' b dp dS dom_relink [OF ctx] Node n2
      by (auto simp: bt_shape_def tree_in_plug distinct_plug)
  qed
qed

text \<open>The rightmost node of a subtree: the path to it, its left subtree and the node.\<close>

fun max_path :: "'a frame list \<Rightarrow> 'a shape \<Rightarrow> 'a frame list \<times> 'a shape \<times> (nat \<times> 'a)" where
  "max_path C Leaf = (C, Leaf, undefined)"
| "max_path C (Node l n r) = (if r = Leaf then (C, l, n) else max_path (InR l n # C) r)"

lemma max_path_plug: "max_path C T = (C', l, n) \<Longrightarrow> T \<noteq> Leaf \<Longrightarrow> plug C' (Node l n Leaf) = plug C T"
  by (induction C T rule: max_path.induct) (auto split: if_splits)

lemma max_loop:
  "tree_in h p T \<Longrightarrow> T \<noteq> Leaf \<Longrightarrow> max_path C T = (C', l, n) \<Longrightarrow> c_loop (max_body h) (root_ref T) = Inr (Some (fst n))"
proof (induction T arbitrary: p C)
  case (Node l1 n1 r1)
  obtain a x where "n1 = (a, x)" by fastforce
  with Node.prems have sub: "tree_in h (Some a) r1" and b: "max_body h (root_ref (Node l1 n1 r1)) =
      Inr (if r1 \<noteq> Leaf then Continue (root_ref r1) else Break (Some (fst n1)))"
    by (auto simp: max_body_def)
  show ?case using b Node.IH(2) [OF sub] Node.prems(3)
    by (subst c_loop_unfold) (auto split: if_splits)
qed simp

lemma remove_inner_ok:
  assumes shape: "bt_shape t (plug C (Node l (a, y) r))" and l: "l \<noteq> Leaf" and mx: "max_path [] l = (D, ml, (b, z))"
  shows "\<exists>t1. remove_inner t (Some a) = Inr (Some b, t1) \<and> bt_shape t1 (plug C (Node (plug D Leaf) (a, z) r)) \<and>
    dom (bt_nodes t1) = dom (bt_nodes t) \<and> bt_count t1 = bt_count t \<and> bt_cmpfn t1 = bt_cmpfn t"
proof -
  have lD: "plug D (Node ml (b, z) Leaf) = l" using max_path_plug [OF mx l] by simp
  have a: "bt_nodes t a = Some \<lparr>bn_data = y, bn_left = root_ref l, bn_right = root_ref r, bn_parent = up C\<rparr>"
    and tl: "tree_in (bt_nodes t) (Some a) l"
    using shape by (auto simp: bt_shape_def tree_in_plug)
  note max = max_loop [OF tl l mx, simplified]
  let ?D1 = "D @ InL (a, y) r # C" and ?D2 = "D @ InL (a, z) r # C"
  have T: "plug C (Node l (a, y) r) = plug ?D1 (Node ml (b, z) Leaf)" by (simp add: plug_append lD)
  obtain mn where mn: "bt_nodes t b = Some mn" "bn_data mn = z"
    "bt_shape (t\<lparr>bt_nodes := (bt_nodes t)(b \<mapsto> mn\<lparr>bn_data := y\<rparr>)\<rparr>) (plug ?D1 (Node ml (b, y) Leaf))"
    using set_data_shape [of t ?D1 ml b z Leaf y] shape unfolding T by blast
  let ?h1 = "(bt_nodes t)(b \<mapsto> mn\<lparr>bn_data := y\<rparr>)" and ?m = "Node ml (b, y) Leaf"
  have "bt_shape (t\<lparr>bt_nodes := ?h1\<rparr>) (plug C (Node (plug D ?m) (a, y) r))"
    using mn(3) by (simp add: plug_append)
  from set_data_shape [OF this, of z] obtain an where an: "?h1 a = Some an"
    "bt_shape (t\<lparr>bt_nodes := ?h1(a \<mapsto> an\<lparr>bn_data := z\<rparr>)\<rparr>) (plug ?D2 ?m)"
    by (auto simp: plug_append)
  define t2 where "t2 = t\<lparr>bt_nodes := ?h1(a \<mapsto> an\<lparr>bn_data := z\<rparr>)\<rparr>"
  have shape2: "bt_shape t2 (plug ?D2 ?m)" using an(2) by (simp add: t2_def)
  have ctx: "ctx_in (bt_nodes t2) ?D2 (Some b)" and dp: "distinct_path ?D2" and b: "b \<notin> around ?D2"
    and up_b: "bn_parent mn = up ?D2"
    using shape2 mn(1) shape unfolding T by (auto simp: bt_shape_def tree_in_plug distinct_plug t2_def)
      (cases D rule: up.cases; simp)+
  obtain p where p: "up ?D2 = Some p" by (cases "up ?D2") auto
  obtain pn where pn: "bt_nodes t2 p = Some pn" "bn_left pn = Some b \<longleftrightarrow> in_left ?D2"
    "\<not> in_left ?D2 \<longrightarrow> bn_right pn = Some b"
    using parent_side [OF ctx b p] by blast
  let ?t3 = "t2\<lparr>bt_nodes := relink ?D2 None (bt_nodes t2)\<rparr>"
  have link: "set_link t2 (up ?D2) (in_left ?D2) None = Inr ?t3" using set_link_ok [OF ctx, of None] by simp
  have "remove_inner t (Some a) = Inr (Some b, ?t3)"
  proof -
    have n2: "?h1(a \<mapsto> an\<lparr>bn_data := z\<rparr>) = bt_nodes t2" and t2: "t\<lparr>bt_nodes := bt_nodes t2\<rparr> = t2"
      by (simp_all add: t2_def)
    have "bt_modify ?h1 (Some a) (\<lambda>x. x\<lparr>bn_data := z\<rparr>) = Inr (bt_nodes t2)"
      unfolding n2 [symmetric] using an(1) by (rule bt_modify_simps)
    then show ?thesis using a mn(1,2) max pn p link up_b
      by (cases "in_left ?D2") (simp_all add: remove_inner_def t2 Let_def)
  qed
  moreover have "bt_shape ?t3 (plug ?D2 Leaf)"
    using shape2 ctx_in_relink [OF ctx dp, of None] dp root_ref_plug [of ?D2 Leaf ?m]
    by (auto simp: bt_shape_def tree_in_plug distinct_plug)
  moreover have "dom (bt_nodes ?t3) = dom (bt_nodes t)"
    using dom_relink [OF ctx] mn(1) an(1) a by (auto simp: t2_def)
  ultimately show ?thesis by (auto simp: plug_append t2_def)
qed

text \<open>
  What takes the place of a removed node, and what is lost with it: when the node has two children,
  the left subtree of the node that is unlinked in its stead.
\<close>

definition unlinked :: "'a shape \<Rightarrow> nat \<times> 'a \<Rightarrow> 'a shape \<Rightarrow> 'a shape \<times> 'a shape" where
  "unlinked l n r =
     (if l = Leaf then (r, Leaf) else if r = Leaf then (l, Leaf)
      else case max_path [] l of (D, ml, m) \<Rightarrow> (Node (plug D Leaf) (fst n, snd m) r, ml))"

lemma card_addrs: "distinct_addrs T \<Longrightarrow> card (addrs T) = size T"
  using distinct_card [of "map fst (inorder T)"] by (simp add: distinct_addrs_def addrs_def)

lemma bintree_remove_ok:
  assumes rep: "bt_rep t T" and sz: "size T < size_max" and loc: "locate (bt_cmpfn t) x [] T = (C, Node l n r)"
    and S: "unlinked l n r = (S', lost)"
  shows "\<exists>t'. bintree_remove (Some t) x = Inr (True, Some t') \<and> bt_shape t' (plug C S') \<and>
    bt_count t' = Val (size T - 1) \<and> bt_cmpfn t' = bt_cmpfn t \<and>
    dom (bt_nodes t') = addrs (plug C S') \<union> addrs lost \<and> card (dom (bt_nodes t')) = size T - 1"
proof -
  obtain a y where n: "n = (a, y)" by fastforce
  have T: "T = plug C (Node l (a, y) r)" using locate_plug [OF loc] n by simp
  have shape: "bt_shape t (plug C (Node l (a, y) r))" and c: "bt_count t = Val (size T)"
    and dom: "dom (bt_nodes t) = addrs T"
    using rep T by (auto simp: bt_rep_def)
  have ctx: "ctx_in (bt_nodes t) C (Some a)" and ac: "a \<notin> around C"
    and a: "bt_nodes t a = Some \<lparr>bn_data = y, bn_left = root_ref l, bn_right = root_ref r, bn_parent = up C\<rparr>"
    and dT: "distinct_addrs T"
    using shape T by (auto simp: bt_shape_def tree_in_plug distinct_plug)
  have find: "bintree_nodefind (Some t) x = Inr (Some a)"
    using nodefind_loop [of t None T x "[]"] loc n shape T by (simp add: bintree_nodefind_def bt_shape_def)
  have side: "(if up C = None then Inr False
     else bind_res (bt_deref (bt_nodes t) (up C)) (\<lambda>pn. Inr (bn_left pn = Some a))) = Inr (in_left C)"
    using parent_side [OF ctx ac] by (cases "up C") auto
  obtain gone t1 where t1: "(if l = Leaf \<or> r = Leaf
      then bind_res (bind_res (set_link t (up C) (in_left C) (root_ref (if l = Leaf then r else l))) (\<lambda>t1.
             if (if l = Leaf then r else l) = Leaf then Inr t1
             else bind_res (bt_modify (bt_nodes t1) (root_ref (if l = Leaf then r else l)) (\<lambda>c. c\<lparr>bn_parent := up C\<rparr>))
               (\<lambda>h. Inr (t1\<lparr>bt_nodes := h\<rparr>)))) (\<lambda>t1. Inr (Some a, t1))
      else remove_inner t (Some a)) = Inr (Some gone, t1)"
    and shape1: "bt_shape t1 (plug C S')" "dom (bt_nodes t1) = dom (bt_nodes t)" "bt_count t1 = bt_count t"
      "bt_cmpfn t1 = bt_cmpfn t"
    and gone: "addrs T = insert gone (addrs (plug C S') \<union> addrs lost)" "gone \<notin> addrs (plug C S') \<union> addrs lost"
  proof (cases "l = Leaf \<or> r = Leaf")
    case True
    then have S': "S' = (if l = Leaf then r else l)" "lost = Leaf" using S by (auto simp: unlinked_def split: if_splits)
    from unlink_node [OF shape True] obtain t1 where "bind_res (set_link t (up C) (in_left C) (root_ref S')) (\<lambda>t1.
        if S' = Leaf then Inr t1
        else bind_res (bt_modify (bt_nodes t1) (root_ref S') (\<lambda>c. c\<lparr>bn_parent := up C\<rparr>)) (\<lambda>h.
          Inr (t1\<lparr>bt_nodes := h\<rparr>))) = Inr t1"
      "bt_shape t1 (plug C S')" "dom (bt_nodes t1) = dom (bt_nodes t)" "bt_count t1 = bt_count t" "bt_cmpfn t1 = bt_cmpfn t"
      unfolding S'(1) by blast
    moreover have "addrs T = insert a (addrs (plug C S') \<union> addrs lost)" "a \<notin> addrs (plug C S') \<union> addrs lost"
      using dT True S' by (auto simp: T addrs_plug distinct_plug)
    moreover have R: "(if l = Leaf then r else l) = S'" using S'(1) by simp
    ultimately show thesis using True by (intro that [of a t1]) (simp_all only: R if_True bind_res_Inr not_False_eq_True)
  next
    case False
    obtain D ml b z where mx: "max_path [] l = (D, ml, (b, z))" by (metis prod_cases3 surj_pair)
    have S': "S' = Node (plug D Leaf) (a, z) r" "lost = ml"
      using S False mx n by (auto simp: unlinked_def)
    have lD: "l = plug D (Node ml (b, z) Leaf)" using max_path_plug [OF mx] False by simp
    obtain t1 where "remove_inner t (Some a) = Inr (Some b, t1)" "bt_shape t1 (plug C S')"
      "dom (bt_nodes t1) = dom (bt_nodes t)" "bt_count t1 = bt_count t" "bt_cmpfn t1 = bt_cmpfn t"
      using remove_inner_ok [OF shape _ mx] False S'(1) by blast
    moreover have "addrs T = insert b (addrs (plug C S') \<union> addrs lost)" "b \<notin> addrs (plug C S') \<union> addrs lost"
      using dT S' by (auto simp: T lD addrs_plug distinct_plug)
    ultimately show thesis using False that [of b t1] by simp
  qed
  let ?t = "t1\<lparr>bt_nodes := (bt_nodes t1)(gone := None), bt_count := Val (size T - 1)\<rparr>"
  have "gone \<in> dom (bt_nodes t1)" using gone(1) shape1(2) dom by simp
  then obtain g where g: "bt_nodes t1 gone = Some g" by blast
  have "1 \<le> size T" using T by (simp add: size_plug)
  with sz have cnt: "sz_sub (size T) 1 = size T - 1" by (simp add: sz_simps)
  have surgery: "(if root_ref r = None \<and> root_ref l = None then
        bind_res (set_link t (up C) (in_left C) None) (\<lambda>t1. Inr (Some a, t1))
      else if root_ref l = None \<or> root_ref r = None then
        let child = (if root_ref l = None then root_ref r else root_ref l) in
        bind_res (set_link t (up C) (in_left C) child) (\<lambda>t1.
        bind_res (bt_modify (bt_nodes t1) child (\<lambda>c. c\<lparr>bn_parent := up C\<rparr>)) (\<lambda>h.
        Inr (Some a, t1\<lparr>bt_nodes := h\<rparr>)))
      else remove_inner t (Some a)) = Inr (Some gone, t1)"
    using t1 by (cases "l = Leaf"; cases "r = Leaf")
      (simp_all add: Let_def bind_res_assoc cong del: bind_res_weak_cong)
  have "bintree_remove (Some t) x =
      (case (Some gone, t1) of (gone, t1) \<Rightarrow>
         bind_res (bt_deref (bt_nodes t1) gone) (\<lambda>_.
         bind_res (read_cell (bt_count t1)) (\<lambda>c.
         Inr (True, Some (t1\<lparr>bt_nodes := (bt_nodes t1)(the gone := None), bt_count := Val (sz_sub c 1)\<rparr>)))))"
    unfolding bintree_remove_def
    by (simp only: option.case find bind_res_Inr option.distinct if_False bt_deref_simps(2) [where h = "bt_nodes t", OF a]
        bt_node.simps side surgery)
  then have "bintree_remove (Some t) x = Inr (True, Some ?t)" using shape1(3) c g cnt by simp
  moreover have "bt_shape ?t (plug C S')" using shape1(1) gone(2) by (simp add: bt_shape_def)
  moreover have "dom (bt_nodes ?t) = addrs (plug C S') \<union> addrs lost" using shape1(2) dom gone by auto
  moreover have "card (dom (bt_nodes ?t)) = size T - 1"
    using shape1(2) dom gone card_addrs [OF dT] by (auto simp: card_insert_if)
  ultimately show ?thesis using shape1(4) by (intro exI [of _ ?t]) simp
qed

lemma max_path_elems: "max_path C T = (C', l, n) \<Longrightarrow> T \<noteq> Leaf \<Longrightarrow>
   after C' = after C \<and> before C @ inorder T = before C' @ inorder l @ [n]"
  by (induction C T rule: max_path.induct) (auto split: if_splits)

lemma unlinked_elems:
  "unlinked l n r = (S', lost) \<Longrightarrow>
   \<exists>us vs. elems l @ elems r = us @ elems lost @ vs \<and> elems S' = us @ vs"
proof (cases "l = Leaf \<or> r = Leaf")
  case True
  assume "unlinked l n r = (S', lost)"
  with True have "elems l @ elems r = [] @ elems lost @ (elems l @ elems r) \<and> elems S' = [] @ (elems l @ elems r)"
    by (auto simp: unlinked_def split: if_splits)
  then show ?thesis by blast
next
  case False
  assume S: "unlinked l n r = (S', lost)"
  obtain D ml m where mx: "max_path [] l = (D, ml, m)" by (metis prod_cases3)
  from max_path_elems [OF mx] False have "after D = []" "inorder l = before D @ inorder ml @ [m]" by auto
  with S False mx have "elems l @ elems r = map snd (before D) @ elems lost @ (snd m # elems r) \<and>
      elems S' = map snd (before D) @ (snd m # elems r)"
    by (auto simp: unlinked_def inorder_plug elems_def)
  then show ?thesis by blast
qed

section \<open>Search trees\<close>

definition ord_insert :: "('a \<Rightarrow> 'a \<Rightarrow> int) \<Rightarrow> 'a \<Rightarrow> 'a list \<Rightarrow> 'a list" where
  "ord_insert cmp x xs = [y \<leftarrow> xs. cmp y x < 0] @ x # [y \<leftarrow> xs. cmp x y < 0]"

definition at_place :: "('a \<Rightarrow> 'a \<Rightarrow> int) \<Rightarrow> 'a \<Rightarrow> 'a frame list \<Rightarrow> bool" where
  "at_place cmp x C \<longleftrightarrow>
     (\<forall>y \<in> set (map snd (before C)). cmp y x < 0) \<and> (\<forall>y \<in> set (map snd (after C)). cmp x y < 0)"

lemma find_append: "List.find P (xs @ ys) = (case List.find P xs of None \<Rightarrow> List.find P ys | Some x \<Rightarrow> Some x)"
  by (induction xs) auto

lemma bst_plug: "search_tree S cmp (plug C T) \<Longrightarrow> search_tree S cmp T"
  by (auto simp: search_tree_def elems_plug sorted_wrt_append)

lemma bst_elems: "search_tree S cmp T \<Longrightarrow> elems T' = elems T \<Longrightarrow> search_tree S cmp T'"
  by (simp add: search_tree_def)

lemma sorted_wrt_drop_middle: "sorted_wrt R (us @ ls @ vs) \<Longrightarrow> sorted_wrt R (us @ vs)"
  by (auto simp: sorted_wrt_append)

context cmp_order begin

lemma locate_place:
  "search_tree S cmp (plug C T) \<Longrightarrow> x \<in> S \<Longrightarrow> at_place cmp x C \<Longrightarrow> locate cmp x C T = (C', T') \<Longrightarrow> at_place cmp x C'"
proof (induction T arbitrary: C)
  case (Node l n r)
  have T: "search_tree S cmp (Node l n r)" using Node.prems(1) by (rule bst_plug)
  then have y: "snd n \<in> S" "set (elems l) \<subseteq> S" "set (elems r) \<subseteq> S"
    and sorted: "\<forall>z \<in> set (elems l). cmp z (snd n) < 0" "\<forall>z \<in> set (elems r). cmp (snd n) z < 0"
    by (auto simp: search_tree_def sorted_wrt_append)
  consider "cmp x (snd n) < 0" | "0 < cmp x (snd n)" | "cmp x (snd n) = 0" by linarith
  then show ?case
  proof cases
    case 1
    have "\<forall>z \<in> set (elems r). cmp x z < 0"
      using 1 sorted(2) y Node.prems(2) cmp_less_trans2 [of x "snd n"] by fastforce
    with 1 Node.prems(3) have "at_place cmp x (InL n r # C)" by (auto simp: at_place_def elems_def)
    with Node.IH(1) [of "InL n r # C"] Node.prems 1 show ?thesis by simp
  next
    case 2
    have "cmp (snd n) x < 0" using 2 cmp_flip [OF Node.prems(2) y(1)] by simp
    then have "\<forall>z \<in> set (elems l). cmp z x < 0" "cmp (snd n) x < 0"
      using sorted(1) y Node.prems(2) cmp_less_trans [of _ "snd n" x] by fastforce+
    with 2 Node.prems(3) have "at_place cmp x (InR l n # C)" by (auto simp: at_place_def elems_def)
    with Node.IH(2) [of "InR l n # C"] Node.prems 2 show ?thesis by simp
  next
    case 3
    with Node.prems show ?thesis by simp
  qed
qed simp

text \<open>Everything the search passes on the left is less, everything on the right is greater.\<close>

lemma locate_bst:
  assumes bst: "search_tree S cmp T" and x: "x \<in> S" and loc: "locate cmp x [] T = (C, T')"
  shows "\<forall>y \<in> set (map snd (before C)). cmp y x < 0 \<and> \<not> cmp x y < 0 \<and> cmp x y \<noteq> 0"
    and "\<forall>y \<in> set (map snd (after C)). cmp x y < 0 \<and> \<not> cmp y x < 0 \<and> cmp x y \<noteq> 0"
    and "elems T = map snd (before C) @ elems T' @ map snd (after C)"
proof -
  have T: "plug C T' = T" using locate_plug [OF loc] by simp
  show E: "elems T = map snd (before C) @ elems T' @ map snd (after C)" by (simp add: T [symmetric] elems_plug)
  then have sub: "set (map snd (before C)) \<subseteq> S" "set (map snd (after C)) \<subseteq> S" using bst by (auto simp: search_tree_def)
  have "at_place cmp x C" by (rule locate_place [of "[]" T]) (use assms in \<open>auto simp: at_place_def\<close>)
  then have *: "\<forall>y \<in> set (map snd (before C)). cmp y x < 0" "\<forall>y \<in> set (map snd (after C)). cmp x y < 0"
    by (simp_all add: at_place_def)
  have flip: "cmp y x < 0 \<longleftrightarrow> 0 < cmp x y" if "y \<in> S" for y using cmp_flip [OF x that] .
  show "\<forall>y \<in> set (map snd (before C)). cmp y x < 0 \<and> \<not> cmp x y < 0 \<and> cmp x y \<noteq> 0"
    using *(1) sub(1) flip by fastforce
  show "\<forall>y \<in> set (map snd (after C)). cmp x y < 0 \<and> \<not> cmp y x < 0 \<and> cmp x y \<noteq> 0"
    using *(2) sub(2) flip by fastforce
qed

text \<open>The same with the subtrees of an equal element counted to the two sides.\<close>

fun lower :: "'a frame list \<Rightarrow> 'a shape \<Rightarrow> 'a list" where
  "lower C Leaf = map snd (before C)"
| "lower C (Node l n r) = map snd (before C) @ elems l"

fun upper :: "'a frame list \<Rightarrow> 'a shape \<Rightarrow> 'a list" where
  "upper C Leaf = map snd (after C)"
| "upper C (Node l n r) = elems r @ map snd (after C)"

fun hit :: "'a shape \<Rightarrow> 'a list" where
  "hit Leaf = []"
| "hit (Node l n r) = [snd n]"

lemma locate_split:
  assumes st: "search_tree S cmp T" and x: "x \<in> S" and loc: "locate cmp x [] T = (C, T')"
  shows "elems T = lower C T' @ hit T' @ upper C T'"
    and "\<forall>y \<in> set (lower C T'). cmp y x < 0 \<and> \<not> cmp x y < 0 \<and> cmp x y \<noteq> 0"
    and "\<forall>y \<in> set (upper C T'). cmp x y < 0 \<and> \<not> cmp y x < 0 \<and> cmp x y \<noteq> 0"
    and "\<forall>y \<in> set (hit T'). cmp x y = 0 \<and> cmp y x = 0"
proof -
  note L = locate_bst [OF st x loc]
  show "elems T = lower C T' @ hit T' @ upper C T'" using L(3) by (cases T') auto
  have "(\<forall>y \<in> set (lower C T'). cmp y x < 0 \<and> \<not> cmp x y < 0 \<and> cmp x y \<noteq> 0) \<and>
    (\<forall>y \<in> set (upper C T'). cmp x y < 0 \<and> \<not> cmp y x < 0 \<and> cmp x y \<noteq> 0) \<and>
    (\<forall>y \<in> set (hit T'). cmp x y = 0 \<and> cmp y x = 0)"
  proof (cases T')
    case (Node l n r)
    have "search_tree S cmp T'" using bst_plug [of S cmp C T'] st locate_plug [OF loc] by simp
    then have y: "snd n \<in> S" "set (elems l) \<subseteq> S" "set (elems r) \<subseteq> S"
      and s: "\<forall>z \<in> set (elems l). cmp z (snd n) < 0" "\<forall>z \<in> set (elems r). cmp (snd n) z < 0"
      by (auto simp: search_tree_def Node sorted_wrt_append)
    have eq: "cmp x (snd n) = 0" using locate_equal loc Node by metis
    then have eq': "cmp (snd n) x = 0" using cmp_eq_flip [OF x y(1)] by simp
    have l: "cmp z x < 0 \<and> \<not> cmp x z < 0 \<and> cmp x z \<noteq> 0" if "z \<in> set (elems l)" for z
      using that s(1) y x eq eq' cmp_less_trans [of z "snd n" x] cmp_flip [of x z] by fastforce
    have r: "cmp x z < 0 \<and> \<not> cmp z x < 0 \<and> cmp x z \<noteq> 0" if "z \<in> set (elems r)" for z
      using that s(2) y x eq eq' cmp_less_trans2 [of x "snd n" z] cmp_flip [of x z] by fastforce
    with l r L Node eq eq' show ?thesis by auto
  qed (use L in auto)
  then show "\<forall>y \<in> set (lower C T'). cmp y x < 0 \<and> \<not> cmp x y < 0 \<and> cmp x y \<noteq> 0"
    and "\<forall>y \<in> set (upper C T'). cmp x y < 0 \<and> \<not> cmp y x < 0 \<and> cmp x y \<noteq> 0"
    and "\<forall>y \<in> set (hit T'). cmp x y = 0 \<and> cmp y x = 0"
    by blast+
qed

lemma elems_tree_insert:
  assumes st: "search_tree S cmp T" and x: "x \<in> S"
  shows "elems (tree_insert cmp a x T) = ord_insert cmp x (elems T)"
proof -
  obtain C T' where loc: "locate cmp x [] T = (C, T')" by fastforce
  note L = locate_split [OF st x loc]
  have "[y \<leftarrow> lower C T'. cmp y x < 0] = lower C T'" "[y \<leftarrow> upper C T'. cmp y x < 0] = []"
    "[y \<leftarrow> lower C T'. cmp x y < 0] = []" "[y \<leftarrow> upper C T'. cmp x y < 0] = upper C T'"
    "[y \<leftarrow> hit T'. cmp y x < 0] = []" "[y \<leftarrow> hit T'. cmp x y < 0] = []"
    using L(2,3,4) by (auto simp: filter_id_conv filter_empty_conv)
  with L(1) have "ord_insert cmp x (elems T) = lower C T' @ x # upper C T'" by (simp add: ord_insert_def)
  then show ?thesis using loc by (cases T') (auto simp: tree_insert_def elems_plug)
qed

lemma search_tree_insert:
  assumes st: "search_tree S cmp T" and x: "x \<in> S"
  shows "search_tree S cmp (tree_insert cmp a x T)"
proof -
  obtain C T' where loc: "locate cmp x [] T = (C, T')" by fastforce
  note L = locate_split [OF st x loc]
  have E: "elems (tree_insert cmp a x T) = lower C T' @ x # upper C T'"
    using loc by (cases T') (auto simp: tree_insert_def elems_plug)
  show ?thesis using st x L(2,3) unfolding search_tree_def E L(1) by (auto simp: sorted_wrt_append)
qed

lemma find_elems:
  assumes st: "search_tree S cmp T" and x: "x \<in> S" and loc: "locate cmp x [] T = (C, T')"
  shows "List.find (\<lambda>y. cmp x y = 0) (elems T) = (case T' of Leaf \<Rightarrow> None | Node l n r \<Rightarrow> Some (snd n))"
proof -
  note L = locate_split [OF st x loc]
  have "List.find (\<lambda>y. cmp x y = 0) (lower C T') = None" "List.find (\<lambda>y. cmp x y = 0) (upper C T') = None"
    using L(2,3) by (auto simp: find_None_iff)
  then have "List.find (\<lambda>y. cmp x y = 0) (elems T) = List.find (\<lambda>y. cmp x y = 0) (hit T')"
    by (simp add: L(1) find_append split: option.split)
  then show ?thesis using L(4) by (cases T') simp_all
qed

lemma elems_others:
  assumes st: "search_tree S cmp T" and x: "x \<in> S" and loc: "locate cmp x [] T = (C, T')"
  shows "[y \<leftarrow> elems T. cmp x y \<noteq> 0] = lower C T' @ upper C T'"
proof -
  note L = locate_split [OF st x loc]
  have "[y \<leftarrow> lower C T'. cmp x y \<noteq> 0] = lower C T'" "[y \<leftarrow> upper C T'. cmp x y \<noteq> 0] = upper C T'"
    "[y \<leftarrow> hit T'. cmp x y \<noteq> 0] = []"
    using L(2,3,4) by (auto simp: filter_id_conv filter_empty_conv)
  then show ?thesis by (simp add: L(1))
qed

lemma bintree_find_ok:
  assumes rep: "bt_shape t T" and st: "search_tree S cmp T" and x: "x \<in> S" and c: "bt_cmpfn t = cmp"
  shows "bintree_find (Some t) x = Inr (List.find (\<lambda>y. cmp x y = 0) (elems T))"
proof -
  obtain C T' where loc: "locate cmp x [] T = (C, T')" by fastforce
  have tree: "tree_in (bt_nodes t) None T" "bt_root t = root_ref T" using rep by (simp_all add: bt_shape_def)
  have find: "bintree_nodefind (Some t) x = Inr (root_ref T')"
    using nodefind_loop [OF tree(1), of x "[]"] loc c tree(2) by (simp add: bintree_nodefind_def)
  have "tree_in (bt_nodes t) (up C) T'" using tree(1) locate_plug [OF loc] by (metis plug.simps(1) tree_in_plug)
  then show ?thesis using find find_elems [OF st x loc]
    by (cases T') (auto simp: bintree_find_def)
qed

text \<open>Removal: the equal element goes, and the lost subtree with it.\<close>

lemma removed_elems:
  assumes st: "search_tree S cmp T" and x: "x \<in> S" and loc: "locate cmp x [] T = (C, Node l n r)"
    and S: "unlinked l n r = (S', lost)"
  shows "search_tree S cmp (plug C S')"
    and "\<exists>us vs. [y \<leftarrow> elems T. cmp x y \<noteq> 0] = us @ elems lost @ vs \<and> elems (plug C S') = us @ vs"
    and "size T = Suc (size (plug C S') + size lost)"
proof -
  note L = locate_split [OF st x loc]
  obtain us vs where uv: "elems l @ elems r = us @ elems lost @ vs" "elems S' = us @ vs"
    using unlinked_elems [OF S] by blast
  have "[y \<leftarrow> elems T. cmp x y \<noteq> 0] = map snd (before C) @ (elems l @ elems r) @ map snd (after C)"
    using elems_others [OF st x loc] by simp
  then have F: "[y \<leftarrow> elems T. cmp x y \<noteq> 0] = (map snd (before C) @ us) @ elems lost @ (vs @ map snd (after C))"
    and P: "elems (plug C S') = (map snd (before C) @ us) @ (vs @ map snd (after C))"
    using uv by (simp_all add: elems_plug)
  then show "\<exists>us vs. [y \<leftarrow> elems T. cmp x y \<noteq> 0] = us @ elems lost @ vs \<and> elems (plug C S') = us @ vs" by blast
  have "sorted_wrt (\<lambda>x y. cmp x y < 0) [y \<leftarrow> elems T. cmp x y \<noteq> 0]" "set [y \<leftarrow> elems T. cmp x y \<noteq> 0] \<subseteq> S"
    using st by (auto simp: search_tree_def sorted_wrt_filter)
  then show "search_tree S cmp (plug C S')"
    unfolding F search_tree_def P using sorted_wrt_drop_middle by (metis Un_subset_iff set_append)
  have "length (elems T) = Suc (length (elems (plug C S')) + length (elems lost))"
    using arg_cong [OF uv(1), of length] uv(2) L(1) P by simp
  then show "size T = Suc (size (plug C S') + size lost)" by simp
qed

end

text \<open>Inserting into the ordered list: the element that is found is the last one inserted.\<close>

context cmp_order begin

lemma find_ord_insert:
  assumes "set xs \<subseteq> S" and "sorted_wrt (\<lambda>x y. cmp x y < 0) xs" and x: "x \<in> S" and z: "z \<in> S"
  shows "List.find (\<lambda>y. cmp x y = 0) (ord_insert cmp z xs) =
    (if cmp x z = 0 then Some z else List.find (\<lambda>y. cmp x y = 0) xs)"
proof -
  have eq: "cmp x y = 0 \<longleftrightarrow> cmp z y = 0" if "cmp x z = 0" "y \<in> S" for y
    using that x z cmp_eq_trans [of x z y] cmp_eq_trans [of z x y] cmp_eq_flip [of x z] by auto
  have sides: "List.find (\<lambda>y. cmp x y = 0) ([y \<leftarrow> xs. cmp y z < 0] @ [y \<leftarrow> xs. cmp z y < 0]) =
      List.find (\<lambda>y. cmp x y = 0) xs" if "cmp x z \<noteq> 0"
    using assms(1,2)
  proof (induction xs)
    case (Cons a xs)
    then have a: "a \<in> S" "\<forall>y \<in> set xs. cmp a y < 0" and sub: "set xs \<subseteq> S"
      and IH: "List.find (\<lambda>y. cmp x y = 0) ([y \<leftarrow> xs. cmp y z < 0] @ [y \<leftarrow> xs. cmp z y < 0]) =
        List.find (\<lambda>y. cmp x y = 0) xs" by auto
    show ?case
    proof (cases "cmp a z < 0")
      case True
      then have "\<not> cmp z a < 0" using cmp_flip [OF a(1) z] by simp
      with True IH show ?thesis by simp
    next
      case False
      then have za: "cmp z a \<le> 0" using cmp_not_less [OF z a(1)] by simp
      then have none: "[y \<leftarrow> xs. cmp y z < 0] = []" "[y \<leftarrow> xs. cmp z y < 0] = xs"
        using a sub z cmp_less_trans2 [of z a] cmp_flip [of z]
        by (auto simp: filter_empty_conv filter_id_conv) (smt (verit) subsetD)+
      show ?thesis
      proof (cases "cmp z a < 0")
        case True
        with none False show ?thesis by simp
      next
        case False
        with za have "cmp z a = 0" by simp
        then have "cmp x a \<noteq> 0" using that x z a(1) cmp_eq_trans [of x a z] cmp_eq_flip [of z a] by auto
        with none False \<open>\<not> cmp a z < 0\<close> show ?thesis by simp
      qed
    qed
  qed simp
  show ?thesis
  proof (cases "cmp x z = 0")
    case True
    have "List.find (\<lambda>y. cmp x y = 0) [y \<leftarrow> xs. cmp y z < 0] = None"
      using eq [OF True] assms(1) cmp_flip [OF z] by (fastforce simp: find_None_iff)
    with True show ?thesis by (simp add: ord_insert_def find_append)
  next
    case False
    with sides [OF False] show ?thesis by (simp add: ord_insert_def find_append cong: option.case_cong)
  qed
qed

lemma length_ord_insert:
  assumes "set xs \<subseteq> S" and "x \<in> S"
  shows "length (ord_insert cmp x xs) \<le> Suc (length xs)"
proof -
  have "length [y \<leftarrow> xs. cmp y x < 0] + length [y \<leftarrow> xs. cmp x y < 0] \<le> length xs"
    using assms
  proof (induction xs)
    case (Cons a xs)
    then show ?case using cmp_flip [of x a] by auto
  qed simp
  then show ?thesis by (simp add: ord_insert_def)
qed

end

section \<open>The contract of an ordered set\<close>

text \<open>
  \<open>holds t xs\<close>: the structure \<open>t\<close> holds the elements \<open>xs\<close>, given in their order. A client inserts
  and looks up; inserting an element that is equal to a stored one replaces it.
\<close>

fun ins_all :: "('t \<Rightarrow> 'a \<Rightarrow> 't res) \<Rightarrow> 't \<Rightarrow> 'a list \<Rightarrow> 't res" where
  "ins_all ins t [] = Inr t"
| "ins_all ins t (x # xs) = bind_res (ins t x) (\<lambda>t'. ins_all ins t' xs)"

locale ordered_set = cmp_order S cmp for S :: "'a set" and cmp :: "'a \<Rightarrow> 'a \<Rightarrow> int" +
  fixes holds :: "'t \<Rightarrow> 'a list \<Rightarrow> bool" and ins :: "'t \<Rightarrow> 'a \<Rightarrow> 't res" and lookup :: "'t \<Rightarrow> 'a \<Rightarrow> 'a option res"
    and limit :: nat
  assumes holds_sorted: "holds t xs \<Longrightarrow> set xs \<subseteq> S \<and> sorted_wrt (\<lambda>x y. cmp x y < 0) xs"
    and ins_law: "holds t xs \<Longrightarrow> x \<in> S \<Longrightarrow> length xs < limit \<Longrightarrow> \<exists>t'. ins t x = Inr t' \<and> holds t' (ord_insert cmp x xs)"
    and lookup_law: "holds t xs \<Longrightarrow> x \<in> S \<Longrightarrow> lookup t x = Inr (List.find (\<lambda>y. cmp x y = 0) xs)"
begin

lemma ins_all_ok:
  assumes "holds t xs" and "set ys \<subseteq> S" and "length xs + length ys \<le> limit"
  shows "\<exists>t' zs. ins_all ins t ys = Inr t' \<and> holds t' zs \<and> zs = fold (ord_insert cmp) ys xs \<and>
    (\<forall>x \<in> S. lookup t' x =
      Inr (case List.find (\<lambda>y. cmp x y = 0) (rev ys) of None \<Rightarrow> List.find (\<lambda>y. cmp x y = 0) xs | Some y \<Rightarrow> Some y))"
  using assms
proof (induction ys arbitrary: t xs)
  case Nil
  then show ?case using lookup_law by auto
next
  case (Cons y ys)
  note hs = holds_sorted [OF Cons.prems(1)]
  from Cons.prems ins_law [of t xs y] obtain t1 where t1: "ins t y = Inr t1" "holds t1 (ord_insert cmp y xs)" by auto
  have "length (ord_insert cmp y xs) + length ys \<le> limit"
    using length_ord_insert [of xs y] hs Cons.prems by simp
  from Cons.IH [OF t1(2) _ this] Cons.prems(2) obtain t' where t': "ins_all ins t1 ys = Inr t'"
    "holds t' (fold (ord_insert cmp) ys (ord_insert cmp y xs))"
    "\<forall>x \<in> S. lookup t' x = Inr (case List.find (\<lambda>y. cmp x y = 0) (rev ys) of
       None \<Rightarrow> List.find (\<lambda>y. cmp x y = 0) (ord_insert cmp y xs) | Some y \<Rightarrow> Some y)" by auto
  have "\<forall>x \<in> S. List.find (\<lambda>z. cmp x z = 0) (ord_insert cmp y xs) =
      (if cmp x y = 0 then Some y else List.find (\<lambda>z. cmp x z = 0) xs)"
    using find_ord_insert hs Cons.prems(2) by simp
  with t1(1) t' show ?case by (auto simp: find_append split: option.split)
qed

end

text \<open>The tree provides it: \<open>bt_holds S t xs\<close>.\<close>

definition bt_holds :: "'a set \<Rightarrow> 'a bintree \<Rightarrow> 'a list \<Rightarrow> bool" where
  "bt_holds S t xs \<longleftrightarrow> (\<exists>T. bt_rep t T \<and> search_tree S (bt_cmpfn t) T \<and> xs = elems T)"

definition bt_put :: "(nat set \<Rightarrow> nat option) \<Rightarrow> 'a bintree \<Rightarrow> 'a \<Rightarrow> 'a bintree res" where
  "bt_put new t x = bind_res (bintree_insert new (Some t) (Some x)) (\<lambda>r. Inr (the (snd r)))"

lemma bt_count_ok: "bt_rep t T \<Longrightarrow> bintree_count (Some t) = Inr (size T)"
  by (auto simp: bt_rep_def bt_shape_def bintree_count_def)

lemma bt_holds_insert:
  assumes order: "cmp_order S (bt_cmpfn t)" and holds: "bt_holds S t xs" and x: "x \<in> S"
    and new: "new_ok new" "new (dom (bt_nodes t)) \<noteq> None" and sz: "Suc (length xs) < size_max"
  shows "\<exists>t'. bintree_insert new (Some t) (Some x) = Inr (True, Some t') \<and> bt_cmpfn t' = bt_cmpfn t \<and>
    bt_holds S t' (ord_insert (bt_cmpfn t) x xs)"
proof -
  obtain T where T: "bt_rep t T" "search_tree S (bt_cmpfn t) T" "xs = elems T"
    using holds by (auto simp: bt_holds_def)
  have dom: "dom (bt_nodes t) = addrs T" using T(1) by (simp add: bt_rep_def)
  with new obtain a where a: "new (addrs T) = Some a" by auto
  with new(1) have fresh: "a \<notin> addrs T" using finite_addrs by (auto simp: new_ok_def)
  from bintree_insert_ok [where new = new, OF T(1) a fresh] sz T(3) obtain t' where
    "bintree_insert new (Some t) (Some x) = Inr (True, Some t')" "bt_cmpfn t' = bt_cmpfn t"
    "bt_rep t' (tree_insert (bt_cmpfn t) a x T)" by fastforce
  with cmp_order.search_tree_insert [OF order T(2) x] cmp_order.elems_tree_insert [OF order T(2) x] T(3)
  show ?thesis by (auto simp: bt_holds_def)
qed

lemma bt_holds_card: "bt_holds S t xs \<Longrightarrow> finite (dom (bt_nodes t)) \<and> card (dom (bt_nodes t)) = length xs"
  by (auto simp: bt_holds_def bt_rep_def bt_shape_def card_addrs)

lemma ordered_bintree:
  assumes order: "cmp_order S cmp" and new: "new_ok new" "\<And>A. finite A \<Longrightarrow> card A < cap \<Longrightarrow> new A \<noteq> None"
    and cap: "cap < size_max"
  shows "ordered_set S cmp (\<lambda>t xs. bt_cmpfn t = cmp \<and> bt_holds S t xs) (bt_put new) (\<lambda>t. bintree_find (Some t)) cap"
proof (intro ordered_set.intro ordered_set_axioms.intro order)
  fix t xs and x
  assume t: "bt_cmpfn t = cmp \<and> bt_holds S t xs"
  then show "set xs \<subseteq> S \<and> sorted_wrt (\<lambda>x y. cmp x y < 0) xs" by (auto simp: bt_holds_def search_tree_def)
  assume x: "x \<in> S"
  from t show "bintree_find (Some t) x = Inr (List.find (\<lambda>y. cmp x y = 0) xs)"
    by (auto simp: bt_holds_def bt_rep_def cmp_order.bintree_find_ok [OF order _ _ x])
  assume "length xs < cap"
  with t new(2) bt_holds_card [of S t xs] have "new (dom (bt_nodes t)) \<noteq> None" by simp
  with bt_holds_insert [where new = new and t = t and xs = xs and S = S and x = x] t x order new(1) cap \<open>length xs < cap\<close>
  show "\<exists>t'. bt_put new t x = Inr t' \<and> bt_cmpfn t' = cmp \<and> bt_holds S t' (ord_insert cmp x xs)"
    by (auto simp: bt_put_def)
qed

lemma new_above_some: "new_above A \<noteq> None"
  by (simp add: new_above_def)

interpretation char_tree: ordered_set UNIV chcmp "\<lambda>t xs. bt_cmpfn t = chcmp \<and> bt_holds UNIV t xs"
  "bt_put new_above" "\<lambda>t. bintree_find (Some t)" "2 ^ 32"
  by (rule ordered_bintree [OF chars.cmp_order_axioms new_above_ok new_above_some]) (simp add: size_max_def)

lemma bintree_init_ok: "alloc sizeof_bintree \<Longrightarrow> \<exists>t. bintree_init alloc cmp = Inr t \<and> bt_cmpfn t = cmp \<and> bt_holds S t []"
  by (auto simp: bintree_init_def bt_holds_def bt_rep_def bt_shape_def search_tree_def intro!: exI [of _ Leaf])

section \<open>Properties\<close>

text \<open>
  C17: a tree built by inserting any sequence of elements of \<open>S\<close> holds one element for each class of
  equal elements, in order; looking up an element of \<open>S\<close> finds the equal element inserted last, or
  NULL if none was inserted; the count is the number of elements held.
\<close>

theorem bintree_builds_set:
  assumes "cmp_order S cmp" and "set ys \<subseteq> S" and "length ys < size_max" and "alloc sizeof_bintree"
    and "new_ok new" and "\<And>A. finite A \<Longrightarrow> card A < length ys \<Longrightarrow> new A \<noteq> None"
  shows "\<exists>t t' xs. bintree_init alloc cmp = Inr t \<and> ins_all (bt_put new) t ys = Inr t' \<and> bt_holds S t' xs \<and>
    xs = fold (ord_insert cmp) ys [] \<and> sorted_wrt (\<lambda>x y. cmp x y < 0) xs \<and> bintree_count (Some t') = Inr (length xs) \<and>
    (\<forall>x. x \<in> S \<longrightarrow> bintree_find (Some t') x = Inr (List.find (\<lambda>y. cmp x y = 0) (rev ys)))"
proof -
  have set: "ordered_set S cmp (\<lambda>t xs. bt_cmpfn t = cmp \<and> bt_holds S t xs) (bt_put new) (\<lambda>t. bintree_find (Some t)) (length ys)"
    using assms by (intro ordered_bintree)
  obtain t where t: "bintree_init alloc cmp = Inr t" "bt_cmpfn t = cmp \<and> bt_holds S t []"
    using bintree_init_ok [where alloc = alloc and cmp = cmp and S = S] assms(4) by blast
  from ordered_set.ins_all_ok [OF set t(2) assms(2)] obtain t' xs where t': "ins_all (bt_put new) t ys = Inr t'"
    "bt_cmpfn t' = cmp \<and> bt_holds S t' xs" "xs = fold (ord_insert cmp) ys []"
    "\<forall>x \<in> S. bintree_find (Some t') x = Inr (case List.find (\<lambda>y. cmp x y = 0) (rev ys) of
       None \<Rightarrow> List.find (\<lambda>y. cmp x y = 0) [] | Some y \<Rightarrow> Some y)" by auto
  moreover have "bintree_count (Some t') = Inr (length xs)" using t'(2) bt_count_ok by (auto simp: bt_holds_def)
  moreover have "sorted_wrt (\<lambda>x y. cmp x y < 0) xs" using ordered_set.holds_sorted [OF set t'(2)] by simp
  ultimately show ?thesis using t by (fastforce split: option.splits)
qed

theorem bintree_builds_set_witness:
  "\<exists>t t'. bintree_init (mem_upto 100) chcmp = Inr t \<and> ins_all (bt_put new_above) t [5, 9, 2, 9] = Inr t' \<and>
    bt_holds UNIV t' [2, 5, 9] \<and> bintree_count (Some t') = Inr 3 \<and> bintree_find (Some t') 4 = Inr None"
proof -
  have xs: "fold (ord_insert chcmp) [5, 9, 2, 9] [] = [2, 5, 9]" by (simp add: ord_insert_def chcmp_def)
  have "\<exists>t t' zs. bintree_init (mem_upto 100) chcmp = Inr t \<and> ins_all (bt_put new_above) t [5, 9, 2, 9] = Inr t' \<and>
      bt_holds UNIV t' zs \<and> zs = fold (ord_insert chcmp) [5, 9, 2, 9] [] \<and> sorted_wrt (\<lambda>x y. chcmp x y < 0) zs \<and>
      bintree_count (Some t') = Inr (length zs) \<and>
      (\<forall>x. x \<in> UNIV \<longrightarrow> bintree_find (Some t') x = Inr (List.find (\<lambda>y. chcmp x y = 0) (rev [5, 9, 2, 9])))"
    by (rule bintree_builds_set [OF chars.cmp_order_axioms])
      (simp_all add: new_above_ok new_above_some mem_upto_def sizeof_bintree_def size_max_def)
  moreover have "List.find (\<lambda>y. chcmp 4 y = 0) (rev [5, 9, 2, 9]) = None" by (simp add: chcmp_def)
  ultimately show ?thesis unfolding xs by (metis UNIV_I length_Cons list.size(3) eval_nat_numeral(3) numeral_3_eq_3)
qed

text \<open>
  Whether removing the element equal to \<open>x\<close> loses nothing: it has at most one child, or the greatest
  node below its left child has no left child.
\<close>

definition clean_removal :: "('a \<Rightarrow> 'a \<Rightarrow> int) \<Rightarrow> 'a \<Rightarrow> 'a shape \<Rightarrow> bool" where
  "clean_removal cmp x T =
     (case snd (locate cmp x [] T) of Leaf \<Rightarrow> True | Node l n r \<Rightarrow> snd (unlinked l n r) = Leaf)"

text \<open>
  C18: \<open>bintree_remove\<close> on a well-formed search tree: if no element is equal to the given one it returns
  false and changes nothing; otherwise it returns true, and unless the node has two children and the
  one that takes its place a left child, the tree then holds all other elements.
\<close>

theorem bintree_remove_correct:
  assumes "cmp_order S (bt_cmpfn t)" and "bt_rep t T" and "search_tree S (bt_cmpfn t) T" and "x \<in> S"
    and "size T < size_max" and "clean_removal (bt_cmpfn t) x T"
  shows "if List.find (\<lambda>y. bt_cmpfn t x y = 0) (elems T) = None then bintree_remove (Some t) x = Inr (False, Some t)
    else \<exists>t'. bintree_remove (Some t) x = Inr (True, Some t') \<and> bt_cmpfn t' = bt_cmpfn t \<and>
      bt_holds S t' [y \<leftarrow> elems T. bt_cmpfn t x y \<noteq> 0]"
proof -
  obtain C T' where loc: "locate (bt_cmpfn t) x [] T = (C, T')" by fastforce
  note found = cmp_order.find_elems [OF assms(1,3,4) loc]
  show ?thesis
  proof (cases T')
    case Leaf
    have "bintree_nodefind (Some t) x = Inr None"
      using nodefind_loop [of t None T x "[]"] assms(2) loc Leaf by (simp add: bintree_nodefind_def bt_rep_def bt_shape_def)
    with found Leaf show ?thesis by (simp add: bintree_remove_def)
  next
    case (Node l n r)
    note loc' = loc [unfolded Node]
    obtain S' where S': "unlinked l n r = (S', Leaf)"
      using assms(6) loc' by (cases "unlinked l n r") (simp add: clean_removal_def)
    obtain t' where t': "bintree_remove (Some t) x = Inr (True, Some t')" "bt_shape t' (plug C S')"
      "bt_count t' = Val (size T - 1)" "bt_cmpfn t' = bt_cmpfn t" "dom (bt_nodes t') = addrs (plug C S')"
      using bintree_remove_ok [OF assms(2,5) loc' S'] by auto
    note R = cmp_order.removed_elems [OF assms(1,3,4) loc' S']
    have "bt_rep t' (plug C S')" using t' R(3) by (simp add: bt_rep_def)
    moreover have "[y \<leftarrow> elems T. bt_cmpfn t x y \<noteq> 0] = elems (plug C S')" using R(2) by auto
    ultimately have "bt_holds S t' [y \<leftarrow> elems T. bt_cmpfn t x y \<noteq> 0]" using R(1) t'(4) by (auto simp: bt_holds_def)
    with t' found Node show ?thesis by simp
  qed
qed

text \<open>A tree of four characters, 8 with the children 4 and 9, and 2 below 4.\<close>

definition demo_shape :: "8 word shape" where
  "demo_shape = Node (Node (Node Leaf (3, 2) Leaf) (2, 4) Leaf) (1, 8) (Node Leaf (4, 9) Leaf)"

definition demo_bintree :: "8 word bintree" where
  "demo_bintree = \<lparr>bt_count = Val 4, bt_cmpfn = chcmp, bt_root = Some 1, bt_iter = None, bt_travtype = Undef,
     bt_nodes = [1 \<mapsto> \<lparr>bn_data = 8, bn_left = Some 2, bn_right = Some 4, bn_parent = None\<rparr>,
       2 \<mapsto> \<lparr>bn_data = 4, bn_left = Some 3, bn_right = None, bn_parent = Some 1\<rparr>,
       3 \<mapsto> \<lparr>bn_data = 2, bn_left = None, bn_right = None, bn_parent = Some 2\<rparr>,
       4 \<mapsto> \<lparr>bn_data = 9, bn_left = None, bn_right = None, bn_parent = Some 1\<rparr>]\<rparr>"

lemma demo_bintree_rep: "bt_rep demo_bintree demo_shape" and demo_bintree_cmp: "bt_cmpfn demo_bintree = chcmp"
  by (auto simp: bt_rep_def bt_shape_def demo_bintree_def demo_shape_def)

lemma demo_bintree_search: "search_tree UNIV chcmp demo_shape" and demo_elems: "elems demo_shape = [2, 4, 8, 9]"
  by (auto simp: search_tree_def demo_shape_def chcmp_def)

theorem bintree_remove_correct_witness:
  "\<exists>t'. bintree_remove (Some demo_bintree) 4 = Inr (True, Some t') \<and> bt_holds UNIV t' [2, 8, 9]"
proof -
  have "clean_removal chcmp 4 demo_shape" "[y \<leftarrow> elems demo_shape. chcmp 4 y \<noteq> 0] = [2, 8, 9]"
    "List.find (\<lambda>y. chcmp 4 y = 0) (elems demo_shape) = Some 4"
    by (simp_all add: clean_removal_def demo_elems) (simp_all add: chcmp_def demo_shape_def unlinked_def)
  then show ?thesis
    using bintree_remove_correct [of UNIV demo_bintree demo_shape 4] chars.cmp_order_axioms demo_bintree_rep
      demo_bintree_search by (auto simp: demo_bintree_cmp size_max_def demo_shape_def)
qed

text \<open>
  C19: in the remaining case \<open>bintree_remove\<close> also returns true, but with the element it loses the whole
  left subtree of the node that takes its place: these elements are no longer found although the
  count still includes them, and their nodes stay allocated.
\<close>

theorem bintree_remove_loses:
  assumes "cmp_order S (bt_cmpfn t)" and "bt_rep t T" and "search_tree S (bt_cmpfn t) T" and "x \<in> S"
    and "size T < size_max" and "\<not> clean_removal (bt_cmpfn t) x T"
  shows "\<exists>t' us gone vs. bintree_remove (Some t) x = Inr (True, Some t') \<and> gone \<noteq> [] \<and>
    [y \<leftarrow> elems T. bt_cmpfn t x y \<noteq> 0] = us @ gone @ vs \<and>
    (\<forall>z. z \<in> S \<longrightarrow> bintree_find (Some t') z = Inr (List.find (\<lambda>y. bt_cmpfn t z y = 0) (us @ vs))) \<and>
    (\<forall>z. z \<in> set gone \<longrightarrow> bintree_find (Some t') z = Inr None) \<and>
    bintree_count (Some t') = Inr (length (us @ gone @ vs)) \<and> card (dom (bt_nodes t')) = length (us @ gone @ vs)"
proof -
  obtain C l n r where loc: "locate (bt_cmpfn t) x [] T = (C, Node l n r)" and dirty: "snd (unlinked l n r) \<noteq> Leaf"
    using assms(6) by (cases "locate (bt_cmpfn t) x [] T"; cases "snd (locate (bt_cmpfn t) x [] T)")
      (auto simp: clean_removal_def)
  obtain S' lost where S': "unlinked l n r = (S', lost)" by fastforce
  with dirty have lost: "lost \<noteq> Leaf" "S' \<noteq> Leaf" by (auto simp: unlinked_def split: if_splits prod.splits)
  obtain t' where t': "bintree_remove (Some t) x = Inr (True, Some t')" "bt_shape t' (plug C S')"
    "bt_count t' = Val (size T - 1)" "bt_cmpfn t' = bt_cmpfn t" "dom (bt_nodes t') = addrs (plug C S') \<union> addrs lost"
    "card (dom (bt_nodes t')) = size T - 1"
    using bintree_remove_ok [OF assms(2,5) loc S'] by blast
  note R = cmp_order.removed_elems [OF assms(1,3,4) loc S']
  obtain us vs where uv: "[y \<leftarrow> elems T. bt_cmpfn t x y \<noteq> 0] = us @ elems lost @ vs" "elems (plug C S') = us @ vs"
    using R(2) by blast
  have find: "bintree_find (Some t') z = Inr (List.find (\<lambda>y. bt_cmpfn t z y = 0) (us @ vs))" if "z \<in> S" for z
    using cmp_order.bintree_find_ok [OF assms(1) t'(2) R(1) that t'(4)] uv(2) by simp
  have sub: "set (us @ elems lost @ vs) \<subseteq> S" and sorted: "sorted_wrt (\<lambda>x y. bt_cmpfn t x y < 0) (us @ elems lost @ vs)"
    using assms(3) by (auto simp: search_tree_def uv(1) [symmetric] sorted_wrt_filter)
  have gone: "bintree_find (Some t') z = Inr None" if z: "z \<in> set (elems lost)" for z
  proof -
    have "z \<in> S" using z sub by auto
    moreover have "bt_cmpfn t z y \<noteq> 0" if "y \<in> set (us @ vs)" for y
      using that sorted z sub cmp_order.cmp_flip [OF assms(1), of z y] by (fastforce simp: sorted_wrt_append)
    then have "List.find (\<lambda>y. bt_cmpfn t z y = 0) (us @ vs) = None" by (auto simp: find_None_iff)
    ultimately show ?thesis using find by simp
  qed
  have len: "length (us @ elems lost @ vs) = size T - 1"
    using R(3) arg_cong [OF uv(2), of length] by simp
  have count: "bintree_count (Some t') = Inr (size T - 1)"
    using t'(2,3) lost(2) by (simp add: bintree_count_def bt_shape_def)
  with t'(1,6) lost(1) uv(1) find gone count len show ?thesis
    by (intro exI [of _ t'] exI [of _ us] exI [of _ "elems lost"] exI [of _ vs]) (auto simp: elems_def)
qed

text \<open>Removing 8 puts 4 in its place; one of the other elements, 2, is lost.\<close>

theorem bintree_remove_loses_witness:
  "\<exists>t'. bintree_remove (Some demo_bintree) 8 = Inr (True, Some t') \<and>
    (\<exists>z. z \<in> set [2, 4, 9] \<and> bintree_find (Some t') z = Inr None) \<and>
    bintree_count (Some t') = Inr 3 \<and> card (dom (bt_nodes t')) = 3"
proof -
  have L: "\<not> clean_removal chcmp 8 demo_shape" "[y \<leftarrow> elems demo_shape. chcmp 8 y \<noteq> 0] = [2, 4, 9]"
    by (simp_all add: clean_removal_def demo_elems) (simp_all add: chcmp_def demo_shape_def unlinked_def)
  obtain t' us gone vs where t': "bintree_remove (Some demo_bintree) 8 = Inr (True, Some t')" "gone \<noteq> []"
    "[2, 4, 9] = us @ gone @ vs" "\<forall>z. z \<in> set gone \<longrightarrow> bintree_find (Some t') z = Inr None"
    "bintree_count (Some t') = Inr (length (us @ gone @ vs))" "card (dom (bt_nodes t')) = length (us @ gone @ vs)"
    using bintree_remove_loses [of UNIV demo_bintree demo_shape 8] chars.cmp_order_axioms demo_bintree_rep
      demo_bintree_search L by (auto simp: demo_bintree_cmp size_max_def demo_shape_def)
  from t'(2) obtain z where z: "z \<in> set gone" by (cases gone) auto
  have "z \<in> set [2, 4, 9]" unfolding t'(3) using z by simp
  moreover have "length (us @ gone @ vs) = 3" unfolding t'(3) [symmetric] by simp
  ultimately show ?thesis using t' z by metis
qed

end
