(* ===== verification/BinTreeScan.thy ===== *)
theory BinTreeScan imports BinTree begin

text \<open>
  bintree.c, the recursive functions: height, clearing, collecting the elements in one of three orders,
  and rebuilding the tree balanced. The functions recurse on the height of the tree; how many nested
  calls the stack has room for is a parameter, and the height of the tree (plus one) is enough.
\<close>

section \<open>The code\<close>

text \<open>The traversals write the data to an array of the caller, from a running index on.\<close>

definition put_next :: "'a cell list \<times> nat \<Rightarrow> 'a \<Rightarrow> ('a cell list \<times> nat) res" where
  "put_next = (\<lambda>(dest, i) x. bind_res (arr_set dest i x) (\<lambda>d. Inr (d, sz_add i 1)))"

fun rtrav_preorder :: "nat \<Rightarrow> 'a bt_store \<Rightarrow> ref \<Rightarrow> 'a cell list \<times> nat \<Rightarrow> ('a cell list \<times> nat) res" where
  "rtrav_preorder 0 h n s = Inl Stack_Overflow"
| "rtrav_preorder (Suc room) h n s =
     (if n = None then Inr s
      else
        bind_res (bt_deref h n) (\<lambda>nd.
        bind_res (put_next s (bn_data nd)) (\<lambda>s1.
        bind_res (rtrav_preorder room h (bn_left nd) s1) (\<lambda>s2.
        rtrav_preorder room h (bn_right nd) s2))))"

fun rtrav_inorder :: "nat \<Rightarrow> 'a bt_store \<Rightarrow> ref \<Rightarrow> 'a cell list \<times> nat \<Rightarrow> ('a cell list \<times> nat) res" where
  "rtrav_inorder 0 h n s = Inl Stack_Overflow"
| "rtrav_inorder (Suc room) h n s =
     (if n = None then Inr s
      else
        bind_res (bt_deref h n) (\<lambda>nd.
        bind_res (rtrav_inorder room h (bn_left nd) s) (\<lambda>s1.
        bind_res (put_next s1 (bn_data nd)) (\<lambda>s2.
        rtrav_inorder room h (bn_right nd) s2))))"

fun rtrav_postorder :: "nat \<Rightarrow> 'a bt_store \<Rightarrow> ref \<Rightarrow> 'a cell list \<times> nat \<Rightarrow> ('a cell list \<times> nat) res" where
  "rtrav_postorder 0 h n s = Inl Stack_Overflow"
| "rtrav_postorder (Suc room) h n s =
     (if n = None then Inr s
      else
        bind_res (bt_deref h n) (\<lambda>nd.
        bind_res (rtrav_postorder room h (bn_left nd) s) (\<lambda>s1.
        bind_res (rtrav_postorder room h (bn_right nd) s1) (\<lambda>s2.
        put_next s2 (bn_data nd)))))"

definition TRAV_PREORDER :: int where "TRAV_PREORDER = 0"
definition TRAV_INORDER :: int where "TRAV_INORDER = 1"
definition TRAV_POSTORDER :: int where "TRAV_POSTORDER = 2"

definition bintree_collect ::
  "nat \<Rightarrow> 'a bintree option \<Rightarrow> 'a cell list \<Rightarrow> int \<Rightarrow> (bool \<times> 'a cell list) res" where
  "bintree_collect room ht dest travmode =
     (case ht of
        None \<Rightarrow> Inr (False, dest)
      | Some t \<Rightarrow>
          if bt_root t = None then Inr (True, dest)
          else if travmode = TRAV_PREORDER then
            bind_res (rtrav_preorder room (bt_nodes t) (bt_root t) (dest, 0)) (\<lambda>s. Inr (True, fst s))
          else if travmode = TRAV_INORDER then
            bind_res (rtrav_inorder room (bt_nodes t) (bt_root t) (dest, 0)) (\<lambda>s. Inr (True, fst s))
          else if travmode = TRAV_POSTORDER then
            bind_res (rtrav_postorder room (bt_nodes t) (bt_root t) (dest, 0)) (\<lambda>s. Inr (True, fst s))
          else Inr (False, dest))"

fun bintree_rbalance ::
  "nat \<Rightarrow> (nat set \<Rightarrow> nat option) \<Rightarrow> 'a bintree option \<Rightarrow> 'a cell list \<Rightarrow> nat \<Rightarrow> nat \<Rightarrow> 'a bintree option res" where
  "bintree_rbalance 0 new t src start stop = Inl Stack_Overflow"
| "bintree_rbalance (Suc room) new t src start stop =
     (let mid = sz_add start stop div 2 in
      bind_res (arr_get src mid) (\<lambda>x.
      bind_res (bintree_insert new t (Some x)) (\<lambda>r.
      bind_res (if start < mid then bintree_rbalance room new (snd r) src start (sz_sub mid 1) else Inr (snd r)) (\<lambda>t1.
      if mid < stop then bintree_rbalance room new t1 src (sz_add mid 1) stop else Inr t1))))"

text \<open>The array is not freed; a failed allocation is the array without cells.\<close>

definition bintree_balance ::
  "(nat \<Rightarrow> bool) \<Rightarrow> (nat set \<Rightarrow> nat option) \<Rightarrow> nat \<Rightarrow> 'a bintree \<Rightarrow> 'a bintree res" where
  "bintree_balance alloc new room t =
     bind_res (read_cell (bt_count t)) (\<lambda>n.
     let arr = (if alloc (sz_mul n ptr_size) then replicate (block_cells n) Undef else []) in
     bind_res (bintree_collect room (Some t) arr TRAV_INORDER) (\<lambda>(ok, arr1).
     if \<not> ok then Inr t
     else
       bind_res (bintree_clear room (Some t)) (\<lambda>t1.
       bind_res (bintree_rbalance room new t1 arr1 0 (sz_sub n 1)) (\<lambda>t2.
       Inr (the t2)))))"

section \<open>Height and clearing\<close>

lemma discoverheight_ok:
  "tree_in h p T \<Longrightarrow> T \<noteq> Leaf \<Longrightarrow> height T \<le> room \<Longrightarrow> d + height T \<le> size_max \<Longrightarrow> 0 < d \<Longrightarrow>
   discoverheight room h (root_ref T) d m = Inr (max m (d + height T - 1))"
proof (induction T arbitrary: p room d m)
  case (Node l n r)
  obtain a x where n: "n = (a, x)" by fastforce
  from Node.prems(3) obtain room' where room: "room = Suc room'" "height l \<le> room'" "height r \<le> room'"
    by (cases room) auto
  from Node.prems n have sub: "tree_in h (Some a) l" "tree_in h (Some a) r"
    and a: "h a = Some \<lparr>bn_data = x, bn_left = root_ref l, bn_right = root_ref r, bn_parent = p\<rparr>" by auto
  have child: "(if c \<noteq> Leaf then discoverheight room' h (root_ref c) (sz_add d 1) k else Inr k) =
      Inr (max k (d + height c))" if "c = l \<or> c = r" "d \<le> k" for c k
  proof (cases "c = Leaf")
    case False
    then have "0 < height c" by (simp add: neq0_conv [symmetric])
    moreover have "height c < height (Node l n r)" using that by auto
    ultimately have "Suc d < size_max" "Suc d + height c \<le> size_max" using Node.prems(4) by auto
    moreover have "discoverheight room' h (root_ref c) (Suc d) k = Inr (max k (Suc d + height c - 1))"
      using that(1) False Node.IH(1) [OF sub(1)] Node.IH(2) [OF sub(2)] room calculation(2) by auto
    ultimately show ?thesis using False by (simp add: sz_simps)
  qed (use that in \<open>simp add: max_def\<close>)
  have "discoverheight room h (root_ref (Node l n r)) d m = Inr (max (max (max m d) (d + height l)) (d + height r))"
    using a n room(1) child [of l "max m d"] child [of r "max (max m d) (d + height l)"]
    by (auto simp: Let_def max_def)
  then show ?case by (auto simp: max_def)
qed simp

lemma bintree_height_ok:
  assumes rep: "bt_shape t T" and "height T \<le> room" and "height T < size_max"
  shows "bintree_height room (Some t) = Inr (height T)"
proof (cases "T = Leaf")
  case False
  then have "0 < height T" by (simp add: neq0_conv [symmetric])
  with False discoverheight_ok [of "bt_nodes t" None T room 1 1] assms show ?thesis
    by (simp add: bintree_height_def bt_shape_def)
qed (use assms in \<open>simp add: bintree_height_def bt_shape_def\<close>)

lemma rclear_ok:
  "tree_in h p T \<Longrightarrow> distinct_addrs T \<Longrightarrow> height T < room \<Longrightarrow>
   bintree_rclear room h (root_ref T) = Inr (h |` (- addrs T))"
proof (induction T arbitrary: h p room)
  case Leaf
  then show ?case by (cases room) (simp_all add: restrict_map_def)
next
  case (Node l n r)
  obtain a x where n: "n = (a, x)" by fastforce
  from Node.prems(3) obtain room' where room: "room = Suc room'" "height l < room'" "height r < room'"
    by (cases room) auto
  let ?nd = "\<lparr>bn_data = x, bn_left = root_ref l, bn_right = root_ref r, bn_parent = p\<rparr>"
  from Node.prems n have l: "tree_in h (Some a) l" "distinct_addrs l" and r: "tree_in h (Some a) r" "distinct_addrs r"
    and a: "h a = Some ?nd" "a \<notin> addrs l" "a \<notin> addrs r" and dis: "addrs l \<inter> addrs r = {}" by auto
  let ?h1 = "h |` (- addrs l)" and ?h2 = "h |` (- addrs l) |` (- addrs r)"
  have 1: "bintree_rclear room' h (root_ref l) = Inr ?h1" by (rule Node.IH(1) [OF l room(2)])
  have "tree_in ?h1 (Some a) r"
    using r(1) dis by (subst tree_in_cong [of r ?h1 h]) (auto simp: restrict_map_def)
  then have 2: "bintree_rclear room' ?h1 (root_ref r) = Inr ?h2" by (rule Node.IH(2) [OF _ r(2) room(3)])
  have "?h1 a = Some ?nd" "?h2 a = Some ?nd" using a by (simp_all add: restrict_map_def)
  then have "bintree_rclear room h (root_ref (Node l n r)) = Inr (?h2(a := None))"
    using 1 2 a(1) room(1) n by (simp del: restrict_restrict)
  moreover have "?h2(a := None) = h |` (- addrs (Node l n r))" using n by (auto simp: restrict_map_def)
  ultimately show ?case by simp
qed

lemma restrict_none: "dom m \<subseteq> A \<Longrightarrow> m |` (- A) = Map.empty"
  by (auto simp: restrict_map_def fun_eq_iff)

lemma bintree_clear_ok:
  assumes "bt_rep t T" and "height T < room"
  shows "\<exists>t'. bintree_clear room (Some t) = Inr (Some t') \<and> bt_rep t' Leaf \<and> bt_count t' = Val 0 \<and>
    bt_cmpfn t' = bt_cmpfn t"
  using assms rclear_ok [of "bt_nodes t" None T room]
  by (auto simp: bt_rep_def bt_shape_def bintree_clear_def restrict_none)

section \<open>Collecting\<close>

text \<open>A step of a traversal writes a list, wherever there is room for it; such steps compose.\<close>

definition writes :: "('a cell list \<times> nat \<Rightarrow> ('a cell list \<times> nat) res) \<Rightarrow> 'a list \<Rightarrow> bool" where
  "writes f xs \<longleftrightarrow> (\<forall>dest i. i + length xs \<le> length dest \<longrightarrow> length dest < size_max \<longrightarrow>
     f (dest, i) = Inr (fill dest i xs, i + length xs))"

lemma writes_bind: "writes f xs \<Longrightarrow> writes g ys \<Longrightarrow> writes (\<lambda>s. bind_res (f s) g) (xs @ ys)"
  by (simp add: writes_def length_fill fill_fill)

lemma writes_put: "writes (\<lambda>s. put_next s x) [x]"
  by (auto simp: writes_def put_next_def arr_set_def fill_def upd_conv_take_nth_drop sz_simps)

lemma writes_Inr: "writes Inr []"
  by (simp add: writes_def fill_def)

lemma writes_Leaf: "0 < room \<Longrightarrow> writes (rtrav_preorder room h None) []" "0 < room \<Longrightarrow> writes (rtrav_inorder room h None) []"
  "0 < room \<Longrightarrow> writes (rtrav_postorder room h None) []"
  by (cases room; simp add: writes_def fill_def)+

lemma rtrav_node:
  assumes "h a = Some \<lparr>bn_data = x, bn_left = p, bn_right = q, bn_parent = u\<rparr>"
  shows "rtrav_preorder (Suc room) h (Some a) =
      (\<lambda>s. bind_res (put_next s x) (\<lambda>s. bind_res (rtrav_preorder room h p s) (rtrav_preorder room h q)))"
    and "rtrav_inorder (Suc room) h (Some a) =
      (\<lambda>s. bind_res (rtrav_inorder room h p s) (\<lambda>s. bind_res (put_next s x) (rtrav_inorder room h q)))"
    and "rtrav_postorder (Suc room) h (Some a) =
      (\<lambda>s. bind_res (rtrav_postorder room h p s) (\<lambda>s. bind_res (rtrav_postorder room h q s) (\<lambda>s. put_next s x)))"
  using assms by (auto simp: fun_eq_iff cong del: bind_res_weak_cong)

lemma rtrav_writes:
  "tree_in h p T \<Longrightarrow> height T < room \<Longrightarrow>
   writes (rtrav_preorder room h (root_ref T)) (map snd (preorder T)) \<and>
   writes (rtrav_inorder room h (root_ref T)) (map snd (inorder T)) \<and>
   writes (rtrav_postorder room h (root_ref T)) (map snd (postorder T))"
proof (induction T arbitrary: p room)
  case Leaf
  then show ?case by (simp add: writes_Leaf)
next
  case (Node l n r)
  obtain a x where n: "n = (a, x)" by fastforce
  from Node.prems(2) obtain room' where room: "room = Suc room'" "height l < room'" "height r < room'"
    by (cases room) auto
  from Node.prems n have sub: "tree_in h (Some a) l" "tree_in h (Some a) r"
    and a: "h a = Some \<lparr>bn_data = x, bn_left = root_ref l, bn_right = root_ref r, bn_parent = p\<rparr>" by auto
  note L = Node.IH(1) [OF sub(1) room(2)] and R = Node.IH(2) [OF sub(2) room(3)]
  have "writes (rtrav_preorder room h (Some a)) ([x] @ map snd (preorder l) @ map snd (preorder r))"
    "writes (rtrav_inorder room h (Some a)) (map snd (inorder l) @ [x] @ map snd (inorder r))"
    "writes (rtrav_postorder room h (Some a)) (map snd (postorder l) @ map snd (postorder r) @ [x])"
    unfolding room(1) rtrav_node [where h = h, OF a] using L R by (intro writes_bind writes_put; simp)+
  then show ?case using n by simp
qed

lemma bintree_collect_ok:
  assumes "bt_shape t T" and "height T < room" and "size T \<le> length dest" and "length dest < size_max"
  shows "bintree_collect room (Some t) dest TRAV_PREORDER = Inr (True, fill dest 0 (map snd (preorder T)))"
    and "bintree_collect room (Some t) dest TRAV_INORDER = Inr (True, fill dest 0 (elems T))"
    and "bintree_collect room (Some t) dest TRAV_POSTORDER = Inr (True, fill dest 0 (map snd (postorder T)))"
  using rtrav_writes [of "bt_nodes t" None T room] assms
  by (cases "T = Leaf"; simp add: bintree_collect_def bt_shape_def TRAV_PREORDER_def TRAV_INORDER_def
      TRAV_POSTORDER_def writes_def elems_def fill_def)+

section \<open>Balancing\<close>

context cmp_order begin

text \<open>The search runs through everything around a place that is ordered with respect to the element.\<close>

lemma locate_through:
  assumes "x \<in> S" and "snd ` set (before C) \<subseteq> S" and "at_place cmp x C"
  shows "locate cmp x [] (plug C T) = locate cmp x C T"
  using assms(2,3)
proof (induction C T rule: plug.induct)
  case (2 n r C t)
  then have "at_place cmp x C" "cmp x (snd n) < 0" by (auto simp: at_place_def)
  with 2 show ?case by simp
next
  case (3 l n C t)
  then have "at_place cmp x C" "cmp (snd n) x < 0" "snd n \<in> S" by (auto simp: at_place_def)
  moreover from this(2,3) have "0 < cmp x (snd n)" using cmp_flip [OF assms(1)] by simp
  ultimately show ?case using 3 by (simp add: image_Un)
qed simp

lemma rbalance_ok:
  assumes new: "new_ok new" "\<And>A. finite A \<Longrightarrow> new A \<noteq> None"
    and xs: "set xs \<subseteq> S" "sorted_wrt (\<lambda>x y. cmp x y < 0) xs" "2 * length xs < size_max"
  shows "i \<le> j \<Longrightarrow> j < length xs \<Longrightarrow> Suc j - i < 2 ^ room \<Longrightarrow> bt_rep t (plug C Leaf) \<Longrightarrow> bt_cmpfn t = cmp \<Longrightarrow>
    snd ` set (before C) \<subseteq> S \<Longrightarrow> size (plug C Leaf) + (Suc j - i) < size_max \<Longrightarrow>
    \<forall>k \<in> {i..j}. at_place cmp (xs ! k) C \<Longrightarrow>
    \<exists>t' B. bintree_rbalance room new (Some t) (map Val xs) i j = Inr (Some t') \<and> bt_rep t' (plug C B) \<and>
      bt_cmpfn t' = cmp \<and> elems B = map ((!) xs) [i..<Suc j] \<and> (\<forall>k. Suc j - i < 2 ^ k \<longrightarrow> height B \<le> k)"
proof (induction room arbitrary: i j t C)
  case (Suc room)
  define mid where "mid = (i + j) div 2"
  define x where "x = xs ! mid"
  have mid: "i \<le> mid" "mid \<le> j" "mid < length xs" "i + j < size_max" "mid - i < 2 ^ room" "j - mid < 2 ^ room"
    using Suc.prems(1,2,3) xs(3) by (auto simp: mid_def)
  have x: "x \<in> S" using xs(1) mid(3) by (auto simp: x_def)
  have less: "cmp (xs ! k) (xs ! m) < 0" if "k < m" "m < length xs" for k m
    using sorted_wrt_nth_less [OF xs(2) that] .
  obtain a where a: "new (addrs (plug C Leaf)) = Some a" "a \<notin> addrs (plug C Leaf)"
    using new finite_addrs by (fastforce simp: new_ok_def)
  have "locate cmp x [] (plug C Leaf) = (C, Leaf)"
    using locate_through [OF x Suc.prems(6)] Suc.prems(8) mid by (simp add: x_def)
  then have "tree_insert cmp a x (plug C Leaf) = plug C (Node Leaf (a, x) Leaf)" by (simp add: tree_insert_def)
  with bintree_insert_ok [where new = new, OF Suc.prems(4) a] Suc.prems(1,5,7) obtain t1 where
    t1: "bintree_insert new (Some t) (Some x) = Inr (True, Some t1)" "bt_cmpfn t1 = cmp"
      "bt_rep t1 (plug C (Node Leaf (a, x) Leaf))" by fastforce
  have left: "\<exists>t2 L. (if i < mid then bintree_rbalance room new (Some t1) (map Val xs) i (sz_sub mid 1) else Inr (Some t1)) =
      Inr (Some t2) \<and> bt_rep t2 (plug C (Node L (a, x) Leaf)) \<and> bt_cmpfn t2 = cmp \<and> elems L = map ((!) xs) [i..<mid] \<and>
      (\<forall>k. mid - i < 2 ^ k \<longrightarrow> height L \<le> k)"
  proof (cases "i < mid")
    case True
    have "at_place cmp (xs ! k) (InL (a, x) Leaf # C)" if "k \<in> {i..mid - 1}" for k
      using that True Suc.prems(8) mid less [of k mid] by (auto simp: at_place_def x_def)
    with True mid t1(2,3) Suc.prems(6,7) Suc.IH [of i "mid - 1" t1 "InL (a, x) Leaf # C"]
    show ?thesis by (auto simp: sz_simps size_plug)
  next
    case False
    then show ?thesis using t1 by (intro exI [of _ t1] exI [of _ Leaf]) auto
  qed
  then obtain t2 L where t2: "(if i < mid then bintree_rbalance room new (Some t1) (map Val xs) i (sz_sub mid 1)
      else Inr (Some t1)) = Inr (Some t2)" "bt_rep t2 (plug C (Node L (a, x) Leaf))" "bt_cmpfn t2 = cmp"
      "elems L = map ((!) xs) [i..<mid]" "\<forall>k. mid - i < 2 ^ k \<longrightarrow> height L \<le> k" by blast
  have sizeL: "size L = mid - i" using arg_cong [OF t2(4), of length] by simp
  have elemsL: "\<exists>k < mid. y = xs ! k" if "y \<in> snd ` set_tree L" for y
  proof -
    have "y \<in> set (elems L)" using that by (simp add: elems_def)
    then show ?thesis unfolding t2(4) by auto
  qed
  have right: "\<exists>t3 R. (if mid < j then bintree_rbalance room new (Some t2) (map Val xs) (sz_add mid 1) j else Inr (Some t2)) =
      Inr (Some t3) \<and> bt_rep t3 (plug C (Node L (a, x) R)) \<and> bt_cmpfn t3 = cmp \<and>
      elems R = map ((!) xs) [Suc mid..<Suc j] \<and> (\<forall>k. j - mid < 2 ^ k \<longrightarrow> height R \<le> k)"
  proof (cases "mid < j")
    case True
    have "at_place cmp (xs ! k) (InR L (a, x) # C)" if "k \<in> {Suc mid..j}" for k
    proof -
      have k: "mid < k" "k < length xs" "at_place cmp (xs ! k) C" using that Suc.prems(2,8) mid(1) by auto
      have "cmp y (xs ! k) < 0" if "y \<in> snd ` set_tree L" for y
        using elemsL [OF that] less [of _ k] k(1,2) by (meson less_trans)
      with k less [of mid k] show ?thesis by (auto simp: at_place_def x_def)
    qed
    moreover have "snd ` set (before (InR L (a, x) # C)) \<subseteq> S"
    proof -
      have "snd ` set_tree L \<subseteq> S"
      proof
        fix y assume "y \<in> snd ` set_tree L"
        from elemsL [OF this] mid(3) xs(1) show "y \<in> S" by auto
      qed
      with Suc.prems(6) x show ?thesis by auto
    qed
    ultimately show ?thesis
      using True mid t2(2,3) Suc.prems(2,7) sizeL Suc.IH [of "Suc mid" j t2 "InR L (a, x) # C"]
      by (auto simp: sz_simps size_plug)
  next
    case False
    then show ?thesis using t2 mid(2) by (intro exI [of _ t2] exI [of _ Leaf]) auto
  qed
  then obtain t3 R where t3: "(if mid < j then bintree_rbalance room new (Some t2) (map Val xs) (sz_add mid 1) j
      else Inr (Some t2)) = Inr (Some t3)" "bt_rep t3 (plug C (Node L (a, x) R))" "bt_cmpfn t3 = cmp"
      "elems R = map ((!) xs) [Suc mid..<Suc j]" "\<forall>k. j - mid < 2 ^ k \<longrightarrow> height R \<le> k" by blast
  have "sz_add i j div 2 = mid" using mid(4) by (simp add: sz_simps mid_def)
  moreover have "arr_get (map Val xs) mid = Inr x" using arr_get_Val [OF mid(3), of "[]"] by (simp add: x_def)
  ultimately have "bintree_rbalance (Suc room) new (Some t) (map Val xs) i j = Inr (Some t3)"
    by (simp only: bintree_rbalance.simps Let_def bind_res_Inr t1(1) snd_conv t2(1) t3(1))
  moreover have "elems (Node L (a, x) R) = map ((!) xs) [i..<Suc j]"
  proof -
    have "[i..<Suc j] = [i..<mid] @ [mid..<Suc j]" using mid by (metis le_SucI upt_add_eq_append le_Suc_ex)
    also have "[mid..<Suc j] = mid # [Suc mid..<Suc j]" using mid by (simp add: upt_conv_Cons)
    finally show ?thesis using t2(4) t3(4) by (simp add: x_def)
  qed
  moreover have "height (Node L (a, x) R) \<le> k" if k: "Suc j - i < 2 ^ k" for k
  proof (cases k)
    case 0
    with k Suc.prems(1) show ?thesis by simp
  next
    case (Suc k')
    with k have "mid - i < 2 ^ k'" "j - mid < 2 ^ k'" using Suc.prems(1) by (auto simp: mid_def)
    with t2(5) t3(5) Suc show ?thesis by auto
  qed
  ultimately show ?case using t3(2,3) by blast
qed simp

end

lemma balance_ok:
  assumes order: "cmp_order S (bt_cmpfn t)" and rep: "bt_rep t T" and st: "search_tree S (bt_cmpfn t) T"
    and ne: "T \<noteq> Leaf" and sz: "size T < max_cells" and mem: "alloc (size T * ptr_size)" and room: "height T < room"
    and new: "new_ok new" "\<And>A. finite A \<Longrightarrow> new A \<noteq> None"
  shows "\<exists>t' B. bintree_balance alloc new room t = Inr t' \<and> bt_rep t' B \<and> bt_cmpfn t' = bt_cmpfn t \<and>
    elems B = elems T \<and> (\<forall>k. size T < 2 ^ k \<longrightarrow> height B \<le> k)"
proof -
  have n: "sz_mul (size T) ptr_size = size T * ptr_size" "block_cells (size T) = size T" "size T < size_max"
    "2 * size T < size_max" "0 < size T"
    using sz ne by (simp_all add: sz_simps max_cells_def size_max_def ptr_size_def neq0_conv [symmetric] del: neq0_conv)
  let ?arr = "replicate (size T) Undef :: 'a cell list"
  have collect: "bintree_collect room (Some t) ?arr TRAV_INORDER = Inr (True, map Val (elems T))"
    using bintree_collect_ok(2) [of t T room ?arr] rep room n(3) by (simp add: bt_rep_def fill_all)
  obtain t1 where t1: "bintree_clear room (Some t) = Inr (Some t1)" "bt_rep t1 Leaf" "bt_cmpfn t1 = bt_cmpfn t"
    using bintree_clear_ok [OF rep room] by blast
  have "size T < 2 ^ room"
  proof -
    have "Suc (size T) \<le> 2 ^ height T" using size1_height [of T] by (simp add: size1_size)
    also have "\<dots> \<le> 2 ^ room" using room by (intro power_increasing) auto
    finally show ?thesis by simp
  qed
  then obtain t' B where B: "bintree_rbalance room new (Some t1) (map Val (elems T)) 0 (size T - 1) = Inr (Some t')"
    "bt_rep t' B" "bt_cmpfn t' = bt_cmpfn t" "elems B = map ((!) (elems T)) [0..<Suc (size T - 1)]"
    "\<forall>k. Suc (size T - 1) - 0 < 2 ^ k \<longrightarrow> height B \<le> k"
    using cmp_order.rbalance_ok [where new = new and xs = "elems T" and C = "[]" and i = 0 and j = "size T - 1" and
        room = room and t = t1, OF order new] st n t1(2,3) by (auto simp: search_tree_def at_place_def)
  have "elems B = elems T" using B(4) n(5) map_nth [of "elems T"] by simp
  moreover have "bintree_balance alloc new room t = Inr t'"
    using rep ne n mem collect t1(1) B(1)
    by (simp add: bintree_balance_def bt_rep_def Let_def sz_simps cong del: bind_res_weak_cong)
  ultimately show ?thesis using B n(5) by auto
qed

section \<open>Properties\<close>



text \<open>
  balancing a tree without elements does not work: a tree that was cleared is read beyond the end of
  the array of no elements, and a tree nothing was ever inserted into has no count.
\<close>

theorem bintree_balance_empty:
  assumes "bt_root t = None" and "bt_count t = Undef \<or> bt_count t = Val 0" and "0 < room"
  shows "bintree_balance alloc new room t = Inl (if bt_count t = Undef then Indeterminate else Out_Of_Bounds)"
proof (cases "bt_count t = Undef")
  case False
  with assms have c: "bt_count t = Val 0" by simp
  obtain room' where room: "room = Suc room'" using assms(3) by (cases room) auto
  show ?thesis
    by (simp add: bintree_balance_def c room assms(1) bintree_collect_def bintree_clear_def
        block_cells_def sz_mul_def arr_get_out)
qed (simp add: bintree_balance_def read_cell_def)

theorem bintree_balance_empty_witness:
  "\<exists>t. bintree_init (mem_upto 100) chcmp = Inr t \<and> bintree_balance (mem_upto 100) new_above 8 t = Inl Indeterminate"
  using bintree_balance_empty [of "\<lparr>bt_count = Undef, bt_cmpfn = chcmp, bt_root = None, bt_iter = None,
    bt_travtype = Undef, bt_nodes = Map.empty\<rparr>" 8 "mem_upto 100" new_above]
  by (simp add: bintree_init_def mem_upto_def sizeof_bintree_def)

end
