(* ===== verification/BinTreeIter.thy ===== *)
theory BinTreeIter imports BinTreeScan "HOL-Library.Multiset" begin

text \<open>
  bintree.c, the iterator: it keeps a pointer to the current node and finds the next one in preorder,
  inorder or postorder through the child and parent pointers, without a stack. The locale
  \<open>traversal\<close> is what the three orders have in common; it is interpreted for each of them.
\<close>

section \<open>The code\<close>

text \<open>The last statement of every step: \<open>return t->iter->data\<close>.\<close>

definition bt_yield :: "'a bintree \<Rightarrow> ref \<Rightarrow> ('a option \<times> 'a bintree) res" where
  "bt_yield t p = bind_res (bt_deref (bt_nodes t) p) (\<lambda>nd. Inr (Some (bn_data nd), t\<lparr>bt_iter := p\<rparr>))"

definition bt_done :: "'a bintree \<Rightarrow> ('a option \<times> 'a bintree) res" where
  "bt_done t = Inr (None, t\<lparr>bt_iter := None\<rparr>)"

definition leftmost_body :: "'a bt_store \<Rightarrow> ref \<Rightarrow> (ref, ref) step res" where
  "leftmost_body h p =
     bind_res (bt_deref h p) (\<lambda>nd. Inr (if bn_left nd \<noteq> None then Continue (bn_left nd) else Break p))"

definition leaf_body :: "'a bt_store \<Rightarrow> ref \<Rightarrow> (ref, ref) step res" where
  "leaf_body h p =
     bind_res (bt_deref h p) (\<lambda>nd.
     Inr (if bn_left nd \<noteq> None \<or> bn_right nd \<noteq> None
          then Continue (if bn_left nd \<noteq> None then bn_left nd else bn_right nd) else Break p))"

definition first_preorder :: "'a bintree \<Rightarrow> ('a option \<times> 'a bintree) res" where
  "first_preorder t = bt_yield t (bt_root t)"

definition first_inorder :: "'a bintree \<Rightarrow> ('a option \<times> 'a bintree) res" where
  "first_inorder t = bind_res (c_loop (leftmost_body (bt_nodes t)) (bt_root t)) (bt_yield t)"

definition first_postorder :: "'a bintree \<Rightarrow> ('a option \<times> 'a bintree) res" where
  "first_postorder t = bind_res (c_loop (leaf_body (bt_nodes t)) (bt_root t)) (bt_yield t)"

text \<open>
  Preorder from a leaf: the inner loop goes up while we are a right child; at the root it is over;
  a left child whose parent has no right child goes up once more and repeats.
\<close>

definition climb_body :: "'a bt_store \<Rightarrow> ref \<Rightarrow> (ref, ref) step res" where
  "climb_body h p =
     bind_res (bt_deref h p) (\<lambda>nd.
     if bn_parent nd = None then Inr (Break p)
     else
       bind_res (bt_deref h (bn_parent nd)) (\<lambda>pn.
       Inr (if bn_right pn = p then Continue (bn_parent nd) else Break p)))"

definition preorder_up_body :: "'a bt_store \<Rightarrow> ref \<Rightarrow> (ref, ref) step res" where
  "preorder_up_body h p =
     bind_res (c_loop (climb_body h) p) (\<lambda>q.
     bind_res (bt_deref h q) (\<lambda>nd.
     if bn_parent nd = None then Inr (Break None)
     else
       bind_res (bt_deref h (bn_parent nd)) (\<lambda>pn.
       Inr (if bn_right pn = None then Continue (bn_parent nd) else Break (bn_right pn)))))"

definition next_preorder :: "'a bintree \<Rightarrow> ('a option \<times> 'a bintree) res" where
  "next_preorder t =
     bind_res (bt_deref (bt_nodes t) (bt_iter t)) (\<lambda>nd.
     if bn_left nd \<noteq> None then bt_yield t (bn_left nd)
     else if bn_right nd \<noteq> None then bt_yield t (bn_right nd)
     else
       bind_res (c_loop (preorder_up_body (bt_nodes t)) (bt_iter t)) (\<lambda>p.
       if p = None then bt_done t else bt_yield t p))"

text \<open>Inorder without a right child: up until we arrive from the left, or at the root.\<close>

definition inorder_up_body :: "'a bt_store \<Rightarrow> ref \<Rightarrow> (ref, ref \<times> bool) step res" where
  "inorder_up_body h prev =
     bind_res (bt_deref h prev) (\<lambda>nd.
     bind_res (bt_deref h (bn_parent nd)) (\<lambda>pn.
     let lft = (bn_left pn = prev) in
     Inr (if \<not> lft \<and> bn_parent pn \<noteq> None then Continue (bn_parent nd) else Break (bn_parent nd, lft))))"

definition next_inorder :: "'a bintree \<Rightarrow> ('a option \<times> 'a bintree) res" where
  "next_inorder t =
     bind_res (bt_deref (bt_nodes t) (bt_iter t)) (\<lambda>nd.
     if bn_right nd \<noteq> None then bind_res (c_loop (leftmost_body (bt_nodes t)) (bn_right nd)) (bt_yield t)
     else if bn_parent nd = None then bt_done t
     else
       bind_res (c_loop (inorder_up_body (bt_nodes t)) (bt_iter t)) (\<lambda>(p, lft).
       bind_res (bt_deref (bt_nodes t) p) (\<lambda>pn.
       if bn_parent pn = None \<and> \<not> lft then bt_done t else bt_yield t p)))"

definition next_postorder :: "'a bintree \<Rightarrow> ('a option \<times> 'a bintree) res" where
  "next_postorder t =
     bind_res (bt_deref (bt_nodes t) (bt_iter t)) (\<lambda>nd.
     if bn_parent nd = None then bt_done t
     else
       bind_res (bt_deref (bt_nodes t) (bn_parent nd)) (\<lambda>pn.
       if bn_left pn = bt_iter t \<and> bn_right pn \<noteq> None
       then bind_res (c_loop (leaf_body (bt_nodes t)) (bn_right pn)) (bt_yield t)
       else bt_yield t (bn_parent nd)))"

definition bintree_next :: "'a bintree \<Rightarrow> ('a option \<times> 'a bintree) res" where
  "bintree_next t =
     bind_res (read_cell (bt_travtype t)) (\<lambda>travtype.
     if travtype = TRAV_PREORDER then next_preorder t
     else if travtype = TRAV_INORDER then next_inorder t
     else if travtype = TRAV_POSTORDER then next_postorder t
     else Inr (None, t))"

definition bintree_first :: "'a bintree \<Rightarrow> int \<Rightarrow> ('a option \<times> 'a bintree) res" where
  "bintree_first t travtype =
     (let t1 = t\<lparr>bt_travtype := Val travtype, bt_iter := None\<rparr> in
      if travtype = TRAV_PREORDER then first_preorder t1
      else if travtype = TRAV_INORDER then first_inorder t1
      else if travtype = TRAV_POSTORDER then first_postorder t1
      else Inr (None, t1))"

section \<open>Finding the next node\<close>

lemma leftmost_ok:
  "tree_in h p T \<Longrightarrow> T \<noteq> Leaf \<Longrightarrow>
   \<exists>C' n r. c_loop (leftmost_body h) (root_ref T) = Inr (Some (fst n)) \<and> plug C' (Node Leaf n r) = plug C T \<and>
     inorder T @ after C = n # inorder r @ after C'"
proof (induction T arbitrary: p C)
  case (Node l n r)
  obtain a x where n: "n = (a, x)" by fastforce
  with Node.prems have sub: "tree_in h (Some a) l" and b: "leftmost_body h (root_ref (Node l n r)) =
      Inr (if l \<noteq> Leaf then Continue (root_ref l) else Break (Some (fst n)))"
    by (auto simp: leftmost_body_def)
  show ?case
  proof (cases "l = Leaf")
    case True
    with b have "c_loop (leftmost_body h) (root_ref (Node l n r)) = Inr (Some (fst n))" by (simp add: c_loop_Break)
    with True show ?thesis by (intro exI [of _ C] exI [of _ n] exI [of _ r]) simp
  next
    case False
    with b have "c_loop (leftmost_body h) (root_ref (Node l n r)) = c_loop (leftmost_body h) (root_ref l)"
      by (simp add: c_loop_Continue)
    with Node.IH(1) [OF sub False, of "InL n r # C"] show ?thesis by simp
  qed
qed simp

fun after_post :: "'a frame list \<Rightarrow> (nat \<times> 'a) list" where
  "after_post [] = []"
| "after_post (InL n r # C) = postorder r @ n # after_post C"
| "after_post (InR l n # C) = n # after_post C"

lemma leaf_ok:
  "tree_in h p T \<Longrightarrow> T \<noteq> Leaf \<Longrightarrow>
   \<exists>C' n. c_loop (leaf_body h) (root_ref T) = Inr (Some (fst n)) \<and> plug C' (Node Leaf n Leaf) = plug C T \<and>
     postorder T @ after_post C = n # after_post C'"
proof (induction T arbitrary: p C)
  case (Node l n r)
  obtain a x where n: "n = (a, x)" by fastforce
  with Node.prems have sub: "tree_in h (Some a) l" "tree_in h (Some a) r" and b: "leaf_body h (root_ref (Node l n r)) =
      Inr (if l \<noteq> Leaf \<or> r \<noteq> Leaf then Continue (if l \<noteq> Leaf then root_ref l else root_ref r) else Break (Some (fst n)))"
    by (auto simp: leaf_body_def)
  consider "l \<noteq> Leaf" | "l = Leaf" "r \<noteq> Leaf" | "l = Leaf" "r = Leaf" by blast
  then show ?case
  proof cases
    case 1
    with b have "c_loop (leaf_body h) (root_ref (Node l n r)) = c_loop (leaf_body h) (root_ref l)"
      by (simp add: c_loop_Continue)
    with Node.IH(1) [OF sub(1) 1, of "InL n r # C"] show ?thesis by simp
  next
    case 2
    with b have "c_loop (leaf_body h) (root_ref (Node l n r)) = c_loop (leaf_body h) (root_ref r)"
      by (simp add: c_loop_Continue)
    with 2 Node.IH(2) [OF sub(2) 2(2), of "InR l n # C"] show ?thesis by simp
  next
    case 3
    with b have "c_loop (leaf_body h) (root_ref (Node l n r)) = Inr (Some (fst n))" by (simp add: c_loop_Break)
    with 3 show ?thesis by (intro exI [of _ C] exI [of _ n]) simp
  qed
qed simp

text \<open>Going up in order: the first step of the path that leads left, or the root.\<close>

lemma inorder_up_ok:
  assumes "tree_in h None (plug C (Node l (a, x) r))" and "distinct_addrs (plug C (Node l (a, x) r))" and "C \<noteq> []"
  shows "\<exists>p lft pn. c_loop (inorder_up_body h) (Some a) = Inr (p, lft) \<and> bt_deref h p = Inr pn \<and>
    (if after C = [] then bn_parent pn = None \<and> \<not> lft
     else lft \<and> (\<exists>C' l' m r'. p = Some (fst m) \<and> bn_data pn = snd m \<and>
       plug C' (Node l' m r') = plug C (Node l (a, x) r) \<and> after C = m # inorder r' @ after C'))"
  using assms
proof (induction C arbitrary: l a x r)
  case (Cons f C)
  show ?case
  proof (cases f)
    case (InL m r')
    obtain b y where m: "m = (b, y)" by fastforce
    with InL Cons.prems(1) have "inorder_up_body h (Some a) = Inr (Break (Some b, True))"
      by (auto simp: inorder_up_body_def tree_in_plug)
    then have "c_loop (inorder_up_body h) (Some a) = Inr (Some b, True)" by (rule c_loop_Break)
    moreover obtain pn where "bt_deref h (Some b) = Inr pn" "bn_data pn = y"
      using InL m Cons.prems(1) by (auto simp: tree_in_plug)
    moreover have "after (f # C) = m # inorder r' @ after C \<and> plug C (Node (Node l (a, x) r) m r') = plug (f # C) (Node l (a, x) r)"
      using InL by simp
    ultimately show ?thesis using m
      by (intro exI [of _ "Some b"] exI [of _ True] exI [of _ pn]) (metis fst_conv snd_conv list.distinct(1))
  next
    case (InR l' m)
    obtain b y where m: "m = (b, y)" by fastforce
    have up: "tree_in h None (plug C (Node l' (b, y) (Node l (a, x) r)))"
      "distinct_addrs (plug C (Node l' (b, y) (Node l (a, x) r)))" using Cons.prems(1,2) InR m by auto
    have "a \<notin> addrs l'" using up(2) by (auto simp: distinct_plug)
    then have "root_ref l' \<noteq> Some a" using root_ref_addrs by blast
    then have body: "inorder_up_body h (Some a) = Inr (if C = [] then Break (Some b, False) else Continue (Some b))"
      using up(1) by (auto simp: inorder_up_body_def tree_in_plug)
    show ?thesis
    proof (cases "C = []")
      case True
      then have "c_loop (inorder_up_body h) (Some a) = Inr (Some b, False)" using body by (simp add: c_loop_Break)
      with True InR up(1) show ?thesis by auto
    next
      case False
      then have loop: "c_loop (inorder_up_body h) (Some a) = c_loop (inorder_up_body h) (Some b)"
        using body by (simp add: c_loop_Continue)
      have f: "after (f # C) = after C" "plug (f # C) (Node l (a, x) r) = plug C (Node l' (b, y) (Node l (a, x) r))"
        using InR m by simp_all
      show ?thesis unfolding loop f by (rule Cons.IH [OF up False])
    qed
  qed
qed simp

text \<open>Going up in preorder: to the right child of the first node that we reach from the left and that has one.\<close>

fun after_pre :: "'a frame list \<Rightarrow> (nat \<times> 'a) list" where
  "after_pre [] = []"
| "after_pre (InL n r # C) = preorder r @ after_pre C"
| "after_pre (InR l n # C) = after_pre C"

lemma c_loop_same: "body s = body s' \<Longrightarrow> c_loop body s = c_loop body s'"
  by (subst (1 2) c_loop_unfold) simp

lemma preorder_up_ok:
  assumes "tree_in h None (plug C (Node l (a, x) r))" and "distinct_addrs (plug C (Node l (a, x) r))"
  shows "\<exists>p. c_loop (preorder_up_body h) (Some a) = Inr p \<and>
    (if after_pre C = [] then p = None
     else \<exists>C' T. T \<noteq> Leaf \<and> p = root_ref T \<and> plug C' T = plug C (Node l (a, x) r) \<and>
       after_pre C = preorder T @ after_pre C')"
  using assms
proof (induction C arbitrary: l a x r)
  case Nil
  then have "climb_body h (Some a) = Inr (Break (Some a))" by (simp add: climb_body_def)
  with Nil have "preorder_up_body h (Some a) = Inr (Break None)" by (simp add: preorder_up_body_def c_loop_Break)
  then show ?case by (simp add: c_loop_Break)
next
  case (Cons f C)
  show ?case
  proof (cases f)
    case (InL m r')
    obtain b y where m: "m = (b, y)" by fastforce
    have up: "tree_in h None (plug C (Node (Node l (a, x) r) (b, y) r'))"
      "distinct_addrs (plug C (Node (Node l (a, x) r) (b, y) r'))" using Cons.prems InL m by auto
    then have "a \<notin> addrs r'" by (auto simp: distinct_plug)
    then have "root_ref r' \<noteq> Some a" using root_ref_addrs by blast
    then have "climb_body h (Some a) = Inr (Break (Some a))" using up(1) by (auto simp: climb_body_def tree_in_plug)
    then have "c_loop (climb_body h) (Some a) = Inr (Some a)" by (rule c_loop_Break)
    then have body: "preorder_up_body h (Some a) = Inr (if r' = Leaf then Continue (Some b) else Break (root_ref r'))"
      using up(1) by (auto simp: preorder_up_body_def tree_in_plug)
    have f: "plug (f # C) (Node l (a, x) r) = plug C (Node (Node l (a, x) r) (b, y) r')"
      "after_pre (f # C) = preorder r' @ after_pre C" using InL m by simp_all
    show ?thesis
    proof (cases "r' = Leaf")
      case True
      with body have loop: "c_loop (preorder_up_body h) (Some a) = c_loop (preorder_up_body h) (Some b)"
        by (simp add: c_loop_Continue)
      show ?thesis unfolding loop f True preorder.simps append_Nil by (rule Cons.IH [OF up [unfolded True]])
    next
      case False
      with body have "c_loop (preorder_up_body h) (Some a) = Inr (root_ref r')" by (simp add: c_loop_Break)
      moreover have "plug (InR (Node l (a, x) r) (b, y) # C) r' = plug (f # C) (Node l (a, x) r)"
        "after_pre (InR (Node l (a, x) r) (b, y) # C) = after_pre C" using InL m by simp_all
      ultimately show ?thesis using False f(2)
        by (intro exI [of _ "root_ref r'"]) (metis append_is_Nil_conv preorder_eq_Nil_iff)
    qed
  next
    case (InR l' m)
    obtain b y where m: "m = (b, y)" by fastforce
    have up: "tree_in h None (plug C (Node l' (b, y) (Node l (a, x) r)))"
      "distinct_addrs (plug C (Node l' (b, y) (Node l (a, x) r)))" using Cons.prems InR m by auto
    then have "climb_body h (Some a) = Inr (Continue (Some b))" by (auto simp: climb_body_def tree_in_plug)
    then have "c_loop (climb_body h) (Some a) = c_loop (climb_body h) (Some b)" by (rule c_loop_Continue)
    then have loop: "c_loop (preorder_up_body h) (Some a) = c_loop (preorder_up_body h) (Some b)"
      by (intro c_loop_same) (simp add: preorder_up_body_def)
    have f: "after_pre (f # C) = after_pre C" "plug (f # C) (Node l (a, x) r) = plug C (Node l' (b, y) (Node l (a, x) r))"
      using InR m by simp_all
    show ?thesis unfolding loop f by (rule Cons.IH [OF up])
  qed
qed

section \<open>Traversals\<close>

text \<open>
  A position is a path and the subtree there. \<open>rest C l n r\<close> are the nodes a traversal has yet to visit
  after the node \<open>n\<close> at the position: the contract is that one step goes to the first of them, and ends
  when there is none.
\<close>

definition bt_here :: "'a bintree \<Rightarrow> 'a frame list \<Rightarrow> 'a shape \<Rightarrow> (nat \<times> 'a) \<Rightarrow> 'a shape \<Rightarrow> bool" where
  "bt_here t C l n r \<longleftrightarrow> bt_shape t (plug C (Node l n r)) \<and> bt_iter t = Some (fst n)"

fun nexts :: "('t \<Rightarrow> ('a option \<times> 't) res) \<Rightarrow> nat \<Rightarrow> 't \<Rightarrow> 'a option list res" where
  "nexts step 0 t = Inr []"
| "nexts step (Suc k) t = bind_res (step t) (\<lambda>(x, t'). bind_res (nexts step k t') (\<lambda>xs. Inr (x # xs)))"

locale traversal =
  fixes rest :: "'a frame list \<Rightarrow> 'a shape \<Rightarrow> (nat \<times> 'a) \<Rightarrow> 'a shape \<Rightarrow> (nat \<times> 'a) list"
    and step :: "'a bintree \<Rightarrow> ('a option \<times> 'a bintree) res"
  assumes step_end: "bt_here t C l n r \<Longrightarrow> rest C l n r = [] \<Longrightarrow> step t = bt_done t"
    and step_go: "bt_here t C l n r \<Longrightarrow> rest C l n r = m # ms \<Longrightarrow>
      \<exists>C' l' r'. step t = Inr (Some (snd m), t\<lparr>bt_iter := Some (fst m)\<rparr>) \<and>
        plug C' (Node l' m r') = plug C (Node l n r) \<and> rest C' l' m r' = ms"
begin

lemma nexts_ok:
  "bt_here t C l n r \<Longrightarrow>
   nexts step (Suc (length (rest C l n r))) t = Inr (map (\<lambda>m. Some (snd m)) (rest C l n r) @ [None])"
proof (induction "rest C l n r" arbitrary: t C l n r)
  case Nil
  with step_end [OF Nil.prems] show ?case by (simp add: bt_done_def)
next
  case (Cons m ms)
  from step_go [OF Cons.prems Cons.hyps(2) [symmetric]] obtain C' l' r' where
    s: "step t = Inr (Some (snd m), t\<lparr>bt_iter := Some (fst m)\<rparr>)" "plug C' (Node l' m r') = plug C (Node l n r)"
      "rest C' l' m r' = ms" by blast
  have "bt_here (t\<lparr>bt_iter := Some (fst m)\<rparr>) C' l' m r'"
    using Cons.prems s(2) by (simp add: bt_here_def bt_shape_def)
  from Cons.hyps(1) [OF s(3) [symmetric] this] s Cons.hyps(2) [symmetric] show ?case by simp
qed

end

lemma yield_here:
  "bt_shape t (plug C (Node l m r)) \<Longrightarrow> bt_yield t (Some (fst m)) = Inr (Some (snd m), t\<lparr>bt_iter := Some (fst m)\<rparr>)"
  by (cases m) (auto simp: bt_yield_def bt_shape_def tree_in_plug)

lemma node_here:
  "bt_here t C l n r \<Longrightarrow> bt_deref (bt_nodes t) (bt_iter t) =
     Inr \<lparr>bn_data = snd n, bn_left = root_ref l, bn_right = root_ref r, bn_parent = up C\<rparr>"
  by (cases n) (auto simp: bt_here_def bt_shape_def tree_in_plug)

lemma subtrees_here:
  "bt_here t C l n r \<Longrightarrow> tree_in (bt_nodes t) (Some (fst n)) l \<and> tree_in (bt_nodes t) (Some (fst n)) r"
  by (cases n) (auto simp: bt_here_def bt_shape_def tree_in_plug)

definition rest_pre :: "'a frame list \<Rightarrow> 'a shape \<Rightarrow> (nat \<times> 'a) \<Rightarrow> 'a shape \<Rightarrow> (nat \<times> 'a) list" where
  "rest_pre C l n r = preorder l @ preorder r @ after_pre C"

definition rest_in :: "'a frame list \<Rightarrow> 'a shape \<Rightarrow> (nat \<times> 'a) \<Rightarrow> 'a shape \<Rightarrow> (nat \<times> 'a) list" where
  "rest_in C l n r = inorder r @ after C"

definition rest_post :: "'a frame list \<Rightarrow> 'a shape \<Rightarrow> (nat \<times> 'a) \<Rightarrow> 'a shape \<Rightarrow> (nat \<times> 'a) list" where
  "rest_post C l n r = after_post C"

interpretation preorder: traversal rest_pre next_preorder
proof
  fix t :: "'a bintree" and C l n r
  assume here: "bt_here t C l n r"
  obtain a x where n: "n = (a, x)" by fastforce
  have shape: "bt_shape t (plug C (Node l n r))" and it: "bt_iter t = Some a" using here n by (simp_all add: bt_here_def)
  note node = node_here [OF here]
  obtain p where p: "c_loop (preorder_up_body (bt_nodes t)) (Some a) = Inr p"
    "if after_pre C = [] then p = None
     else \<exists>C' T. T \<noteq> Leaf \<and> p = root_ref T \<and> plug C' T = plug C (Node l (a, x) r) \<and>
       after_pre C = preorder T @ after_pre C'"
    using preorder_up_ok [of "bt_nodes t" C l a x r] shape n by (auto simp: bt_shape_def)
  show "next_preorder t = bt_done t" if "rest_pre C l n r = []"
    using that node p it by (simp add: next_preorder_def rest_pre_def)
  fix m ms
  assume rest: "rest_pre C l n r = m # ms"
  have down: "\<exists>C' l' r'. bt_yield t (root_ref T) = Inr (Some (snd m), t\<lparr>bt_iter := Some (fst m)\<rparr>) \<and>
      plug C' (Node l' m r') = plug C (Node l n r) \<and> rest_pre C' l' m r' = ms"
    if T: "T \<noteq> Leaf" "plug D T = plug C (Node l n r)" "preorder T @ after_pre D = m # ms" for T D
  proof -
    obtain l' r' where "T = Node l' m r'" using T(1,3) by (cases T) auto
    with T yield_here [of t D l' m r'] shape show ?thesis
      by (intro exI [of _ D] exI [of _ l'] exI [of _ r']) (auto simp: rest_pre_def)
  qed
  consider "l \<noteq> Leaf" | "l = Leaf" "r \<noteq> Leaf" | "l = Leaf" "r = Leaf" by blast
  then show "\<exists>C' l' r'. next_preorder t = Inr (Some (snd m), t\<lparr>bt_iter := Some (fst m)\<rparr>) \<and>
      plug C' (Node l' m r') = plug C (Node l n r) \<and> rest_pre C' l' m r' = ms"
  proof cases
    case 1
    with down [of l "InL n r # C"] node rest show ?thesis by (simp add: next_preorder_def rest_pre_def)
  next
    case 2
    with down [of r "InR l n # C"] node rest show ?thesis by (simp add: next_preorder_def rest_pre_def)
  next
    case 3
    then have "after_pre C = m # ms" using rest by (simp add: rest_pre_def)
    with p(2) n obtain D T where "T \<noteq> Leaf" "p = root_ref T" "plug D T = plug C (Node l n r)"
      "preorder T @ after_pre D = m # ms" by auto
    with down [of T D] node p(1) it 3 show ?thesis by (simp add: next_preorder_def)
  qed
qed

interpretation inorder: traversal rest_in next_inorder
proof
  fix t :: "'a bintree" and C l n r
  assume here: "bt_here t C l n r"
  obtain a x where n: "n = (a, x)" by fastforce
  have shape: "bt_shape t (plug C (Node l n r))" and it: "bt_iter t = Some a" using here n by (simp_all add: bt_here_def)
  note node = node_here [OF here]
  have up_ok: "C \<noteq> [] \<Longrightarrow> \<exists>p lft pn. c_loop (inorder_up_body (bt_nodes t)) (Some a) = Inr (p, lft) \<and>
    bt_deref (bt_nodes t) p = Inr pn \<and>
    (if after C = [] then bn_parent pn = None \<and> \<not> lft
     else lft \<and> (\<exists>C' l' m r'. p = Some (fst m) \<and> bn_data pn = snd m \<and>
       plug C' (Node l' m r') = plug C (Node l (a, x) r) \<and> after C = m # inorder r' @ after C'))"
    using inorder_up_ok [of "bt_nodes t" C l a x r] shape n by (simp add: bt_shape_def)
  show "next_inorder t = bt_done t" if rest: "rest_in C l n r = []"
    using rest node up_ok it by (cases "C = []") (auto simp: next_inorder_def rest_in_def)
  fix m ms
  assume rest: "rest_in C l n r = m # ms"
  show "\<exists>C' l' r'. next_inorder t = Inr (Some (snd m), t\<lparr>bt_iter := Some (fst m)\<rparr>) \<and>
      plug C' (Node l' m r') = plug C (Node l n r) \<and> rest_in C' l' m r' = ms"
  proof (cases "r = Leaf")
    case False
    obtain C' m' r' where L: "c_loop (leftmost_body (bt_nodes t)) (root_ref r) = Inr (Some (fst m'))"
      "plug C' (Node Leaf m' r') = plug C (Node l n r)" "inorder r @ after C = m' # inorder r' @ after C'"
      using leftmost_ok [of "bt_nodes t" "Some a" r "InR l n # C"] False subtrees_here [OF here] n by auto
    with rest have m: "m' = m" "inorder r' @ after C' = ms" by (auto simp: rest_in_def)
    with L yield_here [of t C' Leaf m r'] shape node False show ?thesis
      by (intro exI [of _ C'] exI [of _ Leaf] exI [of _ r']) (simp add: next_inorder_def rest_in_def)
  next
    case True
    with rest have after: "after C = m # ms" by (simp add: rest_in_def)
    then have C: "C \<noteq> []" by auto
    from up_ok [OF C] after n obtain p pn C' l' r' where
      U: "c_loop (inorder_up_body (bt_nodes t)) (Some a) = Inr (p, True)" "bt_deref (bt_nodes t) p = Inr pn"
        "p = Some (fst m)" "plug C' (Node l' m r') = plug C (Node l n r)" "ms = inorder r' @ after C'" by auto
    with yield_here [of t C' l' m r'] shape node True it C show ?thesis
      by (intro exI [of _ C'] exI [of _ l'] exI [of _ r']) (simp add: next_inorder_def rest_in_def)
  qed
qed

interpretation postorder: traversal rest_post next_postorder
proof
  fix t :: "'a bintree" and C l n r
  assume here: "bt_here t C l n r"
  obtain a x where n: "n = (a, x)" by fastforce
  have shape: "bt_shape t (plug C (Node l n r))" and it: "bt_iter t = Some a" using here n by (simp_all add: bt_here_def)
  note node = node_here [OF here]
  show "next_postorder t = bt_done t" if rest: "rest_post C l n r = []"
    using rest node by (cases C rule: after_post.cases) (auto simp: next_postorder_def rest_post_def)
  fix m ms
  assume rest: "rest_post C l n r = m # ms"
  show "\<exists>C' l' r'. next_postorder t = Inr (Some (snd m), t\<lparr>bt_iter := Some (fst m)\<rparr>) \<and>
      plug C' (Node l' m r') = plug C (Node l n r) \<and> rest_post C' l' m r' = ms"
  proof (cases C)
    case Nil
    with rest show ?thesis by (simp add: rest_post_def)
  next
    case (Cons f D)
    show ?thesis
    proof (cases f)
      case (InL k r')
      obtain b y where k: "k = (b, y)" by fastforce
      have pn: "bt_nodes t b = Some \<lparr>bn_data = y, bn_left = Some a, bn_right = root_ref r', bn_parent = up D\<rparr>"
        and tr: "tree_in (bt_nodes t) (Some b) r'"
        using shape Cons InL k n by (auto simp: bt_shape_def tree_in_plug)
      show ?thesis
      proof (cases "r' = Leaf")
        case True
        with rest Cons InL have "m = k" "ms = after_post D" by (auto simp: rest_post_def)
        with yield_here [of t D "Node l n r" m r'] shape node pn Cons InL k it True show ?thesis
          by (intro exI [of _ D] exI [of _ "Node l n r"] exI [of _ r']) (simp add: next_postorder_def rest_post_def)
      next
        case False
        obtain C' m' where L: "c_loop (leaf_body (bt_nodes t)) (root_ref r') = Inr (Some (fst m'))"
          "plug C' (Node Leaf m' Leaf) = plug C (Node l n r)" "postorder r' @ k # after_post D = m' # after_post C'"
          using leaf_ok [OF tr False, of "InR (Node l n r) k # D"] Cons InL by auto
        with rest Cons InL have m: "m' = m" "after_post C' = ms" by (auto simp: rest_post_def)
        with L yield_here [of t C' Leaf m Leaf] shape node pn Cons InL k it False show ?thesis
          by (intro exI [of _ C'] exI [of _ Leaf]) (simp add: next_postorder_def rest_post_def)
      qed
    next
      case (InR l' k)
      obtain b y where k: "k = (b, y)" by fastforce
      have pn: "bt_nodes t b = Some \<lparr>bn_data = y, bn_left = root_ref l', bn_right = Some a, bn_parent = up D\<rparr>"
        and "a \<notin> addrs l'"
        using shape Cons InR k n by (auto simp: bt_shape_def tree_in_plug distinct_plug)
      then have "root_ref l' \<noteq> Some a" using root_ref_addrs by blast
      moreover have "m = k" "ms = after_post D" using rest Cons InR by (auto simp: rest_post_def)
      ultimately show ?thesis
        using yield_here [of t D l' m "Node l n r"] shape node pn Cons InR k it
        by (intro exI [of _ D] exI [of _ l'] exI [of _ "Node l n r"]) (simp add: next_postorder_def rest_post_def)
    qed
  qed
qed

section \<open>Properties\<close>

lemma step_travtype:
  "next_preorder t = Inr (x, t') \<Longrightarrow> bt_travtype t' = bt_travtype t"
  "next_inorder t = Inr (x, t') \<Longrightarrow> bt_travtype t' = bt_travtype t"
  "next_postorder t = Inr (x, t') \<Longrightarrow> bt_travtype t' = bt_travtype t"
  by (auto simp: next_preorder_def next_inorder_def next_postorder_def bt_yield_def bt_done_def bind_res_eq_Inr
      split: if_splits prod.splits)

lemma nexts_travtype:
  assumes "\<And>t. bt_travtype t = Val mode \<Longrightarrow> bintree_next t = step t"
    and "\<And>t x t'. step t = Inr (x, t') \<Longrightarrow> bt_travtype t' = bt_travtype t"
  shows "bt_travtype t = Val mode \<Longrightarrow> nexts bintree_next k t = nexts step k t"
proof (induction k arbitrary: t)
  case (Suc k)
  show ?case
  proof (cases "step t")
    case (Inr r)
    then obtain x t' where "step t = Inr (x, t')" by (cases r) auto
    with Suc.IH [of t'] Suc.prems assms show ?thesis by simp
  qed (use assms(1) Suc.prems in simp)
qed simp

definition trav_list :: "int \<Rightarrow> 'a shape \<Rightarrow> 'a list" where
  "trav_list mode T =
     map snd (if mode = TRAV_PREORDER then preorder T else if mode = TRAV_INORDER then inorder T else postorder T)"

lemma traversal_modes:
  assumes shape: "bt_shape t T" and T: "T = Node l n r" and mode: "mode = TRAV_PREORDER \<or> mode = TRAV_INORDER \<or> mode = TRAV_POSTORDER"
  shows "\<exists>x xs t1. trav_list mode T = x # xs \<and> bintree_first t mode = Inr (Some x, t1) \<and>
    nexts bintree_next (Suc (length xs)) t1 = Inr (map Some xs @ [None])"
proof -
  obtain a y where n: "n = (a, y)" by fastforce
  let ?t = "t\<lparr>bt_travtype := Val mode, bt_iter := None\<rparr>"
  have tree: "tree_in (bt_nodes t) None T" and root: "bt_root t = root_ref T" using shape by (simp_all add: bt_shape_def)
  have yield: "bt_yield ?t (Some (fst m)) = Inr (Some (snd m), ?t\<lparr>bt_iter := Some (fst m)\<rparr>)"
    and here: "bt_here (?t\<lparr>bt_iter := Some (fst m)\<rparr>) C l' m r'" if "plug C (Node l' m r') = T" for C l' m r'
    using yield_here [of ?t C l' m r'] shape that by (simp_all add: bt_shape_def bt_here_def)
  have nx: "nexts bintree_next k (?t\<lparr>bt_iter := q\<rparr>) = nexts step k (?t\<lparr>bt_iter := q\<rparr>)"
    if "mode = TRAV_PREORDER \<and> step = next_preorder \<or> mode = TRAV_INORDER \<and> step = next_inorder \<or>
      mode = TRAV_POSTORDER \<and> step = next_postorder" for k q step
    using that step_travtype
    by (intro nexts_travtype [of mode])
      (auto simp: bintree_next_def TRAV_PREORDER_def TRAV_INORDER_def TRAV_POSTORDER_def)
  from mode consider (pre) "mode = TRAV_PREORDER" | (inn) "mode = TRAV_INORDER" | (post) "mode = TRAV_POSTORDER" by blast
  then show ?thesis
  proof cases
    case pre
    have "plug [] (Node l n r) = T" using T by simp
    note here' = here [OF this] yield [OF this]
    have "rest_pre [] l n r = preorder l @ preorder r" by (simp add: rest_pre_def)
    then have "nexts next_preorder (Suc (length (preorder l @ preorder r))) (?t\<lparr>bt_iter := Some (fst n)\<rparr>) =
        Inr (map (\<lambda>m. Some (snd m)) (preorder l @ preorder r) @ [None])"
      using preorder.nexts_ok [OF here'(1)] by simp
    moreover have "bintree_first t mode = Inr (Some (snd n), ?t\<lparr>bt_iter := Some (fst n)\<rparr>)"
      using here'(2) root T pre by (simp add: bintree_first_def first_preorder_def)
    moreover have "trav_list mode T = snd n # map snd (preorder l @ preorder r)" using T pre by (simp add: trav_list_def)
    ultimately show ?thesis using nx [of next_preorder] pre
      by (intro exI [of _ "snd n"] exI [of _ "map snd (preorder l @ preorder r)"]) (auto simp: comp_def simp del: nexts.simps)
  next
    case inn
    obtain C m r' where L: "c_loop (leftmost_body (bt_nodes t)) (root_ref T) = Inr (Some (fst m))"
      "plug C (Node Leaf m r') = T" "inorder T = m # inorder r' @ after C"
      using leftmost_ok [OF tree, of "[]"] T by auto
    note here' = here [OF L(2)] yield [OF L(2)]
    have "nexts next_inorder (Suc (length (inorder r' @ after C))) (?t\<lparr>bt_iter := Some (fst m)\<rparr>) =
        Inr (map (\<lambda>m. Some (snd m)) (inorder r' @ after C) @ [None])"
      using inorder.nexts_ok [OF here'(1)] by (simp add: rest_in_def)
    moreover have "bintree_first t mode = Inr (Some (snd m), ?t\<lparr>bt_iter := Some (fst m)\<rparr>)"
      using here'(2) root L(1) inn
      by (simp add: bintree_first_def first_inorder_def TRAV_PREORDER_def TRAV_INORDER_def)
    moreover have "trav_list mode T = snd m # map snd (inorder r' @ after C)"
      using L(3) inn by (simp add: trav_list_def TRAV_PREORDER_def TRAV_INORDER_def)
    ultimately show ?thesis using nx [of next_inorder] inn
      by (intro exI [of _ "snd m"] exI [of _ "map snd (inorder r' @ after C)"]) (auto simp: comp_def simp del: nexts.simps)
  next
    case post
    obtain C m where L: "c_loop (leaf_body (bt_nodes t)) (root_ref T) = Inr (Some (fst m))"
      "plug C (Node Leaf m Leaf) = T" "postorder T = m # after_post C"
      using leaf_ok [OF tree, of "[]"] T by auto
    note here' = here [OF L(2)] yield [OF L(2)]
    have "nexts next_postorder (Suc (length (after_post C))) (?t\<lparr>bt_iter := Some (fst m)\<rparr>) =
        Inr (map (\<lambda>m. Some (snd m)) (after_post C) @ [None])"
      using postorder.nexts_ok [OF here'(1)] by (simp add: rest_post_def)
    moreover have "bintree_first t mode = Inr (Some (snd m), ?t\<lparr>bt_iter := Some (fst m)\<rparr>)"
      using here'(2) root L(1) post
      by (simp add: bintree_first_def first_postorder_def TRAV_PREORDER_def TRAV_INORDER_def TRAV_POSTORDER_def)
    moreover have "trav_list mode T = snd m # map snd (after_post C)"
      using L(3) post by (simp add: trav_list_def TRAV_PREORDER_def TRAV_INORDER_def TRAV_POSTORDER_def)
    ultimately show ?thesis using nx [of next_postorder] post
      by (intro exI [of _ "snd m"] exI [of _ "map snd (after_post C)"]) (auto simp: comp_def simp del: nexts.simps)
  qed
qed

text \<open>
  C21: in each of the three orders, \<open>bintree_first\<close> and the repeated \<open>bintree_next\<close> yield the elements that
  \<open>bintree_collect\<close> writes, in the same order, each once, and then NULL; on an empty tree \<open>bintree_first\<close>
  dereferences NULL.
\<close>

theorem bintree_traversal_complete:
  assumes "bt_shape t T" and "height T < room" and "size T < size_max"
    and "mode = TRAV_PREORDER \<or> mode = TRAV_INORDER \<or> mode = TRAV_POSTORDER"
  shows "if T = Leaf then bintree_first t mode = Inl Null_Deref
    else \<exists>x xs t1. bintree_collect room (Some t) (replicate (size T) Undef) mode = Inr (True, map Val (x # xs)) \<and>
      bintree_first t mode = Inr (Some x, t1) \<and>
      nexts bintree_next (size T) t1 = Inr (map Some xs @ [None]) \<and> mset (x # xs) = mset (elems T)"
proof (cases T)
  case Leaf
  then have "bt_root t = None" using assms(1) by (simp add: bt_shape_def)
  moreover have "c_loop (leftmost_body h) None = Inl Null_Deref" "c_loop (leaf_body h) None = Inl Null_Deref"
    for h :: "'a bt_store" by (simp_all add: c_loop_fault leftmost_body_def leaf_body_def)
  ultimately show ?thesis using assms(4) Leaf
    by (auto simp: bintree_first_def first_preorder_def first_inorder_def first_postorder_def bt_yield_def
        TRAV_PREORDER_def TRAV_INORDER_def TRAV_POSTORDER_def)
next
  case (Node l n r)
  from traversal_modes [OF assms(1) Node assms(4)] obtain x xs t1 where
    x: "trav_list mode T = x # xs" "bintree_first t mode = Inr (Some x, t1)"
      "nexts bintree_next (Suc (length xs)) t1 = Inr (map Some xs @ [None])" by blast
  have ms: "mset (map snd (preorder T)) = mset (elems T)" "mset (map snd (postorder T)) = mset (elems T)"
    by (induction T) (simp_all add: elems_def ac_simps)
  have len: "length (trav_list mode T) = size T" by (simp add: trav_list_def)
  have "bintree_collect room (Some t) (replicate (size T) Undef) mode = Inr (True, map Val (trav_list mode T))"
    using assms(4) bintree_collect_ok [OF assms(1,2), of "replicate (size T) Undef"] assms(3)
    by (auto simp: fill_all trav_list_def elems_def TRAV_PREORDER_def TRAV_INORDER_def TRAV_POSTORDER_def)
  moreover have "mset (trav_list mode T) = mset (elems T)" using ms by (simp add: trav_list_def elems_def)
  moreover have "T \<noteq> Leaf" "Suc (length xs) = size T" using Node len x(1) by simp_all
  ultimately show ?thesis using x by (simp only: if_False) metis
qed

theorem bintree_traversal_complete_witness:
  "\<exists>t1. bintree_first demo_bintree TRAV_POSTORDER = Inr (Some 2, t1) \<and>
     nexts bintree_next 4 t1 = Inr [Some 4, Some 9, Some 8, None]"
proof -
  have "bintree_collect 8 (Some demo_bintree) (replicate (size demo_shape) Undef) TRAV_POSTORDER =
      Inr (True, map Val [2, 4, 9, 8])"
    using bintree_collect_ok(3) [of demo_bintree demo_shape 8 "replicate (size demo_shape) Undef"] demo_bintree_rep
    by (simp add: bt_rep_def demo_shape_def size_max_def fill_def)
  moreover have "demo_shape \<noteq> Leaf" "height demo_shape < 8" "size demo_shape = 4" by (simp_all add: demo_shape_def)
  ultimately show ?thesis
    using bintree_traversal_complete [of demo_bintree demo_shape 8 TRAV_POSTORDER] demo_bintree_rep
    by (auto simp: bt_rep_def size_max_def)
qed

end
