(* ===== verification/BufRd.thy ===== *)
theory BufRd imports RingBuf begin

text \<open>
  bufrd.c: buffered reading of bytes and lines from a file descriptor, on top of the ring buffer.
  \<open>read\<close> is a system call and a parameter of the model: \<open>rd io n\<close> is its result, at most \<open>n\<close> bytes
  (none at the end of the file) or an error, and the state of the descriptor afterwards. The locale
  \<open>byte_source\<close> states what POSIX documents for a descriptor that does not fail; the reader is proved
  correct for every such source.
\<close>

section \<open>The code\<close>

datatype rd_result = Rd "byte list" | Rd_Error

record 'io bufrd =
  b_io :: 'io
  b_buf :: "ringbuf option"
  b_unget :: int
  b_eof :: bool

definition sizeof_bufrd :: nat where
  "sizeof_bufrd = 24"

text \<open>The result of \<open>ringbuf_init\<close> is not looked at.\<close>

definition bufrd_init :: "(nat \<Rightarrow> bool) \<Rightarrow> 'io \<Rightarrow> nat \<Rightarrow> 'io bufrd option" where
  "bufrd_init alloc fd bufsz =
     (if \<not> alloc sizeof_bufrd then None
      else Some \<lparr>b_io = fd, b_buf = ringbuf_init alloc bufsz, b_unget = - 1, b_eof = False\<rparr>)"

definition the_ring :: "'io bufrd \<Rightarrow> ringbuf res" where
  "the_ring b = (case b_buf b of None \<Rightarrow> Inl Null_Deref | Some r \<Rightarrow> Inr r)"

definition read_more ::
  "(nat \<Rightarrow> bool) \<Rightarrow> ('io \<Rightarrow> nat \<Rightarrow> rd_result \<times> 'io) \<Rightarrow> 'io bufrd \<Rightarrow> (int \<times> 'io bufrd) res" where
  "read_more alloc rd b =
     (let (r, io) = rd (b_io b) 4096; b1 = b\<lparr>b_io := io\<rparr> in
      case r of
        Rd_Error \<Rightarrow> Inr (- 1, b1)
      | Rd bs \<Rightarrow>
          if bs = [] then Inr (0, b1)
          else
            bind_res (the_ring b1) (\<lambda>ring.
            bind_res (ringbuf_put alloc ring (map Val bs @ replicate (4096 - length bs) Undef) (length bs)) (\<lambda>ring1.
            Inr (int (length bs), b1\<lparr>b_buf := Some ring1\<rparr>))))"

definition bufrd_read ::
  "(nat \<Rightarrow> bool) \<Rightarrow> ('io \<Rightarrow> nat \<Rightarrow> rd_result \<times> 'io) \<Rightarrow> 'io bufrd \<Rightarrow> byte cell list \<Rightarrow> nat \<Rightarrow>
   (int \<times> byte cell list \<times> 'io bufrd) res" where
  "bufrd_read alloc rd b dest nbytes =
     (if nbytes = 0 then Inr (- 1, dest, b)
      else
        bind_res
          (if b_unget b = - 1 then
             bind_res (the_ring b) (\<lambda>ring. if ringbuf_empty ring then read_more alloc rd b else Inr (1, b))
           else Inr (1, b)) (\<lambda>(r, b1).
        if r \<le> 0 then Inr (r, dest, b1)
        else
          bind_res
            (if b_unget b1 \<noteq> - 1 then
               bind_res (arr_set dest 0 (word_of_int (b_unget b1))) (\<lambda>d. Inr (1, d, b1\<lparr>b_unget := - 1\<rparr>))
             else Inr (0, dest, b1)) (\<lambda>(ungot, dest1, b2).
          bind_res (the_ring b2) (\<lambda>ring.
          if \<not> ringbuf_empty ring then
            bind_res (ringbuf_get ring (drop ungot dest1) (nbytes - ungot)) (\<lambda>(n, rest, ring1).
            Inr (int (ungot + n), take ungot dest1 @ rest, b2\<lparr>b_buf := Some ring1\<rparr>))
          else Inr (int ungot, dest1, b2)))))"

definition bufrd_getchar ::
  "(nat \<Rightarrow> bool) \<Rightarrow> ('io \<Rightarrow> nat \<Rightarrow> rd_result \<times> 'io) \<Rightarrow> 'io bufrd \<Rightarrow> (int \<times> 'io bufrd) res" where
  "bufrd_getchar alloc rd b =
     (if b_unget b \<noteq> - 1 then Inr (uint (word_of_int (b_unget b) :: byte), b\<lparr>b_unget := - 1\<rparr>)
      else
        bind_res (bufrd_read alloc rd b [Undef] 1) (\<lambda>(r, ch, b1).
        if r \<le> 0 then Inr (- 1, b1\<lparr>b_eof := (r = 0)\<rparr>)
        else bind_res (arr_get ch 0) (\<lambda>c. Inr (uint c, b1))))"

definition bufrd_eof :: "'io bufrd \<Rightarrow> bool" where
  "bufrd_eof b = b_eof b"

definition bufrd_buffered :: "'io bufrd \<Rightarrow> bool res" where
  "bufrd_buffered b =
     (if b_unget b \<noteq> - 1 then Inr True else bind_res (the_ring b) (\<lambda>ring. Inr (\<not> ringbuf_empty ring)))"

definition bufrd_ungetchar :: "'io bufrd \<Rightarrow> int \<Rightarrow> bool \<times> 'io bufrd" where
  "bufrd_ungetchar b c = (if b_unget b \<noteq> - 1 then (False, b) else (True, b\<lparr>b_unget := c\<rparr>))"

text \<open>The loop of \<open>bufrd_getline\<close>: the reader, the array and the index into it, the size left and the count.\<close>

definition getline_body ::
  "(nat \<Rightarrow> bool) \<Rightarrow> ('io \<Rightarrow> nat \<Rightarrow> rd_result \<times> 'io) \<Rightarrow> 'io bufrd \<times> byte cell list \<times> nat \<times> nat \<times> nat \<Rightarrow>
   ('io bufrd \<times> byte cell list \<times> nat \<times> nat \<times> nat, 'io bufrd \<times> byte cell list \<times> nat \<times> nat) step res" where
  "getline_body alloc rd = (\<lambda>(b, dest, i, destsz, bc).
     bind_res (bufrd_getchar alloc rd b) (\<lambda>(c, b1).
     if c = - 1 then Inr (Break (b1, dest, i, bc))
     else
       bind_res
         (if 1 < destsz then bind_res (arr_set dest i (word_of_int c)) (\<lambda>d. Inr (d, i + 1, destsz - 1))
          else Inr (dest, i, destsz)) (\<lambda>(dest1, i1, destsz1).
       if c = 10 then Inr (Break (b1, dest1, i1, sz_add bc 1))
       else Inr (Continue (b1, dest1, i1, destsz1, sz_add bc 1)))))"

definition bufrd_getline ::
  "(nat \<Rightarrow> bool) \<Rightarrow> ('io \<Rightarrow> nat \<Rightarrow> rd_result \<times> 'io) \<Rightarrow> 'io bufrd \<Rightarrow> byte cell list \<Rightarrow> nat \<Rightarrow>
   (nat \<times> byte cell list \<times> 'io bufrd) res" where
  "bufrd_getline alloc rd b dest destsz =
     bind_res (c_loop (getline_body alloc rd) (b, dest, 0, destsz, 0)) (\<lambda>(b1, dest1, i, bc).
     bind_res (arr_set dest1 i 0) (\<lambda>dest2. Inr (bc, dest2, b1)))"

section \<open>Reading from a source that does not fail\<close>

locale byte_source =
  fixes rd :: "'io \<Rightarrow> nat \<Rightarrow> rd_result \<times> 'io" and pending :: "'io \<Rightarrow> byte list"
  assumes rd_law: "0 < n \<Longrightarrow> \<exists>bs io'. rd io n = (Rd bs, io') \<and> length bs \<le> n \<and>
    pending io = bs @ pending io' \<and> (bs = [] \<longrightarrow> pending io = [])"

text \<open>The bytes a reader has yet to deliver; and what keeps it well-formed.\<close>

definition bufrd_stream :: "('io \<Rightarrow> byte list) \<Rightarrow> 'io bufrd \<Rightarrow> byte list" where
  "bufrd_stream pending b =
     (if b_unget b = - 1 then [] else [word_of_int (b_unget b)]) @ ring_bytes (the (b_buf b)) @ pending (b_io b)"

definition bufrd_inv :: "'io bufrd \<Rightarrow> bool" where
  "bufrd_inv b \<longleftrightarrow>
     (\<exists>ring. b_buf b = Some ring \<and> ring_inv ring \<and> length (ring_bytes ring) \<le> 4096) \<and> - 1 \<le> b_unget b \<and> b_unget b < 256"

definition enough_mem :: "(nat \<Rightarrow> bool) \<Rightarrow> bool" where
  "enough_mem alloc \<longleftrightarrow> (\<forall>m < 8192. alloc m)"

lemma ring_4096: "enough_mem alloc \<Longrightarrow> byte_fifo ring_inv ring_bytes (ringbuf_put alloc) ringbuf_get ringbuf_empty 4096"
  by (rule ring_fifo) (simp_all add: enough_mem_def)

lemma take_drop_min: "take (min n (length xs)) xs = take n xs" "drop (min n (length xs)) xs = drop n xs"
  by (simp_all add: min_def)

context byte_source begin

lemma read_more_ok:
  assumes inv: "bufrd_inv b" and empty: "ring_bytes (the (b_buf b)) = []" "b_unget b = - 1" and mem: "enough_mem alloc"
  shows "\<exists>r b'. read_more alloc rd b = Inr (r, b') \<and> bufrd_inv b' \<and> b_unget b' = - 1 \<and> b_eof b' = b_eof b \<and>
    bufrd_stream pending b' = bufrd_stream pending b \<and>
    (if bufrd_stream pending b = [] then r = 0 else 0 < r \<and> ring_bytes (the (b_buf b')) \<noteq> [])"
proof -
  obtain ring where ring: "b_buf b = Some ring" "ring_inv ring" "ring_bytes ring = []"
    using inv empty by (auto simp: bufrd_inv_def)
  obtain bs io' where rd: "rd (b_io b) 4096 = (Rd bs, io')" "length bs \<le> 4096" "pending (b_io b) = bs @ pending io'"
    "bs = [] \<longrightarrow> pending (b_io b) = []" using rd_law [of 4096 "b_io b"] by auto
  show ?thesis
  proof (cases "bs = []")
    case True
    with rd ring inv empty show ?thesis
      by (intro exI [of _ 0] exI [of _ "b\<lparr>b_io := io'\<rparr>"]) (auto simp: read_more_def bufrd_stream_def bufrd_inv_def)
  next
    case False
    let ?data = "map Val bs @ replicate (4096 - length bs) Undef"
    obtain ring1 where ring1: "ringbuf_put alloc ring ?data (length bs) = Inr ring1" "ring_inv ring1" "ring_bytes ring1 = bs"
      using byte_fifo.put_law [OF ring_4096 [OF mem] ring(2), of "length bs" ?data] ring(3) rd(2) by auto
    let ?b = "b\<lparr>b_io := io', b_buf := Some ring1\<rparr>"
    have "read_more alloc rd b = Inr (int (length bs), ?b)"
      using rd(1) ring(1) ring1(1) False by (simp add: read_more_def the_ring_def)
    moreover have "bufrd_inv ?b" using inv ring1 rd(2) by (simp add: bufrd_inv_def)
    moreover have "bufrd_stream pending ?b = bufrd_stream pending b" "bufrd_stream pending b \<noteq> []"
      using rd(3) ring ring1(3) empty(2) False by (simp_all add: bufrd_stream_def)
    ultimately show ?thesis using False ring1(3) empty(2) by auto
  qed
qed

lemma have_bytes:
  assumes inv: "bufrd_inv b" and mem: "enough_mem alloc"
  shows "\<exists>r b1. (if b_unget b = - 1 then
        bind_res (the_ring b) (\<lambda>ring. if ringbuf_empty ring then read_more alloc rd b else Inr (1, b))
      else Inr (1, b)) = Inr (r, b1) \<and> bufrd_inv b1 \<and> b_eof b1 = b_eof b \<and>
    bufrd_stream pending b1 = bufrd_stream pending b \<and>
    (if bufrd_stream pending b = [] then r = 0 \<and> b_unget b1 = - 1
     else 0 < r \<and> (b_unget b1 = - 1 \<longrightarrow> ring_bytes (the (b_buf b1)) \<noteq> []))"
proof -
  obtain ring where ring: "b_buf b = Some ring" "ring_inv ring" using inv by (auto simp: bufrd_inv_def)
  have e: "ringbuf_empty ring \<longleftrightarrow> ring_bytes ring = []"
    using byte_fifo.empty_law [OF ring_4096 [OF mem] ring(2)] .
  show ?thesis
  proof (cases "b_unget b = - 1 \<and> ringbuf_empty ring")
    case True
    with e ring have "ring_bytes (the (b_buf b)) = []" "b_unget b = - 1" by simp_all
    from read_more_ok [where alloc = alloc, OF inv this mem] obtain r b' where
      "read_more alloc rd b = Inr (r, b')" "bufrd_inv b'" "b_unget b' = - 1" "b_eof b' = b_eof b"
      "bufrd_stream pending b' = bufrd_stream pending b"
      "if bufrd_stream pending b = [] then r = 0 else 0 < r \<and> ring_bytes (the (b_buf b')) \<noteq> []" by blast
    with True ring show ?thesis
      by (intro exI [of _ r] exI [of _ b']) (simp add: the_ring_def)
  next
    case False
    with e ring inv show ?thesis by (auto simp: the_ring_def bufrd_stream_def)
  qed
qed

text \<open>
  \<open>bufrd_read\<close> delivers a prefix of the stream: at least one byte unless the stream is at its end, at
  most as many as asked for.
\<close>

lemma bufrd_read_ok:
  assumes inv: "bufrd_inv b" and mem: "enough_mem alloc" and n: "0 < n" "n \<le> length dest"
  shows "\<exists>k dest' b'. bufrd_read alloc rd b dest n = Inr (int k, dest', b') \<and> bufrd_inv b' \<and> b_eof b' = b_eof b \<and>
    b_unget b' = - 1 \<and> k \<le> n \<and> (k = 0 \<longleftrightarrow> bufrd_stream pending b = []) \<and>
    k \<le> length (bufrd_stream pending b) \<and> dest' = fill dest 0 (take k (bufrd_stream pending b)) \<and>
    bufrd_stream pending b' = drop k (bufrd_stream pending b)"
proof -
  let ?s = "bufrd_stream pending b"
  obtain r b1 where b1: "(if b_unget b = - 1 then
        bind_res (the_ring b) (\<lambda>ring. if ringbuf_empty ring then read_more alloc rd b else Inr (1, b))
      else Inr (1, b)) = Inr (r, b1)" "bufrd_inv b1" "b_eof b1 = b_eof b" "bufrd_stream pending b1 = ?s"
    "if ?s = [] then r = 0 \<and> b_unget b1 = - 1 else 0 < r \<and> (b_unget b1 = - 1 \<longrightarrow> ring_bytes (the (b_buf b1)) \<noteq> [])"
    using have_bytes [OF inv mem] by blast
  have read: "bufrd_read alloc rd b dest n = (if r \<le> 0 then Inr (r, dest, b1)
        else
          bind_res
            (if b_unget b1 \<noteq> - 1 then
               bind_res (arr_set dest 0 (word_of_int (b_unget b1))) (\<lambda>d. Inr (1, d, b1\<lparr>b_unget := - 1\<rparr>))
             else Inr (0, dest, b1)) (\<lambda>(ungot, dest1, b2).
          bind_res (the_ring b2) (\<lambda>ring.
          if \<not> ringbuf_empty ring then
            bind_res (ringbuf_get ring (drop ungot dest1) (n - ungot)) (\<lambda>(k, rest, ring1).
            Inr (int (ungot + k), take ungot dest1 @ rest, b2\<lparr>b_buf := Some ring1\<rparr>))
          else Inr (int ungot, dest1, b2))))"
    using n(1) b1(1) by (simp add: bufrd_read_def cong del: bind_res_weak_cong)
  show ?thesis
  proof (cases "?s = []")
    case True
    with read b1 show ?thesis by (intro exI [of _ 0]) (auto simp: fill_def)
  next
    case False
    with b1(5) have r: "0 < r" and some: "b_unget b1 = - 1 \<longrightarrow> ring_bytes (the (b_buf b1)) \<noteq> []" by auto
    obtain ring where ring: "b_buf b1 = Some ring" "ring_inv ring" "length (ring_bytes ring) \<le> 4096"
      using b1(2) by (auto simp: bufrd_inv_def)
    have e: "ringbuf_empty ring \<longleftrightarrow> ring_bytes ring = []"
      using byte_fifo.empty_law [OF ring_4096 [OF mem] ring(2)] .
    define u where "u = (if b_unget b1 = - 1 then [] else [word_of_int (b_unget b1) :: byte])"
    have lu: "length u \<le> 1" "length u \<le> n" using n(1) by (auto simp: u_def)
    have s: "?s = u @ ring_bytes ring @ pending (b_io b1)" using b1(4) ring(1) by (simp add: bufrd_stream_def u_def)
    let ?b2 = "b1\<lparr>b_unget := - 1\<rparr>" and ?k = "min (n - length u) (length (ring_bytes ring))"
    have first: "(if b_unget b1 \<noteq> - 1 then
             bind_res (arr_set dest 0 (word_of_int (b_unget b1))) (\<lambda>d. Inr (1, d, b1\<lparr>b_unget := - 1\<rparr>))
           else Inr (0, dest, b1)) = Inr (length u, fill dest 0 u, ?b2)"
    proof -
      have "0 < length dest" using n by linarith
      then show ?thesis by (auto simp: u_def arr_set_fill)
    qed
    have fl: "length (fill dest 0 u) = length dest" using lu n by (intro length_fill) simp
    obtain ring1 where get: "ringbuf_get ring (drop (length u) (fill dest 0 u)) (n - length u) =
        Inr (?k, map Val (take (n - length u) (ring_bytes ring)) @ drop ?k (drop (length u) (fill dest 0 u)), ring1)"
      "ring_inv ring1" "ring_bytes ring1 = drop (n - length u) (ring_bytes ring)"
    proof -
      have "?k \<le> length (drop (length u) (fill dest 0 u))"
        using fl n by (simp add: min_le_iff_disj diff_le_mono)
      from byte_fifo.get_law [OF ring_4096 [OF mem] ring(2) this] that show thesis by blast
    qed
    have step: "bufrd_read alloc rd b dest n =
        (if ring_bytes ring \<noteq> [] then Inr (int (length u + ?k), take (length u) (fill dest 0 u) @
           map Val (take (n - length u) (ring_bytes ring)) @ drop ?k (drop (length u) (fill dest 0 u)), ?b2\<lparr>b_buf := Some ring1\<rparr>)
         else Inr (int (length u), fill dest 0 u, ?b2))"
      unfolding read first using r ring(1) e get(1) by (simp add: the_ring_def)
    let ?m = "length u + ?k"
    have m: "take ?m ?s = u @ take (n - length u) (ring_bytes ring)" "?m \<le> n" "?m \<le> length ?s"
      "drop ?m ?s = drop (n - length u) (ring_bytes ring) @ pending (b_io b1)"
      using lu by (auto simp: s take_drop_min)
    have "?m \<noteq> 0" using some n(1) lu by (auto simp: u_def ring(1))
    have arr: "take (length u) (fill dest 0 u) @ map Val (take (n - length u) (ring_bytes ring)) @
        drop ?k (drop (length u) (fill dest 0 u)) = fill dest 0 (take ?m ?s)"
      unfolding m(1) using lu by (simp add: fill_def add.commute min.commute)
    show ?thesis
    proof (cases "ring_bytes ring = []")
      case True
      have "bufrd_inv ?b2" using b1(2) by (auto simp: bufrd_inv_def)
      moreover have "bufrd_stream pending ?b2 = drop ?m ?s" using True s ring(1) by (simp add: bufrd_stream_def)
      moreover have "fill dest 0 u = fill dest 0 (take ?m ?s)" using True s by simp
      ultimately show ?thesis using step True m(2,3) False \<open>?m \<noteq> 0\<close> b1(3)
        by (intro exI [of _ ?m] exI [of _ "fill dest 0 (take ?m ?s)"] exI [of _ ?b2]) simp
    next
      case False
      let ?b3 = "?b2\<lparr>b_buf := Some ring1\<rparr>"
      have "bufrd_inv ?b3" using b1(2) get ring by (auto simp: bufrd_inv_def)
      moreover have "bufrd_stream pending ?b3 = drop ?m ?s" unfolding m(4) using get(3) by (simp add: bufrd_stream_def)
      ultimately show ?thesis using step False arr m(2,3) \<open>?s \<noteq> []\<close> \<open>?m \<noteq> 0\<close> b1(3)
        by (intro exI [of _ ?m] exI [of _ "fill dest 0 (take ?m ?s)"] exI [of _ ?b3]) simp
    qed
  qed
qed

lemma bufrd_getchar_ok:
  assumes inv: "bufrd_inv b" and mem: "enough_mem alloc"
  shows "\<exists>b'. bufrd_getchar alloc rd b =
      Inr (case bufrd_stream pending b of [] \<Rightarrow> - 1 | c # s \<Rightarrow> uint c, b') \<and> bufrd_inv b' \<and> b_unget b' = - 1 \<and>
    bufrd_stream pending b' = tl (bufrd_stream pending b) \<and>
    (bufrd_stream pending b = [] \<longrightarrow> bufrd_eof b') \<and> (bufrd_stream pending b \<noteq> [] \<longrightarrow> bufrd_eof b' = bufrd_eof b)"
proof (cases "b_unget b = - 1")
  case True
  obtain k dest' b' where R: "bufrd_read alloc rd b [Undef] 1 = Inr (int k, dest', b')" "bufrd_inv b'"
    "b_eof b' = b_eof b" "b_unget b' = - 1" "k \<le> 1" "k = 0 \<longleftrightarrow> bufrd_stream pending b = []"
    "dest' = fill [Undef] 0 (take k (bufrd_stream pending b))" "bufrd_stream pending b' = drop k (bufrd_stream pending b)"
    using bufrd_read_ok [OF inv mem, of 1 "[Undef]"] by auto
  show ?thesis
  proof (cases "bufrd_stream pending b")
    case Nil
    let ?b = "b'\<lparr>b_eof := True\<rparr>"
    have "bufrd_inv ?b" "bufrd_stream pending ?b = bufrd_stream pending b'"
      using R(2) by (simp_all add: bufrd_inv_def bufrd_stream_def)
    with R True Nil show ?thesis by (auto simp: bufrd_getchar_def bufrd_eof_def)
  next
    case (Cons c s)
    with R(5,6) have "k = 1" by simp
    with R True Cons show ?thesis by (auto simp: bufrd_getchar_def bufrd_eof_def fill_def arr_get_def)
  qed
next
  case False
  let ?b = "b\<lparr>b_unget := - 1\<rparr>"
  have "bufrd_inv ?b" using inv by (auto simp: bufrd_inv_def)
  moreover have "bufrd_stream pending b = word_of_int (b_unget b) # bufrd_stream pending ?b"
    using False by (simp add: bufrd_stream_def)
  ultimately show ?thesis using False by (auto simp: bufrd_getchar_def bufrd_eof_def)
qed

end

text \<open>The first line of a stream, with its end if it has one.\<close>

fun first_line :: "byte list \<Rightarrow> byte list" where
  "first_line [] = []"
| "first_line (c # s) = (if c = 10 then [c] else c # first_line s)"

lemma first_line_prefix: "take (length (first_line s)) s = first_line s" "length (first_line s) \<le> length s"
  by (induction s) auto

lemma first_line_Nil [simp]: "first_line s = [] \<longleftrightarrow> s = []"
  by (cases s) auto

lemma first_line_end: "10 \<notin> set (first_line s) \<Longrightarrow> first_line s = s" "10 \<in> set (first_line s) \<Longrightarrow> last (first_line s) = 10"
  by (induction s) (auto split: if_splits)

lemma first_line_inner: "10 \<notin> set (butlast (first_line s))"
  by (induction s) auto

context byte_source begin

lemma getline_loop:
  assumes "bufrd_inv b" and mem: "enough_mem alloc" and "i + destsz \<le> length dest" and "0 < destsz"
    and "bc + length (bufrd_stream pending b) < size_max"
  shows "\<exists>b'. c_loop (getline_body alloc rd) (b, dest, i, destsz, bc) =
      (let line = first_line (bufrd_stream pending b) in
       Inr (b', fill dest i (take (destsz - 1) line), i + min (destsz - 1) (length line), bc + length line)) \<and>
    bufrd_inv b' \<and> bufrd_stream pending b' = drop (length (first_line (bufrd_stream pending b))) (bufrd_stream pending b) \<and>
    (10 \<notin> set (first_line (bufrd_stream pending b)) \<longrightarrow> bufrd_eof b')"
  using assms(1,3,4,5)
proof (induction "bufrd_stream pending b" arbitrary: b dest i destsz bc)
  case Nil
  obtain b' where b': "bufrd_getchar alloc rd b = Inr (- 1, b')" "bufrd_inv b'" "bufrd_stream pending b' = []" "bufrd_eof b'"
    using bufrd_getchar_ok [OF Nil.prems(1) mem] Nil.hyps by auto
  then have "getline_body alloc rd (b, dest, i, destsz, bc) = Inr (Break (b', dest, i, bc))"
    by (simp add: getline_body_def)
  then have "c_loop (getline_body alloc rd) (b, dest, i, destsz, bc) = Inr (b', dest, i, bc)" by (rule c_loop_Break)
  with b' Nil.hyps [symmetric] show ?case by simp
next
  case (Cons c s)
  note st = Cons.hyps(2) [symmetric]
  obtain b1 where b1: "bufrd_getchar alloc rd b = Inr (uint c, b1)" "bufrd_inv b1" "bufrd_stream pending b1 = s"
    using bufrd_getchar_ok [OF Cons.prems(1) mem] by (auto simp: st)
  define d1 i1 z1 where "d1 = (if 1 < destsz then fill dest i [c] else dest)"
    and "i1 = (if 1 < destsz then i + 1 else i)" and "z1 = (if 1 < destsz then destsz - 1 else destsz)"
  have store: "(if 1 < destsz then bind_res (arr_set dest i (word_of_int (uint c))) (\<lambda>d. Inr (d, i + 1, destsz - 1))
      else Inr (dest, i, destsz)) = Inr (d1, i1, z1)"
    using Cons.prems(2) by (auto simp: d1_def i1_def z1_def arr_set_fill)
  have "uint (10 :: byte) = 10" by simp
  then have nl: "uint c = 10 \<longleftrightarrow> c = 10" by (metis word_of_int_uint)
  have pos: "uint c \<noteq> - 1" using uint_nonnegative [of c] by linarith
  have body: "getline_body alloc rd (b, dest, i, destsz, bc) =
      Inr (if c = 10 then Break (b1, d1, i1, bc + 1) else Continue (b1, d1, i1, z1, bc + 1))"
    using b1(1) store nl pos Cons.prems(4) by (simp add: getline_body_def st sz_simps cong del: bind_res_weak_cong)
  have len: "length d1 = length dest" using Cons.prems(2) by (simp add: d1_def length_fill)
  show ?case
  proof (cases "c = 10")
    case True
    then have "c_loop (getline_body alloc rd) (b, dest, i, destsz, bc) = Inr (b1, d1, i1, bc + 1)"
      using body by (simp add: c_loop_Break)
    moreover have "d1 = fill dest i (take (destsz - 1) [c])" "i1 = i + min (destsz - 1) 1"
      using Cons.prems(3) by (auto simp: d1_def i1_def take_Cons')
    ultimately show ?thesis using b1 True by (simp add: st)
  next
    case False
    then have go: "c_loop (getline_body alloc rd) (b, dest, i, destsz, bc) =
        c_loop (getline_body alloc rd) (b1, d1, i1, z1, bc + 1)"
      using body by (simp add: c_loop_Continue)
    have bounds: "i1 + z1 \<le> length d1" "0 < z1" "bc + 1 + length (bufrd_stream pending b1) < size_max"
      using Cons.prems(2,3,4) len b1(3) by (auto simp: i1_def z1_def st)
    from Cons.hyps(1) [OF b1(3) [symmetric] b1(2) bounds] obtain b' where
      b': "c_loop (getline_body alloc rd) (b1, d1, i1, z1, bc + 1) =
          Inr (b', fill d1 i1 (take (z1 - 1) (first_line s)), i1 + min (z1 - 1) (length (first_line s)),
            bc + 1 + length (first_line s))"
        "bufrd_inv b'" "bufrd_stream pending b' = drop (length (first_line s)) s"
        "10 \<notin> set (first_line s) \<longrightarrow> bufrd_eof b'" by (auto simp: b1(3) Let_def)
    have "fill d1 i1 (take (z1 - 1) (first_line s)) = fill dest i (take (destsz - 1) (c # first_line s))"
      "i1 + min (z1 - 1) (length (first_line s)) = i + min (destsz - 1) (Suc (length (first_line s)))"
    proof -
      have "fill (fill dest i [c]) (i + 1) (take (destsz - 2) (first_line s)) =
          fill dest i (c # take (destsz - 2) (first_line s))" if "1 < destsz"
        using fill_fill [of i "[c]" "take (destsz - 2) (first_line s)" dest] that Cons.prems(2) by simp
      then show "fill d1 i1 (take (z1 - 1) (first_line s)) = fill dest i (take (destsz - 1) (c # first_line s))"
        using Cons.prems(3) by (auto simp: d1_def i1_def z1_def take_Cons' numeral_2_eq_2)
      show "i1 + min (z1 - 1) (length (first_line s)) = i + min (destsz - 1) (Suc (length (first_line s)))"
        using Cons.prems(3) by (auto simp: i1_def z1_def)
    qed
    with go b' False show ?thesis by (simp add: st Let_def)
  qed
qed

lemma bufrd_getline_ok:
  assumes "bufrd_inv b" and "enough_mem alloc" and "0 < destsz" and "destsz \<le> length dest"
    and "length (bufrd_stream pending b) < size_max"
  shows "\<exists>b'. bufrd_getline alloc rd b dest destsz =
      Inr (length (first_line (bufrd_stream pending b)),
        fill dest 0 (take (destsz - 1) (first_line (bufrd_stream pending b)) @ [0]), b') \<and> bufrd_inv b' \<and>
    bufrd_stream pending b' = drop (length (first_line (bufrd_stream pending b))) (bufrd_stream pending b) \<and>
    (10 \<notin> set (first_line (bufrd_stream pending b)) \<longrightarrow> bufrd_eof b')"
proof -
  let ?l = "first_line (bufrd_stream pending b)"
  obtain b' where b': "c_loop (getline_body alloc rd) (b, dest, 0, destsz, 0) =
      Inr (b', fill dest 0 (take (destsz - 1) ?l), min (destsz - 1) (length ?l), length ?l)" "bufrd_inv b'"
      "bufrd_stream pending b' = drop (length ?l) (bufrd_stream pending b)" "10 \<notin> set ?l \<longrightarrow> bufrd_eof b'"
    using getline_loop [OF assms(1,2), of 0 destsz dest 0] assms(3-5) by (auto simp: Let_def)
  let ?xs = "take (destsz - 1) ?l"
  have k: "min (destsz - 1) (length ?l) = length ?xs" "length ?xs < length dest" using assms(3,4) by auto
  then have "arr_set (fill dest 0 ?xs) (length ?xs) 0 = Inr (fill dest 0 (?xs @ [0]))"
    using fill_fill [of 0 ?xs "[0]" dest] by (simp add: arr_set_fill length_fill)
  with b' k(1) show ?thesis by (simp add: bufrd_getline_def)
qed

end

text \<open>A regular file: \<open>read\<close> delivers as much of what is left as is asked for.\<close>

definition file_read :: "byte list \<Rightarrow> nat \<Rightarrow> rd_result \<times> byte list" where
  "file_read bs n = (Rd (take n bs), drop n bs)"

interpretation regular: byte_source file_read "\<lambda>bs. bs"
  by unfold_locales (auto simp: file_read_def)

lemma bufrd_init_ok:
  assumes "enough_mem alloc" and "0 < n" and "n < 8192"
  shows "\<exists>b. bufrd_init alloc fd n = Some b \<and> bufrd_inv b \<and> bufrd_stream pending b = pending fd \<and> \<not> bufrd_eof b"
proof -
  obtain r where "ringbuf_init alloc n = Some r" "ring_inv r" "ring_bytes r = []"
    using ringbuf_init_ok [of alloc n] assms by (auto simp: enough_mem_def sizeof_ringbuf_def)
  moreover have "alloc sizeof_bufrd" using assms(1) by (simp add: enough_mem_def sizeof_bufrd_def)
  ultimately show ?thesis
    by (simp add: bufrd_init_def bufrd_inv_def bufrd_stream_def bufrd_eof_def)
qed

section \<open>Properties\<close>

text \<open>
  C22: for every source that does not fail, whatever pieces it delivers its bytes in, \<open>bufrd_getline\<close>
  returns the length of the first line of the stream and writes as much of it as fits, followed by a
  NUL, into the array; it consumes exactly the line, however long. When the stream ends before the
  line does, end of file is reported.
\<close>

theorem bufrd_getline_first_line:
  assumes "byte_source rd pending" and "bufrd_inv b" and "enough_mem alloc" and "0 < destsz" and "destsz \<le> length dest"
    and "bufrd_stream pending b = line @ rest" and "line = first_line (line @ rest)" and "length (line @ rest) < size_max"
  shows "\<exists>b'. bufrd_getline alloc rd b dest destsz = Inr (length line, fill dest 0 (take (destsz - 1) line @ [0]), b') \<and>
    bufrd_inv b' \<and> bufrd_stream pending b' = rest \<and> (10 \<notin> set line \<longrightarrow> rest = [] \<and> bufrd_eof b')"
proof -
  have line: "first_line (bufrd_stream pending b) = line" using assms(6,7) by simp
  have "rest = []" if "10 \<notin> set line" using that first_line_end(1) [of "line @ rest"] assms(7) by simp
  with byte_source.bufrd_getline_ok [OF assms(1-5)] line assms(6,8) show ?thesis by auto
qed

theorem bufrd_getline_first_line_witness:
  "\<exists>b b'. bufrd_init (mem_upto 10000) [104, 105, 10, 120] 16 = Some b \<and>
    bufrd_getline (mem_upto 10000) file_read b [Undef, Undef] 2 = Inr (3, [Val 104, Val 0], b') \<and>
    bufrd_stream (\<lambda>bs. bs) b' = [120]"
proof -
  have mem: "enough_mem (mem_upto 10000)" by (simp add: enough_mem_def mem_upto_def)
  obtain b where b: "bufrd_init (mem_upto 10000) [104, 105, 10, 120] 16 = Some b" "bufrd_inv b"
    "bufrd_stream (\<lambda>bs. bs) b = [104, 105, 10] @ [120]"
    using bufrd_init_ok [OF mem, of 16 "[104, 105, 10, 120]" "\<lambda>bs. bs"] by auto
  with bufrd_getline_first_line [OF regular.byte_source_axioms b(2) mem, of 2 "[Undef, Undef]" "[104, 105, 10]" "[120]"]
  show ?thesis by (auto simp: fill_def size_max_def)
qed

text \<open>
  \<open>bufrd_read\<close> is a read from the stream: it returns a prefix of it, at least one byte unless the
  stream is at its end, and leaves the rest; a byte given back with \<open>bufrd_ungetchar\<close> is the next one,
  and a second one is refused until it is read.
\<close>

theorem bufrd_read_prefix:
  assumes "byte_source rd pending" and "bufrd_inv b" and "enough_mem alloc" and "0 < n" and "n \<le> length dest"
    and "b_unget b = - 1"
  shows "(\<exists>xs b'. bufrd_read alloc rd b dest n = Inr (int (length xs), fill dest 0 xs, b') \<and> bufrd_inv b' \<and>
      bufrd_stream pending b = xs @ bufrd_stream pending b' \<and> length xs \<le> n \<and>
      (xs = [] \<longleftrightarrow> bufrd_stream pending b = [])) \<and>
    (\<exists>b'. bufrd_ungetchar b (uint c) = (True, b') \<and> bufrd_inv b' \<and>
      bufrd_stream pending b' = c # bufrd_stream pending b \<and> bufrd_ungetchar b' v = (False, b') \<and>
      bufrd_getchar alloc rd b' = Inr (uint c, b))"
proof
  obtain k dest' b' where R: "bufrd_read alloc rd b dest n = Inr (int k, dest', b')" "bufrd_inv b'" "k \<le> n"
    "k = 0 \<longleftrightarrow> bufrd_stream pending b = []" "k \<le> length (bufrd_stream pending b)"
    "dest' = fill dest 0 (take k (bufrd_stream pending b))" "bufrd_stream pending b' = drop k (bufrd_stream pending b)"
    using byte_source.bufrd_read_ok [OF assms(1-5)] by blast
  then show "\<exists>xs b'. bufrd_read alloc rd b dest n = Inr (int (length xs), fill dest 0 xs, b') \<and> bufrd_inv b' \<and>
      bufrd_stream pending b = xs @ bufrd_stream pending b' \<and> length xs \<le> n \<and>
      (xs = [] \<longleftrightarrow> bufrd_stream pending b = [])"
    by (intro exI [of _ "take k (bufrd_stream pending b)"] exI [of _ b']) auto
  have "- 1 < uint c" using uint_nonnegative [of c] by linarith
  moreover have "uint c < 256" using uint_bounded [of c] by simp
  ultimately have c: "- 1 < uint c" "uint c < 256" by blast+
  with assms(2,6) show "\<exists>b'. bufrd_ungetchar b (uint c) = (True, b') \<and> bufrd_inv b' \<and>
      bufrd_stream pending b' = c # bufrd_stream pending b \<and> bufrd_ungetchar b' v = (False, b') \<and>
      bufrd_getchar alloc rd b' = Inr (uint c, b)"
    by (auto simp: bufrd_ungetchar_def bufrd_inv_def bufrd_stream_def bufrd_getchar_def)
qed

theorem bufrd_read_prefix_witness:
  "\<exists>b xs b'. bufrd_init (mem_upto 10000) [104, 105] 16 = Some b \<and>
    bufrd_read (mem_upto 10000) file_read b [Undef, Undef, Undef] 3 =
      Inr (int (length xs), fill [Undef, Undef, Undef] 0 xs, b') \<and> xs \<noteq> []"
proof -
  have mem: "enough_mem (mem_upto 10000)" by (simp add: enough_mem_def mem_upto_def)
  obtain b where b: "bufrd_init (mem_upto 10000) [104, 105] 16 = Some b" "bufrd_inv b"
    "bufrd_stream (\<lambda>bs. bs) b = [104, 105]"
    using bufrd_init_ok [OF mem, of 16 "[104, 105]" "\<lambda>bs. bs"] by auto
  then have "b_unget b = - 1" by (auto simp: bufrd_init_def split: if_splits)
  with b bufrd_read_prefix [OF regular.byte_source_axioms b(2) mem, of 3 "[Undef, Undef, Undef]"]
  show ?thesis by fastforce
qed

end
