(* ===== verification/Misc.thy ===== *)
theory Misc imports RingBuf "HOL-Library.Signed_Division" begin

text \<open>
  misc.c: conversion of time stamps, and string functions on character arrays. A C string is an array of
  bytes with a NUL in it; a pointer into an array is an index. \<open>int64_t\<close> is an integer whose arithmetic
  faults beyond 64 bits, division truncates towards zero. \<open>dump_core\<close> (fork and raise) is not modelled.
\<close>

section \<open>Time stamps\<close>

record timeval =
  tv_sec :: int
  tv_usec :: int

definition in_int64 :: "int \<Rightarrow> bool" where
  "in_int64 x \<longleftrightarrow> - (2 ^ 63) \<le> x \<and> x < 2 ^ 63"

definition int64 :: "int \<Rightarrow> int res" where
  "int64 x = (if in_int64 x then Inr x else Inl Bad_Arith)"

text \<open>\<open>tconv\<close> works in the direction of its flag; the other object is left alone.\<close>

definition tconv :: "timeval \<Rightarrow> int \<Rightarrow> bool \<Rightarrow> (timeval \<times> int) res" where
  "tconv tv ts tv_to_ts =
     (if tv_to_ts then
        bind_res (int64 (tv_sec tv * 1000000)) (\<lambda>us.
        bind_res (int64 (us + tv_usec tv)) (\<lambda>t. Inr (tv, t)))
      else Inr (\<lparr>tv_sec = ts sdiv 1000000, tv_usec = ts smod 1000000\<rparr>, ts))"

text \<open>\<open>gettimeofday\<close> is the argument: the time, or \<open>None\<close> when the call fails.\<close>

definition tstamp_us :: "timeval option \<Rightarrow> int res" where
  "tstamp_us now = (case now of None \<Rightarrow> Inr 0 | Some t \<Rightarrow> bind_res (tconv t 0 True) (\<lambda>r. Inr (snd r)))"

section \<open>Strings\<close>

type_synonym chars = "byte cell list"

text \<open>\<open>isdigit\<close> of a negative \<open>char\<close> other than \<open>EOF\<close> is undefined.\<close>

definition c_isdigit :: "byte \<Rightarrow> bool res" where
  "c_isdigit c =
     (if sint c < - 1 then Inl Out_Of_Bounds else Inr (48 \<le> uint c \<and> uint c \<le> 57))"

definition isdigitstr_body :: "chars \<Rightarrow> nat \<Rightarrow> (nat, bool) step res" where
  "isdigitstr_body a p =
     bind_res (arr_get a p) (\<lambda>c.
     if c = 0 then Inr (Break True)
     else bind_res (c_isdigit c) (\<lambda>d. Inr (if d then Continue (p + 1) else Break False)))"

definition isdigitstr :: "chars \<Rightarrow> nat \<Rightarrow> bool res" where
  "isdigitstr a p = c_loop (isdigitstr_body a) p"

definition strlen_body :: "chars \<Rightarrow> nat \<Rightarrow> nat \<Rightarrow> (nat, nat) step res" where
  "strlen_body a p n = bind_res (arr_get a (p + n)) (\<lambda>c. Inr (if c = 0 then Break n else Continue (n + 1)))"

definition c_strlen :: "chars \<Rightarrow> nat \<Rightarrow> nat res" where
  "c_strlen a p = c_loop (strlen_body a p) 0"

definition strNcat_body :: "chars \<Rightarrow> chars \<times> nat \<times> nat \<times> nat \<Rightarrow> (chars \<times> nat \<times> nat \<times> nat, chars \<times> nat) step res" where
  "strNcat_body src = (\<lambda>(dest, ptr, s, rem).
     if rem = 0 then Inr (Break (dest, ptr))
     else
       bind_res (arr_get src s) (\<lambda>c.
       if c = 0 then Inr (Break (dest, ptr))
       else bind_res (arr_set dest ptr c) (\<lambda>d. Inr (Continue (d, ptr + 1, s + 1, rem - 1)))))"

definition strNcat :: "chars \<Rightarrow> chars \<Rightarrow> nat \<Rightarrow> chars res" where
  "strNcat dest src destsz =
     bind_res (c_strlen dest 0) (\<lambda>len.
     if destsz \<le> len + 1 then Inr dest
     else
       bind_res (c_loop (strNcat_body src) (dest, len, 0, destsz - (len + 1))) (\<lambda>(d, ptr).
       arr_set d ptr 0))"

text \<open>\<open>strncpy\<close> copies up to the NUL and fills the rest of the \<open>len\<close> bytes with NULs.\<close>

definition strncpy_body :: "chars \<Rightarrow> nat \<Rightarrow> chars \<times> nat \<times> bool \<Rightarrow> (chars \<times> nat \<times> bool, chars) step res" where
  "strncpy_body src len = (\<lambda>(dst, i, ended).
     if len \<le> i then Inr (Break dst)
     else
       bind_res (if ended then Inr 0 else arr_get src i) (\<lambda>c.
       bind_res (arr_set dst i c) (\<lambda>d. Inr (Continue (d, i + 1, ended \<or> c = 0)))))"

definition strNcpy :: "chars \<Rightarrow> chars \<Rightarrow> nat \<Rightarrow> chars res" where
  "strNcpy dst src len =
     bind_res (c_loop (strncpy_body src len) (dst, 0, False)) (\<lambda>d. arr_set d (sz_sub len 1) 0)"

section \<open>Splitting quoted strings\<close>

text \<open>
  The state of the loop: the input (words are ended by writing NULs into it), the position, the kind of
  quote we are in (0 if none), whether we are between words, the number of words and the array of their
  positions, of which only the first \<open>dest_nelem\<close> are written.
\<close>

type_synonym split_state = "chars \<times> nat \<times> byte \<times> bool \<times> nat \<times> nat cell list"

definition put_word :: "nat cell list \<Rightarrow> nat \<Rightarrow> nat \<Rightarrow> nat \<Rightarrow> nat cell list res" where
  "put_word dest dest_nelem n p = (if n < dest_nelem then arr_set dest n p else Inr dest)"

definition split_body :: "nat \<Rightarrow> split_state \<Rightarrow> (split_state, chars \<times> nat \<times> nat cell list) step res" where
  "split_body dest_nelem = (\<lambda>(input, p, quotetype, inws, n, dest).
     bind_res (arr_get input p) (\<lambda>c.
     if c = 0 then Inr (Break (input, n, dest))
     else if c = 39 \<or> c = 34 then
       if inws then
         bind_res (put_word dest dest_nelem n (p + 1)) (\<lambda>d. Inr (Continue (input, p + 1, c, False, n + 1, d)))
       else if quotetype = c then
         bind_res (arr_set input p 0) (\<lambda>a. Inr (Continue (a, p + 1, 0, True, n, dest)))
       else if quotetype = 0 then
         bind_res (arr_set input p 0) (\<lambda>a.
         bind_res (put_word dest dest_nelem n (p + 1)) (\<lambda>d. Inr (Continue (a, p + 1, c, inws, n + 1, d))))
       else Inr (Continue (input, p + 1, quotetype, inws, n, dest))
     else if c = 32 \<or> c = 9 \<or> c = 13 \<or> c = 10 then
       if inws then Inr (Continue (input, p + 1, quotetype, inws, n, dest))
       else if quotetype = 0 then
         bind_res (arr_set input p 0) (\<lambda>a. Inr (Continue (a, p + 1, quotetype, True, n, dest)))
       else Inr (Continue (input, p + 1, quotetype, inws, n, dest))
     else if inws then
       bind_res (put_word dest dest_nelem n p) (\<lambda>d. Inr (Continue (input, p + 1, 0, False, n + 1, d)))
     else Inr (Continue (input, p + 1, quotetype, inws, n, dest))))"

definition int_max :: nat where
  "int_max = 2 ^ 31 - 1"

text \<open>The number of words is converted to \<open>int\<close> when it is returned; the model wraps it.\<close>

definition splitquoted :: "chars \<Rightarrow> nat cell list \<Rightarrow> nat \<Rightarrow> (int \<times> chars \<times> nat cell list) res" where
  "splitquoted input dest dest_nelem =
     (if int_max < dest_nelem then Inr (- 1, input, dest)
      else
        bind_res (c_loop (split_body dest_nelem) (input, 0, 0, True, 0, dest)) (\<lambda>(a, n, d).
        Inr (signed_take_bit 31 (int n), a, d)))"

section \<open>Strings in arrays\<close>

fun cstr_at :: "chars \<Rightarrow> nat \<Rightarrow> byte list \<Rightarrow> bool" where
  "cstr_at a i [] \<longleftrightarrow> i < length a \<and> a ! i = Val 0"
| "cstr_at a i (c # s) \<longleftrightarrow> i < length a \<and> a ! i = Val c \<and> c \<noteq> 0 \<and> cstr_at a (i + 1) s"

lemma cstr_at_map: "0 \<notin> set s \<Longrightarrow> cstr_at (xs @ map Val (s @ [0]) @ ys) (length xs) s"
proof (induction s arbitrary: xs)
  case (Cons c s)
  with Cons.IH [of "xs @ [Val c]"] show ?case by (simp add: nth_append)
qed (simp add: nth_append)

lemma cstr_at_take: "cstr_at a i s \<Longrightarrow> i + length s < length a \<and> take (length s) (drop i a) = map Val s"
proof (induction s arbitrary: i)
  case (Cons c s)
  then have "drop i a = Val c # drop (i + 1) a" by (simp add: Cons_nth_drop_Suc [symmetric])
  with Cons.IH [of "i + 1"] Cons.prems show ?case by simp
qed simp

lemma strlen_loop: "cstr_at a (p + n) s \<Longrightarrow> c_loop (strlen_body a p) n = Inr (n + length s)"
proof (induction s arbitrary: n)
  case Nil
  then show ?case by (intro c_loop_Break) (simp_all add: strlen_body_def arr_get_def)
next
  case (Cons c s)
  then have "c_loop (strlen_body a p) n = c_loop (strlen_body a p) (n + 1)"
    by (intro c_loop_Continue) (simp add: strlen_body_def arr_get_def)
  with Cons.IH [of "n + 1"] Cons.prems show ?case by simp
qed

lemma c_strlen_ok: "cstr_at a p s \<Longrightarrow> c_strlen a p = Inr (length s)"
  using strlen_loop [of a p 0 s] by (simp add: c_strlen_def)

lemma isdigitstr_ok:
  "cstr_at a p s \<Longrightarrow> list_all (\<lambda>c. 0 \<le> sint c) s \<Longrightarrow> isdigitstr a p = Inr (list_all (\<lambda>c. 48 \<le> uint c \<and> uint c \<le> 57) s)"
  unfolding isdigitstr_def
proof (induction s arbitrary: p)
  case Nil
  then show ?case by (intro c_loop_Break) (simp add: isdigitstr_body_def arr_get_def)
next
  case (Cons c s)
  then have b: "isdigitstr_body a p = Inr (if 48 \<le> uint c \<and> uint c \<le> 57 then Continue (p + 1) else Break False)"
    by (simp add: isdigitstr_body_def arr_get_def c_isdigit_def)
  show ?case
  proof (cases "48 \<le> uint c \<and> uint c \<le> 57")
    case True
    with b have "c_loop (isdigitstr_body a) p = c_loop (isdigitstr_body a) (p + 1)" by (simp add: c_loop_Continue)
    with Cons True show ?thesis by simp
  next
    case False
    with b have "c_loop (isdigitstr_body a) p = Inr False" by (auto intro: c_loop_Break)
    with False show ?thesis by auto
  qed
qed

lemma strNcat_loop:
  "cstr_at src i s \<Longrightarrow> ptr + rem \<le> length dest \<Longrightarrow>
   c_loop (strNcat_body src) (dest, ptr, i, rem) = Inr (fill dest ptr (take rem s), ptr + min rem (length s))"
proof (induction s arbitrary: dest ptr i rem)
  case Nil
  then show ?case by (intro c_loop_Break) (simp add: strNcat_body_def arr_get_def)
next
  case (Cons c s)
  show ?case
  proof (cases rem)
    case 0
    then show ?thesis by (intro c_loop_Break) (simp add: strNcat_body_def)
  next
    case (Suc k)
    with Cons.prems have "c_loop (strNcat_body src) (dest, ptr, i, rem) =
        c_loop (strNcat_body src) (fill dest ptr [c], ptr + 1, i + 1, k)"
      by (intro c_loop_Continue) (simp add: strNcat_body_def arr_get_def arr_set_fill)
    also have "\<dots> = Inr (fill (fill dest ptr [c]) (ptr + 1) (take k s), ptr + 1 + min k (length s))"
      using Cons.prems Suc by (intro Cons.IH) (simp_all add: length_fill)
    also have "fill (fill dest ptr [c]) (ptr + 1) (take k s) = fill dest ptr (take rem (c # s))"
      using fill_fill [of ptr "[c]" "take k s" dest] Cons.prems(2) Suc by simp
    finally show ?thesis using Suc by simp
  qed
qed

lemma fill_prefix: "a = map Val xs @ ys \<Longrightarrow> fill a (length xs) zs = fill a 0 (xs @ zs)"
  by (simp add: fill_def)

lemma strNcat_ok:
  assumes d: "cstr_at dest 0 d" and s: "cstr_at src 0 s" and sz: "destsz \<le> length dest"
  shows "strNcat dest src destsz =
    Inr (if destsz \<le> length d + 1 then dest else fill dest 0 (take (destsz - 1) (d @ s) @ [0]))"
proof (cases "destsz \<le> length d + 1")
  case True
  with c_strlen_ok [OF d] show ?thesis by (simp add: strNcat_def)
next
  case False
  let ?r = "destsz - (length d + 1)"
  have "c_loop (strNcat_body src) (dest, length d, 0, ?r) = Inr (fill dest (length d) (take ?r s), length d + min ?r (length s))"
    using strNcat_loop [OF s, of "length d" ?r dest] sz False by simp
  moreover have "arr_set (fill dest (length d) (take ?r s)) (length d + min ?r (length s)) 0 =
      Inr (fill dest (length d) (take ?r s @ [0]))"
    using fill_fill [of "length d" "take ?r s" "[0]" dest] sz False
    by (simp add: arr_set_fill length_fill min.commute)
  moreover have "dest = map Val d @ drop (length d) dest"
    using cstr_at_take [OF d] append_take_drop_id [of "length d" dest] by simp
  moreover have "take (destsz - 1) (d @ s) = d @ take ?r s" using False by simp
  ultimately show ?thesis using False c_strlen_ok [OF d] by (simp add: strNcat_def fill_prefix [of dest d "drop (length d) dest"])
qed

lemma strncpy_pad:
  "i \<le> len \<Longrightarrow> len \<le> length dst \<Longrightarrow> c_loop (strncpy_body src len) (dst, i, True) = Inr (fill dst i (replicate (len - i) 0))"
proof (induction "len - i" arbitrary: dst i)
  case 0
  then show ?case by (intro c_loop_Break) (simp add: strncpy_body_def)
next
  case (Suc k)
  then have "c_loop (strncpy_body src len) (dst, i, True) = c_loop (strncpy_body src len) (fill dst i [0], i + 1, True)"
    by (intro c_loop_Continue) (simp add: strncpy_body_def arr_set_fill)
  also have "\<dots> = Inr (fill (fill dst i [0]) (i + 1) (replicate (len - (i + 1)) 0))"
    using Suc by (intro Suc.hyps(1)) (simp_all add: length_fill)
  also have "fill (fill dst i [0]) (i + 1) (replicate (len - (i + 1)) 0) = fill dst i (replicate (len - i) 0)"
    using fill_fill [of i "[0]" "replicate (len - (i + 1)) 0" dst] Suc by (simp flip: replicate_Suc add: Suc_diff_Suc)
  finally show ?case .
qed

lemma strncpy_loop:
  "cstr_at src i s \<Longrightarrow> i \<le> len \<Longrightarrow> len \<le> length dst \<Longrightarrow>
   c_loop (strncpy_body src len) (dst, i, False) = Inr (fill dst i (take (len - i) (s @ replicate (len - i) 0)))"
proof (induction s arbitrary: dst i)
  case Nil
  show ?case
  proof (cases "i = len")
    case True
    then show ?thesis by (intro c_loop_Break) (simp add: strncpy_body_def)
  next
    case False
    with Nil have "c_loop (strncpy_body src len) (dst, i, False) = c_loop (strncpy_body src len) (fill dst i [0], i + 1, True)"
      by (intro c_loop_Continue) (simp add: strncpy_body_def arr_get_def arr_set_fill)
    also have "\<dots> = Inr (fill (fill dst i [0]) (i + 1) (replicate (len - (i + 1)) 0))"
      using Nil False by (intro strncpy_pad) (simp_all add: length_fill)
    also have "fill (fill dst i [0]) (i + 1) (replicate (len - (i + 1)) 0) = fill dst i (replicate (len - i) 0)"
      using fill_fill [of i "[0]" "replicate (len - (i + 1)) 0" dst] Nil False
      by (simp flip: replicate_Suc add: Suc_diff_Suc)
    finally show ?thesis by simp
  qed
next
  case (Cons c s)
  show ?case
  proof (cases "i = len")
    case True
    then show ?thesis by (intro c_loop_Break) (simp add: strncpy_body_def)
  next
    case False
    then obtain k where k: "len - i = Suc k" "len - (i + 1) = k" using Cons.prems(2) by (cases "len - i") auto
    from Cons.prems False have "c_loop (strncpy_body src len) (dst, i, False) =
        c_loop (strncpy_body src len) (fill dst i [c], i + 1, False)"
      by (intro c_loop_Continue) (simp add: strncpy_body_def arr_get_def arr_set_fill)
    also have "\<dots> = Inr (fill (fill dst i [c]) (i + 1) (take (len - (i + 1)) (s @ replicate (len - (i + 1)) 0)))"
      using Cons.prems False by (intro Cons.IH) (simp_all add: length_fill)
    also have "take (len - (i + 1)) (s @ replicate (len - (i + 1)) 0) = take k (s @ replicate k 0)" unfolding k(2) ..
    also have "fill (fill dst i [c]) (i + 1) (take k (s @ replicate k 0)) = fill dst i (c # take k (s @ replicate k 0))"
      using fill_fill [of i "[c]" "take k (s @ replicate k 0)" dst] Cons.prems(3) k by simp
    also have "c # take k (s @ replicate k 0) = take (len - i) ((c # s) @ replicate (len - i) 0)"
      unfolding k(1) by (simp add: min_def del: replicate_Suc)
    finally show ?thesis .
  qed
qed

lemma strNcpy_ok:
  assumes "cstr_at src 0 s" and "0 < sz" and "sz \<le> length dst" and "sz \<le> size_max"
  shows "strNcpy dst src sz = Inr (map Val (take (sz - 1) (s @ replicate sz 0) @ [0]) @ drop sz dst)"
proof -
  let ?x = "take sz (s @ replicate sz 0)"
  have len: "length ?x = sz" by simp
  have "sz_sub sz 1 = sz - 1"
  proof (cases "sz < size_max")
    case False
    with assms(4) have "sz = size_max" by simp
    then show ?thesis by (simp add: sz_sub_def size_max_def)
  qed (use assms(2) in \<open>simp add: sz_simps\<close>)
  moreover have "c_loop (strncpy_body src sz) (dst, 0, False) = Inr (fill dst 0 ?x)"
    using strncpy_loop [OF assms(1), of sz dst] assms(3) by simp
  moreover have "sz - 1 < length (fill dst 0 ?x)" using assms(2,3) len by (simp add: length_fill)
  ultimately have c: "strNcpy dst src sz = Inr ((fill dst 0 ?x)[sz - 1 := Val 0])"
    by (simp add: strNcpy_def arr_set_def del: take_append)
  have "?x = take (sz - 1) (s @ replicate sz 0) @ [(s @ replicate sz 0) ! (sz - 1)]"
    using take_Suc_conv_app_nth [of "sz - 1" "s @ replicate sz 0"] assms(2) by simp
  then have "(map Val ?x)[sz - 1 := Val 0] = map Val (take (sz - 1) (s @ replicate sz 0) @ [0])"
    using assms(2) by (simp add: list_update_append del: take_append)
  moreover have "(fill dst 0 ?x)[sz - 1 := Val 0] = (map Val ?x)[sz - 1 := Val 0] @ drop sz dst"
    using assms(2) len by (simp add: fill_def list_update_append del: take_append)
  ultimately show ?thesis using c by simp
qed

lemma strNcpy_cstr:
  assumes "cstr_at src 0 s" and "0 < sz" and "sz \<le> length dst" and "sz \<le> size_max" and "0 \<notin> set s"
  shows "\<exists>a. strNcpy dst src sz = Inr a \<and> length a = length dst \<and> cstr_at a 0 (take (sz - 1) s)"
proof -
  let ?r = "replicate (sz - 1 - length s) 0 :: byte list"
  have "take (sz - 1) (s @ replicate sz 0) @ [0] = take (sz - 1) s @ ?r @ [0]" by (simp add: min_def)
  also have "\<dots> = (take (sz - 1) s @ [0]) @ tl (?r @ [0])" by (simp add: replicate_append_same flip: replicate_Suc)
  finally have "strNcpy dst src sz = Inr (map Val (take (sz - 1) s @ [0]) @ map Val (tl (?r @ [0])) @ drop sz dst)"
    using strNcpy_ok [OF assms(1-4)] by (simp del: take_append)
  moreover have "0 \<notin> set (take (sz - 1) s)" using assms(5) in_set_takeD by fastforce
  moreover have "length (map Val (take (sz - 1) s @ [0]) @ map Val (tl (?r @ [0])) @ drop sz dst) = length dst"
    using assms(2,3) by simp
  ultimately show ?thesis using cstr_at_map [of "take (sz - 1) s" "[]"] by fastforce
qed

section \<open>Words\<close>

text \<open>
  The words of a string, specified as a scanner with three modes. \<open>scan m s\<close> is what is left of the
  current word and the words after it: words are separated by white space; a quote, single or double,
  starts a new word, also inside an unquoted word, and extends up to the next quote of its kind.
\<close>

datatype mode = Between | Word | Quoted byte

definition is_quote :: "byte \<Rightarrow> bool" where
  "is_quote c \<longleftrightarrow> c = 39 \<or> c = 34"

definition is_space :: "byte \<Rightarrow> bool" where
  "is_space c \<longleftrightarrow> c = 32 \<or> c = 9 \<or> c = 13 \<or> c = 10"

fun scan :: "mode \<Rightarrow> byte list \<Rightarrow> byte list \<times> byte list list" where
  "scan m [] = ([], [])"
| "scan Between (c # s) =
     (if is_quote c then ([], fst (scan (Quoted c) s) # snd (scan (Quoted c) s))
      else if is_space c then scan Between s
      else ([], (c # fst (scan Word s)) # snd (scan Word s)))"
| "scan Word (c # s) =
     (if is_quote c then ([], fst (scan (Quoted c) s) # snd (scan (Quoted c) s))
      else if is_space c then ([], snd (scan Between s))
      else (c # fst (scan Word s), snd (scan Word s)))"
| "scan (Quoted q) (c # s) =
     (if c = q then ([], snd (scan Between s)) else (c # fst (scan (Quoted q) s), snd (scan (Quoted q) s)))"

definition split_words :: "byte list \<Rightarrow> byte list list" where
  "split_words s = snd (scan Between s)"

fun quote_of :: "mode \<Rightarrow> byte" where
  "quote_of (Quoted q) = q"
| "quote_of m = 0"

definition mode_ok :: "mode \<Rightarrow> bool" where
  "mode_ok m \<longleftrightarrow> (case m of Quoted q \<Rightarrow> is_quote q | _ \<Rightarrow> True)"

text \<open>
  What the loop has done when it ends: nothing before the position has changed, the current word starts
  at the position, and the remaining words are where the array says.
\<close>

definition split_post ::
  "nat \<Rightarrow> chars \<Rightarrow> nat \<Rightarrow> nat \<Rightarrow> nat cell list \<Rightarrow> mode \<Rightarrow> byte list \<Rightarrow> chars \<Rightarrow> nat cell list \<Rightarrow> bool" where
  "split_post nelem a p n dest m s a' d' \<longleftrightarrow>
     length a' = length a \<and> take p a' = take p a \<and> (m \<noteq> Between \<longrightarrow> cstr_at a' p (fst (scan m s))) \<and>
     length d' = length dest \<and> take n d' = take n dest \<and>
     (\<forall>k < length (snd (scan m s)). n + k < nelem \<longrightarrow>
        (\<exists>q. d' ! (n + k) = Val q \<and> cstr_at a' q (snd (scan m s) ! k)))"

text \<open>One step: the character at the position is kept or replaced by NUL, and a word may begin.\<close>

lemma take_Suc_agree:
  assumes "take (Suc p) xs = take (Suc p) ys" and "p < length ys"
  shows "p < length xs" and "xs ! p = ys ! p" and "take p xs = take p ys"
proof -
  show "p < length xs" using arg_cong [OF assms(1), of length] assms(2) by simp
  have "take (Suc p) xs ! p = take (Suc p) ys ! p" using assms(1) by simp
  then show "xs ! p = ys ! p" by simp
  have "take p (take (Suc p) xs) = take p (take (Suc p) ys)" using assms(1) by simp
  then show "take p xs = take p ys" by (simp add: min_def)
qed

lemma split_post_step:
  assumes "split_post nelem (a[p := Val x]) (p + 1) n dest m s a' d'" and "p < length a"
  shows "a' ! p = Val x" and "p < length a'" and "take p a' = take p a"
proof -
  have t: "take (Suc p) a' = take (Suc p) (a[p := Val x])" using assms(1) by (simp add: split_post_def)
  from take_Suc_agree [OF t] assms(2) show "a' ! p = Val x" "p < length a'" "take p a' = take p a" by simp_all
qed

lemma split_post_char:
  assumes "split_post nelem (a[p := Val c]) (p + 1) n dest m' s a' d'" and "p < length a" and "c \<noteq> 0"
    and "m = Between \<and> m' = Between \<and> snd (scan m (c # s)) = snd (scan m' s) \<or>
      m' \<noteq> Between \<and> scan m (c # s) = (c # fst (scan m' s), snd (scan m' s))"
  shows "split_post nelem a p n dest m (c # s) a' d'"
  using split_post_step [OF assms(1,2)] assms(1,3,4) by (auto simp: split_post_def)

lemma split_post_end:
  assumes "split_post nelem (a[p := Val 0]) (p + 1) n dest Between s a' d'" and "p < length a"
    and "scan m (c # s) = ([], snd (scan Between s))"
  shows "split_post nelem a p n dest m (c # s) a' d'"
  using split_post_step [OF assms(1,2)] assms(1,3) by (auto simp: split_post_def)

definition word_at :: "nat \<Rightarrow> nat cell list \<Rightarrow> nat \<Rightarrow> nat \<Rightarrow> nat cell list" where
  "word_at nelem dest n q = (if n < nelem then dest[n := Val q] else dest)"

lemma split_post_begin:
  assumes post: "split_post nelem (a[p := Val x]) (p + 1) (n + 1) (word_at nelem dest n q) m' s a' d'" and p: "p < length a"
    and dest: "nelem \<le> length dest"
    and scan: "m' \<noteq> Between" "scan m (c # s) = ([], w # snd (scan m' s))" "m = Between \<or> x = 0"
    and w: "q = p + 1 \<and> w = fst (scan m' s) \<or> q = p \<and> w = c # fst (scan m' s) \<and> x = c \<and> c \<noteq> 0"
  shows "split_post nelem a p n dest m (c # s) a' d'"
proof -
  note st = split_post_step [OF post p]
  have word: "cstr_at a' q w" using post scan(1) w st by (auto simp: split_post_def)
  have d: "take (Suc n) d' = take (Suc n) (word_at nelem dest n q)" "length d' = length dest"
    using post by (auto simp: split_post_def word_at_def)
  have keep: "take n d' = take n dest"
    using arg_cong [OF d(1), of "take n"] by (simp add: min_def word_at_def split: if_splits)
  have here: "d' ! n = Val q" if "n < nelem"
    using take_Suc_agree(2) [OF d(1)] that dest by (simp add: word_at_def)
  have "\<exists>q'. d' ! (n + k) = Val q' \<and> cstr_at a' q' ((w # snd (scan m' s)) ! k)"
    if k: "k < Suc (length (snd (scan m' s)))" "n + k < nelem" for k
  proof (cases k)
    case 0
    with here k word show ?thesis by auto
  next
    case (Suc j)
    with post k show ?thesis by (auto simp: split_post_def)
  qed
  then show ?thesis using post st scan d keep by (auto simp: split_post_def)
qed

lemma put_word_ok: "nelem \<le> length dest \<Longrightarrow> put_word dest nelem n q = Inr (word_at nelem dest n q)"
  by (simp add: put_word_def word_at_def arr_set_def)

lemma length_word_at [simp]: "length (word_at nelem dest n q) = length dest"
  by (simp add: word_at_def)

lemma cstr_at_upd: "k < p \<Longrightarrow> cstr_at (a[k := x]) p s = cstr_at a p s"
  by (induction s arbitrary: p) auto

lemma split_loop:
  "cstr_at a p s \<Longrightarrow> mode_ok m \<Longrightarrow> nelem \<le> length dest \<Longrightarrow>
   \<exists>a' d'. c_loop (split_body nelem) (a, p, quote_of m, m = Between, n, dest) = Inr (a', n + length (snd (scan m s)), d') \<and>
     split_post nelem a p n dest m s a' d'"
proof (induction s arbitrary: a p m n dest)
  case Nil
  then have "split_body nelem (a, p, quote_of m, m = Between, n, dest) = Inr (Break (a, n, dest))"
    by (simp add: split_body_def arr_get_def)
  then have "c_loop (split_body nelem) (a, p, quote_of m, m = Between, n, dest) = Inr (a, n, dest)" by (rule c_loop_Break)
  with Nil show ?case by (simp add: split_post_def)
next
  case (Cons c s)
  have p: "p < length a" "arr_get a p = Inr c" "c \<noteq> 0" and same: "a[p := Val c] = a"
    and tail: "cstr_at a (p + 1) s" "cstr_at (a[p := Val 0]) (p + 1) s"
    using Cons.prems(1) by (auto simp: arr_get_def cstr_at_upd intro: list_update_same_conv [THEN iffD2])
  have set0: "arr_set a p 0 = Inr (a[p := Val 0])" using p(1) by (simp add: arr_set_def)
  note put = put_word_ok [OF Cons.prems(3)]
  note dest = Cons.prems(3)
  have go: "\<exists>a' d'. c_loop (split_body nelem) (a, p, quote_of m, m = Between, n, dest) = Inr (a', n + length (snd (scan m (c # s))), d') \<and>
      split_post nelem a p n dest m (c # s) a' d'"
    if step: "split_body nelem (a, p, quote_of m, m = Between, n, dest) =
        Inr (Continue (b, p + 1, quote_of m', m' = Between, n', d1))"
      and b: "cstr_at b (p + 1) s" and m': "mode_ok m'" and d1: "length d1 = length dest"
      and n': "n' + length (snd (scan m' s)) = n + length (snd (scan m (c # s)))"
      and post: "\<And>a' d'. split_post nelem b (p + 1) n' d1 m' s a' d' \<Longrightarrow> split_post nelem a p n dest m (c # s) a' d'"
    for b m' n' d1
  proof -
    have "c_loop (split_body nelem) (a, p, quote_of m, m = Between, n, dest) =
        c_loop (split_body nelem) (b, p + 1, quote_of m', m' = Between, n', d1)"
      using step by (rule c_loop_Continue)
    moreover obtain a' d' where "c_loop (split_body nelem) (b, p + 1, quote_of m', m' = Between, n', d1) =
        Inr (a', n' + length (snd (scan m' s)), d')" "split_post nelem b (p + 1) n' d1 m' s a' d'"
      using Cons.IH [OF b m', of d1 n'] d1 dest by auto
    ultimately show ?thesis using n' post by auto
  qed
  note body = split_body_def p(2,3) is_quote_def is_space_def
  show ?case
  proof (cases m)
    case Between
    consider "is_quote c" | "\<not> is_quote c" "is_space c" | "\<not> is_quote c" "\<not> is_space c" by blast
    then show ?thesis
    proof cases
      case 1
      show ?thesis
      proof (rule go [of a "Quoted c" "n + 1" "word_at nelem dest n (p + 1)"])
        show "split_body nelem (a, p, quote_of m, m = Between, n, dest) =
            Inr (Continue (a, p + 1, quote_of (Quoted c), Quoted c = Between, n + 1, word_at nelem dest n (p + 1)))"
          using 1 Between put by (simp add: body)
        show "split_post nelem a p n dest m (c # s) a' d'"
          if "split_post nelem a (p + 1) (n + 1) (word_at nelem dest n (p + 1)) (Quoted c) s a' d'" for a' d'
          by (rule split_post_begin [where x = c and w = "fst (scan (Quoted c) s)"])
            (use that same p dest 1 Between in auto)
      qed (use tail 1 Between in \<open>auto simp: mode_ok_def\<close>)
    next
      case 2
      show ?thesis
      proof (rule go [of a Between n dest])
        show "split_body nelem (a, p, quote_of m, m = Between, n, dest) =
            Inr (Continue (a, p + 1, quote_of Between, Between = Between, n, dest))"
          using 2 Between by (simp add: body)
        show "split_post nelem a p n dest m (c # s) a' d'" if "split_post nelem a (p + 1) n dest Between s a' d'" for a' d'
          by (rule split_post_char) (use that same p 2 Between in auto)
      qed (use tail 2 Between in \<open>auto simp: mode_ok_def\<close>)
    next
      case 3
      show ?thesis
      proof (rule go [of a Word "n + 1" "word_at nelem dest n p"])
        show "split_body nelem (a, p, quote_of m, m = Between, n, dest) =
            Inr (Continue (a, p + 1, quote_of Word, Word = Between, n + 1, word_at nelem dest n p))"
          using 3 Between put by (simp add: body)
        show "split_post nelem a p n dest m (c # s) a' d'"
          if "split_post nelem a (p + 1) (n + 1) (word_at nelem dest n p) Word s a' d'" for a' d'
          by (rule split_post_begin [where x = c and w = "c # fst (scan Word s)"])
            (use that same p dest 3 Between in auto)
      qed (use tail 3 Between in \<open>auto simp: mode_ok_def\<close>)
    qed
  next
    case Word
    consider "is_quote c" | "\<not> is_quote c" "is_space c" | "\<not> is_quote c" "\<not> is_space c" by blast
    then show ?thesis
    proof cases
      case 1
      show ?thesis
      proof (rule go [of "a[p := Val 0]" "Quoted c" "n + 1" "word_at nelem dest n (p + 1)"])
        show "split_body nelem (a, p, quote_of m, m = Between, n, dest) =
            Inr (Continue (a[p := Val 0], p + 1, quote_of (Quoted c), Quoted c = Between, n + 1, word_at nelem dest n (p + 1)))"
          using 1 Word put set0 by (simp add: body)
        show "split_post nelem a p n dest m (c # s) a' d'"
          if "split_post nelem (a[p := Val 0]) (p + 1) (n + 1) (word_at nelem dest n (p + 1)) (Quoted c) s a' d'" for a' d'
          by (rule split_post_begin [where x = 0 and w = "fst (scan (Quoted c) s)"])
            (use that p dest 1 Word in auto)
      qed (use tail 1 Word in \<open>auto simp: mode_ok_def\<close>)
    next
      case 2
      show ?thesis
      proof (rule go [of "a[p := Val 0]" Between n dest])
        show "split_body nelem (a, p, quote_of m, m = Between, n, dest) =
            Inr (Continue (a[p := Val 0], p + 1, quote_of Between, Between = Between, n, dest))"
          using 2 Word set0 by (simp add: body)
        show "split_post nelem a p n dest m (c # s) a' d'"
          if "split_post nelem (a[p := Val 0]) (p + 1) n dest Between s a' d'" for a' d'
          by (rule split_post_end) (use that p 2 Word in auto)
      qed (use tail 2 Word in \<open>auto simp: mode_ok_def\<close>)
    next
      case 3
      show ?thesis
      proof (rule go [of a Word n dest])
        show "split_body nelem (a, p, quote_of m, m = Between, n, dest) =
            Inr (Continue (a, p + 1, quote_of Word, Word = Between, n, dest))"
          using 3 Word by (simp add: body)
        show "split_post nelem a p n dest m (c # s) a' d'" if "split_post nelem a (p + 1) n dest Word s a' d'" for a' d'
          by (rule split_post_char) (use that same p 3 Word in auto)
      qed (use tail 3 Word in \<open>auto simp: mode_ok_def\<close>)
    qed
  next
    case (Quoted q)
    then have q: "is_quote q" "q \<noteq> 0" using Cons.prems(2) by (auto simp: mode_ok_def is_quote_def)
    show ?thesis
    proof (cases "c = q")
      case True
      show ?thesis
      proof (rule go [of "a[p := Val 0]" Between n dest])
        show "split_body nelem (a, p, quote_of m, m = Between, n, dest) =
            Inr (Continue (a[p := Val 0], p + 1, quote_of Between, Between = Between, n, dest))"
          using True Quoted q set0 by (auto simp: body)
        show "split_post nelem a p n dest m (c # s) a' d'"
          if "split_post nelem (a[p := Val 0]) (p + 1) n dest Between s a' d'" for a' d'
          by (rule split_post_end) (use that p True Quoted in auto)
      qed (use tail True Quoted in \<open>auto simp: mode_ok_def\<close>)
    next
      case False
      show ?thesis
      proof (rule go [of a "Quoted q" n dest])
        show "split_body nelem (a, p, quote_of m, m = Between, n, dest) =
            Inr (Continue (a, p + 1, quote_of (Quoted q), Quoted q = Between, n, dest))"
          using False Quoted q by (auto simp: body)
        show "split_post nelem a p n dest m (c # s) a' d'" if "split_post nelem a (p + 1) n dest (Quoted q) s a' d'" for a' d'
          by (rule split_post_char) (use that same p False Quoted in auto)
      qed (use tail False Quoted q in \<open>auto simp: mode_ok_def\<close>)
    qed
  qed
qed

section \<open>Properties\<close>

text \<open>
  every 64-bit number of microseconds survives the conversion to a \<open>timeval\<close> and back without
  overflow; a normalised \<open>timeval\<close> that is not negative survives the way round, up to the time at which
  the microseconds overflow 64 bits.
\<close>

theorem tconv_roundtrip:
  assumes "in_int64 ts" and "0 \<le> tv_sec tv" and "tv_sec tv < 9223372036854" and "0 \<le> tv_usec tv" and "tv_usec tv < 1000000"
  shows "(\<exists>tv'. tconv tv0 ts False = Inr (tv', ts) \<and> tconv tv' ts0 True = Inr (tv', ts) \<and>
      \<bar>tv_usec tv'\<bar> < 1000000 \<and> (0 \<le> ts \<longrightarrow> 0 \<le> tv_usec tv')) \<and>
    (\<exists>t. tconv tv ts0 True = Inr (tv, t) \<and> tconv tv0 t False = Inr (tv, t))"
proof
  let ?q = "ts sdiv 1000000" and ?r = "ts smod 1000000"
  have qr: "?q * 1000000 + ?r = ts" by (rule sdiv_mult_smod_eq)
  have "\<bar>?q * 1000000\<bar> \<le> \<bar>ts\<bar>" "\<bar>?r\<bar> < 1000000" "0 \<le> ts \<longrightarrow> 0 \<le> ?r" "?r < 0 \<longrightarrow> ts < 0" "0 \<le> ?q * 1000000 \<longleftrightarrow> 0 \<le> ?q"
    by (auto simp: signed_divide_int_def signed_modulo_int_def abs_mult sgn_if)
  moreover from this have "in_int64 (?q * 1000000)" using assms(1) by (auto simp: in_int64_def signed_divide_int_def sgn_if)
  ultimately show "\<exists>tv'. tconv tv0 ts False = Inr (tv', ts) \<and> tconv tv' ts0 True = Inr (tv', ts) \<and>
      \<bar>tv_usec tv'\<bar> < 1000000 \<and> (0 \<le> ts \<longrightarrow> 0 \<le> tv_usec tv')"
    using assms(1) qr by (simp add: tconv_def int64_def)
  let ?t = "tv_sec tv * 1000000 + tv_usec tv"
  have "in_int64 (tv_sec tv * 1000000)" "in_int64 ?t" using assms(2-5) by (simp_all add: in_int64_def)
  moreover have "?t sdiv 1000000 = tv_sec tv" "?t smod 1000000 = tv_usec tv"
    using assms(2-5) by (simp_all add: signed_divide_int_def signed_modulo_int_def sgn_if)
  ultimately show "\<exists>t. tconv tv ts0 True = Inr (tv, t) \<and> tconv tv0 t False = Inr (tv, t)"
    by (simp add: tconv_def int64_def)
qed

theorem tconv_roundtrip_witness:
  "(\<exists>tv'. tconv \<lparr>tv_sec = 0, tv_usec = 0\<rparr> (- 1500000) False = Inr (tv', - 1500000) \<and> tconv tv' 0 True = Inr (tv', - 1500000)) \<and>
   (\<exists>t. tconv \<lparr>tv_sec = 3, tv_usec = 250\<rparr> 0 True = Inr (\<lparr>tv_sec = 3, tv_usec = 250\<rparr>, t))"
  using tconv_roundtrip [of "- 1500000" "\<lparr>tv_sec = 3, tv_usec = 250\<rparr>" "\<lparr>tv_sec = 0, tv_usec = 0\<rparr>" 0]
  by (auto simp: in_int64_def)

text \<open>
  \<open>strNcat\<close> appends as much of the source as keeps the string and its NUL within the given size, and
  does nothing when the string alone fills it; \<open>strNcpy\<close> with a size that is not 0 copies as much as fits
  and always ends it with a NUL. Neither writes at or beyond the given size.
\<close>

theorem string_copies_bounded:
  assumes "cstr_at dest 0 d" and "cstr_at src 0 s" and "sz \<le> length dest" and "0 < sz" and "sz \<le> size_max"
  shows "strNcat dest src sz = Inr (if sz \<le> length d + 1 then dest else fill dest 0 (take (sz - 1) (d @ s) @ [0])) \<and>
    (\<exists>a. strNcpy dest src sz = Inr a \<and> drop sz a = drop sz dest \<and> length a = length dest \<and>
      take sz a = map Val (take (sz - 1) (s @ replicate sz 0) @ [0]))"
proof
  show "strNcat dest src sz = Inr (if sz \<le> length d + 1 then dest else fill dest 0 (take (sz - 1) (d @ s) @ [0]))"
    by (rule strNcat_ok [OF assms(1-3)])
  show "\<exists>a. strNcpy dest src sz = Inr a \<and> drop sz a = drop sz dest \<and> length a = length dest \<and>
      take sz a = map Val (take (sz - 1) (s @ replicate sz 0) @ [0])"
  proof -
    define y where "y = map Val (take (sz - 1) (s @ replicate sz 0) @ [0])"
    have "length y = sz" using assms(4) by (simp add: y_def)
    then show ?thesis using strNcpy_ok [OF assms(2,4,3,5)] assms(3) unfolding y_def [symmetric] by simp
  qed
qed

theorem string_copies_bounded_witness:
  "strNcat [Val 97, Val 0, Undef, Undef, Undef] [Val 98, Val 99, Val 100, Val 0] 4 = Inr [Val 97, Val 98, Val 99, Val 0, Undef] \<and>
   (\<exists>a. strNcpy [Val 97, Val 0, Undef, Undef, Undef] [Val 98, Val 99, Val 100, Val 0] 4 = Inr a \<and>
      take 4 a = [Val 98, Val 99, Val 100, Val 0])"
  using string_copies_bounded [of "[Val 97, Val 0, Undef, Undef, Undef]" "[97]" "[Val 98, Val 99, Val 100, Val 0]" "[98, 99, 100]" 4]
  by (auto simp: fill_def size_max_def)

text \<open>
  C23: \<open>splitquoted\<close> returns the number of words of its input and ends every word with a NUL in place:
  each of the first \<open>dest_nelem\<close> entries of the array is the position of a C string equal to the
  corresponding word of the specification \<open>split_words\<close>, and the other entries are not touched.
\<close>

theorem splitquoted_words:
  assumes "cstr_at a 0 s" and "nelem \<le> length dest" and "nelem \<le> int_max" and "length (split_words s) \<le> int_max"
  shows "\<exists>a' d'. splitquoted a dest nelem = Inr (int (length (split_words s)), a', d') \<and> length a' = length a \<and>
    length d' = length dest \<and>
    (\<forall>k. k < length (split_words s) \<and> k < nelem \<longrightarrow> (\<exists>q. d' ! k = Val q \<and> cstr_at a' q (split_words s ! k)))"
proof -
  obtain a' d' where "c_loop (split_body nelem) (a, 0, 0, True, 0, dest) = Inr (a', length (split_words s), d')"
    "split_post nelem a 0 0 dest Between s a' d'"
    using split_loop [OF assms(1), of Between nelem dest 0] assms(2) by (auto simp: mode_ok_def split_words_def)
  moreover have "signed_take_bit 31 (int (length (split_words s))) = int (length (split_words s))"
    using assms(4) by (simp add: signed_take_bit_int_eq_self int_max_def)
  ultimately show ?thesis using assms(3) by (auto simp: splitquoted_def split_post_def split_words_def)
qed

text \<open>The words of \<open>a"b c" d\<close> are \<open>a\<close>, \<open>b c\<close> and \<open>d\<close>; two of them fit.\<close>

theorem splitquoted_words_witness:
  "\<exists>a' d' q. splitquoted (map Val [97, 34, 98, 32, 99, 34, 32, 100, 0]) [Undef, Undef] 2 = Inr (3, a', d') \<and>
     d' ! 1 = Val q \<and> cstr_at a' q [98, 32, 99]"
proof -
  let ?s = "[97, 34, 98, 32, 99, 34, 32, 100] :: byte list"
  have w: "split_words ?s = [[97], [98, 32, 99], [100]]"
    by (simp add: split_words_def is_quote_def is_space_def)
  have "cstr_at (map Val (?s @ [0])) 0 ?s" by simp
  from splitquoted_words [OF this, of 2 "[Undef, Undef]"] w show ?thesis
    by (auto simp: int_max_def)
qed

end
