(* ===== verification/Io.thy ===== *)
theory Io imports BufRd Misc begin

text \<open>
  io.c: reading lines, writing everything, formatted output and waiting for file descriptors. The system
  calls are parameters of the model: \<open>rd\<close> as in the buffered reader, \<open>wr io bs\<close> for \<open>write\<close> (the number
  of bytes it took or an error), and for \<open>select\<close> and \<open>gettimeofday\<close> an environment with a state. What
  POSIX documents for a descriptor that takes some bytes at every call is the locale \<open>byte_sink\<close>.
\<close>

section \<open>The code\<close>

definition is_lineterm :: "byte \<Rightarrow> bool" where
  "is_lineterm c \<longleftrightarrow> c = 10 \<or> c = 13 \<or> c = 0"

text \<open>The loop of \<open>io_read_line\<close>; it is left with \<open>None\<close> when reading fails.\<close>

definition readline_body ::
  "('io \<Rightarrow> nat \<Rightarrow> rd_result \<times> 'io) \<Rightarrow> nat \<Rightarrow> 'io \<times> chars \<times> nat \<times> byte \<Rightarrow>
   ('io \<times> chars \<times> nat \<times> byte, (chars \<times> nat \<times> byte) option \<times> chars \<times> 'io) step res" where
  "readline_body rd dest_sz = (\<lambda>(io, dest, bc, c).
     let (r, io1) = rd io 1 in
     case r of
       Rd_Error \<Rightarrow> Inr (Break (None, dest, io1))
     | Rd bs \<Rightarrow>
         if bs = [] then Inr (Break (Some (dest, bc, c), dest, io1))
         else
           let c1 = hd bs in
           bind_res (if bc < dest_sz then arr_set dest bc c1 else Inr dest) (\<lambda>d.
           Inr (if is_lineterm c1 then Break (Some (d, bc + 1, c1), d, io1) else Continue (io1, d, bc + 1, c1))))"

definition io_read_line ::
  "('io \<Rightarrow> nat \<Rightarrow> rd_result \<times> 'io) \<Rightarrow> 'io \<Rightarrow> chars \<Rightarrow> nat \<Rightarrow> (int \<times> chars \<times> 'io) res" where
  "io_read_line rd fd dest dest_sz =
     bind_res (c_loop (readline_body rd dest_sz) (fd, dest, 0, 0)) (\<lambda>(r, d0, io).
     case r of
       None \<Rightarrow> Inr (- 1, d0, io)
     | Some (d, bc0, c) \<Rightarrow>
         let bc = (if c = 0 then sz_sub bc0 1 else bc0) in
         bind_res (arr_set d (if dest_sz \<le> bc then sz_sub dest_sz 1 else bc) 0) (\<lambda>d1.
         Inr (signed_take_bit 31 (int bc), d1, io)))"

datatype wr_result = Wr nat | Wr_Error

definition writeall_body ::
  "('io \<Rightarrow> byte list \<Rightarrow> wr_result \<times> 'io) \<Rightarrow> byte list \<Rightarrow> nat \<times> 'io \<Rightarrow> (nat \<times> 'io, bool \<times> 'io) step res" where
  "writeall_body wr buf = (\<lambda>(bc, io).
     if bc < length buf then
       (let (r, io1) = wr io (drop bc buf) in
        case r of Wr_Error \<Rightarrow> Inr (Break (False, io1)) | Wr n \<Rightarrow> Inr (Continue (sz_add bc n, io1)))
     else Inr (Break (True, io)))"

definition io_writeall :: "('io \<Rightarrow> byte list \<Rightarrow> wr_result \<times> 'io) \<Rightarrow> 'io \<Rightarrow> byte list \<Rightarrow> (bool \<times> 'io) res" where
  "io_writeall wr fd buf = c_loop (writeall_body wr buf) (0, fd)"

definition max_writebuf :: nat where
  "max_writebuf = 4096"

text \<open>
  \<open>vsnprintf\<close>, called with a format and arguments that expand to a text or cannot be expanded: it stores as
  much of the text as fits, with a NUL, and returns the length of all of it, which is an \<open>int\<close>. If the
  expansion fails, or its length is above the largest \<open>int\<close>, it returns a negative number, and the standard
  does not say what is in the array.
\<close>

datatype expansion = Expands "byte list" | Format_Error

definition c_vsnprintf :: "nat \<Rightarrow> expansion \<Rightarrow> int \<times> chars" where
  "c_vsnprintf sz f =
     (case f of
        Expands txt \<Rightarrow>
          if length txt < 2 ^ 31 then (int (length txt), fill (replicate sz Undef) 0 (take (sz - 1) txt @ [0]))
          else (- 1, replicate sz Undef)
      | Format_Error \<Rightarrow> (- 1, replicate sz Undef))"

text \<open>What is written is the string in the array, up to the first NUL; the result of \<open>vsnprintf\<close> is not looked at.\<close>

definition io_vfprintf :: "('io \<Rightarrow> byte list \<Rightarrow> wr_result \<times> 'io) \<Rightarrow> 'io \<Rightarrow> expansion \<Rightarrow> (int \<times> 'io) res" where
  "io_vfprintf wr fd f =
     (let (r, buf) = c_vsnprintf max_writebuf f in
      bind_res (c_strlen buf 0) (\<lambda>n.
      bind_res (io_writeall wr fd (map the_val (take n buf))) (\<lambda>(ok, io).
      Inr (if ok then r else - 1, io))))"

definition io_fprintf :: "('io \<Rightarrow> byte list \<Rightarrow> wr_result \<times> 'io) \<Rightarrow> 'io \<Rightarrow> expansion \<Rightarrow> (int \<times> 'io) res" where
  "io_fprintf wr fd f = io_vfprintf wr fd f"

text \<open>
  Waiting. A descriptor set holds descriptors from 0 to 1023; \<open>FD_SET\<close> of another one is undefined. The
  environment answers \<open>select\<close> with the number of ready descriptors and the three sets of them, or an
  error (interrupted or not), and \<open>gettimeofday\<close> with the time or a failure. No timeout is \<open>None\<close>.
\<close>

datatype sel_result = Sel nat "int list" "int list" "int list" | Sel_Error bool

record 'e sel_env =
  env_select :: "'e \<Rightarrow> int list \<Rightarrow> int list \<Rightarrow> int list \<Rightarrow> timeval option \<Rightarrow> sel_result \<times> 'e"
  env_now :: "'e \<Rightarrow> timeval option \<times> 'e"

definition fd_set :: "int list \<Rightarrow> int list res" where
  "fd_set fds = (if \<forall>fd \<in> set fds. 0 \<le> fd \<and> fd < 1024 then Inr fds else Inl Out_Of_Bounds)"

definition mark_ready :: "int list \<Rightarrow> int list \<Rightarrow> int list" where
  "mark_ready fds ready = map (\<lambda>fd. if fd \<in> set ready then fd else - 1) fds"

type_synonym fds3 = "int list \<times> int list \<times> int list"

definition select_body ::
  "'e sel_env \<Rightarrow> fds3 \<Rightarrow> int \<Rightarrow> bool \<Rightarrow> bool \<Rightarrow> 'e \<Rightarrow> ('e, int \<times> fds3 \<times> 'e) step res" where
  "select_body env = (\<lambda>(rfd, wfd, efd) tsend poll ignoreintr e.
     bind_res (fd_set rfd) (\<lambda>rfds. bind_res (fd_set wfd) (\<lambda>wfds. bind_res (fd_set efd) (\<lambda>efds.
     if rfd = [] \<and> wfd = [] \<and> efd = [] then Inr (Break (- 1, (rfd, wfd, efd), e))
     else
       bind_res
         (if tsend \<noteq> 0 then
            (let (t, e1) = env_now env e in
             bind_res (tstamp_us t) (\<lambda>now.
             bind_res (int64 (tsend - now)) (\<lambda>trem.
             if trem \<le> 0 then Inr (None, e1)
             else bind_res (tconv \<lparr>tv_sec = 0, tv_usec = 0\<rparr> trem False) (\<lambda>r. Inr (Some (fst r), e1)))))
          else Inr (Some \<lparr>tv_sec = 0, tv_usec = 0\<rparr>, e)) (\<lambda>(tout, e1).
       case tout of
         None \<Rightarrow> Inr (Break (0, (rfd, wfd, efd), e1))
       | Some tv \<Rightarrow>
           (let (r, e2) = env_select env e1 rfds wfds efds (if tsend \<noteq> 0 \<or> poll then Some tv else None) in
            case r of
              Sel_Error intr \<Rightarrow>
                Inr (if intr \<and> ignoreintr then Continue e2 else Break (- 1, (rfd, wfd, efd), e2))
            | Sel n rr wr er \<Rightarrow>
                Inr (if n = 0 then if poll then Break (0, (rfd, wfd, efd), e2) else Continue e2
                     else Break (int n, (mark_ready rfd rr, mark_ready wfd wr, mark_ready efd er), e2))))))))"

text \<open>A negative timeout polls, 0 waits for ever.\<close>

definition io_select ::
  "'e sel_env \<Rightarrow> 'e \<Rightarrow> int list \<Rightarrow> int list \<Rightarrow> int list \<Rightarrow> int \<Rightarrow> bool \<Rightarrow> (int \<times> fds3 \<times> 'e) res" where
  "io_select env e rfd wfd efd to_us0 ignoreintr =
     (let poll = (to_us0 < 0); to_us = (if poll then 0 else to_us0) in
      bind_res
        (if to_us \<noteq> 0 then
           (let (t, e1) = env_now env e in
            bind_res (tstamp_us t) (\<lambda>now. bind_res (int64 (now + to_us)) (\<lambda>tsend. Inr (tsend, e1))))
         else Inr (0, e)) (\<lambda>(tsend, e1).
      c_loop (select_body env (rfd, wfd, efd) tsend poll ignoreintr) e1))"

definition io_select1w :: "'e sel_env \<Rightarrow> 'e \<Rightarrow> int \<Rightarrow> int \<Rightarrow> bool \<Rightarrow> (int \<times> 'e) res" where
  "io_select1w env e fd to_us ignoreintr =
     bind_res (io_select env e [] [fd] [] to_us ignoreintr) (\<lambda>(r, _, e1). Inr (r, e1))"

definition io_select1r :: "'e sel_env \<Rightarrow> 'e \<Rightarrow> int \<Rightarrow> int \<Rightarrow> bool \<Rightarrow> (int \<times> 'e) res" where
  "io_select1r env e fd to_us ignoreintr =
     bind_res (io_select env e [fd] [] [] to_us ignoreintr) (\<lambda>(r, _, e1). Inr (r, e1))"

text \<open>The two flags; a NULL pointer to a flag is not modelled.\<close>

definition io_select2r :: "'e sel_env \<Rightarrow> 'e \<Rightarrow> int \<Rightarrow> int \<Rightarrow> int \<Rightarrow> bool \<Rightarrow> (int \<times> bool \<times> bool \<times> 'e) res" where
  "io_select2r env e fd1 fd2 to_us ignoreintr =
     bind_res (io_select env e [fd1, fd2] [] [] to_us ignoreintr) (\<lambda>(r, (rfd, _, _), e1).
     if 0 < r then Inr (r, rfd ! 0 \<noteq> - 1, rfd ! 1 \<noteq> - 1, e1) else Inr (r, False, False, e1))"

text \<open>bufrd.c: whether a read would not block. An error counts as readable.\<close>

definition bufrd_canread :: "'e sel_env \<Rightarrow> 'e \<Rightarrow> int \<Rightarrow> 'io bufrd \<Rightarrow> (bool \<times> 'e) res" where
  "bufrd_canread env e fd b =
     bind_res (bufrd_buffered b) (\<lambda>some.
     if some then Inr (True, e)
     else bind_res (io_select1r env e fd (- 1) True) (\<lambda>(r, e1). Inr (r \<noteq> 0, e1)))"

section \<open>Writing\<close>

locale byte_sink =
  fixes wr :: "'io \<Rightarrow> byte list \<Rightarrow> wr_result \<times> 'io" and taken :: "'io \<Rightarrow> byte list"
  assumes wr_law: "bs \<noteq> [] \<Longrightarrow> \<exists>n io'. wr io bs = (Wr n, io') \<and> 0 < n \<and> n \<le> length bs \<and> taken io' = taken io @ take n bs"
begin

lemma writeall_ok:
  assumes "length buf < size_max"
  shows "\<exists>io'. io_writeall wr fd buf = Inr (True, io') \<and> taken io' = taken fd @ buf"
proof -
  have "\<exists>r. c_loop (writeall_body wr buf) (0, fd) = Inr r \<and> fst r \<and> taken (snd r) = taken fd @ buf"
  proof (rule c_loop_rule [where I = "\<lambda>(bc, io). bc \<le> length buf \<and> taken io = taken fd @ take bc buf"
        and m = "\<lambda>(bc, io). length buf - bc"])
    fix st :: "nat \<times> 'io"
    assume I: "case st of (bc, io) \<Rightarrow> bc \<le> length buf \<and> taken io = taken fd @ take bc buf"
    obtain bc io where st: "st = (bc, io)" by fastforce
    show "(\<exists>t. writeall_body wr buf st = Inr (Continue t) \<and>
          (case t of (bc, io) \<Rightarrow> bc \<le> length buf \<and> taken io = taken fd @ take bc buf) \<and>
          (case t of (bc, io) \<Rightarrow> length buf - bc) < (case st of (bc, io) \<Rightarrow> length buf - bc)) \<or>
        (\<exists>r. writeall_body wr buf st = Inr (Break r) \<and> fst r \<and> taken (snd r) = taken fd @ buf)"
    proof (cases "bc < length buf")
      case True
      then have "drop bc buf \<noteq> []" by simp
      from wr_law [OF this, of io] obtain n io' where n: "wr io (drop bc buf) = (Wr n, io')" "0 < n" "n \<le> length buf - bc"
        "taken io' = taken io @ take n (drop bc buf)" by auto
      then have "sz_add bc n = bc + n" using assms True by (simp add: sz_simps)
      moreover have "take (bc + n) buf = take bc buf @ take n (drop bc buf)" by (rule take_add)
      ultimately show ?thesis using n I True st by (auto simp: writeall_body_def)
    next
      case False
      with I st show ?thesis by (auto simp: writeall_body_def)
    qed
  qed simp
  then show ?thesis by (auto simp: io_writeall_def)
qed

end

text \<open>A file that takes at most a block at a time, in the way pipes and sockets do.\<close>

definition block_write :: "nat \<Rightarrow> byte list \<Rightarrow> byte list \<Rightarrow> wr_result \<times> byte list" where
  "block_write k io bs = (let n = min (Suc k) (length bs) in (Wr n, io @ take n bs))"

interpretation block: byte_sink "block_write k" "\<lambda>io. io"
  by unfold_locales (auto simp: block_write_def Let_def)

text \<open>The string in the array after \<open>vsnprintf\<close>.\<close>

lemma printed_string:
  assumes "length txt < 2 ^ 31" and "0 < sz"
  defines "u \<equiv> takeWhile (\<lambda>c. c \<noteq> 0) (take (sz - 1) txt)"
  shows "\<exists>buf. c_vsnprintf sz (Expands txt) = (int (length txt), buf) \<and> c_strlen buf 0 = Inr (length u) \<and>
    map the_val (take (length u) buf) = u"
proof -
  let ?x = "take (sz - 1) txt" and ?rest = "tl (dropWhile (\<lambda>c. c \<noteq> 0) (take (sz - 1) txt @ [0]))"
  let ?buf = "fill (replicate sz Undef) 0 (?x @ [0])"
  have "dropWhile (\<lambda>c. c \<noteq> 0) (?x @ [0]) = 0 # ?rest"
  proof -
    have "dropWhile (\<lambda>c. c \<noteq> 0) (?x @ [0]) \<noteq> []" unfolding dropWhile_eq_Nil_conv by simp
    moreover from this have "hd (dropWhile (\<lambda>c. c \<noteq> 0) (?x @ [0])) = 0" by (rule hd_dropWhile [THEN notnotD])
    ultimately show ?thesis by (metis list.collapse)
  qed
  moreover have "takeWhile (\<lambda>c. c \<noteq> 0) (?x @ [0]) = u" by (simp add: u_def takeWhile_tail)
  ultimately have "?x @ [0] = u @ 0 # ?rest" by (metis takeWhile_dropWhile_id)
  then have "map Val (?x @ [0]) = map Val (u @ 0 # ?rest)" by (rule arg_cong)
  then have buf: "?buf = map Val (u @ [0]) @ map Val ?rest @ drop (length (?x @ [0])) (replicate sz Undef)"
    unfolding fill_def by (simp only: take_0 append_Nil add_0) simp
  have "0 \<notin> set u" unfolding u_def by (auto dest: set_takeWhileD)
  then have "cstr_at ?buf 0 u" using cstr_at_map [of u "[]"] unfolding buf by simp
  moreover have "map the_val (take (length u) ?buf) = u" unfolding buf by (simp add: comp_def)
  ultimately show ?thesis using assms(1) by (auto simp: c_vsnprintf_def c_strlen_ok)
qed

section \<open>Reading a line\<close>

text \<open>The first line of the stream, its terminator included.\<close>

fun raw_line :: "byte list \<Rightarrow> byte list" where
  "raw_line [] = []"
| "raw_line (c # s) = (if is_lineterm c then [c] else c # raw_line s)"

definition drop_nul :: "byte list \<Rightarrow> byte list" where
  "drop_nul l = (if l \<noteq> [] \<and> last l = 0 then butlast l else l)"

lemma raw_line_Nil [simp]: "raw_line s = [] \<longleftrightarrow> s = []"
  by (cases s) auto

lemma length_raw_line: "length (raw_line s) \<le> length s"
  by (induction s) auto

context byte_source begin

lemma readline_loop:
  "i + length (pending io) < size_max \<Longrightarrow> sz \<le> length dest \<Longrightarrow> (pending io = [] \<Longrightarrow> c \<noteq> 0 \<or> i = 0) \<Longrightarrow>
   \<exists>io' d0. c_loop (readline_body rd sz) (io, dest, i, c) =
     Inr (Some (if i < sz then fill dest i (take (sz - i) (raw_line (pending io))) else dest,
       i + length (raw_line (pending io)), if pending io = [] then c else last (raw_line (pending io))), d0, io') \<and>
     pending io' = drop (length (raw_line (pending io))) (pending io)"
proof (induction "pending io" arbitrary: io dest i c)
  case Nil
  obtain bs io' where "rd io 1 = (Rd bs, io')" "pending io = bs @ pending io'" using rd_law [of 1 io] by auto
  with Nil.hyps have "readline_body rd sz (io, dest, i, c) = Inr (Break (Some (dest, i, c), dest, io'))" "pending io' = []"
    by (auto simp: readline_body_def)
  with Nil.hyps show ?case
    using c_loop_Break [of "readline_body rd sz" "(io, dest, i, c)" "(Some (dest, i, c), dest, io')"] by auto
next
  case (Cons x s)
  note st = Cons.hyps(2) [symmetric]
  obtain bs io' where rd: "rd io 1 = (Rd bs, io')" "length bs \<le> 1" "pending io = bs @ pending io'" "bs = [] \<longrightarrow> pending io = []"
    using rd_law [of 1 io] by auto
  then have bs: "bs = [x]" "pending io' = s" using st by (cases bs; auto)+
  define d where "d = (if i < sz then fill dest i [x] else dest)"
  have ld: "length d = length dest" using Cons.prems(2) by (simp add: d_def length_fill)
  have store: "(if i < sz then arr_set dest i x else Inr dest) = Inr d"
    using Cons.prems(2) by (simp add: d_def arr_set_fill)
  have body: "readline_body rd sz (io, dest, i, c) =
      Inr (if is_lineterm x then Break (Some (d, i + 1, x), d, io') else Continue (io', d, i + 1, x))"
    using rd(1) bs store by (simp add: readline_body_def cong del: bind_res_weak_cong)
  show ?case
  proof (cases "is_lineterm x")
    case True
    with body have "c_loop (readline_body rd sz) (io, dest, i, c) = Inr (Some (d, i + 1, x), d, io')"
      by (simp add: c_loop_Break)
    with True bs(2) show ?thesis by (simp add: st d_def take_Cons')
  next
    case False
    then have x: "x \<noteq> 0" by (auto simp: is_lineterm_def)
    from False body have go: "c_loop (readline_body rd sz) (io, dest, i, c) = c_loop (readline_body rd sz) (io', d, i + 1, x)"
      by (simp add: c_loop_Continue)
    from Cons.hyps(1) [OF bs(2) [symmetric], of "i + 1" d x] Cons.prems(1,2) ld bs(2) x obtain io'' d0 where
      IH: "c_loop (readline_body rd sz) (io', d, i + 1, x) =
        Inr (Some (if i + 1 < sz then fill d (i + 1) (take (sz - (i + 1)) (raw_line s)) else d,
          i + 1 + length (raw_line s), if s = [] then x else last (raw_line s)), d0, io'')"
        "pending io'' = drop (length (raw_line s)) s" by (auto simp: st)
    have "(if i + 1 < sz then fill d (i + 1) (take (sz - (i + 1)) (raw_line s)) else d) =
        (if i < sz then fill dest i (take (sz - i) (x # raw_line s)) else dest)"
      using fill_fill [of i "[x]" "take (sz - (i + 1)) (raw_line s)" dest] Cons.prems(2)
      by (auto simp: d_def take_Cons' )
    with go IH False show ?thesis by (auto simp: st)
  qed
qed

end

lemma raw_line_cases: "raw_line s = drop_nul (raw_line s) \<or> raw_line s = drop_nul (raw_line s) @ [0]"
proof (cases "raw_line s \<noteq> [] \<and> last (raw_line s) = 0")
  case True
  then have "raw_line s = butlast (raw_line s) @ [0]" using append_butlast_last_id [of "raw_line s"] by simp
  with True show ?thesis by (simp add: drop_nul_def)
next
  case False
  then show ?thesis by (auto simp: drop_nul_def)
qed

lemma close_line:
  assumes l: "l = t \<or> l = t @ [0]" and sz: "0 < sz" "sz \<le> length dest"
  shows "arr_set (fill dest 0 (take sz l)) (min (sz - 1) (length t)) 0 = Inr (fill dest 0 (take (sz - 1) t @ [0]))"
proof (cases "sz \<le> length t")
  case True
  then obtain x where x: "take sz l = take (sz - 1) t @ [x]"
    using l sz(1) take_Suc_conv_app_nth [of "sz - 1" t] by auto
  have "length (take (sz - 1) t) = sz - 1" "min (sz - 1) (length t) = sz - 1" using True by auto
  moreover from this have "(fill dest 0 (take (sz - 1) t @ [x]))[sz - 1 := Val 0] = fill dest 0 (take (sz - 1) t @ [0])"
    using sz by (simp add: fill_def list_update_append)
  ultimately show ?thesis using sz x by (simp add: arr_set_def length_fill)
next
  case False
  then have k: "min (sz - 1) (length t) = length t" "take (sz - 1) t = t" by auto
  from l show ?thesis
  proof
    assume "l = t"
    then have "take sz l = t" using False by simp
    then show ?thesis using k fill_fill [of 0 t "[0]" dest] False sz by (simp add: arr_set_fill length_fill)
  next
    assume "l = t @ [0]"
    then have "take sz l = t @ [0]" using False by (simp add: take_Cons')
    moreover have "(fill dest 0 (t @ [0]))[length t := Val 0] = fill dest 0 (t @ [0])"
      by (simp add: fill_def list_update_append)
    ultimately show ?thesis using k False sz by (simp add: arr_set_def length_fill)
  qed
qed

context byte_source begin

lemma read_line_ok:
  assumes sz: "0 < sz" "sz \<le> length dest" "sz < size_max" and len: "length (pending fd) < 2 ^ 31"
  defines "t \<equiv> drop_nul (raw_line (pending fd))"
  shows "\<exists>io'. io_read_line rd fd dest sz =
      Inr (if pending fd = [] then (- 1, dest[sz - 1 := Val 0], io')
           else (int (length t), fill dest 0 (take (sz - 1) t @ [0]), io')) \<and>
    pending io' = drop (length (raw_line (pending fd))) (pending fd)"
proof -
  let ?l = "raw_line (pending fd)"
  obtain io' d0 where loop: "c_loop (readline_body rd sz) (fd, dest, 0, 0) =
      Inr (Some (fill dest 0 (take sz ?l), length ?l, if pending fd = [] then 0 else last ?l), d0, io')"
    "pending io' = drop (length ?l) (pending fd)"
    using readline_loop [of 0 fd sz dest 0] sz len by (auto simp: size_max_def)
  show ?thesis
  proof (cases "pending fd = []")
    case True
    have "sz_sub 0 1 = size_max - 1" by (simp add: sz_sub_def size_max_def)
    moreover have "sz_sub sz 1 = sz - 1" using sz by (simp add: sz_simps)
    moreover have "signed_take_bit 31 (int (size_max - 1)) = - 1"
      by (simp add: size_max_def signed_take_bit_eq_take_bit_minus)
    moreover have "sz - 1 < length dest" "sz \<le> size_max - 1" using sz by linarith+
    ultimately show ?thesis using loop True by (simp add: io_read_line_def Let_def arr_set_def)
  next
    case False
    have t: "?l = t \<or> ?l = t @ [0]" using raw_line_cases unfolding t_def .
    have "length ?l < 2 ^ 31" using length_raw_line [of "pending fd"] len by simp
    then have lt: "length t < 2 ^ 31" "length ?l < size_max" using t by (auto simp: size_max_def)
    have bc: "(if (if pending fd = [] then 0 else last ?l) = 0 then sz_sub (length ?l) 1 else length ?l) = length t"
    proof (cases "last ?l = 0")
      case True
      then have "length t = length ?l - 1" "0 < length ?l" using False by (simp_all add: t_def drop_nul_def)
      moreover from this(2) have "sz_sub (length ?l) 1 = length ?l - 1" using lt(2) by (intro sz_sub_small) linarith+
      ultimately show ?thesis using True False by simp
    next
      case False
      then show ?thesis using \<open>pending fd \<noteq> []\<close> by (simp add: t_def drop_nul_def)
    qed
    have idx: "(if sz \<le> length t then sz_sub sz 1 else length t) = min (sz - 1) (length t)" using sz by (auto simp: sz_simps)
    have "signed_take_bit 31 (int (length t)) = int (length t)"
      using lt(1) by (simp add: signed_take_bit_int_eq_self)
    then have "io_read_line rd fd dest sz = Inr (int (length t), fill dest 0 (take (sz - 1) t @ [0]), io')"
      by (simp only: io_read_line_def loop(1) bind_res_Inr prod.case option.case Let_def bc idx close_line [OF t sz(1,2)])
    with False loop(2) show ?thesis by auto
  qed
qed

end

section \<open>Waiting\<close>

text \<open>The first \<open>k\<close> answers of \<open>select\<close> to the same question.\<close>

fun sel_run :: "'e sel_env \<Rightarrow> fds3 \<Rightarrow> timeval option \<Rightarrow> nat \<Rightarrow> 'e \<Rightarrow> sel_result list \<times> 'e" where
  "sel_run env f tv 0 e = ([], e)"
| "sel_run env f tv (Suc k) e =
     (let (r, e1) = env_select env e (fst f) (fst (snd f)) (snd (snd f)) tv; (rs, e2) = sel_run env f tv k e1 in (r # rs, e2))"

definition valid_fds :: "fds3 \<Rightarrow> bool" where
  "valid_fds f \<longleftrightarrow> (\<forall>fd \<in> set (fst f) \<union> set (fst (snd f)) \<union> set (snd (snd f)). 0 \<le> fd \<and> fd < 1024) \<and> f \<noteq> ([], [], [])"

text \<open>Answers after which \<open>io_select\<close> asks again, when it polls or waits without a timeout.\<close>

fun asks_again :: "bool \<Rightarrow> bool \<Rightarrow> sel_result \<Rightarrow> bool" where
  "asks_again poll ignoreintr (Sel n rr wr er) \<longleftrightarrow> n = 0 \<and> \<not> poll"
| "asks_again poll ignoreintr (Sel_Error intr) \<longleftrightarrow> intr \<and> ignoreintr"

text \<open>
  What it makes of any other answer: the number of ready descriptors, with those that are not ready
  marked in the arrays; 0 with the arrays as they were if there is none; -1 for an error.
\<close>

fun sel_answer :: "fds3 \<Rightarrow> sel_result \<Rightarrow> int \<times> fds3" where
  "sel_answer (rfd, wfd, efd) (Sel n rr wr er) =
     (if n = 0 then (0, (rfd, wfd, efd)) else (int n, (mark_ready rfd rr, mark_ready wfd wr, mark_ready efd er)))"
| "sel_answer f (Sel_Error intr) = (- 1, f)"

definition zero_tv :: timeval where
  "zero_tv = \<lparr>tv_sec = 0, tv_usec = 0\<rparr>"

lemma select_body_untimed:
  assumes "valid_fds (rfd, wfd, efd)"
  shows "select_body env (rfd, wfd, efd) 0 poll ig e =
    (let (r, e2) = env_select env e rfd wfd efd (if poll then Some zero_tv else None) in
     case r of
       Sel_Error intr \<Rightarrow> Inr (if intr \<and> ig then Continue e2 else Break (- 1, (rfd, wfd, efd), e2))
     | Sel n rr wr er \<Rightarrow>
         Inr (if n = 0 then if poll then Break (0, (rfd, wfd, efd), e2) else Continue e2
              else Break (int n, (mark_ready rfd rr, mark_ready wfd wr, mark_ready efd er), e2)))"
proof -
  have "fd_set rfd = Inr rfd" "fd_set wfd = Inr wfd" "fd_set efd = Inr efd" "\<not> (rfd = [] \<and> wfd = [] \<and> efd = [])"
    using assms by (auto simp: valid_fds_def fd_set_def)
  note fds = this
  have "(rfd = [] \<and> wfd = [] \<and> efd = []) = False" using fds(4) by blast
  then show ?thesis
    by (simp only: select_body_def prod.case fds(1-3) bind_res_Inr if_False) (simp add: zero_tv_def)
qed

lemma select_body_asks:
  assumes f: "valid_fds (rfd, wfd, efd)"
    and r: "env_select env e rfd wfd efd (if poll then Some zero_tv else None) = (r, e2)"
  shows "select_body env (rfd, wfd, efd) 0 poll ig e =
    Inr (if asks_again poll ig r then Continue e2
         else Break (fst (sel_answer (rfd, wfd, efd) r), snd (sel_answer (rfd, wfd, efd) r), e2))"
  unfolding select_body_untimed [OF f] r by (cases r) simp_all

lemma select_skips:
  assumes f: "valid_fds (rfd, wfd, efd)" and tv: "tv = (if poll then Some zero_tv else None)"
  shows "sel_run env (rfd, wfd, efd) tv k e = (rs, e1) \<Longrightarrow> \<forall>r \<in> set rs. asks_again poll ig r \<Longrightarrow>
    c_loop (select_body env (rfd, wfd, efd) 0 poll ig) e = c_loop (select_body env (rfd, wfd, efd) 0 poll ig) e1"
proof (induction k arbitrary: e rs)
  case (Suc k)
  obtain r e2 where r: "env_select env e rfd wfd efd tv = (r, e2)" by fastforce
  obtain rs' where rs: "rs = r # rs'" "sel_run env (rfd, wfd, efd) tv k e2 = (rs', e1)"
    using Suc.prems(1) r by (auto split: prod.splits)
  have "select_body env (rfd, wfd, efd) 0 poll ig e = Inr (Continue e2)"
    using Suc.prems(2) rs(1) select_body_asks [OF f r [unfolded tv]] by simp
  then have "c_loop (select_body env (rfd, wfd, efd) 0 poll ig) e = c_loop (select_body env (rfd, wfd, efd) 0 poll ig) e2"
    by (rule c_loop_Continue)
  with Suc.IH [OF rs(2)] Suc.prems(2) rs(1) show ?case by simp
qed simp

text \<open>
  An environment in which nothing becomes ready: \<open>select\<close> returns 0 after some time, and the clock, in
  microseconds, goes on up to some limit.
\<close>

definition tv_of :: "int \<Rightarrow> timeval" where
  "tv_of us = \<lparr>tv_sec = us div 1000000, tv_usec = us mod 1000000\<rparr>"

locale idle_env =
  fixes env :: "'e sel_env" and clock :: "'e \<Rightarrow> int" and horizon :: int
  assumes horizon: "horizon \<le> 2 ^ 62"
    and clock_range: "0 \<le> clock e \<and> clock e \<le> horizon"
    and now_law: "\<exists>e1. env_now env e = (Some (tv_of (clock e)), e1) \<and> clock e \<le> clock e1"
    and select_law: "\<exists>e1. env_select env e r w x (Some tv) = (Sel 0 [] [] [], e1) \<and> (clock e < horizon \<longrightarrow> clock e < clock e1) \<and> clock e \<le> clock e1"
begin

lemma stamp: "tstamp_us (Some (tv_of (clock e))) = Inr (clock e)"
proof -
  have "clock e div 1000000 * 1000000 + clock e mod 1000000 = clock e" by simp
  moreover have "in_int64 (clock e)" "in_int64 (clock e div 1000000 * 1000000)"
    using clock_range [of e] horizon by (auto simp: in_int64_def)
  ultimately show ?thesis by (simp add: tstamp_us_def tconv_def tv_of_def int64_def)
qed

lemma deadline_loop:
  assumes f: "valid_fds (rfd, wfd, efd)" and d: "0 < tsend" "tsend \<le> horizon"
  shows "\<exists>e'. c_loop (select_body env (rfd, wfd, efd) tsend False ig) e = Inr (0, (rfd, wfd, efd), e') \<and> tsend \<le> clock e'"
proof -
  have fds: "fd_set rfd = Inr rfd" "fd_set wfd = Inr wfd" "fd_set efd = Inr efd"
    and ne: "(rfd = [] \<and> wfd = [] \<and> efd = []) = False"
    using f by (auto simp: valid_fds_def fd_set_def)
  have "\<exists>r. c_loop (select_body env (rfd, wfd, efd) tsend False ig) e = Inr r \<and>
      (\<exists>e'. r = (0, (rfd, wfd, efd), e') \<and> tsend \<le> clock e')"
  proof (rule c_loop_rule [where I = "\<lambda>_. True" and m = "\<lambda>e. nat (horizon - clock e)"])
    fix e
    obtain e1 where now: "env_now env e = (Some (tv_of (clock e)), e1)" "clock e \<le> clock e1" using now_law by blast
    have trem: "int64 (tsend - clock e) = Inr (tsend - clock e)"
      using d clock_range [of e] horizon by (simp add: int64_def in_int64_def)
    obtain e2 where sel: "env_select env e1 rfd wfd efd (Some (fst (\<lparr>tv_sec = (tsend - clock e) sdiv 1000000, tv_usec = (tsend - clock e) smod 1000000\<rparr>, tsend - clock e))) = (Sel 0 [] [] [], e2)"
      "clock e1 < horizon \<longrightarrow> clock e1 < clock e2" "clock e1 \<le> clock e2" using select_law by blast
    show "(\<exists>t. select_body env (rfd, wfd, efd) tsend False ig e = Inr (Continue t) \<and> True \<and>
          nat (horizon - clock t) < nat (horizon - clock e)) \<or>
        (\<exists>r. select_body env (rfd, wfd, efd) tsend False ig e = Inr (Break r) \<and>
          (\<exists>e'. r = (0, (rfd, wfd, efd), e') \<and> tsend \<le> clock e'))"
    proof (cases "tsend - clock e \<le> 0")
      case True
      then have "select_body env (rfd, wfd, efd) tsend False ig e = Inr (Break (0, (rfd, wfd, efd), e1))"
        using now stamp trem d(1)
        by (simp only: select_body_def prod.case fds bind_res_Inr ne if_False) (simp cong del: bind_res_weak_cong)
      with True now(2) show ?thesis by auto
    next
      case False
      then have "select_body env (rfd, wfd, efd) tsend False ig e = Inr (Continue e2)"
        using now stamp trem d(1) sel(1)
        by (simp only: select_body_def prod.case fds bind_res_Inr ne if_False) (simp add: tconv_def cong del: bind_res_weak_cong)
      moreover have "clock e < clock e2" "clock e < horizon" using False d(2) now(2) sel(2,3) by (cases "clock e1 < horizon"; simp)+
      ultimately show ?thesis by auto
    qed
  qed simp
  then show ?thesis by blast
qed

end

text \<open>A clock that stands still at the horizon, and a \<open>select\<close> that takes a millisecond.\<close>

definition idle_clock :: "nat sel_env" where
  "idle_clock = \<lparr>env_select = (\<lambda>e r w x tv. (Sel 0 [] [] [], e + 1000)),
     env_now = (\<lambda>e. (Some (tv_of (min (int e) (2 ^ 62))), e))\<rparr>"

interpretation idle: idle_env idle_clock "\<lambda>e. min (int e) (2 ^ 62)" "2 ^ 62"
  by unfold_locales (auto simp: idle_clock_def)

section \<open>Properties\<close>

text \<open>
  C24: \<open>io_writeall\<close> returns for every descriptor that takes some bytes at each call, in whatever portions,
  and has then written all bytes in order. \<open>io_vfprintf\<close>, for a text whose length is an \<open>int\<close>, writes at most
  the first 4095 bytes (and nothing from a NUL on), but returns the length of all of it; when the text
  is longer, or cannot be formatted, it reads an array nobody has written.
\<close>

theorem io_writeall_complete:
  assumes "byte_sink wr taken" and "length buf < size_max"
  shows "(\<exists>io'. io_writeall wr fd buf = Inr (True, io') \<and> taken io' = taken fd @ buf) \<and>
    (length txt < 2 ^ 31 \<longrightarrow> (\<exists>io'. io_vfprintf wr fd (Expands txt) = Inr (int (length txt), io') \<and>
       taken io' = taken fd @ takeWhile (\<lambda>c. c \<noteq> 0) (take 4095 txt))) \<and>
    (2 ^ 31 \<le> length txt \<longrightarrow> io_vfprintf wr fd (Expands txt) = Inl Indeterminate) \<and>
    io_vfprintf wr fd Format_Error = Inl Indeterminate"
proof (intro conjI impI)
  show "\<exists>io'. io_writeall wr fd buf = Inr (True, io') \<and> taken io' = taken fd @ buf"
    by (rule byte_sink.writeall_ok [OF assms])
  have unwritten: "c_strlen (replicate max_writebuf Undef) 0 = Inl Indeterminate"
    unfolding c_strlen_def by (rule c_loop_fault) (simp add: strlen_body_def arr_get_def max_writebuf_def)
  then show "io_vfprintf wr fd Format_Error = Inl Indeterminate" by (simp add: io_vfprintf_def c_vsnprintf_def)
  show "io_vfprintf wr fd (Expands txt) = Inl Indeterminate" if "2 ^ 31 \<le> length txt"
    using that unwritten by (simp add: io_vfprintf_def c_vsnprintf_def)
  show "\<exists>io'. io_vfprintf wr fd (Expands txt) = Inr (int (length txt), io') \<and>
      taken io' = taken fd @ takeWhile (\<lambda>c. c \<noteq> 0) (take 4095 txt)" if t: "length txt < 2 ^ 31"
  proof -
    let ?u = "takeWhile (\<lambda>c. c \<noteq> 0) (take 4095 txt)"
    have mw: "max_writebuf - 1 = 4095" "0 < max_writebuf" by (simp_all add: max_writebuf_def)
    from printed_string [OF t mw(2)] obtain buf where b: "c_vsnprintf max_writebuf (Expands txt) = (int (length txt), buf)"
      "c_strlen buf 0 = Inr (length ?u)" "map the_val (take (length ?u) buf) = ?u" unfolding mw(1) by blast
    have "length ?u < size_max"
      using length_takeWhile_le [of "\<lambda>c. c \<noteq> 0" "take 4095 txt"] by (simp add: size_max_def)
    from byte_sink.writeall_ok [OF assms(1) this, of fd] obtain io' where
      "io_writeall wr fd ?u = Inr (True, io')" "taken io' = taken fd @ ?u" by blast
    then show ?thesis unfolding io_vfprintf_def b(1) Let_def prod.case b(2) bind_res_Inr b(3) by simp
  qed
qed

theorem io_writeall_complete_witness:
  "(\<exists>io'. io_writeall (block_write 1) [1] [2, 3, 4, 5, 6] = Inr (True, io') \<and> io' = [1, 2, 3, 4, 5, 6]) \<and>
   (\<exists>io'. io_vfprintf (block_write 1) [1] (Expands [7, 8, 0, 9]) = Inr (4, io') \<and> io' = [1, 7, 8])"
  using io_writeall_complete [OF block.byte_sink_axioms, of "[2, 3, 4, 5, 6]" 1 "[1]" "[7, 8, 0, 9]"] by (auto simp: size_max_def)

text \<open>
  C25: \<open>io_read_line\<close> consumes one line, ended by a newline, a carriage return or a NUL, from a descriptor that
  does not fail. It stores the line without a NUL that ended it, cut to the size of the array and ended
  by a NUL, and returns its full length. At the end of the file it returns -1, the result for an error.
\<close>

theorem io_read_line_line:
  assumes "byte_source rd pending" and "0 < sz" and "sz \<le> length dest" and "sz < size_max"
    and "length (pending fd) < 2 ^ 31" and "t = drop_nul (raw_line (pending fd))"
  shows "\<exists>io'. io_read_line rd fd dest sz =
      Inr (if pending fd = [] then (- 1, dest[sz - 1 := Val 0], io')
           else (int (length t), fill dest 0 (take (sz - 1) t @ [0]), io')) \<and>
    pending io' = drop (length (raw_line (pending fd))) (pending fd)"
  unfolding assms(6) by (rule byte_source.read_line_ok [OF assms(1-5)])

theorem io_read_line_line_witness:
  "\<exists>io'. io_read_line file_read [104, 105, 0, 120] [Undef, Undef] 2 = Inr (2, [Val 104, Val 0], io') \<and> io' = [120]"
proof -
  have "raw_line [104, 105, 0, 120 :: byte] = [104, 105, 0]" "drop_nul [104, 105, 0 :: byte] = [104, 105]"
    by (simp_all add: is_lineterm_def drop_nul_def)
  then show ?thesis
    using io_read_line_line [OF regular.byte_source_axioms, of 2 "[Undef, Undef]" "[104, 105, 0, 120]" "[104, 105]"]
    by (simp add: size_max_def fill_def)
qed

text \<open>
  C26: without a timeout \<open>io_select\<close> asks again as long as nothing is ready, or the call is interrupted and
  it was told to ignore that; when polling it asks again only in the latter case. With the first other
  answer, whatever it is, it returns: when descriptors are ready their number, with those that are
  ready left in place in the arrays and -1 for the others; when polling and nothing is ready 0, and for an error -1,
  both with the arrays as they were.
\<close>

theorem io_select_answer:
  assumes "valid_fds (rfd, wfd, efd)" and "to_us \<le> 0" and "tv = (if to_us < 0 then Some zero_tv else None)"
    and "sel_run env (rfd, wfd, efd) tv k e = (rs, e1)" and "\<forall>r \<in> set rs. asks_again (to_us < 0) ig r"
    and "env_select env e1 rfd wfd efd tv = (a, e2)" and "\<not> asks_again (to_us < 0) ig a"
    and "sel_answer (rfd, wfd, efd) a = (res, fds')"
  shows "io_select env e rfd wfd efd to_us ig = Inr (res, fds', e2)"
proof -
  have "select_body env (rfd, wfd, efd) 0 (to_us < 0) ig e1 = Inr (Break (res, fds', e2))"
    using select_body_asks [OF assms(1) assms(6) [unfolded assms(3)], of ig] assms(7,8) by simp
  then have "c_loop (select_body env (rfd, wfd, efd) 0 (to_us < 0) ig) e1 = Inr (res, fds', e2)" by (rule c_loop_Break)
  moreover have z: "(if to_us < 0 then 0 else to_us) = 0" using assms(2) by simp
  ultimately show ?thesis
    using select_skips [OF assms(1,3,4,5)] z unfolding io_select_def Let_def by simp
qed

text \<open>An environment that answers from a list.\<close>

definition script_env :: "sel_result list sel_env" where
  "script_env = \<lparr>env_select = (\<lambda>e r w x tv. case e of [] \<Rightarrow> (Sel_Error False, []) | a # e' \<Rightarrow> (a, e')),
     env_now = (\<lambda>e. (None, e))\<rparr>"

theorem io_select_answer_witness:
  "io_select script_env [Sel 0 [] [] [], Sel_Error True, Sel 1 [7] [] []] [5, 7] [] [] 0 True = Inr (1, ([- 1, 7], [], []), []) \<and>
   io_select script_env [Sel_Error True, Sel 1 [5] [] []] [5, 7] [] [] (- 1) True = Inr (1, ([5, - 1], [], []), []) \<and>
   io_select script_env [Sel 0 [] [] []] [5, 7] [] [] (- 1) True = Inr (0, ([5, 7], [], []), [])"
proof (intro conjI)
  have f: "valid_fds ([5, 7], [], [])" by (simp add: valid_fds_def)
  have "sel_run script_env ([5, 7], [], []) None 2 [Sel 0 [] [] [], Sel_Error True, Sel 1 [7] [] []] =
      ([Sel 0 [] [] [], Sel_Error True], [Sel 1 [7] [] []])"
    by (simp add: script_env_def eval_nat_numeral)
  from io_select_answer [OF f _ _ this, of 0 True] show "io_select script_env [Sel 0 [] [] [], Sel_Error True, Sel 1 [7] [] []] [5, 7] [] [] 0 True =
      Inr (1, ([- 1, 7], [], []), [])" by (simp add: script_env_def mark_ready_def)
  have "sel_run script_env ([5, 7], [], []) (Some zero_tv) 1 [Sel_Error True, Sel 1 [5] [] []] = ([Sel_Error True], [Sel 1 [5] [] []])"
    by (simp add: script_env_def)
  from io_select_answer [OF f _ _ this, of "- 1" True] show "io_select script_env [Sel_Error True, Sel 1 [5] [] []] [5, 7] [] [] (- 1) True =
      Inr (1, ([5, - 1], [], []), [])" by (simp add: script_env_def mark_ready_def)
  have "sel_run script_env ([5, 7], [], []) (Some zero_tv) 0 [Sel 0 [] [] []] = ([], [Sel 0 [] [] []])" by simp
  from io_select_answer [OF f _ _ this, of "- 1" True] show "io_select script_env [Sel 0 [] [] []] [5, 7] [] [] (- 1) True =
      Inr (0, ([5, 7], [], []), [])" by (simp add: script_env_def)
qed

text \<open>
  C27: with a positive timeout, and nothing ever becoming ready, \<open>io_select\<close> returns 0 with the arrays as
  they were, once the clock has reached the deadline and not before, however early \<open>select\<close> returns.
\<close>

theorem io_select_deadline:
  assumes "idle_env env clock horizon" and "valid_fds (rfd, wfd, efd)" and "0 < to_us" and "clock e + to_us \<le> horizon"
  shows "\<exists>e'. io_select env e rfd wfd efd to_us ig = Inr (0, (rfd, wfd, efd), e') \<and> clock e + to_us \<le> clock e'"
proof -
  obtain e1 where now: "env_now env e = (Some (tv_of (clock e)), e1)" using idle_env.now_law [OF assms(1)] by blast
  have c: "0 \<le> clock e" "horizon \<le> 2 ^ 62" using assms(1) by (auto simp: idle_env_def)
  then have "int64 (clock e + to_us) = Inr (clock e + to_us)" using assms(3,4) by (simp add: int64_def in_int64_def)
  moreover obtain e' where "c_loop (select_body env (rfd, wfd, efd) (clock e + to_us) False ig) e1 = Inr (0, (rfd, wfd, efd), e')"
    "clock e + to_us \<le> clock e'"
    using idle_env.deadline_loop [OF assms(1,2), of "clock e + to_us"] assms(3,4) c(1) by auto
  ultimately show ?thesis using now assms(3) idle_env.stamp [OF assms(1), of e]
    by (simp add: io_select_def)
qed

theorem io_select_deadline_witness:
  "\<exists>e'. io_select idle_clock 0 [3] [] [] 5500 False = Inr (0, ([3], [], []), e') \<and> 5500 \<le> e'"
  using io_select_deadline [OF idle.idle_env_axioms, of "[3]" "[]" "[]" 5500 0 False] by (auto simp: valid_fds_def)

end
