(* ===== verification/HostSpec.thy ===== *)
theory HostSpec imports Misc begin

text \<open>
  The parts of addr.c that work on text: splitting \<open>host:service\<close> and building a socket address out of
  one. \<open>inet_pton\<close> is a parameter for each family, as its result and the address it stores. The functions
  of the C library on strings, \<open>strchr\<close>, \<open>strtoul\<close> and printing a number, are modelled as the C standard
  has them, with an \<open>unsigned long\<close> of 64 bits.
\<close>

section \<open>The C library\<close>

definition strchr_body :: "chars \<Rightarrow> byte \<Rightarrow> nat \<Rightarrow> (nat, nat option) step res" where
  "strchr_body a c p =
     bind_res (arr_get a p) (\<lambda>x. Inr (if x = c then Break (Some p) else if x = 0 then Break None else Continue (p + 1)))"

definition c_strchr :: "chars \<Rightarrow> nat \<Rightarrow> byte \<Rightarrow> nat option res" where
  "c_strchr a p c = c_loop (strchr_body a c) p"

text \<open>The string at the start of an array.\<close>

fun read_cstr :: "chars \<Rightarrow> byte list res" where
  "read_cstr [] = Inl Out_Of_Bounds"
| "read_cstr (Undef # a) = Inl Indeterminate"
| "read_cstr (Val c # a) = (if c = 0 then Inr [] else bind_res (read_cstr a) (\<lambda>s. Inr (c # s)))"

definition is_digit :: "byte \<Rightarrow> bool" where
  "is_digit c \<longleftrightarrow> 48 \<le> unat c \<and> unat c \<le> 57"

fun digits_val :: "nat \<Rightarrow> byte list \<Rightarrow> nat" where
  "digits_val acc [] = acc"
| "digits_val acc (c # s) = (if is_digit c then digits_val (acc * 10 + (unat c - 48)) s else acc)"

definition strtoul_val :: "byte list \<Rightarrow> nat" where
  "strtoul_val s =
     (let t = dropWhile (\<lambda>c. c = 32 \<or> 9 \<le> c \<and> c \<le> 13) s;
          neg = (t \<noteq> [] \<and> hd t = 45);
          v = digits_val 0 (if t \<noteq> [] \<and> (hd t = 45 \<or> hd t = 43) then tl t else t) in
      if 2 ^ 64 \<le> v then 2 ^ 64 - 1 else if neg then (2 ^ 64 - v) mod 2 ^ 64 else v)"

definition c_strtoul :: "chars \<Rightarrow> nat res" where
  "c_strtoul a = bind_res (read_cstr a) (\<lambda>s. Inr (strtoul_val s))"

fun dec :: "nat \<Rightarrow> byte list" where
  "dec n = (if n < 10 then [of_nat (48 + n)] else dec (n div 10) @ [of_nat (48 + n mod 10)])"

declare dec.simps [simp del]

section \<open>The code\<close>

text \<open>
  The array for the service may be NULL. The position left of the bracketed host is where the search for
  the colon starts.
\<close>

definition addr_parse_hostspec :: "chars \<Rightarrow> nat \<Rightarrow> chars option \<Rightarrow> nat \<Rightarrow> chars \<Rightarrow> (chars \<times> chars option) res" where
  "addr_parse_hostspec hoststr hoststr_sz service service_sz hostspec =
     bind_res (arr_get hostspec 0) (\<lambda>c0.
     bind_res (strNcpy hoststr (drop (if c0 = 91 then 1 else 0) hostspec) hoststr_sz) (\<lambda>h0.
     bind_res (c_strchr h0 0 93) (\<lambda>brk.
     bind_res (case brk of None \<Rightarrow> Inr (0, h0) | Some p \<Rightarrow> bind_res (arr_set h0 p 0) (\<lambda>h. Inr (p + 1, h))) (\<lambda>(ptr, h1).
     bind_res (c_strchr h1 ptr 58) (\<lambda>colon.
     case colon of
       Some p \<Rightarrow>
         bind_res
           (case service of
              Some v \<Rightarrow> if service_sz \<noteq> 0 then bind_res (strNcpy v (drop (p + 1) h1) service_sz) (\<lambda>v1. Inr (Some v1)) else Inr service
            | None \<Rightarrow> Inr None) (\<lambda>service1.
         bind_res (arr_set h1 p 0) (\<lambda>h2. Inr (h2, service1)))
     | None \<Rightarrow>
         bind_res
           (case service of
              Some v \<Rightarrow> if service_sz \<noteq> 0 then bind_res (arr_set v 0 0) (\<lambda>v1. Inr (Some v1)) else Inr service
            | None \<Rightarrow> Inr None) (\<lambda>service1. Inr (h1, service1)))))))"

text \<open>The port is converted to \<open>unsigned short\<close>; \<open>None\<close> is a NULL pointer for it.\<close>

definition addr_parse_hostspec_p :: "chars \<Rightarrow> nat \<Rightarrow> nat option \<Rightarrow> chars \<Rightarrow> (chars \<times> nat option) res" where
  "addr_parse_hostspec_p hoststr hoststr_sz port hostspec =
     bind_res (addr_parse_hostspec hoststr hoststr_sz (Some (replicate 6 Undef)) 6 hostspec) (\<lambda>(h, portstr).
     case port of
       None \<Rightarrow> Inr (h, None)
     | Some _ \<Rightarrow> bind_res (c_strtoul (the portstr)) (\<lambda>v. Inr (h, Some (v mod 2 ^ 16))))"

text \<open>
  Socket addresses: the parsed address and the port, in host byte order, of each family. \<open>inet_pton\<close> gives
  \<open>Inr\<close> the address, or the result it has when it fails.
\<close>

datatype ('a6, 'a4) sock_addr = Sin6 'a6 nat | Sin4 'a4 nat

definition addr_make_sockaddr_in6 ::
  "(byte list \<Rightarrow> int + 'a6) \<Rightarrow> chars \<Rightarrow> nat \<Rightarrow> ('a6, 'a4) sock_addr option \<Rightarrow> (bool \<times> ('a6, 'a4) sock_addr option) res" where
  "addr_make_sockaddr_in6 pton6 ip port dst =
     bind_res (read_cstr ip) (\<lambda>s. case pton6 s of Inl _ \<Rightarrow> Inr (False, dst) | Inr a \<Rightarrow> Inr (True, Some (Sin6 a port)))"

definition addr_make_sockaddr_in4 ::
  "(byte list \<Rightarrow> int + 'a4) \<Rightarrow> chars \<Rightarrow> nat \<Rightarrow> ('a6, 'a4) sock_addr option \<Rightarrow> (bool \<times> ('a6, 'a4) sock_addr option) res" where
  "addr_make_sockaddr_in4 pton4 ip port dst =
     bind_res (read_cstr ip) (\<lambda>s. case pton4 s of Inl _ \<Rightarrow> Inr (False, dst) | Inr a \<Rightarrow> Inr (True, Some (Sin4 a port)))"

text \<open>A \<open>struct sockaddr_in6\<close> has 28 bytes, a \<open>struct sockaddr_in\<close> 16; a pointer to the size may be NULL.\<close>

definition addr_make_sockaddr ::
  "(byte list \<Rightarrow> int + 'a6) \<Rightarrow> (byte list \<Rightarrow> int + 'a4) \<Rightarrow> chars \<Rightarrow> ('a6, 'a4) sock_addr option \<Rightarrow> nat option \<Rightarrow>
   (bool \<times> ('a6, 'a4) sock_addr option \<times> nat option) res" where
  "addr_make_sockaddr pton6 pton4 ip dst sasz =
     bind_res (addr_parse_hostspec_p (replicate 256 Undef) 256 (Some 0) ip) (\<lambda>(host, port).
     bind_res (c_strchr host 0 58) (\<lambda>colon.
     if colon \<noteq> None then
       bind_res (c_strlen host 0) (\<lambda>n.
       bind_res (arr_set host (sz_sub n 1) 0) (\<lambda>host1.
       bind_res (addr_make_sockaddr_in6 pton6 (drop 1 host1) (the port) dst) (\<lambda>(r, d).
       Inr (r, d, map_option (\<lambda>_. 28) sasz))))
     else
       bind_res (addr_make_sockaddr_in4 pton4 host (the port) dst) (\<lambda>(r, d).
       Inr (r, d, map_option (\<lambda>_. 16) sasz))))"

section \<open>Strings in arrays\<close>

lemma cstr_at_Cons: "cstr_at (c # a) (Suc i) s = cstr_at a i s"
  by (induction s arbitrary: i) auto

lemma cstr_at_drop_arr: "k \<le> length a \<Longrightarrow> cstr_at (drop k a) i s = cstr_at a (k + i) s"
proof (induction k arbitrary: a)
  case (Suc k)
  then show ?case by (cases a) (simp_all add: cstr_at_Cons)
qed simp

lemma cstr_at_bound: "cstr_at a i s \<Longrightarrow> i + length s < length a"
  using cstr_at_take by blast

lemma cstr_at_no_nul: "cstr_at a i s \<Longrightarrow> 0 \<notin> set s"
  by (induction s arbitrary: i) auto

lemma cstr_at_drop: "cstr_at a i s \<Longrightarrow> k \<le> length s \<Longrightarrow> cstr_at a (i + k) (drop k s)"
proof (induction s arbitrary: i k)
  case (Cons c s)
  then show ?case by (cases k) force+
qed simp

lemma cstr_at_before: "j < i \<Longrightarrow> cstr_at (a[j := v]) i s = cstr_at a i s"
  by (induction s arbitrary: i) auto

lemma cstr_at_cut: "cstr_at a i s \<Longrightarrow> k \<le> length s \<Longrightarrow> cstr_at (a[i + k := Val 0]) i (take k s)"
proof (induction s arbitrary: i k)
  case (Cons c s)
  show ?case
  proof (cases k)
    case (Suc j)
    with Cons.IH [of "i + 1" j] Cons.prems show ?thesis by simp
  qed (use Cons in simp)
qed simp

lemma cstr_at_keep: "cstr_at a i s \<Longrightarrow> i + length s < j \<Longrightarrow> cstr_at (a[j := v]) i s"
  by (induction s arbitrary: i) auto

lemma read_cstr_ok: "cstr_at a 0 s \<Longrightarrow> read_cstr a = Inr s"
proof (induction s arbitrary: a)
  case Nil
  then obtain b where "a = Val 0 # b" by (cases a) auto
  then show ?case by simp
next
  case (Cons c s)
  then obtain b where "a = Val c # b" by (cases a) auto
  with Cons show ?case by (simp add: cstr_at_Cons)
qed

lemma c_strchr_ok:
  assumes "c \<noteq> 0"
  shows "cstr_at a i s \<Longrightarrow>
    c_strchr a i c = Inr (if c \<in> set s then Some (i + length (takeWhile (\<lambda>x. x \<noteq> c) s)) else None)"
  unfolding c_strchr_def
proof (induction s arbitrary: i)
  case Nil
  with assms show ?case by (simp add: c_loop_unfold strchr_body_def arr_get_def)
next
  case (Cons x s)
  then have "strchr_body a c i = Inr (if x = c then Break (Some i) else Continue (i + 1))"
    by (simp add: strchr_body_def arr_get_def)
  with Cons show ?case by (subst c_loop_unfold) auto
qed

section \<open>Numbers\<close>

lemma unat_digit: "d < 10 \<Longrightarrow> unat (of_nat (48 + d) :: byte) = 48 + d"
  by (simp add: unat_of_nat del: of_nat_add)

lemma is_digit_of_nat: "d < 10 \<Longrightarrow> is_digit (of_nat (48 + d))"
  unfolding is_digit_def by (subst (1 2) unat_digit) auto

lemma dec_digits: "list_all is_digit (dec n)"
proof (induction n rule: dec.induct)
  case (1 n)
  then show ?case
    using is_digit_of_nat [of n] is_digit_of_nat [of "n mod 10"] by (subst dec.simps) (simp del: of_nat_add)
qed

lemma digits_val_append: "list_all is_digit s \<Longrightarrow> digits_val acc (s @ t) = digits_val (digits_val acc s) t"
  by (induction s arbitrary: acc) auto

lemma digits_val_dec: "digits_val 0 (dec n) = n"
proof (induction n rule: dec.induct)
  case (1 n)
  show ?case
  proof (cases "n < 10")
    case True
    then show ?thesis
      using is_digit_of_nat [of n] unat_digit [of n] by (subst dec.simps) (simp del: of_nat_add)
  next
    case False
    have "is_digit (of_nat (48 + n mod 10))" "unat (of_nat (48 + n mod 10) :: byte) = 48 + n mod 10"
      by (rule is_digit_of_nat unat_digit; simp)+
    with False 1 show ?thesis
      by (subst dec.simps) (simp add: digits_val_append dec_digits del: of_nat_add)
  qed
qed

lemma length_dec: "0 < k \<Longrightarrow> n < 10 ^ k \<Longrightarrow> length (dec n) \<le> k"
proof (induction k arbitrary: n)
  case (Suc k)
  show ?case
  proof (cases "n < 10")
    case False
    with Suc.prems have "0 < k" "n div 10 < 10 ^ k" by (auto intro: gr0I)
    from Suc.IH [OF this] False show ?thesis by (subst dec.simps) simp
  qed (subst dec.simps, simp)
qed simp

lemma dec_nonempty: "dec n \<noteq> []"
  by (subst dec.simps) simp

lemma digit_range: "is_digit c \<Longrightarrow> c \<noteq> 0 \<and> c \<noteq> 32 \<and> \<not> c \<le> 13 \<and> c \<noteq> 45 \<and> c \<noteq> 43 \<and> c \<noteq> 58 \<and> c \<noteq> 91 \<and> c \<noteq> 93"
  by (auto simp: is_digit_def word_le_nat_alt)

lemma dec_chars: "0 \<notin> set (dec n)" "93 \<notin> set (dec n)"
  using dec_digits [of n] digit_range by (auto simp: list_all_iff)

lemma strtoul_dec: "n < 2 ^ 64 \<Longrightarrow> strtoul_val (dec n) = n"
proof -
  assume n: "n < 2 ^ 64"
  obtain c s where cs: "dec n = c # s" using dec_nonempty by (cases "dec n") auto
  then have "is_digit c" using dec_digits [of n] by simp
  then show ?thesis
    using digit_range [of c] digits_val_dec [of n] n unfolding strtoul_val_def cs by (simp add: Let_def)
qed

section \<open>Splitting\<close>

definition upto_byte :: "byte \<Rightarrow> byte list \<Rightarrow> byte list" where
  "upto_byte c s = takeWhile (\<lambda>x. x \<noteq> c) s"

definition past_byte :: "byte \<Rightarrow> byte list \<Rightarrow> byte list" where
  "past_byte c s = drop (length (upto_byte c s) + 1) s"

text \<open>Host and service of a text whose opening bracket is gone.\<close>

definition host_service :: "byte list \<Rightarrow> byte list \<times> byte list" where
  "host_service t =
     (if 93 \<in> set t then (upto_byte 93 t, past_byte 58 (past_byte 93 t)) else (upto_byte 58 t, past_byte 58 t))"

definition unbracket :: "byte list \<Rightarrow> byte list" where
  "unbracket s = (if s \<noteq> [] \<and> hd s = 91 then tl s else s)"

lemma length_upto_byte: "length (upto_byte c s) \<le> length s"
  by (simp add: upto_byte_def length_takeWhile_le)

lemma upto_byte_less: "c \<in> set s \<Longrightarrow> length (upto_byte c s) < length s"
  unfolding upto_byte_def by (induction s) auto

lemma upto_byte_absent: "c \<notin> set s \<Longrightarrow> upto_byte c s = s \<and> past_byte c s = []"
proof -
  assume "c \<notin> set s"
  then have t: "takeWhile (\<lambda>x. x \<noteq> c) s = s" by (auto simp: takeWhile_eq_all_conv)
  show ?thesis unfolding past_byte_def upto_byte_def t by simp
qed

lemma upto_byte_append: "c \<notin> set s \<Longrightarrow> upto_byte c (s @ c # t) = s \<and> past_byte c (s @ c # t) = t"
  unfolding past_byte_def upto_byte_def by (induction s) auto

lemma take_upto_byte: "take (length (upto_byte c s)) s = upto_byte c s"
  unfolding upto_byte_def by (metis takeWhile_eq_take)

lemma cut_at_byte:
  assumes "cstr_at a i s" and "c \<in> set s"
  defines "p \<equiv> i + length (upto_byte c s)"
  shows "arr_set a p 0 = Inr (a[p := Val 0])" and "cstr_at (a[p := Val 0]) i (upto_byte c s)"
    and "cstr_at a (p + 1) (past_byte c s)" and "cstr_at (a[p := Val 0]) (p + 1) (past_byte c s)"
proof -
  have "length (upto_byte c s) < length s" by (rule upto_byte_less [OF assms(2)])
  then have k: "length (upto_byte c s) + 1 \<le> length s" by simp
  show "arr_set a p 0 = Inr (a[p := Val 0])" using cstr_at_bound [OF assms(1)] k by (simp add: p_def arr_set_in)
  show "cstr_at (a[p := Val 0]) i (upto_byte c s)"
    using cstr_at_cut [OF assms(1), of "length (upto_byte c s)"] k by (simp add: p_def take_upto_byte)
  show after: "cstr_at a (p + 1) (past_byte c s)"
    using cstr_at_drop [OF assms(1) k] by (simp add: p_def past_byte_def)
  then show "cstr_at (a[p := Val 0]) (p + 1) (past_byte c s)" by (simp add: cstr_at_before)
qed

text \<open>What a search and the cut after it do to the host array: one for the bracket, one for the colon.\<close>

lemma strchr_upto: "cstr_at a i s \<Longrightarrow> c \<noteq> 0 \<Longrightarrow>
    c_strchr a i c = Inr (if c \<in> set s then Some (i + length (upto_byte c s)) else None)"
  by (simp add: c_strchr_ok upto_byte_def)

lemma bracket_step:
  assumes "cstr_at h0 0 t"
  shows "\<exists>ptr h1. bind_res (c_strchr h0 0 93) (\<lambda>brk.
      case brk of None \<Rightarrow> Inr (0, h0) | Some p \<Rightarrow> bind_res (arr_set h0 p 0) (\<lambda>h. Inr (p + 1, h))) = Inr (ptr, h1) \<and>
    length h1 = length h0 \<and> cstr_at h1 ptr (if 93 \<in> set t then past_byte 93 t else t) \<and>
    (93 \<in> set t \<longrightarrow> cstr_at h1 0 (upto_byte 93 t) \<and> length (upto_byte 93 t) < ptr) \<and> (93 \<notin> set t \<longrightarrow> ptr = 0)"
proof (cases "93 \<in> set t")
  case True
  then show ?thesis
    using cut_at_byte [OF assms True] by (simp add: strchr_upto [OF assms])
next
  case False
  with assms show ?thesis by (simp add: strchr_upto)
qed

lemma store_service:
  assumes "0 < ssz" and "ssz \<le> length v" and "ssz \<le> size_max" and "cstr_at src 0 s"
  shows "\<exists>v1. strNcpy v src ssz = Inr v1 \<and> length v1 = length v \<and> cstr_at v1 0 (take (ssz - 1) s)"
  by (rule strNcpy_cstr [OF assms(4,1,2,3) cstr_at_no_nul [OF assms(4)]])

lemma parse_ok:
  assumes spec: "cstr_at spec 0 s" and h: "0 < hsz" "hsz \<le> length h" "hsz \<le> size_max"
    and v: "0 < vsz" "vsz \<le> length v" "vsz \<le> size_max"
  shows "\<exists>h' v'. addr_parse_hostspec h hsz (Some v) vsz spec = Inr (h', Some v') \<and> length h' = length h \<and> length v' = length v \<and>
    cstr_at h' 0 (fst (host_service (take (hsz - 1) (unbracket s)))) \<and>
    cstr_at v' 0 (take (vsz - 1) (snd (host_service (take (hsz - 1) (unbracket s)))))"
proof -
  define t where "t = take (hsz - 1) (unbracket s)"
  define rest where "rest = (if 93 \<in> set t then past_byte 93 t else t)"
  obtain c0 where c0: "arr_get spec 0 = Inr c0" "c0 = 91 \<longleftrightarrow> s \<noteq> [] \<and> hd s = 91"
    using spec by (cases s) (auto simp: arr_get_def)
  have "cstr_at (drop (if c0 = 91 then 1 else 0) spec) 0 (unbracket s)"
    using spec c0(2) cstr_at_bound [OF spec] cstr_at_drop [OF spec, of 1]
    by (cases s) (auto simp: unbracket_def cstr_at_drop_arr)
  then obtain h0 where h0: "strNcpy h (drop (if c0 = 91 then 1 else 0) spec) hsz = Inr h0" "length h0 = length h" "cstr_at h0 0 t"
    using strNcpy_cstr [OF _ h] cstr_at_no_nul unfolding t_def by blast
  obtain ptr h1 where h1: "bind_res (c_strchr h0 0 93) (\<lambda>brk.
      case brk of None \<Rightarrow> Inr (0, h0) | Some p \<Rightarrow> bind_res (arr_set h0 p 0) (\<lambda>h. Inr (p + 1, h))) = Inr (ptr, h1)"
    "length h1 = length h0" "cstr_at h1 ptr rest"
    "93 \<in> set t \<longrightarrow> cstr_at h1 0 (upto_byte 93 t) \<and> length (upto_byte 93 t) < ptr" "93 \<notin> set t \<longrightarrow> ptr = 0"
    using bracket_step [OF h0(3)] unfolding rest_def by blast
  obtain brk where brk: "c_strchr h0 0 93 = Inr brk"
    "(case brk of None \<Rightarrow> Inr (0, h0) | Some p \<Rightarrow> bind_res (arr_set h0 p 0) (\<lambda>h. Inr (p + 1, h))) = Inr (ptr, h1)"
    using h1(1) unfolding bind_res_eq_Inr by blast
  have start: "addr_parse_hostspec h hsz (Some v) vsz spec =
      bind_res (c_strchr h1 ptr 58) (\<lambda>colon.
      case colon of
        Some p \<Rightarrow> bind_res (strNcpy v (drop (p + 1) h1) vsz) (\<lambda>v1. bind_res (arr_set h1 p 0) (\<lambda>h2. Inr (h2, Some v1)))
      | None \<Rightarrow> bind_res (arr_set v 0 0) (\<lambda>v1. Inr (h1, Some v1)))"
    unfolding addr_parse_hostspec_def c0(1) bind_res_Inr h0(1) brk prod.case
    using v(1) by (simp add: bind_res_assoc cong del: bind_res_weak_cong option.case_cong_weak)
  have host: "fst (host_service t) = (if 93 \<in> set t then upto_byte 93 t else upto_byte 58 rest)"
    and serv: "snd (host_service t) = past_byte 58 rest" by (simp_all add: host_service_def rest_def)
  note find = strchr_upto [OF h1(3), of 58]
  show ?thesis
  proof (cases "58 \<in> set rest")
    case True
    let ?p = "ptr + length (upto_byte 58 rest)"
    note cut = cut_at_byte [OF h1(3) True]
    have "cstr_at (drop (?p + 1) h1) 0 (past_byte 58 rest)"
      using cut(3) cstr_at_bound [OF cut(3)] by (simp add: cstr_at_drop_arr)
    from store_service [OF v this] obtain v1 where v1: "strNcpy v (drop (?p + 1) h1) vsz = Inr v1" "length v1 = length v"
      "cstr_at v1 0 (take (vsz - 1) (past_byte 58 rest))" by blast
    have "cstr_at (h1[?p := Val 0]) 0 (fst (host_service t))"
    proof (cases "93 \<in> set t")
      case True
      with h1(4) show ?thesis unfolding host by (simp add: cstr_at_keep)
    next
      case False
      with cut(2) h1(5) show ?thesis unfolding host by simp
    qed
    then show ?thesis
      unfolding start t_def [symmetric] using find True v1 cut(1) h0(2) h1(2) serv by simp
  next
    case False
    then have "cstr_at h1 0 (fst (host_service t))"
      using h1(3-5) upto_byte_absent [OF False] unfolding host by (auto simp: rest_def split: if_splits)
    moreover have "cstr_at (v[0 := Val 0]) 0 (take (vsz - 1) (snd (host_service t)))"
      using upto_byte_absent [OF False] v(1,2) unfolding serv by (cases v) auto
    moreover have "arr_set v 0 0 = Inr (v[0 := Val 0])" using v(1,2) by (intro arr_set_in) linarith
    ultimately show ?thesis
      unfolding start t_def [symmetric] using find False h0(2) h1(2) by simp
  qed
qed

lemma parse_p_ok:
  assumes "cstr_at spec 0 s" and "0 < hsz" and "hsz \<le> length h" and "hsz \<le> size_max"
  shows "\<exists>h'. addr_parse_hostspec_p h hsz (Some p0) spec =
      Inr (h', Some (strtoul_val (take 5 (snd (host_service (take (hsz - 1) (unbracket s))))) mod 2 ^ 16)) \<and>
    length h' = length h \<and> cstr_at h' 0 (fst (host_service (take (hsz - 1) (unbracket s))))"
proof -
  have "(6 :: nat) \<le> size_max" by (simp add: size_max_def)
  then obtain h' v' where "addr_parse_hostspec h hsz (Some (replicate 6 Undef)) 6 spec = Inr (h', Some v')"
    "length h' = length h" "cstr_at h' 0 (fst (host_service (take (hsz - 1) (unbracket s))))"
    "cstr_at v' 0 (take 5 (snd (host_service (take (hsz - 1) (unbracket s)))))"
    using parse_ok [OF assms, of 6 "replicate 6 Undef"] by auto
  then show ?thesis by (simp add: addr_parse_hostspec_p_def c_strtoul_def read_cstr_ok)
qed

text \<open>A host and a port as text: an IPv6 address is put in brackets.\<close>

definition print_hostspec :: "bool \<Rightarrow> byte list \<Rightarrow> nat \<Rightarrow> byte list" where
  "print_hostspec brackets host port = (if brackets then 91 # host @ 93 # 58 # dec port else host @ 58 # dec port)"

definition plain_host :: "bool \<Rightarrow> byte list \<Rightarrow> bool" where
  "plain_host brackets host \<longleftrightarrow> 93 \<notin> set host \<and> (\<not> brackets \<longrightarrow> 58 \<notin> set host \<and> (host = [] \<or> hd host \<noteq> 91))"

lemma host_service_print: "plain_host br host \<Longrightarrow> host_service (unbracket (print_hostspec br host port)) = (host, dec port)"
  using upto_byte_append [of 93 host "58 # dec port"] upto_byte_append [of 58 "[]" "dec port"]
    upto_byte_append [of 58 host "dec port"] dec_chars(2) [of port]
  by (cases host) (auto simp: plain_host_def print_hostspec_def unbracket_def host_service_def)

lemma length_unbracket: "length (unbracket s) \<le> length s"
  by (simp add: unbracket_def)

lemma parse_print:
  assumes "cstr_at spec 0 (print_hostspec br host port)" and "plain_host br host" and "port < 2 ^ 16"
    and "length (print_hostspec br host port) < hsz" and "hsz \<le> length h" and "hsz \<le> size_max"
  shows "\<exists>h'. addr_parse_hostspec_p h hsz (Some p0) spec = Inr (h', Some port) \<and> length h' = length h \<and> cstr_at h' 0 host"
proof -
  have t: "take (hsz - 1) (unbracket (print_hostspec br host port)) = unbracket (print_hostspec br host port)"
    using length_unbracket [of "print_hostspec br host port"] assms(4) by simp
  have "take 5 (dec port) = dec port" using length_dec [of 5 port] assms(3) by simp
  then show ?thesis
    using parse_p_ok [OF assms(1) _ assms(5,6), of p0] assms(3,4) strtoul_dec [of port]
    unfolding t host_service_print [OF assms(2)] by auto
qed

lemma in6_host:
  assumes "cstr_at h 0 host" and "2 \<le> length host" and "length host < size_max"
  shows "\<exists>h1. arr_set h (sz_sub (length host) 1) 0 = Inr h1 \<and> cstr_at (drop 1 h1) 0 (butlast (tl host))"
proof -
  define n where "n = length host - 1"
  have n: "sz_sub (length host) 1 = n" "n \<le> length host" "1 \<le> n" using assms(2,3) by (simp_all add: n_def sz_simps)
  have a: "arr_set h n 0 = Inr (h[n := Val 0])" using cstr_at_bound [OF assms(1)] n by (simp add: arr_set_in)
  have "cstr_at (h[n := Val 0]) 0 (take n host)" using cstr_at_cut [OF assms(1) n(2)] by simp
  from cstr_at_drop [OF this, of 1] have "cstr_at (drop 1 (h[n := Val 0])) 0 (drop 1 (take n host))"
    using n assms(2) cstr_at_bound [OF assms(1)] by (simp add: cstr_at_drop_arr)
  moreover have "drop 1 (take n host) = butlast (tl host)"
    by (cases host) (simp_all add: n_def butlast_conv_take drop_take)
  ultimately show ?thesis using a n(1) by simp
qed

section \<open>Properties\<close>

text \<open>
  C28: \<open>addr_parse_hostspec\<close> splits any text as specified: without an opening bracket at its start, and cut to
  the size of the host array, the host ends at the first closing bracket if there is one and else at the
  first colon; the service is what follows the first colon after the host, cut to the size of its array.
  Both arrays end up holding C strings, and nothing is written beyond the given sizes.
\<close>

theorem hostspec_split:
  assumes "cstr_at spec 0 s" and "0 < hsz" and "hsz \<le> length h" and "hsz \<le> size_max"
    and "0 < vsz" and "vsz \<le> length v" and "vsz \<le> size_max" and "t = take (hsz - 1) (unbracket s)"
  shows "\<exists>h' v'. addr_parse_hostspec h hsz (Some v) vsz spec = Inr (h', Some v') \<and>
    length h' = length h \<and> length v' = length v \<and>
    cstr_at h' 0 (fst (host_service t)) \<and> cstr_at v' 0 (take (vsz - 1) (snd (host_service t)))"
  unfolding assms(8) by (rule parse_ok [OF assms(1-7)])

text \<open>\<open>[a:b]:cd\<close> into an array of 8 for the host and 2 for the service.\<close>

theorem hostspec_split_witness:
  "\<exists>h' v'. addr_parse_hostspec (replicate 8 Undef) 8 (Some (replicate 2 Undef)) 2 (map Val [91, 97, 58, 98, 93, 58, 99, 100, 0]) =
     Inr (h', Some v') \<and> cstr_at h' 0 [97, 58, 98] \<and> cstr_at v' 0 [99]"
  using hostspec_split [of "map Val [91, 97, 58, 98, 93, 58, 99, 100, 0]" "[91, 97, 58, 98, 93, 58, 99, 100]" 8
      "replicate 8 Undef" 2 "replicate 2 Undef" "[97, 58, 98, 93, 58, 99, 100]"]
  by (auto simp: unbracket_def host_service_def upto_byte_def past_byte_def size_max_def)

text \<open>
  C29: a host and a port printed as \<open>host:port\<close>, or \<open>[host]:port\<close> for a host with colons, are read back
  exactly by \<open>addr_parse_hostspec_p\<close>, for every port, if the host fits its array.
\<close>

theorem hostspec_roundtrip:
  assumes "cstr_at spec 0 (print_hostspec br host port)" and "plain_host br host" and "port < 2 ^ 16"
    and "length (print_hostspec br host port) < hsz" and "hsz \<le> length h" and "hsz \<le> size_max"
  shows "\<exists>h'. addr_parse_hostspec_p h hsz (Some p0) spec = Inr (h', Some port) \<and> length h' = length h \<and> cstr_at h' 0 host"
  by (rule parse_print [OF assms])

theorem hostspec_roundtrip_witness:
  "\<exists>h'. addr_parse_hostspec_p (replicate 12 Undef) 12 (Some 0) (map Val (print_hostspec True [58, 58, 49] 65535 @ [0])) =
     Inr (h', Some 65535) \<and> cstr_at h' 0 [58, 58, 49]"
proof -
  have p: "print_hostspec True [58, 58, 49] 65535 = [91, 58, 58, 49, 93, 58, 54, 53, 53, 51, 53]"
    by (simp add: print_hostspec_def dec.simps)
  show ?thesis
    using hostspec_roundtrip [of "map Val (print_hostspec True [58, 58, 49] 65535 @ [0])" True "[58, 58, 49]" 65535 12 "replicate 12 Undef" 0]
    by (auto simp: p plain_host_def size_max_def)
qed

text \<open>
  \<open>addr_make_sockaddr\<close> hands an IPv4 host to \<open>inet_pton\<close> as it is and stores what that yields, with the
  port. A host in brackets loses its first and its last character a second time: the brackets that the
  function means to strip have been stripped by \<open>addr_parse_hostspec_p\<close>.
\<close>

theorem make_sockaddr_strips_twice:
  assumes "cstr_at spec 0 (print_hostspec br host port)" and "plain_host br host" and "port < 2 ^ 16"
    and "length (print_hostspec br host port) < 256" and "br \<longrightarrow> 58 \<in> set host \<and> 2 \<le> length host"
  shows "addr_make_sockaddr pton6 pton4 spec dst sasz =
    (if br then
       Inr (case pton6 (butlast (tl host)) of
         Inl _ \<Rightarrow> (False, dst, map_option (\<lambda>_. 28) sasz)
       | Inr a \<Rightarrow> (True, Some (Sin6 a port), map_option (\<lambda>_. 28) sasz))
     else
       Inr (case pton4 host of
         Inl _ \<Rightarrow> (False, dst, map_option (\<lambda>_. 16) sasz)
       | Inr a \<Rightarrow> (True, Some (Sin4 a port), map_option (\<lambda>_. 16) sasz)))"
proof -
  obtain h where h: "addr_parse_hostspec_p (replicate 256 Undef) 256 (Some 0) spec = Inr (h, Some port)" "cstr_at h 0 host"
    using parse_print [OF assms(1-4), of "replicate 256 Undef" 0] by (auto simp: size_max_def)
  have colon: "c_strchr h 0 58 = Inr (if br then Some (length (upto_byte 58 host)) else None)"
    using strchr_upto [OF h(2), of 58] assms(2,5) by (auto simp: plain_host_def)
  show ?thesis
  proof (cases br)
    case True
    have "length host < 256" using assms(4) by (simp add: print_hostspec_def split: if_splits)
    then have "length host < size_max" by (simp add: size_max_def)
    then obtain h1 where "arr_set h (sz_sub (length host) 1) 0 = Inr h1" "cstr_at (drop 1 h1) 0 (butlast (tl host))"
      using in6_host [OF h(2)] assms(5) True by blast
    then show ?thesis
      using True h colon c_strlen_ok [OF h(2)] read_cstr_ok
      by (auto simp: addr_make_sockaddr_def addr_make_sockaddr_in6_def split: sum.splits)
  next
    case False
    then show ?thesis
      using h colon read_cstr_ok [OF h(2)]
      by (auto simp: addr_make_sockaddr_def addr_make_sockaddr_in4_def split: sum.splits)
  qed
qed

text \<open>For \<open>[::1]:80\<close> it is the text \<open>:\<close> that is looked at.\<close>

theorem make_sockaddr_strips_twice_witness:
  "addr_make_sockaddr (\<lambda>s. if s = [58] then Inl 0 else Inr (1 :: nat)) (\<lambda>s. Inr (2 :: nat))
     (map Val (print_hostspec True [58, 58, 49] 80 @ [0])) None None = Inr (False, None, None)"
proof -
  have p: "print_hostspec True [58, 58, 49] 80 = [91, 58, 58, 49, 93, 58, 56, 48]"
    by (simp add: print_hostspec_def dec.simps)
  show ?thesis
    using make_sockaddr_strips_twice [of "map Val (print_hostspec True [58, 58, 49] 80 @ [0])" True "[58, 58, 49]" 80
        "\<lambda>s. if s = [58] then Inl 0 else Inr (1 :: nat)" "\<lambda>s. Inr (2 :: nat)" None None]
    by (simp add: p plain_host_def)
qed

end
