(* ===== verification/Addr.thy ===== *)
theory Addr imports HostSpec Io begin

text \<open>
  The part of addr.c that makes sockets. The operating system is a parameter, the record \<open>net_env\<close> of the
  calls the code makes over a state \<open>'e\<close>; what POSIX documents of them is the locale \<open>network\<close>: how each
  call changes the set of open descriptors with their status flags, and the address lists to be freed.
  The copies of the peer's address that are made for log messages are not modelled.
\<close>

unbundle bit_operations_syntax

section \<open>The code\<close>

record addr_info =
  ai_family :: int
  ai_socktype :: int
  ai_protocol :: int
  ai_addr :: "byte list"
  ai_addrlen :: nat

text \<open>\<open>connect\<close> and \<open>bind\<close> return 0, or -1 with \<open>EINPROGRESS\<close>, or -1 with another error.\<close>

datatype call_result = Call_Ok | Call_In_Progress | Call_Failed

datatype sock_opt = SO_BROADCAST | SO_REUSEADDR

type_synonym 'e sock_call = "'e \<Rightarrow> int \<Rightarrow> byte list \<Rightarrow> nat \<Rightarrow> call_result \<times> 'e"

text \<open>
  \<open>net_getaddrinfo\<close> takes the host (which may be NULL), the service, the socket type and the flags, and
  yields \<open>None\<close> on failure; \<open>net_getsockopt\<close> reads \<open>SO_ERROR\<close>.
\<close>

record 'e net_env =
  net_wait :: "'e sel_env"
  net_getaddrinfo :: "'e \<Rightarrow> byte list option \<Rightarrow> byte list \<Rightarrow> int \<Rightarrow> int \<Rightarrow> addr_info list option \<times> 'e"
  net_freeaddrinfo :: "'e \<Rightarrow> 'e"
  net_socket :: "'e \<Rightarrow> int \<Rightarrow> int \<Rightarrow> int \<Rightarrow> int \<times> 'e"
  net_getfl :: "'e \<Rightarrow> int \<Rightarrow> int \<times> 'e"
  net_setfl :: "'e \<Rightarrow> int \<Rightarrow> int \<Rightarrow> int \<times> 'e"
  net_connect :: "'e sock_call"
  net_bind :: "'e sock_call"
  net_getsockopt :: "'e \<Rightarrow> int \<Rightarrow> int option \<times> 'e"
  net_setsockopt :: "'e \<Rightarrow> int \<Rightarrow> sock_opt \<Rightarrow> bool \<times> 'e"
  net_close :: "'e \<Rightarrow> int \<Rightarrow> 'e"

definition o_nonblock :: int where
  "o_nonblock = 2048"

definition setblocking :: "'e net_env \<Rightarrow> 'e \<Rightarrow> int \<Rightarrow> bool \<Rightarrow> int \<times> 'e" where
  "setblocking env e fd blocking =
     (let (opts, e1) = net_getfl env e fd in
      net_setfl env e1 fd (if blocking then opts AND NOT o_nonblock else opts OR o_nonblock))"

definition tick :: "'e net_env \<Rightarrow> 'e \<Rightarrow> (int \<times> 'e) res" where
  "tick env e = (let (t, e1) = env_now (net_wait env) e in bind_res (tstamp_us t) (\<lambda>now. Inr (now, e1)))"

text \<open>
  How long to wait for a connection in progress: \<open>None\<close> when a timeout has passed, and 0 for no limit.
\<close>

definition connect_wait :: "'e net_env \<Rightarrow> int \<Rightarrow> int \<Rightarrow> 'e \<Rightarrow> (int option \<times> 'e) res" where
  "connect_wait env hardtsend softto_us e =
     bind_res
       (if hardtsend \<noteq> 0 then bind_res (tick env e) (\<lambda>(now, e1). bind_res (int64 (hardtsend - now)) (\<lambda>t. Inr (t, e1)))
        else Inr (0, e)) (\<lambda>(trem, e1).
     if hardtsend \<noteq> 0 \<and> trem \<le> 0 then Inr (None, e1)
     else
       bind_res
         (if softto_us \<noteq> 0 then bind_res (tick env e1) (\<lambda>(now, e2). bind_res (int64 (now + softto_us)) (\<lambda>t. Inr (t, e2)))
          else Inr (0, e1)) (\<lambda>(softtsend, e2).
       if softtsend \<noteq> 0 then
         bind_res (tick env e2) (\<lambda>(now, e3).
         bind_res (int64 (softtsend - now)) (\<lambda>tmp.
         Inr (if tmp \<le> 0 then None else if tmp < trem then Some tmp else Some trem, e3)))
       else Inr (Some trem, e2)))"

text \<open>What becomes of one address: a socket, the next address, or the hard timeout.\<close>

datatype attempt = Got int | Next_Addr | Hard_Timeout

definition give_up :: "'e net_env \<Rightarrow> int \<Rightarrow> 'e \<Rightarrow> attempt \<times> 'e" where
  "give_up env sck e = (Next_Addr, net_close env e sck)"

definition finish_socket :: "'e net_env \<Rightarrow> int \<Rightarrow> 'e \<Rightarrow> attempt \<times> 'e" where
  "finish_socket env sck e =
     (let (r, e1) = setblocking env e sck True in if r = - 1 then give_up env sck e1 else (Got sck, e1))"

definition await_connect :: "'e net_env \<Rightarrow> int \<Rightarrow> int \<Rightarrow> int \<Rightarrow> 'e \<Rightarrow> (attempt \<times> 'e) res" where
  "await_connect env hardtsend softto_us sck e =
     bind_res (connect_wait env hardtsend softto_us e) (\<lambda>(wait, e1).
     case wait of
       None \<Rightarrow> Inr (give_up env sck e1)
     | Some trem \<Rightarrow>
         bind_res (io_select1w (net_wait env) e1 sck trem True) (\<lambda>(r, e2).
         if r \<le> 0 then Inr (give_up env sck e2)
         else
           (let (opt, e3) = net_getsockopt env e2 sck in
            Inr (if opt = Some 0 then finish_socket env sck e3 else give_up env sck e3))))"

text \<open>The results that are returned through pointers, which may be NULL: the address, cut to the size of a
  \<open>struct sockaddr\<close>, and its length.\<close>

type_synonym sock_out = "byte list option \<times> nat option"

definition fill_out :: "sock_out \<Rightarrow> addr_info \<Rightarrow> sock_out" where
  "fill_out out ai = (map_option (\<lambda>_. take 16 (ai_addr ai)) (fst out), map_option (\<lambda>_. ai_addrlen ai) (snd out))"

definition try_addr ::
  "'e net_env \<Rightarrow> 'e sock_call option \<Rightarrow> int \<Rightarrow> int \<Rightarrow> addr_info \<Rightarrow> sock_out \<Rightarrow> 'e \<Rightarrow> (attempt \<times> sock_out \<times> 'e) res" where
  "try_addr env func hardtsend softto_us ai out e =
     bind_res
       (if hardtsend \<noteq> 0 then
          bind_res (tick env e) (\<lambda>(now, e1). bind_res (int64 (hardtsend - now)) (\<lambda>t. Inr (t \<le> 0, e1)))
        else Inr (False, e)) (\<lambda>(late, e1).
     if late then Inr (Hard_Timeout, out, e1)
     else
       (let (sck, e2) = net_socket env e1 (ai_family ai) (ai_socktype ai) (ai_protocol ai) in
        if sck < 0 then Inr (Next_Addr, out, e2)
        else
          (let out1 = fill_out out ai in
           case func of
             None \<Rightarrow> Inr (Got sck, out1, e2)
           | Some f \<Rightarrow>
               (let (r, e3) = setblocking env e2 sck False in
                if r = - 1 then (let (a, e4) = give_up env sck e3 in Inr (a, out1, e4))
                else
                  (let (c, e4) = f e3 sck (ai_addr ai) (ai_addrlen ai) in
                   bind_res
                     (case c of
                        Call_Failed \<Rightarrow> Inr (give_up env sck e4)
                      | Call_In_Progress \<Rightarrow> await_connect env hardtsend softto_us sck e4
                      | Call_Ok \<Rightarrow> Inr (finish_socket env sck e4)) (\<lambda>(a, e5). Inr (a, out1, e5)))))))"

fun try_addrs ::
  "'e net_env \<Rightarrow> 'e sock_call option \<Rightarrow> int \<Rightarrow> int \<Rightarrow> addr_info list \<Rightarrow> sock_out \<Rightarrow> 'e \<Rightarrow> (attempt \<times> sock_out \<times> 'e) res" where
  "try_addrs env func hardtsend softto_us [] out e = Inr (Next_Addr, out, e)"
| "try_addrs env func hardtsend softto_us (ai # ais) out e =
     bind_res (try_addr env func hardtsend softto_us ai out e) (\<lambda>(a, out1, e1).
     if a = Next_Addr then try_addrs env func hardtsend softto_us ais out1 e1 else Inr (a, out1, e1))"

definition ai_passive :: int where "ai_passive = 1"
definition ai_addrconfig :: int where "ai_addrconfig = 32"
definition ai_numericserv :: int where "ai_numericserv = 1024"
definition sock_stream :: int where "sock_stream = 1"
definition sock_dgram :: int where "sock_dgram = 2"

definition addr_mksocket ::
  "'e net_env \<Rightarrow> byte list option \<Rightarrow> chars \<Rightarrow> int \<Rightarrow> int \<Rightarrow> 'e sock_call option \<Rightarrow> sock_out \<Rightarrow> int \<Rightarrow> int \<Rightarrow> 'e \<Rightarrow>
   (int \<times> sock_out \<times> 'e) res" where
  "addr_mksocket env host service socktype aflags func out softto_us hardto_us e =
     bind_res
       (if hardto_us \<noteq> 0 then bind_res (tick env e) (\<lambda>(now, e1). bind_res (int64 (now + hardto_us)) (\<lambda>t. Inr (t, e1)))
        else Inr (0, e)) (\<lambda>(hardtsend, e1).
     bind_res (isdigitstr service 0) (\<lambda>numeric.
     bind_res (read_cstr service) (\<lambda>serv.
     let (r, e2) = net_getaddrinfo env e1 host serv socktype (if numeric then aflags OR ai_numericserv else aflags) in
     case r of
       None \<Rightarrow> Inr (- 1, out, e2)
     | Some ais \<Rightarrow>
         if ais = [] then Inr (- 1, out, e2)
         else
           bind_res (try_addrs env func hardtsend softto_us ais out e2) (\<lambda>(a, out1, e3).
           Inr (case a of
                  Hard_Timeout \<Rightarrow> (0, out1, e3)
                | Next_Addr \<Rightarrow> (- 1, out1, net_freeaddrinfo env e3)
                | Got sck \<Rightarrow> (sck, out1, net_freeaddrinfo env e3))))))"

definition addr_connect_socket where
  "addr_connect_socket env host service out softto_us hardto_us e =
     addr_mksocket env host service sock_stream 0 (Some (net_connect env)) out softto_us hardto_us e"

definition addr_bind_socket where
  "addr_bind_socket env localif service out softto_us hardto_us e =
     addr_mksocket env localif service sock_stream (ai_addrconfig OR ai_passive) (Some (net_bind env)) out softto_us hardto_us e"

definition addr_connect_socket_dgram where
  "addr_connect_socket_dgram env host service out softto_us hardto_us e =
     addr_mksocket env host service sock_dgram 0 (Some (net_connect env)) out softto_us hardto_us e"

definition set_broadcast :: "'e net_env \<Rightarrow> int \<Rightarrow> 'e \<Rightarrow> int \<times> 'e" where
  "set_broadcast env s e =
     (let (ok, e1) = net_setsockopt env e s SO_BROADCAST in if ok then (s, e1) else (- 1, net_close env e1 s))"

definition addr_bind_socket_dgram ::
  "'e net_env \<Rightarrow> byte list option \<Rightarrow> chars \<Rightarrow> bool \<Rightarrow> bool \<Rightarrow> sock_out \<Rightarrow> int \<Rightarrow> int \<Rightarrow> 'e \<Rightarrow> (int \<times> sock_out \<times> 'e) res" where
  "addr_bind_socket_dgram env localif service bc ra out softto_us hardto_us e =
     bind_res (addr_mksocket env localif service sock_dgram (ai_addrconfig OR ai_passive) (Some (net_bind env)) out
         softto_us hardto_us e) (\<lambda>(s, out1, e1).
     let (s1, e2) = (if 0 \<le> s \<and> bc then set_broadcast env s e1 else (s, e1));
         (s2, e3) =
           (if 0 \<le> s1 \<and> ra then
              (let (s2, e3) = set_broadcast env s1 e2; (ok, e4) = net_setsockopt env e3 s2 SO_REUSEADDR in (s2, e4))
            else (s1, e2)) in
     Inr (s2, out1, e3))"

text \<open>The variants that take the port as a number print it into an array of 6.\<close>

definition port_str :: "nat \<Rightarrow> chars" where
  "port_str port = fill (replicate 6 Undef) 0 (take 5 (dec port) @ [0])"

definition addr_connect_socket_p where
  "addr_connect_socket_p env host port out softto_us hardto_us e =
     addr_connect_socket env host (port_str port) out softto_us hardto_us e"

definition addr_bind_socket_p where
  "addr_bind_socket_p env localif port out softto_us hardto_us e =
     addr_bind_socket env localif (port_str port) out softto_us hardto_us e"

definition addr_connect_socket_dgram_p where
  "addr_connect_socket_dgram_p env host port out softto_us hardto_us e =
     addr_connect_socket_dgram env host (port_str port) out softto_us hardto_us e"

definition addr_bind_socket_dgram_p where
  "addr_bind_socket_dgram_p env localif port bc ra out softto_us hardto_us e =
     addr_bind_socket_dgram env localif (port_str port) bc ra out softto_us hardto_us e"

section \<open>What the calls do\<close>

text \<open>
  \<open>fds\<close> is the set of open descriptors with their status flags, \<open>unfreed\<close> the number of address lists not yet
  freed, \<open>clock\<close> the time that is shown, in microseconds since 1970. The clock can be set back and calls can
  be interrupted; as a program that is disturbed again and again need not return, \<open>upsets\<close> bounds how
  often this still happens while the program waits. A new socket is any number that is not open, also one
  for which a descriptor set has no room.
\<close>

definition blocking :: "int \<Rightarrow> bool" where
  "blocking fl \<longleftrightarrow> fl AND o_nonblock = 0"

locale network =
  fixes env :: "'e net_env" and fds :: "'e \<Rightarrow> int \<rightharpoonup> int" and unfreed :: "'e \<Rightarrow> nat" and clock :: "'e \<Rightarrow> int" and upsets :: "'e \<Rightarrow> nat"
  assumes clock_range: "0 \<le> clock e \<and> clock e \<le> 2 ^ 60"
    and now_law: "env_now (net_wait env) e = (t, e1) \<Longrightarrow>
      t = Some (tv_of (clock e)) \<and> fds e1 = fds e \<and> unfreed e1 = unfreed e \<and> upsets e1 \<le> upsets e \<and>
      (clock e \<le> clock e1 \<or> upsets e1 < upsets e)"
    and select_law: "env_select (net_wait env) e r w x tv = (a, e1) \<Longrightarrow>
      fds e1 = fds e \<and> unfreed e1 = unfreed e \<and> upsets e1 \<le> upsets e \<and>
      (a = Sel_Error True \<longrightarrow> upsets e1 < upsets e) \<and>
      (\<forall>rr ww xx. a = Sel 0 rr ww xx \<longrightarrow>
         (\<exists>t. tv = Some t \<and> (clock e + tv_sec t * 1000000 + tv_usec t \<le> clock e1 \<or> upsets e1 < upsets e)))"
    and getaddrinfo_law: "net_getaddrinfo env e h sv st fl = (ans, e1) \<Longrightarrow>
      fds e1 = fds e \<and> unfreed e1 = unfreed e + (if ans = None \<or> ans = Some [] then 0 else 1)"
    and freeaddrinfo_law: "fds (net_freeaddrinfo env e) = fds e \<and> unfreed (net_freeaddrinfo env e) = unfreed e - 1"
    and socket_law: "net_socket env e fam st pr = (s, e1) \<Longrightarrow>
      unfreed e1 = unfreed e \<and> (if s < 0 then fds e1 = fds e else fds e s = None \<and> (\<exists>fl. fds e1 = (fds e)(s \<mapsto> fl)))"
    and getfl_law: "net_getfl env e s = (fl, e1) \<Longrightarrow> fds e1 = fds e \<and> unfreed e1 = unfreed e"
    and setfl_law: "net_setfl env e s fl = (q, e1) \<Longrightarrow>
      unfreed e1 = unfreed e \<and> fds e1 = (if q = - 1 then fds e else (fds e)(s \<mapsto> fl))"
    and connect_law: "net_connect env e s ad al = (c, e1) \<Longrightarrow> fds e1 = fds e \<and> unfreed e1 = unfreed e"
    and bind_law: "net_bind env e s ad al = (c, e1) \<Longrightarrow> fds e1 = fds e \<and> unfreed e1 = unfreed e"
    and getsockopt_law: "net_getsockopt env e s = (v, e1) \<Longrightarrow> fds e1 = fds e \<and> unfreed e1 = unfreed e"
    and setsockopt_law: "net_setsockopt env e s opt = (ok, e1) \<Longrightarrow> fds e1 = fds e \<and> unfreed e1 = unfreed e"
    and close_law: "fds (net_close env e s) = (fds e)(s := None) \<and> unfreed (net_close env e s) = unfreed e"
begin

definition keeps :: "'e \<Rightarrow> 'e \<Rightarrow> bool" where
  "keeps e e' \<longleftrightarrow> fds e' = fds e \<and> unfreed e' = unfreed e"

lemma keeps_refl [simp]: "keeps e e"
  and keeps_trans [trans]: "keeps e e1 \<Longrightarrow> keeps e1 e2 \<Longrightarrow> keeps e e2"
  by (simp_all add: keeps_def)

lemma stamp: "tstamp_us (Some (tv_of (clock e))) = Inr (clock e)"
proof -
  have "clock e div 1000000 * 1000000 + clock e mod 1000000 = clock e" by simp
  moreover have "in_int64 (clock e)" "in_int64 (clock e div 1000000 * 1000000)"
    using clock_range [of e] by (auto simp: in_int64_def)
  ultimately show ?thesis by (simp add: tstamp_us_def tconv_def tv_of_def int64_def)
qed

lemma tick_ok:
  "\<exists>e1. tick env e = Inr (clock e, e1) \<and> keeps e e1 \<and> upsets e1 \<le> upsets e \<and> (clock e \<le> clock e1 \<or> upsets e1 < upsets e)"
proof -
  obtain t e1 where "env_now (net_wait env) e = (t, e1)" by fastforce
  with now_law [OF this] stamp [of e] show ?thesis by (auto simp: tick_def keeps_def)
qed

lemma int64_ok: "\<bar>t\<bar> \<le> 2 ^ 62 \<Longrightarrow> int64 t = Inr t"
  by (auto simp: int64_def in_int64_def abs_if split: if_splits)

text \<open>Waiting for one descriptor returns, whatever the timeout.\<close>

lemma select_body1:
  assumes "0 \<le> s" and "s < 1024" and "tsend = 0 \<or> \<bar>tsend\<bar> \<le> 2 ^ 62"
  shows "(\<exists>e1. select_body (net_wait env) ([], [s], []) tsend False True e = Inr (Continue e1) \<and> keeps e e1 \<and> upsets e1 \<le> upsets e \<and>
      (upsets e1 < upsets e \<or> tsend \<noteq> 0 \<and> clock e < tsend \<and> tsend \<le> clock e1)) \<or>
    (\<exists>r f e1. select_body (net_wait env) ([], [s], []) tsend False True e = Inr (Break (r, f, e1)) \<and> keeps e e1)"
proof -
  have fds: "fd_set [] = Inr []" "fd_set [s] = Inr [s]" using assms(1,2) by (simp_all add: fd_set_def)
  define tv where "tv = (if tsend \<noteq> 0 then Some \<lparr>tv_sec = (tsend - clock e) sdiv 1000000, tv_usec = (tsend - clock e) smod 1000000\<rparr> else None)"
  obtain e1 where tick: "tick env e = Inr (clock e, e1)" "keeps e e1" "clock e \<le> clock e1 \<or> upsets e1 < upsets e" using tick_ok by blast
  obtain t0 where now0: "env_now (net_wait env) e = (t0, e1)"
    using tick(1) by (auto simp: tick_def bind_res_eq_Inr split: prod.splits)
  note now = now_law [OF now0]
  define e2 where "e2 = (if tsend \<noteq> 0 then e1 else e)"
  have e2: "keeps e e2" "clock e \<le> clock e2 \<or> upsets e2 < upsets e" "upsets e2 \<le> upsets e" using tick(2,3) now by (simp_all add: e2_def)
  obtain a e3 where sel: "env_select (net_wait env) e2 [] [s] [] tv = (a, e3)" by fastforce
  note law = select_law [OF sel]
  then have e3: "keeps e e3" "upsets e3 \<le> upsets e2" using e2(1) by (simp_all add: keeps_def)
  have body: "select_body (net_wait env) ([], [s], []) tsend False True e =
     (if tsend \<noteq> 0 \<and> tsend - clock e \<le> 0 then Inr (Break (0, ([], [s], []), e1))
      else case a of
        Sel_Error intr \<Rightarrow> Inr (if intr then Continue e3 else Break (- 1, ([], [s], []), e3))
      | Sel n rr wr er \<Rightarrow> Inr (if n = 0 then Continue e3
          else Break (int n, (mark_ready [] rr, mark_ready [s] wr, mark_ready [] er), e3)))"
  proof (cases "tsend = 0")
    case True
    then have "env_select (net_wait env) e [] [s] [] None = (a, e3)" using sel by (simp add: e2_def tv_def)
    with True show ?thesis
      by (simp only: select_body_def prod.case fds bind_res_Inr) (simp split: sel_result.splits)
  next
    case False
    have i: "int64 (tsend - clock e) = Inr (tsend - clock e)"
      using assms(3) clock_range [of e] False by (auto simp: int64_def in_int64_def abs_if split: if_splits)
    have "env_now (net_wait env) e = (Some (tv_of (clock e)), e1)" using now0 now by simp
    moreover have "env_select (net_wait env) e1 [] [s] [] (Some (fst (\<lparr>tv_sec = (tsend - clock e) sdiv 1000000,
        tv_usec = (tsend - clock e) smod 1000000\<rparr>, tsend - clock e))) = (a, e3)"
      using sel False by (simp add: e2_def tv_def)
    ultimately show ?thesis
      using False i stamp [of e]
      by (simp only: select_body_def prod.case fds bind_res_Inr) (simp add: tconv_def split: sel_result.splits cong del: bind_res_weak_cong)
  qed
  show ?thesis
  proof (cases "tsend \<noteq> 0 \<and> tsend - clock e \<le> 0")
    case True
    with body tick(2) show ?thesis by auto
  next
    case False
    show ?thesis
    proof (cases a)
      case (Sel_Error intr)
      with False body law e2 e3 show ?thesis by (cases intr) auto
    next
      case (Sel n rr wr er)
      show ?thesis
      proof (cases "n = 0")
        case True
        with law Sel obtain t where t: "tv = Some t" "clock e2 + tv_sec t * 1000000 + tv_usec t \<le> clock e3 \<or> upsets e3 < upsets e2" by blast
        then have ne: "tsend \<noteq> 0" by (auto simp: tv_def)
        with t have "clock e2 + (tsend - clock e) \<le> clock e3 \<or> upsets e3 < upsets e2"
          using sdiv_mult_smod_eq [of "tsend - clock e" 1000000] by (auto simp: tv_def)
        then have "upsets e3 < upsets e \<or> clock e < tsend \<and> tsend \<le> clock e3" using False ne e2(2,3) e3(2) by auto
        with True False Sel body e2 e3 ne show ?thesis by auto
      next
        case False': False
        with False Sel body e3(1) show ?thesis by auto
      qed
    qed
  qed
qed

lemma select1w_ok:
  assumes "0 \<le> s" and "s < 1024" and "0 \<le> t" and "t \<le> 2 ^ 61"
  shows "\<exists>r e'. io_select1w (net_wait env) e s t True = Inr (r, e') \<and> keeps e e'"
proof -
  have loop: "\<exists>r. c_loop (select_body (net_wait env) ([], [s], []) tsend False True) e1 = Inr r \<and> keeps e1 (snd (snd r))"
    if tsend: "tsend = 0 \<or> \<bar>tsend\<bar> \<le> 2 ^ 62" for tsend e1
  proof (rule c_loop_rule [where I = "keeps e1" and m = "\<lambda>e. 2 * upsets e + (if clock e < tsend then 1 else 0)"])
    fix e2 assume I: "keeps e1 e2"
    from select_body1 [OF assms(1,2) tsend, of e2]
    show "(\<exists>e3. select_body (net_wait env) ([], [s], []) tsend False True e2 = Inr (Continue e3) \<and> keeps e1 e3 \<and>
        2 * upsets e3 + (if clock e3 < tsend then 1 else 0) < 2 * upsets e2 + (if clock e2 < tsend then 1 else 0)) \<or>
      (\<exists>r. select_body (net_wait env) ([], [s], []) tsend False True e2 = Inr (Break r) \<and> keeps e1 (snd (snd r)))"
    proof (elim disjE exE conjE)
      fix e3 assume "select_body (net_wait env) ([], [s], []) tsend False True e2 = Inr (Continue e3)" "keeps e2 e3"
        "upsets e3 \<le> upsets e2" "upsets e3 < upsets e2"
      with keeps_trans [OF I] show ?thesis by auto
    next
      fix e3 assume "select_body (net_wait env) ([], [s], []) tsend False True e2 = Inr (Continue e3)" "keeps e2 e3"
        "upsets e3 \<le> upsets e2" "clock e2 < tsend" "tsend \<le> clock e3"
      with keeps_trans [OF I] show ?thesis by auto
    next
      fix r f e3 assume "select_body (net_wait env) ([], [s], []) tsend False True e2 = Inr (Break (r, f, e3))" "keeps e2 e3"
      with keeps_trans [OF I] show ?thesis by auto
    qed
  qed simp
  show ?thesis
  proof (cases "t = 0")
    case True
    then show ?thesis using loop [of 0 e] by (auto simp: io_select1w_def io_select_def)
  next
    case False
    obtain e1 where tick: "tick env e = Inr (clock e, e1)" "keeps e e1" using tick_ok by blast
    then obtain t0 where now0: "env_now (net_wait env) e = (t0, e1)" "tstamp_us t0 = Inr (clock e)"
      by (auto simp: tick_def bind_res_eq_Inr split: prod.splits)
    have r: "int64 (clock e + t) = Inr (clock e + t)" "\<bar>clock e + t\<bar> \<le> 2 ^ 62"
      using assms(3,4) clock_range [of e] by (simp_all add: int64_def in_int64_def)
    obtain x where "c_loop (select_body (net_wait env) ([], [s], []) (clock e + t) False True) e1 = Inr x" "keeps e1 (snd (snd x))"
      using loop [of "clock e + t" e1] r(2) by blast
    then show ?thesis
      using False assms(3) now0 r(1) tick(2) keeps_trans by (cases x) (auto simp: io_select1w_def io_select_def)
  qed
qed

text \<open>
  The time to wait never exceeds what is left until the hard deadline. Without a hard timeout it is 0,
  no limit, also with a soft timeout.
\<close>

lemma connect_wait_ok:
  assumes "\<bar>hard\<bar> \<le> 2 ^ 62" and "\<bar>soft\<bar> \<le> 2 ^ 61"
  shows "\<exists>w e'. connect_wait env hard soft e = Inr (w, e') \<and> keeps e e' \<and> (hard = 0 \<longrightarrow> w = None \<or> w = Some 0) \<and>
    (\<forall>t. hard \<noteq> 0 \<and> w = Some t \<longrightarrow> 0 < t \<and> t \<le> hard - clock e \<and> (0 < soft \<longrightarrow> t \<le> soft \<or> upsets e' < upsets e))"
proof -
  define trem where "trem = (if hard \<noteq> 0 then hard - clock e else 0)"
  obtain e1 where e1: "(if hard \<noteq> 0 then bind_res (tick env e) (\<lambda>(now, e1). bind_res (int64 (hard - now)) (\<lambda>t. Inr (t, e1)))
      else Inr (0, e)) = Inr (trem, e1)" "keeps e e1" "upsets e1 \<le> upsets e"
  proof -
    obtain e1 where "tick env e = Inr (clock e, e1)" "keeps e e1" "upsets e1 \<le> upsets e" using tick_ok by blast
    moreover have "int64 (hard - clock e) = Inr (hard - clock e)"
      using assms(1) clock_range [of e] by (auto simp: int64_def in_int64_def abs_if split: if_splits)
    ultimately show ?thesis using that [of e1] that [of e] by (cases "hard = 0") (simp_all add: trem_def)
  qed
  show ?thesis
  proof (cases "hard \<noteq> 0 \<and> trem \<le> 0 \<or> soft = 0 \<or> clock e1 + soft = 0")
    case True
    obtain e2 where e2: "tick env e1 = Inr (clock e1, e2)" "keeps e1 e2" using tick_ok by blast
    have "int64 (clock e1 + soft) = Inr (clock e1 + soft)"
      using assms(2) clock_range [of e1] by (auto simp: int64_def in_int64_def abs_if split: if_splits)
    with True e1(2,3) e2 keeps_trans [OF e1(2) e2(2)] clock_range [of e1] show ?thesis
      unfolding connect_wait_def e1(1) bind_res_Inr prod.case by (auto simp: trem_def)
  next
    case False
    obtain e2 where e2: "tick env e1 = Inr (clock e1, e2)" "keeps e1 e2" "clock e1 \<le> clock e2 \<or> upsets e2 < upsets e1"
      using tick_ok by blast
    obtain e3 where e3: "tick env e2 = Inr (clock e2, e3)" "keeps e2 e3" "upsets e3 \<le> upsets e2" using tick_ok by blast
    have i: "int64 (clock e1 + soft) = Inr (clock e1 + soft)" "int64 (clock e1 + soft - clock e2) = Inr (clock e1 + soft - clock e2)"
      using assms(2) clock_range [of e1] clock_range [of e2] by (auto simp: int64_def in_int64_def abs_if split: if_splits)
    have "keeps e e3" using keeps_trans [OF e1(2) keeps_trans [OF e2(2) e3(2)]] .
    moreover have "clock e1 + soft - clock e2 \<le> soft \<or> upsets e3 < upsets e" using e1(3) e2(3) e3(3) by linarith
    ultimately show ?thesis
      using False e2 e3 i unfolding connect_wait_def e1(1) bind_res_Inr prod.case by (auto simp: trem_def)
  qed
qed

text \<open>What an attempt leaves behind: a new descriptor for the socket it got, and nothing else.\<close>

definition owns :: "bool \<Rightarrow> 'e \<Rightarrow> 'e \<Rightarrow> int \<Rightarrow> bool" where
  "owns called e e' s \<longleftrightarrow> 0 \<le> s \<and> fds e s = None \<and> unfreed e' = unfreed e \<and>
     (\<exists>fl. fds e' = (fds e)(s \<mapsto> fl) \<and> (called \<longrightarrow> blocking fl))"

lemma owns_keeps: "owns c e e1 s \<Longrightarrow> keeps e1 e2 \<Longrightarrow> owns c e e2 s"
  by (simp add: owns_def keeps_def)

lemma give_up_ok: "owns False e e1 s \<Longrightarrow> \<exists>e2. give_up env s e1 = (Next_Addr, e2) \<and> keeps e e2"
  using close_law [of e1 s] by (auto simp: give_up_def owns_def keeps_def fun_upd_idem)

lemma blocking_cleared: "blocking (opts AND NOT o_nonblock)"
  by (simp add: blocking_def bit_eq_iff bit_simps)

lemma setblocking_ok:
  assumes "owns False e e1 s"
  shows "\<exists>r e2. setblocking env e1 s on = (r, e2) \<and> owns False e e2 s \<and> (r \<noteq> - 1 \<and> on \<longrightarrow> owns True e e2 s)"
proof -
  obtain opts e2 where g: "net_getfl env e1 s = (opts, e2)" by fastforce
  define fl where "fl = (if on then opts AND NOT o_nonblock else opts OR o_nonblock)"
  obtain r e3 where f: "net_setfl env e2 s fl = (r, e3)" by fastforce
  have "owns False e e3 s" "r \<noteq> - 1 \<and> on \<longrightarrow> owns True e e3 s"
    using assms getfl_law [OF g] setfl_law [OF f] blocking_cleared [of opts] by (auto simp: owns_def fl_def)
  with g f show ?thesis by (simp add: setblocking_def fl_def)
qed

definition settled :: "bool \<Rightarrow> 'e \<Rightarrow> attempt \<Rightarrow> 'e \<Rightarrow> bool" where
  "settled called e a e' \<longleftrightarrow> (case a of Got s \<Rightarrow> owns called e e' s | _ \<Rightarrow> keeps e e')"

lemma finish_socket_ok: "owns False e e1 s \<Longrightarrow> \<exists>a e2. finish_socket env s e1 = (a, e2) \<and> settled True e a e2 \<and> a \<noteq> Hard_Timeout"
proof -
  assume o: "owns False e e1 s"
  from setblocking_ok [OF o, of True] obtain r e2 where r: "setblocking env e1 s True = (r, e2)" "owns False e e2 s"
    "r \<noteq> - 1 \<longrightarrow> owns True e e2 s" by auto
  from give_up_ok [OF r(2)] r show ?thesis by (cases "r = - 1") (auto simp: finish_socket_def settled_def)
qed

text \<open>The only fault there can be: a socket for which a descriptor set has no room.\<close>

definition oversized :: bool where
  "oversized \<longleftrightarrow> (\<exists>e fam st pr. 1024 \<le> fst (net_socket env e fam st pr))"

definition yields :: "'b res \<Rightarrow> ('b \<Rightarrow> bool) \<Rightarrow> bool" where
  "yields m P \<longleftrightarrow> (\<exists>x. m = Inr x \<and> P x) \<or> m = Inl Out_Of_Bounds \<and> oversized"

lemma yields_Inr: "P x \<Longrightarrow> yields (Inr x) P"
  by (simp add: yields_def)

lemma yields_bind: "yields m P \<Longrightarrow> (\<And>x. P x \<Longrightarrow> yields (f x) Q) \<Longrightarrow> yields (bind_res m f) Q"
  unfolding yields_def by (elim disjE exE conjE) simp_all

lemma select1w_yields:
  assumes "0 \<le> s" and "s < 1024 \<or> oversized" and "0 \<le> t" and "t \<le> 2 ^ 61"
  shows "yields (io_select1w (net_wait env) e s t True) (\<lambda>(r, e'). keeps e e')"
proof (cases "s < 1024")
  case True
  from select1w_ok [OF assms(1) True assms(3,4), of e] show ?thesis by (auto simp: yields_def)
next
  case False
  then have "fd_set [s] = Inl Out_Of_Bounds" by (simp add: fd_set_def)
  then have "select_body (net_wait env) ([], [s], []) tsend False True e1 = Inl Out_Of_Bounds" for tsend e1
    by (simp add: select_body_def fd_set_def)
  then have loop: "c_loop (select_body (net_wait env) ([], [s], []) tsend False True) e1 = Inl Out_Of_Bounds" for tsend e1
    by (rule c_loop_fault)
  obtain e1 where "tick env e = Inr (clock e, e1)" using tick_ok by blast
  then obtain t0 where now0: "env_now (net_wait env) e = (t0, e1)" "tstamp_us t0 = Inr (clock e)"
    by (auto simp: tick_def bind_res_eq_Inr split: prod.splits)
  have "int64 (clock e + t) = Inr (clock e + t)"
    using assms(3,4) clock_range [of e] by (simp add: int64_def in_int64_def)
  then have "io_select1w (net_wait env) e s t True = Inl Out_Of_Bounds"
    using assms(3) now0 loop by (simp add: io_select1w_def io_select_def)
  then show ?thesis using False assms(2) by (simp add: yields_def)
qed

lemma await_connect_ok:
  assumes o: "owns False e e1 s" and big: "s < 1024 \<or> oversized"
    and t: "\<bar>hard\<bar> \<le> 2 ^ 62" "\<bar>soft\<bar> \<le> 2 ^ 61" "hard - clock e1 \<le> 2 ^ 61"
  shows "yields (await_connect env hard soft s e1) (\<lambda>(a, e2). settled True e a e2 \<and> a \<noteq> Hard_Timeout)"
proof -
  obtain w e2 where w: "connect_wait env hard soft e1 = Inr (w, e2)" "keeps e1 e2" "hard = 0 \<longrightarrow> w = None \<or> w = Some 0"
    "\<forall>t. hard \<noteq> 0 \<and> w = Some t \<longrightarrow> 0 < t \<and> t \<le> hard - clock e1"
    using connect_wait_ok [OF t(1,2), of e1] by blast
  have o2: "owns False e e2 s" using owns_keeps [OF o w(2)] .
  have fail: "\<exists>a e3. give_up env s e2' = (a, e3) \<and> settled True e a e3 \<and> a \<noteq> Hard_Timeout" if "owns False e e2' s" for e2'
    using give_up_ok [OF that] by (auto simp: settled_def)
  show ?thesis
  proof (cases w)
    case None
    with w(1) fail [OF o2] show ?thesis by (auto simp: await_connect_def yields_def)
  next
    case (Some trem)
    then have "0 \<le> trem" "trem \<le> 2 ^ 61" using w(3,4) t(3) by (cases "hard = 0"; force)+
    moreover have "0 \<le> s" using o by (simp add: owns_def)
    ultimately have sel: "yields (io_select1w (net_wait env) e2 s trem True) (\<lambda>(r, e'). keeps e2 e')"
      using select1w_yields big by blast
    have "yields (case x of (r, e3) \<Rightarrow> if r \<le> 0 then Inr (give_up env s e3)
        else (let (opt, e4) = net_getsockopt env e3 s in
          Inr (if opt = Some 0 then finish_socket env s e4 else give_up env s e4)))
        (\<lambda>(a, e2). settled True e a e2 \<and> a \<noteq> Hard_Timeout)" if "case x of (r, e') \<Rightarrow> keeps e2 e'" for x
    proof -
      obtain r e3 where x: "x = (r, e3)" by fastforce
      have o3: "owns False e e3 s" using owns_keeps [OF o2] that x by simp
      obtain opt e4 where opt: "net_getsockopt env e3 s = (opt, e4)" by fastforce
      have o4: "owns False e e4 s" using o3 getsockopt_law [OF opt] by (simp add: owns_def)
      show ?thesis using x opt fail [OF o3] fail [OF o4] finish_socket_ok [OF o4] by (auto simp: yields_def)
    qed
    from yields_bind [OF sel this] show ?thesis
      by (simp add: await_connect_def w(1) Some)
  qed
qed

definition known_call :: "'e sock_call option \<Rightarrow> bool" where
  "known_call func \<longleftrightarrow> func \<in> {None, Some (net_connect env), Some (net_bind env)}"

lemma call_law: "known_call (Some f) \<Longrightarrow> f e s ad al = (c, e1) \<Longrightarrow> keeps e e1"
  using connect_law bind_law by (auto simp: known_call_def keeps_def)

lemma owns_new:
  "net_socket env e fam st pr = (s, e1) \<Longrightarrow> 0 \<le> s \<Longrightarrow> owns False e e1 s"
  using socket_law [of e fam st pr s e1] by (auto simp: owns_def)

lemma owns_start: "keeps e e1 \<Longrightarrow> owns c e1 e2 s \<Longrightarrow> owns c e e2 s"
  by (simp add: owns_def keeps_def)

lemma settled_start: "keeps e e1 \<Longrightarrow> settled c e1 a e2 \<Longrightarrow> settled c e a e2"
  by (cases a) (auto simp: settled_def intro: owns_start keeps_trans)

text \<open>The attempt after the socket exists.\<close>

lemma called_ok:
  assumes o: "owns False e e2 s" and big: "s < 1024 \<or> oversized" and k: "known_call (Some f)"
    and t: "\<bar>hard\<bar> \<le> 2 ^ 61" "\<bar>soft\<bar> \<le> 2 ^ 61"
  shows "yields (let (r, e3) = setblocking env e2 s False in
      if r = - 1 then (let (a, e4) = give_up env s e3 in Inr (a, out, e4))
      else
        (let (c, e4) = f e3 s ad al in
         bind_res
           (case c of
              Call_Failed \<Rightarrow> Inr (give_up env s e4)
            | Call_In_Progress \<Rightarrow> await_connect env hard soft s e4
            | Call_Ok \<Rightarrow> Inr (finish_socket env s e4)) (\<lambda>(a, e5). Inr (a, out, e5))))
    (\<lambda>(a, out', e5). settled True e a e5 \<and> a \<noteq> Hard_Timeout)"
proof -
  from setblocking_ok [OF o, of False] obtain r e3 where r: "setblocking env e2 s False = (r, e3)" "owns False e e3 s" by auto
  obtain c e4 where c: "f e3 s ad al = (c, e4)" by fastforce
  have o4: "owns False e e4 s" by (rule owns_keeps [OF r(2) call_law [OF k c]])
  have "hard - clock e4 \<le> 2 ^ 61" using t(1) clock_range [of e4] by linarith
  moreover have "\<bar>hard\<bar> \<le> 2 ^ 62" using t(1) by simp
  ultimately have w: "yields (await_connect env hard soft s e4) (\<lambda>(a, e2). settled True e a e2 \<and> a \<noteq> Hard_Timeout)"
    using await_connect_ok [OF o4 big _ t(2)] by blast
  show ?thesis
  proof (cases "r = - 1")
    case True
    with r(1) give_up_ok [OF r(2)] show ?thesis by (auto simp: settled_def yields_def)
  next
    case False
    have call: "yields (case c of
              Call_Failed \<Rightarrow> Inr (give_up env s e4)
            | Call_In_Progress \<Rightarrow> await_connect env hard soft s e4
            | Call_Ok \<Rightarrow> Inr (finish_socket env s e4)) (\<lambda>(a, e2). settled True e a e2 \<and> a \<noteq> Hard_Timeout)"
      using w give_up_ok [OF o4] finish_socket_ok [OF o4]
      by (cases c) (auto intro!: yields_Inr simp: settled_def split: prod.splits)
    show ?thesis unfolding r(1) Let_def prod.case c if_not_P [OF False]
      by (rule yields_bind [OF call]) (auto simp: yields_def)
  qed
qed

lemma try_addr_ok:
  assumes k: "known_call func" and t: "\<bar>hard\<bar> \<le> 2 ^ 61" "\<bar>soft\<bar> \<le> 2 ^ 61"
  shows "yields (try_addr env func hard soft ai out e)
    (\<lambda>(a, out', e'). settled (func \<noteq> None) e a e' \<and> (a = Hard_Timeout \<longrightarrow> hard \<noteq> 0))"
proof -
  obtain e1 where e1: "(if hard \<noteq> 0 then bind_res (tick env e) (\<lambda>(now, e1). bind_res (int64 (hard - now)) (\<lambda>t. Inr (t \<le> 0, e1)))
      else Inr (False, e)) = Inr (hard \<noteq> 0 \<and> hard - clock e \<le> 0, e1)" "keeps e e1"
  proof -
    obtain e1 where "tick env e = Inr (clock e, e1)" "keeps e e1" using tick_ok by blast
    moreover have "int64 (hard - clock e) = Inr (hard - clock e)"
      using t(1) clock_range [of e] by (auto simp: int64_def in_int64_def abs_if split: if_splits)
    ultimately show ?thesis using that [of e1] that [of e] by (cases "hard = 0") simp_all
  qed
  show ?thesis
  proof (cases "hard \<noteq> 0 \<and> hard - clock e \<le> 0")
    case True
    with e1 show ?thesis by (auto simp: try_addr_def settled_def yields_def)
  next
    case False
    obtain s e2 where sock: "net_socket env e1 (ai_family ai) (ai_socktype ai) (ai_protocol ai) = (s, e2)" by fastforce
    note start = try_addr_def [of env func hard soft ai out e, unfolded e1(1) bind_res_Inr prod.case sock Let_def]
    show ?thesis
    proof (cases "s < 0")
      case True
      then have "keeps e1 e2" using socket_law [OF sock] by (simp add: keeps_def)
      then show ?thesis unfolding start using True False keeps_trans [OF e1(2)] by (auto simp: settled_def yields_def)
    next
      case nn: False
      have o: "owns False e e2 s" using owns_start [OF e1(2) owns_new [OF sock]] nn by simp
      have big: "s < 1024 \<or> oversized" using sock unfolding oversized_def by (metis fst_conv not_less)
      show ?thesis
      proof (cases func)
        case None
        then show ?thesis unfolding start using False nn o by (auto simp: settled_def yields_def)
      next
        case (Some f)
        from called_ok [OF o big k [unfolded Some] t, of "fill_out out ai" "ai_addr ai" "ai_addrlen ai"]
        have "yields (try_addr env func hard soft ai out e) (\<lambda>(a, out', e5). settled True e a e5 \<and> a \<noteq> Hard_Timeout)"
          unfolding start Let_def using Some False nn by (auto simp only: if_False option.case)
        then show ?thesis using Some by (auto simp: yields_def)
      qed
    qed
  qed
qed

lemma try_addrs_ok:
  assumes k: "known_call func" and t: "\<bar>hard\<bar> \<le> 2 ^ 61" "\<bar>soft\<bar> \<le> 2 ^ 61"
  shows "yields (try_addrs env func hard soft ais out e)
    (\<lambda>(a, out', e'). settled (func \<noteq> None) e a e' \<and> (a = Hard_Timeout \<longrightarrow> hard \<noteq> 0))"
proof (induction ais arbitrary: out e)
  case Nil
  show ?case by (simp add: settled_def yields_def)
next
  case (Cons ai ais)
  show ?case unfolding try_addrs.simps
  proof (rule yields_bind [OF try_addr_ok [OF k t, of ai out e]])
    fix x :: "attempt \<times> sock_out \<times> 'e"
    assume x: "case x of (a, out', e') \<Rightarrow> settled (func \<noteq> None) e a e' \<and> (a = Hard_Timeout \<longrightarrow> hard \<noteq> 0)"
    obtain a out1 e1 where x': "x = (a, out1, e1)" by (cases x)
    show "yields (case x of (a, out1, e1) \<Rightarrow>
        if a = Next_Addr then try_addrs env func hard soft ais out1 e1 else Inr (a, out1, e1))
      (\<lambda>(a, out', e'). settled (func \<noteq> None) e a e' \<and> (a = Hard_Timeout \<longrightarrow> hard \<noteq> 0))"
    proof (cases "a = Next_Addr")
      case True
      then have ke: "keeps e e1" using x x' by (simp add: settled_def)
      from Cons.IH [of out1 e1] True x' settled_start [OF ke] show ?thesis by (auto simp: yields_def)
    qed (use x x' in \<open>auto simp: yields_def\<close>)
  qed
qed

definition outcome :: "bool \<Rightarrow> bool \<Rightarrow> 'e \<Rightarrow> int \<Rightarrow> 'e \<Rightarrow> bool" where
  "outcome called timed e r e' \<longleftrightarrow> r = - 1 \<and> keeps e e' \<or> owns called e e' r \<or>
     timed \<and> r = 0 \<and> fds e' = fds e \<and> unfreed e' = Suc (unfreed e)"

lemma deadline_ok:
  assumes "\<bar>hardto\<bar> \<le> 2 ^ 60"
  shows "\<exists>hard e1. (if hardto \<noteq> 0 then bind_res (tick env e) (\<lambda>(now, e1). bind_res (int64 (now + hardto)) (\<lambda>t. Inr (t, e1)))
      else Inr (0, e)) = Inr (hard, e1) \<and> keeps e e1 \<and> \<bar>hard\<bar> \<le> 2 ^ 61 \<and> hard = (if hardto \<noteq> 0 then clock e + hardto else 0)"
proof -
  obtain e1 where "tick env e = Inr (clock e, e1)" "keeps e e1" using tick_ok by blast
  moreover have "int64 (clock e + hardto) = Inr (clock e + hardto)"
    using assms clock_range [of e] by (auto simp: int64_def in_int64_def abs_if split: if_splits)
  moreover have "\<bar>clock e + hardto\<bar> \<le> 2 ^ 61" using assms clock_range [of e] by (simp add: abs_if split: if_splits)
  ultimately show ?thesis by (cases "hardto = 0") auto
qed

lemma mksocket_ok:
  assumes k: "known_call func" and t: "\<bar>soft\<bar> \<le> 2 ^ 61" "\<bar>hardto\<bar> \<le> 2 ^ 60"
    and sv: "cstr_at service 0 sv" "list_all (\<lambda>c. 0 \<le> sint c) sv"
  shows "yields (addr_mksocket env host service st fl func out soft hardto e)
    (\<lambda>(r, out', e'). outcome (func \<noteq> None) (hardto \<noteq> 0) e r e')"
proof -
  obtain hard e1 where h: "(if hardto \<noteq> 0 then bind_res (tick env e) (\<lambda>(now, e1). bind_res (int64 (now + hardto)) (\<lambda>t. Inr (t, e1)))
      else Inr (0, e)) = Inr (hard, e1)" "keeps e e1" "\<bar>hard\<bar> \<le> 2 ^ 61" "hard \<noteq> 0 \<longrightarrow> hardto \<noteq> 0"
    using deadline_ok [OF t(2), of e] by (metis (lifting))
  obtain numeric where n: "isdigitstr service 0 = Inr numeric" using isdigitstr_ok [OF sv] by blast
  obtain ans e2 where g: "net_getaddrinfo env e1 host sv st (if numeric then fl OR ai_numericserv else fl) = (ans, e2)" by fastforce
  note law = getaddrinfo_law [OF g]
  note start = addr_mksocket_def [of env host service st fl func out soft hardto e,
      unfolded h(1) bind_res_Inr prod.case n read_cstr_ok [OF sv(1)] Let_def g]
  show ?thesis
  proof (cases "ans = None \<or> ans = Some []")
    case True
    then show ?thesis unfolding start using law h(2) by (auto simp: outcome_def keeps_def yields_def)
  next
    case False
    then obtain ais where ais: "ans = Some ais" "ais \<noteq> []" by auto
    have two: "fds e2 = fds e" "unfreed e2 = Suc (unfreed e)" using law ais h(2) by (auto simp: keeps_def)
    have "yields (bind_res (try_addrs env func hard soft ais out e2) (\<lambda>(a, out1, e3).
        Inr (case a of
               Hard_Timeout \<Rightarrow> (0, out1, e3)
             | Next_Addr \<Rightarrow> (- 1, out1, net_freeaddrinfo env e3)
             | Got sck \<Rightarrow> (sck, out1, net_freeaddrinfo env e3))))
      (\<lambda>(r, out', e'). outcome (func \<noteq> None) (hardto \<noteq> 0) e r e')"
    proof (rule yields_bind [OF try_addrs_ok [OF k h(3) t(1), of ais out e2]])
      fix x :: "attempt \<times> sock_out \<times> 'e"
      assume x: "case x of (a, out', e') \<Rightarrow> settled (func \<noteq> None) e2 a e' \<and> (a = Hard_Timeout \<longrightarrow> hard \<noteq> 0)"
      obtain a out1 e3 where x': "x = (a, out1, e3)" by (cases x)
      show "yields (case x of (a, out1, e3) \<Rightarrow> Inr (case a of
               Hard_Timeout \<Rightarrow> (0, out1, e3)
             | Next_Addr \<Rightarrow> (- 1, out1, net_freeaddrinfo env e3)
             | Got sck \<Rightarrow> (sck, out1, net_freeaddrinfo env e3)))
        (\<lambda>(r, out', e'). outcome (func \<noteq> None) (hardto \<noteq> 0) e r e')"
        using x x' two h(4) freeaddrinfo_law [of e3]
        by (cases a) (auto simp: outcome_def settled_def keeps_def owns_def yields_def)
    qed
    then show ?thesis unfolding start using ais by simp
  qed
qed

text \<open>A hard timeout that passes while the addresses are looked up: the list is not freed, and the result is 0.\<close>

lemma hard_timeout_leak:
  assumes t: "\<bar>hardto\<bar> \<le> 2 ^ 60" "hardto \<noteq> 0" and sv: "cstr_at service 0 sv" "list_all (\<lambda>c. 0 \<le> sint c) sv"
    and late: "\<And>fl e1. snd (env_now (net_wait env) e) = e1 \<Longrightarrow>
      \<exists>ais e2. net_getaddrinfo env e1 host sv st fl = (Some ais, e2) \<and> ais \<noteq> [] \<and> clock e + hardto \<le> clock e2"
    and nz: "clock e + hardto \<noteq> 0"
  shows "\<exists>e'. addr_mksocket env host service st fl func out soft hardto e = Inr (0, out, e') \<and>
    fds e' = fds e \<and> unfreed e' = Suc (unfreed e)"
proof -
  obtain t0 e1 where now0: "env_now (net_wait env) e = (t0, e1)" by fastforce
  with now_law [OF now0] stamp [of e] have tk: "tick env e = Inr (clock e, e1)" "keeps e e1" by (auto simp: tick_def keeps_def)
  have i: "int64 (clock e + hardto) = Inr (clock e + hardto)"
    using t(1) clock_range [of e] by (auto simp: int64_def in_int64_def abs_if split: if_splits)
  obtain numeric where n: "isdigitstr service 0 = Inr numeric" using isdigitstr_ok [OF sv] by blast
  let ?fl = "if numeric then fl OR ai_numericserv else fl"
  obtain ais e2 where g: "net_getaddrinfo env e1 host sv st ?fl = (Some ais, e2)" "ais \<noteq> []" "clock e + hardto \<le> clock e2"
    using late [of e1 ?fl] now0 by auto
  then obtain ai rest where ais: "ais = ai # rest" by (cases ais) auto
  obtain e3 where e3: "tick env e2 = Inr (clock e2, e3)" "keeps e2 e3" using tick_ok by blast
  have j: "int64 (clock e + hardto - clock e2) = Inr (clock e + hardto - clock e2)"
    using t(1) clock_range [of e] clock_range [of e2] by (auto simp: int64_def in_int64_def abs_if split: if_splits)
  have "try_addr env func (clock e + hardto) soft ai out e2 = Inr (Hard_Timeout, out, e3)"
    using nz g(3) e3(1) j by (simp add: try_addr_def)
  then have "try_addrs env func (clock e + hardto) soft ais out e2 = Inr (Hard_Timeout, out, e3)" by (simp add: ais)
  moreover have "fds e3 = fds e" "unfreed e3 = Suc (unfreed e)"
    using getaddrinfo_law [OF g(1)] g(2) tk(2) e3(2) by (simp_all add: keeps_def)
  ultimately show ?thesis
    using t(2) tk(1) i n read_cstr_ok [OF sv(1)] g(1,2) by (simp add: addr_mksocket_def Let_def)
qed

lemma set_broadcast_ok:
  assumes "owns True e e1 s"
  shows "\<exists>s2 e2. set_broadcast env s e1 = (s2, e2) \<and> (s2 = - 1 \<and> keeps e e2 \<or> s2 = s \<and> owns True e e2 s)"
proof -
  obtain ok e2 where so: "net_setsockopt env e1 s SO_BROADCAST = (ok, e2)" by fastforce
  from setsockopt_law [OF so] assms close_law [of e2 s] so show ?thesis
    by (cases ok) (auto simp: set_broadcast_def owns_def keeps_def fun_upd_idem)
qed

lemma bind_dgram_ok:
  assumes t: "\<bar>soft\<bar> \<le> 2 ^ 61" "hardto = 0" and sv: "cstr_at service 0 sv" "list_all (\<lambda>c. 0 \<le> sint c) sv"
  shows "yields (addr_bind_socket_dgram env localif service bc ra out soft hardto e)
    (\<lambda>(r, out', e'). outcome True False e r e')"
proof -
  have "known_call (Some (net_bind env))" "\<bar>hardto\<bar> \<le> 2 ^ 60" using t(2) by (simp_all add: known_call_def)
  note mk = mksocket_ok [OF this(1) t(1) this(2) sv, of localif sock_dgram "ai_addrconfig OR ai_passive" out e]
  show ?thesis unfolding addr_bind_socket_dgram_def
  proof (rule yields_bind [OF mk])
    fix x :: "int \<times> sock_out \<times> 'e"
    assume x: "case x of (r, out', e') \<Rightarrow> outcome (Some (net_bind env) \<noteq> None) (hardto \<noteq> 0) e r e'"
    obtain s out1 e1 where x': "x = (s, out1, e1)" by (cases x)
    with x t(2) have m: "s = - 1 \<and> keeps e e1 \<or> owns True e e1 s" by (auto simp: outcome_def)
    obtain s1 e2 where b: "(if 0 \<le> s \<and> bc then set_broadcast env s e1 else (s, e1)) = (s1, e2)" by fastforce
    have o1: "s1 = - 1 \<and> keeps e e2 \<or> owns True e e2 s1"
    proof (cases "0 \<le> s \<and> bc")
      case True
      with m have "owns True e e1 s" by auto
      from set_broadcast_ok [OF this] b True show ?thesis by auto
    qed (use m b in auto)
    show "yields (case x of (s, out1, e1) \<Rightarrow>
        let (s1, e2) = (if 0 \<le> s \<and> bc then set_broadcast env s e1 else (s, e1));
         (s2, e3) =
           (if 0 \<le> s1 \<and> ra then
              (let (s2, e3) = set_broadcast env s1 e2; (ok, e4) = net_setsockopt env e3 s2 SO_REUSEADDR in (s2, e4))
            else (s1, e2)) in
        Inr (s2, out1, e3)) (\<lambda>(r, out', e'). outcome True False e r e')"
    proof (cases "0 \<le> s1 \<and> ra")
      case True
      with o1 have "owns True e e2 s1" by auto
      from set_broadcast_ok [OF this] obtain s2 e3 where s2: "set_broadcast env s1 e2 = (s2, e3)"
        "s2 = - 1 \<and> keeps e e3 \<or> owns True e e3 s2" by auto
      obtain ok e4 where so: "net_setsockopt env e3 s2 SO_REUSEADDR = (ok, e4)" by fastforce
      have "keeps e3 e4" using setsockopt_law [OF so] by (simp add: keeps_def)
      with s2(2) have "s2 = - 1 \<and> keeps e e4 \<or> owns True e e4 s2" using keeps_trans owns_keeps by blast
      then show ?thesis using True x' b s2(1) so by (simp add: outcome_def yields_def)
    next
      case False
      then show ?thesis using x' b o1 by (auto simp: outcome_def yields_def)
    qed
  qed
qed

end

section \<open>A small network\<close>

text \<open>
  A system with room for one socket, with a given descriptor, and a lookup that yields one address after some time.
  Connecting succeeds later, when the socket becomes writable. The clock stops at its limit.
\<close>

record demo_net =
  dn_fds :: "int \<rightharpoonup> int"
  dn_lists :: nat
  dn_clock :: int

definition demo_time :: "demo_net \<Rightarrow> int" where
  "demo_time e = max 0 (min (dn_clock e) (2 ^ 60))"

definition later :: "int \<Rightarrow> demo_net \<Rightarrow> demo_net" where
  "later us e = e\<lparr>dn_clock := demo_time e + max 0 us\<rparr>"

definition demo_ai :: addr_info where
  "demo_ai = \<lparr>ai_family = 2, ai_socktype = 1, ai_protocol = 6, ai_addr = replicate 16 0, ai_addrlen = 16\<rparr>"

definition demo_wait :: "demo_net sel_env" where
  "demo_wait = \<lparr>env_select = (\<lambda>e r w x tv. (Sel 1 r w x, later 100 e)), env_now = (\<lambda>e. (Some (tv_of (demo_time e)), e))\<rparr>"

definition demo_env :: "int \<Rightarrow> int \<Rightarrow> bool \<Rightarrow> demo_net net_env" where
  "demo_env fd lookup_us slow =
     \<lparr>net_wait = demo_wait,
      net_getaddrinfo = (\<lambda>e h v st fl. (Some [demo_ai], later lookup_us (e\<lparr>dn_lists := Suc (dn_lists e)\<rparr>))),
      net_freeaddrinfo = (\<lambda>e. e\<lparr>dn_lists := dn_lists e - 1\<rparr>),
      net_socket = (\<lambda>e fam st pr. if 0 \<le> fd \<and> dn_fds e fd = None then (fd, e\<lparr>dn_fds := (dn_fds e)(fd \<mapsto> 2)\<rparr>) else (- 1, e)),
      net_getfl = (\<lambda>e s. (case dn_fds e s of None \<Rightarrow> - 1 | Some fl \<Rightarrow> fl, e)),
      net_setfl = (\<lambda>e s fl. (0, e\<lparr>dn_fds := (dn_fds e)(s \<mapsto> fl)\<rparr>)),
      net_connect = (\<lambda>e s ad al. (if slow then Call_In_Progress else Call_Ok, e)),
      net_bind = (\<lambda>e s ad al. (Call_Ok, e)),
      net_getsockopt = (\<lambda>e s. (Some 0, e)),
      net_setsockopt = (\<lambda>e s opt. (opt = SO_BROADCAST, e)),
      net_close = (\<lambda>e s. e\<lparr>dn_fds := (dn_fds e)(s := None)\<rparr>)\<rparr>"

lemma demo_time_later [simp]:
  "demo_time (e\<lparr>dn_lists := n\<rparr>) = demo_time e" "demo_time (e\<lparr>dn_fds := f\<rparr>) = demo_time e"
  "dn_fds (later us e) = dn_fds e" "dn_lists (later us e) = dn_lists e"
  by (simp_all add: demo_time_def later_def)

lemma demo_time_mono: "demo_time e \<le> demo_time (later us e)"
  by (auto simp: demo_time_def later_def)

interpretation small: network "demo_env fd lookup_us slow" dn_fds dn_lists demo_time "\<lambda>_. 0"
proof
  fix e show "0 \<le> demo_time e \<and> demo_time e \<le> 2 ^ 60" by (simp add: demo_time_def)
qed (auto simp: demo_env_def demo_wait_def demo_time_mono split: if_splits)

lemma port_str_ok:
  assumes "port < 2 ^ 16"
  shows "cstr_at (port_str port) 0 (dec port)" and "list_all (\<lambda>c. 0 \<le> sint c) (dec port)"
proof -
  have len: "length (dec port) \<le> 5" using length_dec [of 5 port] assms by simp
  then have "port_str port = map Val (dec port @ [0]) @ drop (length (dec port) + 1) (replicate 6 Undef)"
    by (simp add: port_str_def fill_def)
  then show "cstr_at (port_str port) 0 (dec port)" using cstr_at_map [of "dec port" "[]"] dec_chars(1) [of port] by simp
  have "0 \<le> sint c" if "is_digit c" for c
  proof -
    from that have "c < 2 ^ 7" by (simp add: is_digit_def word_less_nat_alt)
    then have "\<not> bit c 7" by (metis bit_take_bit_iff less_irrefl_nat less_mask_eq take_bit_eq_mask)
    then show ?thesis by (simp add: sint_uint signed_take_bit_nonnegative_iff bit_uint_iff)
  qed
  then show "list_all (\<lambda>c. 0 \<le> sint c) (dec port)" using dec_digits [of port] by (auto simp: list_all_iff)
qed

section \<open>Properties\<close>


text \<open>All descriptors of the small network are small.\<close>

lemma demo_descriptors: "fd < 1024 \<Longrightarrow> \<not> 1024 \<le> fst (net_socket (demo_env fd us slow) e1 fam ty pr)"
  by (simp add: demo_env_def)


text \<open>
  The exception is there: on a system whose next descriptor is 1024, waiting for a connection in progress
  puts it into a descriptor set.
\<close>

theorem addr_mksocket_large_descriptor:
  "addr_mksocket (demo_env 1024 5 True) None [Val 56, Val 48, Val 0] sock_stream 0 (Some (net_connect (demo_env 1024 5 True)))
      (None, None) 0 0 \<lparr>dn_fds = Map.empty, dn_lists = 0, dn_clock = 7\<rparr> = Inl Out_Of_Bounds"
proof -
  let ?env = "demo_env 1024 5 True"
  have serv: "isdigitstr [Val 56, Val 48, Val 0] 0 = Inr True" "read_cstr [Val 56, Val 48, Val 0] = Inr [56, 48]"
    using isdigitstr_ok [of "[Val 56, Val 48, Val 0]" 0 "[56, 48]"] by simp_all
  have "select_body (net_wait ?env) ([], [1024], []) 0 False True e = Inl Out_Of_Bounds" for e
    by (simp add: select_body_def fd_set_def)
  then have "io_select1w (net_wait ?env) e 1024 0 True = Inl Out_Of_Bounds" for e
    by (simp add: io_select1w_def io_select_def c_loop_fault)
  moreover have "connect_wait ?env 0 0 e = Inr (Some 0, e)" for e by (simp add: connect_wait_def)
  ultimately have await: "await_connect ?env 0 0 1024 e = Inl Out_Of_Bounds" for e by (simp add: await_connect_def)
  have "try_addr ?env (Some (net_connect ?env)) 0 0 demo_ai (None, None) e = Inl Out_Of_Bounds" if "dn_fds e 1024 = None" for e
    using that await by (simp add: try_addr_def setblocking_def) (simp add: demo_env_def setblocking_def)
  then show ?thesis by (simp add: addr_mksocket_def serv Let_def) (simp add: demo_env_def)
qed

text \<open>
  when the hard timeout passes while the addresses are looked up, \<open>addr_mksocket\<close> returns 0, which is
  a valid descriptor but not one of its own, and the list of addresses is never freed.
\<close>

theorem addr_mksocket_hard_timeout:
  assumes "network env fds unfreed clock upsets" and "0 < hardto" and "hardto \<le> 2 ^ 60"
    and "cstr_at service 0 sv" and "list_all (\<lambda>c. 0 \<le> sint c) sv"
    and "\<forall>fl e1. snd (env_now (net_wait env) e) = e1 \<longrightarrow>
      (\<exists>ais e2. net_getaddrinfo env e1 host sv st fl = (Some ais, e2) \<and> ais \<noteq> [] \<and> clock e + hardto \<le> clock e2)"
  shows "\<exists>e'. addr_mksocket env host service st fl func out soft hardto e = Inr (0, out, e') \<and>
    fds e' = fds e \<and> unfreed e' = Suc (unfreed e)"
proof (rule network.hard_timeout_leak [OF assms(1) _ _ assms(4,5)])
  show "\<bar>hardto\<bar> \<le> 2 ^ 60" "hardto \<noteq> 0" using assms(2,3) by simp_all
  show "clock e + hardto \<noteq> 0" using network.clock_range [OF assms(1), of e] assms(2) by linarith
qed (use assms(6) in blast)

theorem addr_mksocket_hard_timeout_witness:
  "\<exists>e'. addr_mksocket (demo_env 3 900 False) None [Val 56, Val 48, Val 0] sock_stream 0 None (None, None) 0 500
      \<lparr>dn_fds = Map.empty, dn_lists = 0, dn_clock = 7\<rparr> = Inr (0, (None, None), e') \<and> dn_fds e' = Map.empty \<and> dn_lists e' = 1"
proof -
  let ?e = "\<lparr>dn_fds = Map.empty, dn_lists = 0, dn_clock = 7\<rparr>"
  have "\<forall>fl e1. snd (env_now (net_wait (demo_env 3 900 False)) ?e) = e1 \<longrightarrow>
      (\<exists>ais e2. net_getaddrinfo (demo_env 3 900 False) e1 None [56, 48] sock_stream fl = (Some ais, e2) \<and> ais \<noteq> [] \<and>
        demo_time ?e + 500 \<le> demo_time e2)"
    by (simp add: demo_env_def demo_wait_def later_def demo_time_def)
  from addr_mksocket_hard_timeout [OF small.network_axioms _ _ _ _ this, of "[Val 56, Val 48, Val 0]" 0 None "(None, None)" 0]
  show ?thesis by simp
qed

text \<open>
  the time \<open>addr_mksocket\<close> waits for a connection stays within the hard deadline and the soft timeout,
  if there is a hard timeout and the clock is not set back meanwhile. Without one the soft timeout has no effect: the wait is never limited.
\<close>

theorem connect_wait_limits:
  assumes "network env fds unfreed clock upsets" and "\<bar>hardtsend\<bar> \<le> 2 ^ 62" and "0 < soft" and "soft \<le> 2 ^ 61"
  shows "\<exists>w e'. connect_wait env hardtsend soft e = Inr (w, e') \<and> fds e' = fds e \<and> unfreed e' = unfreed e \<and>
    (case w of None \<Rightarrow> True
     | Some t \<Rightarrow> if hardtsend = 0 then t = 0 else 0 < t \<and> t \<le> hardtsend - clock e \<and> (t \<le> soft \<or> upsets e' < upsets e))"
proof -
  have "\<bar>soft\<bar> \<le> 2 ^ 61" using assms(3,4) by simp
  from network.connect_wait_ok [OF assms(1,2) this, of e] obtain w e' where
    "connect_wait env hardtsend soft e = Inr (w, e')" "fds e' = fds e" "unfreed e' = unfreed e"
    "hardtsend = 0 \<longrightarrow> w = None \<or> w = Some 0"
    "\<forall>t. hardtsend \<noteq> 0 \<and> w = Some t \<longrightarrow> 0 < t \<and> t \<le> hardtsend - clock e \<and> (0 < soft \<longrightarrow> t \<le> soft \<or> upsets e' < upsets e)"
    unfolding network.keeps_def [OF assms(1)] by blast
  with assms(3) show ?thesis by (intro exI [of _ w] exI [of _ e']) (auto split: option.splits)
qed

theorem connect_wait_limits_witness:
  "\<exists>w e'. connect_wait (demo_env 3 5 True) 0 300 \<lparr>dn_fds = Map.empty, dn_lists = 0, dn_clock = 7\<rparr> = Inr (w, e') \<and>
     (w = None \<or> w = Some 0)"
  using connect_wait_limits [OF small.network_axioms, of 0 300 3 5 True "\<lparr>dn_fds = Map.empty, dn_lists = 0, dn_clock = 7\<rparr>"]
  by (auto split: option.splits intro: option.exhaust)

text \<open>
  \<open>addr_bind_socket_dgram_p\<close> without a hard timeout, for any port: whatever options are asked for and
  whichever of them fails, the socket is either returned open and in blocking mode or closed again
  (with the exception of \<open>addr_mksocket\<close>).
\<close>

theorem addr_bind_dgram_no_leak:
  assumes "network env fds unfreed clock upsets" and "port < 2 ^ 16" and "\<bar>soft\<bar> \<le> 2 ^ 61"
  shows "(\<exists>r out' e'. addr_bind_socket_dgram_p env localif port bc ra out soft 0 e = Inr (r, out', e') \<and>
    unfreed e' = unfreed e \<and>
    (r = - 1 \<and> fds e' = fds e \<or>
     0 \<le> r \<and> fds e r = None \<and> (\<exists>opts. fds e' = (fds e)(r \<mapsto> opts) \<and> opts AND o_nonblock = 0))) \<or>
    addr_bind_socket_dgram_p env localif port bc ra out soft 0 e = Inl Out_Of_Bounds \<and>
    (\<exists>e1 fam ty pr. 1024 \<le> fst (net_socket env e1 fam ty pr))"
proof -
  note net = assms(1)
  from network.bind_dgram_ok [OF net assms(3) refl port_str_ok [OF assms(2)], of localif bc ra out e] show ?thesis
    unfolding addr_bind_socket_dgram_p_def network.yields_def [OF net] network.oversized_def [OF net]
      network.outcome_def [OF net] network.keeps_def [OF net] network.owns_def [OF net] blocking_def
    by auto
qed

theorem addr_bind_dgram_no_leak_witness:
  "\<exists>r out' e'. addr_bind_socket_dgram_p (demo_env 3 5 False) None 53 True True (None, None) 0 0
      \<lparr>dn_fds = Map.empty, dn_lists = 0, dn_clock = 7\<rparr> = Inr (r, out', e') \<and> dn_lists e' = 0"
  using addr_bind_dgram_no_leak [OF small.network_axioms, of 53 0 3 5 False None True True "(None, None)"
      "\<lparr>dn_fds = Map.empty, dn_lists = 0, dn_clock = 7\<rparr>"] demo_descriptors [of 3 5 False] by auto

end
