(* ===== verification/Log.thy ===== *)
theory Log imports HostSpec begin

text \<open>
  log.c: messages with a severity, to the standard error stream or to syslog. A text is a list of
  characters. What the C library makes of a format and its arguments is the parameter \<open>expand\<close>, \<open>strerr\<close> is
  \<open>strerror_r\<close>. The state of the connection to syslog is kept by the C library: \<open>openlog\<close> and \<open>closelog\<close> are
  recorded as the calls they are.
\<close>

section \<open>The code\<close>

datatype syslog_call = Openlog string int | Closelog

record log_state =
  s_open :: bool
  s_stderr :: bool
  s_lvl :: int
  s_fancy :: bool
  syslog_calls :: "syslog_call list"

definition log_start :: log_state where
  "log_start = \<lparr>s_open = False, s_stderr = True, s_lvl = 0, s_fancy = False, syslog_calls = []\<rparr>"

definition log_pid :: int where "log_pid = 1"

definition log_syslog :: "string \<Rightarrow> int \<Rightarrow> 'z log_state_scheme \<Rightarrow> 'z log_state_scheme" where
  "log_syslog ident facility s =
     s\<lparr>syslog_calls := syslog_calls s @ (if s_open s then [Closelog] else []) @ [Openlog ident facility],
       s_open := True, s_fancy := False, s_stderr := False\<rparr>"

definition log_stderr :: "'z log_state_scheme \<Rightarrow> 'z log_state_scheme" where
  "log_stderr s = s\<lparr>syslog_calls := syslog_calls s @ (if s_open s then [Closelog] else []), s_stderr := True\<rparr>"

definition log_setfancy :: "bool \<Rightarrow> 'z log_state_scheme \<Rightarrow> 'z log_state_scheme" where
  "log_setfancy fancy s = (if \<not> s_stderr s then s else s\<lparr>s_fancy := fancy\<rparr>)"

definition log_getfancy :: "'z log_state_scheme \<Rightarrow> bool" where
  "log_getfancy s \<longleftrightarrow> s_stderr s \<and> s_fancy s"

definition log_setlvl :: "int \<Rightarrow> 'z log_state_scheme \<Rightarrow> 'z log_state_scheme" where
  "log_setlvl lvl s = s\<lparr>s_lvl := lvl\<rparr>"

definition log_getlvl :: "'z log_state_scheme \<Rightarrow> int" where
  "log_getlvl s = s_lvl s"

text \<open>The severities of syslog.\<close>

definition LOG_CRIT :: int where "LOG_CRIT = 2"
definition LOG_ERR :: int where "LOG_ERR = 3"
definition LOG_WARNING :: int where "LOG_WARNING = 4"
definition LOG_NOTICE :: int where "LOG_NOTICE = 5"
definition LOG_INFO :: int where "LOG_INFO = 6"
definition LOG_DEBUG :: int where "LOG_DEBUG = 7"

definition lvlnam :: "int \<Rightarrow> string" where
  "lvlnam lvl =
     (if lvl = LOG_DEBUG then ''DBG''
      else if lvl = LOG_INFO then ''INF''
      else if lvl = LOG_NOTICE then ''NOT''
      else if lvl = LOG_WARNING then ''WRN''
      else if lvl = LOG_CRIT then ''CRT''
      else if lvl = LOG_ERR then ''ERR'' else ''???'')"

definition esc :: char where "esc = CHR 0x1B"

definition COL_REDINV :: string where "COL_REDINV = esc # ''[07;31;01m''"
definition COL_RED :: string where "COL_RED = esc # ''[31;01m''"
definition COL_YELLOW :: string where "COL_YELLOW = esc # ''[33;01m''"
definition COL_GREEN :: string where "COL_GREEN = esc # ''[32;01m''"
definition COL_WHITE :: string where "COL_WHITE = esc # ''[37;01m''"
definition COL_WHITEINV :: string where "COL_WHITEINV = esc # ''[07;37;01m''"
definition COL_GRAY :: string where "COL_GRAY = esc # ''[30;01m''"
definition COL_RST :: string where "COL_RST = esc # ''[0m''"

definition lvlcol :: "int \<Rightarrow> string" where
  "lvlcol lvl =
     (if lvl = LOG_DEBUG then COL_GRAY
      else if lvl = LOG_INFO then COL_WHITE
      else if lvl = LOG_NOTICE then COL_GREEN
      else if lvl = LOG_WARNING then COL_YELLOW
      else if lvl = LOG_ERR then COL_RED
      else if lvl = LOG_CRIT then COL_REDINV else COL_WHITEINV)"

text \<open>What \<open>%d\<close> prints.\<close>

definition show_int :: "int \<Rightarrow> string" where
  "show_int i = (if i < 0 then ''-'' else []) @ map (\<lambda>c. char_of (unat c)) (dec (nat \<bar>i\<bar>))"

text \<open>The message of an error number, in an array of 256 behind a colon and a space; none if it is negative.\<close>

definition err_text :: "(int \<Rightarrow> string) \<Rightarrow> int \<Rightarrow> string" where
  "err_text strerr errn = (if 0 \<le> errn then '': '' @ take 253 (strerr errn) else [])"

text \<open>
  The format that is put together in the array of 4096 bytes, cut to what fits, and is then expanded with
  the arguments of the caller.
\<close>

definition stderr_format :: "string \<Rightarrow> bool \<Rightarrow> int \<Rightarrow> string \<Rightarrow> int \<Rightarrow> string \<Rightarrow> string \<Rightarrow> string \<Rightarrow> string" where
  "stderr_format before fancy lvl file_name line func fmt errmsg =
     take 4095 ((if fancy then lvlcol lvl else []) @ before @ lvlnam lvl @ '': '' @ file_name @ '':'' @ show_int line @ '':'' @
       func @ ''(): '' @ fmt @ errmsg @ (if fancy then COL_RST else []) @ [CHR 0x0A])"

definition syslog_format :: "string \<Rightarrow> int \<Rightarrow> string \<Rightarrow> string \<Rightarrow> string \<Rightarrow> string" where
  "syslog_format file_name line func fmt errmsg =
     take 4095 (file_name @ '':'' @ show_int line @ '':'' @ func @ ''(): '' @ fmt @ errmsg)"

datatype log_out = To_Stderr string | To_Syslog int string

definition log_log ::
  "(string \<Rightarrow> string) \<Rightarrow> (int \<Rightarrow> string) \<Rightarrow> log_state \<Rightarrow> int \<Rightarrow> int \<Rightarrow> string \<Rightarrow> int \<Rightarrow> string \<Rightarrow> string \<Rightarrow> log_out option" where
  "log_log expand strerr s lvl errn file_name line func fmt =
     (if s_lvl s < lvl then None
      else Some
        (let errmsg = err_text strerr errn in
         if s_stderr s then To_Stderr (expand (stderr_format [] (s_fancy s) lvl file_name line func fmt errmsg))
         else To_Syslog lvl (expand (syslog_format file_name line func fmt errmsg))))"

section \<open>The macros of log.h\<close>

text \<open>
  They add the severity and, with an \<open>E\<close> at the end, the error number; the place in the source is an argument
  here. The macros for critical messages also leave the program.
\<close>

definition log_D where "log_D expand strerr s file_name line func fmt = log_log expand strerr s LOG_DEBUG (- 1) file_name line func fmt"
definition log_DE where "log_DE expand strerr s errno file_name line func fmt = log_log expand strerr s LOG_DEBUG errno file_name line func fmt"
definition log_I where "log_I expand strerr s file_name line func fmt = log_log expand strerr s LOG_INFO (- 1) file_name line func fmt"
definition log_IE where "log_IE expand strerr s errno file_name line func fmt = log_log expand strerr s LOG_INFO errno file_name line func fmt"
definition log_N where "log_N expand strerr s file_name line func fmt = log_log expand strerr s LOG_NOTICE (- 1) file_name line func fmt"
definition log_NE where "log_NE expand strerr s errno file_name line func fmt = log_log expand strerr s LOG_NOTICE errno file_name line func fmt"
definition log_W where "log_W expand strerr s file_name line func fmt = log_log expand strerr s LOG_WARNING (- 1) file_name line func fmt"
definition log_WE where "log_WE expand strerr s errno file_name line func fmt = log_log expand strerr s LOG_WARNING errno file_name line func fmt"
definition log_E where "log_E expand strerr s file_name line func fmt = log_log expand strerr s LOG_ERR (- 1) file_name line func fmt"
definition log_EE where "log_EE expand strerr s errno file_name line func fmt = log_log expand strerr s LOG_ERR errno file_name line func fmt"

definition log_C :: "(string \<Rightarrow> string) \<Rightarrow> (int \<Rightarrow> string) \<Rightarrow> log_state \<Rightarrow> string \<Rightarrow> int \<Rightarrow> string \<Rightarrow> string \<Rightarrow> log_out option \<times> unit res" where
  "log_C expand strerr s file_name line func fmt = (log_log expand strerr s LOG_CRIT (- 1) file_name line func fmt, Inl (Exits 1))"

definition log_CE :: "(string \<Rightarrow> string) \<Rightarrow> (int \<Rightarrow> string) \<Rightarrow> log_state \<Rightarrow> int \<Rightarrow> string \<Rightarrow> int \<Rightarrow> string \<Rightarrow> string \<Rightarrow> log_out option \<times> unit res" where
  "log_CE expand strerr s errno file_name line func fmt = (log_log expand strerr s LOG_CRIT errno file_name line func fmt, Inl (Exits 1))"

text \<open>A state that shows the messages of one macro shows those of every more severe one.\<close>

lemma log_macros_ordered:
  "log_D e r s f l fn x \<noteq> None \<Longrightarrow> log_I e r s f l fn x \<noteq> None"
  "log_I e r s f l fn x \<noteq> None \<Longrightarrow> log_N e r s f l fn x \<noteq> None"
  "log_N e r s f l fn x \<noteq> None \<Longrightarrow> log_W e r s f l fn x \<noteq> None"
  "log_W e r s f l fn x \<noteq> None \<Longrightarrow> log_E e r s f l fn x \<noteq> None"
  "log_E e r s f l fn x \<noteq> None \<Longrightarrow> fst (log_C e r s f l fn x) \<noteq> None"
  by (auto simp: log_D_def log_I_def log_N_def log_W_def log_E_def log_C_def log_log_def LOG_DEBUG_def LOG_INFO_def LOG_NOTICE_def
      LOG_WARNING_def LOG_ERR_def LOG_CRIT_def split: if_splits)

section \<open>The states a program can bring the log into\<close>

datatype log_op = Syslog string int | Stderr | Set_Fancy bool | Set_Level int

inductive log_step :: "'z log_state_scheme \<Rightarrow> log_op \<Rightarrow> 'z log_state_scheme \<Rightarrow> bool" where
  to_syslog: "log_step s (Syslog ident fac) (log_syslog ident fac s)"
| to_stderr: "log_step s Stderr (log_stderr s)"
| set_fancy: "log_step s (Set_Fancy b) (log_setfancy b s)"
| set_level: "log_step s (Set_Level l) (log_setlvl l s)"

code_pred log_step .

inductive_cases log_stepE: "log_step s op s'"

inductive_simps log_step_simps [simp]:
  "log_step s (Syslog ident fac) s'" "log_step s Stderr s'" "log_step s (Set_Fancy b) s'" "log_step s (Set_Level l) s'"

inductive log_reach :: "'z log_state_scheme \<Rightarrow> 'z log_state_scheme \<Rightarrow> bool" for s0 where
  start: "log_reach s0 s0"
| step: "log_reach s0 s \<Longrightarrow> log_step s op s' \<Longrightarrow> log_reach s0 s'"

text \<open>
  The connection to syslog after a sequence of calls, and that none of them opens it while it is open.
\<close>

fun conn_after :: "bool \<Rightarrow> syslog_call list \<Rightarrow> bool" where
  "conn_after b [] = b"
| "conn_after b (Openlog ident fac # cs) = conn_after True cs"
| "conn_after b (Closelog # cs) = conn_after False cs"

fun no_reopen :: "bool \<Rightarrow> syslog_call list \<Rightarrow> bool" where
  "no_reopen b [] \<longleftrightarrow> True"
| "no_reopen b (Openlog ident fac # cs) \<longleftrightarrow> \<not> b \<and> no_reopen True cs"
| "no_reopen b (Closelog # cs) \<longleftrightarrow> no_reopen False cs"

lemma conn_after_append: "conn_after b (cs @ ds) = conn_after (conn_after b cs) ds"
  by (induction b cs rule: conn_after.induct) auto

lemma no_reopen_append: "no_reopen b (cs @ ds) \<longleftrightarrow> no_reopen b cs \<and> no_reopen (conn_after b cs) ds"
  by (induction b cs rule: no_reopen.induct) auto

definition log_inv :: "'z log_state_scheme \<Rightarrow> bool" where
  "log_inv s \<longleftrightarrow> (s_fancy s \<longrightarrow> s_stderr s) \<and> no_reopen False (syslog_calls s) \<and>
     (conn_after False (syslog_calls s) \<longrightarrow> s_open s) \<and> (\<not> s_stderr s \<longrightarrow> conn_after False (syslog_calls s))"

lemmas log_ops = log_syslog_def log_stderr_def log_setfancy_def log_setlvl_def

lemma log_inv_ops:
  "log_inv s \<Longrightarrow> log_inv (log_syslog ident fac s)" "log_inv s \<Longrightarrow> log_inv (log_stderr s)"
  "log_inv s \<Longrightarrow> log_inv (log_setfancy b s)" "log_inv s \<Longrightarrow> log_inv (log_setlvl l s)"
  by (auto simp: log_inv_def log_ops conn_after_append no_reopen_append)

lemma log_step_inv: "log_step s op s' \<Longrightarrow> log_inv s \<Longrightarrow> log_inv s'"
  by (cases rule: log_step.cases) (auto intro: log_inv_ops)

lemma log_reach_inv: "log_reach s0 s \<Longrightarrow> log_inv s0 \<Longrightarrow> log_inv s"
  by (induction rule: log_reach.induct) (auto intro: log_step_inv)

lemma log_start_inv: "log_inv log_start"
  by (simp add: log_inv_def log_start_def)

section \<open>Properties\<close>

text \<open>
  C31: in every state that calls of the control functions can bring log.c into, colours are on only while
  messages go to the error stream; no call opens the connection to syslog while it is open; and a message
  goes to syslog only over an open connection, uncoloured. A message is dropped exactly if its level is
  above the threshold, and its format is never longer than the array it is put together in.
\<close>

theorem log_states_ok:
  assumes "log_reach log_start s"
  shows "log_getfancy s = s_fancy s \<and> no_reopen False (syslog_calls s) \<and>
    (case log_log expand strerr s lvl errn file_name line func fmt of
       None \<Rightarrow> log_getlvl s < lvl
     | Some (To_Stderr t) \<Rightarrow> lvl \<le> log_getlvl s \<and> s_stderr s \<and> (\<exists>u. t = expand u \<and> length u < 4096)
     | Some (To_Syslog l t) \<Rightarrow> lvl \<le> log_getlvl s \<and> l = lvl \<and> conn_after False (syslog_calls s) \<and> \<not> log_getfancy s \<and>
         (\<exists>u. t = expand u \<and> length u < 4096))"
proof -
  have inv: "log_inv s" using log_reach_inv [OF assms log_start_inv] .
  have "length (stderr_format before fancy lvl file_name line func fmt em) < 4096"
    "length (syslog_format file_name line func fmt em) < 4096" for before fancy em
    by (simp_all add: stderr_format_def syslog_format_def del: take_append)
  with inv show ?thesis
    by (auto simp: log_inv_def log_getfancy_def log_getlvl_def log_log_def Let_def)
qed

theorem log_states_ok_witness:
  "log_log (\<lambda>t. t) (\<lambda>_. []) (log_stderr (log_syslog ''a'' 8 (log_setlvl 7 log_start))) 3 (- 1) ''f.c'' 12 ''g'' ''x'' =
     Some (To_Stderr (''ERR: f.c:12:g(): x'' @ [CHR 0x0A])) \<and>
   \<not> log_getfancy (log_stderr (log_syslog ''a'' 8 (log_setlvl 7 log_start)))"
proof -
  let ?s = "log_stderr (log_syslog ''a'' 8 (log_setlvl 7 log_start))"
  have "log_reach log_start ?s"
    by (rule log_reach.step [where op = Stderr, OF log_reach.step [where op = "Syslog ''a'' 8",
      OF log_reach.step [where op = "Set_Level 7", OF log_reach.start]]]) simp_all
  from log_states_ok [OF this] have "log_getfancy ?s = s_fancy ?s" by blast
  then show ?thesis
    by (simp add: log_ops log_start_def log_log_def stderr_format_def err_text_def lvlnam_def show_int_def
        LOG_DEBUG_def LOG_INFO_def LOG_NOTICE_def LOG_WARNING_def LOG_CRIT_def LOG_ERR_def dec.simps char_of_def bit_0)
qed

end
