(* ===== verification/IntLog.thy ===== *)
theory IntLog imports Log StrMap begin

text \<open>
  intlog.c: the log of the library itself. It is that of log.c with a threshold for each source file, kept
  in a string map, and settings that are read from the environment before the first message. A token of a
  setting is copied to arrays of 64 bytes.
\<close>

section \<open>The code\<close>

record int_log = log_state +
  s_lvlmap :: "int smap"

definition bsnslog_start :: int_log where
  "bsnslog_start = log_state.extend log_start \<lparr>s_lvlmap = None\<rparr>\<lparr>s_lvl := - 1\<rparr>"

definition bsnslog_syslog :: "string \<Rightarrow> int \<Rightarrow> int_log \<Rightarrow> int_log" where
  "bsnslog_syslog ident facility s = log_syslog ident facility s"

definition bsnslog_stderr :: "int_log \<Rightarrow> int_log" where
  "bsnslog_stderr s = log_stderr s"

definition bsnslog_setfancy :: "bool \<Rightarrow> int_log \<Rightarrow> int_log" where
  "bsnslog_setfancy fancy s = log_setfancy fancy s"

definition bsnslog_getfancy :: "int_log \<Rightarrow> bool" where
  "bsnslog_getfancy s = log_getfancy s"

definition bsnslog_setlvl :: "int \<Rightarrow> int_log \<Rightarrow> int_log" where
  "bsnslog_setlvl lvl s = log_setlvl lvl s"

definition bsnslog_getlvl :: "int_log \<Rightarrow> int" where
  "bsnslog_getlvl s = log_getlvl s"

text \<open>The C library: \<open>isspace\<close> of a \<open>char\<close>, and \<open>strtol\<close> of a string of digits, converted to \<open>int\<close>.\<close>

definition c_isspace :: "byte \<Rightarrow> bool res" where
  "c_isspace c = (if sint c < - 1 then Inl Out_Of_Bounds else Inr (c = 32 \<or> 9 \<le> c \<and> c \<le> 13))"

definition strtol_int :: "byte list \<Rightarrow> int" where
  "strtol_int s = signed_take_bit 31 (int (min (digits_val 0 s) (2 ^ 63 - 1)))"

definition text_of :: "byte list \<Rightarrow> string" where
  "text_of s = map (\<lambda>c. char_of (unat c)) s"

definition isspace_body :: "chars \<Rightarrow> nat \<Rightarrow> (nat, nat) step res" where
  "isspace_body v sp = bind_res (arr_get v sp) (\<lambda>c. bind_res (c_isspace c) (\<lambda>b. Inr (if b then Continue (sp + 1) else Break sp)))"

text \<open>What one token, in the array \<open>tok\<close>, does to the threshold and to the map.\<close>

definition apply_token ::
  "(nat \<Rightarrow> bool) \<Rightarrow> (nat set \<Rightarrow> nat option) \<Rightarrow> chars \<Rightarrow> int \<times> int smap \<Rightarrow>
   (int \<times> int smap) res" where
  "apply_token alloc new tok = (\<lambda>(lvl, m).
     bind_res (c_strchr tok 0 61) (\<lambda>eq.
     case eq of
       None \<Rightarrow>
         bind_res (isdigitstr tok 0) (\<lambda>d.
         if d then bind_res (read_cstr tok) (\<lambda>t. Inr (strtol_int t, m)) else Inr (lvl, m))
     | Some p \<Rightarrow>
         bind_res (c_strlen tok p) (\<lambda>vlen0.
         bind_res (strNcpy (replicate 64 Undef) tok (min (p + 1) 64)) (\<lambda>nam.
         bind_res (strNcpy (replicate 64 Undef) (drop (p + 1) tok) (min vlen0 64)) (\<lambda>val.
         bind_res (isdigitstr val 0) (\<lambda>d.
         if \<not> d then Inr (lvl, m)
         else if \<not> alloc ptr_size then Inr (lvl, m)
         else
           bind_res (read_cstr val) (\<lambda>x.
           bind_res (read_cstr nam) (\<lambda>k.
           bind_res (smap_put alloc new m (Some (text_of k)) (Some (strtol_int x))) (\<lambda>m1.
           Inr (lvl, m1))))))))))"

definition settings_body ::
  "(nat \<Rightarrow> bool) \<Rightarrow> (nat set \<Rightarrow> nat option) \<Rightarrow> chars \<Rightarrow> nat \<times> chars \<times> int \<times> int smap \<Rightarrow>
   (nat \<times> chars \<times> int \<times> int smap, int \<times> int smap) step res" where
  "settings_body alloc new v = (\<lambda>(sp0, tok0, lvl, m).
     bind_res (c_loop (isspace_body v) sp0) (\<lambda>sp.
     bind_res (arr_get v sp) (\<lambda>c.
     if c = 0 then Inr (Break (lvl, m))
     else
       bind_res (c_strchr v sp 32) (\<lambda>blank.
       bind_res (case blank of Some p \<Rightarrow> Inr p | None \<Rightarrow> bind_res (c_strlen v sp) (\<lambda>n. Inr (sp + n))) (\<lambda>tend.
       bind_res (strNcpy tok0 (drop sp v) (min (tend - sp + 1) 64)) (\<lambda>tok.
       bind_res (apply_token alloc new tok (lvl, m)) (\<lambda>(lvl1, m1).
       bind_res (arr_get v tend) (\<lambda>c1.
       Inr (if c1 = 0 then Break (lvl1, m1) else Continue (tend, tok, lvl1, m1))))))))))"

text \<open>\<open>getenv\<close> yields an array with the value of a variable, or \<open>None\<close>.\<close>

definition bsnslog_init ::
  "(nat \<Rightarrow> bool) \<Rightarrow> (nat set \<Rightarrow> nat option) \<Rightarrow> (string \<Rightarrow> chars option) \<Rightarrow> int_log \<Rightarrow> int_log res" where
  "bsnslog_init alloc new getenv s0 =
     bind_res (smap_init alloc new 16) (\<lambda>m0.
     let s1 = s0\<lparr>s_lvl := LOG_ERR, s_lvlmap := m0\<rparr> in
     if m0 = None then Inr s1
     else
       bind_res
         (case getenv ''LIBSRSBSNS_DEBUG'' of
            None \<Rightarrow> Inr (LOG_ERR, m0)
          | Some v \<Rightarrow> c_loop (settings_body alloc new v) (0, replicate 64 Undef, LOG_ERR, m0)) (\<lambda>(lvl, m).
       let s2 = s1\<lparr>s_lvl := lvl, s_lvlmap := m\<rparr> in
       bind_res
         (case getenv ''LIBSRSBSNS_DEBUG_TARGET'' of
            None \<Rightarrow> Inr False
          | Some v \<Rightarrow> bind_res (read_cstr v) (\<lambda>t. Inr (text_of t = ''syslog''))) (\<lambda>to_syslog.
       let s3 = (if to_syslog then bsnslog_syslog ''libsrsbsns'' 8 s2 else bsnslog_stderr s2) in
       bind_res
         (case getenv ''LIBSRSBSNS_DEBUG_FANCY'' of
            None \<Rightarrow> Inr False
          | Some v \<Rightarrow> bind_res (arr_get v 0) (\<lambda>c. Inr (c \<noteq> 48))) (\<lambda>fancy.
       Inr (bsnslog_setfancy fancy s3)))))"

definition bsns_lvlnam :: "int \<Rightarrow> string" where
  "bsns_lvlnam lvl =
     (if lvl = LOG_DEBUG then ''DBG''
      else if lvl = LOG_INFO then ''INF''
      else if lvl = LOG_NOTICE then ''NOT''
      else if lvl = LOG_WARNING then ''WRN''
      else if lvl = LOG_ERR then ''ERR'' else ''???'')"

definition bsns_lvlcol :: "int \<Rightarrow> string" where
  "bsns_lvlcol lvl =
     (if lvl = LOG_DEBUG then COL_GRAY
      else if lvl = LOG_INFO then COL_WHITE
      else if lvl = LOG_NOTICE then COL_GREEN
      else if lvl = LOG_WARNING then COL_YELLOW
      else if lvl = LOG_ERR then COL_RED else COL_WHITEINV)"

text \<open>\<open>now\<close> is the result of \<open>ctime_r\<close>, whose line is cut at its end, or \<open>None\<close> when it fails.\<close>

definition bsns_format :: "string option \<Rightarrow> bool \<Rightarrow> int \<Rightarrow> string \<Rightarrow> int \<Rightarrow> string \<Rightarrow> string \<Rightarrow> string \<Rightarrow> string" where
  "bsns_format now fancy lvl file_name line func fmt errmsg =
     (let timebuf = takeWhile (\<lambda>c. c \<noteq> CHR 0x0A) (case now of None \<Rightarrow> ''(ctime_r() failed)'' | Some t \<Rightarrow> t) in
      take 4095 ((if fancy then bsns_lvlcol lvl else []) @ timebuf @ '': libsrsbsns: '' @ bsns_lvlnam lvl @ '': '' @ file_name @ '':'' @
        show_int line @ '':'' @ func @ ''(): '' @ fmt @ errmsg @ (if fancy then COL_RST else []) @ [CHR 0x0A]))"

definition bsnslog_log ::
  "(nat \<Rightarrow> bool) \<Rightarrow> (nat set \<Rightarrow> nat option) \<Rightarrow> (string \<Rightarrow> chars option) \<Rightarrow> string option \<Rightarrow> (string \<Rightarrow> string) \<Rightarrow> (int \<Rightarrow> string) \<Rightarrow>
   int_log \<Rightarrow> int \<Rightarrow> int \<Rightarrow> string \<Rightarrow> int \<Rightarrow> string \<Rightarrow> string \<Rightarrow> (log_out option \<times> int_log) res" where
  "bsnslog_log alloc new getenv now expand strerr s0 lvl errn file_name line func fmt =
     bind_res (if s_lvl s0 = - 1 then bsnslog_init alloc new getenv s0 else Inr s0) (\<lambda>s.
     bind_res (case s_lvlmap s of None \<Rightarrow> Inr None | Some _ \<Rightarrow> smap_get (s_lvlmap s) file_name) (\<lambda>l.
     let thr = (case l of None \<Rightarrow> s_lvl s | Some t \<Rightarrow> t); errmsg = err_text strerr errn in
     Inr (if thr < lvl then None
          else if s_stderr s then Some (To_Stderr (expand (bsns_format now (s_fancy s) lvl file_name line func fmt errmsg)))
          else Some (To_Syslog lvl (expand (syslog_format file_name line func fmt errmsg))), s)))"

text \<open>The macros of intlog.h.\<close>

definition bsns_D where "bsns_D alloc new getenv now expand strerr s file_name line func fmt =
  bsnslog_log alloc new getenv now expand strerr s LOG_DEBUG (- 1) file_name line func fmt"
definition bsns_DE where "bsns_DE alloc new getenv now expand strerr s errno file_name line func fmt =
  bsnslog_log alloc new getenv now expand strerr s LOG_DEBUG errno file_name line func fmt"
definition bsns_I where "bsns_I alloc new getenv now expand strerr s file_name line func fmt =
  bsnslog_log alloc new getenv now expand strerr s LOG_INFO (- 1) file_name line func fmt"
definition bsns_IE where "bsns_IE alloc new getenv now expand strerr s errno file_name line func fmt =
  bsnslog_log alloc new getenv now expand strerr s LOG_INFO errno file_name line func fmt"
definition bsns_N where "bsns_N alloc new getenv now expand strerr s file_name line func fmt =
  bsnslog_log alloc new getenv now expand strerr s LOG_NOTICE (- 1) file_name line func fmt"
definition bsns_NE where "bsns_NE alloc new getenv now expand strerr s errno file_name line func fmt =
  bsnslog_log alloc new getenv now expand strerr s LOG_NOTICE errno file_name line func fmt"
definition bsns_W where "bsns_W alloc new getenv now expand strerr s file_name line func fmt =
  bsnslog_log alloc new getenv now expand strerr s LOG_WARNING (- 1) file_name line func fmt"
definition bsns_WE where "bsns_WE alloc new getenv now expand strerr s errno file_name line func fmt =
  bsnslog_log alloc new getenv now expand strerr s LOG_WARNING errno file_name line func fmt"
definition bsns_E where "bsns_E alloc new getenv now expand strerr s file_name line func fmt =
  bsnslog_log alloc new getenv now expand strerr s LOG_ERR (- 1) file_name line func fmt"
definition bsns_EE where "bsns_EE alloc new getenv now expand strerr s errno file_name line func fmt =
  bsnslog_log alloc new getenv now expand strerr s LOG_ERR errno file_name line func fmt"

section \<open>What the settings mean\<close>

text \<open>
  The tokens of a text: white space of any kind is skipped before a token, but only a blank ends it. A
  number is a threshold for all files, \<open>name=number\<close> one for a single file; other tokens are ignored.
\<close>

definition wspace :: "byte \<Rightarrow> bool" where
  "wspace c \<longleftrightarrow> c = 32 \<or> 9 \<le> c \<and> c \<le> 13"

lemma upto_blank_nonempty: "dropWhile wspace s \<noteq> [] \<Longrightarrow> upto_byte 32 (dropWhile wspace s) \<noteq> []"
  using hd_dropWhile [of wspace s] by (cases "dropWhile wspace s") (auto simp: upto_byte_def wspace_def)

function tokens :: "byte list \<Rightarrow> byte list list" where
  "tokens s =
     (let t = dropWhile wspace s in if t = [] then [] else upto_byte 32 t # tokens (drop (length (upto_byte 32 t)) t))"
  by auto

termination
proof (relation "measure length")
  fix s :: "byte list" and t
  assume "t = dropWhile wspace s" "t \<noteq> []"
  then have "0 < length (upto_byte 32 t)" "0 < length t" "length t \<le> length s"
    using upto_blank_nonempty [of s] length_dropWhile_le [of wspace s] by simp_all
  then show "(drop (length (upto_byte 32 t)) t, s) \<in> measure length"
    unfolding in_measure length_drop by linarith
qed simp

declare tokens.simps [simp del]

definition setting :: "byte list \<Rightarrow> int \<times> (string \<rightharpoonup> int) \<Rightarrow> int \<times> (string \<rightharpoonup> int)" where
  "setting t = (\<lambda>(lvl, f).
     if 61 \<notin> set t then (if list_all is_digit t then strtol_int t else lvl, f)
     else (lvl, if list_all is_digit (past_byte 61 t) then f(text_of (upto_byte 61 t) \<mapsto> strtol_int (past_byte 61 t)) else f))"

definition env_levels :: "byte list \<Rightarrow> int \<times> (string \<rightharpoonup> int)" where
  "env_levels s = fold (\<lambda>t. setting (take 63 t)) (tokens s) (LOG_ERR, Map.empty)"

definition ascii :: "byte list \<Rightarrow> bool" where
  "ascii s \<longleftrightarrow> list_all (\<lambda>c. 0 \<le> sint c) s"

lemma ascii_simps [simp]:
  "ascii []" "ascii (c # s) \<longleftrightarrow> 0 \<le> sint c \<and> ascii s"
  by (simp_all add: ascii_def)

lemma ascii_drop: "ascii s \<Longrightarrow> ascii (drop k s)" and ascii_take: "ascii s \<Longrightarrow> ascii (take k s)"
  by (auto simp: ascii_def list_all_iff dest: in_set_takeD in_set_dropD)

lemma dropWhile_drop: "dropWhile P s = drop (length (takeWhile P s)) s"
  by (metis append_eq_conv_conj takeWhile_dropWhile_id)

lemma digits_iff: "list_all (\<lambda>c. 48 \<le> uint c \<and> uint c \<le> 57) s = list_all is_digit (s :: byte list)"
proof -
  have "48 \<le> uint c \<and> uint c \<le> 57 \<longleftrightarrow> is_digit c" for c :: byte
    unfolding is_digit_def by (simp add: uint_nat del: of_nat_unat)
  then show ?thesis by (simp add: list_all_iff)
qed

lemma isspace_loop: "cstr_at v sp s \<Longrightarrow> ascii s \<Longrightarrow> c_loop (isspace_body v) sp = Inr (sp + length (takeWhile wspace s))"
proof (induction s arbitrary: sp)
  case Nil
  then show ?case by (simp add: c_loop_unfold isspace_body_def arr_get_def c_isspace_def)
next
  case (Cons c s)
  then have "isspace_body v sp = Inr (if wspace c then Continue (sp + 1) else Break sp)"
    by (simp add: isspace_body_def arr_get_def c_isspace_def wspace_def)
  with Cons show ?case by (subst c_loop_unfold) auto
qed

section \<open>The map of the thresholds\<close>

text \<open>The string map holds the function \<open>f\<close>, in at most \<open>n\<close> entries.\<close>

definition levels_rep ::
  "(nat \<Rightarrow> bool) \<Rightarrow> (nat set \<Rightarrow> nat option) \<Rightarrow> nat \<Rightarrow> int smap \<Rightarrow> (string \<rightharpoonup> int) \<Rightarrow> bool" where
  "levels_rep alloc new n m f \<longleftrightarrow> (\<exists>a. sm_rep alloc new 16 m a \<and> length (concat a) \<le> n \<and> smap_lookup 16 a = f)"

text \<open>
  Memory for the settings: requests of up to 128 bytes succeed, while fewer than \<open>room\<close> nodes or key
  copies are allocated. The largest request is that of the 16 buckets; a name has at most 63 bytes.
\<close>

definition settings_mem :: "(nat \<Rightarrow> bool) \<Rightarrow> (nat set \<Rightarrow> nat option) \<Rightarrow> nat \<Rightarrow> bool" where
  "settings_mem alloc new room \<longleftrightarrow> smap_mem alloc new 128 room \<and> room < size_max"

lemma levels_map:
  "settings_mem alloc new room \<Longrightarrow> finite_map (sm_rep alloc new 16) (smap_lookup 16 :: _ \<Rightarrow> string \<rightharpoonup> int)
    (\<lambda>als. length (concat als)) (=) (sm_put alloc new) smap_get smap_del room (\<lambda>s. length s < 128)"
  by (rule finite_smap) (simp_all add: settings_mem_def sizeof_ptrlist_def)

lemma levels_put:
  assumes "settings_mem alloc new room" and "levels_rep alloc new n m f" and "n < room" and "length k < 128"
  shows "\<exists>m'. smap_put alloc new m (Some k) (Some x) = Inr m' \<and> levels_rep alloc new (Suc n) m' (f(k \<mapsto> x))"
proof -
  obtain a where a: "sm_rep alloc new 16 m a" "length (concat a) \<le> n" "smap_lookup 16 a = f"
    using assms(2) by (auto simp: levels_rep_def)
  have "length (concat a) < room" using a(2) assms(3) by linarith
  from finite_map.put_law [OF levels_map [OF assms(1)] a(1) this assms(4), of x]
  obtain m' a' where m': "sm_put alloc new m k x = Inr m'" "sm_rep alloc new 16 m' a'"
    "\<forall>l. smap_lookup 16 a' l = (if k = l then Some x else f l)" "length (concat a') \<le> Suc (length (concat a))"
    unfolding a(3) by blast
  have "smap_lookup 16 a' = f(k \<mapsto> x)" using m'(3) by (auto simp: fun_eq_iff)
  with m' a(2) show ?thesis by (auto simp: levels_rep_def sm_put_def)
qed

lemma levels_get: "settings_mem alloc new room \<Longrightarrow> levels_rep alloc new n m f \<Longrightarrow> smap_get m k = Inr (f k)"
  using finite_map.get_law [OF levels_map] unfolding levels_rep_def by blast

lemma levels_init:
  assumes "settings_mem alloc new room"
  shows "\<exists>m. smap_init alloc new 16 = Inr (Some m) \<and> levels_rep alloc new 0 (Some m) Map.empty"
proof -
  have "smap_mem alloc new 128 room" using assms by (simp add: settings_mem_def)
  from smap_init_ok [where ?'v = int, OF this, of 16] obtain m where
    "smap_init alloc new 16 = Inr (Some m)" "sm_rep alloc new 16 (Some m) (replicate 16 ([] :: (str_key \<times> int) list))"
    "smap_lookup 16 (replicate 16 ([] :: (str_key \<times> int) list)) = Map.empty"
    by (auto simp: sizeof_hmap_def ptr_size_def max_cells_def)
  then show ?thesis by (auto simp: levels_rep_def intro!: exI [of _ "replicate 16 []"])
qed

lemma levels_mono: "levels_rep alloc new n m f \<Longrightarrow> n \<le> n' \<Longrightarrow> levels_rep alloc new n' m f"
  unfolding levels_rep_def using le_trans by blast

lemma copy_str:
  assumes "cstr_at src 0 s" and "0 < sz" and "sz \<le> 64" and "length dst = 64"
  shows "\<exists>a. strNcpy dst src sz = Inr a \<and> length a = 64 \<and> cstr_at a 0 (take (sz - 1) s)"
  using strNcpy_cstr [OF assms(1,2), of dst] cstr_at_no_nul [OF assms(1)] assms(3,4) by (simp add: size_max_def)

section \<open>Reading the settings\<close>

lemma apply_token_ok:
  assumes mem: "settings_mem alloc new room" and tok: "cstr_at tok 0 t" "ascii t" "length t \<le> 63"
    and rep: "levels_rep alloc new n m f" "n < room"
  shows "\<exists>m'. apply_token alloc new tok (lvl, m) = Inr (fst (setting t (lvl, f)), m') \<and>
    levels_rep alloc new (Suc n) m' (snd (setting t (lvl, f)))"
proof (cases "61 \<in> set t")
  case False
  then have "c_strchr tok 0 61 = Inr None" using strchr_upto [OF tok(1)] by simp
  then show ?thesis
    using False isdigitstr_ok [OF tok(1)] tok(2) read_cstr_ok [OF tok(1)] levels_mono [OF rep(1)]
    by (simp add: apply_token_def setting_def digits_iff ascii_def)
next
  case True
  define p where "p = length (upto_byte 61 t)"
  define x where "x = past_byte 61 t"
  have p: "p < length t" using upto_byte_less [OF True] by (simp add: p_def)
  have find: "c_strchr tok 0 61 = Inr (Some p)" using strchr_upto [OF tok(1), of 61] True by (simp add: p_def)
  have x: "x = drop (p + 1) t" "length x = length t - p - 1" by (simp_all add: x_def p_def past_byte_def)
  have at: "cstr_at tok p (drop p t)" "cstr_at tok (p + 1) x"
    using cstr_at_drop [OF tok(1), of p] cstr_at_drop [OF tok(1), of "p + 1"] p x(1) by simp_all
  have vlen: "c_strlen tok p = Inr (length t - p)" using c_strlen_ok [OF at(1)] by simp
  have src: "cstr_at (drop (p + 1) tok) 0 x" using at(2) cstr_at_bound [OF at(2)] by (simp add: cstr_at_drop_arr)
  have k: "min (length t - p) 64 = length x + 1" "length x + 1 \<le> 64" using p x(2) tok(3) by auto
  obtain val where val: "strNcpy (replicate 64 Undef) (drop (p + 1) tok) (min (length t - p) 64) = Inr val" "cstr_at val 0 x"
    using copy_str [OF src, of "length x + 1" "replicate 64 Undef"] k by auto
  obtain nam where nam: "strNcpy (replicate 64 Undef) tok (min (p + 1) 64) = Inr nam" "cstr_at nam 0 (upto_byte 61 t)"
    using copy_str [OF tok(1), of "p + 1" "replicate 64 Undef"] p tok(3) take_upto_byte [of 61 t] by (auto simp: min_def p_def)
  have digits: "isdigitstr val 0 = Inr (list_all is_digit x)"
    using isdigitstr_ok [OF val(2)] ascii_drop [OF tok(2), of "p + 1"] x(1) by (simp add: ascii_def digits_iff)
  obtain m' where m': "smap_put alloc new m (Some (text_of (upto_byte 61 t))) (Some (strtol_int x)) = Inr m'"
    "levels_rep alloc new (Suc n) m' (f(text_of (upto_byte 61 t) \<mapsto> strtol_int x))" using levels_put [OF mem rep, of "text_of (upto_byte 61 t)" "strtol_int x"] p tok(3) by (auto simp: p_def text_of_def)
  show ?thesis
    using True mem m' digits read_cstr_ok [OF val(2)] read_cstr_ok [OF nam(2)] levels_mono [OF rep(1), of "Suc n"]
    unfolding apply_token_def prod.case find bind_res_Inr option.case vlen nam(1) val(1)
    by (simp add: setting_def x_def [symmetric] settings_mem_def smap_mem_def ptr_size_def)
qed

lemma settings_loop:
  assumes mem: "settings_mem alloc new room"
  shows "cstr_at v sp s \<Longrightarrow> ascii s \<Longrightarrow> length tok = 64 \<Longrightarrow> levels_rep alloc new n m f \<Longrightarrow> n + length s < room \<Longrightarrow>
    \<exists>m' k. c_loop (settings_body alloc new v) (sp, tok, lvl, m) = Inr (fst (fold (\<lambda>t. setting (take 63 t)) (tokens s) (lvl, f)), m') \<and>
      levels_rep alloc new k m' (snd (fold (\<lambda>t. setting (take 63 t)) (tokens s) (lvl, f)))"
proof (induction s arbitrary: sp tok lvl m f n rule: tokens.induct)
  case (1 s)
  define t where "t = dropWhile wspace s"
  define sp1 where "sp1 = sp + length (takeWhile wspace s)"
  have skip: "c_loop (isspace_body v) sp = Inr sp1" using isspace_loop [OF "1.prems"(1,2)] by (simp add: sp1_def)
  have t: "cstr_at v sp1 t" "ascii t" "length t \<le> length s"
    using cstr_at_drop [OF "1.prems"(1), of "length (takeWhile wspace s)"] length_takeWhile_le [of wspace s] "1.prems"(2)
    by (simp_all add: t_def sp1_def dropWhile_drop ascii_drop)
  show ?case
  proof (cases t)
    case Nil
    with t(1) have "arr_get v sp1 = Inr 0" by (simp add: arr_get_def)
    then have "settings_body alloc new v (sp, tok, lvl, m) = Inr (Break (lvl, m))" by (simp add: settings_body_def skip)
    moreover have "tokens s = []" using Nil by (subst tokens.simps) (simp add: t_def)
    ultimately show ?thesis using "1.prems"(4) by (auto simp: c_loop_Break)
  next
    case (Cons c t')
    define u where "u = upto_byte 32 t"
    define r where "r = drop (length u) t"
    have toks: "tokens s = u # tokens r" using Cons by (subst tokens.simps) (simp add: t_def u_def r_def Let_def)
    have c: "arr_get v sp1 = Inr c" "c \<noteq> 0" using t(1) Cons by (simp_all add: arr_get_def)
    have ul: "length u \<le> length t" "take (length u) t = u" "0 < length u"
      using length_upto_byte [of 32 t] take_upto_byte [of 32 t] upto_blank_nonempty [of s, folded t_def] Cons by (simp_all add: u_def)
    have tend: "bind_res (c_strchr v sp1 32) (\<lambda>blank. case blank of Some p \<Rightarrow> Inr p | None \<Rightarrow> bind_res (c_strlen v sp1) (\<lambda>n. Inr (sp1 + n)))
        = Inr (sp1 + length u)"
      using strchr_upto [OF t(1), of 32] c_strlen_ok [OF t(1)] upto_byte_absent [of 32 t] by (auto simp: u_def)
    have "cstr_at (drop sp1 v) 0 t" using t(1) cstr_at_bound [OF t(1)] by (simp add: cstr_at_drop_arr)
    moreover have "min (length u + 1) 64 = min (length u) 63 + 1" by simp
    ultimately obtain tok1 where tok1: "strNcpy tok (drop sp1 v) (min (length u + 1) 64) = Inr tok1" "length tok1 = 64"
      "cstr_at tok1 0 (take (min (length u) 63) t)"
      using copy_str [of "drop sp1 v" t "min (length u) 63 + 1" tok] "1.prems"(3) by auto
    have tk: "take (min (length u) 63) t = take 63 u" using ul(2) by (metis min.commute take_take)
    have "ascii (take 63 u)" unfolding tk [symmetric] using ascii_take [OF t(2)] .
    then obtain m1 where m1: "apply_token alloc new tok1 (lvl, m) = Inr (fst (setting (take 63 u) (lvl, f)), m1)"
      "levels_rep alloc new (Suc n) m1 (snd (setting (take 63 u) (lvl, f)))"
      using apply_token_ok [OF mem tok1(3) [unfolded tk] _ _ "1.prems"(4), of lvl] "1.prems"(5) by auto
    obtain lvl1 f1 where st: "setting (take 63 u) (lvl, f) = (lvl1, f1)" by fastforce
    have rl: "length r < length s" using ul(1,3) t(3) unfolding r_def length_drop by linarith
    have r: "cstr_at v (sp1 + length u) r" "ascii r"
      using cstr_at_drop [OF t(1) ul(1)] ascii_drop [OF t(2)] ul t(3) by (simp_all add: r_def)
    then obtain c1 where c1: "arr_get v (sp1 + length u) = Inr c1" "c1 = 0 \<longleftrightarrow> r = []" by (cases r) (auto simp: arr_get_def)
    obtain blank where bl: "c_strchr v sp1 32 = Inr blank"
      "(case blank of Some p \<Rightarrow> Inr p | None \<Rightarrow> bind_res (c_strlen v sp1) (\<lambda>n. Inr (sp1 + n))) = Inr (sp1 + length u)"
      using tend unfolding bind_res_eq_Inr by blast
    have body: "settings_body alloc new v (sp, tok, lvl, m) =
        Inr (if r = [] then Break (lvl1, m1) else Continue (sp1 + length u, tok1, lvl1, m1))"
      unfolding settings_body_def prod.case skip bind_res_Inr c(1) bl
      using c(2) tok1(1) m1(1) c1 st by (simp cong del: bind_res_weak_cong)
    note IH = "1.IH" [OF t_def, folded u_def, folded r_def]
    show ?thesis
    proof (cases "r = []")
      case True
      then have "tokens r = []" by (simp add: tokens.simps)
      with body True toks m1(2) st show ?thesis by (auto simp: c_loop_Break)
    next
      case False
      have "\<exists>m' k. c_loop (settings_body alloc new v) (sp1 + length u, tok1, lvl1, m1) =
            Inr (fst (fold (\<lambda>t. setting (take 63 t)) (tokens r) (lvl1, f1)), m') \<and>
          levels_rep alloc new k m' (snd (fold (\<lambda>t. setting (take 63 t)) (tokens r) (lvl1, f1)))"
        using IH [OF _ r tok1(2) m1(2) [unfolded st snd_conv], of lvl1] Cons rl "1.prems"(5) by simp
      with body False toks st show ?thesis by (simp add: c_loop_Continue)
    qed
  qed
qed

text \<open>A variable of the environment and the text it stands for, which is empty when it is not set.\<close>

definition env_text :: "chars option \<Rightarrow> byte list \<Rightarrow> bool" where
  "env_text e s \<longleftrightarrow> (case e of None \<Rightarrow> s = [] | Some v \<Rightarrow> cstr_at v 0 s)"

definition env_ok :: "(string \<Rightarrow> chars option) \<Rightarrow> byte list \<Rightarrow> byte list \<Rightarrow> byte list \<Rightarrow> bool" where
  "env_ok getenv levels target fancy \<longleftrightarrow>
     env_text (getenv ''LIBSRSBSNS_DEBUG'') levels \<and> ascii levels \<and>
     env_text (getenv ''LIBSRSBSNS_DEBUG_TARGET'') target \<and> env_text (getenv ''LIBSRSBSNS_DEBUG_FANCY'') fancy"

text \<open>The state after reading the settings, up to the map.\<close>

definition configured :: "(string \<Rightarrow> chars option) \<Rightarrow> byte list \<Rightarrow> byte list \<Rightarrow> byte list \<Rightarrow> int_log \<Rightarrow> int_log" where
  "configured getenv levels target fancy s =
     log_setfancy (getenv ''LIBSRSBSNS_DEBUG_FANCY'' \<noteq> None \<and> (fancy = [] \<or> hd fancy \<noteq> 48))
       ((if text_of target = ''syslog'' then log_syslog ''libsrsbsns'' 8 else log_stderr) (s\<lparr>s_lvl := fst (env_levels levels)\<rparr>))"

lemma init_ok:
  assumes mem: "settings_mem alloc new (Suc (length levels))" and env: "env_ok getenv levels target fancy"
  shows "\<exists>m k. bsnslog_init alloc new getenv s0 = Inr (configured getenv levels target fancy s0\<lparr>s_lvlmap := m\<rparr>) \<and>
    m \<noteq> None \<and> levels_rep alloc new k m (snd (env_levels levels))"
proof -
  obtain m0 where m0: "smap_init alloc new 16 = Inr (Some m0)" "levels_rep alloc new 0 (Some m0) Map.empty" using levels_init [OF mem] by blast
  have "\<exists>m k. (case getenv ''LIBSRSBSNS_DEBUG'' of
        None \<Rightarrow> Inr (LOG_ERR, Some m0)
      | Some v \<Rightarrow> c_loop (settings_body alloc new v) (0, replicate 64 Undef, LOG_ERR, Some m0)) = Inr (fst (env_levels levels), m) \<and>
    levels_rep alloc new k m (snd (env_levels levels))"
  proof (cases "getenv ''LIBSRSBSNS_DEBUG''")
    case None
    then have "env_levels levels = (LOG_ERR, Map.empty)" using env by (simp add: env_ok_def env_text_def env_levels_def tokens.simps)
    with None m0(2) show ?thesis by auto
  next
    case (Some v)
    then have "cstr_at v 0 levels" "ascii levels" "0 + length levels < Suc (length levels)"
      using env by (simp_all add: env_ok_def env_text_def)
    from settings_loop [OF mem this(1,2) _ m0(2) this(3), of "replicate 64 Undef" LOG_ERR] Some
    show ?thesis by (auto simp: env_levels_def)
  qed
  then obtain m k where lv: "(case getenv ''LIBSRSBSNS_DEBUG'' of
        None \<Rightarrow> Inr (LOG_ERR, Some m0)
      | Some v \<Rightarrow> c_loop (settings_body alloc new v) (0, replicate 64 Undef, LOG_ERR, Some m0)) = Inr (fst (env_levels levels), m)"
    "levels_rep alloc new k m (snd (env_levels levels))" by blast
  have target: "(case getenv ''LIBSRSBSNS_DEBUG_TARGET'' of
        None \<Rightarrow> Inr False
      | Some v \<Rightarrow> bind_res (read_cstr v) (\<lambda>t. Inr (text_of t = ''syslog''))) = Inr (text_of target = ''syslog'')"
    using env by (auto simp: env_ok_def env_text_def read_cstr_ok text_of_def split: option.splits)
  have fancy: "(case getenv ''LIBSRSBSNS_DEBUG_FANCY'' of
        None \<Rightarrow> Inr False
      | Some v \<Rightarrow> bind_res (arr_get v 0) (\<lambda>c. Inr (c \<noteq> 48))) =
      Inr (getenv ''LIBSRSBSNS_DEBUG_FANCY'' \<noteq> None \<and> (fancy = [] \<or> hd fancy \<noteq> 48))"
    using env by (cases fancy) (auto simp: env_ok_def env_text_def arr_get_def split: option.splits)
  have "m \<noteq> None" using lv(2) by (auto simp: levels_rep_def hm_rep_def)
  moreover have "bsnslog_init alloc new getenv s0 = Inr (configured getenv levels target fancy s0\<lparr>s_lvlmap := m\<rparr>)"
    unfolding bsnslog_init_def m0(1) bind_res_Inr Let_def lv(1) target fancy prod.case
    by (simp add: configured_def log_ops bsnslog_syslog_def bsnslog_stderr_def bsnslog_setfancy_def)
  ultimately show ?thesis using lv(2) by blast
qed

lemma configured_simps:
  "s_lvl (configured getenv levels target fancy s) = fst (env_levels levels)"
  "s_stderr (configured getenv levels target fancy s) \<longleftrightarrow> text_of target \<noteq> ''syslog''"
  "log_inv s \<Longrightarrow> log_inv (configured getenv levels target fancy s)"
  by (auto simp: configured_def log_ops) (auto simp: log_inv_def conn_after_append no_reopen_append)

lemma log_inv_update [simp]: "log_inv (s\<lparr>s_lvlmap := m\<rparr>) = log_inv s"
  by (simp add: log_inv_def)

section \<open>The states of the log\<close>

definition int32 :: "int \<Rightarrow> bool" where
  "int32 x \<longleftrightarrow> - (2 ^ 31) \<le> x \<and> x < 2 ^ 31"

lemma strtol_int_range: "int32 (strtol_int s)"
  unfolding int32_def strtol_int_def
  using signed_take_bit_int_greater_eq_minus_exp [of 31] signed_take_bit_int_less_exp [of 31] by simp

definition levels_ok :: "int \<times> (string \<rightharpoonup> int) \<Rightarrow> bool" where
  "levels_ok = (\<lambda>(lvl, f). int32 lvl \<and> (\<forall>k x. f k = Some x \<longrightarrow> int32 x))"

lemma setting_ok: "levels_ok lf \<Longrightarrow> levels_ok (setting t lf)"
  by (cases lf) (auto simp: setting_def levels_ok_def strtol_int_range)

lemma env_levels_ok: "levels_ok (env_levels s)"
proof -
  have "levels_ok lf \<Longrightarrow> levels_ok (fold (\<lambda>t. setting (take 63 t)) ts lf)" for ts lf
  proof (induction ts arbitrary: lf)
    case (Cons t ts)
    show ?case using Cons.IH [OF setting_ok [OF Cons.prems]] by simp
  qed simp
  then show ?thesis unfolding env_levels_def by (simp add: levels_ok_def int32_def LOG_ERR_def)
qed

text \<open>A state is well typed if its levels are of type \<open>int\<close> and its map, once there is one, is a string map.\<close>

definition int_log_ok :: "(nat \<Rightarrow> bool) \<Rightarrow> (nat set \<Rightarrow> nat option) \<Rightarrow> int_log \<Rightarrow> bool" where
  "int_log_ok alloc new s \<longleftrightarrow> log_inv s \<and> int32 (s_lvl s) \<and>
     (s_lvlmap s \<noteq> None \<longrightarrow> (\<exists>n f. levels_rep alloc new n (s_lvlmap s) f \<and> levels_ok (s_lvl s, f)))"

text \<open>
  A program calls the control functions, with levels of type \<open>int\<close>, and logs messages. The parameters are
  those of \<open>bsnslog_log\<close>.
\<close>

datatype int_log_op = Control log_op | Message int int string int string string

inductive int_log_step for alloc new getenv now expand strerr where
  control: "log_step s op s' \<Longrightarrow> (\<And>l. op = Set_Level l \<Longrightarrow> int32 l) \<Longrightarrow>
     int_log_step alloc new getenv now expand strerr s (Control op) s'"
| message: "bsnslog_log alloc new getenv now expand strerr s lvl errn file_name line func fmt = Inr (out, s') \<Longrightarrow>
     int_log_step alloc new getenv now expand strerr s (Message lvl errn file_name line func fmt) s'"

inductive_cases int_log_controlE: "int_log_step alloc new getenv now expand strerr s (Control op) s'"
inductive_cases int_log_messageE: "int_log_step alloc new getenv now expand strerr s (Message lvl errn file_name line func fmt) s'"

inductive int_log_reach for alloc new getenv now expand strerr where
  start: "int_log_reach alloc new getenv now expand strerr bsnslog_start"
| step: "int_log_reach alloc new getenv now expand strerr s \<Longrightarrow> int_log_step alloc new getenv now expand strerr s op s' \<Longrightarrow>
     int_log_reach alloc new getenv now expand strerr s'"

lemma start_ok: "int_log_ok alloc new bsnslog_start"
  by (simp add: int_log_ok_def bsnslog_start_def log_start_def log_state.defs log_inv_def int32_def)

lemma control_ok:
  assumes "log_step s op s'" and "\<And>l. op = Set_Level l \<Longrightarrow> int32 l" and "int_log_ok alloc new s"
  shows "int_log_ok alloc new s'"
proof -
  have "log_inv s'" using log_step_inv [OF assms(1)] assms(3) by (simp add: int_log_ok_def)
  moreover have "s_lvlmap s' = s_lvlmap s \<and> (s_lvl s' = s_lvl s \<or> int32 (s_lvl s'))"
    using assms(1,2) by (cases op) (auto simp: log_ops)
  ultimately show ?thesis using assms(3) by (auto simp: int_log_ok_def levels_ok_def; blast)
qed

text \<open>A message in a well-typed state: the threshold is that of the file if it has one.\<close>

lemma message_ok:
  assumes mem: "settings_mem alloc new (Suc (length levels))" and env: "env_ok getenv levels target fancy" and s0: "int_log_ok alloc new s0"
  shows "\<exists>out s1 lvl0 f. bsnslog_log alloc new getenv now expand strerr s0 lvl errn file_name line func fmt = Inr (out, s1) \<and>
    int_log_ok alloc new s1 \<and> s_lvl s1 = lvl0 \<and>
    (s_lvlmap s1 = None \<and> f = Map.empty \<or> (\<exists>n. levels_rep alloc new n (s_lvlmap s1) f)) \<and>
    (s_lvl s0 = - 1 \<longrightarrow> (lvl0, f) = env_levels levels \<and> (s_stderr s1 \<longleftrightarrow> text_of target \<noteq> ''syslog'')) \<and> (s_lvl s0 \<noteq> - 1 \<longrightarrow> s1 = s0) \<and>
    out = (if (case f file_name of None \<Rightarrow> lvl0 | Some t \<Rightarrow> t) < lvl then None
       else Some (if s_stderr s1 then To_Stderr (expand (bsns_format now (s_fancy s1) lvl file_name line func fmt (err_text strerr errn)))
         else To_Syslog lvl (expand (syslog_format file_name line func fmt (err_text strerr errn)))))"
proof -
  obtain s1 f where s1: "(if s_lvl s0 = - 1 then bsnslog_init alloc new getenv s0 else Inr s0) = Inr s1" "int_log_ok alloc new s1"
    "s_lvlmap s1 = None \<and> f = Map.empty \<or> (\<exists>n. levels_rep alloc new n (s_lvlmap s1) f)"
    "s_lvl s0 = - 1 \<longrightarrow> (s_lvl s1, f) = env_levels levels \<and> (s_stderr s1 \<longleftrightarrow> text_of target \<noteq> ''syslog'')" "s_lvl s0 \<noteq> - 1 \<longrightarrow> s1 = s0"
  proof (cases "s_lvl s0 = - 1")
    case True
    obtain m k where i: "bsnslog_init alloc new getenv s0 = Inr (configured getenv levels target fancy s0\<lparr>s_lvlmap := m\<rparr>)"
      "levels_rep alloc new k m (snd (env_levels levels))" using init_ok [OF mem env] by blast
    have "log_inv s0" using s0 by (simp add: int_log_ok_def)
    with i(2) env_levels_ok [of levels] have "int_log_ok alloc new (configured getenv levels target fancy s0\<lparr>s_lvlmap := m\<rparr>)"
      by (auto simp: int_log_ok_def configured_simps levels_ok_def split: prod.splits)
    with that [of "configured getenv levels target fancy s0\<lparr>s_lvlmap := m\<rparr>" "snd (env_levels levels)"] i True show ?thesis
      by (auto simp: configured_simps)
  next
    case False
    have "\<exists>f. s_lvlmap s0 = None \<and> f = Map.empty \<or> (\<exists>n. levels_rep alloc new n (s_lvlmap s0) f)"
      using s0 by (auto simp: int_log_ok_def)
    with that [of s0] False s0 show ?thesis by auto
  qed
  have "(case s_lvlmap s1 of None \<Rightarrow> Inr None | Some _ \<Rightarrow> smap_get (s_lvlmap s1) file_name) = Inr (f file_name)"
  proof (cases "s_lvlmap s1")
    case None
    have "\<not> levels_rep alloc new n None f" for n by (simp add: levels_rep_def hm_rep_def)
    with None s1(3) show ?thesis by auto
  next
    case (Some m)
    with s1(3) levels_get [OF mem] show ?thesis by auto
  qed
  then have "bsnslog_log alloc new getenv now expand strerr s0 lvl errn file_name line func fmt =
     Inr (if (case f file_name of None \<Rightarrow> s_lvl s1 | Some t \<Rightarrow> t) < lvl then None
       else Some (if s_stderr s1 then To_Stderr (expand (bsns_format now (s_fancy s1) lvl file_name line func fmt (err_text strerr errn)))
         else To_Syslog lvl (expand (syslog_format file_name line func fmt (err_text strerr errn)))), s1)"
    unfolding bsnslog_log_def s1(1) bind_res_Inr by (simp add: Let_def)
  with s1(2-5) show ?thesis by blast
qed

lemma reach_ok:
  assumes "settings_mem alloc new (Suc (length levels))" and "env_ok getenv levels target fancy"
  shows "int_log_reach alloc new getenv now expand strerr s \<Longrightarrow> int_log_ok alloc new s"
proof (induction rule: int_log_reach.induct)
  case (step s op s')
  from step.hyps(2) show ?case
  proof (cases rule: int_log_step.cases)
    case (control op')
    then show ?thesis using control_ok step.IH by blast
  next
    case (message lvl errn file_name line func fmt out)
    with message_ok [OF assms step.IH, of now expand strerr lvl errn file_name line func fmt] show ?thesis by auto
  qed
qed (rule start_ok)

section \<open>Properties\<close>

text \<open>
  C32: the first message of the library reads the settings: its threshold is the last setting in
  \<open>LIBSRSBSNS_DEBUG\<close> for its file, or else the last number that stands alone, or else that of errors, where
  the settings are the tokens of the specification \<open>env_levels\<close>, cut to 63 bytes. It goes where
  \<open>LIBSRSBSNS_DEBUG_TARGET\<close> says. Nothing is written out of bounds, however long the settings are. This is for
  settings without bytes above 127 (\<open>env_ok\<close>), which \<open>isspace\<close> is not defined for, and with memory for them
  (\<open>settings_mem\<close>): requests of up to 128 bytes succeed, and there is room for as many nodes and key copies as
  \<open>LIBSRSBSNS_DEBUG\<close> has characters, and one more.
\<close>

theorem bsnslog_settings:
  assumes "settings_mem alloc new (Suc (length levels))" and "env_ok getenv levels target fancy"
    and "int_log_reach alloc new getenv now expand strerr s0" and "s_lvl s0 = - 1" and "(lvl0, f) = env_levels levels"
  shows "\<exists>s1. bsnslog_log alloc new getenv now expand strerr s0 lvl errn file_name line func fmt =
      Inr (if (case f file_name of None \<Rightarrow> lvl0 | Some t \<Rightarrow> t) < lvl then None
         else Some (if text_of target = ''syslog'' then To_Syslog lvl (expand (syslog_format file_name line func fmt (err_text strerr errn)))
           else To_Stderr (expand (bsns_format now (s_fancy s1) lvl file_name line func fmt (err_text strerr errn)))), s1) \<and>
    bsnslog_getlvl s1 = lvl0 \<and> (\<forall>g. smap_get (s_lvlmap s1) g = Inr (f g))"
proof -
  from message_ok [OF assms(1,2) reach_ok [OF assms(1-3)], of now expand strerr lvl errn file_name line func fmt] assms(4,5)
  obtain out s1 where s1: "bsnslog_log alloc new getenv now expand strerr s0 lvl errn file_name line func fmt = Inr (out, s1)"
    "s_lvl s1 = lvl0" "s_stderr s1 \<longleftrightarrow> text_of target \<noteq> ''syslog''"
    "s_lvlmap s1 = None \<and> f = Map.empty \<or> (\<exists>n. levels_rep alloc new n (s_lvlmap s1) f)"
    "out = (if (case f file_name of None \<Rightarrow> lvl0 | Some t \<Rightarrow> t) < lvl then None
       else Some (if s_stderr s1 then To_Stderr (expand (bsns_format now (s_fancy s1) lvl file_name line func fmt (err_text strerr errn)))
         else To_Syslog lvl (expand (syslog_format file_name line func fmt (err_text strerr errn)))))"
    by (metis prod.inject)
  have "smap_get (s_lvlmap s1) g = Inr (f g)" for g
    using s1(4) levels_get [OF assms(1)] by (auto simp: smap_get_def hmap_get_def)
  with s1 show ?thesis by (auto simp: bsnslog_getlvl_def log_getlvl_def)
qed

text \<open>The settings \<open>6 f.c=7 x 4\<close>: the last number is the threshold, except for \<open>f.c\<close>.\<close>

definition demo_getenv :: "string \<Rightarrow> chars option" where
  "demo_getenv n = (if n = ''LIBSRSBSNS_DEBUG'' then Some (map Val [54, 32, 102, 46, 99, 61, 55, 32, 120, 32, 52, 0]) else None)"

lemma demo_levels: "env_levels [54, 32, 102, 46, 99, 61, 55, 32, 120, 32, 52] = (4, [''f.c'' \<mapsto> 7])"
proof -
  have "tokens [54, 32, 102, 46, 99, 61, 55, 32, 120, 32, 52] = [[54], [102, 46, 99, 61, 55], [120], [52]]"
    by (simp add: tokens.simps wspace_def upto_byte_def)
  then show ?thesis
    by (simp add: env_levels_def setting_def is_digit_def upto_byte_def past_byte_def strtol_int_def text_of_def char_of_def
        bit_0 bit_numeral_rec signed_take_bit_int_eq_self LOG_ERR_def fun_upd_def)
qed

lemma demo_env_ok: "env_ok demo_getenv [54, 32, 102, 46, 99, 61, 55, 32, 120, 32, 52] [] []"
  by (simp add: env_ok_def env_text_def demo_getenv_def size_max_def)

lemma settings_demo_memory:
  "settings_mem (mem_upto 128) new_above (Suc (length [54, 32, 102, 46, 99, 61, 55, 32, 120, 32, 52 :: byte]))"
  by (simp add: settings_mem_def smap_mem_demo size_max_def)

theorem bsnslog_settings_witness:
  "\<exists>s1. bsnslog_log (mem_upto 128) new_above demo_getenv None (\<lambda>t. t) (\<lambda>_. []) bsnslog_start 5 (- 1) ''g.c'' 1 ''h'' ''x'' = Inr (None, s1) \<and>
     bsnslog_getlvl s1 = 4 \<and> smap_get (s_lvlmap s1) ''f.c'' = Inr (Some 7)"
proof -
  have "s_lvl bsnslog_start = - 1" by (simp add: bsnslog_start_def log_start_def log_state.defs)
  from bsnslog_settings [OF settings_demo_memory demo_env_ok int_log_reach.start this demo_levels [symmetric],
      of None "\<lambda>t. t" "\<lambda>_. []" 5 "- 1" "''g.c''" 1 "''h''" "''x''"] show ?thesis by auto
qed

text \<open>
  C33: in an environment whose settings are ASCII, and with memory for them, as in C32, the state of the
  library's log is well typed whatever the program does: every level, set by the program or read from the
  environment, is of type \<open>int\<close>, the map is a string map, colours are on only for the error stream; and in
  such a state every message is logged or dropped without a fault.
\<close>

theorem int_log_well_typed:
  assumes "settings_mem alloc new (Suc (length levels))" and "env_ok getenv levels target fancy"
    and "int_log_reach alloc new getenv now expand strerr s"
  shows "int32 (bsnslog_getlvl s) \<and> (\<forall>g t. smap_get (s_lvlmap s) g = Inr (Some t) \<longrightarrow> int32 t) \<and> bsnslog_getfancy s = s_fancy s \<and>
    (\<exists>out s'. bsnslog_log alloc new getenv now expand strerr s lvl errn file_name line func fmt = Inr (out, s'))"
proof -
  have ok: "int_log_ok alloc new s" by (rule reach_ok [OF assms])
  have "int32 t" if "smap_get (s_lvlmap s) g = Inr (Some t)" for g t
  proof (cases "s_lvlmap s")
    case None
    with that show ?thesis by (simp add: smap_get_def hmap_get_def)
  next
    case (Some m)
    then obtain n f where "levels_rep alloc new n (s_lvlmap s) f" "levels_ok (s_lvl s, f)" using ok by (auto simp: int_log_ok_def)
    with levels_get [OF assms(1)] that show ?thesis by (auto simp: levels_ok_def)
  qed
  moreover have "int32 (bsnslog_getlvl s)" "bsnslog_getfancy s = s_fancy s"
    using ok by (auto simp: int_log_ok_def bsnslog_getlvl_def log_getlvl_def bsnslog_getfancy_def log_getfancy_def log_inv_def)
  moreover have "\<exists>out s'. bsnslog_log alloc new getenv now expand strerr s lvl errn file_name line func fmt = Inr (out, s')"
    using message_ok [OF assms(1,2) ok, of now expand strerr lvl errn file_name line func fmt] by blast
  ultimately show ?thesis by blast
qed

theorem int_log_well_typed_witness:
  "int32 (bsnslog_getlvl (bsnslog_setlvl 7 bsnslog_start)) \<and>
   (\<exists>out s'. bsnslog_log (mem_upto 128) new_above demo_getenv None (\<lambda>t. t) (\<lambda>_. []) (bsnslog_setlvl 7 bsnslog_start) 5 (- 1) ''g.c'' 1 ''h'' ''x'' =
      Inr (out, s'))"
proof -
  have "int_log_step (mem_upto 128) new_above demo_getenv None (\<lambda>t. t) (\<lambda>_. []) bsnslog_start (Control (Set_Level 7)) (bsnslog_setlvl 7 bsnslog_start)"
    by (rule int_log_step.control) (simp_all add: bsnslog_setlvl_def int32_def)
  from int_log_well_typed [OF settings_demo_memory demo_env_ok int_log_reach.step [OF int_log_reach.start this],
      of 5 "- 1" "''g.c''" 1 "''h''" "''x''"] show ?thesis by blast
qed

end
