(* ===== verification/Dump.thy ===== *)
theory Dump imports Heap Deque DynArr RingBuf StrList HashMap BinTreeScan begin

text \<open>
  The functions that print a container for debugging (\<open>heap_dump\<close>, \<open>deque_dump\<close>, \<open>dynarr_dump\<close>, \<open>ringbuf_dump\<close>,
  \<open>ptrlist_dump\<close>, \<open>slist_dump\<close>, \<open>hmap_dump\<close>, \<open>hmap_dumpstat\<close>, \<open>bintree_dump\<close>). What goes to the standard error stream is
  a list of pieces: text of a format, a number, a byte, the text of an address, or what the callback prints
  of an element. They read the containers, so that they can fault; \<open>hmap_dump\<close> also moves iterators.
\<close>

datatype 'a piece = Text string | Number int | Hex byte | Pointer | Real "double option" | Elem 'a

type_synonym 'a out = "'a piece list"

section \<open>The code: trees\<close>

definition newline :: string where "newline = [CHR 0x0A]"

definition ticks :: string where "ticks = [CHR 0x60, CHR 0x60]"

definition quotes :: string where "quotes = [CHR 0x27, CHR 0x27]"

definition indent :: "nat \<Rightarrow> 'a out" where
  "indent depth = replicate depth (Text ''  '')"

primrec heap_rdump :: "nat \<Rightarrow> 'a heap \<Rightarrow> nat \<Rightarrow> nat \<Rightarrow> 'a out res" where
  "heap_rdump 0 h node depth = Inl Stack_Overflow"
| "heap_rdump (Suc room) h node depth =
     (if h_treesz h \<le> node \<or> h_next h \<le> node then Inr []
      else
        bind_res (arr_get (h_tree h) node) (\<lambda>x.
        bind_res (heap_rdump room h (LEFT node) (depth + 1)) (\<lambda>l.
        bind_res (arr_get (h_tree h) (PARENT node)) (\<lambda>p.
        bind_res (heap_rdump room h (RIGHT node) (depth + 1)) (\<lambda>r.
        Inr (l @ indent depth @
          [Text ticks, Elem x, Text (quotes @ '' [''), Number (int node), Text ''; '', Pointer, Text '' (p:'', Pointer, Text ('': '' @ ticks),
           if node \<noteq> 0 then Elem p else Text ''(root)'', Text (quotes @ '')]''), Text newline] @ r))))))"

definition heap_dump :: "nat \<Rightarrow> 'a heap \<Rightarrow> 'a out res" where
  "heap_dump room h = bind_res (heap_rdump room h 0 0) (\<lambda>o1. Inr ([Text ''heap '', Pointer, Text ('':'' @ newline)] @ o1))"

primrec bintree_rdump :: "nat \<Rightarrow> 'a bt_store \<Rightarrow> ref \<Rightarrow> nat \<Rightarrow> 'a out res" where
  "bintree_rdump 0 h n depth = Inl Stack_Overflow"
| "bintree_rdump (Suc room) h n depth =
     (case n of
        None \<Rightarrow> Inr []
      | Some a \<Rightarrow>
          bind_res (bt_deref h n) (\<lambda>nd.
          bind_res (bintree_rdump room h (bn_left nd) (depth + 1)) (\<lambda>l.
          bind_res (case bn_parent nd of None \<Rightarrow> Inr (Text ''(root)'')
                    | Some b \<Rightarrow> bind_res (bt_deref h (Some b)) (\<lambda>p. Inr (Elem (bn_data p)))) (\<lambda>par.
          bind_res (bintree_rdump room h (bn_right nd) (depth + 1)) (\<lambda>r.
          Inr (l @ indent depth @
            [Text ticks, Elem (bn_data nd), Text (quotes @ '' [''), Pointer, Text '' (p:'', Pointer, Text ('': '' @ ticks), par,
             Text (quotes @ '')]''), Text newline] @ r))))))"

definition bintree_dump :: "nat \<Rightarrow> 'a bintree \<Rightarrow> 'a out res" where
  "bintree_dump room t =
     bind_res (bintree_rdump room (bt_nodes t) (bt_root t) 0) (\<lambda>o1. Inr ([Text ''bintree '', Pointer, Text ('':'' @ newline)] @ o1))"

section \<open>The code: arrays\<close>

definition dqdump_body :: "'a deque \<Rightarrow> nat \<times> 'a out \<Rightarrow> (nat \<times> 'a out, 'a out) step res" where
  "dqdump_body d = (\<lambda>(i, o1).
     if i < d_front d then
       bind_res (arr_get (d_data d) i) (\<lambda>x. Inr (Continue (i + 1, o1 @ [Text (if i = d_back d then ''data: '' else '', ''), Elem x])))
     else Inr (Break o1))"

definition deque_dump :: "'a deque option \<Rightarrow> 'a out res" where
  "deque_dump h =
     (case h of
        None \<Rightarrow> Inr [Text ''(not a) deque '', Pointer, Text newline]
      | Some d \<Rightarrow>
          bind_res (if d_back d = d_front d then Inr [Text ''[deque is empty]''] else c_loop (dqdump_body d) (d_back d, [])) (\<lambda>o1.
          Inr ([Text ''deque '', Pointer, Text '' [nelem: '', Number (int (d_nelem d)), Text '', count: '', Number (int (deque_count d)),
                Text '' front: '', Number (int (d_front d)), Text '', back: '', Number (int (d_back d)), Text (''];'' @ newline)] @
               o1 @ [Text newline])))"

definition dydump_body :: "'a dynarr \<Rightarrow> nat \<times> 'a option out \<Rightarrow> (nat \<times> 'a option out, 'a option out) step res" where
  "dydump_body d = (\<lambda>(i, o1).
     if i < dy_nused d then
       bind_res (arr_get (dy_data d) i) (\<lambda>x. Inr (Continue (i + 1, o1 @ [Text (if i = 0 then ''data: '' else '', ''), Elem x])))
     else Inr (Break o1))"

definition dynarr_dump :: "'a dynarr option \<Rightarrow> 'a option out res" where
  "dynarr_dump h =
     (case h of
        None \<Rightarrow> Inr [Text ''(not a) dynarr '', Pointer, Text newline]
      | Some d \<Rightarrow>
          bind_res (if dy_nused d = 0 then Inr [Text ''[dynarr is empty]''] else c_loop (dydump_body d) (0, [])) (\<lambda>o1.
          Inr ([Text ''dynarr '', Pointer, Text '' [nelem: '', Number (int (dy_nelem d)), Text '', count: '', Number (int (dynarr_count d)),
                Text ('' ]:'' @ newline)] @ o1 @ [Text newline])))"

text \<open>\<open>isprint\<close> in the C locale.\<close>

definition isprint :: "byte \<Rightarrow> bool" where
  "isprint c \<longleftrightarrow> 32 \<le> c \<and> c < 127"

definition rbdump_body ::
  "(byte \<Rightarrow> unit out) \<Rightarrow> ringbuf \<Rightarrow> nat \<times> nat \<times> unit out \<Rightarrow> (nat \<times> nat \<times> unit out, unit out) step res" where
  "rbdump_body show_byte b = (\<lambda>(i, t, o1).
     if i < r_num b then
       bind_res (arr_get (r_buf b) t) (\<lambda>c.
       Inr (Continue (i + 1, if t + 1 = r_bufsz b then 0 else t + 1, o1 @ show_byte c)))
     else Inr (Break o1))"

definition sane_byte :: "byte \<Rightarrow> unit out" where
  "sane_byte c = (if isprint c then [Text [char_of (unat c)]] else [Text ''<'', Hex c, Text ''>''])"

definition ringbuf_dump :: "ringbuf \<Rightarrow> unit out res" where
  "ringbuf_dump b =
     bind_res (c_loop (rbdump_body (\<lambda>c. [Text '' '', Hex c]) b) (0, r_tail b, [])) (\<lambda>hex.
     bind_res (c_loop (rbdump_body sane_byte b) (0, r_tail b, [])) (\<lambda>sane.
     Inr ([Text ''ringbuf dump (hnd: '', Pointer, Text ('')'' @ newline),
           Text ''distance start-head: '', Number (int (r_head b)), Text newline,
           Text ''distance head-tail: '', Number (int (r_tail b) - int (r_head b)), Text newline,
           Text ''distance tail-end: '', Number (int (r_bufsz b) - int (r_tail b)), Text newline,
           Text ''bufsz: '', Number (int (r_bufsz b)), Text '', numelem :'', Number (int (r_num b)), Text newline,
           Text ''actual buffer:''] @ hex @ [Text newline, Text ''sanitized string:''] @ sane @ [Text newline])))"

section \<open>The code: lists and maps\<close>

definition pldump_body ::
  "('a \<Rightarrow> 'b out res) \<Rightarrow> 'a pl_store \<Rightarrow> ref \<times> 'b out \<Rightarrow> (ref \<times> 'b out, 'b out) step res" where
  "pldump_body op h = (\<lambda>(n, o1).
     case n of
       None \<Rightarrow> Inr (Break o1)
     | Some a \<Rightarrow>
         bind_res (deref h n) (\<lambda>nd.
         bind_res (op (pn_data nd)) (\<lambda>x.
         Inr (Continue (pn_next nd, o1 @ x @ (if pn_next nd \<noteq> None then [Text '' --> ''] else []))))))"

definition ptrlist_dump :: "('a \<Rightarrow> 'b out res) \<Rightarrow> 'a ptrlist option \<Rightarrow> 'b out res" where
  "ptrlist_dump op hl =
     (case hl of
        None \<Rightarrow> Inr []
      | Some l \<Rightarrow>
          bind_res (ptrlist_count hl) (\<lambda>c.
          bind_res (c_loop (pldump_body op (pl_nodes l)) (pl_head l, [])) (\<lambda>o1.
          Inr ([Number (int c), Text '' elements: [''] @ o1 @ [Text ('']'' @ newline)]))))"

definition strdump :: "(nat \<Rightarrow> string option) \<Rightarrow> nat \<Rightarrow> unit out res" where
  "strdump st a = (case st a of None \<Rightarrow> Inl Dangling | Some s \<Rightarrow> Inr [Text s])"

definition slist_dump :: "slist \<Rightarrow> unit out res" where
  "slist_dump s = ptrlist_dump (strdump (sl_strs s)) (sl_list s)"

type_synonym ('k, 'v) hout = "('k + 'v option) out"

definition hmdump_pair ::
  "'k option \<times> 'v option \<times> 'k ptrlist option \<times> 'v ptrlist option \<times> ('k, 'v) hout \<Rightarrow>
   ('k option \<times> 'v option \<times> 'k ptrlist option \<times> 'v ptrlist option \<times> ('k, 'v) hout,
    'k ptrlist option \<times> 'v ptrlist option \<times> ('k, 'v) hout) step res" where
  "hmdump_pair = (\<lambda>(key, val, kl, vl, o1).
     case key of
       None \<Rightarrow> Inr (Break (kl, vl, o1))
     | Some k \<Rightarrow>
         bind_res (ptrlist_next kl) (\<lambda>(key1, kl1).
         bind_res (ptrlist_next vl) (\<lambda>(val1, vl1).
         Inr (Continue (key1, val1, kl1, vl1, o1 @ [Elem (Inl k), Text '' --> '', Elem (Inr val)])))))"

definition hmdump_bucket ::
  "('k, 'v) hmap \<Rightarrow> nat \<Rightarrow> (('k, 'v) hmap \<times> ('k, 'v) hout) res" where
  "hmdump_bucket m i =
     bind_res (bkt_get (h_keyb m) i) (\<lambda>kl.
     bind_res (if kl = None then Inr 0 else ptrlist_count kl) (\<lambda>c.
     if c = 0 then Inr (m, [])
     else
       bind_res (bkt_get (h_valb m) i) (\<lambda>vl.
       bind_res (ptrlist_first kl) (\<lambda>(key, kl1).
       bind_res (ptrlist_first vl) (\<lambda>(val, vl1).
       bind_res (c_loop hmdump_pair (key, val, kl1, vl1, [])) (\<lambda>(kl2, vl2, o1).
       Inr (m\<lparr>h_keyb := (h_keyb m)[i := kl2], h_valb := (h_valb m)[i := vl2]\<rparr>,
            [Text ''['', Number (int i), Text '']: ''] @ o1 @ [Text newline])))))))"

definition hmdump_body ::
  "nat \<times> ('k, 'v) hmap \<times> ('k, 'v) hout \<Rightarrow> (nat \<times> ('k, 'v) hmap \<times> ('k, 'v) hout, ('k, 'v) hmap \<times> ('k, 'v) hout) step res" where
  "hmdump_body = (\<lambda>(i, m, o1).
     if i < h_bucketsz m then bind_res (hmdump_bucket m i) (\<lambda>(m1, o2). Inr (Continue (i + 1, m1, o1 @ o2)))
     else Inr (Break (m, o1)))"

text \<open>The count is read before the handle is compared with NULL.\<close>

definition hmap_dump :: "('k, 'v) hmap option \<Rightarrow> (('k, 'v) hout \<times> ('k, 'v) hmap option) res" where
  "hmap_dump h =
     (case h of
        None \<Rightarrow> Inl Null_Deref
      | Some m \<Rightarrow>
          bind_res (c_loop hmdump_body (0, m, [])) (\<lambda>(m1, o1).
          Inr ([Text ''===hashmap dump (count: '', Number (int (h_entries m)), Text ('')==='' @ newline)] @ o1 @
               [Text (''===end of hashmap dump==='' @ newline)], Some m1)))"

definition hmstat_body ::
  "('k, 'v) hmap \<Rightarrow> nat \<times> nat \<times> nat \<times> nat \<Rightarrow> (nat \<times> nat \<times> nat \<times> nat, nat \<times> nat \<times> nat) step res" where
  "hmstat_body m = (\<lambda>(i, used, usedlen, empty).
     if i < h_bucketsz m then
       bind_res (bkt_get (h_keyb m) i) (\<lambda>kl.
       if kl = None then Inr (Continue (i + 1, used, usedlen, empty))
       else
         bind_res (ptrlist_count kl) (\<lambda>c.
         Inr (Continue (if 0 < c then (i + 1, used + 1, usedlen + c, empty) else (i + 1, used, usedlen, empty + 1)))))
     else Inr (Break (used, usedlen, empty)))"

text \<open>A quotient of numbers of type \<open>double\<close>; with the divisor 0 it is not a finite number, which is no fault.\<close>

definition quotient :: "nat \<Rightarrow> nat \<Rightarrow> double option" where
  "quotient x y = (if y = 0 then None else Some (rnd (dbl x / dbl y)))"

definition hmap_dumpstat :: "('k, 'v) hmap option \<Rightarrow> unit out res" where
  "hmap_dumpstat h =
     (case h of
        None \<Rightarrow> Inl Null_Deref
      | Some m \<Rightarrow>
          bind_res (c_loop (hmstat_body m) (0, 0, 0, 0)) (\<lambda>(used, usedlen, empty).
          Inr [Text ''hashmap stat: bucksz: '', Number (int (h_bucketsz m)), Text '', used: '', Number (int used), Text '' ('',
               Real (map_option (\<lambda>q. d_mul q 100) (quotient used (h_bucketsz m))), Text ''%) avg listlen: '',
               Real (quotient usedlen used), Text newline]))"

section \<open>Trees\<close>

lemma heap_rdump_ok:
  assumes inv: "heap_inv S cmp h"
  shows "0 < node \<Longrightarrow> 0 < room \<Longrightarrow> h_next h < room + node \<Longrightarrow> \<exists>o1. heap_rdump room h node depth = Inr o1"
proof (induction room arbitrary: node depth)
  case (Suc room)
  show ?case
  proof (cases "h_treesz h \<le> node \<or> h_next h \<le> node")
    case False
    then have n: "node < h_next h" by simp
    have sz: "h_next h \<le> length (h_tree h)" "length (h_tree h) < max_cells" "all_val (take (h_next h) (h_tree h))"
      using inv by (auto simp: heap_inv_def)
    have get: "\<exists>x. arr_get (h_tree h) i = Inr x" if "i < h_next h" for i
      using all_val_nth [OF sz(3), of i] that sz(1) by (simp add: arr_get_def)
    have small: "node < 2 ^ 60" using n sz by (simp add: max_cells_def)
    have kids: "LEFT node = 2 * node + 1" "RIGHT node = 2 * node + 2" "PARENT node = (node - 1) div 2"
      using small Suc.prems(1) by (simp_all add: LEFT_def RIGHT_def PARENT_def sz_mul_def sz_add_def sz_sub_small size_max_def)
    have room: "0 < room" using Suc.prems n by simp
    obtain l where l: "heap_rdump room h (LEFT node) (Suc depth) = Inr l"
      using Suc.IH [of "LEFT node" "Suc depth"] kids room Suc.prems by auto
    obtain r where r: "heap_rdump room h (RIGHT node) (Suc depth) = Inr r"
      using Suc.IH [of "RIGHT node" "Suc depth"] kids room Suc.prems by auto
    have "PARENT node < h_next h" using kids(3) n by linarith
    then obtain x p where "arr_get (h_tree h) node = Inr x" "arr_get (h_tree h) (PARENT node) = Inr p" using get n by blast
    with l r False show ?thesis by simp
  qed simp
qed simp

lemma heap_dump_root:
  assumes inv: "heap_inv S cmp h" and ne: "heap_list h \<noteq> []" and room: "h_next h < room"
  shows "heap_rdump room h 0 0 = Inl Out_Of_Bounds"
proof -
  have n: "0 < h_next h" "h_next h \<le> h_treesz h" "length (h_tree h) = h_treesz h" "h_treesz h < max_cells"
    using heap_list_length [OF inv] ne inv by (auto simp: heap_inv_def simp flip: length_greater_0_conv)
  obtain room' where room': "room = Suc room'" using room by (cases room) auto
  have get: "\<exists>x. arr_get (h_tree h) 0 = Inr x"
    using all_val_nth [of "take (h_next h) (h_tree h)" 0] inv n by (auto simp: heap_inv_def arr_get_def)
  have kids: "LEFT 0 = 1" "PARENT 0 = 2 ^ 63 - 1" by (simp_all add: LEFT_def PARENT_def sz_mul_def sz_add_def sz_sub_def size_max_def)
  have "arr_get (h_tree h) (PARENT 0) = Inl Out_Of_Bounds" using n kids(2) by (simp add: arr_get_def max_cells_def)
  moreover have "\<exists>o1. heap_rdump room' h 1 (Suc 0) = Inr o1" using room room' n(1) by (intro heap_rdump_ok [OF inv]) auto
  ultimately show ?thesis using get kids(1) n room' by auto
qed

text \<open>The line of a node shows its element and that of its parent.\<close>

definition bt_line :: "nat \<Rightarrow> 'a \<Rightarrow> 'a option \<Rightarrow> 'a out" where
  "bt_line depth x par =
     indent depth @ [Text ticks, Elem x, Text (quotes @ '' [''), Pointer, Text '' (p:'', Pointer, Text ('': '' @ ticks),
       (case par of None \<Rightarrow> Text ''(root)'' | Some y \<Rightarrow> Elem y), Text (quotes @ '')]''), Text newline]"

fun bt_text :: "nat \<Rightarrow> 'a option \<Rightarrow> 'a shape \<Rightarrow> 'a out" where
  "bt_text depth par Leaf = []"
| "bt_text depth par (Node l n r) = bt_text (Suc depth) (Some (snd n)) l @ bt_line depth (snd n) par @ bt_text (Suc depth) (Some (snd n)) r"

lemma bintree_rdump_ok:
  "tree_in h p T \<Longrightarrow> (case p of None \<Rightarrow> par = None | Some b \<Rightarrow> \<exists>nd. h b = Some nd \<and> par = Some (bn_data nd)) \<Longrightarrow> height T < room \<Longrightarrow>
   bintree_rdump room h (root_ref T) depth = Inr (bt_text depth par T)"
proof (induction room arbitrary: T p par depth)
  case (Suc room)
  show ?case
  proof (cases T)
    case (Node l n r)
    obtain a x where n: "n = (a, x)" by fastforce
    have h: "h a = Some \<lparr>bn_data = x, bn_left = root_ref l, bn_right = root_ref r, bn_parent = p\<rparr>" "tree_in h (Some a) l" "tree_in h (Some a) r"
      using Suc.prems(1) Node n by auto
    have kids: "bintree_rdump room h (root_ref l) (Suc depth) = Inr (bt_text (Suc depth) (Some x) l)"
      "bintree_rdump room h (root_ref r) (Suc depth) = Inr (bt_text (Suc depth) (Some x) r)"
      using Suc.IH [OF h(2), of "Some x"] Suc.IH [OF h(3), of "Some x"] h(1) Suc.prems(3) Node by simp_all
    have par: "(case p of None \<Rightarrow> Inr (Text ''(root)'') | Some b \<Rightarrow> bind_res (bt_deref h (Some b)) (\<lambda>p. Inr (Elem (bn_data p)))) =
        Inr (case par of None \<Rightarrow> Text ''(root)'' | Some y \<Rightarrow> Elem y)"
      using Suc.prems(2) by (auto split: option.splits)
    show ?thesis using h(1) kids par by (simp add: Node n bt_line_def)
  qed simp
qed simp

lemma bintree_dump_ok:
  assumes "bt_shape t T" and "height T < room"
  shows "bintree_dump room t = Inr ([Text ''bintree '', Pointer, Text ('':'' @ newline)] @ bt_text 0 None T)"
  using bintree_rdump_ok [of "bt_nodes t" None T None room 0] assms by (simp add: bintree_dump_def bt_shape_def)

text \<open>Every element is printed once as the element of a line, in order.\<close>

fun line_elems :: "'a out \<Rightarrow> 'a list" where
  "line_elems (Text s # Elem x # o1) = (if s = ticks then x # line_elems o1 else line_elems o1)"
| "line_elems (x # o1) = line_elems o1"
| "line_elems [] = []"

lemma line_elems_skip: "s \<noteq> ticks \<Longrightarrow> line_elems (Text s # o1) = line_elems o1"
proof (cases o1)
  case (Cons x r)
  then show "s \<noteq> ticks \<Longrightarrow> line_elems (Text s # o1) = line_elems o1" by (cases x) simp_all
qed simp

lemma line_elems_indent: "line_elems (indent depth @ o1) = line_elems o1"
  by (induction depth) (simp_all add: indent_def line_elems_skip ticks_def)

lemma line_elems_line: "line_elems (bt_line depth x par @ o1) = x # line_elems o1"
  by (cases par) (simp_all add: bt_line_def line_elems_indent line_elems_skip quotes_def ticks_def newline_def)

lemma line_elems_text: "line_elems (bt_text depth par T @ o1) = elems T @ line_elems o1"
  by (induction T arbitrary: depth par o1) (simp_all add: line_elems_line)

section \<open>Arrays\<close>

definition data_text :: "'a list \<Rightarrow> 'a out" where
  "data_text xs = concat (map (\<lambda>(i, x). [Text (if i = (0 :: nat) then ''data: '' else '', ''), Elem x]) (enumerate 0 xs))"

lemma data_text_snoc: "data_text (xs @ [x]) = data_text xs @ [Text (if xs = [] then ''data: '' else '', ''), Elem x]"
  by (simp add: data_text_def enumerate_append_eq)

lemma dqdump_loop:
  assumes inv: "deque_inv d"
  shows "c_loop (dqdump_body d) (d_back d, []) = Inr (data_text (deque_list d))"
proof -
  let ?xs = "deque_list d"
  have len: "length ?xs = d_front d - d_back d" "d_back d \<le> d_front d" "d_front d \<le> length (d_data d)"
    using length_deque_list [OF inv] inv by (auto simp: deque_inv_def)
  have get: "arr_get (d_data d) i = Inr (?xs ! (i - d_back d))" if "d_back d \<le> i" "i < d_front d" for i
  proof -
    have "all_val (cells (d_back d) (d_front d) (d_data d))" using inv by (simp add: deque_inv_def)
    from all_val_nth [OF this, of "i - d_back d"] that len show ?thesis
      by (simp add: arr_get_def deque_list_def nth_cells)
  qed
  have "\<exists>r. c_loop (dqdump_body d) (d_back d, []) = Inr r \<and> r = data_text ?xs"
  proof (rule c_loop_rule [where I = "\<lambda>(i, o1). d_back d \<le> i \<and> i \<le> d_front d \<and> o1 = data_text (take (i - d_back d) ?xs)"
        and m = "\<lambda>s. d_front d - fst s"])
    fix s assume "case s of (i, o1) \<Rightarrow> d_back d \<le> i \<and> i \<le> d_front d \<and> o1 = data_text (take (i - d_back d) ?xs)"
    then obtain i where s: "s = (i, data_text (take (i - d_back d) ?xs))" "d_back d \<le> i" "i \<le> d_front d" by auto
    show "(\<exists>t. dqdump_body d s = Inr (Continue t) \<and>
          (case t of (i, o1) \<Rightarrow> d_back d \<le> i \<and> i \<le> d_front d \<and> o1 = data_text (take (i - d_back d) ?xs)) \<and> d_front d - fst t < d_front d - fst s) \<or>
        (\<exists>r. dqdump_body d s = Inr (Break r) \<and> r = data_text ?xs)"
    proof (cases "i < d_front d")
      case True
      have "take (Suc i - d_back d) ?xs = take (i - d_back d) ?xs @ [?xs ! (i - d_back d)]"
        using True s(2) len by (simp add: Suc_diff_le take_Suc_conv_app_nth)
      moreover have "take (i - d_back d) ?xs = [] \<longleftrightarrow> i = d_back d" using True s(2) len by auto
      ultimately have "data_text (take (Suc i - d_back d) ?xs) =
          data_text (take (i - d_back d) ?xs) @ [Text (if i = d_back d then ''data: '' else '', ''), Elem (?xs ! (i - d_back d))]"
        by (simp add: data_text_snoc)
      then show ?thesis using True s get [OF s(2) True] by (simp add: dqdump_body_def)
    next
      case False
      then show ?thesis using s len by (simp add: dqdump_body_def)
    qed
  qed (use len in \<open>simp add: data_text_def\<close>)
  then show ?thesis by simp
qed

lemma dydump_loop:
  assumes inv: "dyn_inv d"
  shows "c_loop (dydump_body d) (0, []) = Inr (data_text (map (dyn_at d) [0..<dy_nused d]))"
proof -
  let ?xs = "map (dyn_at d) [0..<dy_nused d]"
  have "\<exists>r. c_loop (dydump_body d) (0, []) = Inr r \<and> r = data_text ?xs"
  proof (rule c_loop_rule [where I = "\<lambda>(i, o1). i \<le> dy_nused d \<and> o1 = data_text (take i ?xs)" and m = "\<lambda>s. dy_nused d - fst s"])
    fix s assume "case s of (i, o1) \<Rightarrow> i \<le> dy_nused d \<and> o1 = data_text (take i ?xs)"
    then obtain i where s: "s = (i, data_text (take i ?xs))" "i \<le> dy_nused d" by auto
    show "(\<exists>t. dydump_body d s = Inr (Continue t) \<and> (case t of (i, o1) \<Rightarrow> i \<le> dy_nused d \<and> o1 = data_text (take i ?xs)) \<and>
          dy_nused d - fst t < dy_nused d - fst s) \<or>
        (\<exists>r. dydump_body d s = Inr (Break r) \<and> r = data_text ?xs)"
    proof (cases "i < dy_nused d")
      case True
      then have "take (Suc i) ?xs = take i ?xs @ [dyn_at d i]" by (simp add: take_map)
      moreover have "take i ?xs = [] \<longleftrightarrow> i = 0" using True by auto
      ultimately have "data_text (take (Suc i) ?xs) = data_text (take i ?xs) @ [Text (if i = 0 then ''data: '' else '', ''), Elem (dyn_at d i)]"
        by (simp add: data_text_snoc)
      then show ?thesis using True s dyn_arr_get [OF inv True] by (simp add: dydump_body_def)
    next
      case False
      then show ?thesis using s by (simp add: dydump_body_def)
    qed
  qed (simp add: data_text_def)
  then show ?thesis by simp
qed

lemma ring_byte_at:
  assumes inv: "ring_inv b" and t: "r_tail b < r_bufsz b" and i: "i < r_num b"
  shows "arr_get (r_buf b) ((r_tail b + i) mod r_bufsz b) = Inr (ring_bytes b ! i)"
proof -
  let ?k = "(r_tail b + i) mod r_bufsz b"
  have b: "length (r_buf b) = r_bufsz b" "r_head b \<le> r_bufsz b" "r_num b \<le> r_bufsz b" using inv by (simp_all add: ring_inv_def)
  have "ring_cells b ! i = r_buf b ! ?k"
  proof (cases "ring_wrapped b")
    case True
    then have n: "r_num b = r_bufsz b - r_tail b + r_head b" using inv by (auto simp: ring_inv_def ring_wrapped_def)
    show ?thesis
    proof (cases "r_tail b + i < r_bufsz b")
      case True
      then have "i < r_bufsz b - r_tail b" by simp
      then show ?thesis using True \<open>ring_wrapped b\<close> b by (simp add: ring_cells_def nth_append nth_cells)
    next
      case False
      then have "?k = r_tail b + i - r_bufsz b" using i n b(2) t by (subst mod_if) (auto simp: mod_if)
      moreover have "i - (r_bufsz b - r_tail b) < r_head b" using i n False by simp
      moreover have "i - (r_bufsz b - r_tail b) = r_tail b + i - r_bufsz b" using False t by simp
      moreover have "\<not> i < r_bufsz b - r_tail b" using False by simp
      ultimately show ?thesis using \<open>ring_wrapped b\<close> b by (simp add: ring_cells_def nth_append nth_cells)
    qed
  next
    case False
    then have "r_tail b < r_head b" "r_num b = r_head b - r_tail b" using inv i by (auto simp: ring_inv_def ring_wrapped_def split: if_splits)
    then show ?thesis using False i b by (simp add: ring_cells_def nth_cells)
  qed
  moreover have "ring_cells b ! i = Val (ring_bytes b ! i)" using ring_cells_Val [OF inv] ring_bytes_length [OF inv] i by simp
  moreover have "?k < length (r_buf b)" using b(1) t by (simp add: mod_less_divisor)
  ultimately show ?thesis by (intro arr_get_cell) simp_all
qed

lemma rbdump_loop:
  assumes inv: "ring_inv b" and t: "r_tail b < r_bufsz b \<or> r_num b = 0"
  shows "c_loop (rbdump_body f b) (0, r_tail b, []) = Inr (concat (map f (ring_bytes b)))"
proof (cases "r_num b = 0")
  case True
  then show ?thesis using ring_bytes_length [OF inv] by (intro c_loop_Break) (simp add: rbdump_body_def)
next
  case False
  then have t: "r_tail b < r_bufsz b" using t by simp
  let ?bs = "ring_bytes b"
  have len: "length ?bs = r_num b" by (rule ring_bytes_length [OF inv])
  define I where "I = (\<lambda>(i, p, o1). i \<le> r_num b \<and> p = (r_tail b + i) mod r_bufsz b \<and> o1 = concat (map f (take i ?bs)))"
  have "\<exists>r. c_loop (rbdump_body f b) (0, r_tail b, []) = Inr r \<and> r = concat (map f ?bs)"
  proof (rule c_loop_rule [where I = I and m = "\<lambda>s. r_num b - fst s"])
    show "I (0, r_tail b, [])" using t by (simp add: I_def)
    fix s assume "I s"
    then obtain i where s: "s = (i, (r_tail b + i) mod r_bufsz b, concat (map f (take i ?bs)))" "i \<le> r_num b" by (auto simp: I_def)
    show "(\<exists>u. rbdump_body f b s = Inr (Continue u) \<and> I u \<and> r_num b - fst u < r_num b - fst s) \<or>
      (\<exists>r. rbdump_body f b s = Inr (Break r) \<and> r = concat (map f ?bs))"
    proof (cases "i < r_num b")
      case True
      have "(if (r_tail b + i) mod r_bufsz b + 1 = r_bufsz b then 0 else (r_tail b + i) mod r_bufsz b + 1) = (r_tail b + Suc i) mod r_bufsz b"
        by (simp add: mod_Suc)
      then show ?thesis using True s len ring_byte_at [OF inv t True]
        by (simp add: rbdump_body_def I_def take_Suc_conv_app_nth)
    next
      case False
      then show ?thesis using s len by (simp add: rbdump_body_def)
    qed
  qed
  then show ?thesis by simp
qed

lemma rbdump_outside:
  assumes "ring_inv b" and "r_tail b = r_bufsz b" and "0 < r_num b"
  shows "c_loop (rbdump_body f b) (0, r_tail b, []) = Inl Out_Of_Bounds"
  using assms by (intro c_loop_fault) (simp add: rbdump_body_def arr_get_def ring_inv_def)

section \<open>Lists and maps\<close>

fun chain :: "('a \<Rightarrow> 'b out) \<Rightarrow> 'a list \<Rightarrow> 'b out" where
  "chain f [] = []"
| "chain f [x] = f x"
| "chain f (x # y # xs) = f x @ [Text '' --> ''] @ chain f (y # xs)"

lemma pldump_loop:
  "lseg h p ns None \<Longrightarrow> \<forall>x\<in>snd ` set ns. op x = Inr (f x) \<Longrightarrow>
   c_loop (pldump_body op h) (p, o1) = Inr (o1 @ chain f (map snd ns))"
proof (induction ns arbitrary: p o1)
  case Nil
  then show ?case by (intro trans [OF c_loop_Break]) (auto simp: pldump_body_def)
next
  case (Cons n ns)
  obtain a x where n: "n = (a, x)" by fastforce
  then obtain r where r: "p = Some a" "h a = Some \<lparr>pn_data = x, pn_next = r\<rparr>" "lseg h r ns None" using Cons.prems(1) by auto
  have ends: "r = None \<longleftrightarrow> ns = []" using r(3) by (cases ns) auto
  let ?o = "o1 @ f x @ (if ns \<noteq> [] then [Text '' --> ''] else [])"
  have "c_loop (pldump_body op h) (p, o1) = c_loop (pldump_body op h) (r, ?o)"
    using r(1,2) ends Cons.prems(2) n by (intro c_loop_Continue) (simp add: pldump_body_def)
  then show ?case using Cons.IH [OF r(3), of ?o] Cons.prems(2) n by (cases ns) simp_all
qed

lemma ptrlist_dump_ok:
  assumes l: "pl_list l xs" and sz: "length xs < size_max" and op: "\<forall>x\<in>set xs. op x = Inr (f x)"
  shows "ptrlist_dump op (Some l) =
    Inr ([Number (int (length xs)), Text '' elements: [''] @ chain f xs @ [Text ('']'' @ newline)])"
proof -
  obtain ns where ns: "pl_rep l ns" "xs = map snd ns" using l by (auto simp: pl_list_def)
  have "c_loop (pldump_body op (pl_nodes l)) (pl_head l, []) = Inr ([] @ chain f (map snd ns))"
    by (rule pldump_loop) (use ns op in \<open>auto simp: pl_rep_def\<close>)
  then show ?thesis using ptrlist_count_ok [OF l sz] ns(2) by (simp add: ptrlist_dump_def)
qed

lemma pl_rep_iter [simp]: "pl_rep (l\<lparr>pl_iter := i\<rparr>) ns = pl_rep l ns"
  by (simp add: pl_rep_def)

lemma next_in_list:
  assumes "pl_rep l (ms @ (a, x) # rest)" and "pl_iter l = Some a"
  shows "ptrlist_next (Some l) = Inr (case rest of [] \<Rightarrow> (None, Some l) | (b, z) # _ \<Rightarrow> (Some z, Some (l\<lparr>pl_iter := Some b\<rparr>)))"
proof (cases rest)
  case Nil
  then have "pl_nodes l a = Some \<lparr>pn_data = x, pn_next = None\<rparr>" using assms by (auto simp: pl_rep_def lseg_split)
  with Nil assms(2) show ?thesis by (simp add: ptrlist_next_def)
next
  case (Cons y r)
  obtain b z where y: "y = (b, z)" by fastforce
  then obtain q where "pl_nodes l a = Some \<lparr>pn_data = x, pn_next = Some b\<rparr>" "pl_nodes l b = Some \<lparr>pn_data = z, pn_next = q\<rparr>"
    using assms(1) Cons by (auto simp: pl_rep_def lseg_split)
  with y Cons assms(2) show ?thesis by (simp add: ptrlist_next_def)
qed

definition pair_text :: "'k \<times> 'v \<Rightarrow> ('k, 'v) hout" where
  "pair_text = (\<lambda>(k, v). [Elem (Inl k), Text '' --> '', Elem (Inr (Some v))])"

lemma hmdump_pair_loop:
  "pl_rep k (ms @ (a, x) # ks) \<Longrightarrow> pl_iter k = Some a \<Longrightarrow> pl_rep v (ns @ (b, y) # vs) \<Longrightarrow> pl_iter v = Some b \<Longrightarrow>
   length ks = length vs \<Longrightarrow>
   \<exists>k' v'. c_loop hmdump_pair (Some x, Some y, Some k, Some v, o1) =
      Inr (Some k', Some v', o1 @ concat (map pair_text (zip (x # map snd ks) (y # map snd vs)))) \<and>
      pl_rep k' (ms @ (a, x) # ks) \<and> pl_rep v' (ns @ (b, y) # vs)"
proof (induction ks arbitrary: k v ms a x ns b y vs o1)
  case Nil
  then have "hmdump_pair (Some x, Some y, Some k, Some v, o1) = Inr (Continue (None, None, Some k, Some v, o1 @ pair_text (x, y)))"
    using next_in_list [OF Nil(1,2)] next_in_list [OF Nil(3,4)] by (simp add: hmdump_pair_def pair_text_def)
  moreover have "hmdump_pair (None, None, Some k, Some v, o1 @ pair_text (x, y)) = Inr (Break (Some k, Some v, o1 @ pair_text (x, y)))"
    by (simp add: hmdump_pair_def)
  ultimately show ?case using Nil by (simp add: c_loop_Continue c_loop_Break)
next
  case (Cons n ks)
  obtain a1 x1 where n: "n = (a1, x1)" by fastforce
  obtain b1 y1 vs1 where vs: "vs = (b1, y1) # vs1" using Cons.prems(5) by (cases vs) auto
  let ?k = "k\<lparr>pl_iter := Some a1\<rparr>" and ?v = "v\<lparr>pl_iter := Some b1\<rparr>" and ?o = "o1 @ pair_text (x, y)"
  have "hmdump_pair (Some x, Some y, Some k, Some v, o1) = Inr (Continue (Some x1, Some y1, Some ?k, Some ?v, ?o))"
    using next_in_list [OF Cons.prems(1,2)] next_in_list [OF Cons.prems(3,4)] n vs by (simp add: hmdump_pair_def pair_text_def)
  then have "c_loop hmdump_pair (Some x, Some y, Some k, Some v, o1) = c_loop hmdump_pair (Some x1, Some y1, Some ?k, Some ?v, ?o)"
    by (rule c_loop_Continue)
  moreover have "pl_rep ?k ((ms @ [(a, x)]) @ (a1, x1) # ks)" "pl_rep ?v ((ns @ [(b, y)]) @ (b1, y1) # vs1)"
    using Cons.prems(1,3) n vs by simp_all
  ultimately show ?case using Cons.IH [of ?k "ms @ [(a, x)]" a1 x1 ?v "ns @ [(b, y)]" b1 y1 vs1 ?o] Cons.prems(5) n vs by simp
qed

definition bucket_text :: "nat \<Rightarrow> ('k \<times> 'v) list \<Rightarrow> ('k, 'v) hout" where
  "bucket_text i al =
     (if al = [] then [] else [Text ''['', Number (int i), Text '']: ''] @ concat (map pair_text al) @ [Text newline])"

lemma hmdump_bucket_ok:
  assumes rep: "hmap_rep hfn efn keydup m als" and i: "i < h_bucketsz m"
  shows "\<exists>m'. hmdump_bucket m i = Inr (m', bucket_text i (als ! i)) \<and> hmap_rep hfn efn keydup m' als \<and>
    h_bucketsz m' = h_bucketsz m \<and> h_entries m' = h_entries m"
proof -
  note D = hmap_repD [OF rep]
  let ?al = "als ! i"
  have b: "bkt_get (h_keyb m) i = Inr (h_keyb m ! i)" "bkt_get (h_valb m) i = Inr (h_valb m ! i)" using i D(5,6) by (simp_all add: bkt_get_def)
  have sz: "length ?al < size_max" using length_bucket_le [of i als] i D(7,9) by simp
  show ?thesis
  proof (cases "?al = []")
    case True
    then have "(if h_keyb m ! i = None then Inr 0 else ptrlist_count (h_keyb m ! i)) = Inr 0"
      using D(10) [OF i] ptrlist_count_ok [of _ "[]"] sz by (auto simp: bucket_rep_def split: option.splits)
    then show ?thesis using rep b True by (simp add: hmdump_bucket_def bucket_text_def)
  next
    case False
    then obtain k v where kv: "h_keyb m ! i = Some k" "h_valb m ! i = Some v" "pl_list k (map fst ?al)" "pl_list v (map snd ?al)"
      using D(10) [OF i] by (auto simp: bucket_rep_def split: option.splits)
    obtain ks vs where reps: "pl_rep k ks" "map fst ?al = map snd ks" "pl_rep v vs" "map snd ?al = map snd vs"
      using kv(3,4) by (auto simp: pl_list_def)
    have len: "length ks = length ?al" "length vs = length ?al" using reps(2,4) by (metis length_map)+
    obtain a x ks1 where ks: "ks = (a, x) # ks1" using False len(1) by (cases ks) auto
    obtain c y vs1 where vs: "vs = (c, y) # vs1" using False len(2) by (cases vs) auto
    have firsts: "ptrlist_first (Some k) = Inr (Some x, Some (k\<lparr>pl_iter := Some a\<rparr>))" "ptrlist_first (Some v) = Inr (Some y, Some (v\<lparr>pl_iter := Some c\<rparr>))"
      using reps(1,3) ks vs by (auto simp: pl_rep_def ptrlist_first_def)
    have al: "zip (x # map snd ks1) (y # map snd vs1) = ?al"
      using zip_map_fst_snd [of ?al] reps(2,4) ks vs by simp
    have "\<exists>k' v'. c_loop hmdump_pair (Some x, Some y, Some (k\<lparr>pl_iter := Some a\<rparr>), Some (v\<lparr>pl_iter := Some c\<rparr>), []) =
        Inr (Some k', Some v', [] @ concat (map pair_text (zip (x # map snd ks1) (y # map snd vs1)))) \<and>
        pl_rep k' ([] @ (a, x) # ks1) \<and> pl_rep v' ([] @ (c, y) # vs1)"
      by (rule hmdump_pair_loop) (use reps(1,3) ks vs len in simp_all)
    then obtain k' v' where loop: "c_loop hmdump_pair (Some x, Some y, Some (k\<lparr>pl_iter := Some a\<rparr>), Some (v\<lparr>pl_iter := Some c\<rparr>), []) =
        Inr (Some k', Some v', concat (map pair_text ?al))" "pl_rep k' ks" "pl_rep v' vs" unfolding al ks vs by auto
    let ?m = "m\<lparr>h_keyb := (h_keyb m)[i := Some k'], h_valb := (h_valb m)[i := Some v']\<rparr>"
    have "ptrlist_count (Some k) = Inr (length ?al)" using ptrlist_count_ok [OF kv(3)] sz by simp
    then have "hmdump_bucket m i = Inr (?m, bucket_text i ?al)"
      using b kv(1,2) firsts loop(1) False by (simp add: hmdump_bucket_def bucket_text_def)
    moreover have "pl_list k' (map fst ?al)" "pl_list v' (map snd ?al)" using loop(2,3) reps(2,4) by (auto simp: pl_list_def)
    then have "bucket_rep (Some k') (Some v') ?al" by (simp add: bucket_rep_def)
    then have "hmap_rep hfn efn keydup ?m als" using rep i by (auto simp: hmap_rep_def nth_list_update)
    ultimately show ?thesis by simp
  qed
qed

definition buckets_text :: "('k \<times> 'v) list list \<Rightarrow> ('k, 'v) hout" where
  "buckets_text als = concat (map (\<lambda>(i, al). bucket_text i al) (enumerate 0 als))"

lemma buckets_text_snoc: "buckets_text (als @ [al]) = buckets_text als @ bucket_text (length als) al"
  by (simp add: buckets_text_def enumerate_append_eq)

lemma hmdump_loop:
  assumes rep: "hmap_rep hfn efn keydup m als"
  shows "\<exists>m'. c_loop hmdump_body (0, m, []) = Inr (m', buckets_text als) \<and> hmap_rep hfn efn keydup m' als"
proof -
  have len: "length als = h_bucketsz m" by (rule hmap_repD(7) [OF rep])
  define I where "I = (\<lambda>(i, m1, o1). i \<le> length als \<and> hmap_rep hfn efn keydup m1 als \<and> h_bucketsz m1 = length als \<and> o1 = buckets_text (take i als))"
  have "\<exists>r. c_loop hmdump_body (0, m, []) = Inr r \<and> (hmap_rep hfn efn keydup (fst r) als \<and> snd r = buckets_text als)"
  proof (rule c_loop_rule [where I = I and m = "\<lambda>s. length als - fst s"])
    show "I (0, m, [])" using rep len by (simp add: I_def buckets_text_def)
    fix s assume "I s"
    obtain i m1 o1 where s: "s = (i, m1, o1)" by (cases s) auto
    with \<open>I s\<close> have I: "i \<le> length als" "hmap_rep hfn efn keydup m1 als" "h_bucketsz m1 = length als" "o1 = buckets_text (take i als)"
      by (simp_all add: I_def)
    show "(\<exists>t. hmdump_body s = Inr (Continue t) \<and> I t \<and> length als - fst t < length als - fst s) \<or>
      (\<exists>r. hmdump_body s = Inr (Break r) \<and> (hmap_rep hfn efn keydup (fst r) als \<and> snd r = buckets_text als))"
    proof (cases "i < length als")
      case True
      have "i < h_bucketsz m1" using True I(3) by simp
      from hmdump_bucket_ok [OF I(2) this] obtain m2 where m2: "hmdump_bucket m1 i = Inr (m2, bucket_text i (als ! i))"
        "hmap_rep hfn efn keydup m2 als" "h_bucketsz m2 = h_bucketsz m1" by blast
      have "buckets_text (take (Suc i) als) = o1 @ bucket_text i (als ! i)"
        using True I(4) by (simp add: take_Suc_conv_app_nth buckets_text_snoc min_def)
      then show ?thesis using True s I(3) m2 by (simp add: hmdump_body_def I_def)
    next
      case False
      then show ?thesis using I s by (simp add: hmdump_body_def)
    qed
  qed
  then show ?thesis by auto
qed

lemma hmstat_loop:
  assumes rep: "hmap_rep hfn efn keydup m als"
  shows "\<exists>e. c_loop (hmstat_body m) (0, 0, 0, 0) = Inr (length (filter (\<lambda>al. al \<noteq> []) als), length (concat als), e)"
proof -
  have len: "length als = h_bucketsz m" by (rule hmap_repD(7) [OF rep])
  define I where "I = (\<lambda>(i, u, l, e :: nat). i \<le> length als \<and> u = length (filter (\<lambda>al. al \<noteq> []) (take i als)) \<and> l = length (concat (take i als)))"
  have "\<exists>r. c_loop (hmstat_body m) (0, 0, 0, 0) = Inr r \<and> (fst r = length (filter (\<lambda>al. al \<noteq> []) als) \<and> fst (snd r) = length (concat als))"
  proof (rule c_loop_rule [where I = I and m = "\<lambda>s. length als - fst s"])
    show "I (0, 0, 0, 0)" by (simp add: I_def)
    fix s assume "I s"
    obtain i u l e where s: "s = (i, u, l, e)" by (cases s) auto
    with \<open>I s\<close> have I: "i \<le> length als" "u = length (filter (\<lambda>al. al \<noteq> []) (take i als))" "l = length (concat (take i als))" by (simp_all add: I_def)
    show "(\<exists>t. hmstat_body m s = Inr (Continue t) \<and> I t \<and> length als - fst t < length als - fst s) \<or>
      (\<exists>r. hmstat_body m s = Inr (Break r) \<and> (fst r = length (filter (\<lambda>al. al \<noteq> []) als) \<and> fst (snd r) = length (concat als)))"
    proof (cases "i < length als")
      case True
      then have i: "i < h_bucketsz m" using len by simp
      have get: "bkt_get (h_keyb m) i = Inr (h_keyb m ! i)" using i hmap_repD(5) [OF rep] by (simp add: bkt_get_def)
      have sz: "length (als ! i) < size_max" using length_bucket_le [OF True] hmap_repD(9) [OF rep] by simp
      have take: "take (Suc i) als = take i als @ [als ! i]" using True by (simp add: take_Suc_conv_app_nth)
      show ?thesis
      proof (cases "h_keyb m ! i")
        case None
        then have "als ! i = []" using hmap_repD(10) [OF rep i] by (auto simp: bucket_rep_def split: option.splits)
        then show ?thesis using True s I get None take len by (simp add: hmstat_body_def I_def)
      next
        case (Some k)
        then have "pl_list k (map fst (als ! i))" using hmap_repD(10) [OF rep i] by (auto simp: bucket_rep_def split: option.splits)
        then have "ptrlist_count (Some k) = Inr (length (als ! i))" using ptrlist_count_ok [of k] sz by auto
        then show ?thesis using True s I get Some take len by (auto simp: hmstat_body_def I_def)
      qed
    next
      case False
      then show ?thesis using I s len by (simp add: hmstat_body_def)
    qed
  qed
  then show ?thesis by auto
qed

lemma hmap_dumpstat_ok:
  assumes "hmap_rep hfn efn keydup m als"
  defines "used \<equiv> length (filter (\<lambda>al. al \<noteq> []) als)"
  shows "hmap_dumpstat (Some m) =
    Inr [Text ''hashmap stat: bucksz: '', Number (int (length als)), Text '', used: '', Number (int used), Text '' ('',
         Real (map_option (\<lambda>q. d_mul q 100) (quotient used (length als))), Text ''%) avg listlen: '',
         Real (quotient (length (concat als)) used), Text newline]"
  using hmstat_loop [OF assms(1)] hmap_repD(7) [OF assms(1)] by (auto simp: hmap_dumpstat_def used_def)

lemma slist_dump_ok:
  assumes "sl_list s = Some l" and "pl_list l as" and "length as < size_max" and "\<forall>a\<in>set as. sl_strs s a \<noteq> None"
  shows "slist_dump s = Inr ([Number (int (length as)), Text '' elements: [''] @ chain (\<lambda>a. [Text (the (sl_strs s a))]) as @
    [Text ('']'' @ newline)])"
  unfolding slist_dump_def assms(1)
  by (rule ptrlist_dump_ok [OF assms(2,3)]) (use assms(4) in \<open>auto simp: strdump_def\<close>)

lemma deque_dump_ok:
  assumes "deque_inv d"
  shows "deque_dump (Some d) =
    Inr ([Text ''deque '', Pointer, Text '' [nelem: '', Number (int (d_nelem d)), Text '', count: '', Number (int (deque_count d)),
          Text '' front: '', Number (int (d_front d)), Text '', back: '', Number (int (d_back d)), Text (''];'' @ newline)] @
         (if deque_list d = [] then [Text ''[deque is empty]''] else data_text (deque_list d)) @ [Text newline])"
proof -
  have "deque_list d = [] \<longleftrightarrow> d_back d = d_front d" using length_deque_list [OF assms] assms by (auto simp: deque_inv_def simp flip: length_0_conv)
  then show ?thesis using dqdump_loop [OF assms] by (simp add: deque_dump_def)
qed

lemma dynarr_dump_ok:
  assumes "dyn_inv d"
  shows "dynarr_dump (Some d) =
    Inr ([Text ''dynarr '', Pointer, Text '' [nelem: '', Number (int (dy_nelem d)), Text '', count: '', Number (int (dynarr_count d)),
          Text ('' ]:'' @ newline)] @
         (if dynarr_count d = 0 then [Text ''[dynarr is empty]''] else data_text (map (dyn_at d) [0..<dynarr_count d])) @ [Text newline])"
  using dydump_loop [OF assms] by (simp add: dynarr_dump_def dynarr_count_def)

section \<open>Properties\<close>

text \<open>
  \<open>heap_dump\<close> prints the title of an empty heap, but on every other heap it reads the parent of the root,
  which is an index far outside the array.
\<close>

theorem heap_dump_out_of_bounds:
  assumes "heap_inv S cmp h" and "heap_count h < room"
  shows "heap_dump room h = (if heap_count h = 0 then Inr [Text ''heap '', Pointer, Text ('':'' @ newline)] else Inl Out_Of_Bounds)"
proof -
  have n: "heap_count h = h_next h" "length (heap_list h) = h_next h" using assms(1) heap_list_length by (auto simp: heap_count_def heap_inv_def)
  show ?thesis
  proof (cases "h_next h = 0")
    case True
    obtain room' where "room = Suc room'" using assms(2) by (cases room) auto
    then show ?thesis using True n(1) by (simp add: heap_dump_def)
  next
    case False
    then have "heap_list h \<noteq> []" using n(2) by auto
    with heap_dump_root [OF assms(1), of room] n(1) assms(2) False show ?thesis by (simp add: heap_dump_def)
  qed
qed

theorem heap_dump_out_of_bounds_witness: "heap_dump 4 demo_heap = Inl Out_Of_Bounds"
  using heap_dump_out_of_bounds [OF demo_heap_inv, of 4] by (simp add: demo_heap_def heap_count_def)

text \<open>
  \<open>bintree_dump\<close> prints a line for every element of the tree, in order, and needs nested calls for the height and one more.
\<close>

theorem bintree_dump_in_order:
  assumes "bt_shape t T" and "height T < room"
  shows "\<exists>o1. bintree_dump room t = Inr o1 \<and> line_elems o1 = elems T"
  using bintree_dump_ok [OF assms] line_elems_text [of 0 None T "[]"] by (simp add: newline_def ticks_def line_elems_skip)

theorem bintree_dump_in_order_witness: "\<exists>o1. bintree_dump 4 demo_bintree = Inr o1 \<and> line_elems o1 = [2, 4, 8, 9]"
proof -
  have "bt_shape demo_bintree demo_shape" "height demo_shape < 4" "elems demo_shape = [2, 4, 8, 9]"
    using demo_bintree_rep by (simp_all add: bt_rep_def demo_shape_def)
  with bintree_dump_in_order [of demo_bintree demo_shape 4] show ?thesis by simp
qed

text \<open>
  C39: \<open>ringbuf_dump\<close> prints the stored bytes twice, oldest first, in hexadecimal and sanitized; but when the last byte
  taken out was the last of the buffer and others have been put in since, it reads past the end of the buffer.
\<close>

theorem ringbuf_dump_bytes:
  assumes "ring_inv b"
  shows "if r_tail b = r_bufsz b \<and> 0 < ringbuf_count b then ringbuf_dump b = Inl Out_Of_Bounds
    else \<exists>before. ringbuf_dump b =
      Inr (before @ [Text ''actual buffer:''] @ concat (map (\<lambda>c. [Text '' '', Hex c]) (ring_bytes b)) @ [Text newline, Text ''sanitized string:''] @
           concat (map sane_byte (ring_bytes b)) @ [Text newline]) \<and> set before \<inter> range Hex = {}"
proof (cases "r_tail b = r_bufsz b \<and> 0 < r_num b")
  case True
  then have "c_loop (rbdump_body (\<lambda>c. [Text '' '', Hex c]) b) (0, r_tail b, []) = Inl Out_Of_Bounds"
    by (intro rbdump_outside [OF assms]) auto
  then show ?thesis using True by (simp add: ringbuf_dump_def ringbuf_count_def)
next
  case False
  then have "r_tail b < r_bufsz b \<or> r_num b = 0" using assms by (auto simp: ring_inv_def)
  note loops = rbdump_loop [OF assms this]
  let ?before = "[Text ''ringbuf dump (hnd: '', Pointer, Text ('')'' @ newline),
           Text ''distance start-head: '', Number (int (r_head b)), Text newline,
           Text ''distance head-tail: '', Number (int (r_tail b) - int (r_head b)), Text newline,
           Text ''distance tail-end: '', Number (int (r_bufsz b) - int (r_tail b)), Text newline,
           Text ''bufsz: '', Number (int (r_bufsz b)), Text '', numelem :'', Number (int (r_num b)), Text newline]"
  have "ringbuf_dump b =
      Inr (?before @ [Text ''actual buffer:''] @ concat (map (\<lambda>c. [Text '' '', Hex c]) (ring_bytes b)) @ [Text newline, Text ''sanitized string:''] @
           concat (map sane_byte (ring_bytes b)) @ [Text newline])"
    by (simp add: ringbuf_dump_def loops)
  moreover have "set ?before \<inter> range Hex = {}" by auto
  ultimately show ?thesis using False by (auto simp: ringbuf_count_def)
qed

text \<open>The buffer of 4 bytes after four bytes were put in and taken out and two more put in.\<close>

definition edge_ring :: ringbuf where
  "edge_ring = \<lparr>r_buf = map Val [5, 6, 3, 4], r_head = 2, r_tail = 4, r_num = 2, r_bufsz = 4\<rparr>"

lemma edge_ring_reached:
  "\<exists>b b1 b2 data. ringbuf_init (mem_upto 100) 4 = Some b \<and> ringbuf_put (mem_upto 100) b (map Val [1, 2, 3, 4]) 4 = Inr b1 \<and>
    ringbuf_get b1 [Undef, Undef, Undef, Undef] 4 = Inr (4, data, b2) \<and> ringbuf_put (mem_upto 100) b2 (map Val [5, 6]) 2 = Inr edge_ring"
  by (simp add: ringbuf_init_def mem_upto_def sizeof_ringbuf_def ringbuf_put_def ring_store_def ring_wrapped_def sz_sub_def sz_add_def
      size_max_def arr_copy_def ringbuf_get_def do_get_def edge_ring_def)

theorem ringbuf_dump_bytes_witness:
  "ring_bytes edge_ring = [5, 6] \<and> ringbuf_dump edge_ring = Inl Out_Of_Bounds \<and>
   (\<exists>before. ringbuf_dump (edge_ring\<lparr>r_tail := 0\<rparr>) =
      Inr (before @ [Text ''actual buffer:'', Text '' '', Hex 5, Text '' '', Hex 6, Text newline, Text ''sanitized string:'',
           Text ''<'', Hex 5, Text ''>'', Text ''<'', Hex 6, Text ''>'', Text newline]))"
proof -
  have inv: "ring_inv edge_ring" "ring_inv (edge_ring\<lparr>r_tail := 0\<rparr>)" and bytes: "ring_bytes edge_ring = [5, 6]" "ring_bytes (edge_ring\<lparr>r_tail := 0\<rparr>) = [5, 6]"
    by (simp_all add: ring_inv_def edge_ring_def ring_cells_def ring_bytes_def ring_wrapped_def cells_def)
  from ringbuf_dump_bytes [OF inv(1)] ringbuf_dump_bytes [OF inv(2)] bytes show ?thesis
    by (auto simp: ringbuf_count_def edge_ring_def sane_byte_def isprint_def)
qed

text \<open>
  \<open>hmap_dump\<close> prints every entry of a hash map once, bucket by bucket, keeps the map well-formed with the same entries,
  and dereferences a NULL handle although it means to report it.
\<close>

theorem hmap_dump_complete:
  assumes "hmap_rep hfn efn keydup m als"
  shows "(\<exists>m'. hmap_dump (Some m) =
      Inr ([Text ''===hashmap dump (count: '', Number (int (hmap_count (Some m))), Text ('')==='' @ newline)] @ buckets_text als @
           [Text (''===end of hashmap dump==='' @ newline)], Some m') \<and> hmap_rep hfn efn keydup m' als) \<and>
    hmap_dump None = (Inl Null_Deref :: (('k, 'v) hout \<times> ('k, 'v) hmap option) res)"
  using hmdump_loop [OF assms] by (auto simp: hmap_dump_def hmap_count_def)

theorem hmap_dump_complete_witness:
  "\<exists>m'. hmap_dump (Some demo_hmap) =
    Inr ([Text ''===hashmap dump (count: '', Number 1, Text ('')==='' @ newline), Text ''['', Number 0, Text '']: '', Elem (Inl 4), Text '' --> '',
          Elem (Inr (Some ''x'')), Text newline, Text (''===end of hashmap dump==='' @ newline)], Some m')"
  using hmap_dump_complete [OF demo_hmap_rep]
  by (auto simp: hmap_count_def demo_hmap_def buckets_text_def bucket_text_def pair_text_def)

end
