(* ===== verification/Dispose.thy ===== *)
theory Dispose imports Heap Stack BufRd DynArr begin

text \<open>
  The functions that free a structure of one or two blocks: \<open>heap_dispose\<close>, \<open>deque_dispose\<close>, \<open>stack_dispose\<close>,
  \<open>ringbuf_dispose\<close>, \<open>bufrd_dispose\<close> and \<open>dynarr_dispose\<close>. The result is the list of the sizes, in bytes, of the
  blocks that are freed, in order. A data pointer that is NULL (the array without cells) frees nothing. The
  lemmas show that what is freed is what was asked for: the array of its current size, and the handle.
\<close>

section \<open>The code\<close>

definition free_block :: "nat \<Rightarrow> 'a cell list \<Rightarrow> nat list" where
  "free_block cell_size a = (if a = [] then [] else [cell_size * length a])"

definition heap_dispose :: "'a heap \<Rightarrow> nat list" where
  "heap_dispose h = free_block ptr_size (h_tree h) @ [sizeof_heap]"

definition deque_dispose :: "'a deque option \<Rightarrow> nat list" where
  "deque_dispose h =
     (case h of None \<Rightarrow> [] | Some d \<Rightarrow> free_block ptr_size (d_data d) @ [sizeof_deque])"

definition stack_dispose :: "'a stack \<Rightarrow> nat list" where
  "stack_dispose s = deque_dispose (s_data s) @ [sizeof_stack]"

definition ringbuf_dispose :: "ringbuf \<Rightarrow> nat list" where
  "ringbuf_dispose b = free_block 1 (r_buf b) @ [sizeof_ringbuf]"

text \<open>A reader whose ring buffer could not be created has a NULL pointer to it, which is dereferenced.\<close>

definition bufrd_dispose :: "'io bufrd \<Rightarrow> nat list res" where
  "bufrd_dispose b = bind_res (the_ring b) (\<lambda>ring. Inr (ringbuf_dispose ring @ [sizeof_bufrd]))"

definition dynarr_dispose :: "'a dynarr option \<Rightarrow> nat list" where
  "dynarr_dispose h =
     (case h of None \<Rightarrow> [] | Some d \<Rightarrow> free_block ptr_size (dy_data d) @ [sizeof_dynarr])"

section \<open>What is freed\<close>

named_theorems dispose_simps \<open>the functions that free, unfolded\<close>

lemmas [dispose_simps] = free_block_def heap_dispose_def deque_dispose_def stack_dispose_def ringbuf_dispose_def
  bufrd_dispose_def dynarr_dispose_def

lemma heap_dispose_all: "heap_inv S cmp h \<Longrightarrow> heap_dispose h = [ptr_size * h_treesz h, sizeof_heap]"
  by (auto simp: heap_inv_def dispose_simps)

lemma deque_dispose_all: "deque_inv d \<Longrightarrow> deque_dispose (Some d) = [ptr_size * d_nelem d, sizeof_deque]"
  by (auto simp: deque_inv_def dispose_simps)

lemma stack_dispose_all:
  "stack_inv s \<Longrightarrow> \<exists>n. stack_dispose s = [ptr_size * n, sizeof_deque, sizeof_stack]"
  by (auto elim!: stack_invE simp: stack_dispose_def deque_dispose_all)

lemma ringbuf_dispose_all: "ring_inv b \<Longrightarrow> ringbuf_dispose b = [r_bufsz b, sizeof_ringbuf]"
  by (auto simp: ring_inv_def dispose_simps)

lemma bufrd_dispose_all:
  "bufrd_inv b \<Longrightarrow> \<exists>n. bufrd_dispose b = Inr [n, sizeof_ringbuf, sizeof_bufrd]"
  by (auto simp: bufrd_inv_def bufrd_dispose_def the_ring_def ringbuf_dispose_all)

lemma dynarr_dispose_all:
  "dyn_inv d \<Longrightarrow> dynarr_dispose (Some d) =
     (if dy_nelem d = 0 then [] else [ptr_size * dy_nelem d]) @ [sizeof_dynarr]"
  by (cases "dy_data d = []") (auto simp: dyn_inv_def dispose_simps simp flip: length_greater_0_conv)

text \<open>The blocks of a reader, freed right after it was made, are those that were asked for; without a ring buffer it cannot be freed.\<close>

lemma bufrd_init_dispose:
  assumes "bufrd_init alloc fd n = Some b" and "0 < n" and "alloc n"
  shows "bufrd_dispose b = (if alloc sizeof_ringbuf then Inr [n, sizeof_ringbuf, sizeof_bufrd] else Inl Null_Deref)"
  using assms by (auto simp: bufrd_init_def ringbuf_init_def the_ring_def dispose_simps split: if_splits)

end
