(* ===== verification/TestKit.thy ===== *)
theory TestKit imports Compare PtrList begin

text \<open>
  What the unit tests (src/unittests) have in common. A test is a function \<open>const char *f(void)\<close>: it returns
  NULL when it passes and a message at the first answer of the library that is not the expected one. A
  part of a test goes on with a state or returns a message (\<open>'s tst\<close>; in general something of another type), or faults; the result of the whole is
  its \<open>verdict\<close>. Random numbers come from \<open>rand_fn\<close>, which is \<open>rand\<close> on a state of the generator.

  A pointer to a number that the test does not change while the library holds the pointer is the pair of
  its address and the number, so that the comparison functions the library calls can look at the number.
\<close>

section \<open>Running a test\<close>

type_synonym ('e, 's) part = "('e + 's) res"
type_synonym 's tst = "(string, 's) part"

definition fail :: "'e \<Rightarrow> ('e, 's) part" where
  "fail msg = Inr (Inl msg)"

definition go_on :: "'s \<Rightarrow> ('e, 's) part" where
  "go_on s = Inr (Inr s)"

definition fail_if :: "bool \<Rightarrow> 'e \<Rightarrow> ('e, unit) part" where
  "fail_if b msg = (if b then fail msg else go_on ())"

definition and_then :: "('e, 's) part \<Rightarrow> ('s \<Rightarrow> ('e, 't) part) \<Rightarrow> ('e, 't) part" where
  "and_then m f = bind_res m (\<lambda>r. case r of Inl msg \<Rightarrow> fail msg | Inr s \<Rightarrow> f s)"

text \<open>A call whose result the test does not look at.\<close>

definition call :: "'s res \<Rightarrow> ('e, 's) part" where
  "call m = bind_res m go_on"

text \<open>\<open>for (size_t i = 0; i < n; i++)\<close> is \<open>for_each [0..<n]\<close>.\<close>

fun for_each :: "'i list \<Rightarrow> ('i \<Rightarrow> 's \<Rightarrow> ('e, 's) part) \<Rightarrow> 's \<Rightarrow> ('e, 's) part" where
  "for_each [] body s = go_on s"
| "for_each (i # is) body s = and_then (body i s) (for_each is body)"

definition verdict :: "'s tst \<Rightarrow> string option res" where
  "verdict m = bind_res m (\<lambda>r. Inr (case r of Inl msg \<Rightarrow> Some msg | Inr s \<Rightarrow> None))"

section \<open>Parts of a test that go on\<close>

text \<open>\<open>goes_on m P\<close>: the part ends without a message, in a state with \<open>P\<close>.\<close>

definition goes_on :: "('e, 's) part \<Rightarrow> ('s \<Rightarrow> bool) \<Rightarrow> bool" where
  "goes_on m P \<longleftrightarrow> (\<exists>s. m = Inr (Inr s) \<and> P s)"

lemma goes_on_simps [simp]: "goes_on (go_on s) P \<longleftrightarrow> P s" "\<not> goes_on (fail msg) P" "\<not> goes_on (Inl e) P"
  by (auto simp: goes_on_def go_on_def fail_def)

lemma goes_on_fail_if [simp]: "goes_on (fail_if b msg) P \<longleftrightarrow> \<not> b \<and> P ()"
  by (simp add: fail_if_def)

lemma and_then_simps [simp]:
  "and_then (go_on s) f = f s" "and_then (fail msg) f = fail msg" "and_then (Inl e) f = Inl e"
  by (simp_all add: and_then_def go_on_def fail_def)

lemma and_then_fail_if [simp]: "and_then (fail_if b msg) f = (if b then fail msg else f ())"
  by (simp add: fail_if_def)

lemma goes_on_call: "m = Inr s \<Longrightarrow> P s \<Longrightarrow> goes_on (call m) P"
  by (simp add: call_def)

lemma goes_on_then:
  assumes "goes_on m Q" and "\<And>s. Q s \<Longrightarrow> goes_on (f s) P"
  shows "goes_on (and_then m f) P"
  using assms by (auto simp: goes_on_def and_then_def)

lemma goes_on_mono: "goes_on m Q \<Longrightarrow> (\<And>s. Q s \<Longrightarrow> P s) \<Longrightarrow> goes_on m P"
  by (auto simp: goes_on_def)

lemma goes_on_for:
  assumes "I i s" and "i \<le> n" and "\<And>i s. I i s \<Longrightarrow> i < n \<Longrightarrow> goes_on (body i s) (I (Suc i))"
  shows "goes_on (for_each [i..<n] body s) (I n)"
  using assms(1,2)
proof (induction "n - i" arbitrary: i s)
  case 0
  then show ?case by simp
next
  case (Suc k)
  then have i: "[i..<n] = i # [Suc i..<n]" "i < n" by (auto simp: upt_conv_Cons)
  have "goes_on (for_each [Suc i..<n] body t) (I n)" if "I (Suc i) t" for t
    using Suc.hyps(1) [of "Suc i" t] Suc.hyps(2) that i by simp
  then show ?case unfolding i(1) for_each.simps using assms(3) [OF Suc.prems(1) i(2)] by (rule goes_on_then [rotated])
qed

lemmas goes_on_for0 = goes_on_for [where i = 0, OF _ le0]

lemma verdict_passes: "goes_on m P \<Longrightarrow> verdict m = Inr None"
  by (auto simp: goes_on_def verdict_def)

lemma verdict_fail [simp]: "verdict (fail msg) = Inr (Some msg)"
  by (simp add: verdict_def fail_def)

section \<open>Random numbers\<close>

definition rand_ok :: "('r \<Rightarrow> int \<times> 'r) \<Rightarrow> bool" where
  "rand_ok rand_fn \<longleftrightarrow> (\<forall>r. 0 \<le> fst (rand_fn r) \<and> fst (rand_fn r) < 2 ^ 31)"

text \<open>\<open>(rand() >> 3) % m\<close>\<close>

definition rand_below :: "('r \<Rightarrow> int \<times> 'r) \<Rightarrow> int \<Rightarrow> 'r \<Rightarrow> int \<times> 'r" where
  "rand_below rand_fn m r = (let (x, r1) = rand_fn r in (drop_bit 3 x mod m, r1))"

lemma rand_below_range: "0 < m \<Longrightarrow> rand_below rand_fn m r = (x, r1) \<Longrightarrow> 0 \<le> x \<and> x < m"
  by (auto simp: rand_below_def split: prod.splits)

section \<open>Pointers to numbers\<close>

type_synonym int_ptr = "nat \<times> 32 word"

text \<open>The array \<open>ia\<close> of several tests, and \<open>&ia[i]\<close>.\<close>

definition ten_ints :: "32 word list" where
  "ten_ints = [0, 1, 2, 3, 4, 5, 6, 7, 8, 9]"

definition int_at :: "32 word list \<Rightarrow> nat \<Rightarrow> int_ptr" where
  "int_at ia i = (i, ia ! i)"

text \<open>\<open>icmp\<close> and \<open>intcmp\<close> look at the numbers; the difference of two numbers that are not negative does not overflow.\<close>

definition ptr_icmp :: "int_ptr \<Rightarrow> int_ptr \<Rightarrow> int" where
  "ptr_icmp p q = icmp (snd p) (snd q)"

definition nonneg_ptrs :: "int_ptr set" where
  "nonneg_ptrs = {p. 0 \<le> sint (snd p)}"

lemma icmp_nonneg:
  assumes "0 \<le> sint x" and "0 \<le> sint y"
  shows "icmp x y = sint x - sint y"
proof -
  have "sint x < 2 ^ 31" "sint y < 2 ^ 31"
    using sint_lt [of x] sint_lt [of y] by simp_all
  with assms have "- (2 ^ (32 - 1)) \<le> sint x - sint y" "sint x - sint y < 2 ^ (32 - 1)" by simp_all
  then show ?thesis by (simp add: icmp_def sint_word_ariths signed_take_bit_int_eq_self)
qed

lemma nonneg_order: "cmp_order nonneg_ptrs ptr_icmp"
  by unfold_locales (auto simp: nonneg_ptrs_def ptr_icmp_def icmp_nonneg)

interpretation nonneg: cmp_order nonneg_ptrs ptr_icmp by (rule nonneg_order)

lemma sint_of_small: "0 \<le> x \<Longrightarrow> x < 2 ^ 31 \<Longrightarrow> sint (word_of_int x :: 32 word) = x"
  by (simp add: signed_of_int signed_take_bit_int_eq_self)

section \<open>Arrays of numbers\<close>

type_synonym ints = "32 word cell list"

text \<open>Memory for nodes that is never exhausted.\<close>

definition nodes_ok :: "(nat set \<Rightarrow> nat option) \<Rightarrow> bool" where
  "nodes_ok new \<longleftrightarrow> new_ok new \<and> (\<forall>A. new A \<noteq> None)"

text \<open>An array of \<open>n\<close> numbers of which the first are set.\<close>

definition filled :: "nat \<Rightarrow> 'a list \<Rightarrow> 'a cell list" where
  "filled n vs = map Val vs @ replicate (n - length vs) Undef"

lemma filled_0: "filled n [] = replicate n Undef"
  by (simp add: filled_def)

lemma filled_set: "length vs < n \<Longrightarrow> arr_set (filled n vs) (length vs) v = Inr (filled n (vs @ [v :: 'a]))"
proof -
  assume "length vs < n"
  then have "replicate (n - length vs) Undef = Undef # replicate (n - Suc (length vs)) (Undef :: 'a cell)"
    by (simp add: Suc_diff_Suc flip: replicate_Suc)
  then show ?thesis using arr_set_end [of vs Undef _ v] by (simp add: filled_def)
qed

end
