(* ===== verification/TestHeap.thy ===== *)
theory TestHeap imports TestKit Dispose begin

text \<open>
  test_heap.c. For every source of random numbers the test passes, given memory: what it does by sampling,
  comparing the elements removed with the array sorted by \<open>qsort\<close>, holds for every sample.
\<close>

section \<open>The code\<close>

text \<open>\<open>qsort\<close> of the C library, as insertion sort; an element that was never written cannot be compared.\<close>

fun insert_by :: "('a \<Rightarrow> 'a \<Rightarrow> int) \<Rightarrow> 'a \<Rightarrow> 'a list \<Rightarrow> 'a list" where
  "insert_by cmp x [] = [x]"
| "insert_by cmp x (y # ys) = (if cmp x y \<le> 0 then x # y # ys else y # insert_by cmp x ys)"

definition c_qsort :: "('a \<Rightarrow> 'a \<Rightarrow> int) \<Rightarrow> 'a cell list \<Rightarrow> 'a cell list res" where
  "c_qsort cmp a = (if all_val a then Inr (map Val (foldr (insert_by cmp) (vals a) [])) else Inl Indeterminate)"

definition not_null :: "'a option \<Rightarrow> 'a res" where
  "not_null h = (case h of None \<Rightarrow> Inl Null_Deref | Some x \<Rightarrow> Inr x)"

definition test_heap_basic :: "(nat \<Rightarrow> bool) \<Rightarrow> string option res" where
  "test_heap_basic alloc = verdict (
     bind_res (not_null (heap_init alloc ptr_icmp)) (\<lambda>mp.
     and_then (fail_if (heap_count mp \<noteq> 0) ''newly allocated map not empty'') (\<lambda>_.
     go_on (heap_dispose mp))))"

text \<open>\<open>COUNTOF(ia)\<close>, and the bodies of the three loops.\<close>

definition heap_sample :: nat where
  "heap_sample = 1000"

definition heap_fill ::
  "(nat \<Rightarrow> bool) \<Rightarrow> ('r \<Rightarrow> int \<times> 'r) \<Rightarrow> nat \<Rightarrow> int_ptr heap \<times> ints \<times> ints \<times> 'r \<Rightarrow> (int_ptr heap \<times> ints \<times> ints \<times> 'r) tst" where
  "heap_fill alloc rand_fn i = (\<lambda>(mp, ia, ib, r).
     let (x, r1) = rand_below rand_fn (int heap_sample) r; v = word_of_int x in
     bind_res (arr_set ib i v) (\<lambda>ib1.
     bind_res (arr_set ia i v) (\<lambda>ia1.
     bind_res (heap_insert alloc mp (Some (i, v))) (\<lambda>mp1.
     go_on (mp1, ia1, ib1, r1)))))"

definition heap_take :: "nat \<Rightarrow> int_ptr heap \<times> ints \<Rightarrow> (int_ptr heap \<times> ints) tst" where
  "heap_take i = (\<lambda>(mp, ic).
     bind_res (heap_remove mp) (\<lambda>(x, mp1).
     case x of
       None \<Rightarrow> fail ''remove failed''
     | Some p \<Rightarrow> bind_res (arr_set ic i (snd p)) (\<lambda>ic1. go_on (mp1, ic1))))"

definition same_ints :: "ints \<Rightarrow> ints \<Rightarrow> nat \<Rightarrow> unit \<Rightarrow> unit tst" where
  "same_ints ib ic i = (\<lambda>_.
     bind_res (arr_get ib i) (\<lambda>b.
     bind_res (arr_get ic i) (\<lambda>c.
     fail_if (b \<noteq> c) ''wrong result from removing'')))"

definition test_heap_insert :: "(nat \<Rightarrow> bool) \<Rightarrow> ('r \<Rightarrow> int \<times> 'r) \<Rightarrow> 'r \<Rightarrow> string option res" where
  "test_heap_insert alloc rand_fn r = verdict (
     bind_res (not_null (heap_init alloc ptr_icmp)) (\<lambda>mp.
     let a = replicate heap_sample Undef in
     and_then (for_each [0..<heap_sample] (heap_fill alloc rand_fn) (mp, a, a, r)) (\<lambda>(mp1, ia, ib, r1).
     and_then (for_each [0..<heap_sample] heap_take (mp1, a)) (\<lambda>(mp2, ic).
     bind_res (heap_remove mp2) (\<lambda>(x, mp3).
     and_then (fail_if (x \<noteq> None) ''remove did not fail when it should'') (\<lambda>_.
     bind_res (c_qsort icmp ib) (\<lambda>ib1.
     and_then (for_each [0..<heap_sample] (same_ints ib1 ic) ()) (\<lambda>_.
     go_on (heap_dispose mp3)))))))))"

section \<open>Sorting\<close>

context cmp_order begin

lemma mset_insert_by: "mset (insert_by cmp x ys) = add_mset x (mset ys)"
  by (induction ys) auto

lemma insert_by_sorted:
  "x \<in> S \<Longrightarrow> set ys \<subseteq> S \<Longrightarrow> sorted_wrt (\<lambda>a b. cmp a b \<le> 0) ys \<Longrightarrow> sorted_wrt (\<lambda>a b. cmp a b \<le> 0) (insert_by cmp x ys)"
proof (induction ys)
  case (Cons y ys)
  have s: "set (insert_by cmp x ys) = insert x (set ys)"
    using mset_insert_by [of x ys] by (metis set_mset_add_mset_insert set_mset_mset)
  show ?case
  proof (cases "cmp x y \<le> 0")
    case True
    then show ?thesis using Cons.prems by (auto intro: cmp_trans [of x y])
  next
    case False
    then have "cmp y x \<le> 0" using cmp_flip [of x y] Cons.prems by (simp add: le_less) (use cmp_flip [of y x] in force)
    then show ?thesis using False Cons s by auto
  qed
qed simp

lemma sort_by_ok:
  assumes "set xs \<subseteq> S"
  shows "mset (foldr (insert_by cmp) xs []) = mset xs \<and> sorted_wrt (\<lambda>a b. cmp a b \<le> 0) (foldr (insert_by cmp) xs [])"
  using assms
proof (induction xs)
  case (Cons x xs)
  then have "set (foldr (insert_by cmp) xs []) \<subseteq> S" by (metis insert_subset list.simps(15) set_mset_mset)
  with Cons show ?case by (simp add: mset_insert_by insert_by_sorted)
qed simp

end

section \<open>The loops\<close>

text \<open>What the test needs of memory: every request up to that of an array for twice the sample.\<close>

definition heap_mem :: "(nat \<Rightarrow> bool) \<Rightarrow> bool" where
  "heap_mem alloc \<longleftrightarrow> alloc_ok alloc \<and> (\<forall>n \<le> (4 * heap_sample + 64) * ptr_size. alloc n)"

definition holds_ints :: "int_ptr heap \<Rightarrow> 32 word multiset \<Rightarrow> bool" where
  "holds_ints mp M \<longleftrightarrow> heap_inv nonneg_ptrs ptr_icmp mp \<and> image_mset snd (mset (heap_list mp)) = M"

lemma holds_ints_size: "holds_ints mp M \<Longrightarrow> h_next mp = size M"
  by (metis holds_ints_def heap_list_length size_image_mset size_mset)

lemma holds_ints_count: "holds_ints mp M \<Longrightarrow> heap_count mp = size M"
  using holds_ints_size [of mp M] unfolding holds_ints_def heap_inv_def heap_count_def by simp

lemma heap_insert_int:
  assumes mem: "heap_mem alloc" and mp: "holds_ints mp M" "h_treesz mp \<le> 32 + 2 * size M" and n: "size M < heap_sample"
    and v: "0 \<le> sint (snd p)"
  shows "\<exists>mp1. heap_insert alloc mp (Some p) = Inr mp1 \<and> holds_ints mp1 (add_mset (snd p) M) \<and>
    h_treesz mp1 \<le> 32 + 2 * Suc (size M)"
proof -
  have client: "heap_client nonneg_ptrs ptr_icmp alloc"
    using mem nonneg_order by (simp add: heap_client_def heap_client_axioms_def heap_mem_def)
  have p: "p \<in> nonneg_ptrs" using v by (simp add: nonneg_ptrs_def)
  have inv: "heap_inv nonneg_ptrs ptr_icmp mp" and sz: "h_next mp = size M" using mp holds_ints_size by (auto simp: holds_ints_def)
  have "alloc (2 * h_treesz mp * ptr_size)" using mem mp(2) n by (auto simp: heap_mem_def)
  with heap_client.heap_insert_mem [OF client inv p] obtain mp1 where
    h: "heap_insert alloc mp (Some p) = Inr mp1" "h_treesz mp1 = h_treesz mp \<or> h_treesz mp1 = 2 * h_treesz mp \<and> h_treesz mp = h_next mp"
    by blast
  with heap_client.heap_insert_Inr [OF client inv p h(1)] mp sz show ?thesis by (auto simp: holds_ints_def)
qed

lemma heap_remove_int:
  assumes mp: "holds_ints mp M" and ne: "M \<noteq> {#}"
  shows "\<exists>p mp1. heap_remove mp = Inr (Some p, mp1) \<and> holds_ints mp1 (M - {#snd p#}) \<and> snd p \<in># M \<and>
    (\<forall>v. v \<in># M \<longrightarrow> sint (snd p) \<le> sint v)"
proof -
  have inv: "heap_inv nonneg_ptrs ptr_icmp mp" and ne': "heap_list mp \<noteq> []" using mp ne by (auto simp: holds_ints_def)
  from cmp_order.heap_remove_min [OF nonneg_order this] obtain p mp1 where
    r: "heap_remove mp = Inr (Some p, mp1)" "heap_inv nonneg_ptrs ptr_icmp mp1"
      "mset (heap_list mp) = add_mset p (mset (heap_list mp1))" "\<forall>x \<in> set (heap_list mp). ptr_icmp p x \<le> 0" by blast
  have sub: "set (heap_list mp) \<subseteq> nonneg_ptrs" using inv by (simp add: heap_inv_def)
  have M: "M = add_mset (snd p) (image_mset snd (mset (heap_list mp1)))" using mp r(3) by (simp add: holds_ints_def)
  have p: "p \<in> set (heap_list mp)" using r(3) by (metis set_mset_mset union_single_eq_member)
  have "sint (snd p) \<le> sint (snd x)" if "x \<in> set (heap_list mp)" for x
  proof -
    have "0 \<le> sint (snd x)" "0 \<le> sint (snd p)" using sub p that by (auto simp: nonneg_ptrs_def)
    with r(4) that show ?thesis by (auto simp: ptr_icmp_def icmp_nonneg)
  qed
  moreover have "set_mset M = snd ` set (heap_list mp)" using mp unfolding holds_ints_def by (metis set_image_mset set_mset_mset)
  ultimately have "\<forall>v. v \<in># M \<longrightarrow> sint (snd p) \<le> sint v" by auto
  with M r show ?thesis by (intro exI [of _ p] exI [of _ mp1]) (simp add: holds_ints_def)
qed

definition fill_inv :: "nat \<Rightarrow> int_ptr heap \<times> ints \<times> ints \<times> 'r \<Rightarrow> bool" where
  "fill_inv i = (\<lambda>(mp, ia, ib, r). \<exists>vs. length vs = i \<and> ia = filled heap_sample vs \<and> ib = filled heap_sample vs \<and>
     holds_ints mp (mset vs) \<and> h_treesz mp \<le> 32 + 2 * i \<and> (\<forall>v \<in> set vs. 0 \<le> sint v))"

lemma heap_fill_step:
  assumes mem: "heap_mem alloc" and s: "fill_inv i s" and i: "i < heap_sample"
  shows "goes_on (heap_fill alloc rand_fn i s) (fill_inv (Suc i))"
proof -
  obtain mp ia ib r where st: "s = (mp, ia, ib, r)" by (cases s)
  with s obtain vs where vs: "length vs = i" "ia = filled heap_sample vs" "ib = filled heap_sample vs"
    "holds_ints mp (mset vs)" "h_treesz mp \<le> 32 + 2 * i" "\<forall>v \<in> set vs. 0 \<le> sint v" by (auto simp: fill_inv_def)
  obtain x r1 where x: "rand_below rand_fn (int heap_sample) r = (x, r1)" by fastforce
  then have "0 \<le> x \<and> x < 1000" using rand_below_range [OF _ x] by (simp add: heap_sample_def)
  then have v: "0 \<le> sint (word_of_int x :: 32 word)" by (simp add: sint_of_small)
  from heap_insert_int [of alloc mp "mset vs" "(i, word_of_int x)"] mem vs i v obtain mp1 where
    h: "heap_insert alloc mp (Some (i, word_of_int x)) = Inr mp1" "holds_ints mp1 (mset (vs @ [word_of_int x]))"
      "h_treesz mp1 \<le> 32 + 2 * Suc i" by auto
  have "fill_inv (Suc i) (mp1, filled heap_sample (vs @ [word_of_int x]), filled heap_sample (vs @ [word_of_int x]), r1)"
    unfolding fill_inv_def prod.case using vs h v by (intro exI [of _ "vs @ [word_of_int x]"]) auto
  then show ?thesis using st x h(1) vs i filled_set [of vs heap_sample "word_of_int x"] by (simp add: heap_fill_def Let_def)
qed

definition take_inv :: "32 word multiset \<Rightarrow> nat \<Rightarrow> int_ptr heap \<times> ints \<Rightarrow> bool" where
  "take_inv M i = (\<lambda>(mp, ic). \<exists>ys R. length ys = i \<and> ic = filled heap_sample ys \<and> holds_ints mp R \<and> mset ys + R = M \<and>
     sorted (map sint ys) \<and> (\<forall>y \<in> set ys. \<forall>v. v \<in># R \<longrightarrow> sint y \<le> sint v))"

lemma heap_take_step:
  assumes s: "take_inv M i s" and i: "i < heap_sample" and M: "size M = heap_sample"
  shows "goes_on (heap_take i s) (take_inv M (Suc i))"
proof -
  obtain mp ic where st: "s = (mp, ic)" by (cases s)
  with s obtain ys R where ys: "length ys = i" "ic = filled heap_sample ys" "holds_ints mp R" "mset ys + R = M"
    "sorted (map sint ys)" "\<forall>y \<in> set ys. \<forall>v. v \<in># R \<longrightarrow> sint y \<le> sint v" by (auto simp: take_inv_def)
  have "size R = heap_sample - i" using ys(1,4) M by (metis add_diff_cancel_left' size_mset size_union)
  then have "R \<noteq> {#}" using i by auto
  from heap_remove_int [OF ys(3) this] obtain p mp1 where
    r: "heap_remove mp = Inr (Some p, mp1)" "holds_ints mp1 (R - {#snd p#})" "snd p \<in># R" "\<forall>v. v \<in># R \<longrightarrow> sint (snd p) \<le> sint v"
    by blast
  have "take_inv M (Suc i) (mp1, filled heap_sample (ys @ [snd p]))"
    unfolding take_inv_def prod.case
    using ys r by (intro exI [of _ "ys @ [snd p]"] exI [of _ "R - {#snd p#}"]) (auto simp: sorted_append dest: in_diffD)
  then show ?thesis using st r(1) ys(1,2) i filled_set [of ys heap_sample "snd p"] by (simp add: heap_take_def)
qed

lemma sorted_sint_unique: "sorted (map sint xs) \<Longrightarrow> sorted (map sint ys) \<Longrightarrow> mset xs = mset ys \<Longrightarrow> xs = (ys :: 'w::len word list)"
proof -
  assume s: "sorted (map sint xs)" "sorted (map sint ys)" and m: "mset xs = mset ys"
  from m have "mset (map sint xs) = mset (map sint ys)" by simp
  with s have "map sint xs = map sint ys" by (metis properties_for_sort)
  then show ?thesis by (rule map_injective) (auto simp: inj_on_def signed_word_eqI)
qed

lemma c_qsort_ints:
  assumes v: "\<forall>v \<in> set vs. 0 \<le> sint v" and s: "sorted (map sint ys)" and m: "mset ys = mset vs"
  shows "c_qsort icmp (map Val vs) = Inr (map Val ys)"
proof -
  let ?S = "{v :: 32 word. 0 \<le> sint v}"
  have "cmp_order ?S icmp" by unfold_locales (auto simp: icmp_nonneg)
  from cmp_order.sort_by_ok [OF this, of vs] v
  have q: "mset (foldr (insert_by icmp) vs []) = mset vs" "sorted_wrt (\<lambda>a b. icmp a b \<le> 0) (foldr (insert_by icmp) vs [])" by auto
  then have "set (foldr (insert_by icmp) vs []) = set vs" by (metis set_mset_mset)
  with q(2) v have "sorted (map sint (foldr (insert_by icmp) vs []))"
    by (auto simp: sorted_wrt_map icmp_nonneg elim: sorted_wrt_mono_rel [rotated])
  with s m q(1) have "foldr (insert_by icmp) vs [] = ys" by (intro sorted_sint_unique) auto
  then show ?thesis by (simp add: c_qsort_def)
qed

section \<open>The tests pass\<close>

lemma test_heap_basic_passes:
  assumes "heap_mem alloc"
  shows "test_heap_basic alloc = Inr None"
proof -
  from assms have "alloc sizeof_heap" "alloc (32 * ptr_size)"
    by (auto simp: heap_mem_def heap_sample_def sizeof_heap_def ptr_size_def)
  from heap_init_inv [where S = nonneg_ptrs and cmp = ptr_icmp, OF this] obtain mp where
    mp: "heap_init alloc ptr_icmp = Some mp" "heap_inv nonneg_ptrs ptr_icmp mp" "heap_list mp = []" by blast
  then have "heap_count mp = 0" using holds_ints_count [of mp "{#}"] by (simp add: holds_ints_def)
  with mp show ?thesis by (simp add: test_heap_basic_def not_null_def verdict_def go_on_def)
qed

lemma test_heap_insert_passes:
  assumes mem: "heap_mem alloc"
  shows "test_heap_insert alloc rand_fn r = Inr None"
proof -
  from mem have "alloc sizeof_heap" "alloc (32 * ptr_size)"
    by (auto simp: heap_mem_def heap_sample_def sizeof_heap_def ptr_size_def)
  then obtain mp where mp: "heap_init alloc ptr_icmp = Some mp" "heap_inv nonneg_ptrs ptr_icmp mp" "heap_list mp = []" "h_treesz mp = 32"
    using heap_init_inv [of alloc ptr_icmp nonneg_ptrs] by (auto simp: heap_init_def heap_clear_def Let_def)
  let ?a = "replicate heap_sample Undef"
  have "fill_inv 0 (mp, ?a, ?a, r)" using mp by (auto simp: fill_inv_def holds_ints_def filled_0)
  then have fill: "goes_on (for_each [0..<heap_sample] (heap_fill alloc rand_fn) (mp, ?a, ?a, r)) (fill_inv heap_sample)"
    by (rule goes_on_for0) (rule heap_fill_step [OF mem])
  show ?thesis unfolding test_heap_insert_def mp(1) not_null_def option.case bind_res_Inr Let_def
  proof (rule verdict_passes, rule goes_on_then [OF fill], clarify)
    fix mp1 ia ib r1
    assume "fill_inv heap_sample (mp1, ia, ib, r1)"
    then obtain vs where vs: "length vs = heap_sample" "ib = map Val vs" "holds_ints mp1 (mset vs)" "\<forall>v \<in> set vs. 0 \<le> sint v"
      by (auto simp: fill_inv_def filled_def)
    have "take_inv (mset vs) 0 (mp1, ?a)" using vs(3) by (auto simp: take_inv_def filled_0)
    then have take: "goes_on (for_each [0..<heap_sample] heap_take (mp1, ?a)) (take_inv (mset vs) heap_sample)"
      by (rule goes_on_for0) (rule heap_take_step, use vs(1) in auto)
    show "goes_on (and_then (for_each [0..<heap_sample] heap_take (mp1, ?a)) (\<lambda>(mp2, ic).
      bind_res (heap_remove mp2) (\<lambda>(x, mp3).
      and_then (fail_if (x \<noteq> None) ''remove did not fail when it should'') (\<lambda>_.
      bind_res (c_qsort icmp ib) (\<lambda>ib1.
      and_then (for_each [0..<heap_sample] (same_ints ib1 ic) ()) (\<lambda>_. go_on (heap_dispose mp3))))))) (\<lambda>_. True)"
    proof (rule goes_on_then [OF take], clarify)
      fix mp2 ic
      assume "take_inv (mset vs) heap_sample (mp2, ic)"
      then obtain ys R where ys: "length ys = heap_sample" "ic = map Val ys" "holds_ints mp2 R" "mset ys + R = mset vs"
        "sorted (map sint ys)" by (auto simp: take_inv_def filled_def)
      have "size (mset ys + R) = size (mset ys)" using ys(1,4) vs(1) by simp
      then have R: "R = {#}" by simp
      then have none: "heap_remove mp2 = Inr (None, mp2)"
        using holds_ints_count [OF ys(3)] by (simp add: heap_remove_def heap_count_def)
      have sort: "c_qsort icmp ib = Inr ic" using c_qsort_ints [OF vs(4) ys(5)] ys(2,4) vs(2) R by simp
      have "goes_on (for_each [0..<heap_sample] (same_ints ic ic) ()) (\<lambda>_. True)"
        by (rule goes_on_for0) (use ys(1,2) in \<open>auto simp: same_ints_def arr_get_def\<close>)
      then show "goes_on (bind_res (heap_remove mp2) (\<lambda>(x, mp3).
        and_then (fail_if (x \<noteq> None) ''remove did not fail when it should'') (\<lambda>_.
        bind_res (c_qsort icmp ib) (\<lambda>ib1.
        and_then (for_each [0..<heap_sample] (same_ints ib1 ic) ()) (\<lambda>_. go_on (heap_dispose mp3)))))) (\<lambda>_. True)"
        by (simp add: none sort) (erule goes_on_then, simp)
    qed
  qed
qed

end
