(* ===== verification/TestDeque.thy ===== *)
theory TestDeque imports TestKit Dispose begin

text \<open>
  test_deque.c. The four rounds of pushing ten elements at one end and popping them at one end are one
  definition with the two operations, the expected order and the messages as arguments. In a deque of
  twenty cells no round allocates; one that starts with a single cell grows, and the test passes if the
  memory for that is there.
\<close>

section \<open>The code\<close>

type_synonym int_deque = "int_ptr deque option"

definition dq_push_step :: "(int_deque \<Rightarrow> int_ptr option \<Rightarrow> (bool \<times> int_deque) res) \<Rightarrow> string \<Rightarrow> nat \<Rightarrow> int_deque \<Rightarrow> int_deque tst" where
  "dq_push_step push m_fail i d =
     bind_res (push d (Some (int_at ten_ints i))) (\<lambda>(ok, d1).
     and_then (fail_if (\<not> ok) m_fail) (\<lambda>_. go_on d1))"

definition dq_pop_step ::
  "(int_deque \<Rightarrow> (int_ptr option \<times> int_deque) res) \<Rightarrow> (nat \<Rightarrow> nat) \<Rightarrow> string \<Rightarrow> string \<Rightarrow> nat \<Rightarrow> int_deque \<Rightarrow> int_deque tst" where
  "dq_pop_step pop ind m_fail m_wrong i d =
     bind_res (pop d) (\<lambda>(e, d1).
     case e of
       None \<Rightarrow> fail m_fail
     | Some p \<Rightarrow> and_then (fail_if (snd p \<noteq> ten_ints ! ind i) m_wrong) (\<lambda>_. go_on d1))"

definition dq_count_is :: "int_deque \<Rightarrow> nat \<Rightarrow> string \<Rightarrow> unit tst" where
  "dq_count_is d n msg =
     (case d of None \<Rightarrow> Inl Null_Deref | Some dq \<Rightarrow> fail_if (deque_count dq \<noteq> n) msg)"

definition dq_pops_fail :: "string \<Rightarrow> string \<Rightarrow> int_deque \<Rightarrow> int_deque tst" where
  "dq_pops_fail m_back m_front d =
     bind_res (deque_popback d) (\<lambda>(e, d1).
     and_then (fail_if (e \<noteq> None) m_back) (\<lambda>_.
     bind_res (deque_popfront d1) (\<lambda>(e', d2).
     and_then (fail_if (e' \<noteq> None) m_front) (\<lambda>_. go_on d2))))"

definition dq_round where
  "dq_round push pop ind m_push m_count m_pop m_wrong m_empty m_back m_front d =
     and_then (for_each [0..<10] (dq_push_step push m_push) d) (\<lambda>d1.
     and_then (dq_count_is d1 10 m_count) (\<lambda>_.
     and_then (for_each [0..<10] (dq_pop_step pop ind m_pop m_wrong) d1) (\<lambda>d2.
     and_then (dq_count_is d2 0 m_empty) (\<lambda>_.
     dq_pops_fail m_back m_front d2))))"

definition dq_round1 :: "(nat \<Rightarrow> bool) \<Rightarrow> int_deque \<Rightarrow> int_deque tst" where
  "dq_round1 alloc = dq_round (deque_pushback alloc) deque_popback (\<lambda>i. 9 - i) ''pushback failed'' ''wrong count after pushback''
     ''popback failed'' ''wrong element popped out the back'' ''deque supposed to be empty but it's not''
     ''popback didn't fail when it should (1)'' ''popfront didn't fail when it should (1)''"

definition dq_round2 :: "(nat \<Rightarrow> bool) \<Rightarrow> int_deque \<Rightarrow> int_deque tst" where
  "dq_round2 alloc = dq_round (deque_pushback alloc) deque_popfront (\<lambda>i. i) ''pushback failed (2)'' ''wrong count after pushback (2)''
     ''popfront failed'' ''wrong element popped out the front'' ''deque supposed to be empty but it's not (2)''
     ''popback didn't fail when it should (2)'' ''popfront didn't fail when it should (2)''"

definition dq_round3 :: "(nat \<Rightarrow> bool) \<Rightarrow> int_deque \<Rightarrow> int_deque tst" where
  "dq_round3 alloc = dq_round (deque_pushfront alloc) deque_popback (\<lambda>i. i) ''pushfront failed'' ''wrong count after pushfront''
     ''popback failed (2)'' ''wrong element popped out the back (2)'' ''deque supposed to be empty but it's not (3)''
     ''popback didn't fail when it should (3)'' ''popfront didn't fail when it should (3)''"

definition dq_round4 :: "(nat \<Rightarrow> bool) \<Rightarrow> int_deque \<Rightarrow> int_deque tst" where
  "dq_round4 alloc = dq_round (deque_pushfront alloc) deque_popfront (\<lambda>i. 9 - i) ''pushfront failed (2)'' ''wrong count after pushfront (2)''
     ''popfront failed (2)'' ''wrong element popped out the front (2)'' ''deque supposed to be empty but it's not (4)''
     ''popback didn't fail when it should (4)'' ''popfront didn't fail when it should (4)''"

definition test_deque_basic :: "(nat \<Rightarrow> bool) \<Rightarrow> string option res" where
  "test_deque_basic alloc = verdict (
     bind_res (deque_init alloc 10) (\<lambda>l.
     and_then (fail_if (deque_count (l :: int_ptr deque) \<noteq> 0) ''newly allocated deque not empty'') (\<lambda>_.
     go_on (deque_dispose (Some l)))))"

definition test_deque_pushpop :: "(nat \<Rightarrow> bool) \<Rightarrow> string option res" where
  "test_deque_pushpop alloc = verdict (
     bind_res (deque_init alloc 20) (\<lambda>d.
     and_then (dq_round1 alloc (Some d)) (\<lambda>d1.
     and_then (dq_round2 alloc d1) (\<lambda>d2.
     and_then (dq_round3 alloc d2) (\<lambda>d3.
     and_then (dq_round4 alloc d3) (\<lambda>d4.
     go_on (deque_dispose d4)))))))"

text \<open>Here every round is on a new deque, the last one having been disposed of.\<close>

definition dq_fresh_round :: "(nat \<Rightarrow> bool) \<Rightarrow> (int_deque \<Rightarrow> int_deque tst) \<Rightarrow> nat list tst" where
  "dq_fresh_round alloc one = bind_res (deque_init alloc 0) (\<lambda>d. and_then (one (Some d)) (\<lambda>d1. go_on (deque_dispose d1)))"

definition test_deque_grow :: "(nat \<Rightarrow> bool) \<Rightarrow> string option res" where
  "test_deque_grow alloc = verdict (
     and_then (dq_fresh_round alloc (dq_round1 alloc)) (\<lambda>_.
     and_then (dq_fresh_round alloc (dq_round2 alloc)) (\<lambda>_.
     and_then (dq_fresh_round alloc (dq_round3 alloc)) (\<lambda>_.
     dq_fresh_round alloc (dq_round4 alloc)))))"

text \<open>The results of the pushes are not looked at here; and the deque is not disposed of.\<close>

definition dq_iter_step :: "bool \<Rightarrow> (nat \<Rightarrow> nat) \<Rightarrow> string \<Rightarrow> string \<Rightarrow> nat \<Rightarrow> int_deque \<Rightarrow> int_deque tst" where
  "dq_iter_step forwards ind m_fail m_wrong i d =
     bind_res (if i \<noteq> 0 then deque_next d forwards else deque_first d forwards) (\<lambda>(e, d1).
     case e of
       None \<Rightarrow> fail m_fail
     | Some p \<Rightarrow> and_then (fail_if (snd p \<noteq> ten_ints ! ind i) m_wrong) (\<lambda>_. go_on d1))"

definition dq_ends :: "bool \<Rightarrow> string \<Rightarrow> int_deque \<Rightarrow> int_deque tst" where
  "dq_ends forwards msg d =
     bind_res (deque_next d forwards) (\<lambda>(e, d1). and_then (fail_if (e \<noteq> None) msg) (\<lambda>_. go_on d1))"

definition test_deque_iter :: "(nat \<Rightarrow> bool) \<Rightarrow> string option res" where
  "test_deque_iter alloc = verdict (
     bind_res (deque_init alloc 10) (\<lambda>d.
     and_then (for_each [0..<10] (\<lambda>i d. bind_res (deque_pushfront alloc d (Some (int_at ten_ints i))) (\<lambda>(ok, d1). go_on d1)) (Some d)) (\<lambda>d1.
     and_then (for_each [0..<10] (dq_iter_step True (\<lambda>i. i) ''first or next failed'' ''wrong element while iterating'') d1) (\<lambda>d2.
     and_then (dq_ends True ''deque_next did not fail when it should'' d2) (\<lambda>d3.
     and_then (for_each [0..<10] (dq_iter_step False (\<lambda>i. 9 - i) ''first or next failed (2)'' ''wrong element while iterating (2)'') d3) (\<lambda>d4.
     dq_ends False ''deque_next did not fail when it should (2)'' d4))))))"

section \<open>Pushing at one end\<close>

text \<open>The end is \<open>front\<close> or not; the list of a deque has its back first.\<close>

definition dq_push :: "bool \<Rightarrow> (nat \<Rightarrow> bool) \<Rightarrow> 'a deque option \<Rightarrow> 'a option \<Rightarrow> (bool \<times> 'a deque option) res" where
  "dq_push front = (if front then deque_pushfront else deque_pushback)"

definition dq_pop :: "bool \<Rightarrow> 'a deque option \<Rightarrow> ('a option \<times> 'a deque option) res" where
  "dq_pop front = (if front then deque_popfront else deque_popback)"

definition add_end :: "bool \<Rightarrow> 'a \<Rightarrow> 'a list \<Rightarrow> 'a list" where
  "add_end front x xs = (if front then xs @ [x] else x # xs)"

definition dq_room :: "nat \<Rightarrow> 'a deque \<Rightarrow> bool" where
  "dq_room k d \<longleftrightarrow> k \<le> d_back d \<and> d_front d + k \<le> d_nelem d"

text \<open>With a free cell at the end nothing is allocated.\<close>

lemma dq_push_room:
  assumes inv: "deque_inv d" and ok: "alloc_ok alloc" and room: "dq_room (Suc k) d"
  shows "\<exists>d1. dq_push front alloc (Some d) (Some x) = Inr (True, Some d1) \<and> deque_inv d1 \<and>
    deque_list d1 = add_end front x (deque_list d) \<and> dq_room k d1 \<and> d_nelem d1 = d_nelem d"
proof -
  have free: "\<not> full_front d" "\<not> full_back d" using room by (auto simp: dq_room_def full_front_def full_back_def)
  then have loop: "c_loop (grow_body alloc full_front) d = Inr (True, d)" "c_loop (grow_body alloc full_back) d = Inr (True, d)"
    by (auto intro!: c_loop_Break simp: grow_body_def)
  have sz: "d_front d < size_max" "d_back d < size_max" "d_nelem d < size_max" using deque_inv_sizes [OF inv] by auto
  show ?thesis
  proof (cases front)
    case True
    obtain b d1 where p: "deque_pushfront alloc (Some d) (Some x) = Inr (b, Some d1)" "deque_inv d1"
      "deque_list d1 = (if b then deque_list d @ [x] else deque_list d)" using deque_pushfront_ok [OF inv ok] by blast
    moreover from p(1) loop have "b" "d_nelem d1 = d_nelem d" "d_back d1 = d_back d" "d_front d1 = sz_add (d_front d) 1"
      by (auto simp: deque_pushfront_def bind_res_eq_Inr)
    moreover have "sz_add (d_front d) 1 = Suc (d_front d)" using room sz by (subst sz_add_small) (auto simp: dq_room_def)
    ultimately show ?thesis using True room by (auto simp: dq_push_def add_end_def dq_room_def)
  next
    case False
    obtain b d1 where p: "deque_pushback alloc (Some d) (Some x) = Inr (b, Some d1)" "deque_inv d1"
      "deque_list d1 = (if b then x # deque_list d else deque_list d)" using deque_pushback_ok [OF inv ok] by blast
    moreover from p(1) loop have "b" "d_nelem d1 = d_nelem d" "d_front d1 = d_front d" "d_back d1 = sz_sub (d_back d) 1"
      by (auto simp: deque_pushback_def bind_res_eq_Inr Let_def)
    moreover have "sz_sub (d_back d) 1 = d_back d - 1" using room sz by (intro sz_sub_small) (auto simp: dq_room_def)
    ultimately show ?thesis using False room by (auto simp: dq_push_def add_end_def dq_room_def)
  qed
qed

text \<open>
  Otherwise the array is doubled, once if it has at least 32 cells and up to that size if it has less: with
  few elements the placement then leaves a free cell at both ends.
\<close>

lemma deque_resize_False: "deque_resize alloc d n = Inr (False, d1) \<Longrightarrow> d1 = d"
  by (auto simp: deque_resize_def Let_def bind_res_eq_Inr split: if_splits)

lemma grow_loop_bound:
  assumes inv: "deque_inv d" and ok: "alloc_ok alloc" and few: "length (deque_list d) \<le> 10"
    and full: "full = full_front \<or> full = full_back" and loop: "c_loop (grow_body alloc full) d = Inr r"
  shows "d_nelem (snd r) \<le> 2 * max (d_nelem d) 32"
proof (rule c_loop_partial [where I = "\<lambda>e. deque_inv e \<and> length (deque_list e) \<le> 10 \<and>
    (d_nelem e = d_nelem d \<or> d_nelem e \<le> 2 * max (d_nelem d) 32 \<and> (32 \<le> d_nelem e \<longrightarrow> \<not> full e))", OF loop])
  fix e e1
  assume e: "deque_inv e \<and> length (deque_list e) \<le> 10 \<and>
    (d_nelem e = d_nelem d \<or> d_nelem e \<le> 2 * max (d_nelem d) 32 \<and> (32 \<le> d_nelem e \<longrightarrow> \<not> full e))"
    and go: "grow_body alloc full e = Inr (Continue e1)"
  then have fl: "full e" and inve: "deque_inv e" by (auto simp: grow_body_def split: if_splits)
  note dbl = deque_double [OF inve ok]
  have c: "d_front e - d_back e \<le> 10" "d_front e - d_back e \<le> d_nelem e" "0 < d_nelem e"
    using e length_deque_list [OF inve] inve by (auto simp: deque_inv_def)
  obtain b where res: "deque_resize alloc e (2 * d_nelem e) = Inr (b, e1)" and b: "b"
    using go fl dbl(1) by (auto simp: grow_body_def bind_res_eq_Inr split: if_splits)
  have mem: "alloc (sz_mul (2 * d_nelem e) ptr_size)"
    using deque_resize_refused [OF inve, of "2 * d_nelem e" alloc] res b c by auto
  from deque_resize_ok [OF inve ok dbl(3-5) mem] res have r: "deque_inv e1" "deque_list e1 = deque_list e"
    "d_nelem e1 = 2 * d_nelem e" "d_front e1 < d_nelem e1" "32 \<le> d_nelem e1 \<longrightarrow> 0 < d_back e1"
    using c by auto
  then have "32 \<le> d_nelem e1 \<longrightarrow> \<not> full e1" using full by (auto simp: full_front_def full_back_def)
  with r e fl show "deque_inv e1 \<and> length (deque_list e1) \<le> 10 \<and>
    (d_nelem e1 = d_nelem d \<or> d_nelem e1 \<le> 2 * max (d_nelem d) 32 \<and> (32 \<le> d_nelem e1 \<longrightarrow> \<not> full e1))" by auto
next
  fix e q
  assume e: "deque_inv e \<and> length (deque_list e) \<le> 10 \<and>
    (d_nelem e = d_nelem d \<or> d_nelem e \<le> 2 * max (d_nelem d) 32 \<and> (32 \<le> d_nelem e \<longrightarrow> \<not> full e))"
    and stop: "grow_body alloc full e = Inr (Break q)"
  then have "snd q = e" by (auto simp: grow_body_def bind_res_eq_Inr dest: deque_resize_False split: if_splits)
  with e show "d_nelem (snd q) \<le> 2 * max (d_nelem d) 32" by auto
qed (use inv few in auto)

lemma dq_push_grow:
  assumes inv: "deque_inv d" and ok: "alloc_ok alloc" and few: "length (deque_list d) \<le> 10"
    and mem: "\<And>n. n \<le> 32 * d_nelem d * ptr_size \<Longrightarrow> alloc n"
  shows "\<exists>d1. dq_push front alloc (Some d) (Some x) = Inr (True, Some d1) \<and> deque_inv d1 \<and>
    deque_list d1 = add_end front x (deque_list d) \<and> d_nelem d1 \<le> 2 * max (d_nelem d) 32"
proof (cases front)
  case True
  obtain b d1 where p: "deque_pushfront alloc (Some d) (Some x) = Inr (b, Some d1)" "deque_inv d1"
    "deque_list d1 = (if b then deque_list d @ [x] else deque_list d)" "alloc (2 * d_nelem d * ptr_size) \<longrightarrow> b"
    using deque_pushfront_ok [OF inv ok] by blast
  moreover have "d_nelem d1 \<le> 2 * max (d_nelem d) 32"
    using p(1) grow_loop_bound [OF inv ok few disjI1 [OF refl]] by (auto simp: deque_pushfront_def bind_res_eq_Inr split: if_splits)
  ultimately show ?thesis using True mem [of "2 * d_nelem d * ptr_size"] by (auto simp: dq_push_def add_end_def)
next
  case False
  obtain b d1 where p: "deque_pushback alloc (Some d) (Some x) = Inr (b, Some d1)" "deque_inv d1"
    "deque_list d1 = (if b then x # deque_list d else deque_list d)" "(\<forall>n. n \<le> 32 * d_nelem d * ptr_size \<longrightarrow> alloc n) \<longrightarrow> b"
    using deque_pushback_ok [OF inv ok] by blast
  moreover have "d_nelem d1 \<le> 2 * max (d_nelem d) 32"
    using p(1) grow_loop_bound [OF inv ok few disjI2 [OF refl]] by (auto simp: deque_pushback_def bind_res_eq_Inr Let_def split: if_splits)
  ultimately show ?thesis using False mem by (auto simp: dq_push_def add_end_def)
qed

text \<open>A pop keeps the array, and centres it when the last element is gone.\<close>

definition centred :: "'a deque \<Rightarrow> bool" where
  "centred d \<longleftrightarrow> d_back d = d_nelem d div 2 \<and> d_front d = d_nelem d div 2"

lemma dq_pop_ok:
  assumes inv: "deque_inv d" and l: "deque_list d = (if front then xs @ [x] else x # xs)"
  shows "\<exists>d1. dq_pop front (Some d) = Inr (Some x, Some d1) \<and> deque_inv d1 \<and> deque_list d1 = xs \<and> d_nelem d1 = d_nelem d \<and>
    (xs = [] \<longrightarrow> centred d1)"
proof -
  have rec: "d_nelem d1 = d_nelem d2 \<and> (deque_list d1 = [] \<longrightarrow> centred d1)" if "recenter d2 = Some d1" "deque_inv d1" for d1 d2 :: "'a deque"
    using that deque_empty_iff [of d1] by (auto simp: recenter_def deque_clear_def centred_def split: if_splits)
  have ne: "deque_list d \<noteq> []" using l by auto
  show ?thesis
  proof (cases front)
    case True
    from deque_popfront_ok [OF inv ne] obtain d1 where p: "deque_popfront (Some d) = Inr (Some x, Some d1)" "deque_inv d1" "deque_list d1 = xs"
      using l True by auto
    from p(1) have "\<exists>d2. recenter d2 = Some d1 \<and> d_nelem d2 = d_nelem d"
      by (auto simp: deque_popfront_def bind_res_eq_Inr Let_def split: if_splits)
    with p rec True show ?thesis by (auto simp: dq_pop_def)
  next
    case False
    from deque_popback_ok [OF inv ne] obtain d1 where p: "deque_popback (Some d) = Inr (Some x, Some d1)" "deque_inv d1" "deque_list d1 = xs"
      using l False by auto
    from p(1) have "\<exists>d2. recenter d2 = Some d1 \<and> d_nelem d2 = d_nelem d"
      by (auto simp: deque_popback_def bind_res_eq_Inr Let_def split: if_splits)
    with p rec False show ?thesis by (auto simp: dq_pop_def)
  qed
qed

section \<open>A round\<close>

definition pushed :: "bool \<Rightarrow> nat \<Rightarrow> int_ptr list" where
  "pushed f i = (let xs = map (int_at ten_ints) [0..<i] in if f then xs else rev xs)"

lemma pushed_0: "pushed f 0 = []" and pushed_Suc: "pushed f (Suc i) = add_end f (int_at ten_ints i) (pushed f i)"
  and length_pushed: "length (pushed f i) = i"
  by (simp_all add: pushed_def add_end_def Let_def)

text \<open>Popping where was pushed takes the last number first, popping at the other end the first one.\<close>

definition pop_ind :: "bool \<Rightarrow> bool \<Rightarrow> nat \<Rightarrow> nat" where
  "pop_ind f g i = (if f = g then 9 - i else i)"

definition unpopped :: "bool \<Rightarrow> bool \<Rightarrow> nat \<Rightarrow> int_ptr list" where
  "unpopped f g i = (let xs = map (int_at ten_ints) (if f = g then [0..<10 - i] else [i..<10]) in if f then xs else rev xs)"

lemma unpopped_0: "unpopped f g 0 = pushed f 10" and unpopped_10: "unpopped f g 10 = []"
  by (simp_all add: unpopped_def pushed_def)

lemma unpopped_Suc:
  assumes "i < 10"
  shows "unpopped f g i = (if g then unpopped f g (Suc i) @ [int_at ten_ints (pop_ind f g i)]
    else int_at ten_ints (pop_ind f g i) # unpopped f g (Suc i))"
proof -
  have a: "[0..<10 - i] = [0..<9 - i] @ [9 - i]" using assms upt_Suc_append [of 0 "9 - i"] Suc_diff_le [of i 9] by simp
  have b: "[i..<10] = i # [Suc i..<10]" using assms by (simp add: upt_conv_Cons)
  show ?thesis unfolding unpopped_def pop_ind_def Let_def a b using assms by (cases f; cases g) (simp_all del: upt_Suc)
qed

definition holds_dq :: "int_ptr list \<Rightarrow> (int_ptr deque \<Rightarrow> bool) \<Rightarrow> int_deque \<Rightarrow> bool" where
  "holds_dq xs P h \<longleftrightarrow> (\<exists>d. h = Some d \<and> deque_inv d \<and> deque_list d = xs \<and> P d)"

lemma dq_count_ok: "holds_dq xs P h \<Longrightarrow> dq_count_is h n msg = fail_if (length xs \<noteq> n) msg"
  by (auto simp: holds_dq_def dq_count_is_def length_deque_list deque_inv_sizes(4))

lemma dq_pops_fail_ok: "holds_dq [] P h \<Longrightarrow> goes_on (dq_pops_fail m m' h) (holds_dq [] P)"
  by (auto simp: holds_dq_def dq_pops_fail_def deque_pop_empty)

lemma dq_pop_step_ok:
  assumes h: "holds_dq (unpopped f g i) (\<lambda>d. N (d_nelem d) \<and> (unpopped f g i = [] \<longrightarrow> centred d)) h" and i: "i < 10"
  shows "goes_on (dq_pop_step (dq_pop g) (pop_ind f g) m m' i h)
    (holds_dq (unpopped f g (Suc i)) (\<lambda>d. N (d_nelem d) \<and> (unpopped f g (Suc i) = [] \<longrightarrow> centred d)))"
proof -
  obtain d where d: "h = Some d" "deque_inv d" "deque_list d = unpopped f g i" "N (d_nelem d)" using h by (auto simp: holds_dq_def)
  from dq_pop_ok [OF d(2), of g "unpopped f g (Suc i)" "int_at ten_ints (pop_ind f g i)"] obtain d1 where
    "dq_pop g (Some d) = Inr (Some (int_at ten_ints (pop_ind f g i)), Some d1)" "deque_inv d1" "deque_list d1 = unpopped f g (Suc i)"
    "d_nelem d1 = d_nelem d" "unpopped f g (Suc i) = [] \<longrightarrow> centred d1" using d(3) unpopped_Suc [OF i, of f g] by auto
  with d show ?thesis by (simp add: dq_pop_step_def holds_dq_def int_at_def)
qed

lemma dq_round_ok:
  assumes push: "goes_on (for_each [0..<10] (dq_push_step push m1) h) (holds_dq (pushed f 10) (\<lambda>d. N (d_nelem d)))"
  shows "goes_on (dq_round push (dq_pop g) (pop_ind f g) m1 m2 m3 m4 m5 m6 m7 h)
    (holds_dq [] (\<lambda>d. N (d_nelem d) \<and> centred d))"
  unfolding dq_round_def
proof (rule goes_on_then [OF push])
  fix h1
  assume h1: "holds_dq (pushed f 10) (\<lambda>d. N (d_nelem d)) h1"
  have "pushed f 10 \<noteq> []" using length_pushed [of f 10] by auto
  then have start: "holds_dq (unpopped f g 0) (\<lambda>d. N (d_nelem d) \<and> (unpopped f g 0 = [] \<longrightarrow> centred d)) h1"
    using h1 by (simp add: unpopped_0 holds_dq_def)
  have "goes_on (for_each [0..<10] (dq_pop_step (dq_pop g) (pop_ind f g) m3 m4) h1) (holds_dq [] (\<lambda>d. N (d_nelem d) \<and> centred d))"
    using goes_on_for0 [where n = 10 and I = "\<lambda>i. holds_dq (unpopped f g i) (\<lambda>d. N (d_nelem d) \<and> (unpopped f g i = [] \<longrightarrow> centred d))",
        OF start dq_pop_step_ok] by (simp add: unpopped_10)
  then have "goes_on (and_then (for_each [0..<10] (dq_pop_step (dq_pop g) (pop_ind f g) m3 m4) h1)
      (\<lambda>d2. and_then (dq_count_is d2 0 m5) (\<lambda>_. dq_pops_fail m6 m7 d2))) (holds_dq [] (\<lambda>d. N (d_nelem d) \<and> centred d))"
    by (rule goes_on_then) (simp add: dq_count_ok dq_pops_fail_ok)
  then show "goes_on (and_then (dq_count_is h1 10 m2) (\<lambda>_. and_then (for_each [0..<10] (dq_pop_step (dq_pop g) (pop_ind f g) m3 m4) h1)
      (\<lambda>d2. and_then (dq_count_is d2 0 m5) (\<lambda>_. dq_pops_fail m6 m7 d2)))) (holds_dq [] (\<lambda>d. N (d_nelem d) \<and> centred d))"
    by (simp add: dq_count_ok [OF h1] length_pushed)
qed

text \<open>The pushes of a round, without and with growing.\<close>

lemma dq_pushes_room:
  assumes ok: "alloc_ok alloc" and h: "holds_dq [] (\<lambda>d. d_nelem d = 20 \<and> centred d) h"
  shows "goes_on (for_each [0..<10] (dq_push_step (dq_push f alloc) m) h) (holds_dq (pushed f 10) (\<lambda>d. d_nelem d = 20))"
proof -
  let ?I = "\<lambda>i. holds_dq (pushed f i) (\<lambda>d. d_nelem d = 20 \<and> dq_room (10 - i) d)"
  have "?I 0 h" using h by (auto simp: holds_dq_def pushed_0 centred_def dq_room_def)
  moreover have "goes_on (dq_push_step (dq_push f alloc) m i s) (?I (Suc i))" if "?I i s" "i < 10" for i s
  proof -
    have "10 - i = Suc (9 - i)" using that(2) by simp
    with that obtain d where d: "s = Some d" "deque_inv d" "deque_list d = pushed f i" "d_nelem d = 20" "dq_room (Suc (9 - i)) d"
      by (auto simp: holds_dq_def)
    from dq_push_room [OF d(2) ok d(5), of f "int_at ten_ints i"] d show ?thesis
      by (auto simp: dq_push_step_def holds_dq_def pushed_Suc)
  qed
  ultimately have "goes_on (for_each [0..<10] (dq_push_step (dq_push f alloc) m) h) (?I 10)" by (rule goes_on_for0)
  then show ?thesis by (rule goes_on_mono) (auto simp: holds_dq_def)
qed

definition deque_mem :: "(nat \<Rightarrow> bool) \<Rightarrow> bool" where
  "deque_mem alloc \<longleftrightarrow> alloc_ok alloc \<and> (\<forall>n \<le> 2 ^ 22. alloc n)"

lemma dq_pushes_grow:
  assumes mem: "deque_mem alloc" and h: "holds_dq [] (\<lambda>d. d_nelem d \<le> 32) h"
  shows "goes_on (for_each [0..<10] (dq_push_step (dq_push f alloc) m) h) (holds_dq (pushed f 10) (\<lambda>d. True))"
proof -
  let ?I = "\<lambda>i. holds_dq (pushed f i) (\<lambda>d. d_nelem d \<le> 32 * 2 ^ i)"
  have "?I 0 h" using h by (auto simp: holds_dq_def pushed_0)
  moreover have "goes_on (dq_push_step (dq_push f alloc) m i s) (?I (Suc i))" if s: "?I i s" and i: "i < 10" for i s
  proof -
    from s obtain d where d: "s = Some d" "deque_inv d" "deque_list d = pushed f i" "d_nelem d \<le> 32 * 2 ^ i" by (auto simp: holds_dq_def)
    have "(2 :: nat) ^ i \<le> 2 ^ 9" using i by (intro power_increasing) auto
    then have "32 * d_nelem d * ptr_size \<le> 2 ^ 22" using d(4) by (simp add: ptr_size_def)
    then have al: "alloc n" if "n \<le> 32 * d_nelem d * ptr_size" for n using mem that le_trans unfolding deque_mem_def by blast
    have bound: "2 * max (d_nelem d) 32 \<le> 32 * 2 ^ Suc i" using d(4) by simp
    have "alloc_ok alloc" "length (deque_list d) \<le> 10" using mem d(3) i by (auto simp: deque_mem_def length_pushed)
    from dq_push_grow [OF d(2) this al, of f "int_at ten_ints i"] obtain d1 where
      "dq_push f alloc (Some d) (Some (int_at ten_ints i)) = Inr (True, Some d1)" "deque_inv d1"
      "deque_list d1 = add_end f (int_at ten_ints i) (deque_list d)" "d_nelem d1 \<le> 2 * max (d_nelem d) 32" by blast
    with d le_trans [OF _ bound] show ?thesis by (auto simp: dq_push_step_def holds_dq_def pushed_Suc)
  qed
  ultimately have "goes_on (for_each [0..<10] (dq_push_step (dq_push f alloc) m) h) (?I 10)" by (rule goes_on_for0)
  then show ?thesis by (rule goes_on_mono) (auto simp: holds_dq_def)
qed

section \<open>The tests pass\<close>

lemma deque_init_centred: "deque_init alloc n = Inr d \<Longrightarrow> centred d"
  by (auto simp: deque_init_def Let_def centred_def split: if_splits)

lemma deque_init_tests:
  assumes "deque_mem alloc" and n: "n \<le> 20"
  shows "\<exists>d :: 'a deque. deque_init alloc n = Inr d \<and> deque_inv d \<and> deque_list d = [] \<and> d_nelem d = max 1 n \<and> centred d"
proof -
  have sz: "sz_mul ptr_size (if n = 0 then 1 else n) \<le> 2 ^ 22" using n by (simp add: sz_mul_def ptr_size_def size_max_def)
  from assms have "alloc sizeof_deque" "alloc_ok alloc" by (auto simp: deque_mem_def sizeof_deque_def)
  moreover have "alloc (sz_mul ptr_size (if n = 0 then 1 else n))" using assms(1) sz unfolding deque_mem_def by blast
  ultimately obtain d :: "'a deque" where d: "deque_init alloc n = Inr d" "deque_inv d" "deque_list d = []" "d_nelem d = (if n = 0 then 1 else n)"
    using deque_init_inv [of alloc n] n by (auto simp: max_cells_def)
  with deque_init_centred [OF d(1)] show ?thesis by (cases "n = 0") (auto intro!: exI [of _ d])
qed

lemmas dq_rounds = dq_round_ok [where f = False and g = False, unfolded dq_pop_def pop_ind_def if_False, simplified if_True simp_thms]
  dq_round_ok [where f = False and g = True, unfolded dq_pop_def pop_ind_def if_True, simplified if_False simp_thms]
  dq_round_ok [where f = True and g = False, unfolded dq_pop_def pop_ind_def if_False, simplified if_False simp_thms]
  dq_round_ok [where f = True and g = True, unfolded dq_pop_def pop_ind_def if_True, simplified if_True simp_thms]

lemmas dq_pushes = dq_pushes_room [where f = False, unfolded dq_push_def if_False] dq_pushes_room [where f = True, unfolded dq_push_def if_True]
lemmas dq_pushes' = dq_pushes_grow [where f = False, unfolded dq_push_def if_False] dq_pushes_grow [where f = True, unfolded dq_push_def if_True]

lemma dq_rounds_room:
  assumes ok: "alloc_ok alloc" and h: "holds_dq [] (\<lambda>d. d_nelem d = 20 \<and> centred d) h"
    and one: "one \<in> {dq_round1 alloc, dq_round2 alloc, dq_round3 alloc, dq_round4 alloc}"
  shows "goes_on (one h) (holds_dq [] (\<lambda>d. d_nelem d = 20 \<and> centred d))"
  using one by (elim insertE emptyE)
    (simp_all only: dq_round1_def dq_round2_def dq_round3_def dq_round4_def,
     (rule dq_rounds [where N = "\<lambda>n. n = 20"], rule dq_pushes [OF ok h])+)

lemma dq_fresh_round_ok:
  assumes mem: "deque_mem alloc" and one: "one \<in> {dq_round1 alloc, dq_round2 alloc, dq_round3 alloc, dq_round4 alloc}"
  shows "goes_on (dq_fresh_round alloc one) (\<lambda>_. True)"
proof -
  obtain d where d: "deque_init alloc 0 = Inr d" "holds_dq [] (\<lambda>d. d_nelem d \<le> 32) (Some d)"
    using deque_init_tests [OF mem, of 0, where 'a = int_ptr] by (auto simp: holds_dq_def)
  have "goes_on (one (Some d)) (holds_dq [] (\<lambda>d. True \<and> centred d))"
    using one by (elim insertE emptyE)
      (simp_all only: dq_round1_def dq_round2_def dq_round3_def dq_round4_def,
       (rule dq_rounds [where N = "\<lambda>n. True"], rule dq_pushes' [OF mem d(2)])+)
  then show ?thesis by (simp add: dq_fresh_round_def d(1)) (erule goes_on_then, simp)
qed

lemma test_deque_basic_passes: "deque_mem alloc \<Longrightarrow> test_deque_basic alloc = Inr None"
  using deque_init_tests [of alloc 10, where 'a = int_ptr]
  by (auto simp: test_deque_basic_def deque_inv_sizes(4) centred_def intro!: verdict_passes [where P = "\<lambda>_. True"])

lemma test_deque_pushpop_passes:
  assumes mem: "deque_mem alloc" shows "test_deque_pushpop alloc = Inr None"
proof -
  obtain d where d: "deque_init alloc 20 = Inr d" "holds_dq [] (\<lambda>d. d_nelem d = 20 \<and> centred d) (Some d)"
    using deque_init_tests [OF mem, of 20, where 'a = int_ptr] by (auto simp: holds_dq_def)
  have ok: "alloc_ok alloc" using mem by (simp add: deque_mem_def)
  note step = goes_on_then [OF dq_rounds_room [OF ok]]
  show ?thesis unfolding test_deque_pushpop_def d(1) bind_res_Inr
    by (rule verdict_passes [where P = "\<lambda>_. True"], rule step [OF d(2)], simp, rule step, assumption, simp,
      rule step, assumption, simp, rule step, assumption, simp_all)
qed

lemma test_deque_grow_passes: "deque_mem alloc \<Longrightarrow> test_deque_grow alloc = Inr None"
  unfolding test_deque_grow_def
  by (rule verdict_passes [where P = "\<lambda>_. True"], (rule goes_on_then [OF dq_fresh_round_ok], assumption, simp)+,
    rule dq_fresh_round_ok, assumption, simp)

section \<open>Iterating in either direction\<close>

text \<open>Step \<open>i\<close> sees element \<open>iter_ind n forwards i\<close> of \<open>n\<close>; before it the iterator is at the element of step \<open>i - 1\<close>.\<close>

definition iter_ind :: "nat \<Rightarrow> bool \<Rightarrow> nat \<Rightarrow> nat" where
  "iter_ind n forwards i = (if forwards then i else n - Suc i)"

definition seen :: "bool \<Rightarrow> nat \<Rightarrow> 'a deque \<Rightarrow> bool" where
  "seen forwards i d \<longleftrightarrow> deque_inv d \<and>
     (0 < i \<longrightarrow> d_iter d = Val (d_back d + iter_ind (length (deque_list d)) forwards (i - 1)))"

lemma deque_iter_simps: "deque_inv (d\<lparr>d_iter := x\<rparr>) = deque_inv d" "deque_list (d\<lparr>d_iter := x\<rparr>) = deque_list d"
  by (simp_all add: deque_inv_def deque_list_def)

lemma deque_see:
  assumes d: "seen fw i d" and i: "i < length (deque_list d)"
  shows "\<exists>d1. (if i \<noteq> 0 then deque_next (Some d) fw else deque_first (Some d) fw) =
      Inr (Some (deque_list d ! iter_ind (length (deque_list d)) fw i), Some d1) \<and>
    seen fw (Suc i) d1 \<and> deque_list d1 = deque_list d"
proof -
  let ?n = "length (deque_list d)"
  let ?j = "iter_ind ?n fw i" and ?d1 = "d\<lparr>d_iter := Val (d_back d + iter_ind ?n fw i)\<rparr>"
  have inv: "deque_inv d" and iter: "0 < i \<longrightarrow> d_iter d = Val (d_back d + iter_ind ?n fw (i - 1))" using d by (auto simp: seen_def)
  have ends: "d_front d = d_back d + ?n" using i length_deque_list [OF inv] by auto
  have j: "?j < ?n" using i unfolding iter_ind_def by (cases fw) auto
  have get: "arr_get (d_data d) (d_back d + ?j) = Inr (deque_list d ! ?j)" using deque_list_nth [OF inv, of ?j] j ends by simp
  have "(if i \<noteq> 0 then deque_next (Some d) fw else deque_first (Some d) fw) = Inr (Some (deque_list d ! ?j), Some ?d1)"
  proof (cases "i = 0")
    case True
    obtain k where k: "?n = Suc k" using i by (cases ?n) auto
    have "sz_sub (d_front d) 1 = d_back d + k" using ends k deque_inv_sizes(1) [OF inv] by (subst sz_sub_small) auto
    with True get ends show ?thesis by (cases fw) (simp_all add: deque_first_def iter_ind_def Let_def k)
  next
    case False
    show ?thesis
    proof (cases fw)
      case True
      with False deque_next_forwards [OF inv, of "i - 1"] iter i show ?thesis by (simp add: iter_ind_def)
    next
      case fw: False
      have "?n - Suc (i - 1) - 1 = ?n - Suc i" "0 < ?n - Suc (i - 1)" "?n - Suc (i - 1) < ?n" using False i by auto
      with False fw deque_next_backwards [OF inv, of "?n - Suc (i - 1)"] iter i show ?thesis by (simp add: iter_ind_def)
    qed
  qed
  then show ?thesis using inv by (intro exI [of _ ?d1]) (simp add: seen_def deque_iter_simps)
qed

lemma deque_see_end:
  assumes d: "seen fw (length (deque_list d)) d" and ne: "deque_list d \<noteq> []"
  shows "deque_next (Some d) fw = Inr (None, Some d)"
proof -
  let ?n = "length (deque_list d)"
  have inv: "deque_inv d" and iter: "d_iter d = Val (d_back d + iter_ind ?n fw (?n - 1))" using d ne by (auto simp: seen_def)
  show ?thesis using iter ne deque_next_forwards [OF inv, of "?n - 1"] deque_next_backwards [OF inv, of 0]
    by (cases fw) (simp_all add: iter_ind_def)
qed

definition iter_at :: "bool \<Rightarrow> nat \<Rightarrow> int_deque \<Rightarrow> bool" where
  "iter_at forwards i h \<longleftrightarrow> (\<exists>d. h = Some d \<and> deque_list d = pushed True 10 \<and> seen forwards i d)"

lemma pushed_nth: "j < 10 \<Longrightarrow> pushed True 10 ! j = int_at ten_ints j"
  by (simp add: pushed_def)

lemma dq_iter_step_ok:
  assumes h: "iter_at fw i h" and i: "i < 10"
  shows "goes_on (dq_iter_step fw (iter_ind 10 fw) m m' i h) (iter_at fw (Suc i))"
proof -
  obtain d where d: "h = Some d" "deque_list d = pushed True 10" "seen fw i d" using h by (auto simp: iter_at_def)
  have len: "length (deque_list d) = 10" using d(2) length_pushed by simp
  with deque_see [OF d(3)] i d obtain d1 where step:
    "(if i \<noteq> 0 then deque_next h fw else deque_first h fw) = Inr (Some (pushed True 10 ! iter_ind 10 fw i), Some d1)"
    and d1: "seen fw (Suc i) d1" "deque_list d1 = pushed True 10" by auto
  have "iter_ind 10 fw i < 10" using i unfolding iter_ind_def by (cases fw) auto
  with d1 show ?thesis unfolding dq_iter_step_def step by (simp add: iter_at_def pushed_nth int_at_def)
qed

lemma dq_ends_ok:
  assumes h: "iter_at fw 10 h"
  shows "goes_on (dq_ends fw m h) (iter_at fw' 0)"
proof -
  obtain d where d: "h = Some d" "deque_list d = pushed True 10" "seen fw 10 d" using h by (auto simp: iter_at_def)
  have len: "length (deque_list d) = 10" using d(2) length_pushed by simp
  have "seen fw (length (deque_list d)) d" "deque_list d \<noteq> []" using d(3) len by auto
  then have "deque_next h fw = Inr (None, Some d)" unfolding d(1) by (rule deque_see_end)
  with d show ?thesis by (simp add: dq_ends_def iter_at_def seen_def)
qed

lemma dq_walk_ok:
  "iter_at fw 0 h \<Longrightarrow> goes_on (and_then (for_each [0..<10] (dq_iter_step fw (iter_ind 10 fw) m m') h) (dq_ends fw m'')) (iter_at fw' 0)"
  by (rule goes_on_then [OF goes_on_for0 [where I = "iter_at fw"]], assumption, rule dq_iter_step_ok, assumption+, rule dq_ends_ok)

lemma test_deque_iter_passes:
  assumes mem: "deque_mem alloc" shows "test_deque_iter alloc = Inr None"
proof -
  obtain d where d: "deque_init alloc 10 = Inr d" "holds_dq [] (\<lambda>d. d_nelem d \<le> 32) (Some d)"
    using deque_init_tests [OF mem, of 10, where 'a = int_ptr] by (auto simp: holds_dq_def)
  let ?body = "\<lambda>i d. bind_res (deque_pushfront alloc d (Some (int_at ten_ints i))) (\<lambda>(ok, d1). go_on d1)"
  have same: "goes_on (for_each is ?body h) P" if "goes_on (for_each is (dq_push_step (deque_pushfront alloc) []) h) P" for "is" h P
    using that
  proof (induction "is" arbitrary: h)
    case (Cons i "is")
    then show ?case
      by (cases "deque_pushfront alloc h (Some (int_at ten_ints i))") (auto simp: dq_push_step_def split: if_splits)
  qed simp
  have push: "goes_on (for_each [0..<10] ?body (Some d)) (iter_at True 0)"
    using same [OF dq_pushes'(2) [OF mem d(2)]] by (rule goes_on_mono) (auto simp: iter_at_def holds_dq_def seen_def)
  have ind: "(\<lambda>i. i) = iter_ind 10 True" "(\<lambda>i. 9 - i) = iter_ind 10 False" by (auto simp: iter_ind_def fun_eq_iff)
  have assoc: "and_then (and_then m f) g = and_then m (\<lambda>x. and_then (f x) g)" for m :: "'x tst" and f :: "'x \<Rightarrow> 'y tst" and g :: "'y \<Rightarrow> 'z tst"
    by (auto simp: and_then_def bind_res_def fail_def split: sum.splits)
  show ?thesis unfolding test_deque_iter_def d(1) bind_res_Inr ind
    by (rule verdict_passes [where P = "iter_at True 0"], rule goes_on_then [OF push], subst assoc [symmetric],
      rule goes_on_then [OF dq_walk_ok [where fw' = False]], assumption, rule dq_walk_ok)
qed

end
