(* ===== verification/TestStack.thy ===== *)
theory TestStack imports TestDeque StackRoom begin

text \<open>
  test_stack.c. A stack that starts with one cell takes a thousand elements, which come back in the reverse
  order and can be iterated over. The results of the pushes are not known to the test; it passes if the
  memory for the growth is there (\<open>stack_mem\<close>).
\<close>

section \<open>The code\<close>

definition stack_sample :: nat where
  "stack_sample = 1000"

definition test_stack_basic :: "(nat \<Rightarrow> bool) \<Rightarrow> string option res" where
  "test_stack_basic alloc = verdict (
     bind_res (stack_init alloc 10) (\<lambda>s :: int_ptr stack.
     bind_res (stack_count s) (\<lambda>n.
     and_then (fail_if (n \<noteq> 0) ''newly allocated stack not empty'') (\<lambda>_.
     go_on (stack_dispose s)))))"

definition stack_fill :: "(nat \<Rightarrow> bool) \<Rightarrow> ('r \<Rightarrow> int \<times> 'r) \<Rightarrow> nat \<Rightarrow> int_ptr stack \<times> ints \<times> 'r \<Rightarrow> (int_ptr stack \<times> ints \<times> 'r) tst" where
  "stack_fill alloc rand_fn i = (\<lambda>(s, ia, r).
     let (x, r1) = rand_below rand_fn 100000 r; v = word_of_int x in
     bind_res (arr_set ia i v) (\<lambda>ia1.
     bind_res (stack_push alloc s (Some (i, v))) (\<lambda>s1. go_on (s1, ia1, r1))))"

text \<open>A stack of one cell and the array, of which \<open>malloc\<close> may have returned NULL, both filled.\<close>

definition stack_filled :: "(nat \<Rightarrow> bool) \<Rightarrow> ('r \<Rightarrow> int \<times> 'r) \<Rightarrow> 'r \<Rightarrow> (int_ptr stack \<times> ints \<times> 'r) tst" where
  "stack_filled alloc rand_fn r =
     bind_res (stack_init alloc 1) (\<lambda>s.
     if \<not> alloc (stack_sample * 4) then Inl Null_Deref
     else for_each [0..<stack_sample] (stack_fill alloc rand_fn) (s, replicate stack_sample Undef, r))"

text \<open>What an operation returned is read through, and compared with element \<open>j\<close> of the array.\<close>

definition stack_sees :: "ints \<Rightarrow> nat \<Rightarrow> string \<Rightarrow> (int_ptr option \<times> int_ptr stack) res \<Rightarrow> int_ptr stack tst" where
  "stack_sees ia j msg m =
     bind_res m (\<lambda>(e, s).
     case e of
       None \<Rightarrow> Inl Null_Deref
     | Some p \<Rightarrow> bind_res (arr_get ia j) (\<lambda>v. and_then (fail_if (snd p \<noteq> v) msg) (\<lambda>_. go_on s)))"

definition test_stack_pushpop :: "(nat \<Rightarrow> bool) \<Rightarrow> ('r \<Rightarrow> int \<times> 'r) \<Rightarrow> 'r \<Rightarrow> string option res" where
  "test_stack_pushpop alloc rand_fn r = verdict (
     and_then (stack_filled alloc rand_fn r) (\<lambda>(s, ia, r1).
     bind_res (stack_count s) (\<lambda>n.
     and_then (fail_if (n \<noteq> stack_sample) ''wrong count after pushing'') (\<lambda>_.
     for_each [0..<stack_sample]
       (\<lambda>i s. stack_sees ia (stack_sample - i - 1) ''wrong value popped out of stack'' (stack_pop s)) s))))"

definition stack_iter_step :: "bool \<Rightarrow> (nat \<Rightarrow> nat) \<Rightarrow> string \<Rightarrow> ints \<Rightarrow> nat \<Rightarrow> int_ptr stack \<Rightarrow> int_ptr stack tst" where
  "stack_iter_step forwards ind msg ia i s =
     stack_sees ia (ind i) msg (if i \<noteq> 0 then stack_next s forwards else stack_first s forwards)"

definition stack_ends :: "bool \<Rightarrow> string \<Rightarrow> int_ptr stack \<Rightarrow> int_ptr stack tst" where
  "stack_ends forwards msg s =
     bind_res (stack_next s forwards) (\<lambda>(e, s1). and_then (fail_if (e \<noteq> None) msg) (\<lambda>_. go_on s1))"

text \<open>The last loop turns around at the front end, where the one before it stopped.\<close>

definition test_stack_iter :: "(nat \<Rightarrow> bool) \<Rightarrow> ('r \<Rightarrow> int \<times> 'r) \<Rightarrow> 'r \<Rightarrow> string option res" where
  "test_stack_iter alloc rand_fn r = verdict (
     and_then (stack_filled alloc rand_fn r) (\<lambda>(s, ia, r1).
     and_then (for_each [0..<stack_sample] (stack_iter_step True (\<lambda>i. i) ''wrong value seen while iterating'' ia) s) (\<lambda>s1.
     and_then (stack_ends True ''stack_next did not return when it should'' s1) (\<lambda>s2.
     and_then (for_each [0..<stack_sample]
       (stack_iter_step False (\<lambda>i. stack_sample - i - 1) ''wrong value seen while iterating (2)'' ia) s2) (\<lambda>s3.
     and_then (stack_ends False ''stack_next did not return when it should (2)'' s3) (\<lambda>s4.
     and_then (for_each [0..<stack_sample] (stack_iter_step True (\<lambda>i. i) ''wrong value seen while iterating (3)'' ia) s4) (\<lambda>s5.
     and_then (for_each [1..<stack_sample]
       (stack_iter_step False (\<lambda>i. stack_sample - i - 1) ''wrong value seen while iterating (4)'' ia) s5) (\<lambda>s6.
     stack_ends False ''stack_next did not return when it should (3)'' s6))))))))"

section \<open>The loops\<close>

definition stack_mem :: "(nat \<Rightarrow> bool) \<Rightarrow> bool" where
  "stack_mem alloc \<longleftrightarrow> mem_for alloc stack_sample"

text \<open>The elements of the stack, bottom first, are the cells of the array with the numbers in them.\<close>

definition pointed :: "32 word list \<Rightarrow> int_ptr list" where
  "pointed vs = map (\<lambda>i. (i, vs ! i)) [0..<length vs]"

lemma pointed_simps: "length (pointed vs) = length vs" "i < length vs \<Longrightarrow> pointed vs ! i = (i, vs ! i)"
  "pointed [] = []" "pointed (vs @ [v]) = pointed vs @ [(length vs, v)]"
  by (auto simp: pointed_def nth_append)

definition stack_holds :: "32 word list \<Rightarrow> nat \<Rightarrow> int_ptr stack \<Rightarrow> bool" where
  "stack_holds vs i s \<longleftrightarrow> stack_bounded stack_sample s \<and> stack_elems s = rev (take i (pointed vs))"

definition stack_full :: "int_ptr stack \<times> ints \<times> 'r \<Rightarrow> nat \<Rightarrow> bool" where
  "stack_full = (\<lambda>(s, ia, r) i. \<exists>vs. length vs = i \<and> ia = filled stack_sample vs \<and> stack_holds vs i s)"

lemma stack_fill_ok:
  assumes mem: "stack_mem alloc" and s: "stack_full st i" and i: "i < stack_sample"
  shows "goes_on (stack_fill alloc rand_fn i st) (\<lambda>st. stack_full st (Suc i))"
proof -
  obtain s ia r where st: "st = (s, ia, r)" by (cases st)
  with s obtain vs where vs: "length vs = i" "ia = filled stack_sample vs" "stack_bounded stack_sample s" "stack_elems s = rev (pointed vs)"
    by (auto simp: stack_full_def stack_holds_def pointed_simps)
  obtain x r1 where x: "rand_below rand_fn 100000 r = (x, r1)" by fastforce
  let ?v = "word_of_int x :: 32 word"
  from push_bounded [OF vs(3), of alloc "(i, ?v)"] mem i vs obtain s1 where
    s1: "stack_push alloc s (Some (i, ?v)) = Inr s1" "stack_bounded stack_sample s1" "stack_elems s1 = (i, ?v) # rev (pointed vs)"
    by (auto simp: stack_mem_def pointed_simps)
  have "stack_full (s1, filled stack_sample (vs @ [?v]), r1) (Suc i)"
    unfolding stack_full_def prod.case using vs(1) s1(2,3)
    by (intro exI [of _ "vs @ [?v]"]) (simp add: stack_holds_def pointed_simps)
  then show ?thesis using st x s1(1) vs i filled_set [of vs stack_sample ?v] by (simp add: stack_fill_def Let_def)
qed

lemma stack_filled_ok:
  assumes mem: "stack_mem alloc"
  shows "goes_on (stack_filled alloc rand_fn r) (\<lambda>st. stack_full st stack_sample)"
proof -
  have "alloc (stack_sample * 4)" using mem by (simp add: stack_mem_def mem_for_def stack_sample_def)
  moreover from init_bounded [of alloc stack_sample 1] mem obtain s :: "int_ptr stack" where
    s: "stack_init alloc 1 = Inr s" "stack_bounded stack_sample s" "stack_elems s = []" by (auto simp: stack_mem_def)
  moreover have "stack_full (s, replicate stack_sample Undef, r) 0"
    using s by (auto simp: stack_full_def stack_holds_def filled_0)
  then have "goes_on (for_each [0..<stack_sample] (stack_fill alloc rand_fn) (s, replicate stack_sample Undef, r))
      (\<lambda>st. stack_full st stack_sample)"
    by (rule goes_on_for0 [where I = "\<lambda>i st. stack_full st i"]) (rule stack_fill_ok [OF mem])
  ultimately show ?thesis by (simp add: stack_filled_def)
qed

lemma arr_get_vals: "j < length vs \<Longrightarrow> arr_get (map Val vs) j = Inr (vs ! j)"
  by (simp add: arr_get_def)

lemma stack_pop_step_ok:
  assumes s: "stack_holds vs (length vs - i) s" and i: "i < length vs"
  shows "goes_on (stack_sees (map Val vs) (length vs - i - 1) msg (stack_pop s)) (stack_holds vs (length vs - Suc i))"
proof -
  obtain k where k: "length vs - i = Suc k" "k < length vs" using i by (cases "length vs - i") auto
  have "stack_elems s = (k, vs ! k) # rev (take k (pointed vs))"
    using s k by (simp add: stack_holds_def take_Suc_conv_app_nth pointed_simps)
  with pop_bounded [of stack_sample s] s obtain s1 where
    "stack_pop s = Inr (Some (k, vs ! k), s1)" "stack_bounded stack_sample s1" "stack_elems s1 = rev (take k (pointed vs))"
    by (auto simp: stack_holds_def)
  moreover have "length vs - Suc i = k" "length vs - i - 1 = k" using k by auto
  ultimately show ?thesis using k(2) by (simp add: stack_sees_def arr_get_vals stack_holds_def)
qed

definition stack_seen :: "32 word list \<Rightarrow> bool \<Rightarrow> nat \<Rightarrow> int_ptr stack \<Rightarrow> bool" where
  "stack_seen vs forwards i s \<longleftrightarrow> (\<exists>d. s_data s = Some d \<and> deque_list d = pointed vs \<and> seen forwards i d)"

lemma stack_iter_step_ok:
  assumes s: "stack_seen vs fw i s" and i: "i < length vs"
  shows "goes_on (stack_iter_step fw (iter_ind (length vs) fw) msg (map Val vs) i s) (stack_seen vs fw (Suc i))"
proof -
  obtain d where d: "s_data s = Some d" "deque_list d = pointed vs" "seen fw i d" using s by (auto simp: stack_seen_def)
  let ?j = "iter_ind (length vs) fw i"
  have j: "?j < length vs" using i unfolding iter_ind_def by (cases fw) auto
  from deque_see [OF d(3)] i d(2) j obtain d1 where
    step: "(if i \<noteq> 0 then deque_next (Some d) fw else deque_first (Some d) fw) = Inr (Some (?j, vs ! ?j), Some d1)"
    and d1: "seen fw (Suc i) d1" "deque_list d1 = pointed vs" by (auto simp: pointed_simps)
  have "(if i \<noteq> 0 then stack_next s fw else stack_first s fw) = Inr (Some (?j, vs ! ?j), s\<lparr>s_data := Some d1\<rparr>)"
    using step d(1) by (cases "i = 0") (simp_all add: stack_next_def stack_first_def)
  then show ?thesis unfolding stack_iter_step_def
    using d1 j by (simp add: stack_sees_def arr_get_vals stack_seen_def)
qed

lemma stack_ends_ok:
  assumes s: "stack_seen vs fw (length vs) s" and ne: "vs \<noteq> []"
  shows "goes_on (stack_ends fw msg s) (\<lambda>s1. stack_seen vs fw' 0 s1)"
proof -
  obtain d where d: "s_data s = Some d" "deque_list d = pointed vs" "seen fw (length vs) d" using s by (auto simp: stack_seen_def)
  have "deque_list d \<noteq> []" using d(2) ne pointed_simps(1) [of vs] by auto
  then have "deque_next (Some d) fw = Inr (None, Some d)" using d by (intro deque_see_end) (simp_all add: pointed_simps)
  with d show ?thesis by (auto simp: stack_ends_def stack_next_def stack_seen_def seen_def)
qed

text \<open>Having seen all elements forwards is having seen the first one backwards.\<close>

lemma stack_turn:
  assumes "stack_seen vs True (length vs) s" and "vs \<noteq> []"
  shows "stack_seen vs False 1 s"
proof -
  obtain d where "s_data s = Some d" "deque_list d = pointed vs" "seen True (length vs) d" using assms(1) by (auto simp: stack_seen_def)
  with assms(2) show ?thesis by (simp add: stack_seen_def seen_def iter_ind_def pointed_simps)
qed

lemma stack_iter_loop_ok:
  assumes "stack_seen vs fw i s" and "i \<le> length vs"
  shows "goes_on (for_each [i..<length vs] (stack_iter_step fw (iter_ind (length vs) fw) msg (map Val vs)) s)
    (stack_seen vs fw (length vs))"
  by (rule goes_on_for [where I = "stack_seen vs fw", OF assms]) (rule stack_iter_step_ok)

section \<open>The tests pass\<close>

lemma test_stack_basic_passes:
  assumes mem: "stack_mem alloc" shows "test_stack_basic alloc = Inr None"
proof -
  from init_bounded [of alloc stack_sample 10] mem obtain s :: "int_ptr stack" where
    s: "stack_init alloc 10 = Inr s" "stack_bounded stack_sample s" "stack_elems s = []" by (auto simp: stack_mem_def)
  from stack_count_ok [OF stack_bounded_inv [OF s(2)]] s show ?thesis by (simp add: test_stack_basic_def verdict_def go_on_def)
qed

lemma test_stack_pushpop_passes:
  assumes mem: "stack_mem alloc" shows "test_stack_pushpop alloc rand_fn r = Inr None"
  unfolding test_stack_pushpop_def
proof (rule verdict_passes [where P = "\<lambda>_. True"], rule goes_on_then [OF stack_filled_ok [OF mem]], clarify)
  fix s ia r1
  assume "stack_full (s, ia, r1 :: 'a) stack_sample"
  then obtain vs where vs: "length vs = stack_sample" "ia = map Val vs" and s: "stack_holds vs stack_sample s"
    by (auto simp: stack_full_def filled_def)
  then have "stack_inv s" "length (stack_elems s) = stack_sample"
    by (auto simp: stack_holds_def stack_bounded_inv pointed_simps)
  with stack_count_ok [of s] have count: "stack_count s = Inr stack_sample" by simp
  have "goes_on (for_each [0..<stack_sample] (\<lambda>i s. stack_sees ia (stack_sample - i - 1) m (stack_pop s)) s)
      (stack_holds vs (stack_sample - stack_sample))" for m
    using s vs by (intro goes_on_for0 [where I = "\<lambda>i. stack_holds vs (stack_sample - i)"])
      (simp_all add: vs(2) stack_pop_step_ok [where vs = vs, unfolded vs(1), simplified])
  from goes_on_mono [OF this, where P = "\<lambda>_. True"] show "goes_on (bind_res (stack_count s) (\<lambda>n.
     and_then (fail_if (n \<noteq> stack_sample) ''wrong count after pushing'') (\<lambda>_.
     for_each [0..<stack_sample]
       (\<lambda>i s. stack_sees ia (stack_sample - i - 1) ''wrong value popped out of stack'' (stack_pop s)) s))) (\<lambda>_. True)"
    by (simp add: count goes_on_mono)
qed

lemma test_stack_iter_passes:
  assumes mem: "stack_mem alloc" shows "test_stack_iter alloc rand_fn r = Inr None"
  unfolding test_stack_iter_def
proof (rule verdict_passes [where P = "\<lambda>_. True"], rule goes_on_then [OF stack_filled_ok [OF mem]], clarify)
  fix s ia r1
  assume "stack_full (s, ia, r1 :: 'a) stack_sample"
  then obtain vs where len: "length vs = stack_sample" and ia: "ia = map Val vs" and s: "stack_holds vs stack_sample s"
    by (auto simp: stack_full_def filled_def)
  note vs = len [symmetric] ia
  have ne: "vs \<noteq> []" using vs(1) by (auto simp: stack_sample_def)
  have s: "stack_seen vs True 0 s"
    using s vs(1) by (auto simp: stack_holds_def stack_bounded_def stack_seen_def seen_def stack_elems_def pointed_simps)
  have ind: "(\<lambda>i. i) = iter_ind (length vs) True" "(\<lambda>i. length vs - i - 1) = iter_ind (length vs) False"
    by (auto simp: iter_ind_def fun_eq_iff)
  note loop = goes_on_then [OF stack_iter_loop_ok] and ends = goes_on_then [OF stack_ends_ok [OF _ ne, where fw' = False]]
    and back_ends = goes_on_then [OF stack_ends_ok [OF _ ne, where fw' = True]]
  show "goes_on (and_then (for_each [0..<stack_sample] (stack_iter_step True (\<lambda>i. i) ''wrong value seen while iterating'' ia) s) (\<lambda>s1.
     and_then (stack_ends True ''stack_next did not return when it should'' s1) (\<lambda>s2.
     and_then (for_each [0..<stack_sample]
       (stack_iter_step False (\<lambda>i. stack_sample - i - 1) ''wrong value seen while iterating (2)'' ia) s2) (\<lambda>s3.
     and_then (stack_ends False ''stack_next did not return when it should (2)'' s3) (\<lambda>s4.
     and_then (for_each [0..<stack_sample] (stack_iter_step True (\<lambda>i. i) ''wrong value seen while iterating (3)'' ia) s4) (\<lambda>s5.
     and_then (for_each [1..<stack_sample]
       (stack_iter_step False (\<lambda>i. stack_sample - i - 1) ''wrong value seen while iterating (4)'' ia) s5) (\<lambda>s6.
     stack_ends False ''stack_next did not return when it should (3)'' s6))))))) (\<lambda>_. True)"
    unfolding vs ind
    by (rule loop [OF s le0], rule ends, assumption, rule loop, assumption, rule le0, rule back_ends, assumption,
      rule loop, assumption, rule le0, rule loop, erule stack_turn [OF _ ne], use ne in \<open>simp add: Suc_leI\<close>,
      rule goes_on_mono [OF stack_ends_ok [OF _ ne]], assumption, simp)
qed

end
