(* ===== verification/TestPtrList.thy ===== *)
theory TestPtrList imports TestKit begin

text \<open>
  test_ptrlist.c. The elements are the addresses \<open>p\<close>, \<open>q\<close>, \<open>r\<close> and \<open>s\<close> of four local variables, which the
  tests never read. The results of the insertions and removals are not looked at; the tests pass if memory
  for the nodes is always there.
\<close>

section \<open>The code\<close>

type_synonym addr_list = "nat ptrlist option"

definition test_ptrlist_basic :: "(nat \<Rightarrow> bool) \<Rightarrow> string option res" where
  "test_ptrlist_basic alloc = verdict (
     bind_res (ptrlist_init alloc) (\<lambda>l :: nat ptrlist.
     bind_res (ptrlist_count (Some l)) (\<lambda>n.
     and_then (fail_if (n \<noteq> 0) ''newly allocated list not empty'') (\<lambda>_.
     call (ptrlist_dispose (Some l))))))"

fun pl_inserts :: "(nat set \<Rightarrow> nat option) \<Rightarrow> (int \<times> nat) list \<Rightarrow> addr_list \<Rightarrow> addr_list res" where
  "pl_inserts new [] l = Inr l"
| "pl_inserts new ((i, x) # ops) l = bind_res (ptrlist_insert new l i (Some x)) (\<lambda>r. pl_inserts new ops (snd r))"

text \<open>\<open>ptrlist_get(l, i) != x || ptrlist_get(l, i + 1) != ...\<close>\<close>

fun pl_differs :: "addr_list \<Rightarrow> nat \<Rightarrow> nat option list \<Rightarrow> bool res" where
  "pl_differs l i [] = Inr False"
| "pl_differs l i (x # xs) = bind_res (ptrlist_get l i) (\<lambda>y. if y \<noteq> x then Inr True else pl_differs l (Suc i) xs)"

definition pl_must_be :: "addr_list \<Rightarrow> nat option list \<Rightarrow> string \<Rightarrow> unit tst" where
  "pl_must_be l xs msg = bind_res (pl_differs l 0 xs) (\<lambda>b. fail_if b msg)"

definition pl_count_is :: "addr_list \<Rightarrow> nat \<Rightarrow> string \<Rightarrow> unit tst" where
  "pl_count_is l n msg = bind_res (ptrlist_count l) (\<lambda>c. fail_if (c \<noteq> n) msg)"

definition test_ptrlist_insert ::
  "(nat \<Rightarrow> bool) \<Rightarrow> (nat set \<Rightarrow> nat option) \<Rightarrow> nat \<Rightarrow> nat \<Rightarrow> nat \<Rightarrow> nat \<Rightarrow> string option res" where
  "test_ptrlist_insert alloc new p q r s = verdict (
     bind_res (ptrlist_init alloc) (\<lambda>l.
     and_then (call (pl_inserts new [(0, s), (0, r), (0, q), (0, p)] (Some l))) (\<lambda>l1.
     and_then (pl_must_be l1 [Some p, Some q, Some r, Some s, None] ''got something else out than what was put in'') (\<lambda>_.
     and_then (call (ptrlist_clear l1)) (\<lambda>l2.
     and_then (call (pl_inserts new [(- 1, p), (- 1, q), (- 1, r), (- 1, s)] l2)) (\<lambda>l3.
     and_then (pl_must_be l3 [Some p, Some q, Some r, Some s, None] ''got something else out than what was put in'') (\<lambda>_.
     and_then (call (ptrlist_clear l3)) (\<lambda>l4.
     and_then (call (pl_inserts new [(5, r), (- 1, s), (0, p), (1, q)] l4)) (\<lambda>l5.
     and_then (pl_count_is l5 4 ''list size != 4 after inserting four elements'') (\<lambda>_.
     and_then (pl_must_be l5 [Some p, Some q, Some r, Some s, None] ''got something else out than what was put in'') (\<lambda>_.
     call (ptrlist_dispose l5))))))))))))"

definition pl_remove :: "nat \<Rightarrow> addr_list \<Rightarrow> addr_list tst" where
  "pl_remove i l = bind_res (ptrlist_remove l i) (\<lambda>r. go_on (snd r))"

text \<open>Removing element \<open>i\<close> of four, after which the list must be \<open>xs\<close>.\<close>

definition pl_remove_of_four :: "(nat set \<Rightarrow> nat option) \<Rightarrow> nat list \<Rightarrow> nat \<Rightarrow> nat list \<Rightarrow> string \<Rightarrow> addr_list \<Rightarrow> addr_list tst" where
  "pl_remove_of_four new four i xs msg l =
     and_then (call (pl_inserts new (map (Pair 0) (rev four)) l)) (\<lambda>l1.
     and_then (pl_remove i l1) (\<lambda>l2.
     and_then (pl_must_be l2 (map Some xs @ [None]) msg) (\<lambda>_.
     call (ptrlist_clear l2))))"

definition test_ptrlist_remove ::
  "(nat \<Rightarrow> bool) \<Rightarrow> (nat set \<Rightarrow> nat option) \<Rightarrow> nat \<Rightarrow> nat \<Rightarrow> nat \<Rightarrow> nat \<Rightarrow> string option res" where
  "test_ptrlist_remove alloc new p q r s = verdict (
     bind_res (ptrlist_init alloc) (\<lambda>l.
     and_then (call (pl_inserts new [(0, s)] (Some l))) (\<lambda>l1.
     and_then (pl_remove 1 l1) (\<lambda>l2.
     and_then (pl_count_is l2 1 ''bogus remove actually removed something?'') (\<lambda>_.
     and_then (pl_remove 0 l2) (\<lambda>l3.
     and_then (pl_count_is l3 0 ''failed to remove single element'') (\<lambda>_.
     and_then (call (ptrlist_clear l3)) (\<lambda>l4.
     and_then (call (pl_inserts new [(0, s), (0, r)] l4)) (\<lambda>l5.
     and_then (pl_remove 2 l5) (\<lambda>l6.
     and_then (pl_count_is l6 2 ''bogus remove actually removed something?'') (\<lambda>_.
     and_then (pl_remove 0 l6) (\<lambda>l7.
     and_then (pl_count_is l7 1 ''failed to remove head of 2-element list'') (\<lambda>_.
     and_then (pl_remove 0 l7) (\<lambda>l8.
     and_then (pl_count_is l8 0 ''failed to remove single remaining element'') (\<lambda>_.
     and_then (call (ptrlist_clear l8)) (\<lambda>l9.
     and_then (pl_remove_of_four new [p, q, r, s] 0 [q, r, s] ''remove of element 0 in 4-elem list failed'' l9) (\<lambda>l10.
     and_then (pl_remove_of_four new [p, q, r, s] 1 [p, r, s] ''remove of element 1 in 4-elem list failed'' l10) (\<lambda>l11.
     and_then (pl_remove_of_four new [p, q, r, s] 2 [p, q, s] ''remove of element 2 in 4-elem list failed'' l11) (\<lambda>l12.
     and_then (pl_remove_of_four new [p, q, r, s] 3 [p, q, r] ''remove of element 3 in 4-elem list failed'' l12) (\<lambda>l13.
     call (ptrlist_dispose l13)))))))))))))))))))))"

section \<open>The parts go on\<close>

definition holds_pl :: "nat list \<Rightarrow> addr_list \<Rightarrow> bool" where
  "holds_pl xs h \<longleftrightarrow> (\<exists>l. h = Some l \<and> pl_list l xs)"

fun inserted :: "(int \<times> nat) list \<Rightarrow> nat list \<Rightarrow> nat list" where
  "inserted [] xs = xs"
| "inserted ((i, x) # ops) xs = inserted ops (list_insert xs i x)"

lemma list_insert_length [simp]: "length (list_insert xs i x) = Suc (length xs)"
  by (auto simp: list_insert_def)

lemma pl_inserts_ok:
  "nodes_ok new \<Longrightarrow> pl_list l xs \<Longrightarrow> \<forall>(i, x) \<in> set ops. - (2 ^ 63) + int (length xs + length ops) \<le> i \<Longrightarrow>
   \<exists>l'. pl_inserts new ops (Some l) = Inr (Some l') \<and> pl_list l' (inserted ops xs)"
proof (induction ops arbitrary: l xs)
  case (Cons op ops)
  obtain i x where op: "op = (i, x)" by (cases op)
  have "new (dom (pl_nodes l)) \<noteq> None" using Cons.prems(1) unfolding nodes_ok_def by blast
  with ptrlist_insert_ok [OF Cons.prems(2), of new i x] Cons.prems(1,3) obtain l1 where
    l1: "ptrlist_insert new (Some l) i (Some x) = Inr (True, Some l1)" "pl_list l1 (list_insert xs i x)"
    by (auto simp: nodes_ok_def op)
  from Cons.IH [OF Cons.prems(1) l1(2)] Cons.prems(3) l1(1) show ?case by (auto simp: op)
qed auto

lemma inserts_go_on:
  assumes "nodes_ok new" and "holds_pl xs h" and "\<forall>(i, x) \<in> set ops. - 100 \<le> i" and "length xs + length ops \<le> 100"
    and "inserted ops xs = ys"
  shows "goes_on (call (pl_inserts new ops h)) (holds_pl ys)"
proof -
  obtain l where l: "h = Some l" "pl_list l xs" using assms(2) by (auto simp: holds_pl_def)
  have "\<forall>(i, x) \<in> set ops. - (2 ^ 63) + int (length xs + length ops) \<le> i" using assms(3,4) by fastforce
  from pl_inserts_ok [OF assms(1) l(2) this] l(1) assms(5) show ?thesis by (auto simp: holds_pl_def intro: goes_on_call)
qed

lemma pl_differs_ok:
  "pl_list l xs \<Longrightarrow> pl_differs (Some l) i ys =
     Inr (\<exists>j < length ys. ys ! j \<noteq> (if i + j < length xs then Some (xs ! (i + j)) else None))"
proof (induction ys arbitrary: i)
  case (Cons y ys)
  have "(\<exists>j < Suc n. P j) \<longleftrightarrow> P 0 \<or> (\<exists>j < n. P (Suc j))" for n P
    using less_Suc_eq_0_disj by auto
  with Cons ptrlist_get_ok [OF Cons.prems, of i] show ?case by (auto split: if_splits)
qed simp

lemma must_be_goes_on:
  assumes "holds_pl xs h" and "ys = map Some xs @ [None]"
  shows "goes_on (pl_must_be h ys msg) (\<lambda>_. True)"
proof -
  obtain l where l: "h = Some l" "pl_list l xs" using assms(1) by (auto simp: holds_pl_def)
  with pl_differs_ok [OF l(2), of 0 ys] assms(2) show ?thesis by (auto simp: pl_must_be_def nth_append)
qed

lemma count_is_goes_on:
  "holds_pl xs h \<Longrightarrow> length xs = n \<Longrightarrow> n < 100 \<Longrightarrow> goes_on (pl_count_is h n msg) (\<lambda>_. True)"
  by (auto simp: holds_pl_def pl_count_is_def ptrlist_count_ok size_max_def)

lemma remove_goes_on:
  assumes "holds_pl xs h" and "take i xs @ drop (Suc i) xs = ys"
  shows "goes_on (pl_remove i h) (holds_pl ys)"
  using assms ptrlist_remove_ok [of _ xs i] by (force simp: holds_pl_def pl_remove_def)

lemma clear_goes_on: "holds_pl xs h \<Longrightarrow> goes_on (call (ptrlist_clear h)) (holds_pl [])"
  by (auto simp: holds_pl_def ptrlist_clear_ok pl_list_empty intro!: goes_on_call)

lemma dispose_goes_on: "holds_pl xs h \<Longrightarrow> goes_on (call (ptrlist_dispose h)) (\<lambda>_. True)"
  by (auto simp: holds_pl_def ptrlist_dispose_ok intro!: goes_on_call)

lemma remove_of_four_goes_on:
  assumes new: "nodes_ok new" and h: "holds_pl [] h" and xs: "take i [p, q, r, s] @ drop (Suc i) [p, q, r, s] = xs"
  shows "goes_on (pl_remove_of_four new [p, q, r, s] i xs msg h) (holds_pl [])"
  unfolding pl_remove_of_four_def
proof (rule goes_on_then)
  show "goes_on (call (pl_inserts new (map (Pair 0) (rev [p, q, r, s])) h)) (holds_pl [p, q, r, s])"
    by (rule inserts_go_on [OF new h]) (simp_all add: list_insert_def)
next
  fix l1
  assume l1: "holds_pl [p, q, r, s] l1"
  show "goes_on (and_then (pl_remove i l1) (\<lambda>l2. and_then (pl_must_be l2 (map Some xs @ [None]) msg) (\<lambda>_. call (ptrlist_clear l2)))) (holds_pl [])"
  proof (rule goes_on_then [OF remove_goes_on [OF l1 xs]])
    fix l2
    assume l2: "holds_pl xs l2"
    show "goes_on (and_then (pl_must_be l2 (map Some xs @ [None]) msg) (\<lambda>_. call (ptrlist_clear l2))) (holds_pl [])"
      by (rule goes_on_then [OF must_be_goes_on [OF l2 refl]]) (rule clear_goes_on [OF l2])
  qed
qed

section \<open>The tests pass\<close>

lemma init_goes_on:
  assumes "alloc sizeof_ptrlist"
  obtains l where "ptrlist_init alloc = Inr l" "holds_pl [] (Some l)"
  using ptrlist_init_ok [of alloc] assms by (auto simp: holds_pl_def)

lemma test_ptrlist_basic_passes:
  assumes "alloc sizeof_ptrlist" shows "test_ptrlist_basic alloc = Inr None"
proof -
  from init_goes_on [of alloc] assms obtain l where l: "ptrlist_init alloc = Inr l" "holds_pl [] (Some l)" by auto
  then have "ptrlist_count (Some l) = Inr 0" by (auto simp: holds_pl_def ptrlist_count_ok size_max_def)
  with l(1) show ?thesis unfolding test_ptrlist_basic_def
    by (intro verdict_passes [where P = "\<lambda>_. True"]) (simp add: dispose_goes_on [OF l(2)])
qed

lemma pl_insert_steps:
  assumes "nodes_ok new"
  shows "holds_pl [] h \<Longrightarrow> goes_on (call (pl_inserts new [(0, s), (0, r), (0, q), (0, p)] h)) (holds_pl [p, q, r, s])"
    and "holds_pl [] h \<Longrightarrow> goes_on (call (pl_inserts new [(- 1, p), (- 1, q), (- 1, r), (- 1, s)] h)) (holds_pl [p, q, r, s])"
    and "holds_pl [] h \<Longrightarrow> goes_on (call (pl_inserts new [(5, r), (- 1, s), (0, p), (1, q)] h)) (holds_pl [p, q, r, s])"
    and "holds_pl [] h \<Longrightarrow> goes_on (call (pl_inserts new [(0, s)] h)) (holds_pl [s])"
    and "holds_pl [] h \<Longrightarrow> goes_on (call (pl_inserts new [(0, s), (0, r)] h)) (holds_pl [r, s])"
  by (erule inserts_go_on [OF assms], simp, simp, simp add: list_insert_def)+

lemma test_ptrlist_insert_passes:
  assumes mem: "alloc sizeof_ptrlist" and new: "nodes_ok new"
  shows "test_ptrlist_insert alloc new p q r s = Inr None"
proof -
  from init_goes_on [of alloc] mem obtain l where l: "ptrlist_init alloc = Inr l" "holds_pl [] (Some l)" by auto
  note ins = goes_on_then [OF pl_insert_steps(1) [OF new]] goes_on_then [OF pl_insert_steps(2) [OF new]]
    goes_on_then [OF pl_insert_steps(3) [OF new]]
  note must = goes_on_then [OF must_be_goes_on]
  note clear = goes_on_then [OF clear_goes_on]
  show ?thesis unfolding test_ptrlist_insert_def l(1) bind_res_Inr
    by (rule verdict_passes [where P = "\<lambda>_. True"], rule ins [OF l(2)], rule must, assumption, simp, rule clear, assumption,
      rule ins, assumption, rule must, assumption, simp, rule clear, assumption, rule ins, assumption,
      rule goes_on_then [OF count_is_goes_on], assumption, simp, simp, rule must, assumption, simp, rule dispose_goes_on)
qed

lemma test_ptrlist_remove_passes:
  assumes mem: "alloc sizeof_ptrlist" and new: "nodes_ok new"
  shows "test_ptrlist_remove alloc new p q r s = Inr None"
proof -
  from init_goes_on [of alloc] mem obtain l where l: "ptrlist_init alloc = Inr l" "holds_pl [] (Some l)" by auto
  note ins = goes_on_then [OF pl_insert_steps(4) [OF new]] goes_on_then [OF pl_insert_steps(5) [OF new]]
  note rem = goes_on_then [OF remove_goes_on] and count = goes_on_then [OF count_is_goes_on]
  note clear = goes_on_then [OF clear_goes_on] and four = goes_on_then [OF remove_of_four_goes_on [OF new]]
  show ?thesis unfolding test_ptrlist_remove_def l(1) bind_res_Inr
    by (rule verdict_passes [where P = "\<lambda>_. True"], rule ins [OF l(2)], rule rem, assumption, simp, rule count, assumption, simp, simp,
      rule rem, assumption, simp, rule count, assumption, simp, simp, rule clear, assumption,
      rule ins, assumption, rule rem, assumption, simp, rule count, assumption, simp, simp,
      rule rem, assumption, simp, rule count, assumption, simp, simp, rule rem, assumption, simp, rule count, assumption, simp, simp,
      rule clear, assumption, rule four, assumption, simp, rule four, assumption, simp, rule four, assumption, simp, rule four, assumption, simp,
      rule dispose_goes_on)
qed

end
