(* ===== verification/TestHashMap.thy ===== *)
theory TestHashMap imports TestKit HashMap begin

text \<open>
  test_hashmap.c. Keys and values are addresses of local variables, hashed and compared as numbers by the
  functions \<open>test_hfn\<close>, \<open>test_efn\<close> and \<open>test_dfn\<close> of HashMap. The tests pass if the addresses of the keys are
  different, as those of different variables are, and memory is there.
\<close>

section \<open>The code\<close>

type_synonym addr_map = "(nat, nat) hmap option"

abbreviation new_map :: "(nat \<Rightarrow> bool) \<Rightarrow> nat \<Rightarrow> addr_map res" where
  "new_map alloc n \<equiv> hmap_init alloc n test_hfn test_efn test_dfn"

definition hm_count_is :: "addr_map \<Rightarrow> nat \<Rightarrow> string \<Rightarrow> unit tst" where
  "hm_count_is mp n msg = fail_if (hmap_count mp \<noteq> n) msg"

definition test_hashmap_basic :: "(nat \<Rightarrow> bool) \<Rightarrow> string option res" where
  "test_hashmap_basic alloc = verdict (
     bind_res (new_map alloc 300) (\<lambda>mp.
     and_then (hm_count_is mp 0 ''newly allocated map not empty'') (\<lambda>_.
     call (hmap_dispose mp))))"

fun hm_puts :: "(nat \<Rightarrow> bool) \<Rightarrow> (nat set \<Rightarrow> nat option) \<Rightarrow> (nat \<times> nat) list \<Rightarrow> addr_map \<Rightarrow> addr_map res" where
  "hm_puts alloc new [] mp = Inr mp"
| "hm_puts alloc new ((k, v) # ps) mp = bind_res (hmap_put alloc new mp (Some k) (Some v)) (hm_puts alloc new ps)"

text \<open>\<open>hmap_get(mp, k) != v || ...\<close>\<close>

fun hm_differs :: "addr_map \<Rightarrow> (nat \<times> nat option) list \<Rightarrow> bool res" where
  "hm_differs mp [] = Inr False"
| "hm_differs mp ((k, v) # ps) = bind_res (hmap_get mp k) (\<lambda>w. if w \<noteq> v then Inr True else hm_differs mp ps)"

definition hm_must_be :: "addr_map \<Rightarrow> (nat \<times> nat option) list \<Rightarrow> string \<Rightarrow> unit tst" where
  "hm_must_be mp ps msg = bind_res (hm_differs mp ps) (\<lambda>b. fail_if b msg)"

definition test_hashmap_insert ::
  "(nat \<Rightarrow> bool) \<Rightarrow> (nat set \<Rightarrow> nat option) \<Rightarrow> nat \<Rightarrow> nat \<Rightarrow> nat \<Rightarrow> nat \<Rightarrow> nat \<Rightarrow> nat \<Rightarrow> nat \<Rightarrow> nat \<Rightarrow> nat \<Rightarrow> string option res" where
  "test_hashmap_insert alloc new k l m n v w x y t = verdict (
     bind_res (new_map alloc 300) (\<lambda>mp.
     and_then (call (hm_puts alloc new [(k, v), (l, w), (m, x), (n, y)] mp)) (\<lambda>mp1.
     and_then (hm_count_is mp1 4 ''count not 4 after putting 4 elements'') (\<lambda>_.
     and_then (hm_must_be mp1 [(k, Some v), (l, Some w), (m, Some x), (n, Some y), (t, None)]
       ''got something else out than what was put in'') (\<lambda>_.
     and_then (call (hm_puts alloc new [(k, t)] mp1)) (\<lambda>mp2.
     and_then (hm_count_is mp2 4 ''count changed when it wasn't supposed to'') (\<lambda>_.
     and_then (hm_must_be mp2 [(k, Some t)] ''replacing put() failed'') (\<lambda>_.
     and_then (call (hmap_clear mp2)) (\<lambda>mp3.
     and_then (hm_count_is mp3 0 ''map not empty after cleaning'') (\<lambda>_.
     call (hmap_dispose mp3)))))))))))"

text \<open>The flags \<open>seena\<close> to \<open>seend\<close>, one for each pair that was put in.\<close>

definition hm_seen :: "(nat \<times> nat) list \<Rightarrow> nat option \<Rightarrow> nat option \<Rightarrow> bool list \<Rightarrow> bool list" where
  "hm_seen ps key val flags = map2 (\<lambda>(k, v) b. b \<or> key = Some k \<or> val = Some v) ps flags"

definition hm_look :: "(nat \<times> nat) list \<Rightarrow> string \<Rightarrow> (nat, nat) hmap_visit res \<Rightarrow> bool list \<Rightarrow> (bool list \<times> addr_map) tst" where
  "hm_look ps msg m flags =
     bind_res m (\<lambda>(found, out, mp).
     and_then (fail_if (\<not> found) msg) (\<lambda>_.
     case out of None \<Rightarrow> Inl Indeterminate | Some (key, val) \<Rightarrow> go_on (hm_seen ps key val flags, mp)))"

definition hm_visits :: "(nat \<times> nat) list \<Rightarrow> addr_map \<Rightarrow> nat set tst" where
  "hm_visits ps mp =
     and_then (hm_look ps ''hmap_first() failed'' (hmap_first mp) (replicate 4 False)) (\<lambda>s.
     and_then (for_each [0..<3] (\<lambda>i (flags, mp). hm_look ps ''hmap_next failed'' (hmap_next mp) flags) s) (\<lambda>(flags, mp1).
     and_then (fail_if (False \<in> set flags) ''iterator fail'') (\<lambda>_.
     bind_res (hmap_next mp1) (\<lambda>(found, out, mp2).
     and_then (fail_if found ''iterator still valid'') (\<lambda>_.
     call (hmap_dispose mp2))))))"

definition test_hashmap_iter ::
  "(nat \<Rightarrow> bool) \<Rightarrow> (nat set \<Rightarrow> nat option) \<Rightarrow> nat \<Rightarrow> nat \<Rightarrow> nat \<Rightarrow> nat \<Rightarrow> nat \<Rightarrow> nat \<Rightarrow> nat \<Rightarrow> nat \<Rightarrow> string option res" where
  "test_hashmap_iter alloc new k l m n v w x y = verdict (
     let ps = [(k, v), (l, w), (m, x), (n, y)] in
     bind_res (new_map alloc 229) (\<lambda>mp.
     and_then (call (hm_puts alloc new ps mp)) (\<lambda>mp1.
     and_then (hm_count_is mp1 4 ''count not 4 after putting 4 elements'') (\<lambda>_. hm_visits ps mp1))))"

section \<open>The parts go on\<close>

definition hashmap_mem :: "(nat \<Rightarrow> bool) \<Rightarrow> (nat set \<Rightarrow> nat option) \<Rightarrow> bool" where
  "hashmap_mem alloc new \<longleftrightarrow> (\<forall>n \<le> 3000. alloc n) \<and> nodes_ok new"

abbreviation map_rep :: "(nat, nat) hmap \<Rightarrow> (nat \<times> nat) list list \<Rightarrow> bool" where
  "map_rep \<equiv> hmap_rep test_hfn test_efn test_dfn"

definition holds_map :: "(nat \<Rightarrow> nat option) \<Rightarrow> nat \<Rightarrow> addr_map \<Rightarrow> bool" where
  "holds_map f c h \<longleftrightarrow> (\<exists>m als. h = Some m \<and> map_rep m als \<and> hmap_lookup test_hfn test_efn als = f \<and> length (concat als) = c)"

lemma new_map_ok:
  assumes mem: "hashmap_mem alloc new" and n: "0 < n" "n \<le> 300"
  obtains mp where "new_map alloc n = Inr mp" "holds_map (\<lambda>_. None) 0 mp"
proof -
  have "alloc sizeof_hmap" "alloc (n * ptr_size)" "n < max_cells"
    using mem n by (auto simp: hashmap_mem_def sizeof_hmap_def ptr_size_def max_cells_def)
  with n hmap_init_ok [of alloc n test_hfn test_efn test_dfn, where ?'v = nat] obtain m :: "(nat, nat) hmap" where
    m: "new_map alloc n = Inr (Some m)" "map_rep m (replicate n [])" by blast
  moreover have "hmap_lookup test_hfn test_efn (replicate n ([] :: (nat \<times> nat) list)) = (\<lambda>_. None)"
    using n by (simp add: hmap_lookup_def fun_eq_iff)
  ultimately have "holds_map (\<lambda>_. None) 0 (Some m)" by (auto simp: holds_map_def)
  with m(1) that show thesis by blast
qed

lemma hm_put_holds:
  assumes mem: "hashmap_mem alloc new" and h: "holds_map f c h" and c: "c < 100"
  shows "\<exists>h'. hmap_put alloc new h (Some k) (Some v) = Inr h' \<and> holds_map (f(k \<mapsto> v)) (if f k = None then Suc c else c) h'"
proof -
  obtain m als where m: "h = Some m" "map_rep m als" "hmap_lookup test_hfn test_efn als = f" "length (concat als) = c"
    using h by (auto simp: holds_map_def)
  have new: "room_for new 100" "length (concat als) < 100" "alloc sizeof_ptrlist" "Suc (length (concat als)) < size_max"
    "fst (test_dfn (h_copies m) k) \<noteq> None"
    using mem c m(4) by (auto simp: hashmap_mem_def nodes_ok_def room_for_def sizeof_ptrlist_def size_max_def test_dfn_def)
  from test_fns.hmap_put_ok [where new = new and alloc = alloc, OF m(2) new, of v] obtain m' als' where
    m': "hmap_put alloc new (Some m) (Some k) (Some v) = Inr (Some m')" "map_rep m' als'"
      "\<forall>l. hmap_lookup test_hfn test_efn als' l = (if test_efn k l then Some v else hmap_lookup test_hfn test_efn als l)"
      "length (concat als') = length (concat als) + (if hmap_lookup test_hfn test_efn als k = None then 1 else 0)" by blast
  then have "hmap_lookup test_hfn test_efn als' = f(k \<mapsto> v)" using m(3) by (auto simp: test_efn_def fun_eq_iff)
  with m m' show ?thesis by (auto simp: holds_map_def)
qed

lemma puts_go_on:
  "hashmap_mem alloc new \<Longrightarrow> holds_map f c h \<Longrightarrow> c + length ps \<le> 100 \<Longrightarrow> distinct (map fst ps) \<Longrightarrow>
   \<forall>k \<in> fst ` set ps. f k = None \<Longrightarrow> goes_on (call (hm_puts alloc new ps h)) (holds_map (fold (\<lambda>(k, v) f. f(k \<mapsto> v)) ps f) (c + length ps))"
proof (induction ps arbitrary: f c h)
  case Nil
  then show ?case by (auto intro: goes_on_call)
next
  case (Cons p ps)
  obtain k v where p: "p = (k, v)" by (cases p)
  from hm_put_holds [OF Cons.prems(1,2), of k v] Cons.prems(3,5) obtain h' where
    h': "hmap_put alloc new h (Some k) (Some v) = Inr h'" "holds_map (f(k \<mapsto> v)) (Suc c) h'" by (auto simp: p)
  have "\<forall>k' \<in> fst ` set ps. (f(k \<mapsto> v)) k' = None" using Cons.prems(4,5) by (auto simp: p)
  with Cons.IH [OF Cons.prems(1) h'(2)] Cons.prems(3,4) h'(1) show ?case by (simp add: p)
qed

lemma four_puts_go_on:
  assumes mem: "hashmap_mem alloc new" and h: "holds_map (\<lambda>_. None) 0 h" and keys: "distinct [k, l, m, n]"
  shows "goes_on (call (hm_puts alloc new [(k, v), (l, w), (m, x), (n, y)] h)) (holds_map [k \<mapsto> v, l \<mapsto> w, m \<mapsto> x, n \<mapsto> y] 4)"
proof -
  let ?ps = "[(k, v), (l, w), (m, x), (n, y)]"
  have "fold (\<lambda>(k, v) f. f(k \<mapsto> v)) ?ps (\<lambda>_. None) = [k \<mapsto> v, l \<mapsto> w, m \<mapsto> x, n \<mapsto> y]" "0 + length ?ps = 4" by simp_all
  moreover have "goes_on (call (hm_puts alloc new ?ps h)) (holds_map (fold (\<lambda>(k, v) f. f(k \<mapsto> v)) ?ps (\<lambda>_. None)) (0 + length ?ps))"
    using keys by (intro puts_go_on [OF mem h]) simp_all
  ultimately show ?thesis by (simp only:)
qed

lemma put_again_goes_on:
  assumes "hashmap_mem alloc new" and "holds_map f c h" and "c < 100" and "f k \<noteq> None"
  shows "goes_on (call (hm_puts alloc new [(k, v)] h)) (holds_map (f(k \<mapsto> v)) c)"
  using hm_put_holds [OF assms(1,2,3), of k v] assms(4) by (auto intro: goes_on_call)

lemma hm_count_goes_on: "holds_map f c h \<Longrightarrow> c = n \<Longrightarrow> goes_on (hm_count_is h n msg) (\<lambda>_. True)"
  by (auto simp: holds_map_def hm_count_is_def hmap_count_def dest: hmap_repD(8))

lemma hm_differs_ok: "holds_map f c h \<Longrightarrow> hm_differs h ps = Inr (\<exists>(k, v) \<in> set ps. f k \<noteq> v)"
proof (induction ps)
  case (Cons p ps)
  then obtain m als where m: "h = Some m" "map_rep m als" "hmap_lookup test_hfn test_efn als = f" by (auto simp: holds_map_def)
  then have "hmap_get h (fst p) = Inr (f (fst p))" by (simp add: test_fns.hmap_get_ok [OF m(2)])
  with Cons show ?case by (cases p) auto
qed simp

lemma hm_must_be_goes_on: "holds_map f c h \<Longrightarrow> \<forall>(k, v) \<in> set ps. f k = v \<Longrightarrow> goes_on (hm_must_be h ps msg) (\<lambda>_. True)"
  by (auto simp: hm_must_be_def hm_differs_ok)

lemma hm_clear_goes_on:
  assumes "holds_map f c h" shows "goes_on (call (hmap_clear h)) (holds_map (\<lambda>_. None) 0)"
proof -
  obtain m als where m: "h = Some m" "map_rep m als" using assms by (auto simp: holds_map_def)
  have "hmap_lookup test_hfn test_efn (replicate (h_bucketsz m) ([] :: (nat \<times> nat) list)) = (\<lambda>_. None)"
    using hmap_repD(4) [OF m(2)] by (simp add: hmap_lookup_def fun_eq_iff)
  moreover obtain m' where m': "hmap_clear h = Inr (Some m')" "map_rep m' (replicate (h_bucketsz m) [])"
    using hmap_clear_ok [OF m(2)] m(1) by blast
  ultimately have "holds_map (\<lambda>_. None) 0 (Some m')" unfolding holds_map_def
    by (intro exI [of _ m'] exI [of _ "replicate (h_bucketsz m) []"]) simp
  with m'(1) show ?thesis by (rule goes_on_call)
qed

lemma hm_dispose_goes_on: "holds_map f c h \<Longrightarrow> goes_on (call (hmap_dispose h)) (\<lambda>_. True)"
  by (auto simp: holds_map_def hmap_dispose_ok intro!: goes_on_call)

section \<open>Iterating\<close>

lemma hmap_next_end_rep:
  assumes "hmap_next (Some m) = Inr (False, out, Some m1)" and "hmap_rep hfn efn keydup m als"
  shows "hmap_rep hfn efn keydup m1 als"
  using assms by (auto simp: hmap_next_def hmap_yield_def bind_res_eq_Inr hmap_rep_iter split: if_splits cell.splits)

definition look_inv :: "(nat \<times> nat) list \<Rightarrow> (nat \<times> nat) list \<Rightarrow> nat \<Rightarrow> bool list \<times> addr_map \<Rightarrow> bool" where
  "look_inv ps es i = (\<lambda>(flags, h).
     flags = map (\<lambda>(k, v). \<exists>(k', v') \<in> set (take i es). k' = k \<or> v' = v) ps \<and>
     (\<exists>m als. h = Some m \<and> map_rep m als \<and> hmap_ahead m als (drop i es)))"

lemma hm_seen_map:
  "hm_seen ps (Some k) (Some v) (map f ps) = map (\<lambda>p. f p \<or> k = fst p \<or> v = snd p) ps"
  by (induction ps) (auto simp: hm_seen_def)

lemma hm_look_next_ok:
  assumes s: "look_inv ps es i (flags, h)" and i: "i < length es"
  shows "goes_on (hm_look ps msg (hmap_next h) flags) (look_inv ps es (Suc i))"
proof -
  obtain m als where m: "h = Some m" "map_rep m als" "hmap_ahead m als (drop i es)"
    and fl: "flags = map (\<lambda>(k, v). \<exists>(k', v') \<in> set (take i es). k' = k \<or> v' = v) ps" using s by (auto simp: look_inv_def)
  obtain k v where kv: "es ! i = (k, v)" by (cases "es ! i")
  then have "drop i es = (k, v) # drop (Suc i) es" using i by (metis Cons_nth_drop_Suc)
  with hmap_next_ok [OF m(2,3)] obtain m' where
    m': "hmap_next h = Inr (True, Some (Some k, Some v), Some m')" "map_rep m' als" "hmap_ahead m' als (drop (Suc i) es)"
    using m(1) by auto
  have "set (take (Suc i) es) = insert (k, v) (set (take i es))" using i kv by (simp add: take_Suc_conv_app_nth)
  then have "look_inv ps es (Suc i) (hm_seen ps (Some k) (Some v) flags, Some m')"
    unfolding look_inv_def prod.case fl hm_seen_map using m'(2,3) by auto
  with m'(1) show ?thesis by (simp add: hm_look_def)
qed

lemma hm_look_first_ok:
  assumes m: "map_rep m als" and es: "concat als = e # es"
  shows "goes_on (hm_look ps msg (hmap_first (Some m)) (replicate (length ps) False)) (look_inv ps (e # es) 1)"
proof -
  obtain k v where kv: "e = (k, v)" by (cases e)
  with hmap_first_ok [OF m] es obtain m' where
    m': "hmap_first (Some m) = Inr (True, Some (Some k, Some v), Some m')" "map_rep m' als" "hmap_ahead m' als es" by auto
  have "replicate (length ps) False = map (\<lambda>_. False) ps" by (simp add: map_replicate_const)
  then show ?thesis using m' by (auto simp: hm_look_def look_inv_def hm_seen_map kv split: prod.splits)
qed

section \<open>The tests pass\<close>

lemma test_hashmap_basic_passes:
  assumes mem: "hashmap_mem alloc new" shows "test_hashmap_basic alloc = Inr None"
proof -
  obtain mp where mp: "new_map alloc 300 = Inr mp" "holds_map (\<lambda>_. None) 0 mp" using new_map_ok [OF mem, of 300] by auto
  show ?thesis unfolding test_hashmap_basic_def mp(1) bind_res_Inr
    by (rule verdict_passes [where P = "\<lambda>_. True"], rule goes_on_then [OF hm_count_goes_on [OF mp(2) refl]],
      rule hm_dispose_goes_on [OF mp(2)])
qed

lemma test_hashmap_insert_passes:
  assumes mem: "hashmap_mem alloc new" and keys: "distinct [k, l, m, n, t]"
  shows "test_hashmap_insert alloc new k l m n v w x y t = Inr None"
proof -
  obtain mp where mp: "new_map alloc 300 = Inr mp" "holds_map (\<lambda>_. None) 0 mp" using new_map_ok [OF mem, of 300] by auto
  note must = goes_on_then [OF hm_must_be_goes_on] and count = goes_on_then [OF hm_count_goes_on]
  show ?thesis unfolding test_hashmap_insert_def mp(1) bind_res_Inr
    by (rule verdict_passes [where P = "\<lambda>_. True"], rule goes_on_then [OF four_puts_go_on [OF mem mp(2)]], use keys in simp,
      rule count, assumption, simp, rule must, assumption, (use keys in auto)[1],
      rule goes_on_then [OF put_again_goes_on [OF mem]], assumption, simp, use keys in simp,
      rule count, assumption, simp, rule must, assumption, simp,
      rule goes_on_then [OF hm_clear_goes_on], assumption, rule count, assumption, simp, rule hm_dispose_goes_on)
qed

lemma all_seen:
  assumes m: "map_rep m als" and f: "\<forall>p \<in> set ps. hmap_lookup test_hfn test_efn als (fst p) = Some (snd p)"
  shows "False \<notin> set (map (\<lambda>(k, v). \<exists>(k', v') \<in> set (concat als). k' = k \<or> v' = v) ps)"
proof -
  have "\<exists>(k', v') \<in> set (concat als). k' = k \<or> v' = v" if "(k, v) \<in> set ps" for k v
  proof -
    have "hmap_lookup test_hfn test_efn als k = Some v" using f that by auto
    with test_fns.hmap_entries_lookup [OF m, of k v] show ?thesis by (auto simp: test_efn_def)
  qed
  then show ?thesis by auto
qed

lemma look_end:
  assumes s: "look_inv ps es (length es) (flags, h)"
  shows "flags = map (\<lambda>(k, v). \<exists>(k', v') \<in> set es. k' = k \<or> v' = v) ps"
    and "\<exists>h1. hmap_next h = Inr (False, Some (None, None), h1) \<and> (\<exists>ks. hmap_dispose h1 = Inr ks)"
proof -
  show "flags = map (\<lambda>(k, v). \<exists>(k', v') \<in> set es. k' = k \<or> v' = v) ps" using s by (simp add: look_inv_def)
  obtain m als where m: "h = Some m" "map_rep m als" "hmap_ahead m als []" using s by (auto simp: look_inv_def)
  from hmap_next_ok [OF m(2,3)] obtain m1 where m1: "hmap_next h = Inr (False, Some (None, None), Some m1)" using m(1) by auto
  then have "map_rep m1 als" using hmap_next_end_rep m(1,2) by blast
  with m1 hmap_dispose_ok show "\<exists>h1. hmap_next h = Inr (False, Some (None, None), h1) \<and> (\<exists>ks. hmap_dispose h1 = Inr ks)" by blast
qed

lemma hm_visits_ok:
  assumes m: "map_rep m als" and len: "length ps = 4" "length (concat als) = 4"
    and f: "\<forall>p \<in> set ps. hmap_lookup test_hfn test_efn als (fst p) = Some (snd p)"
  shows "goes_on (hm_visits ps (Some m)) (\<lambda>_. True)"
proof -
  obtain e es where es: "concat als = e # es" using len(2) by (cases "concat als") auto
  have four: "length (e # es) = 4" using len(2) es by simp
  have first: "goes_on (hm_look ps ''hmap_first() failed'' (hmap_first (Some m)) (replicate 4 False)) (look_inv ps (e # es) (Suc 0))"
    using hm_look_first_ok [OF m es, of ps] len(1) by (simp add: numeral_eq_Suc)
  have loop: "goes_on (for_each [0..<3] (\<lambda>i (flags, mp). hm_look ps ''hmap_next failed'' (hmap_next mp) flags) s)
      (look_inv ps (e # es) (Suc 3))" if "look_inv ps (e # es) (Suc 0) s" for s
    by (rule goes_on_for0 [where I = "\<lambda>i. look_inv ps (e # es) (Suc i)", OF that]) (use four in \<open>auto intro: hm_look_next_ok\<close>)
  show ?thesis unfolding hm_visits_def
  proof (rule goes_on_then [OF first], rule goes_on_then [OF loop], assumption, clarify)
    fix flags mp1
    assume "look_inv ps (e # es) (Suc 3) (flags, mp1)"
    then have "look_inv ps (concat als) (length (concat als)) (flags, mp1)" using es len(2) by simp
    note fin = look_end [OF this]
    have "False \<notin> set flags" unfolding fin(1) by (rule all_seen [OF m f])
    with fin(2) show "goes_on (and_then (fail_if (False \<in> set flags) ''iterator fail'') (\<lambda>_.
       bind_res (hmap_next mp1) (\<lambda>(found, out, mp2).
       and_then (fail_if found ''iterator still valid'') (\<lambda>_. call (hmap_dispose mp2))))) (\<lambda>_. True)"
      by (auto intro: goes_on_call)
  qed
qed

lemma test_hashmap_iter_passes:
  assumes mem: "hashmap_mem alloc new" and keys: "distinct [k, l, m, n]"
  shows "test_hashmap_iter alloc new k l m n v w x y = Inr None"
proof -
  obtain mp where mp: "new_map alloc 229 = Inr mp" "holds_map (\<lambda>_. None) 0 mp" using new_map_ok [OF mem, of 229] by auto
  show ?thesis unfolding test_hashmap_iter_def mp(1) bind_res_Inr Let_def
  proof (rule verdict_passes [where P = "\<lambda>_. True"], rule goes_on_then [OF four_puts_go_on [OF mem mp(2) keys]],
      rule goes_on_then [OF hm_count_goes_on], assumption, rule refl)
    fix h
    assume "holds_map [k \<mapsto> v, l \<mapsto> w, m \<mapsto> x, n \<mapsto> y] 4 h"
    then obtain mm als where h: "h = Some mm" "map_rep mm als" "length (concat als) = 4"
      "hmap_lookup test_hfn test_efn als = [k \<mapsto> v, l \<mapsto> w, m \<mapsto> x, n \<mapsto> y]" unfolding holds_map_def by blast
    show "goes_on (hm_visits [(k, v), (l, w), (m, x), (n, y)] h) (\<lambda>_. True)"
      unfolding h(1) by (rule hm_visits_ok [OF h(2) _ h(3)]) (use h(4) keys in auto)
  qed
qed

end
