(* ===== verification/TestDynArr.thy ===== *)
theory TestDynArr imports TestKit Dispose begin

text \<open>
  test_dynarr.c, on nulling arrays but for the first test. Reading far beyond the end makes room for the
  index, which is why the tests need some twenty kilobytes.
\<close>

section \<open>The code\<close>

type_synonym int_dynarr = "int_ptr dynarr"

definition test_dynarr_basic :: "(nat \<Rightarrow> bool) \<Rightarrow> string option res" where
  "test_dynarr_basic alloc = verdict (
     bind_res (dynarr_init alloc 0 False) (\<lambda>a :: int_dynarr.
     and_then (fail_if (dynarr_count a \<noteq> 0) ''newly allocated dynarr not empty'') (\<lambda>_.
     go_on (dynarr_dispose (Some a)))))"

definition dyn_push :: "(nat \<Rightarrow> bool) \<Rightarrow> int_ptr \<Rightarrow> int_dynarr \<Rightarrow> int_dynarr tst" where
  "dyn_push alloc p a = bind_res (dynarr_push alloc a (Some p)) (\<lambda>r. go_on (snd r))"

text \<open>\<open>if (*(int*)dynarr_get(a, i) != v) return msg\<close>\<close>

definition dyn_must_be :: "(nat \<Rightarrow> bool) \<Rightarrow> nat \<Rightarrow> 32 word \<Rightarrow> string \<Rightarrow> int_dynarr \<Rightarrow> int_dynarr tst" where
  "dyn_must_be alloc i v msg a =
     bind_res (dynarr_get alloc a i) (\<lambda>(e, a1).
     case e of None \<Rightarrow> Inl Null_Deref | Some p \<Rightarrow> and_then (fail_if (snd p \<noteq> v) msg) (\<lambda>_. go_on a1))"

definition five_ints :: "32 word list" where
  "five_ints = [0, 1, 2, 3, 4]"

definition test_dynarr_access :: "(nat \<Rightarrow> bool) \<Rightarrow> string option res" where
  "test_dynarr_access alloc = verdict (
     bind_res (dynarr_init alloc 1 True) (\<lambda>a.
     and_then (call (dynarr_put alloc a 0 (Some (int_at five_ints 0)))) (\<lambda>a1.
     and_then (dyn_push alloc (int_at five_ints 1) a1) (\<lambda>a2.
     and_then (dyn_push alloc (int_at five_ints 2) a2) (\<lambda>a3.
     and_then (fail_if (dynarr_count a3 \<noteq> 3) ''array count wrong'') (\<lambda>_.
     and_then (dyn_must_be alloc 0 0 ''wrong element at index 0'' a3) (\<lambda>a4.
     and_then (dyn_must_be alloc 1 1 ''wrong element at index 1'' a4) (\<lambda>a5.
     and_then (dyn_must_be alloc 2 2 ''wrong element at index 2'' a5) (\<lambda>a6.
     and_then (call (dynarr_put alloc a6 2 (Some (int_at five_ints 3)))) (\<lambda>a7.
     and_then (dyn_must_be alloc 2 3 ''wrong element at index 2 after put'' a7) (\<lambda>a8.
     and_then (call (dynarr_put alloc a8 125 (Some (int_at five_ints 4)))) (\<lambda>a9.
     and_then (fail_if (dynarr_count a9 \<noteq> 126) ''array didn't grow properly'') (\<lambda>_.
     bind_res (dynarr_get alloc a9 1337) (\<lambda>(e, a10).
     and_then (fail_if (dynarr_count a10 \<noteq> 126) ''array grew unexpectedly'') (\<lambda>_.
     and_then (dyn_must_be alloc 125 (five_ints ! 4) ''wrong element at index 125 after growing put'' a10) (\<lambda>a11.
     go_on (dynarr_dispose (Some a11))))))))))))))))))"

definition dyn_iter_step :: "nat \<Rightarrow> int_dynarr \<Rightarrow> int_dynarr tst" where
  "dyn_iter_step i a =
     bind_res (if i = 0 then dynarr_first a else dynarr_next a) (\<lambda>(out, a1).
     case out of
       None \<Rightarrow> fail ''dynarr_first or next failed''
     | Some None \<Rightarrow> Inl Null_Deref
     | Some (Some p) \<Rightarrow>
         and_then (fail_if (snd p \<noteq> ten_ints ! i) ''wrong element seen while iterating'') (\<lambda>_. go_on a1))"

definition test_dynarr_iter :: "(nat \<Rightarrow> bool) \<Rightarrow> string option res" where
  "test_dynarr_iter alloc = verdict (
     bind_res (dynarr_init alloc 1 True) (\<lambda>a.
     and_then (for_each [0..<10] (\<lambda>i a. call (dynarr_put alloc a i (Some (int_at ten_ints i)))) a) (\<lambda>a1.
     and_then (for_each [0..<10] dyn_iter_step a1) (\<lambda>a2.
     bind_res (dynarr_next a2) (\<lambda>(out, a3).
     fail_if (out \<noteq> None) ''dynarr_next didn't fail when it should'')))))"

section \<open>The parts go on\<close>

definition dynarr_mem :: "(nat \<Rightarrow> bool) \<Rightarrow> bool" where
  "dynarr_mem alloc \<longleftrightarrow> (\<forall>n \<le> 2 ^ 15. alloc n)"

definition holds_dyn :: "(nat \<Rightarrow> int_ptr option) \<Rightarrow> nat \<Rightarrow> int_dynarr \<Rightarrow> bool" where
  "holds_dyn f n a \<longleftrightarrow> dyn_inv a \<and> dyn_at a = f \<and> dynarr_count a = n"

lemma dyn_mem_for: "dynarr_mem alloc \<Longrightarrow> i \<le> 2000 \<Longrightarrow> n \<le> (2 * i + 1) * ptr_size \<Longrightarrow> alloc n"
  by (simp add: dynarr_mem_def ptr_size_def)

lemma dyn_put_goes_on:
  assumes mem: "dynarr_mem alloc" and a: "holds_dyn f n a" and i: "i \<le> 2000" and g: "g = f(i := Some p)" "m = max n (Suc i)"
  shows "goes_on (call (dynarr_put alloc a i (Some p))) (holds_dyn g m)"
  using dynarr_put_ok [where d = a and i = i and alloc = alloc and x = "Some p"] dyn_mem_for [OF mem i] a i g
  by (auto simp: holds_dyn_def intro: goes_on_call)

lemma dyn_push_goes_on:
  assumes mem: "dynarr_mem alloc" and a: "holds_dyn f n a" and n: "n \<le> 2000"
  shows "goes_on (dyn_push alloc p a) (holds_dyn (f(n := Some p)) (Suc n))"
proof -
  have "dyn_inv a" "dynarr_count a < 2 ^ 30" "\<And>k. k \<le> (2 * dynarr_count a + 1) * ptr_size \<Longrightarrow> alloc k"
    using a n dyn_mem_for [OF mem n] by (auto simp: holds_dyn_def)
  from dynarr_push_ok [where alloc = alloc and x = "Some p", OF this] a show ?thesis by (auto simp: holds_dyn_def dyn_push_def)
qed

lemma dyn_read:
  assumes mem: "dynarr_mem alloc" and a: "holds_dyn f n a" and i: "i \<le> 2000"
  obtains a1 where "dynarr_get alloc a i = Inr (f i, a1)" "holds_dyn f n a1"
proof -
  from dynarr_get_ok [of a i alloc] dyn_mem_for [OF mem i] a i
  have "\<exists>a1. dynarr_get alloc a i = Inr (f i, a1) \<and> holds_dyn f n a1" by (auto simp: holds_dyn_def)
  with that show thesis by blast
qed

lemma dyn_must_be_goes_on:
  assumes mem: "dynarr_mem alloc" and a: "holds_dyn f n a" and i: "i \<le> 2000" and v: "f i = Some (j, v)"
  shows "goes_on (dyn_must_be alloc i v msg a) (holds_dyn f n)"
proof -
  obtain a1 where "dynarr_get alloc a i = Inr (f i, a1)" "holds_dyn f n a1" by (rule dyn_read [OF mem a i])
  with v show ?thesis by (simp add: dyn_must_be_def)
qed

lemma dyn_count_goes_on:
  "holds_dyn f n a \<Longrightarrow> n = k \<Longrightarrow> goes_on m P \<Longrightarrow> goes_on (and_then (fail_if (dynarr_count a \<noteq> k) msg) (\<lambda>_. m)) P"
  by (simp add: holds_dyn_def)

lemma dyn_read_goes_on:
  assumes "dynarr_mem alloc" and "holds_dyn f n a" and "i \<le> 2000" and "\<And>e a1. holds_dyn f n a1 \<Longrightarrow> goes_on (g e a1) P"
  shows "goes_on (bind_res (dynarr_get alloc a i) (\<lambda>(e, a1). g e a1)) P"
  using dyn_read [OF assms(1-3)] assms(4) by (metis bind_res_Inr case_prod_conv)

lemma dyn_new:
  assumes mem: "dynarr_mem alloc"
  obtains a where "dynarr_init alloc 1 True = Inr a" "holds_dyn (\<lambda>_. None) 1 a"
proof -
  have "alloc sizeof_dynarr" "alloc (1 * ptr_size)" using mem by (auto simp: dynarr_mem_def sizeof_dynarr_def ptr_size_def)
  from dynarr_init_ok [OF this] that show thesis by (auto simp: holds_dyn_def max_cells_def)
qed

section \<open>The tests pass\<close>

lemma test_dynarr_basic_passes: "dynarr_mem alloc \<Longrightarrow> test_dynarr_basic alloc = Inr None"
  by (simp add: test_dynarr_basic_def dynarr_init_def dynarr_mem_def sizeof_dynarr_def sz_mul_def dynarr_count_def
    verdict_def go_on_def)

lemma test_dynarr_access_passes:
  assumes mem: "dynarr_mem alloc" shows "test_dynarr_access alloc = Inr None"
proof -
  let ?p = "int_at five_ints"
  obtain a where a: "dynarr_init alloc 1 True = Inr a" "holds_dyn (\<lambda>_. None) 1 a" by (rule dyn_new [OF mem])
  note put = goes_on_then [OF dyn_put_goes_on [OF mem _ _ refl refl]] and must = goes_on_then [OF dyn_must_be_goes_on [OF mem]]
    and push = goes_on_then [OF dyn_push_goes_on [OF mem]]
  have vals: "?p 0 = (0, 0)" "?p (Suc 0) = (1, 1)" "?p (Suc (Suc 0)) = (2, 2)" "?p 2 = (2, 2)" "?p 3 = (3, 3)" "?p 4 = (4, 4)" "five_ints ! 4 = 4"
    by (simp_all add: int_at_def five_ints_def)
  show ?thesis unfolding test_dynarr_access_def a(1) bind_res_Inr
    by (rule verdict_passes [where P = "\<lambda>_. True"], rule put [OF a(2)], simp, rule push, assumption, simp, rule push, assumption, simp,
      rule dyn_count_goes_on, assumption, simp, rule must, assumption, simp, simp add: vals, rule must, assumption, simp, simp add: vals,
      rule must, assumption, simp, simp add: vals numeral_2_eq_2, rule put, assumption, simp,
      rule must, assumption, simp, simp add: vals, rule put, assumption, simp, rule dyn_count_goes_on, assumption, simp,
      rule dyn_read_goes_on [OF mem], assumption, simp, rule dyn_count_goes_on, assumption, simp,
      rule must, assumption, simp, simp add: vals, simp)
qed

definition ten_put :: "nat \<Rightarrow> nat \<Rightarrow> int_ptr option" where
  "ten_put k = (\<lambda>i. if i < k then Some (int_at ten_ints i) else None)"

definition dyn_seen :: "nat \<Rightarrow> int_dynarr \<Rightarrow> bool" where
  "dyn_seen i a \<longleftrightarrow> holds_dyn (ten_put 10) 10 a \<and> (0 < i \<longrightarrow> dy_iter a = Val i)"

lemma dyn_iter_step_ok:
  assumes a: "dyn_seen i a" and i: "i < 10"
  shows "goes_on (dyn_iter_step i a) (dyn_seen (Suc i))"
proof -
  have inv: "dyn_inv a" and at: "dyn_at a = ten_put 10" and n: "dy_nused a = 10"
    using a by (auto simp: dyn_seen_def holds_dyn_def dynarr_count_def)
  have get: "arr_get (dy_data a) i = Inr (Some (int_at ten_ints i))" using dyn_arr_get [OF inv, of i] i n at by (simp add: ten_put_def)
  have "(if i = 0 then dynarr_first a else dynarr_next a) = Inr (Some (Some (int_at ten_ints i)), a\<lparr>dy_iter := Val (Suc i)\<rparr>)"
    using a i n get by (cases "i = 0") (auto simp: dynarr_first_def dynarr_next_def dyn_seen_def sz_add_def size_max_def)
  then show ?thesis unfolding dyn_iter_step_def
    using inv at n by (simp add: dyn_seen_def holds_dyn_def dynarr_count_def int_at_def)
qed

lemma test_dynarr_iter_passes:
  assumes mem: "dynarr_mem alloc" shows "test_dynarr_iter alloc = Inr None"
proof -
  obtain a where a: "dynarr_init alloc 1 True = Inr a" "holds_dyn (\<lambda>_. None) 1 a" by (rule dyn_new [OF mem])
  have "goes_on (for_each [0..<10] (\<lambda>i a. call (dynarr_put alloc a i (Some (int_at ten_ints i)))) a)
      (holds_dyn (ten_put 10) (max 1 10))"
  proof (rule goes_on_for0 [where I = "\<lambda>i. holds_dyn (ten_put i) (max 1 i)"])
    show "holds_dyn (ten_put 0) (max 1 0) a" using a(2) by (simp add: ten_put_def)
  next
    fix i a
    assume "holds_dyn (ten_put i) (max 1 i) a" "i < 10"
    then show "goes_on (call (dynarr_put alloc a i (Some (int_at ten_ints i)))) (holds_dyn (ten_put (Suc i)) (max 1 (Suc i)))"
      by (intro dyn_put_goes_on [OF mem]) (auto simp: ten_put_def fun_eq_iff)
  qed
  note put = goes_on_then [OF this]
  show ?thesis unfolding test_dynarr_iter_def a(1) bind_res_Inr
    by (rule verdict_passes [where P = "\<lambda>_. True"], rule put, rule goes_on_then [OF goes_on_for0 [where I = dyn_seen]],
      simp add: dyn_seen_def, erule dyn_iter_step_ok, assumption)
      (auto simp: dyn_seen_def holds_dyn_def dynarr_count_def dynarr_next_def)
qed

end
