(* ===== verification/TestBinTree.thy ===== *)
theory TestBinTree imports TestKit BinTreeIter begin

text \<open>
  test_bintree.c, the tests on trees of integers: test_basic, test_insert, test_find and test_remove. The
  comparison function \<open>intcmp\<close> subtracts, and the tests only compare numbers that are not negative.
\<close>

section \<open>The code\<close>

type_synonym int_tree = "int_ptr bintree"

text \<open>Inserting and removing with a test of the result; \<open>want\<close> is the result that is expected.\<close>

definition tree_put :: "(nat set \<Rightarrow> nat option) \<Rightarrow> string \<Rightarrow> 'a \<Rightarrow> 'a bintree \<Rightarrow> 'a bintree tst" where
  "tree_put new msg x t =
     bind_res (bintree_insert new (Some t) (Some x)) (\<lambda>(ok, h).
     and_then (fail_if (\<not> ok) msg) (\<lambda>_. case h of None \<Rightarrow> Inl Null_Deref | Some t1 \<Rightarrow> go_on t1))"

definition tree_del :: "bool \<Rightarrow> string \<Rightarrow> 'a \<Rightarrow> 'a bintree \<Rightarrow> 'a bintree tst" where
  "tree_del want msg x t =
     bind_res (bintree_remove (Some t) x) (\<lambda>(ok, h).
     and_then (fail_if (ok \<noteq> want) msg) (\<lambda>_. case h of None \<Rightarrow> Inl Null_Deref | Some t1 \<Rightarrow> go_on t1))"

definition tree_count_is :: "'a bintree \<Rightarrow> nat \<Rightarrow> string \<Rightarrow> unit tst" where
  "tree_count_is t n msg = bind_res (bintree_count (Some t)) (\<lambda>c. fail_if (c \<noteq> n) msg)"

definition test_bintree_basic :: "(nat \<Rightarrow> bool) \<Rightarrow> nat \<Rightarrow> string option res" where
  "test_bintree_basic alloc room = verdict (
     bind_res (bintree_init alloc ptr_icmp) (\<lambda>t.
     and_then (tree_count_is t 0 ''newly allocated tree not empty'') (\<lambda>_.
     call (bintree_dispose room (Some t)))))"

text \<open>\<open>p\<close> and \<open>q\<close> are the addresses of the variables with the values 3 and 2.\<close>

definition test_bintree_insert ::
  "(nat \<Rightarrow> bool) \<Rightarrow> (nat set \<Rightarrow> nat option) \<Rightarrow> nat \<Rightarrow> nat \<Rightarrow> nat \<Rightarrow> string option res" where
  "test_bintree_insert alloc new room p q = verdict (
     bind_res (bintree_init alloc ptr_icmp) (\<lambda>t.
     and_then (tree_put new ''insertion failed'' (q, 2) t) (\<lambda>t1.
     and_then (tree_count_is t1 1 ''wrong count after insert'') (\<lambda>_.
     and_then (tree_put new ''insertion (again) failed'' (q, 2) t1) (\<lambda>t2.
     and_then (tree_count_is t2 1 ''wrong count after same insert again'') (\<lambda>_.
     and_then (tree_put new ''insertion failed 3'' (p, 3) t2) (\<lambda>t3.
     and_then (tree_count_is t3 2 ''wrong count after another insert'') (\<lambda>_.
     call (bintree_dispose room (Some t3))))))))))"

definition find_sample :: nat where
  "find_sample = 100"

text \<open>
  Numbers are drawn until a hundred of them are not 1337. When one is, \<open>i--\<close> and the \<open>i++\<close> of the loop
  cancel out, at 0 by wrapping around.
\<close>

definition draw_body :: "('r \<Rightarrow> int \<times> 'r) \<Rightarrow> nat \<times> ints \<times> 'r \<Rightarrow> (nat \<times> ints \<times> 'r, ints \<times> 'r) step res" where
  "draw_body rand_fn = (\<lambda>(i, ia, r).
     if \<not> i < find_sample then Inr (Break (ia, r))
     else
       let (x, r1) = rand_fn r; v = word_of_int x in
       bind_res (arr_set ia i v) (\<lambda>ia1. Inr (Continue (if v = 1337 then i else i + 1, ia1, r1))))"

definition find_put :: "(nat set \<Rightarrow> nat option) \<Rightarrow> ints \<Rightarrow> nat \<Rightarrow> int_tree \<Rightarrow> int_tree tst" where
  "find_put new ia i t = bind_res (arr_get ia i) (\<lambda>v. tree_put new ''insertion failed'' (i, v) t)"

definition find_get :: "int_tree \<Rightarrow> ints \<Rightarrow> nat \<Rightarrow> unit \<Rightarrow> unit tst" where
  "find_get t ia i = (\<lambda>_.
     bind_res (arr_get ia i) (\<lambda>v.
     bind_res (bintree_find (Some t) (i, v)) (\<lambda>e. fail_if (e = None) ''didn't find element previously put in'')))"

text \<open>\<open>k\<close> is the address of the local variable that holds 1337.\<close>

definition test_bintree_find ::
  "(nat \<Rightarrow> bool) \<Rightarrow> (nat set \<Rightarrow> nat option) \<Rightarrow> nat \<Rightarrow> nat \<Rightarrow> ('r \<Rightarrow> int \<times> 'r) \<Rightarrow> 'r \<Rightarrow> string option res" where
  "test_bintree_find alloc new room k rand_fn r = verdict (
     bind_res (bintree_init alloc ptr_icmp) (\<lambda>t.
     if \<not> alloc (find_sample * 4) then Inl Null_Deref
     else
       bind_res (c_loop (draw_body rand_fn) (0, replicate find_sample Undef, r)) (\<lambda>(ia, r1).
       and_then (for_each [0..<find_sample] (find_put new ia) t) (\<lambda>t1.
       and_then (for_each [0..<find_sample] (find_get t1 ia) ()) (\<lambda>_.
       bind_res (bintree_find (Some t1) (k, 1337)) (\<lambda>e.
       and_then (fail_if (e \<noteq> None) ''found element /not/ put in'') (\<lambda>_.
       call (bintree_dispose room (Some t1)))))))))"

text \<open>\<open>bintree_collect\<close> in preorder to the array \<open>arr\<close>, which is then read through.\<close>

fun arr_differs :: "int_ptr cell list \<Rightarrow> nat \<Rightarrow> 32 word list \<Rightarrow> bool res" where
  "arr_differs arr i [] = Inr False"
| "arr_differs arr i (v # vs) = bind_res (arr_get arr i) (\<lambda>p. if snd p \<noteq> v then Inr True else arr_differs arr (Suc i) vs)"

definition preorder_must_be ::
  "nat \<Rightarrow> int_tree \<Rightarrow> 32 word list \<Rightarrow> string \<Rightarrow> string \<Rightarrow> int_ptr cell list \<Rightarrow> int_ptr cell list tst" where
  "preorder_must_be room t vs m_collect m_wrong arr =
     bind_res (bintree_collect room (Some t) arr TRAV_PREORDER) (\<lambda>(ok, arr1).
     and_then (fail_if (\<not> ok) m_collect) (\<lambda>_.
     bind_res (arr_differs arr1 0 vs) (\<lambda>b. and_then (fail_if b m_wrong) (\<lambda>_. go_on arr1))))"

text \<open>\<open>one\<close>, \<open>two\<close> and \<open>three\<close> are the addresses of the variables with these values.\<close>

definition check_remove_1 ::
  "(nat \<Rightarrow> bool) \<Rightarrow> (nat set \<Rightarrow> nat option) \<Rightarrow> nat \<Rightarrow> nat \<Rightarrow> nat \<Rightarrow> nat \<Rightarrow> string option res" where
  "check_remove_1 alloc new room one two three = verdict (
     bind_res (bintree_init alloc ptr_icmp) (\<lambda>t.
     and_then (tree_put new ''insertion failed'' (one, 1) t) (\<lambda>t1.
     and_then (tree_put new ''insertion failed'' (two, 2) t1) (\<lambda>t2.
     and_then (tree_put new ''insertion failed'' (three, 3) t2) (\<lambda>t3.
     and_then (tree_count_is t3 3 ''wrong count after insert'') (\<lambda>_.
     and_then (preorder_must_be room t3 [1, 2, 3] ''collect failed (1)'' ''remove messed up the tree'' (replicate 3 Undef)) (\<lambda>arr.
     and_then (tree_del True ''remove failed'' (one, 1) t3) (\<lambda>t4.
     and_then (tree_count_is t4 2 ''wrong count after remove'') (\<lambda>_.
     and_then (preorder_must_be room t4 [2, 3] ''collect failed (2)'' ''remove messed up the tree (2)'' arr) (\<lambda>arr1.
     and_then (tree_del False ''remove did not fail'' (one, 1) t4) (\<lambda>t5.
     and_then (tree_del True ''remove failed'' (three, 3) t5) (\<lambda>t6.
     and_then (tree_count_is t6 1 ''wrong count after remove'') (\<lambda>_.
     and_then (preorder_must_be room t6 [2] ''collect failed (3)'' ''remove messed up the tree (3)'' arr1) (\<lambda>arr2.
     and_then (tree_del False ''remove did not fail (2)'' (three, 3) t6) (\<lambda>t7.
     and_then (tree_del True ''remove failed'' (two, 2) t7) (\<lambda>t8.
     and_then (tree_count_is t8 0 ''wrong count after remove'') (\<lambda>_.
     and_then (preorder_must_be room t8 [] ''collect failed (4)'' '''' arr2) (\<lambda>_.
     call (bintree_dispose room (Some t8))))))))))))))))))))"

definition test_bintree_remove ::
  "(nat \<Rightarrow> bool) \<Rightarrow> (nat set \<Rightarrow> nat option) \<Rightarrow> nat \<Rightarrow> nat \<Rightarrow> nat \<Rightarrow> nat \<Rightarrow> string option res" where
  "test_bintree_remove alloc new room one two three =
     bind_res (check_remove_1 alloc new room one two three) (\<lambda>e. Inr (if e \<noteq> None then e else None))"

section \<open>Trees with an order\<close>

text \<open>What the tests need: some memory, and a stack for a hundred nested calls.\<close>

definition bintree_mem :: "(nat \<Rightarrow> bool) \<Rightarrow> (nat set \<Rightarrow> nat option) \<Rightarrow> nat \<Rightarrow> bool" where
  "bintree_mem alloc new room \<longleftrightarrow> (\<forall>n \<le> 1000. alloc n) \<and> nodes_ok new \<and> find_sample < room"

definition tree_of :: "'a set \<Rightarrow> ('a \<Rightarrow> 'a \<Rightarrow> int) \<Rightarrow> 'a list \<Rightarrow> 'a bintree \<Rightarrow> bool" where
  "tree_of S cmp xs t \<longleftrightarrow> bt_cmpfn t = cmp \<and> bt_holds S t xs"

lemma tree_new:
  assumes "bintree_mem alloc new room"
  obtains t where "bintree_init alloc cmp = Inr t" "tree_of S cmp [] t"
proof -
  have "alloc sizeof_bintree" using assms by (simp add: bintree_mem_def sizeof_bintree_def)
  from bintree_init_ok [where alloc = alloc and S = S and cmp = cmp, OF this] that show thesis by (auto simp: tree_of_def)
qed

lemma tree_put_goes_on:
  assumes mem: "bintree_mem alloc new room" and order: "cmp_order S cmp" and t: "tree_of S cmp xs t" and x: "x \<in> S"
    and len: "length xs < 1000"
  shows "goes_on (tree_put new msg x t) (tree_of S cmp (ord_insert cmp x xs))"
proof -
  have c: "bt_cmpfn t = cmp" "bt_holds S t xs" using t by (auto simp: tree_of_def)
  have new: "new_ok new" "new (dom (bt_nodes t)) \<noteq> None" "Suc (length xs) < size_max"
    using mem len unfolding bintree_mem_def nodes_ok_def by (blast, blast, simp add: size_max_def)
  from bt_holds_insert [OF order [folded c(1)] c(2) x new] c(1) show ?thesis by (auto simp: tree_put_def tree_of_def)
qed

lemma tree_count_goes_on: "tree_of S cmp xs t \<Longrightarrow> length xs = n \<Longrightarrow> goes_on (tree_count_is t n msg) (\<lambda>_. True)"
  by (auto simp: tree_of_def bt_holds_def tree_count_is_def bt_count_ok)

lemma tree_dispose_goes_on:
  assumes mem: "bintree_mem alloc new room" and t: "tree_of S cmp xs t" and len: "length xs \<le> find_sample"
  shows "goes_on (call (bintree_dispose room (Some t))) (\<lambda>_. True)"
proof -
  obtain T where T: "bt_rep t T" "xs = elems T" using t by (auto simp: tree_of_def bt_holds_def)
  have "height T < room" using height_le_size_tree [of T] T(2) len mem by (simp add: bintree_mem_def)
  from bintree_clear_ok [OF T(1) this] show ?thesis by (auto simp: bintree_dispose_def intro!: goes_on_call)
qed

section \<open>Drawing numbers\<close>

text \<open>What test_find needs of \<open>rand\<close>, besides its range: it does not yield 1337 for ever.\<close>

definition rand_leaves :: "('r \<Rightarrow> int \<times> 'r) \<Rightarrow> int \<Rightarrow> bool" where
  "rand_leaves rand_fn v \<longleftrightarrow> (\<forall>r. \<exists>n. fst (rand_fn (((\<lambda>r. snd (rand_fn r)) ^^ n) r)) \<noteq> v)"

definition drawn :: "nat \<Rightarrow> ints \<Rightarrow> 32 word list \<Rightarrow> bool" where
  "drawn i ia vs \<longleftrightarrow> length vs = i \<and> length ia = find_sample \<and> take i ia = map Val vs \<and> (\<forall>v \<in> set vs. 0 \<le> sint v \<and> v \<noteq> 1337)"

lemma draw_step:
  assumes ok: "rand_ok rand_fn" and d: "drawn i ia vs" and i: "i < find_sample" and x: "rand_fn r = (x, r1)"
  shows "\<exists>ia1. draw_body rand_fn (i, ia, r) = Inr (Continue (if x = 1337 then i else Suc i, ia1, r1)) \<and>
    drawn (if x = 1337 then i else Suc i) ia1 (if x = 1337 then vs else vs @ [word_of_int x])"
proof -
  have r: "0 \<le> x" "x < 2 ^ 31" using ok [unfolded rand_ok_def, rule_format, of r] x by auto
  have eq: "(word_of_int x :: 32 word) = 1337 \<longleftrightarrow> x = 1337"
  proof
    assume "(word_of_int x :: 32 word) = 1337"
    then have "sint (word_of_int x :: 32 word) = sint (1337 :: 32 word)" by simp
    then show "x = 1337" unfolding sint_of_small [OF r] by simp
  qed simp
  let ?ia = "ia[i := Val (word_of_int x)]"
  have "take (Suc i) ?ia = take i ia @ [Val (word_of_int x)]" "take i ?ia = take i ia"
    using d i by (auto simp: drawn_def take_Suc_conv_app_nth)
  then have "drawn (if x = 1337 then i else Suc i) ?ia (if x = 1337 then vs else vs @ [word_of_int x])"
    using d i r eq by (auto simp: drawn_def sint_of_small)
  then show ?thesis using d i x eq by (auto simp: draw_body_def drawn_def Let_def arr_set_def)
qed

lemma draw_ok:
  assumes ok: "rand_ok rand_fn" and leaves: "rand_leaves rand_fn 1337"
  shows "drawn i ia vs \<Longrightarrow> i \<le> find_sample \<Longrightarrow> \<exists>ia1 r1 ws. c_loop (draw_body rand_fn) (i, ia, r) = Inr (ia1, r1) \<and>
    drawn find_sample ia1 ws"
proof (induction "find_sample - i" arbitrary: i ia vs r)
  case 0
  then have "i = find_sample" by simp
  with 0 show ?case by (auto intro!: exI [of _ ia] c_loop_Break simp: draw_body_def)
next
  case (Suc k)
  have i: "i < find_sample" "k = find_sample - Suc i" using Suc.hyps(2) by auto
  have "fst (rand_fn (((\<lambda>r. snd (rand_fn r)) ^^ n) r)) \<noteq> 1337 \<Longrightarrow> drawn i ia vs \<Longrightarrow>
      \<exists>ia1 r1 ws. c_loop (draw_body rand_fn) (i, ia, r) = Inr (ia1, r1) \<and> drawn find_sample ia1 ws" for n r ia
  proof (induction n arbitrary: r ia)
    case (0 r ia)
    obtain x r1 where x: "rand_fn r = (x, r1)" by fastforce
    with 0 draw_step [OF ok 0(2) i(1) x] obtain ia1 where
      "draw_body rand_fn (i, ia, r) = Inr (Continue (Suc i, ia1, r1))" "drawn (Suc i) ia1 (vs @ [word_of_int x])" by auto
    with Suc.hyps(1) [OF i(2)] i(1) show ?case by (simp add: c_loop_Continue)
  next
    case (Suc n r ia)
    obtain x r1 where x: "rand_fn r = (x, r1)" by fastforce
    have "((\<lambda>r. snd (rand_fn r)) ^^ Suc n) r = ((\<lambda>r. snd (rand_fn r)) ^^ n) r1" using x by (simp only: funpow_Suc_right o_apply snd_conv)
    then have next_: "fst (rand_fn (((\<lambda>r. snd (rand_fn r)) ^^ n) r1)) \<noteq> 1337" using Suc.prems(1) by argo
    show ?case
    proof (cases "x = 1337")
      case True
      with draw_step [OF ok Suc.prems(2) i(1) x] obtain ia1 where
        "draw_body rand_fn (i, ia, r) = Inr (Continue (i, ia1, r1))" "drawn i ia1 vs" by auto
      with Suc.IH [OF next_] show ?thesis by (simp add: c_loop_Continue)
    next
      case False
      with draw_step [OF ok Suc.prems(2) i(1) x] obtain ia1 where
        "draw_body rand_fn (i, ia, r) = Inr (Continue (Suc i, ia1, r1))" "drawn (Suc i) ia1 (vs @ [word_of_int x])" by auto
      with \<open>\<And>vs ia r i. k = find_sample - i \<Longrightarrow> drawn i ia vs \<Longrightarrow> i \<le> find_sample \<Longrightarrow>
          \<exists>ia1 r1 ws. c_loop (draw_body rand_fn) (i, ia, r) = Inr (ia1, r1) \<and> drawn find_sample ia1 ws\<close> [OF i(2)] i(1)
      show ?thesis by (simp add: c_loop_Continue)
    qed
  qed
  with leaves Suc.prems(1) show ?case unfolding rand_leaves_def by blast
qed

section \<open>Searching\<close>

definition finds :: "('a \<Rightarrow> 'a \<Rightarrow> int) \<Rightarrow> 'a list \<Rightarrow> 'a \<Rightarrow> bool" where
  "finds cmp xs x \<longleftrightarrow> List.find (\<lambda>y. cmp x y = 0) xs \<noteq> None"

lemma finds_insert:
  assumes "cmp_order S cmp" and "set xs \<subseteq> S" and "sorted_wrt (\<lambda>x y. cmp x y < 0) xs" and "x \<in> S" and "z \<in> S"
  shows "finds cmp (ord_insert cmp z xs) x \<longleftrightarrow> cmp x z = 0 \<or> finds cmp xs x"
  by (simp add: finds_def cmp_order.find_ord_insert [OF assms])

lemma tree_of_sorted: "tree_of S cmp xs t \<Longrightarrow> set xs \<subseteq> S \<and> sorted_wrt (\<lambda>x y. cmp x y < 0) xs"
  by (auto simp: tree_of_def bt_holds_def search_tree_def)

lemma tree_find_ok:
  assumes "cmp_order S cmp" and t: "tree_of S cmp xs t" and x: "x \<in> S"
  shows "bintree_find (Some t) x = Inr (List.find (\<lambda>y. cmp x y = 0) xs)"
proof -
  obtain T where T: "bt_rep t T" "search_tree S cmp T" "xs = elems T" "bt_cmpfn t = cmp" using t by (auto simp: tree_of_def bt_holds_def)
  then have "bt_shape t T" by (simp add: bt_rep_def)
  from cmp_order.bintree_find_ok [OF assms(1) this T(2) x T(4)] T(3) show ?thesis by simp
qed

lemma ptr_icmp_eq: "x \<in> nonneg_ptrs \<Longrightarrow> y \<in> nonneg_ptrs \<Longrightarrow> ptr_icmp x y = 0 \<longleftrightarrow> snd x = snd y"
  by (auto simp: ptr_icmp_def nonneg_ptrs_def icmp_nonneg intro: signed_word_eqI)

definition find_inv :: "32 word list \<Rightarrow> nat \<Rightarrow> int_tree \<Rightarrow> bool" where
  "find_inv vs i t \<longleftrightarrow> (\<exists>xs. tree_of nonneg_ptrs ptr_icmp xs t \<and> length xs \<le> i \<and>
     (\<forall>x \<in> nonneg_ptrs. finds ptr_icmp xs x \<longleftrightarrow> snd x \<in> set (take i vs)))"

lemma find_put_ok:
  assumes mem: "bintree_mem alloc new room" and vs: "length vs = find_sample" "\<forall>v \<in> set vs. 0 \<le> sint v"
    and t: "find_inv vs i t" and i: "i < find_sample"
  shows "goes_on (find_put new (map Val vs) i t) (find_inv vs (Suc i))"
proof -
  obtain xs where xs: "tree_of nonneg_ptrs ptr_icmp xs t" "length xs \<le> i"
    "\<forall>x \<in> nonneg_ptrs. finds ptr_icmp xs x \<longleftrightarrow> snd x \<in> set (take i vs)" using t by (auto simp: find_inv_def)
  let ?p = "(i, vs ! i)" and ?ys = "ord_insert ptr_icmp (i, vs ! i) xs"
  have p: "?p \<in> nonneg_ptrs" using vs i by (simp add: nonneg_ptrs_def)
  note sorted = tree_of_sorted [OF xs(1)]
  have len: "length ?ys \<le> Suc i" using cmp_order.length_ord_insert [OF nonneg_order _ p, of xs] sorted xs(2) by simp
  have set: "set (take (Suc i) vs) = insert (vs ! i) (set (take i vs))" using vs i by (simp add: take_Suc_conv_app_nth)
  have found: "\<forall>x \<in> nonneg_ptrs. finds ptr_icmp ?ys x \<longleftrightarrow> snd x \<in> set (take (Suc i) vs)"
  proof
    fix x
    assume x: "x \<in> nonneg_ptrs"
    show "finds ptr_icmp ?ys x \<longleftrightarrow> snd x \<in> set (take (Suc i) vs)"
      unfolding finds_insert [OF nonneg_order conjunct1 [OF sorted] conjunct2 [OF sorted] x p] ptr_icmp_eq [OF x p] set snd_conv
      using xs(3) x by blast
  qed
  have "goes_on (tree_put new msg ?p t) (tree_of nonneg_ptrs ptr_icmp ?ys)" for msg
    using xs(2) i by (intro tree_put_goes_on [OF mem nonneg_order xs(1) p]) (simp add: find_sample_def)
  moreover have "find_inv vs (Suc i) t1" if "tree_of nonneg_ptrs ptr_icmp ?ys t1" for t1
    unfolding find_inv_def using that len found by (intro exI [of _ ?ys] conjI)
  ultimately have "goes_on (tree_put new msg ?p t) (find_inv vs (Suc i))" for msg by (rule goes_on_mono)
  moreover have "arr_get (map Val vs) i = Inr (vs ! i)" using vs(1) i by (simp add: arr_get_def)
  ultimately show ?thesis by (simp add: find_put_def)
qed

section \<open>The tests pass\<close>

lemma test_bintree_basic_passes:
  assumes mem: "bintree_mem alloc new room" shows "test_bintree_basic alloc room = Inr None"
proof -
  obtain t where t: "bintree_init alloc ptr_icmp = Inr t" "tree_of nonneg_ptrs ptr_icmp [] t" by (rule tree_new [OF mem])
  show ?thesis unfolding test_bintree_basic_def t(1) bind_res_Inr
    by (rule verdict_passes [where P = "\<lambda>_. True"], rule goes_on_then [OF tree_count_goes_on [OF t(2)]], simp,
      rule tree_dispose_goes_on [OF mem t(2)], simp)
qed

lemma icmp_vals: "icmp x x = 0" "icmp 1 2 = - 1" "icmp 1 3 = - 2" "icmp 2 3 = - 1" "icmp 2 1 = 1" "icmp 3 1 = 2" "icmp 3 2 = 1"
  by (simp_all add: icmp_def)

lemma test_bintree_insert_passes:
  assumes mem: "bintree_mem alloc new room" shows "test_bintree_insert alloc new room p q = Inr None"
proof -
  obtain t where t: "bintree_init alloc ptr_icmp = Inr t" "tree_of nonneg_ptrs ptr_icmp [] t" by (rule tree_new [OF mem])
  have put: "tree_of nonneg_ptrs ptr_icmp xs u \<Longrightarrow> 0 \<le> sint (snd x) \<Longrightarrow> length xs < 1000 \<Longrightarrow> ord_insert ptr_icmp x xs = ys \<Longrightarrow>
      goes_on (tree_put new msg x u) (tree_of nonneg_ptrs ptr_icmp ys)" for xs ys u x msg
    using tree_put_goes_on [OF mem nonneg_order, of xs u x] by (simp add: nonneg_ptrs_def)
  note puts = goes_on_then [OF put] and count = goes_on_then [OF tree_count_goes_on]
  show ?thesis unfolding test_bintree_insert_def t(1) bind_res_Inr
    by (rule verdict_passes [where P = "\<lambda>_. True"], rule puts [OF t(2)], simp, simp, rule refl, rule count, assumption,
      simp add: ord_insert_def, rule puts, assumption, simp, simp add: ord_insert_def, rule refl, rule count, assumption,
      simp add: ord_insert_def ptr_icmp_def icmp_vals, rule puts, assumption, simp,
      simp add: ord_insert_def ptr_icmp_def icmp_vals, rule refl, rule count, assumption,
      simp add: ord_insert_def ptr_icmp_def icmp_vals, rule tree_dispose_goes_on [OF mem], assumption,
      simp add: ord_insert_def ptr_icmp_def icmp_vals find_sample_def)
qed

lemma test_bintree_find_passes:
  assumes mem: "bintree_mem alloc new room" and ok: "rand_ok rand_fn" and leaves: "rand_leaves rand_fn 1337"
  shows "test_bintree_find alloc new room k rand_fn r = Inr None"
proof -
  obtain t where t: "bintree_init alloc ptr_icmp = Inr t" "tree_of nonneg_ptrs ptr_icmp [] t" by (rule tree_new [OF mem])
  have "drawn 0 (replicate find_sample Undef) []" by (simp add: drawn_def)
  from draw_ok [OF ok leaves this, of r] obtain ia r1 vs where
    draw: "c_loop (draw_body rand_fn) (0, replicate find_sample Undef, r) = Inr (ia, r1)" "drawn find_sample ia vs" by blast
  have a: "alloc (find_sample * 4)" using mem by (simp add: bintree_mem_def find_sample_def)
  have vs: "length vs = find_sample" "ia = map Val vs" "\<forall>v \<in> set vs. 0 \<le> sint v" "1337 \<notin> set vs"
    using draw(2) by (auto simp: drawn_def)
  have "find_inv vs 0 t" using t(2) by (auto simp: find_inv_def finds_def)
  then have put: "goes_on (for_each [0..<find_sample] (find_put new ia) t) (find_inv vs find_sample)"
    unfolding vs(2) by (rule goes_on_for0 [where I = "find_inv vs"]) (rule find_put_ok [OF mem vs(1,3)])
  have start: "test_bintree_find alloc new room k rand_fn r = verdict (
       and_then (for_each [0..<find_sample] (find_put new ia) t) (\<lambda>t1.
       and_then (for_each [0..<find_sample] (find_get t1 ia) ()) (\<lambda>_.
       bind_res (bintree_find (Some t1) (k, 1337)) (\<lambda>e.
       and_then (fail_if (e \<noteq> None) ''found element /not/ put in'') (\<lambda>_.
       call (bintree_dispose room (Some t1)))))))"
    using t(1) draw(1) a by (simp add: test_bintree_find_def)
  show ?thesis unfolding start
  proof (rule verdict_passes [where P = "\<lambda>_. True"], rule goes_on_then [OF put])
    fix t1
    assume "find_inv vs find_sample t1"
    then obtain xs where xs: "tree_of nonneg_ptrs ptr_icmp xs t1" "length xs \<le> find_sample"
      "\<forall>x \<in> nonneg_ptrs. finds ptr_icmp xs x \<longleftrightarrow> snd x \<in> set vs" using vs(1) by (auto simp: find_inv_def)
    note find = tree_find_ok [OF nonneg_order xs(1)]
    have get: "goes_on (for_each [0..<find_sample] (find_get t1 ia) ()) (\<lambda>_. True)"
    proof (rule goes_on_for0 [where I = "\<lambda>_ _. True"])
      fix i and u :: unit
      assume i: "i < find_sample"
      then have p: "(i, vs ! i) \<in> nonneg_ptrs" "vs ! i \<in> set vs" using vs by (auto simp: nonneg_ptrs_def)
      with xs(3) have "finds ptr_icmp xs (i, vs ! i)" by simp
      with find [OF p(1)] have "\<exists>e. bintree_find (Some t1) (i, vs ! i) = Inr (Some e)" by (auto simp: finds_def)
      moreover have "arr_get ia i = Inr (vs ! i)" using vs i by (simp add: arr_get_def)
      ultimately show "goes_on (find_get t1 ia i u) (\<lambda>_. True)" by (auto simp: find_get_def)
    qed simp
    have n: "(k, 1337) \<in> nonneg_ptrs" by (simp add: nonneg_ptrs_def)
    with xs(3) vs(4) have "\<not> finds ptr_icmp xs (k, 1337)" by auto
    with find [OF n] have none: "bintree_find (Some t1) (k, 1337) = Inr None" unfolding finds_def by metis
    show "goes_on (and_then (for_each [0..<find_sample] (find_get t1 ia) ()) (\<lambda>_.
       bind_res (bintree_find (Some t1) (k, 1337)) (\<lambda>e.
       and_then (fail_if (e \<noteq> None) ''found element /not/ put in'') (\<lambda>_.
       call (bintree_dispose room (Some t1)))))) (\<lambda>_. True)"
      by (rule goes_on_then [OF get]) (simp add: none tree_dispose_goes_on [OF mem xs(1,2)])
  qed
qed

section \<open>Removing\<close>

text \<open>Inserted in increasing order, the elements form a tree without left children; removal keeps that form.\<close>

fun spine :: "(nat \<times> 'a) list \<Rightarrow> 'a shape" where
  "spine [] = Leaf"
| "spine (n # ns) = Node Leaf n (spine ns)"

definition on_spine :: "int_ptr list \<Rightarrow> int_tree \<Rightarrow> bool" where
  "on_spine xs t \<longleftrightarrow> (\<exists>ns. xs = map snd ns \<and> bt_rep t (spine ns) \<and> bt_cmpfn t = ptr_icmp)"

lemma spine_simps: "preorder (spine ns) = ns" "inorder (spine ns) = ns" "size (spine ns) = length ns" "height (spine ns) = length ns"
  by (induction ns) auto

lemma plug_spine: "plug (rev (map (InR Leaf) ms) @ C) T = plug C (foldr (\<lambda>n T. Node Leaf n T) ms T)"
  by (induction ms arbitrary: C) (auto simp: plug_append)

lemma foldr_spine: "foldr (\<lambda>n T. Node Leaf n T) ms (spine ns) = spine (ms @ ns)"
  by (induction ms) auto

lemma locate_spine:
  "\<forall>m \<in> set ms. 0 < cmp x (snd m) \<Longrightarrow> locate cmp x C (spine (ms @ ns)) = locate cmp x (rev (map (InR Leaf) ms) @ C) (spine ns)"
  by (induction ms arbitrary: C) auto

lemma spine_put:
  assumes mem: "bintree_mem alloc new room" and t: "on_spine xs t" and x: "\<forall>y \<in> set xs. 0 < ptr_icmp x y" and len: "length xs < 100"
  shows "goes_on (tree_put new msg x t) (on_spine (xs @ [x]))"
proof -
  obtain ns where ns: "xs = map snd ns" "bt_rep t (spine ns)" "bt_cmpfn t = ptr_icmp" using t by (auto simp: on_spine_def)
  obtain a where a: "new (addrs (spine ns)) = Some a" "a \<notin> addrs (spine ns)"
    using mem finite_addrs [of "spine ns"] unfolding bintree_mem_def nodes_ok_def new_ok_def by blast
  have big: "\<forall>m \<in> set ns. 0 < ptr_icmp x (snd m)" using x ns(1) by auto
  have "locate ptr_icmp x [] (spine ns) = (rev (map (InR Leaf) ns), Leaf)"
    using locate_spine [of ns ptr_icmp x "[]" "[]"] big by simp
  then have "tree_insert ptr_icmp a x (spine ns) = spine (ns @ [(a, x)])"
    using plug_spine [of ns "[]"] foldr_spine [of ns "[(a, x)]"] by (simp add: tree_insert_def)
  with bintree_insert_ok [where new = new, OF ns(2) a, of x] len ns show ?thesis
    by (auto simp: tree_put_def on_spine_def spine_simps size_max_def intro!: exI [of _ "ns @ [(a, x)]"])
qed

lemma spine_del:
  assumes t: "on_spine (xs @ z # ys) t" and z: "\<forall>y \<in> set xs. 0 < ptr_icmp x y" "ptr_icmp x z = 0" and len: "length xs + length ys < 100"
  shows "goes_on (tree_del True msg x t) (on_spine (xs @ ys))"
proof -
  obtain ns where ns: "map snd ns = xs @ z # ys" "bt_rep t (spine ns)" "bt_cmpfn t = ptr_icmp" using t by (auto simp: on_spine_def)
  then obtain ms n ls where split: "ns = ms @ n # ls" "map snd ms = xs" "snd n = z" "map snd ls = ys"
    by (auto simp: map_eq_append_conv Cons_eq_map_conv map_eq_Cons_conv)
  have "locate ptr_icmp x [] (spine ns) = (rev (map (InR Leaf) ms), Node Leaf n (spine ls))"
    using locate_spine [of ms ptr_icmp x "[]" "n # ls"] z split by auto
  moreover have "unlinked Leaf n (spine ls) = (spine ls, Leaf)" by (simp add: unlinked_def)
  moreover have "size (spine ns) < size_max" "length ns = Suc (length ms + length ls)"
    using len split by (auto simp: spine_simps size_max_def)
  ultimately obtain t' where t': "bintree_remove (Some t) x = Inr (True, Some t')" "bt_rep t' (spine (ms @ ls))" "bt_cmpfn t' = ptr_icmp"
    using bintree_remove_ok [OF ns(2), of x "rev (map (InR Leaf) ms)" Leaf n "spine ls" "spine ls" Leaf] ns(3)
      plug_spine [of ms "[]" "spine ls"] foldr_spine [of ms ls] by (auto simp: bt_rep_def spine_simps)
  then have "on_spine (xs @ ys) t'" using split unfolding on_spine_def by (intro exI [of _ "ms @ ls"]) auto
  with t'(1) show ?thesis by (simp add: tree_del_def)
qed

lemma spine_del_absent:
  assumes t: "on_spine (xs @ ys) t" and x: "\<forall>y \<in> set xs. 0 < ptr_icmp x y" "\<forall>y \<in> set ys. ptr_icmp x y < 0"
  shows "goes_on (tree_del False msg x t) (on_spine (xs @ ys))"
proof -
  obtain ns where ns: "map snd ns = xs @ ys" "bt_rep t (spine ns)" "bt_cmpfn t = ptr_icmp" using t by (auto simp: on_spine_def)
  then obtain ms ls where split: "ns = ms @ ls" "map snd ms = xs" "map snd ls = ys" by (auto simp: map_eq_append_conv)
  have "snd (locate ptr_icmp x [] (spine ns)) = Leaf"
    using locate_spine [of ms ptr_icmp x "[]" ls] x split by (cases ls) auto
  then have "bintree_nodefind (Some t) x = Inr None"
    using nodefind_loop [of t None "spine ns" x "[]"] ns by (simp add: bintree_nodefind_def bt_rep_def bt_shape_def)
  with t show ?thesis by (simp add: tree_del_def bintree_remove_def)
qed

lemma spine_count: "on_spine xs t \<Longrightarrow> length xs = n \<Longrightarrow> goes_on (tree_count_is t n msg) (\<lambda>_. True)"
  by (auto simp: on_spine_def tree_count_is_def bt_count_ok spine_simps)

lemma arr_differs_ok:
  "take (length xs) (drop i arr) = map Val xs \<Longrightarrow> arr_differs arr i (map snd xs) = Inr False"
proof (induction xs arbitrary: i)
  case (Cons x xs)
  then have i: "i < length arr" by (cases "i < length arr") auto
  then have "drop i arr = arr ! i # drop (Suc i) arr" by (simp add: Cons_nth_drop_Suc)
  with Cons i show ?case by (simp add: arr_get_def)
qed simp

lemma spine_preorder:
  assumes mem: "bintree_mem alloc new room" and t: "on_spine xs t" and arr: "length arr = 3" "length xs \<le> 3" and vs: "map snd xs = vs"
  shows "goes_on (preorder_must_be room t vs m m' arr) (\<lambda>arr1. length arr1 = 3)"
proof -
  obtain ns where ns: "xs = map snd ns" "bt_rep t (spine ns)" using t by (auto simp: on_spine_def)
  then have "bintree_collect room (Some t) arr TRAV_PREORDER = Inr (True, fill arr 0 xs)"
    using bintree_collect_ok(1) [of t "spine ns" room arr] mem arr
    by (simp add: bt_rep_def spine_simps bintree_mem_def find_sample_def size_max_def)
  moreover have "arr_differs (fill arr 0 xs) 0 vs = Inr False" using vs arr_differs_ok [of xs 0 "fill arr 0 xs"] by (simp add: fill_def)
  ultimately show ?thesis using arr by (simp add: preorder_must_be_def length_fill)
qed

lemma test_bintree_remove_passes:
  assumes mem: "bintree_mem alloc new room" shows "test_bintree_remove alloc new room one two three = Inr None"
proof -
  obtain t where t: "bintree_init alloc ptr_icmp = Inr t" "tree_of UNIV ptr_icmp [] t" by (rule tree_new [OF mem])
  then obtain T where "bt_rep t T" "elems T = []" "bt_cmpfn t = ptr_icmp" by (auto simp: tree_of_def bt_holds_def)
  then have start: "on_spine [] t" by (cases T) (auto simp: on_spine_def)
  let ?p = "(one, 1) :: int_ptr" and ?q = "(two, 2) :: int_ptr" and ?r = "(three, 3) :: int_ptr"
  note vals = ptr_icmp_def icmp_vals
  note put = goes_on_then [OF spine_put [OF mem]] and count = goes_on_then [OF spine_count] and pre = goes_on_then [OF spine_preorder [OF mem]]
  have del: "on_spine [?p, ?q, ?r] u \<Longrightarrow> goes_on (tree_del True msg ?p u) (on_spine [?q, ?r])"
    "on_spine [?q, ?r] u \<Longrightarrow> goes_on (tree_del False msg ?p u) (on_spine [?q, ?r])"
    "on_spine [?q, ?r] u \<Longrightarrow> goes_on (tree_del True msg ?r u) (on_spine [?q])"
    "on_spine [?q] u \<Longrightarrow> goes_on (tree_del False msg ?r u) (on_spine [?q])"
    "on_spine [?q] u \<Longrightarrow> goes_on (tree_del True msg ?q u) (on_spine [])" for u msg
    using spine_del [of "[]" ?p "[?q, ?r]" u ?p] spine_del_absent [of "[]" "[?q, ?r]" u ?p] spine_del [of "[?q]" ?r "[]" u ?r]
      spine_del_absent [of "[?q]" "[]" u ?r] spine_del [of "[]" ?q "[]" u ?q] by (simp_all add: vals)
  note dels = goes_on_then [OF del(1)] goes_on_then [OF del(2)] goes_on_then [OF del(3)] goes_on_then [OF del(4)] goes_on_then [OF del(5)]
  have dispose: "on_spine [] u \<Longrightarrow> goes_on (call (bintree_dispose room (Some u))) (\<lambda>_. True)" for u
  proof -
    assume "on_spine [] u"
    then have "tree_of UNIV ptr_icmp [] u" by (auto simp: on_spine_def tree_of_def bt_holds_def search_tree_def intro!: exI [of _ Leaf])
    from tree_dispose_goes_on [OF mem this] show ?thesis by simp
  qed
  have "check_remove_1 alloc new room one two three = Inr None" unfolding check_remove_1_def t(1) bind_res_Inr
    by (rule verdict_passes [where P = "\<lambda>_. True"], rule put [OF start], simp, simp, rule put, assumption, simp add: vals, simp,
      rule put, assumption, simp add: vals, simp, rule count, assumption, simp, rule pre, assumption, simp, simp, simp,
      rule dels, simp, rule count, assumption, simp, rule pre, assumption, assumption, simp, simp,
      rule dels, assumption, rule dels, assumption, rule count, assumption, simp, rule pre, assumption, assumption, simp, simp,
      rule dels, assumption, rule dels, assumption, rule count, assumption, simp, rule pre, assumption, assumption, simp, simp,
      rule dispose)
  then show ?thesis by (simp add: test_bintree_remove_def)
qed

end
