(* ===== verification/TestTreeWalk.thy ===== *)
theory TestTreeWalk imports TestBinTree DynArr begin

text \<open>
  test_bintree.c, the tests on trees of characters: test_iter and test_balance. In a hundred thousand rounds
  a tree is made of up to 18 random letters and iterated over, or balanced. The seed of the random numbers
  is the state \<open>r\<close> that \<open>srand\<close> left; the tests pass for all of them.
\<close>

section \<open>The code\<close>

text \<open>A pointer into the array of the letters is the index and the letter there, which does not change while the tree exists.\<close>

type_synonym char_ptr = "nat \<times> 8 word"
type_synonym char_tree = "char_ptr bintree"

definition ptr_chcmp :: "char_ptr \<Rightarrow> char_ptr \<Rightarrow> int" where
  "ptr_chcmp p q = chcmp (snd p) (snd q)"

definition chars_in :: "(nat set \<Rightarrow> nat option) \<Rightarrow> 8 word list \<Rightarrow> char_tree \<Rightarrow> char_tree tst" where
  "chars_in new inp = for_each [0..<length inp] (\<lambda>i. tree_put new ''insertion failed'' (i, inp ! i))"

text \<open>The label \<open>out\<close>: the tree is disposed of (and the arrays, which nothing refers to any more, are freed), and the message, if there is one, returned.\<close>

definition at_out :: "nat \<Rightarrow> (string \<times> char_tree, char_tree) part \<Rightarrow> unit tst" where
  "at_out room m =
     bind_res m (\<lambda>r.
     case r of
       Inl (e, t) \<Rightarrow> bind_res (bintree_dispose room (Some t)) (\<lambda>_. fail e)
     | Inr t \<Rightarrow> call (bintree_dispose room (Some t)))"

text \<open>An array of \<open>len + 1\<close> pointers, all but the last set to \<open>&nc\<close>; NULL from \<open>malloc\<close> is written through.\<close>

definition nc_array :: "(nat \<Rightarrow> bool) \<Rightarrow> nat \<Rightarrow> char_ptr \<Rightarrow> char_ptr cell list res" where
  "nc_array alloc len nc =
     (if \<not> alloc (sz_mul (sz_add len 1) ptr_size) then if len = 0 then Inr [] else Inl Null_Deref
      else Inr (replicate len (Val nc) @ [Undef]))"

definition collects ::
  "nat \<Rightarrow> char_tree \<Rightarrow> char_ptr cell list \<Rightarrow> int \<Rightarrow> string \<Rightarrow> (string \<times> char_tree, char_ptr cell list) part" where
  "collects room t arr travtype msg =
     bind_res (bintree_collect room (Some t) arr travtype) (\<lambda>(ok, arr1).
     and_then (fail_if (\<not> ok) (msg, t)) (\<lambda>_. go_on arr1))"

text \<open>\<open>(size_t)log2(n)\<close>; the logarithm of 0 is not finite, and converting it is undefined.\<close>

definition size_log2 :: "nat \<Rightarrow> nat res" where
  "size_log2 n = (if n = 0 then Inl Bad_Arith else Inr (ilog2 n))"

definition same_ptrs :: "char_tree \<Rightarrow> char_ptr cell list \<Rightarrow> char_ptr cell list \<Rightarrow> nat \<Rightarrow> unit \<Rightarrow> (string \<times> char_tree, unit) part" where
  "same_ptrs t rec chk i = (\<lambda>_.
     bind_res (arr_get rec i) (\<lambda>p.
     bind_res (arr_get chk i) (\<lambda>q.
     fail_if (p \<noteq> q) (''tree messed up after balance'', t))))"

text \<open>What is between the two traversals: the tree is balanced and its height compared with the logarithm of its count.\<close>

definition balance_part ::
  "(nat \<Rightarrow> bool) \<Rightarrow> (nat set \<Rightarrow> nat option) \<Rightarrow> nat \<Rightarrow> char_tree \<Rightarrow> (string \<times> char_tree, char_tree) part" where
  "balance_part alloc new room t =
     bind_res (bintree_balance alloc new room t) (\<lambda>t1.
     bind_res (bintree_height room (Some t1)) (\<lambda>nheight.
     bind_res (bintree_count (Some t1)) (\<lambda>n.
     bind_res (size_log2 n) (\<lambda>k.
     and_then (fail_if (1 + k < nheight) (''bad height after balance'', t1)) (\<lambda>_. go_on t1)))))"

definition compare_part ::
  "nat \<Rightarrow> char_ptr cell list \<Rightarrow> char_ptr cell list \<Rightarrow> char_tree \<Rightarrow> (string \<times> char_tree, char_tree) part" where
  "compare_part room rec chk t =
     and_then (collects room t chk TRAV_INORDER ''bintree_collect failed (2)'') (\<lambda>chk1.
     bind_res (bintree_count (Some t)) (\<lambda>bc.
     and_then (for_each [0..<bc] (same_ptrs t rec chk1) ()) (\<lambda>_. go_on t)))"

text \<open>\<open>nc\<close> is the address of the local variable of that name, which is 0.\<close>

definition check_balance :: "(nat \<Rightarrow> bool) \<Rightarrow> (nat set \<Rightarrow> nat option) \<Rightarrow> nat \<Rightarrow> nat \<Rightarrow> 8 word list \<Rightarrow> string option res" where
  "check_balance alloc new room nc inp = verdict (
     bind_res (bintree_init alloc ptr_chcmp) (\<lambda>t.
     and_then (chars_in new inp t) (\<lambda>t1.
     bind_res (nc_array alloc (length inp) (nc, 0)) (\<lambda>rec.
     bind_res (nc_array alloc (length inp) (nc, 0)) (\<lambda>chk.
     at_out room (
       and_then (collects room t1 rec TRAV_INORDER ''bintree_collect failed'') (\<lambda>rec1.
       and_then (balance_part alloc new room t1) (compare_part room rec1 chk))))))))"

definition iter_step :: "int \<Rightarrow> char_ptr cell list \<Rightarrow> nat \<Rightarrow> char_tree \<Rightarrow> (string \<times> char_tree, char_tree) part" where
  "iter_step travtype rec i t =
     bind_res (if i = 0 then bintree_first t travtype else bintree_next t) (\<lambda>(ch, t1).
     case ch of
       None \<Rightarrow> fail (if i = 0 then ''bintree_first failed'' else ''bintree_next failed'', t1)
     | Some p \<Rightarrow>
         bind_res (arr_get rec i) (\<lambda>q.
         and_then (fail_if (snd p \<noteq> snd q) (''iterative and recursive traversal disagree'', t1)) (\<lambda>_. go_on t1)))"

definition iter_part :: "int \<Rightarrow> char_tree \<Rightarrow> char_ptr cell list \<Rightarrow> (string \<times> char_tree, char_tree) part" where
  "iter_part travtype t rec =
     bind_res (bintree_count (Some t)) (\<lambda>bc.
     and_then (for_each [0..<bc] (iter_step travtype rec) t) (\<lambda>t1.
     bind_res (bintree_next t1) (\<lambda>(ch, t2).
     and_then (fail_if (ch \<noteq> None) (''bintree_next did not fail when it should'', t2)) (\<lambda>_. go_on t2))))"

definition check_iter_vs_rec ::
  "(nat \<Rightarrow> bool) \<Rightarrow> (nat set \<Rightarrow> nat option) \<Rightarrow> nat \<Rightarrow> nat \<Rightarrow> 8 word list \<Rightarrow> int \<Rightarrow> string option res" where
  "check_iter_vs_rec alloc new room nc inp travtype = verdict (
     bind_res (bintree_init alloc ptr_chcmp) (\<lambda>t.
     and_then (chars_in new inp t) (\<lambda>t1.
     bind_res (nc_array alloc (length inp) (nc, 0)) (\<lambda>rec.
     at_out room (and_then (collects room t1 rec travtype ''bintree_collect failed'') (iter_part travtype t1))))))"

text \<open>\<open>'A' + (rand()>>3) % 26\<close>, \<open>len\<close> times.\<close>

fun rand_chars :: "('r \<Rightarrow> int \<times> 'r) \<Rightarrow> nat \<Rightarrow> 'r \<Rightarrow> 8 word list \<times> 'r" where
  "rand_chars rand_fn 0 r = ([], r)"
| "rand_chars rand_fn (Suc len) r =
     (let (x, r1) = rand_below rand_fn 26 r; (cs, r2) = rand_chars rand_fn len r1 in (word_of_int (65 + x) # cs, r2))"

text \<open>One round: \<open>rand() % (sizeof data - 2) + 1\<close> letters, with the \<open>int\<close> made a \<open>size_t\<close>.\<close>

definition rand_round :: "('r \<Rightarrow> int \<times> 'r) \<Rightarrow> (8 word list \<Rightarrow> string option res) \<Rightarrow> 'r \<Rightarrow> 'r tst" where
  "rand_round rand_fn chkfn r =
     (let (x, r1) = rand_fn r; len = nat (x mod 2 ^ 64) mod 18 + 1; (data, r2) = rand_chars rand_fn len r1 in
      bind_res (chkfn data) (\<lambda>e. case e of Some msg \<Rightarrow> fail msg | None \<Rightarrow> go_on r2))"

definition walk_rounds :: nat where
  "walk_rounds = 100000"

definition test_bintree_iter ::
  "(nat \<Rightarrow> bool) \<Rightarrow> (nat set \<Rightarrow> nat option) \<Rightarrow> nat \<Rightarrow> nat \<Rightarrow> ('r \<Rightarrow> int \<times> 'r) \<Rightarrow> 'r \<Rightarrow> string option res" where
  "test_bintree_iter alloc new room nc rand_fn r = verdict (
     for_each [TRAV_PREORDER, TRAV_INORDER, TRAV_POSTORDER] (\<lambda>tt.
       for_each [0..<walk_rounds] (\<lambda>i. rand_round rand_fn (\<lambda>data. check_iter_vs_rec alloc new room nc data tt))) r)"

definition test_bintree_balance ::
  "(nat \<Rightarrow> bool) \<Rightarrow> (nat set \<Rightarrow> nat option) \<Rightarrow> nat \<Rightarrow> nat \<Rightarrow> ('r \<Rightarrow> int \<times> 'r) \<Rightarrow> 'r \<Rightarrow> string option res" where
  "test_bintree_balance alloc new room nc rand_fn r = verdict (
     for_each [0..<walk_rounds] (\<lambda>i. rand_round rand_fn (check_balance alloc new room nc)) r)"

section \<open>A tree of letters\<close>

lemma chcmp_order: "cmp_order UNIV ptr_chcmp"
  by unfold_locales (auto simp: ptr_chcmp_def chcmp_def)

interpretation char_ptrs: cmp_order UNIV ptr_chcmp by (rule chcmp_order)

definition letters :: "nat \<Rightarrow> char_ptr shape \<Rightarrow> char_tree \<Rightarrow> bool" where
  "letters n T t \<longleftrightarrow> bt_rep t T \<and> bt_cmpfn t = ptr_chcmp \<and> search_tree UNIV ptr_chcmp T \<and> T \<noteq> Leaf \<and> size T \<le> n"

lemma ord_insert_nonempty: "ord_insert cmp x xs \<noteq> []"
  by (simp add: ord_insert_def)

lemma chars_in_goes_on:
  assumes mem: "bintree_mem alloc new room" and t: "tree_of UNIV ptr_chcmp [] t" and inp: "inp \<noteq> []" "length inp \<le> 100"
  shows "goes_on (chars_in new inp t) (\<lambda>t1. \<exists>T. letters (length inp) T t1)"
proof -
  define I where "I = (\<lambda>i t. \<exists>xs. tree_of UNIV ptr_chcmp xs t \<and> length xs \<le> i \<and> (0 < i \<longrightarrow> xs \<noteq> []))"
  have "goes_on (chars_in new inp t) (I (length inp))"
    unfolding chars_in_def
  proof (rule goes_on_for0)
    show "I 0 t" using t by (auto simp: I_def)
    fix i t
    assume "I i t" and i: "i < length inp"
    then obtain xs where xs: "tree_of UNIV ptr_chcmp xs t" "length xs \<le> i" by (auto simp: I_def)
    let ?ys = "ord_insert ptr_chcmp (i, inp ! i) xs"
    have "length ?ys \<le> Suc i" using char_ptrs.length_ord_insert [of xs "(i, inp ! i)"] xs(2) by simp
    then have "I (Suc i) u" if "tree_of UNIV ptr_chcmp ?ys u" for u
      unfolding I_def using that by (intro exI [of _ ?ys]) (simp add: ord_insert_nonempty)
    moreover have "goes_on (tree_put new ''insertion failed'' (i, inp ! i) t) (tree_of UNIV ptr_chcmp ?ys)"
      using xs(2) i inp(2) by (intro tree_put_goes_on [OF mem chcmp_order xs(1)]) simp_all
    ultimately show "goes_on (tree_put new ''insertion failed'' (i, inp ! i) t) (I (Suc i))" by (rule goes_on_mono [rotated])
  qed
  then show ?thesis
  proof (rule goes_on_mono)
    fix t1
    assume "I (length inp) t1"
    then obtain T where "bt_rep t1 T" "search_tree UNIV ptr_chcmp T" "bt_cmpfn t1 = ptr_chcmp" "length (elems T) \<le> length inp" "elems T \<noteq> []"
      using inp(1) by (auto simp: I_def tree_of_def bt_holds_def)
    then show "\<exists>T. letters (length inp) T t1" by (intro exI [of _ T]) (auto simp: letters_def)
  qed
qed

lemma letters_room: "bintree_mem alloc new room \<Longrightarrow> letters n T t \<Longrightarrow> n \<le> 100 \<Longrightarrow> height T < room"
  using height_le_size_tree [of T] by (simp add: letters_def bintree_mem_def find_sample_def)

lemma letters_dispose:
  assumes "bintree_mem alloc new room" and "letters n T t" and "n \<le> 100"
  shows "bintree_dispose room (Some t) = Inr ()"
proof -
  have "bt_rep t T" using assms(2) by (simp add: letters_def)
  from bintree_clear_ok [OF this letters_room [OF assms]] show ?thesis by (auto simp: bintree_dispose_def)
qed

lemma at_out_goes_on:
  assumes "bintree_mem alloc new room" and "goes_on m (\<lambda>t. \<exists>T. letters n T t)" and "n \<le> 100"
  shows "goes_on (at_out room m) (\<lambda>_. True)"
  using assms letters_dispose [OF assms(1) _ assms(3)] by (auto simp: goes_on_def at_out_def call_def go_on_def)

lemma nc_array_ok:
  assumes "bintree_mem alloc new room" and "n \<le> 100"
  shows "nc_array alloc n nc = Inr (replicate n (Val nc) @ [Undef])"
  using assms by (simp add: nc_array_def bintree_mem_def sz_mul_def sz_add_def ptr_size_def size_max_def)

lemma collects_goes_on:
  assumes mem: "bintree_mem alloc new room" and t: "letters n T t" and n: "n \<le> 100"
    and mode: "mode = TRAV_PREORDER \<or> mode = TRAV_INORDER \<or> mode = TRAV_POSTORDER" and arr: "length arr = Suc n"
  shows "goes_on (collects room t arr mode msg) (\<lambda>rec. \<forall>i < size T. arr_get rec i = Inr (trav_list mode T ! i))"
proof -
  have shape: "bt_shape t T" and sz: "size T \<le> n" using t by (auto simp: letters_def bt_rep_def)
  have len: "length (trav_list mode T) = size T" by (simp add: trav_list_def)
  have "bintree_collect room (Some t) arr mode = Inr (True, fill arr 0 (trav_list mode T))"
    using bintree_collect_ok [OF shape letters_room [OF mem t n], of arr] sz arr n mode
    by (auto simp: trav_list_def elems_def size_max_def TRAV_PREORDER_def TRAV_INORDER_def TRAV_POSTORDER_def)
  then show ?thesis using len sz arr by (auto simp: collects_def fill_def arr_get_def nth_append)
qed

section \<open>Balancing\<close>

lemma balance_part_ok:
  assumes mem: "bintree_mem alloc new room" and t: "letters n T t" and n: "n \<le> 100"
  shows "goes_on (balance_part alloc new room t) (\<lambda>t1. \<exists>B. letters n B t1 \<and> elems B = elems T)"
proof -
  have rep: "bt_rep t T" "search_tree UNIV (bt_cmpfn t) T" "bt_cmpfn t = ptr_chcmp" "T \<noteq> Leaf" and size: "size T \<le> n"
    using t by (auto simp: letters_def)
  have "size T < max_cells" "alloc (size T * ptr_size)" "new_ok new" "\<And>A. finite A \<Longrightarrow> new A \<noteq> None"
    using mem size n by (auto simp: max_cells_def bintree_mem_def ptr_size_def nodes_ok_def)
  note bal = balance_ok [where alloc = alloc and room = room and new = new,
      OF chcmp_order [folded rep(3)] rep(1,2,4) this(1,2) letters_room [OF mem t n] this(3,4)]
  obtain t1 B where B: "bintree_balance alloc new room t = Inr t1" "bt_rep t1 B" "bt_cmpfn t1 = ptr_chcmp" "elems B = elems T"
    "\<forall>k. size T < 2 ^ k \<longrightarrow> height B \<le> k" using bal rep(3) by auto
  have sizes: "size B = size T" using B(4) by (metis length_elems)
  then have "B \<noteq> Leaf" using rep(4) by (metis eq_size_0)
  then have t1: "letters n B t1" using B(2,3,4) rep(2,3) size sizes unfolding letters_def search_tree_def by simp
  have "0 < size T" using rep(4) by (cases T) simp_all
  then have "size T < 2 ^ Suc (ilog2 (size T))" using ilog2_bounds by blast
  with B(5) have low: "height B \<le> Suc (ilog2 (size T))" by blast
  have h: "bintree_height room (Some t1) = Inr (height B)"
    using B(2) letters_room [OF mem t1 n] height_le_size_tree [of B] sizes size n
    by (intro bintree_height_ok) (auto simp: bt_rep_def size_max_def)
  have count: "bintree_count (Some t1) = Inr (size T)" using bt_count_ok [OF B(2)] sizes by simp
  have log: "size_log2 (size T) = Inr (ilog2 (size T))" using rep(4) by (simp add: size_log2_def)
  show ?thesis using low t1 B(4) by (auto simp: balance_part_def B(1) h count log)
qed

lemma trav_inorder: "trav_list TRAV_INORDER T = elems T"
  by (auto simp: trav_list_def elems_def TRAV_PREORDER_def TRAV_INORDER_def)

lemmas collects_inorder = collects_goes_on [where mode = TRAV_INORDER, unfolded trav_inorder, simplified]

lemma compare_part_ok:
  assumes mem: "bintree_mem alloc new room" and t: "letters n B t" and n: "n \<le> 100" and chk: "length chk = Suc n"
    and rec: "\<forall>i < size B. arr_get rec i = Inr (elems B ! i)"
  shows "goes_on (compare_part room rec chk t) (letters n B)"
  unfolding compare_part_def
proof (rule goes_on_then [OF collects_inorder [OF mem t n chk]])
  fix chk1
  assume "\<forall>i < size B. arr_get chk1 i = Inr (elems B ! i)"
  with rec have "goes_on (for_each [0..<size B] (same_ptrs t rec chk1) ()) (\<lambda>_. True)"
    by (intro goes_on_for0 [where I = "\<lambda>_ _. True"]) (simp_all add: same_ptrs_def)
  then have "goes_on (and_then (for_each [0..<size B] (same_ptrs t rec chk1) ()) (\<lambda>_. go_on t)) (letters n B)"
    by (rule goes_on_then) (simp add: t)
  moreover have "bintree_count (Some t) = Inr (size B)" using t by (simp add: letters_def bt_count_ok)
  ultimately show "goes_on (bind_res (bintree_count (Some t)) (\<lambda>bc.
      and_then (for_each [0..<bc] (same_ptrs t rec chk1) ()) (\<lambda>_. go_on t))) (letters n B)" by simp
qed

lemma check_balance_passes:
  assumes mem: "bintree_mem alloc new room" and inp: "inp \<noteq> []" "length inp \<le> 100"
  shows "check_balance alloc new room nc inp = Inr None"
proof -
  obtain t where t: "bintree_init alloc ptr_chcmp = Inr t" "tree_of UNIV ptr_chcmp [] t" by (rule tree_new [OF mem])
  let ?n = "length inp"
  let ?arr = "replicate ?n (Val (nc, 0)) @ [Undef]"
  show ?thesis unfolding check_balance_def t(1) nc_array_ok [OF mem inp(2)] bind_res_Inr
  proof (rule verdict_passes [where P = "\<lambda>_. True"], rule goes_on_then [OF chars_in_goes_on [OF mem t(2) inp]],
      elim exE, rule at_out_goes_on [OF mem _ inp(2)], rule goes_on_then [OF collects_inorder [OF mem _ inp(2)]], assumption, simp)
    fix t1 T rec
    assume T: "letters ?n T t1" and rec: "\<forall>i < size T. arr_get rec i = Inr (elems T ! i)"
    show "goes_on (and_then (balance_part alloc new room t1) (compare_part room rec ?arr)) (\<lambda>t2. \<exists>B. letters ?n B t2)"
    proof (rule goes_on_then [OF balance_part_ok [OF mem T inp(2)]], elim exE conjE)
      fix t2 B
      assume B: "letters ?n B t2" "elems B = elems T"
      then have "size B = size T" by (metis length_elems)
      with rec B(2) have "goes_on (compare_part room rec ?arr t2) (letters ?n B)" by (intro compare_part_ok [OF mem B(1) inp(2)]) simp_all
      then show "goes_on (compare_part room rec ?arr t2) (\<lambda>t2. \<exists>B. letters ?n B t2)" by (rule goes_on_mono) blast
    qed
  qed
qed

section \<open>Iterating\<close>

definition same_nodes :: "'a bintree \<Rightarrow> 'a bintree \<Rightarrow> bool" where
  "same_nodes t t1 \<longleftrightarrow> bt_nodes t1 = bt_nodes t \<and> bt_root t1 = bt_root t \<and> bt_count t1 = bt_count t \<and> bt_cmpfn t1 = bt_cmpfn t"

lemma yield_keeps_nodes: "bt_yield t p = Inr (x, t1) \<Longrightarrow> same_nodes t t1" "bt_done t = Inr (x, t1) \<Longrightarrow> same_nodes t t1"
  by (auto simp: bt_yield_def bt_done_def bind_res_eq_Inr same_nodes_def)

lemma step_keeps_nodes:
  "next_preorder t = Inr (x, t1) \<Longrightarrow> same_nodes t t1" "next_inorder t = Inr (x, t1) \<Longrightarrow> same_nodes t t1"
  "next_postorder t = Inr (x, t1) \<Longrightarrow> same_nodes t t1"
  unfolding next_preorder_def next_inorder_def next_postorder_def
  by (auto simp: bind_res_eq_Inr simp del: not_None_eq split: if_splits prod.splits intro: yield_keeps_nodes)

lemma next_keeps_nodes: "bintree_next t = Inr (x, t1) \<Longrightarrow> same_nodes t t1"
  by (auto simp: bintree_next_def bind_res_eq_Inr split: if_splits intro: step_keeps_nodes) (simp add: same_nodes_def)

lemma first_keeps_nodes: "bintree_first t mode = Inr (x, t1) \<Longrightarrow> same_nodes t t1"
  by (auto simp: bintree_first_def Let_def first_preorder_def first_inorder_def first_postorder_def bind_res_eq_Inr same_nodes_def
    split: if_splits dest!: yield_keeps_nodes(1))

lemma letters_same:
  "letters n T t \<Longrightarrow> same_nodes t t1 \<Longrightarrow> letters n T t1"
  by (simp add: letters_def bt_rep_def bt_shape_def same_nodes_def)

text \<open>Before step \<open>i\<close> the elements from \<open>i\<close> on are still to come.\<close>

definition walk_inv :: "int \<Rightarrow> nat \<Rightarrow> char_ptr shape \<Rightarrow> nat \<Rightarrow> char_tree \<Rightarrow> bool" where
  "walk_inv mode n T i t \<longleftrightarrow> letters n T t \<and>
     (0 < i \<longrightarrow> nexts bintree_next (Suc (size T - i)) t = Inr (map Some (drop i (trav_list mode T)) @ [None]))"

lemma iter_step_ok:
  assumes t: "walk_inv mode n T i t" and i: "i < size T" and rec: "\<forall>i < size T. arr_get rec i = Inr (trav_list mode T ! i)"
    and mode: "mode = TRAV_PREORDER \<or> mode = TRAV_INORDER \<or> mode = TRAV_POSTORDER"
  shows "goes_on (iter_step mode rec i t) (walk_inv mode n T (Suc i))"
proof -
  have letters: "letters n T t" using t by (simp add: walk_inv_def)
  have len: "length (trav_list mode T) = size T" by (simp add: trav_list_def)
  have "\<exists>t1. (if i = 0 then bintree_first t mode else bintree_next t) = Inr (Some (trav_list mode T ! i), t1) \<and> walk_inv mode n T (Suc i) t1"
  proof (cases "i = 0")
    case True
    obtain l m r where T: "T = Node l m r" using i by (cases T) auto
    have shape: "bt_shape t T" using letters by (simp add: letters_def bt_rep_def)
    from traversal_modes [OF shape T mode] obtain x xs t1 where
      x: "trav_list mode T = x # xs" "bintree_first t mode = Inr (Some x, t1)"
        "nexts bintree_next (Suc (length xs)) t1 = Inr (map Some xs @ [None])" by blast
    have "letters n T t1" using letters_same [OF letters] first_keeps_nodes [OF x(2)] by blast
    moreover have "size T - 1 = length xs" using len x(1) by simp
    ultimately have "walk_inv mode n T (Suc 0) t1" using x by (simp add: walk_inv_def)
    with x True show ?thesis by simp
  next
    case False
    then have "nexts bintree_next (Suc (size T - i)) t = Inr (map Some (drop i (trav_list mode T)) @ [None])"
      using t by (simp add: walk_inv_def)
    moreover have "drop i (trav_list mode T) = trav_list mode T ! i # drop (Suc i) (trav_list mode T)" "Suc (size T - i) = Suc (Suc (size T - Suc i))"
      using i len by (auto simp: Cons_nth_drop_Suc)
    ultimately obtain t1 where t1: "bintree_next t = Inr (Some (trav_list mode T ! i), t1)"
      "nexts bintree_next (Suc (size T - Suc i)) t1 = Inr (map Some (drop (Suc i) (trav_list mode T)) @ [None])"
      by (simp only: nexts.simps(2) [of bintree_next "Suc (size T - Suc i)"]) (auto simp: bind_res_eq_Inr simp del: nexts.simps)
    have "letters n T t1" using letters_same [OF letters] next_keeps_nodes [OF t1(1)] by blast
    with t1 False show ?thesis by (simp add: walk_inv_def)
  qed
  then obtain t1 where t1: "(if i = 0 then bintree_first t mode else bintree_next t) = Inr (Some (trav_list mode T ! i), t1)"
    "walk_inv mode n T (Suc i) t1" by blast
  then show ?thesis unfolding iter_step_def t1(1) using rec i by simp
qed

lemma iter_part_ok:
  assumes t: "letters n T t" and rec: "\<forall>i < size T. arr_get rec i = Inr (trav_list mode T ! i)"
    and mode: "mode = TRAV_PREORDER \<or> mode = TRAV_INORDER \<or> mode = TRAV_POSTORDER"
  shows "goes_on (iter_part mode t rec) (letters n T)"
proof -
  have count: "bintree_count (Some t) = Inr (size T)" and pos: "0 < size T"
    using t by (auto simp: letters_def bt_count_ok neq_Leaf_iff)
  have "walk_inv mode n T 0 t" using t by (simp add: walk_inv_def)
  then have loop: "goes_on (for_each [0..<size T] (iter_step mode rec) t) (walk_inv mode n T (size T))"
    by (rule goes_on_for0) (rule iter_step_ok [OF _ _ rec mode])
  show ?thesis unfolding iter_part_def count bind_res_Inr
  proof (rule goes_on_then [OF loop])
    fix t1
    assume t1: "walk_inv mode n T (size T) t1"
    then have letters: "letters n T t1" and "nexts bintree_next 1 t1 = Inr [None]"
      using pos by (auto simp: walk_inv_def trav_list_def)
    then obtain t2 where t2: "bintree_next t1 = Inr (None, t2)" by (auto simp: bind_res_eq_Inr)
    have "letters n T t2" using letters_same [OF letters] next_keeps_nodes [OF t2] by blast
    with t2 show "goes_on (bind_res (bintree_next t1) (\<lambda>(ch, t2).
       and_then (fail_if (ch \<noteq> None) (''bintree_next did not fail when it should'', t2)) (\<lambda>_. go_on t2))) (letters n T)" by simp
  qed
qed

lemma check_iter_passes:
  assumes mem: "bintree_mem alloc new room" and inp: "inp \<noteq> []" "length inp \<le> 100"
    and mode: "mode = TRAV_PREORDER \<or> mode = TRAV_INORDER \<or> mode = TRAV_POSTORDER"
  shows "check_iter_vs_rec alloc new room nc inp mode = Inr None"
proof -
  obtain t where t: "bintree_init alloc ptr_chcmp = Inr t" "tree_of UNIV ptr_chcmp [] t" by (rule tree_new [OF mem])
  show ?thesis unfolding check_iter_vs_rec_def t(1) nc_array_ok [OF mem inp(2)] bind_res_Inr
  proof (rule verdict_passes [where P = "\<lambda>_. True"], rule goes_on_then [OF chars_in_goes_on [OF mem t(2) inp]],
      elim exE, rule at_out_goes_on [OF mem _ inp(2)], rule goes_on_then [OF collects_goes_on [OF mem _ inp(2) mode]], assumption, simp)
    fix t1 T rec
    assume T: "letters (length inp) T t1" and rec: "\<forall>i < size T. arr_get rec i = Inr (trav_list mode T ! i)"
    show "goes_on (iter_part mode t1 rec) (\<lambda>t2. \<exists>T. letters (length inp) T t2)"
      by (rule goes_on_mono [OF iter_part_ok [OF T rec mode]], rule exI)
  qed
qed

section \<open>The tests pass\<close>

lemma rand_chars_length: "rand_chars rand_fn len r = (data, r1) \<Longrightarrow> length data = len"
  by (induction len arbitrary: r data r1) (auto split: prod.splits)

lemma rand_round_goes_on:
  assumes "\<And>data. data \<noteq> [] \<Longrightarrow> length data \<le> 100 \<Longrightarrow> chkfn data = Inr None"
  shows "goes_on (rand_round rand_fn chkfn r) (\<lambda>_. True)"
proof -
  obtain x r1 where x: "rand_fn r = (x, r1)" by fastforce
  obtain data r2 where data: "rand_chars rand_fn (nat (x mod 2 ^ 64) mod 18 + 1) r1 = (data, r2)" by fastforce
  have "nat (x mod 2 ^ 64) mod 18 < 18" by simp
  then have "data \<noteq> []" "length data \<le> 100" using rand_chars_length [OF data] by auto
  with assms have "chkfn data = Inr None" by blast
  with x data show ?thesis by (simp add: rand_round_def)
qed

lemma rounds_go_on:
  assumes "\<And>data. data \<noteq> [] \<Longrightarrow> length data \<le> 100 \<Longrightarrow> chkfn data = Inr None"
  shows "goes_on (for_each [0..<n] (\<lambda>i. rand_round rand_fn chkfn) r) (\<lambda>_. True)"
  by (rule goes_on_for0 [where I = "\<lambda>_ _. True"], simp, rule rand_round_goes_on [OF assms])

lemma test_bintree_balance_passes:
  assumes mem: "bintree_mem alloc new room" shows "test_bintree_balance alloc new room nc rand_fn r = Inr None"
  unfolding test_bintree_balance_def
  by (rule verdict_passes, rule rounds_go_on, rule check_balance_passes [OF mem])

lemma test_bintree_iter_passes:
  assumes mem: "bintree_mem alloc new room" shows "test_bintree_iter alloc new room nc rand_fn r = Inr None"
proof -
  have "goes_on (for_each [0..<walk_rounds] (\<lambda>i. rand_round rand_fn (\<lambda>data. check_iter_vs_rec alloc new room nc data mode)) r) (\<lambda>_. True)"
    if "mode = TRAV_PREORDER \<or> mode = TRAV_INORDER \<or> mode = TRAV_POSTORDER" for mode r
    by (rule rounds_go_on, rule check_iter_passes [OF mem _ _ that])
  note all = goes_on_then [OF this]
  show ?thesis unfolding test_bintree_iter_def for_each.simps
    by (rule verdict_passes [where P = "\<lambda>_. True"], rule all, simp, rule all, simp, rule all, simp, simp)
qed

end
