(* ===== verification/UnitTests.thy ===== *)
theory UnitTests imports TestHeap TestDeque TestStack TestPtrList TestHashMap TestDynArr TestTreeWalk begin

text \<open>
  All unit tests of the library, in the order of the programs in src/unittests/Makefile.am; a program runs
  the tests of one file. Two of them hardly test anything: that of addr.c always passes, that of graph.c
  always fails. Given memory, and random numbers that are in the range of \<open>rand\<close> and not 1337 for ever, all
  tests but the last one pass.
\<close>

definition test_addr_basic :: "string option res" where
  "test_addr_basic = verdict (go_on ())"

definition test_graph_basic :: "string option res" where
  "test_graph_basic = verdict (fail ''unit test not implemented'' :: unit tst)"

text \<open>The program srstest calls nothing of the library; its exit status is that of success.\<close>

definition srstest_main :: int where
  "srstest_main = 0"

text \<open>\<open>var i\<close> is the address of the \<open>i\<close>-th local variable of a test, \<open>r\<close> the state of the random numbers.\<close>

definition unit_tests ::
  "(nat \<Rightarrow> bool) \<Rightarrow> (nat set \<Rightarrow> nat option) \<Rightarrow> nat \<Rightarrow> (nat \<Rightarrow> nat) \<Rightarrow> ('r \<Rightarrow> int \<times> 'r) \<Rightarrow> 'r \<Rightarrow> (string \<times> string \<times> string option res) list" where
  "unit_tests alloc new room var rand_fn r =
    [(''test_ptrlist.c'', ''test_basic'', test_ptrlist_basic alloc),
     (''test_ptrlist.c'', ''test_insert'', test_ptrlist_insert alloc new (var 0) (var 1) (var 2) (var 3)),
     (''test_ptrlist.c'', ''test_remove'', test_ptrlist_remove alloc new (var 0) (var 1) (var 2) (var 3)),
     (''test_hashmap.c'', ''test_basic'', test_hashmap_basic alloc),
     (''test_hashmap.c'', ''test_insert'',
        test_hashmap_insert alloc new (var 0) (var 1) (var 2) (var 3) (var 4) (var 5) (var 6) (var 7) (var 8)),
     (''test_hashmap.c'', ''test_iter'',
        test_hashmap_iter alloc new (var 0) (var 1) (var 2) (var 3) (var 4) (var 5) (var 6) (var 7)),
     (''test_bintree.c'', ''test_basic'', test_bintree_basic alloc room),
     (''test_bintree.c'', ''test_insert'', test_bintree_insert alloc new room (var 0) (var 1)),
     (''test_bintree.c'', ''test_find'', test_bintree_find alloc new room (var 0) rand_fn r),
     (''test_bintree.c'', ''test_iter'', test_bintree_iter alloc new room (var 0) rand_fn r),
     (''test_bintree.c'', ''test_balance'', test_bintree_balance alloc new room (var 0) rand_fn r),
     (''test_bintree.c'', ''test_remove'', test_bintree_remove alloc new room (var 0) (var 1) (var 2)),
     (''test_deque.c'', ''test_basic'', test_deque_basic alloc),
     (''test_deque.c'', ''test_pushpop'', test_deque_pushpop alloc),
     (''test_deque.c'', ''test_grow'', test_deque_grow alloc),
     (''test_deque.c'', ''test_iter'', test_deque_iter alloc),
     (''test_heap.c'', ''test_basic'', test_heap_basic alloc),
     (''test_heap.c'', ''test_insert'', test_heap_insert alloc rand_fn r),
     (''test_stack.c'', ''test_basic'', test_stack_basic alloc),
     (''test_stack.c'', ''test_pushpop'', test_stack_pushpop alloc rand_fn r),
     (''test_stack.c'', ''test_iter'', test_stack_iter alloc rand_fn r),
     (''test_graph.c'', ''test_basic'', test_graph_basic),
     (''test_dynarr.c'', ''test_basic'', test_dynarr_basic alloc),
     (''test_dynarr.c'', ''test_access'', test_dynarr_access alloc),
     (''test_dynarr.c'', ''test_iter'', test_dynarr_iter alloc),
     (''test_addr.c'', ''test_basic'', test_addr_basic)]"

text \<open>Memory for all of the tests: blocks of up to four megabytes, any number of nodes, and a stack for a hundred calls.\<close>

definition tests_mem :: "(nat \<Rightarrow> bool) \<Rightarrow> (nat set \<Rightarrow> nat option) \<Rightarrow> nat \<Rightarrow> bool" where
  "tests_mem alloc new room \<longleftrightarrow> alloc_ok alloc \<and> (\<forall>n \<le> 2 ^ 22. alloc n) \<and> nodes_ok new \<and> find_sample < room"

lemma tests_mem_parts:
  assumes "tests_mem alloc new room"
  shows "alloc sizeof_ptrlist" "nodes_ok new" "hashmap_mem alloc new" "bintree_mem alloc new room" "deque_mem alloc"
    "heap_mem alloc" "stack_mem alloc" "dynarr_mem alloc"
  using assms by (auto simp: tests_mem_def sizeof_ptrlist_def hashmap_mem_def bintree_mem_def deque_mem_def heap_mem_def
    stack_mem_def mem_for_def dynarr_mem_def heap_sample_def stack_sample_def ptr_size_def)

text \<open>
  C40: run with enough memory, every unit test of the library passes but one: whatever the random numbers and
  wherever the local variables are, the only test that returns a message is the one of graph.c, which says that it
  is not implemented.
\<close>

theorem unit_tests_pass:
  assumes "tests_mem alloc new room" and "rand_ok rand_fn" and "rand_leaves rand_fn 1337" and "inj var"
  shows "[x \<leftarrow> unit_tests alloc new room var rand_fn r. snd (snd x) \<noteq> Inr None] =
    [(''test_graph.c'', ''test_basic'', Inr (Some ''unit test not implemented''))]"
proof -
  note mem = tests_mem_parts [OF assms(1)]
  have vars: "distinct [var 0, var 1, var 2, var 3]" "distinct [var 0, var 1, var 2, var 3, var 8]"
    using assms(4) by (simp_all add: inj_eq)
  show ?thesis unfolding unit_tests_def test_ptrlist_basic_passes [where alloc = alloc, OF mem(1)] test_ptrlist_insert_passes [where alloc = alloc, OF mem(1,2)]
      test_ptrlist_remove_passes [where alloc = alloc, OF mem(1,2)] test_hashmap_basic_passes [OF mem(3)] test_hashmap_insert_passes [OF mem(3) vars(2)]
      test_hashmap_iter_passes [OF mem(3) vars(1)] test_bintree_basic_passes [OF mem(4)] test_bintree_insert_passes [OF mem(4)]
      test_bintree_find_passes [OF mem(4) assms(2,3)] test_bintree_iter_passes [OF mem(4)] test_bintree_balance_passes [OF mem(4)]
      test_bintree_remove_passes [OF mem(4)] test_deque_basic_passes [OF mem(5)] test_deque_pushpop_passes [OF mem(5)]
      test_deque_grow_passes [OF mem(5)] test_deque_iter_passes [OF mem(5)] test_heap_basic_passes [OF mem(6)]
      test_heap_insert_passes [OF mem(6)] test_stack_basic_passes [OF mem(7)] test_stack_pushpop_passes [OF mem(7)]
      test_stack_iter_passes [OF mem(7)] test_dynarr_basic_passes [OF mem(8)] test_dynarr_access_passes [OF mem(8)]
      test_dynarr_iter_passes [OF mem(8)] test_addr_basic_def test_graph_basic_def
    by (simp add: verdict_def go_on_def fail_def)
qed

theorem unit_tests_pass_witness:
  "[x \<leftarrow> unit_tests (mem_upto 5000000) new_above 200 (\<lambda>i. 8 * i) (\<lambda>r. (r mod 2 ^ 31, r + 1)) (1337 :: int). snd (snd x) \<noteq> Inr None] =
    [(''test_graph.c'', ''test_basic'', Inr (Some ''unit test not implemented''))]"
proof (rule unit_tests_pass)
  show "tests_mem (mem_upto 5000000) new_above 200"
    by (simp add: tests_mem_def mem_upto_ok nodes_ok_def new_above_ok new_above_some find_sample_def) (simp add: mem_upto_def)
  show "rand_ok (\<lambda>r :: int. (r mod 2 ^ 31, r + 1))" by (simp add: rand_ok_def)
  show "rand_leaves (\<lambda>r :: int. (r mod 2 ^ 31, r + 1)) 1337" unfolding rand_leaves_def
  proof
    fix r :: int
    show "\<exists>n. fst ((\<lambda>r. (r mod 2 ^ 31, r + 1)) (((\<lambda>r. snd (r mod 2 ^ 31, r + 1)) ^^ n) r)) \<noteq> 1337"
    proof (cases "r mod 2 ^ 31 = 1337")
      case True
      then have "(r + 1) mod 2 ^ 31 = 1338" using mod_add_left_eq [of r "2 ^ 31" 1] by simp
      then show ?thesis by (intro exI [of _ 1]) simp
    next
      case False
      then show ?thesis by (intro exI [of _ 0]) simp
    qed
  qed
  show "inj (\<lambda>i :: nat. 8 * i)" by (simp add: inj_def)
qed

end
