(* ===== verification/Spec2Isabelle.thy ===== *)
theory Spec2Isabelle imports Main SrsPrelude CDouble Compare Heap Deque Stack StackRoom RingBuf PtrList StrList HashMap StrMap DynArr GraphStates BinTreeIter BufRd Misc Io HostSpec Addr Log IntLog Dump Dispose UnitTests begin

text \<open>
  A model of libsrsbsns, a C library of containers, buffered and line-wise input, and sockets
  (src/libsrsbsns, with the headers in src/include/libsrsbsns). Every theory models one source file, or a
  part of one; it gives the code first, one definition for each struct, function and loop, and then what
  makes it correct. The names of the definitions are those of the source; \<open>f_body\<close> is one iteration of the
  loop of \<open>f\<close>.

  \<^bold>\<open>The parts and how they use each other.\<close>

  \<^item> Sequences: \<open>Deque\<close> (deque.c) is a growing array whose placement is computed in floating point
    (\<open>CDouble\<close>); \<open>Stack\<close> and \<open>StackRoom\<close> (stack.c) are a wrapper around it and how much
    memory it needs. \<open>DynArr\<close> (dynarr.c) is an array that grows to
    any index. \<open>PtrList\<close> (ptrlist.c) is a linked list with an iterator; \<open>StrList\<close> (strlist.c) keeps owned
    copies of strings in one.
  \<^item> Maps and sets: \<open>HashMap\<close> (hashmap.c) keeps keys and values in two arrays of pointer lists; \<open>StrMap\<close>
    (strmap.c) is a hash map with string keys and three hash functions. \<open>BinTree\<close>, \<open>BinTreeScan\<close> and
    \<open>BinTreeIter\<close> (bintree.c) are a search tree with parent pointers: single operations, recursive ones,
    and the iterator. \<open>Heap\<close> (heap.c) is a binary heap in an array.
  \<^item> Graphs: \<open>Graph\<close> (graph.c) has nodes and edges that list each other in growing arrays; \<open>GraphTrav\<close> their
    traversals, one recursive and one with a stack; \<open>GraphStates\<close> the graphs that can be reached.
  \<^item> Input and output: \<open>RingBuf\<close> (ringbuf.c) is a circular byte buffer, on which \<open>BufRd\<close> (bufrd.c) builds
    buffered reading. \<open>Misc\<close> (misc.c) has time stamps and strings; \<open>Io\<close> (io.c) reads lines, writes, and waits
    for descriptors with deadlines; \<open>HostSpec\<close> and \<open>Addr\<close> (addr.c) split host specifications and make
    sockets, waiting through io.c.
  \<^item> Messages: \<open>Log\<close> (log.c, log.h) writes messages with a severity to the error stream or to syslog; \<open>IntLog\<close>
    (intlog.c, intlog.h) is the log of the library itself, which reads its thresholds from the environment
    into a string map. \<open>Dump\<close> has the functions of all the containers that print them; \<open>Dispose\<close> those
    that free the containers of one or two blocks (the others are beside the containers).
  \<^item> \<open>Compare\<close> has the comparison functions of the unit tests, which stand for those of clients.
  \<^item> The unit tests (src/unittests), which are small clients of the containers: \<open>TestKit\<close> is what they have in common,
    \<open>TestHeap\<close>, \<open>TestDeque\<close>, \<open>TestStack\<close>, \<open>TestPtrList\<close>, \<open>TestHashMap\<close>, \<open>TestDynArr\<close>, \<open>TestBinTree\<close> and \<open>TestTreeWalk\<close>
    are the tests, each run from start to end, and \<open>UnitTests\<close> is all of them together.

  \<^bold>\<open>How C is modelled\<close> (\<open>SrsPrelude\<close>). A computation yields \<open>Inr\<close> its result or \<open>Inl\<close> a fault: a NULL or
  dangling pointer, an index out of bounds, a value never written, an arithmetic overflow, a stack that
  is too small, or a loop that never ends. No theorem that a function returns a result is stated only
  for the case that it returns: \<open>= Inr r\<close> says that it does, without fault. Loops are \<open>c_loop\<close> over a
  function for one iteration; \<open>c_loop_rule\<close> proves them with an invariant and a measure. An array is a list
  of cells, written or not; a structure of pointers is a map from addresses to nodes, one for each list
  or tree, as nodes are never shared. A handle the code compares with NULL is an option.
  \<open>size_t\<close> is a natural number and the operations on it wrap at \<open>2 ^ 64\<close>; \<open>int64_t\<close> arithmetic faults on
  overflow; hash functions use words of 8, 16 and 32 bits. A \<open>double\<close> is a rational number rounded to 53
  bits after each operation.

  \<^bold>\<open>What is a parameter.\<close> Allocation: \<open>alloc n\<close> tells whether a request of \<open>n\<close> bytes succeeds (\<open>alloc_ok\<close>: nothing
  larger than \<open>PTRDIFF_MAX\<close>), \<open>new\<close> yields the address of a new node or none. A claim that needs memory says how much:
  requests up to a bound that its arguments give (\<open>room_for\<close>, \<open>smap_mem\<close>, \<open>settings_mem\<close>, \<open>mem_for\<close>), never every request.
  A hash map keeps in its state which keys are blocks that its copying function allocated (\<open>h_copies\<close>), as it frees them: freeing any
  other key is a fault, and \<open>heap_keys\<close> is what a copying function promises. The comparison, hash, equality
  and copying functions of a client, and the callbacks of a traversal. Random numbers. What a format expands to, which can also fail. The system calls, as functions on a state of the descriptor or of
  the system. What is assumed of each is a locale or a named predicate, and every locale is
  interpreted on functions of the repository or on an executable example.

  \<^bold>\<open>Interfaces.\<close> \<open>cmp_order\<close> (comparison functions) is extended by \<open>prio_queue\<close> and \<open>heap_client\<close> for the heap,
  the latter a \<open>sublocale\<close> of the former, and by \<open>ordered_set\<close> for the tree. \<open>lifo\<close> (Stack) and \<open>bounded_lifo\<close> (StackRoom,
  used by GraphTrav), \<open>byte_fifo\<close>
  (RingBuf, used by BufRd), \<open>hash_fns\<close>, \<open>heap_keys\<close> and \<open>finite_map\<close> (HashMap, used by StrMap), \<open>sparse_array\<close> (DynArr) and
  \<open>traversal\<close> (BinTreeIter, for the three orders) are contracts a component provides; \<open>byte_source\<close>, \<open>byte_sink\<close>,
  \<open>idle_env\<close> and \<open>network\<close> are contracts of the system; \<open>network\<close> allows sockets that do not fit into a set of
  descriptors and a clock that is set back, as often as a bound says.

  \<^bold>\<open>What is shown.\<close> For each container a well-formedness invariant, that every operation keeps it, and what
  the operation does to an abstract value: a multiset (Heap), a list (Deque, Stack, RingBuf, PtrList,
  StrList), a partial function (HashMap, StrMap), a function that is NULL almost everywhere (DynArr), a
  sorted list of elements (BinTree), lists of edges at each node (Graph). The traversals of a graph are equal to
  reference walks, which visit what is reachable exactly once. Whole scripts of operations are then compared with the same script
  on the abstract value. The loops are proved to end, also those that depend on rounding
  (\<open>Deque.deque_pushback_correct\<close>). For input and output: which bytes are consumed, stored and returned, for
  every source that delivers its bytes in whatever portions; deadlines; that every socket that is opened
  is returned or closed. For the logs: what holds in every state that can be reached. The unit tests
  are derived from these facts: each of them passes, for all random numbers, but the one that is not implemented. Where the code does not do what it means to, the theorem says what it does:
  \<open>heap_insert_unchecked_resize\<close>, \<open>ringbuf_put_zero_size\<close>, \<open>ptrlist_clear_dangling\<close>, \<open>slist_clear_twice\<close>,
  \<open>stack_push_lost\<close>, \<open>dynarr_index_overflow\<close>, \<open>bintree_remove_loses\<close>, \<open>bintree_balance_empty\<close>,
  \<open>make_sockaddr_strips_twice\<close>, \<open>addr_mksocket_hard_timeout\<close>, \<open>connect_wait_limits\<close>, \<open>unlink_node_correct\<close>,
  \<open>traverse_bfs_correct\<close>, \<open>traverse_dfs_correct\<close>, \<open>repeated_tag_stops\<close>, \<open>hmap_clear_empty\<close>, \<open>hmap_del_of_foreign_key\<close>,
  \<open>addr_mksocket_large_descriptor\<close>, \<open>heap_dump_out_of_bounds\<close>, \<open>ringbuf_dump_bytes\<close>, \<open>hmap_dump_complete\<close>.

  \<^bold>\<open>Bounds.\<close> Recursive C functions (height, clearing, collecting, balancing and printing of a tree, printing of a heap,
  traversal of a graph) take the number of nested calls the stack has room for; the height of the tree plus one, or
  the number of elements or nodes plus one, is shown to be enough. A stack of at most \<open>K\<close> elements needs requests of
  at most \<open>368 * K + 128\<close> bytes. The unit tests need
  blocks of at most four megabytes and a stack for a hundred nested calls (\<open>tests_mem\<close>). The reference walk \<open>stack_walk\<close> counts its steps, one for each edge and one more. There is no
  other fuel: loops are total functions with \<open>Inl Diverges\<close> as the value of one that does not end. Times are
  assumed below \<open>2 ^ 60\<close> microseconds.

  \<^bold>\<open>Not modelled.\<close> \<open>dump_core\<close>, which forks; log output in the modelled functions, as it does not change their state; the
  functions of the unit tests that print an element, and their seed (\<open>time\<close> and \<open>srand\<close> choose the state the random numbers start
  in, and every state is considered); the programs generated from the unit tests; the build files. The exponent range of \<open>double\<close>.
\<close>

end
